(* ===== verification/Prelude.thy ===== *)
theory Prelude
  imports Main "HOL-Library.Signed_Division"
begin

text \<open>
  Shared vocabulary of the development: the Go values the components have in common
  (instants, durations, 64-bit integers, fallible results), the generic lemmas on lists and
  option values they share, and the two library interfaces (reachable states of a step
  relation, doubling with a cap) that the components interpret.

  An instant (\<^verbatim>\<open>time.Time\<close>) is the number of nanoseconds since Go's zero time
  (1 January of year 1, UTC), so the zero time is \<open>0\<close>, \<^verbatim>\<open>IsZero\<close> is
  equality with \<open>0\<close>, and \<^verbatim>\<open>Before\<close>, \<^verbatim>\<open>After\<close> and
  \<^verbatim>\<open>Equal\<close> are the order and equality of \<open>int\<close>. A duration is a signed 64-bit
  number of nanoseconds: its arithmetic wraps (\<open>wrap64\<close>), its quotients truncate towards
  zero (\<open>sdiv\<close> of the library), and \<^verbatim>\<open>Time.Sub\<close> saturates (\<open>time_sub\<close>).
\<close>

named_theorems go_arith \<open>facts about 64-bit arithmetic and instants\<close>
named_theorems step_inv \<open>invariants kept by single steps\<close>

section \<open>Instants, durations and 64-bit integers\<close>

type_synonym time = int
type_synonym duration = int
type_synonym 'a result = "string + 'a"

abbreviation (input) Microsecond :: duration where "Microsecond \<equiv> 1000"
abbreviation (input) Millisecond :: duration where "Millisecond \<equiv> 1000000"
abbreviation (input) Second :: duration where "Second \<equiv> 1000000000"
abbreviation (input) Minute :: duration where "Minute \<equiv> 60000000000"
abbreviation (input) Hour :: duration where "Hour \<equiv> 3600000000000"

text \<open>The zero value of \<^verbatim>\<open>time.Time\<close>.\<close>

abbreviation (input) zero_time :: time where "zero_time \<equiv> 0"

definition max_int64 :: int where
  "max_int64 = 9223372036854775807"

definition min_int64 :: int where
  "min_int64 = - 9223372036854775808"

definition wrap64 :: "int \<Rightarrow> int" where
  "wrap64 x = (x + 9223372036854775808) mod 18446744073709551616 - 9223372036854775808"

definition fits64 :: "int \<Rightarrow> bool" where
  "fits64 x \<longleftrightarrow> min_int64 \<le> x \<and> x \<le> max_int64"

text \<open>\<^verbatim>\<open>t.Sub(u)\<close>: the difference, saturated to the range of a duration.\<close>

definition time_sub :: "time \<Rightarrow> time \<Rightarrow> duration" where
  "time_sub t u = max min_int64 (min max_int64 (t - u))"

text \<open>The Unix epoch counted from the zero time, and the microsecond conversions the
  database columns use (\<^verbatim>\<open>UnixMicro\<close> rounds towards the past).\<close>

definition unix_epoch :: time where
  "unix_epoch = 62135596800 * Second"

definition unix_micro :: "time \<Rightarrow> int" where
  "unix_micro t = (t - unix_epoch) div Microsecond"

definition from_micro :: "int \<Rightarrow> time" where
  "from_micro us = unix_epoch + us * Microsecond"

lemma wrap64_fits [go_arith]: "fits64 (wrap64 x)"
  by (simp add: fits64_def wrap64_def min_int64_def max_int64_def)

lemma wrap64_id [go_arith]: "fits64 x \<Longrightarrow> wrap64 x = x"
  by (simp add: fits64_def wrap64_def min_int64_def max_int64_def)

lemma fits64_nonneg [go_arith]: "0 \<le> x \<Longrightarrow> fits64 x \<longleftrightarrow> x \<le> max_int64"
  by (simp add: fits64_def min_int64_def)

lemma time_sub_exact [go_arith]: "fits64 (t - u) \<Longrightarrow> time_sub t u = t - u"
  by (simp add: time_sub_def fits64_def)

lemma time_sub_nonneg [go_arith]: "u \<le> t \<Longrightarrow> 0 \<le> time_sub t u"
  by (simp add: time_sub_def min_int64_def max_int64_def)

lemma time_sub_le [go_arith]: "u \<le> t \<Longrightarrow> time_sub t u \<le> t - u"
  by (simp add: time_sub_def min_int64_def)

lemma time_sub_max [go_arith]: "time_sub t u \<le> max_int64"
  by (simp add: time_sub_def min_int64_def max_int64_def)

lemma sdiv_nonneg [go_arith]: "0 \<le> a \<Longrightarrow> 0 < b \<Longrightarrow> a sdiv b = a div (b::int)"
  by (cases "a = 0") (simp_all add: signed_divide_int_def)

lemma from_micro_unix_micro: "unix_micro (from_micro us) = us"
  by (simp add: unix_micro_def from_micro_def)

lemma unix_micro_mono: "t \<le> u \<Longrightarrow> unix_micro t \<le> unix_micro u"
  by (simp add: unix_micro_def zdiv_mono1)

lemma from_micro_less_iff: "from_micro a < from_micro b \<longleftrightarrow> a < b"
  by (simp add: from_micro_def)

lemma unix_micro_floor: "from_micro (unix_micro t) \<le> t"
proof -
  have "Microsecond * ((t - unix_epoch) div Microsecond) \<le> t - unix_epoch"
    by (simp add: minus_mod_eq_mult_div [symmetric])
  then show ?thesis by (simp add: from_micro_def unix_micro_def)
qed

section \<open>Lists and maps\<close>

text \<open>The first element with a given property, as a Go loop with an early return finds it,
  is \<open>find\<close>; an association list stands for a Go map whose iteration order does not matter.\<close>

lemma find_Some_set: "find P xs = Some x \<Longrightarrow> x \<in> set xs \<and> P x"
  by (induction xs) (auto split: if_splits)

lemma find_None_all: "find P xs = None \<longleftrightarrow> (\<forall>x \<in> set xs. \<not> P x)"
  by (induction xs) auto

lemma filter_map_distinct: "distinct (map f xs) \<Longrightarrow> distinct (map f (filter P xs))"
  by (induction xs) auto

lemma sum_list_filter_le:
  fixes f :: "'a \<Rightarrow> nat"
  shows "sum_list (map f (filter P xs)) \<le> sum_list (map f xs)"
  by (induction xs) auto

section \<open>Strings\<close>

text \<open>Go strings are byte strings: a \<open>char\<close> is one byte. \<open>Cut\<close> is
  \<^verbatim>\<open>strings.Cut\<close> with a one-byte separator, \<open>CutPrefix\<close> is
  \<^verbatim>\<open>strings.CutPrefix\<close>.\<close>

definition char_between :: "nat \<Rightarrow> nat \<Rightarrow> char \<Rightarrow> bool" where
  "char_between lo hi c \<longleftrightarrow> lo \<le> of_char c \<and> of_char c \<le> hi"

abbreviation (input) is_digit :: "char \<Rightarrow> bool" where "is_digit \<equiv> char_between 48 57"
abbreviation (input) is_upper :: "char \<Rightarrow> bool" where "is_upper \<equiv> char_between 65 90"
abbreviation (input) is_lower :: "char \<Rightarrow> bool" where "is_lower \<equiv> char_between 97 122"

definition Cut :: "char \<Rightarrow> string \<Rightarrow> (string \<times> string) option" where
  "Cut sep s = (if sep \<in> set s
     then Some (takeWhile (\<lambda>c. c \<noteq> sep) s, tl (dropWhile (\<lambda>c. c \<noteq> sep) s)) else None)"

fun CutPrefix :: "string \<Rightarrow> string \<Rightarrow> string option" where
  "CutPrefix s [] = Some s"
| "CutPrefix [] (p # ps) = None"
| "CutPrefix (c # cs) (p # ps) = (if c = p then CutPrefix cs ps else None)"

lemma CutPrefix_Some_iff: "CutPrefix s p = Some rest \<longleftrightarrow> s = p @ rest"
  by (induction s p rule: CutPrefix.induct) auto

lemma Cut_Some: "Cut sep s = Some (a, b) \<Longrightarrow> s = a @ sep # b \<and> sep \<notin> set a"
proof -
  assume cut: "Cut sep s = Some (a, b)"
  then have a: "a = takeWhile (\<lambda>c. c \<noteq> sep) s" and b: "b = tl (dropWhile (\<lambda>c. c \<noteq> sep) s)"
    and mem: "sep \<in> set s"
    by (auto simp: Cut_def split: if_splits)
  have "dropWhile (\<lambda>c. c \<noteq> sep) s = sep # b"
    using mem b by (induction s) auto
  moreover have "sep \<notin> set a" using a by (auto dest: set_takeWhileD)
  ultimately show ?thesis using a takeWhile_dropWhile_id [of "\<lambda>c. c \<noteq> sep" s] by simp
qed

text \<open>\<^verbatim>\<open>strconv.FormatInt(i, 10)\<close>, which is also the text SQLite gives an integer.\<close>

definition digit_char :: "nat \<Rightarrow> char" where
  "digit_char n = char_of (48 + n)"

fun format_nat :: "nat \<Rightarrow> string" where
  "format_nat n = (if n < 10 then [digit_char n] else format_nat (n div 10) @ [digit_char (n mod 10)])"

declare format_nat.simps [simp del]

definition FormatInt :: "int \<Rightarrow> string" where
  "FormatInt i = (if i < 0 then CHR ''-'' # format_nat (nat (- i)) else format_nat (nat i))"

lemma digit_char_inj: "m < 10 \<Longrightarrow> n < 10 \<Longrightarrow> digit_char m = digit_char n \<Longrightarrow> m = n"
proof -
  assume *: "m < 10" "n < 10" "digit_char m = digit_char n"
  then have "of_char (char_of (48 + m) :: char) = (of_char (char_of (48 + n) :: char) :: nat)"
    by (simp add: digit_char_def)
  then show "m = n" using * by simp
qed

lemma format_nat_nonempty: "format_nat n \<noteq> []"
  by (simp add: format_nat.simps [of n])

lemma format_nat_inj: "format_nat m = format_nat n \<Longrightarrow> m = n"
proof (induction m arbitrary: n rule: format_nat.induct)
  case (1 m)
  show ?case
  proof (cases "m < 10")
    case True
    then have "format_nat n = [digit_char m]" using "1.prems" by (simp add: format_nat.simps [of m])
    then have "n < 10" "digit_char n = digit_char m"
      using format_nat_nonempty [of "n div 10"] by (auto simp: format_nat.simps [of n] split: if_splits)
    then show ?thesis using True digit_char_inj by blast
  next
    case False
    then have eq: "format_nat n = format_nat (m div 10) @ [digit_char (m mod 10)]"
      using "1.prems" by (simp add: format_nat.simps [of m])
    then have "\<not> n < 10"
      using format_nat_nonempty [of "m div 10"] by (auto simp: format_nat.simps [of n])
    then have "format_nat (m div 10) = format_nat (n div 10)" "digit_char (m mod 10) = digit_char (n mod 10)"
      using eq by (simp_all add: format_nat.simps [of n])
    then have "m div 10 = n div 10" "m mod 10 = n mod 10"
      using "1.IH" [OF False] digit_char_inj [of "m mod 10" "n mod 10"] by auto
    then show ?thesis by (metis div_mult_mod_eq)
  qed
qed

lemma FormatInt_inj: "0 \<le> i \<Longrightarrow> 0 \<le> j \<Longrightarrow> FormatInt i = FormatInt j \<Longrightarrow> i = j"
  by (auto simp: FormatInt_def dest!: format_nat_inj)

section \<open>Reachable states\<close>

text \<open>The states a component can get into: those its start predicate allows, closed under its
  step relation. The interface \<open>invariant_system\<close> is what a component promises about one
  step; its lemmas lift the promise to every reachable state.\<close>

inductive reachable :: "('s \<Rightarrow> bool) \<Rightarrow> ('s \<Rightarrow> 's \<Rightarrow> bool) \<Rightarrow> 's \<Rightarrow> bool"
  for start :: "'s \<Rightarrow> bool" and step :: "'s \<Rightarrow> 's \<Rightarrow> bool" where
  reachable_start: "start s \<Longrightarrow> reachable start step s"
| reachable_step: "reachable start step s \<Longrightarrow> step s t \<Longrightarrow> reachable start step t"

locale invariant_system =
  fixes start :: "'s \<Rightarrow> bool" and step :: "'s \<Rightarrow> 's \<Rightarrow> bool" and inv :: "'s \<Rightarrow> bool"
  assumes inv_start: "start s \<Longrightarrow> inv s"
    and inv_step: "inv s \<Longrightarrow> step s t \<Longrightarrow> inv t"
begin

lemma reachable_inv: "reachable start step s \<Longrightarrow> inv s"
  by (induction rule: reachable.induct) (auto intro: inv_start inv_step)

lemma steps_inv: "step\<^sup>*\<^sup>* s t \<Longrightarrow> inv s \<Longrightarrow> inv t"
  by (induction rule: rtranclp_induct) (auto intro: inv_step)

end

lemma reachable_steps: "reachable start step s \<Longrightarrow> step\<^sup>*\<^sup>* s t \<Longrightarrow> reachable start step t"
  by (rotate_tac, induction rule: rtranclp_induct) (auto intro: reachable_step)

section \<open>Doubling with a cap\<close>

text \<open>\<^verbatim>\<open>backoff = min(backoff*2, max)\<close>, the retry policy of the scheduling loop, the
  queue drain loop, the exhaustion writer and the terminal-state reader.\<close>

definition backoff_next :: "duration \<Rightarrow> duration \<Rightarrow> duration" where
  "backoff_next cap b = min (b * 2) cap"

locale capped_backoff =
  fixes base :: duration and cap :: duration
  assumes base_pos: "0 < base" and base_le_cap: "base \<le> cap"
begin

lemma backoff_closed_form: "(backoff_next cap ^^ n) base = min (base * 2 ^ n) cap"
proof (induction n)
  case 0
  then show ?case using base_le_cap by simp
next
  case (Suc n)
  have "0 < cap" using base_pos base_le_cap by simp
  then show ?case using Suc by (simp add: backoff_next_def min_def)
qed

lemma backoff_bounds: "base \<le> (backoff_next cap ^^ n) base \<and> (backoff_next cap ^^ n) base \<le> cap"
proof -
  have "base * 1 \<le> base * 2 ^ n" using base_pos by (intro mult_left_mono) auto
  then show ?thesis using base_le_cap by (simp add: backoff_closed_form)
qed

end

end
