(* ===== verification/Model.thy ===== *)
theory Model
  imports Prelude
begin

text \<open>
  The data model of \<^verbatim>\<open>src/internal/model\<close>: definitions of jobs and workers, runs,
  worker exhaustion records and alert channels, with the operations that package gives them.

  A Go pointer or a slice or map that may be \<^verbatim>\<open>nil\<close> is an \<open>option\<close>; a Go map is an
  association list with distinct keys. \<^verbatim>\<open>Clone\<close> copies the memory behind these fields
  and is the identity on the values modelled here.
\<close>

section \<open>Definitions\<close>

type_synonym kind = string
type_synonym go_map = "(string \<times> string) list"

abbreviation (input) KindJob :: kind where "KindJob \<equiv> ''job''"
abbreviation (input) KindWorker :: kind where "KindWorker \<equiv> ''worker''"

record definition_rec =
  d_ID :: int
  d_Name :: string
  d_Kind :: kind
  d_Revision :: int
  d_Source :: string
  d_Enabled :: "bool option"
  d_Command :: string
  d_Argv :: "string list option"
  d_Shell :: string
  d_Schedule :: string
  d_Timezone :: string
  d_CatchUp :: string
  d_OnOverlap :: string
  d_OnHistoryUnavailable :: string
  d_Retries :: int
  d_RetryDelay :: int
  d_RunOnStart :: bool
  d_RunAs :: string
  d_WorkingDir :: string
  d_EnvBase :: string
  d_Env :: "go_map option"
  d_SecretEnv :: "go_map option"
  d_EnvFile :: string
  d_Timeout :: int
  d_Grace :: int
  d_StopSignal :: string
  d_SuccessCodes :: "int list option"
  d_KeepRuns :: int
  d_KeepFor :: int
  d_LogMax :: int
  d_LogOnFull :: string
  d_Labels :: "go_map option"
  d_Alerts :: "string list option"
  d_Autostart :: "bool option"
  d_Restart :: string
  d_RestartDelay :: int
  d_MaxRestartAttempts :: int
  d_RestartBackoffMax :: int
  d_HealthyAfter :: int
  d_Priority :: int
  d_NextFireAt :: "time option"

text \<open>The Go zero value of a definition.\<close>

definition zero_definition :: definition_rec where
  "zero_definition = \<lparr>d_ID = 0, d_Name = '''', d_Kind = '''', d_Revision = 0, d_Source = '''',
     d_Enabled = None, d_Command = '''', d_Argv = None, d_Shell = '''', d_Schedule = '''',
     d_Timezone = '''', d_CatchUp = '''', d_OnOverlap = '''', d_OnHistoryUnavailable = '''',
     d_Retries = 0, d_RetryDelay = 0, d_RunOnStart = False, d_RunAs = '''', d_WorkingDir = '''',
     d_EnvBase = '''', d_Env = None, d_SecretEnv = None, d_EnvFile = '''', d_Timeout = 0,
     d_Grace = 0, d_StopSignal = '''', d_SuccessCodes = None, d_KeepRuns = 0, d_KeepFor = 0,
     d_LogMax = 0, d_LogOnFull = '''', d_Labels = None, d_Alerts = None, d_Autostart = None,
     d_Restart = '''', d_RestartDelay = 0, d_MaxRestartAttempts = 0, d_RestartBackoffMax = 0,
     d_HealthyAfter = 0, d_Priority = 0, d_NextFireAt = None\<rparr>"

definition IsEnabled :: "definition_rec \<Rightarrow> bool" where
  "IsEnabled d = (case d_Enabled d of None \<Rightarrow> True | Some b \<Rightarrow> b)"

definition DoesAutostart :: "definition_rec \<Rightarrow> bool" where
  "DoesAutostart d = (case d_Autostart d of None \<Rightarrow> True | Some b \<Rightarrow> b)"

section \<open>Runs\<close>

record resource_usage =
  UserCPUUS :: int
  SystemCPUUS :: int
  PeakRSSBytes :: int

record run_rec =
  r_ID :: string
  r_DefinitionID :: int
  r_Job :: string
  r_Kind :: kind
  r_Revision :: int
  r_DefinitionHash :: string
  r_Status :: string
  r_EndReason :: string
  r_Trigger :: string
  r_Attempt :: int
  r_ParentRunID :: string
  r_ScheduledFor :: "time option"
  r_MissedCount :: int
  r_BootID :: string
  r_PID :: int
  r_PGID :: int
  r_ProcessStartID :: string
  r_ExitCode :: "int option"
  r_Signal :: string
  r_QueuedAt :: time
  r_StartedAt :: "time option"
  r_EndedAt :: "time option"
  r_LogRef :: string
  r_LogBytes :: int
  r_LogTruncated :: bool
  r_ResourceUsage :: "resource_usage option"

definition zero_run :: run_rec where
  "zero_run = \<lparr>r_ID = '''', r_DefinitionID = 0, r_Job = '''', r_Kind = '''', r_Revision = 0,
     r_DefinitionHash = '''', r_Status = '''', r_EndReason = '''', r_Trigger = '''', r_Attempt = 0,
     r_ParentRunID = '''', r_ScheduledFor = None, r_MissedCount = 0, r_BootID = '''', r_PID = 0,
     r_PGID = 0, r_ProcessStartID = '''', r_ExitCode = None, r_Signal = '''', r_QueuedAt = 0,
     r_StartedAt = None, r_EndedAt = None, r_LogRef = '''', r_LogBytes = 0, r_LogTruncated = False,
     r_ResourceUsage = None\<rparr>"

definition TerminalStatuses :: "string list" where
  "TerminalStatuses = [''succeeded'', ''failed'', ''timeout'', ''stopped'', ''interrupted'',
     ''skipped'', ''missed'']"

definition Terminal :: "string \<Rightarrow> bool" where
  "Terminal status \<longleftrightarrow> status \<in> set TerminalStatuses"

lemmas Terminal_simps = Terminal_def TerminalStatuses_def

lemma not_Terminal_active:
  "\<not> Terminal ''queued''" "\<not> Terminal ''pending''" "\<not> Terminal ''running''"
  by (simp_all add: Terminal_simps)

record worker_exhaustion =
  we_Reason :: string
  we_LastRunID :: string
  we_Attempts :: int
  we_Revision :: int
  we_At :: time

section \<open>Alert channels\<close>

record alert_channel =
  ac_Name :: string
  ac_Type :: string
  ac_BotToken :: string
  ac_HasBotToken :: bool
  ac_ChatID :: string
  ac_DisableNotification :: bool
  ac_BatchWindow :: int
  ac_NotifyOn :: "string list"

definition AlertStatuses :: "string list" where
  "AlertStatuses = [''succeeded'', ''failed'', ''timeout'', ''skipped'', ''missed'', ''exhausted'']"

definition DefaultNotifyOn :: "string list" where
  "DefaultNotifyOn = [''failed'', ''timeout'', ''exhausted'']"

text \<open>\<^verbatim>\<open>^[a-z0-9][a-z0-9_.-]{0,99}$\<close>, the pattern of channel and definition names.\<close>

definition name_head :: "char \<Rightarrow> bool" where
  "name_head c \<longleftrightarrow> is_lower c \<or> is_digit c"

definition name_char :: "char \<Rightarrow> bool" where
  "name_char c \<longleftrightarrow> name_head c \<or> c = CHR ''_'' \<or> c = CHR ''.'' \<or> c = CHR ''-''"

definition namePattern :: "string \<Rightarrow> bool" where
  "namePattern s = (case s of [] \<Rightarrow> False
     | c # cs \<Rightarrow> name_head c \<and> length cs \<le> 99 \<and> list_all name_char cs)"

definition Redacted :: "alert_channel \<Rightarrow> alert_channel" where
  "Redacted c = c\<lparr>ac_HasBotToken := ac_BotToken c \<noteq> '''', ac_BotToken := ''''\<rparr>"

text \<open>The selected statuses, in display order and once each.\<close>

definition ordered_statuses :: "string list \<Rightarrow> string list" where
  "ordered_statuses sel = filter (\<lambda>st. st \<in> set sel) AlertStatuses"

text \<open>The character checks of the two halves of a Telegram bot token. The loops range over
  runes; every byte of a non-ASCII rune is at least 128 and fails the same tests.\<close>

definition token_id_ok :: "string \<Rightarrow> bool" where
  "token_id_ok s = list_all is_digit s"

definition token_secret_ok :: "string \<Rightarrow> bool" where
  "token_secret_ok s =
     list_all (\<lambda>c. is_lower c \<or> is_upper c \<or> is_digit c \<or> c = CHR ''_'' \<or> c = CHR ''-'') s"

text \<open>\<^verbatim>\<open>Normalize\<close> works on a pointer: the first component is the channel as the method
  leaves it, the second the error it returns (\<^verbatim>\<open>nil\<close> is \<open>None\<close>).\<close>

definition Normalize :: "alert_channel \<Rightarrow> alert_channel \<times> string option" where
  "Normalize c0 =
    (if \<not> namePattern (ac_Name c0) then (c0, Some ''invalid name'')
     else if ac_Type c0 \<noteq> ''telegram'' then (c0, Some ''unsupported type'')
     else
       let c1 = (if ac_BatchWindow c0 = 0 then c0\<lparr>ac_BatchWindow := 10\<rparr> else c0);
           c2 = (if ac_NotifyOn c1 = [] then c1\<lparr>ac_NotifyOn := DefaultNotifyOn\<rparr> else c1);
           notify = ordered_statuses (ac_NotifyOn c2)
       in if \<not> list_all (\<lambda>st. st \<in> set AlertStatuses) (ac_NotifyOn c2)
          then (c2, Some ''invalid notify_on'')
          else
            let c3 = c2\<lparr>ac_NotifyOn := notify\<rparr>
            in if ac_BatchWindow c3 < 1 \<or> ac_BatchWindow c3 > 3600
               then (c3, Some ''batch_window must be between 1 and 3600 seconds'')
               else if ac_ChatID c3 = '''' \<or> length (ac_ChatID c3) > 256
                 \<or> CHR 0x0D \<in> set (ac_ChatID c3) \<or> CHR 0x0A \<in> set (ac_ChatID c3)
               then (c3, Some ''chat_id is required and must be at most 256 characters'')
               else
                 (case Cut (CHR '':'') (ac_BotToken c3) of
                    None \<Rightarrow> (c3, Some ''a literal Telegram bot_token is required'')
                  | Some (tid, secret) \<Rightarrow>
                      if tid = '''' \<or> secret = '''' \<or> length (ac_BotToken c3) > 256
                      then (c3, Some ''a literal Telegram bot_token is required'')
                      else if \<not> token_id_ok tid then (c3, Some ''invalid Telegram bot_token'')
                      else if \<not> token_secret_ok secret then (c3, Some ''invalid Telegram bot_token'')
                      else (c3\<lparr>ac_HasBotToken := False\<rparr>, None)))"

text \<open>What a stored channel satisfies.\<close>

definition valid_channel :: "alert_channel \<Rightarrow> bool" where
  "valid_channel c \<longleftrightarrow>
     namePattern (ac_Name c) \<and> ac_Type c = ''telegram'' \<and>
     1 \<le> ac_BatchWindow c \<and> ac_BatchWindow c \<le> 3600 \<and>
     ac_NotifyOn c \<noteq> [] \<and> ac_NotifyOn c = ordered_statuses (ac_NotifyOn c) \<and>
     ac_ChatID c \<noteq> '''' \<and> length (ac_ChatID c) \<le> 256 \<and>
     CHR 0x0D \<notin> set (ac_ChatID c) \<and> CHR 0x0A \<notin> set (ac_ChatID c) \<and>
     length (ac_BotToken c) \<le> 256 \<and>
     (\<exists>tid secret. Cut (CHR '':'') (ac_BotToken c) = Some (tid, secret) \<and> tid \<noteq> '''' \<and>
        secret \<noteq> '''' \<and> token_id_ok tid \<and> token_secret_ok secret) \<and>
     \<not> ac_HasBotToken c"

lemma ordered_statuses_nonempty:
  "sel \<noteq> [] \<Longrightarrow> list_all (\<lambda>st. st \<in> set AlertStatuses) sel \<Longrightarrow> ordered_statuses sel \<noteq> []"
  by (cases sel) (auto simp: ordered_statuses_def filter_empty_conv)

lemma ordered_statuses_idem [simp]: "ordered_statuses (ordered_statuses sel) = ordered_statuses sel"
  unfolding ordered_statuses_def by (rule filter_cong) auto

lemma ordered_statuses_known: "list_all (\<lambda>st. st \<in> set AlertStatuses) (ordered_statuses sel)"
  by (auto simp: ordered_statuses_def list_all_iff)

lemma DefaultNotifyOn_nonempty [simp]: "DefaultNotifyOn \<noteq> []"
  by (simp add: DefaultNotifyOn_def)

lemma Normalize_valid: "Normalize c = (c', None) \<Longrightarrow> valid_channel c'"
  by (auto simp: Normalize_def valid_channel_def Let_def ordered_statuses_nonempty
      split: if_splits option.splits prod.splits)

lemma valid_channel_Normalize: "valid_channel c \<Longrightarrow> Normalize c = (c, None)"
proof -
  assume v: "valid_channel c"
  then have eq: "ordered_statuses (ac_NotifyOn c) = ac_NotifyOn c"
    by (simp add: valid_channel_def)
  then have sub: "list_all (\<lambda>st. st \<in> set AlertStatuses) (ac_NotifyOn c)"
    by (metis ordered_statuses_known)
  from v sub eq show ?thesis
    by (auto simp: Normalize_def valid_channel_def Let_def)
qed

section \<open>Properties\<close>

text \<open>A channel that \<^verbatim>\<open>Normalize\<close> accepts is well formed (name, token, chat, batch
  window, and a non-empty list of known statuses in display order, each once), and normalising it
  again changes nothing and succeeds.\<close>

lemma Normalize_sound:
  assumes "Normalize c = (c', None)"
  shows "valid_channel c' \<and> Normalize c' = (c', None) \<and> distinct (ac_NotifyOn c')"
proof -
  have "distinct (ordered_statuses sel)" for sel
    by (simp add: ordered_statuses_def AlertStatuses_def)
  then show ?thesis
    using Normalize_valid [OF assms] valid_channel_Normalize by (metis valid_channel_def)
qed

definition ops_channel :: alert_channel where
  "ops_channel = \<lparr>ac_Name = ''ops'', ac_Type = ''telegram'', ac_BotToken = ''12:ab'', ac_HasBotToken = True,
     ac_ChatID = ''42'', ac_DisableNotification = False, ac_BatchWindow = 0,
     ac_NotifyOn = [''missed'', ''failed'', ''failed'']\<rparr>"

lemma Normalize_sound_example:
  "valid_channel (ops_channel\<lparr>ac_HasBotToken := False, ac_BatchWindow := 10,
     ac_NotifyOn := [''failed'', ''missed'']\<rparr>)"
proof -
  have "Normalize ops_channel = (ops_channel\<lparr>ac_HasBotToken := False, ac_BatchWindow := 10,
     ac_NotifyOn := [''failed'', ''missed'']\<rparr>, None)" by code_simp
  from Normalize_sound [OF this] show ?thesis by blast
qed

end
