(* ===== verification/Tables.thy ===== *)
theory Tables
  imports Model
begin

text \<open>
  The metadata database of \<^verbatim>\<open>src/internal/store/store.go\<close>: one record per table of the
  \<^verbatim>\<open>schema\<close> constant, and the meaning of the statements the store executes on them.

  A table is the list of its rows in insertion order; a nullable column is an \<open>option\<close>; an
  instant in a column is its number of microseconds since the Unix epoch. Inserting checks the
  constraints the schema declares (primary keys, unique indexes, references) and fails without a
  change when one is violated; deleting a run cascades to its queue row and alert deliveries. A
  transaction returns the database it commits, or an error and the database it started from
  (\<^verbatim>\<open>defer tx.Rollback()\<close>). The JSON document of a definition is represented by the
  definition it decodes to.
\<close>

section \<open>Rows\<close>

datatype store_error = ErrNoRows | ErrConstraint | ErrRevisionConflict | ErrReadOnly
  | ErrIdempotencyConflict | ErrIdempotencyKeyExists | ErrInvalidTransition | ErrQueueFull
  | ErrQueueDuplicate | ErrUnknownAlertChannel | ErrAlertChannelReferenced | ErrAlertChannelLimit
  | ErrInvalidArgument string

record run_row =
  rr_run_id :: string
  rr_definition_id :: int
  rr_job :: string
  rr_kind :: kind
  rr_revision :: int
  rr_definition_hash :: string
  rr_status :: string
  rr_end_reason :: "string option"
  rr_trigger :: string
  rr_attempt :: int
  rr_parent_run_id :: "string option"
  rr_scheduled_for_us :: "int option"
  rr_missed_count :: int
  rr_boot_id :: "string option"
  rr_pid :: "int option"
  rr_pgid :: "int option"
  rr_process_start_id :: "string option"
  rr_exit_code :: "int option"
  rr_signal :: "string option"
  rr_queued_us :: int
  rr_started_us :: "int option"
  rr_ended_us :: "int option"
  rr_log_ref :: "string option"
  rr_log_bytes :: int
  rr_log_truncated :: bool
  rr_user_cpu_us :: "int option"
  rr_system_cpu_us :: "int option"
  rr_peak_rss_bytes :: "int option"

record queue_row =
  q_seq :: int
  q_run_id :: string
  q_definition_id :: int
  q_enqueued_us :: int
  q_expires_us :: int
  q_payload_bytes :: int

record idempotency_row =
  i_principal :: string
  i_operation :: string
  i_key :: string
  i_request_hash :: string
  i_run_id :: string
  i_created_us :: int

record schedule_row =
  ss_definition_id :: int
  ss_schedule_hash :: string
  ss_anchor_us :: int
  ss_last_fire_us :: "int option"
  ss_next_fire_us :: "int option"

record definition_row =
  df_definition_id :: int
  df_name :: string
  df_kind :: kind
  df_spec :: definition_rec
  df_spec_hash :: string
  df_revision :: int
  df_enabled :: bool
  df_source :: string
  df_created_us :: int
  df_updated_us :: int
  df_deleted_us :: "int option"

record revision_row =
  rv_definition_id :: int
  rv_revision :: int
  rv_spec :: definition_rec
  rv_spec_hash :: string
  rv_actor :: string
  rv_at_us :: int

text \<open>The audit columns \<^verbatim>\<open>before\<close> and \<^verbatim>\<open>after\<close> hold the document of a
  definition, of a redacted channel, or the text of an enabled flag.\<close>

datatype document = DocEmpty | DocDefinition definition_rec | DocChannel alert_channel | DocEnabled bool

record audit_row =
  au_id :: int
  au_at_us :: int
  au_actor :: string
  au_action :: string
  au_target :: string
  au_before :: "document option"
  au_after :: "document option"

record delivery_row =
  al_run_id :: string
  al_channel :: string
  al_status :: string
  al_attempts :: int
  al_last_error :: string
  al_updated_us :: int

datatype meta_value = MetaText string | MetaExhaustion worker_exhaustion

record db =
  db_meta :: "(string \<times> meta_value) list"
  db_definitions :: "definition_row list"
  db_revisions :: "revision_row list"
  db_runs :: "run_row list"
  db_schedule :: "schedule_row list"
  db_audit :: "audit_row list"
  db_idempotency :: "idempotency_row list"
  db_deliveries :: "delivery_row list"
  db_queue :: "queue_row list"
  db_queue_seq :: int
  db_channels :: "alert_channel list"

definition empty_db :: db where
  "empty_db = \<lparr>db_meta = [], db_definitions = [], db_revisions = [], db_runs = [], db_schedule = [],
     db_audit = [], db_idempotency = [], db_deliveries = [], db_queue = [], db_queue_seq = 0,
     db_channels = []\<rparr>"

section \<open>Statements\<close>

type_synonym 'a op = "db \<times> (store_error + 'a)"

text \<open>The end of a transaction: commit, or roll back to the state it began in.\<close>

definition transaction :: "db \<Rightarrow> store_error + (db \<times> 'a) \<Rightarrow> 'a op" where
  "transaction before r = (case r of Inl e \<Rightarrow> (before, Inl e) | Inr (after, v) \<Rightarrow> (after, Inr v))"

text \<open>\<^verbatim>\<open>UPDATE runs SET f WHERE P\<close>, and the number of rows it affects.\<close>

definition update_runs :: "(run_row \<Rightarrow> bool) \<Rightarrow> (run_row \<Rightarrow> run_row) \<Rightarrow> db \<Rightarrow> db" where
  "update_runs P f b = b\<lparr>db_runs := map (\<lambda>r. if P r then f r else r) (db_runs b)\<rparr>"

definition rows_affected :: "(run_row \<Rightarrow> bool) \<Rightarrow> db \<Rightarrow> nat" where
  "rows_affected P b = length (filter P (db_runs b))"

definition run_ids :: "db \<Rightarrow> string list" where
  "run_ids b = map rr_run_id (db_runs b)"

definition queue_ids :: "db \<Rightarrow> string list" where
  "queue_ids b = map q_run_id (db_queue b)"

definition definition_ids :: "db \<Rightarrow> int list" where
  "definition_ids b = map df_definition_id (db_definitions b)"

text \<open>The unique index \<^verbatim>\<open>idx_runs_schedule_occurrence\<close>: at most one run per definition
  and scheduled instant among the runs a schedule triggered.\<close>

definition same_occurrence :: "run_row \<Rightarrow> run_row \<Rightarrow> bool" where
  "same_occurrence r r' \<longleftrightarrow> rr_trigger r = ''schedule'' \<and> rr_trigger r' = ''schedule''
     \<and> rr_scheduled_for_us r \<noteq> None \<and> rr_scheduled_for_us r = rr_scheduled_for_us r'
     \<and> rr_definition_id r = rr_definition_id r'"

definition insert_run :: "run_row \<Rightarrow> db \<Rightarrow> store_error + db" where
  "insert_run r b =
     (if rr_run_id r \<in> set (run_ids b) \<or> rr_definition_id r \<notin> set (definition_ids b)
         \<or> list_ex (same_occurrence r) (db_runs b)
      then Inl ErrConstraint
      else Inr (b\<lparr>db_runs := db_runs b @ [r]\<rparr>))"

text \<open>\<^verbatim>\<open>seq INTEGER PRIMARY KEY AUTOINCREMENT\<close>: a number larger than any handed out
  before.\<close>

definition insert_queue :: "string \<Rightarrow> int \<Rightarrow> int \<Rightarrow> int \<Rightarrow> int \<Rightarrow> db \<Rightarrow> store_error + db" where
  "insert_queue rid did enq expires nbytes b =
     (if rid \<in> set (queue_ids b) \<or> rid \<notin> set (run_ids b) then Inl ErrConstraint
      else Inr (b\<lparr>db_queue := db_queue b @ [\<lparr>q_seq = db_queue_seq b + 1, q_run_id = rid,
              q_definition_id = did, q_enqueued_us = enq, q_expires_us = expires, q_payload_bytes = nbytes\<rparr>],
            db_queue_seq := db_queue_seq b + 1\<rparr>))"

definition delete_queue :: "(queue_row \<Rightarrow> bool) \<Rightarrow> db \<Rightarrow> db" where
  "delete_queue P b = b\<lparr>db_queue := filter (\<lambda>q. \<not> P q) (db_queue b)\<rparr>"

definition delete_runs_where :: "(run_row \<Rightarrow> bool) \<Rightarrow> db \<Rightarrow> db" where
  "delete_runs_where P b =
     (let kept = filter (\<lambda>r. \<not> P r) (db_runs b)
      in b\<lparr>db_runs := kept,
           db_queue := filter (\<lambda>q. q_run_id q \<in> rr_run_id ` set kept) (db_queue b),
           db_deliveries := filter (\<lambda>a. al_run_id a \<in> rr_run_id ` set kept) (db_deliveries b)\<rparr>)"

definition idem_key :: "idempotency_row \<Rightarrow> string \<times> string \<times> string" where
  "idem_key i = (i_principal i, i_operation i, i_key i)"

definition insert_idempotency :: "idempotency_row \<Rightarrow> db \<Rightarrow> store_error + db" where
  "insert_idempotency i b =
     (if idem_key i \<in> idem_key ` set (db_idempotency b) then Inl ErrConstraint
      else Inr (b\<lparr>db_idempotency := db_idempotency b @ [i]\<rparr>))"

definition delete_idempotency :: "(idempotency_row \<Rightarrow> bool) \<Rightarrow> db \<Rightarrow> db" where
  "delete_idempotency P b = b\<lparr>db_idempotency := filter (\<lambda>i. \<not> P i) (db_idempotency b)\<rparr>"

definition find_run :: "string \<Rightarrow> db \<Rightarrow> run_row option" where
  "find_run rid b = find (\<lambda>r. rr_run_id r = rid) (db_runs b)"

section \<open>Facts about statements\<close>

lemma update_runs_sel [simp]:
  "db_queue (update_runs P f b) = db_queue b" "db_queue_seq (update_runs P f b) = db_queue_seq b"
  "db_idempotency (update_runs P f b) = db_idempotency b"
  "db_definitions (update_runs P f b) = db_definitions b" "db_schedule (update_runs P f b) = db_schedule b"
  "db_deliveries (update_runs P f b) = db_deliveries b" "db_meta (update_runs P f b) = db_meta b"
  "db_runs (update_runs P f b) = map (\<lambda>r. if P r then f r else r) (db_runs b)"
  by (simp_all add: update_runs_def)

lemma delete_queue_sel [simp]:
  "db_queue (delete_queue P b) = filter (\<lambda>q. \<not> P q) (db_queue b)"
  "db_queue_seq (delete_queue P b) = db_queue_seq b" "db_runs (delete_queue P b) = db_runs b"
  "db_idempotency (delete_queue P b) = db_idempotency b"
  "db_definitions (delete_queue P b) = db_definitions b"
  by (simp_all add: delete_queue_def)

lemma delete_idempotency_sel [simp]:
  "db_queue (delete_idempotency P b) = db_queue b"
  "db_queue_seq (delete_idempotency P b) = db_queue_seq b" "db_runs (delete_idempotency P b) = db_runs b"
  "db_definitions (delete_idempotency P b) = db_definitions b"
  "db_idempotency (delete_idempotency P b) = filter (\<lambda>i. \<not> P i) (db_idempotency b)"
  by (simp_all add: delete_idempotency_def)

lemma insert_run_InrD:
  "insert_run r b = Inr b' \<Longrightarrow> rr_run_id r \<notin> set (run_ids b) \<and> b' = b\<lparr>db_runs := db_runs b @ [r]\<rparr>
     \<and> rr_definition_id r \<in> set (definition_ids b) \<and> \<not> list_ex (same_occurrence r) (db_runs b)"
  by (auto simp: insert_run_def split: if_splits)

lemma insert_queue_InrD:
  "insert_queue rid did enq expires nbytes b = Inr b' \<Longrightarrow>
     rid \<notin> set (queue_ids b) \<and> rid \<in> set (run_ids b) \<and>
     b' = b\<lparr>db_queue := db_queue b @ [\<lparr>q_seq = db_queue_seq b + 1, q_run_id = rid,
              q_definition_id = did, q_enqueued_us = enq, q_expires_us = expires, q_payload_bytes = nbytes\<rparr>],
            db_queue_seq := db_queue_seq b + 1\<rparr>"
  by (auto simp: insert_queue_def split: if_splits)

lemma insert_idempotency_InrD:
  "insert_idempotency i b = Inr b' \<Longrightarrow>
     idem_key i \<notin> idem_key ` set (db_idempotency b) \<and> b' = b\<lparr>db_idempotency := db_idempotency b @ [i]\<rparr>"
  by (auto simp: insert_idempotency_def split: if_splits)

lemma transaction_Inl [simp]: "transaction b (Inl e) = (b, Inl e)"
  and transaction_Inr [simp]: "transaction b (Inr (b', v)) = (b', Inr v)"
  by (simp_all add: transaction_def)

end
