(* ===== verification/Store_Runs.thy ===== *)
theory Store_Runs
  imports Tables "HOL-Library.List_Lexorder" "HOL-Library.Char_ord" "HOL-Library.Product_Lexorder"
begin

text \<open>
  Runs in the metadata database (\<^verbatim>\<open>src/internal/store/store.go\<close>): creating, starting and
  finishing them, crash recovery, idempotency keys, listings, retention and schedule state.

  Every operation takes the value of \<^verbatim>\<open>time.Now()\<close> it reads as an argument. Text columns
  compare bytewise, so \<^verbatim>\<open>ORDER BY\<close> on them is the lexicographic order of strings.
\<close>

section \<open>Rows of runs\<close>

definition nullString :: "string \<Rightarrow> string option" where
  "nullString v = (if v = '''' then None else Some v)"

definition coalesce :: "'a \<Rightarrow> 'a option \<Rightarrow> 'a" where
  "coalesce d v = (case v of None \<Rightarrow> d | Some x \<Rightarrow> x)"

definition timePtrUS :: "time option \<Rightarrow> int option" where
  "timePtrUS v = map_option unix_micro v"

text \<open>The row \<^verbatim>\<open>createRunSQL\<close> inserts for a run; the columns it does not name get their
  defaults.\<close>

definition runArgs :: "run_rec \<Rightarrow> run_row" where
  "runArgs r = \<lparr>rr_run_id = r_ID r, rr_definition_id = r_DefinitionID r, rr_job = r_Job r,
     rr_kind = r_Kind r, rr_revision = r_Revision r, rr_definition_hash = r_DefinitionHash r,
     rr_status = r_Status r, rr_end_reason = nullString (r_EndReason r), rr_trigger = r_Trigger r,
     rr_attempt = r_Attempt r, rr_parent_run_id = nullString (r_ParentRunID r),
     rr_scheduled_for_us = timePtrUS (r_ScheduledFor r), rr_missed_count = r_MissedCount r,
     rr_boot_id = Some (r_BootID r), rr_pid = None, rr_pgid = None, rr_process_start_id = None,
     rr_exit_code = None, rr_signal = None, rr_queued_us = unix_micro (r_QueuedAt r),
     rr_started_us = None, rr_ended_us = timePtrUS (r_EndedAt r), rr_log_ref = Some (r_LogRef r),
     rr_log_bytes = 0, rr_log_truncated = False, rr_user_cpu_us = None, rr_system_cpu_us = None,
     rr_peak_rss_bytes = None\<rparr>"

text \<open>The column list of the run queries with \<^verbatim>\<open>scanRun\<close>.\<close>

definition scanRun :: "run_row \<Rightarrow> run_rec" where
  "scanRun row = \<lparr>r_ID = rr_run_id row, r_DefinitionID = rr_definition_id row, r_Job = rr_job row,
     r_Kind = rr_kind row, r_Revision = rr_revision row, r_DefinitionHash = rr_definition_hash row,
     r_Status = rr_status row, r_EndReason = coalesce '''' (rr_end_reason row),
     r_Trigger = rr_trigger row, r_Attempt = rr_attempt row,
     r_ParentRunID = coalesce '''' (rr_parent_run_id row),
     r_ScheduledFor = map_option from_micro (rr_scheduled_for_us row),
     r_MissedCount = rr_missed_count row, r_BootID = coalesce '''' (rr_boot_id row),
     r_PID = coalesce 0 (rr_pid row), r_PGID = coalesce 0 (rr_pgid row),
     r_ProcessStartID = coalesce '''' (rr_process_start_id row), r_ExitCode = rr_exit_code row,
     r_Signal = coalesce '''' (rr_signal row), r_QueuedAt = from_micro (rr_queued_us row),
     r_StartedAt = map_option from_micro (rr_started_us row),
     r_EndedAt = map_option from_micro (rr_ended_us row), r_LogRef = coalesce '''' (rr_log_ref row),
     r_LogBytes = rr_log_bytes row, r_LogTruncated = rr_log_truncated row,
     r_ResourceUsage =
       (case (rr_user_cpu_us row, rr_system_cpu_us row, rr_peak_rss_bytes row) of
          (Some user, Some system, Some rss) \<Rightarrow>
            Some \<lparr>UserCPUUS = user, SystemCPUUS = system, PeakRSSBytes = rss\<rparr>
        | _ \<Rightarrow> None)\<rparr>"

section \<open>Creating runs and idempotency keys\<close>

definition CreateRun :: "run_rec \<Rightarrow> db \<Rightarrow> unit op" where
  "CreateRun r b = (case insert_run (runArgs r) b of Inl e \<Rightarrow> (b, Inl e) | Inr b' \<Rightarrow> (b', Inr ()))"

text \<open>A key is live for 24 hours.\<close>

definition idem_expiry :: "time \<Rightarrow> int" where
  "idem_expiry now = unix_micro (now - 24 * Hour)"

definition find_idem :: "string \<Rightarrow> string \<Rightarrow> string \<Rightarrow> db \<Rightarrow> idempotency_row option" where
  "find_idem princ operation key b = find (\<lambda>i. idem_key i = (princ, operation, key)) (db_idempotency b)"

definition reserveIdempotency ::
  "time \<Rightarrow> string \<Rightarrow> string \<Rightarrow> string \<Rightarrow> string \<Rightarrow> db \<Rightarrow> store_error + (db \<times> string)" where
  "reserveIdempotency now princ operation key requestHash b =
     (case find_idem princ operation key b of
        None \<Rightarrow> Inr (b, '''')
      | Some i \<Rightarrow>
          if i_created_us i > idem_expiry now
          then (if i_request_hash i \<noteq> requestHash then Inl ErrIdempotencyConflict
                else Inr (b, i_run_id i))
          else Inr (delete_idempotency (\<lambda>i. idem_key i = (princ, operation, key)) b, ''''))"

definition AdmitIdempotentRun ::
  "time \<Rightarrow> time \<Rightarrow> run_rec \<Rightarrow> string \<Rightarrow> string \<Rightarrow> string \<Rightarrow> string \<Rightarrow> db \<Rightarrow> string op" where
  "AdmitIdempotentRun now1 now2 r princ operation key requestHash b =
     transaction b
      (case reserveIdempotency now1 princ operation key requestHash b of
         Inl e \<Rightarrow> Inl e
       | Inr (b1, existingID) \<Rightarrow>
           if existingID \<noteq> '''' then Inr (b, existingID)
           else case insert_run (runArgs r) b1 of
                  Inl e \<Rightarrow> Inl e
                | Inr b2 \<Rightarrow>
                    (case insert_idempotency \<lparr>i_principal = princ, i_operation = operation,
                         i_key = key, i_request_hash = requestHash, i_run_id = r_ID r,
                         i_created_us = unix_micro now2\<rparr> b2 of
                       Inl e \<Rightarrow> Inl e
                     | Inr b3 \<Rightarrow> Inr (b3, '''')))"

definition IdempotentRun ::
  "time \<Rightarrow> string \<Rightarrow> string \<Rightarrow> string \<Rightarrow> string \<Rightarrow> db \<Rightarrow> store_error + string" where
  "IdempotentRun now princ operation key requestHash b =
     (case find_idem princ operation key b of
        None \<Rightarrow> Inl ErrNoRows
      | Some i \<Rightarrow>
          if \<not> i_created_us i > idem_expiry now then Inl ErrNoRows
          else if i_request_hash i \<noteq> requestHash then Inl ErrIdempotencyConflict
          else Inr (i_run_id i))"

definition SaveIdempotency ::
  "time \<Rightarrow> string \<Rightarrow> string \<Rightarrow> string \<Rightarrow> string \<Rightarrow> string \<Rightarrow> db \<Rightarrow> unit op" where
  "SaveIdempotency now princ operation key requestHash runID b =
     (let new = \<lparr>i_principal = princ, i_operation = operation, i_key = key,
            i_request_hash = requestHash, i_run_id = runID, i_created_us = unix_micro now\<rparr>
      in case find_idem princ operation key b of
           None \<Rightarrow> (b\<lparr>db_idempotency := db_idempotency b @ [new]\<rparr>, Inr ())
         | Some i \<Rightarrow>
             if i_created_us i \<le> idem_expiry now
             then (b\<lparr>db_idempotency := map (\<lambda>i. if idem_key i = idem_key new then new else i)
                      (db_idempotency b)\<rparr>, Inr ())
             else (b, Inl ErrIdempotencyKeyExists))"

section \<open>Lifecycle updates\<close>

text \<open>The common shape of the guarded updates: exactly one row must match.\<close>

definition guarded_update :: "(run_row \<Rightarrow> bool) \<Rightarrow> (run_row \<Rightarrow> run_row) \<Rightarrow> db \<Rightarrow> unit op" where
  "guarded_update P f b =
     (update_runs P f b, if rows_affected P b \<noteq> 1 then Inl ErrInvalidTransition else Inr ())"

definition StartRun :: "string \<Rightarrow> int \<Rightarrow> int \<Rightarrow> string \<Rightarrow> time \<Rightarrow> db \<Rightarrow> unit op" where
  "StartRun rid pid pgid startID at =
     guarded_update (\<lambda>r. rr_run_id r = rid \<and> rr_status r = ''pending'')
       (\<lambda>r. r\<lparr>rr_status := ''running'', rr_pid := Some pid, rr_pgid := Some pgid,
              rr_process_start_id := Some startID, rr_started_us := Some (unix_micro at)\<rparr>)"

definition FinishRunWithUsage ::
  "string \<Rightarrow> string \<Rightarrow> string \<Rightarrow> int option \<Rightarrow> string \<Rightarrow> time \<Rightarrow> int \<Rightarrow> bool \<Rightarrow> resource_usage option
   \<Rightarrow> db \<Rightarrow> unit op" where
  "FinishRunWithUsage rid status reason code signal at bytes truncated usage =
     guarded_update
       (\<lambda>r. rr_run_id r = rid
          \<and> (rr_status r = ''pending'' \<or> rr_status r = ''running'' \<or> rr_status r = status))
       (\<lambda>r. r\<lparr>rr_status := status, rr_end_reason := Some reason, rr_exit_code := code,
              rr_signal := nullString signal, rr_ended_us := Some (unix_micro at),
              rr_log_bytes := bytes, rr_log_truncated := truncated,
              rr_user_cpu_us := map_option UserCPUUS usage,
              rr_system_cpu_us := map_option SystemCPUUS usage,
              rr_peak_rss_bytes := map_option PeakRSSBytes usage\<rparr>)"

definition FinishRun ::
  "string \<Rightarrow> string \<Rightarrow> string \<Rightarrow> int option \<Rightarrow> string \<Rightarrow> time \<Rightarrow> int \<Rightarrow> bool \<Rightarrow> db \<Rightarrow> unit op" where
  "FinishRun rid status reason code signal at bytes truncated =
     FinishRunWithUsage rid status reason code signal at bytes truncated None"

text \<open>The runs a restarted daemon may still have processes of.\<close>

definition Recoverable :: "db \<Rightarrow> run_rec list" where
  "Recoverable b =
     map (\<lambda>row. zero_run\<lparr>r_ID := rr_run_id row, r_BootID := coalesce '''' (rr_boot_id row),
            r_PID := coalesce 0 (rr_pid row), r_PGID := coalesce 0 (rr_pgid row),
            r_ProcessStartID := coalesce '''' (rr_process_start_id row)\<rparr>)
       (filter (\<lambda>row. rr_status row = ''pending'' \<or> rr_status row = ''running'') (db_runs b))"

definition recover_cond :: "db \<Rightarrow> run_row \<Rightarrow> bool" where
  "recover_cond b r \<longleftrightarrow> rr_status r = ''pending'' \<or> rr_status r = ''running''
     \<or> (rr_status r = ''queued'' \<and> rr_run_id r \<notin> set (queue_ids b))"

definition Recover :: "time \<Rightarrow> db \<Rightarrow> db" where
  "Recover now b =
     update_runs (recover_cond b)
       (\<lambda>r. r\<lparr>rr_status := ''interrupted'', rr_end_reason := Some ''crash_recovery'',
              rr_ended_us := Some (unix_micro now)\<rparr>) b"

section \<open>Reading runs\<close>

definition run_get :: "string \<Rightarrow> db \<Rightarrow> store_error + run_rec" where
  "run_get rid b = (case find_run rid b of None \<Rightarrow> Inl ErrNoRows | Some r \<Rightarrow> Inr (scanRun r))"

definition ScheduledRun :: "int \<Rightarrow> time \<Rightarrow> db \<Rightarrow> store_error + run_rec" where
  "ScheduledRun did scheduled b =
     (case find (\<lambda>r. rr_definition_id r = did \<and> rr_scheduled_for_us r = Some (unix_micro scheduled)
              \<and> rr_trigger r = ''schedule'') (db_runs b) of
        None \<Rightarrow> Inl ErrNoRows | Some r \<Rightarrow> Inr (scanRun r))"

definition filter_cond :: "string \<Rightarrow> run_row \<Rightarrow> bool" where
  "filter_cond flt r \<longleftrightarrow>
     (if flt = ''failed'' then rr_status r \<in> {''failed'', ''timeout'', ''interrupted''}
      else if flt = ''scheduled'' then rr_trigger r = ''schedule''
      else if flt = ''manual'' then rr_trigger r = ''manual''
      else if flt = ''active'' then rr_status r \<in> {''queued'', ''pending'', ''running''}
      else True)"

definition page_key :: "run_row \<Rightarrow> int \<times> string" where
  "page_key r = (rr_queued_us r, rr_run_id r)"

text \<open>\<^verbatim>\<open>ORDER BY\<close> a key, descending.\<close>

definition newest_first :: "(run_row \<Rightarrow> int \<times> string) \<Rightarrow> run_row list \<Rightarrow> run_row list" where
  "newest_first key rows = rev (sort_key key rows)"

definition RunsPage :: "string \<Rightarrow> int \<Rightarrow> string \<Rightarrow> string \<Rightarrow> db \<Rightarrow> store_error + run_rec list" where
  "RunsPage job limit before flt b =
     (let limit = min (max limit 1) 501;
          rows = filter (\<lambda>r. (job \<noteq> '''' \<longrightarrow> rr_job r = job) \<and> filter_cond flt r) (db_runs b)
      in if before \<noteq> '''' then
           (case find_run before b of
              None \<Rightarrow> Inl ErrNoRows
            | Some p \<Rightarrow>
                Inr (map scanRun (take (nat limit) (newest_first page_key
                  (filter (\<lambda>r. rr_queued_us r < rr_queued_us p
                     \<or> (rr_queued_us r = rr_queued_us p \<and> rr_run_id r < before)) rows)))))
         else Inr (map scanRun (take (nat limit) (newest_first page_key rows))))"

definition Runs :: "string \<Rightarrow> int \<Rightarrow> db \<Rightarrow> store_error + run_rec list" where
  "Runs job limit b = RunsPage job (min (max limit 1) 500) '''' '''' b"

section \<open>Retention\<close>

record retention_candidate =
  rc_ID :: string
  rc_SortUS :: int

definition sort_us :: "run_row \<Rightarrow> int" where
  "sort_us r = coalesce (rr_queued_us r) (rr_ended_us r)"

definition retention_key :: "run_row \<Rightarrow> int \<times> string" where
  "retention_key r = (sort_us r, rr_run_id r)"

definition key_live :: "time \<Rightarrow> db \<Rightarrow> string \<Rightarrow> bool" where
  "key_live now b rid \<longleftrightarrow> list_ex (\<lambda>i. i_run_id i = rid \<and> i_created_us i > idem_expiry now) (db_idempotency b)"

text \<open>The finished runs of a definition, newest first.\<close>

definition finished_runs :: "int \<Rightarrow> db \<Rightarrow> run_row list" where
  "finished_runs did b = newest_first retention_key
     (filter (\<lambda>r. rr_definition_id r = did \<and> rr_status r \<in> set TerminalStatuses) (db_runs b))"

text \<open>The \<^verbatim>\<open>WHERE\<close> clause of the query; the newest finished run always survives.\<close>

definition eligible ::
  "time \<Rightarrow> int \<Rightarrow> int \<Rightarrow> time \<Rightarrow> retention_candidate option \<Rightarrow> db \<Rightarrow> run_row \<Rightarrow> bool" where
  "eligible now did keep olderThan cursor b r \<longleftrightarrow>
     (let countEnabled = (keep > 0);
          boundaryOffset = nat (max keep 1 - 1);
          newest = map rr_run_id (take 1 (finished_runs did b));
          boundary = map retention_key (take 1 (drop boundaryOffset (finished_runs did b)))
      in rr_run_id r \<notin> set newest
         \<and> ((countEnabled \<and> list_ex (\<lambda>k. k > retention_key r) boundary)
            \<or> (olderThan \<noteq> zero_time
               \<and> (case rr_ended_us r of None \<Rightarrow> False | Some e \<Rightarrow> e < unix_micro olderThan)))
         \<and> \<not> key_live now b (rr_run_id r)
         \<and> (case cursor of None \<Rightarrow> True | Some c \<Rightarrow> retention_key r < (rc_SortUS c, rc_ID c)))"

definition RetentionCandidates ::
  "time \<Rightarrow> int \<Rightarrow> int \<Rightarrow> time \<Rightarrow> retention_candidate option \<Rightarrow> int \<Rightarrow> db
   \<Rightarrow> store_error + retention_candidate list" where
  "RetentionCandidates now did keep olderThan cursor limit b =
     (if limit \<le> 0 then Inl (ErrInvalidArgument ''retention page limit must be positive'')
      else Inr (map (\<lambda>r. \<lparr>rc_ID = rr_run_id r, rc_SortUS = sort_us r\<rparr>)
                 (take (nat limit) (filter (eligible now did keep olderThan cursor b) (finished_runs did b)))))"

definition delete_cond :: "time \<Rightarrow> db \<Rightarrow> run_row \<Rightarrow> bool" where
  "delete_cond now b r \<longleftrightarrow> rr_status r \<notin> {''pending'', ''running'', ''queued''}
     \<and> \<not> key_live now b (rr_run_id r)"

definition DeleteRun :: "time \<Rightarrow> string \<Rightarrow> db \<Rightarrow> db" where
  "DeleteRun now rid b = delete_runs_where (\<lambda>r. rr_run_id r = rid \<and> delete_cond now b r) b"

definition DeleteRuns :: "time \<Rightarrow> string list \<Rightarrow> db \<Rightarrow> db" where
  "DeleteRuns now ids b =
     (if ids = [] then b
      else delete_runs_where (\<lambda>r. rr_run_id r \<in> set ids \<and> delete_cond now b r) b)"

section \<open>Schedule state\<close>

definition find_schedule :: "int \<Rightarrow> db \<Rightarrow> schedule_row option" where
  "find_schedule did b = find (\<lambda>s. ss_definition_id s = did) (db_schedule b)"

definition micro_or_zero :: "int option \<Rightarrow> time" where
  "micro_or_zero us = (case us of None \<Rightarrow> zero_time | Some u \<Rightarrow> from_micro u)"

definition ScheduleState :: "int \<Rightarrow> db \<Rightarrow> store_error + (time \<times> time \<times> time \<times> string)" where
  "ScheduleState did b =
     (case find_schedule did b of
        None \<Rightarrow> Inl ErrNoRows
      | Some s \<Rightarrow> Inr (from_micro (ss_anchor_us s), micro_or_zero (ss_last_fire_us s),
                     micro_or_zero (ss_next_fire_us s), ss_schedule_hash s))"

definition LastScheduledFire :: "int \<Rightarrow> db \<Rightarrow> time" where
  "LastScheduledFire did b =
     (case List.map_filter rr_scheduled_for_us
          (filter (\<lambda>r. rr_definition_id r = did \<and> rr_trigger r = ''schedule'') (db_runs b)) of
        [] \<Rightarrow> zero_time
      | u # us \<Rightarrow> from_micro (foldl max u us))"

definition ScheduleNextBatch :: "db \<Rightarrow> (int \<times> time) list" where
  "ScheduleNextBatch b = List.map_filter
     (\<lambda>s. map_option (\<lambda>us. (ss_definition_id s, from_micro us)) (ss_next_fire_us s)) (db_schedule b)"

definition ScheduleNext :: "int \<Rightarrow> db \<Rightarrow> store_error + time" where
  "ScheduleNext did b =
     (case find_schedule did b of None \<Rightarrow> Inl ErrNoRows | Some s \<Rightarrow> Inr (micro_or_zero (ss_next_fire_us s)))"

definition us_or_null :: "time \<Rightarrow> int option" where
  "us_or_null t = (if t = zero_time then None else Some (unix_micro t))"

definition setScheduleState :: "int \<Rightarrow> string \<Rightarrow> time \<Rightarrow> time \<Rightarrow> time \<Rightarrow> db \<Rightarrow> unit op" where
  "setScheduleState did hash anchor lastf next b =
     (let row = \<lparr>ss_definition_id = did, ss_schedule_hash = hash, ss_anchor_us = unix_micro anchor,
            ss_last_fire_us = us_or_null lastf, ss_next_fire_us = us_or_null next\<rparr>
      in case find_schedule did b of
           Some _ \<Rightarrow> (b\<lparr>db_schedule := map (\<lambda>s. if ss_definition_id s = did then row else s)
                        (db_schedule b)\<rparr>, Inr ())
         | None \<Rightarrow> if did \<notin> set (definition_ids b) then (b, Inl ErrConstraint)
                   else (b\<lparr>db_schedule := db_schedule b @ [row]\<rparr>, Inr ()))"

definition SetScheduleState :: "int \<Rightarrow> string \<Rightarrow> time \<Rightarrow> time \<Rightarrow> db \<Rightarrow> unit op" where
  "SetScheduleState did hash anchor lastf b = setScheduleState did hash anchor lastf zero_time b"

definition SetScheduleStateWithNext :: "int \<Rightarrow> string \<Rightarrow> time \<Rightarrow> time \<Rightarrow> time \<Rightarrow> db \<Rightarrow> unit op" where
  "SetScheduleStateWithNext did hash anchor lastf next b = setScheduleState did hash anchor lastf next b"

section \<open>Metadata pruning\<close>

text \<open>\<^verbatim>\<open>DELETE FROM audit WHERE id <= (the id at the offset from the newest)\<close>; with fewer
  rows the subquery is \<^verbatim>\<open>NULL\<close> and nothing is deleted.\<close>

definition prune_audit :: "nat \<Rightarrow> audit_row list \<Rightarrow> audit_row list" where
  "prune_audit keep rows =
     (case drop keep (rev (sort (map au_id rows))) of
        [] \<Rightarrow> rows
      | bound # _ \<Rightarrow> filter (\<lambda>a. \<not> au_id a \<le> bound) rows)"

definition revision_rank :: "revision_row list \<Rightarrow> revision_row \<Rightarrow> nat" where
  "revision_rank rows v =
     length (filter (\<lambda>w. rv_definition_id w = rv_definition_id v \<and> rv_revision w \<ge> rv_revision v) rows)"

definition PruneMetadata :: "time \<Rightarrow> nat \<Rightarrow> db \<Rightarrow> db" where
  "PruneMetadata now auditKeep b =
     b\<lparr>db_idempotency := filter (\<lambda>i. \<not> i_created_us i \<le> idem_expiry now) (db_idempotency b),
       db_audit := prune_audit auditKeep (db_audit b),
       db_revisions := filter (\<lambda>v. revision_rank (db_revisions b) v \<le> 100) (db_revisions b)\<rparr>"

section \<open>Order of listings\<close>

lemma newest_first_filter: "filter P (newest_first key rows) = newest_first key (filter P rows)"
  by (simp add: newest_first_def rev_filter [symmetric] filter_sort)

lemma newest_first_set [simp]: "set (newest_first key rows) = set rows"
  by (simp add: newest_first_def)

lemma newest_first_sorted:
  assumes "distinct (map rr_run_id rows)" "\<And>r. snd (key r) = rr_run_id r"
  shows "sorted_wrt (\<lambda>x y. key y < key x) (newest_first key rows)"
proof -
  have "distinct (map snd (map key rows))" using assms by (simp add: comp_def)
  then have "distinct (map key rows)" by (rule distinct_map [THEN iffD1, THEN conjunct1])
  then have "distinct (map key (sort_key key rows))" by (simp add: distinct_map)
  then have "sorted_wrt (<) (map key (sort_key key rows))"
    by (simp add: strict_sorted_iff)
  then show ?thesis by (simp add: newest_first_def sorted_wrt_rev sorted_wrt_map)
qed

text \<open>In a strictly descending list, the elements below the one at a position are those after
  it.\<close>

lemma filter_below:
  "sorted_wrt (\<lambda>x y. (key y :: 'k :: linorder) < key x) xs \<Longrightarrow> n < length xs \<Longrightarrow>
   filter (\<lambda>r. key r < key (xs ! n)) xs = drop (Suc n) xs"
proof (induction xs arbitrary: n)
  case (Cons x xs)
  show ?case
  proof (cases n)
    case 0
    then show ?thesis using Cons.prems(1) by (auto simp: filter_id_conv)
  next
    case (Suc m)
    then have "key (xs ! m) < key x" using Cons.prems by simp
    then show ?thesis using Cons Suc by (auto simp: not_less_iff_gr_or_eq)
  qed
qed simp

lemma distinct_run_ids_filter: "distinct (run_ids b) \<Longrightarrow> distinct (map rr_run_id (filter P (db_runs b)))"
  by (simp add: run_ids_def filter_map_distinct)

definition listed :: "string \<Rightarrow> string \<Rightarrow> db \<Rightarrow> run_row list" where
  "listed job flt b = newest_first page_key
     (filter (\<lambda>r. (job \<noteq> '''' \<longrightarrow> rr_job r = job) \<and> filter_cond flt r) (db_runs b))"

lemma RunsPage_first: "RunsPage job limit '''' flt b
    = Inr (map scanRun (take (nat (min (max limit 1) 501)) (listed job flt b)))"
  by (simp add: RunsPage_def listed_def Let_def)

lemma find_run_unique: "distinct (run_ids b) \<Longrightarrow> r \<in> set (db_runs b) \<Longrightarrow> find_run (rr_run_id r) b = Some r"
proof -
  have "distinct (map rr_run_id rs) \<Longrightarrow> r \<in> set rs \<Longrightarrow> find (\<lambda>r'. rr_run_id r' = rr_run_id r) rs = Some r" for rs
    by (induction rs) (auto simp: image_iff)
  then show "distinct (run_ids b) \<Longrightarrow> r \<in> set (db_runs b) \<Longrightarrow> find_run (rr_run_id r) b = Some r"
    by (simp add: run_ids_def find_run_def)
qed

lemma page_key_snd: "snd (page_key r) = rr_run_id r" and retention_key_snd: "snd (retention_key r) = rr_run_id r"
  by (simp_all add: page_key_def retention_key_def)

lemma listed_sorted:
  "distinct (run_ids b) \<Longrightarrow> sorted_wrt (\<lambda>x y. page_key y < page_key x) (listed job flt b)"
  unfolding listed_def by (rule newest_first_sorted [OF distinct_run_ids_filter page_key_snd])

lemma RunsPage_before:
  assumes "find_run rid b = Some p" "rid \<noteq> ''''"
  shows "RunsPage job limit rid flt b = Inr (map scanRun (take (nat (min (max limit 1) 501))
    (filter (\<lambda>r. page_key r < page_key p) (listed job flt b))))"
proof -
  have "rr_run_id p = rid" using assms(1) find_Some_set by (fastforce simp: find_run_def)
  then have "(\<lambda>r. rr_queued_us r < rr_queued_us p \<or> rr_queued_us r = rr_queued_us p \<and> rr_run_id r < rid)
      = (\<lambda>r. page_key r < page_key p)" by (auto simp: page_key_def)
  then show ?thesis
    using assms by (simp only: RunsPage_def Let_def listed_def newest_first_filter) simp
qed

lemma RunsPage_rest:
  assumes "distinct (run_ids b)" "n < length (listed job flt b)" "rr_run_id (listed job flt b ! n) \<noteq> ''''"
  shows "RunsPage job limit (rr_run_id (listed job flt b ! n)) flt b
    = Inr (map scanRun (take (nat (min (max limit 1) 501)) (drop (Suc n) (listed job flt b))))"
proof -
  have "listed job flt b ! n \<in> set (listed job flt b)" using assms(2) by simp
  then have p: "find_run (rr_run_id (listed job flt b ! n)) b = Some (listed job flt b ! n)"
    using assms(1) by (intro find_run_unique) (simp_all add: listed_def)
  show ?thesis
    using RunsPage_before [OF p assms(3)] filter_below [OF listed_sorted [OF assms(1)] assms(2)] by simp
qed

section \<open>What retention may delete\<close>

lemma finished_runs_sorted:
  "distinct (run_ids b) \<Longrightarrow> sorted_wrt (\<lambda>x y. retention_key y < retention_key x) (finished_runs did b)"
  unfolding finished_runs_def by (rule newest_first_sorted [OF distinct_run_ids_filter retention_key_snd])

lemma finished_runs_set:
  "set (finished_runs did b) = {r \<in> set (db_runs b). rr_definition_id r = did \<and> Terminal (rr_status r)}"
  by (auto simp: finished_runs_def Terminal_def)

text \<open>Everything up to the boundary is newer than what lies below the boundary.\<close>

lemma newer_than_boundary:
  assumes "sorted_wrt (\<lambda>x y. (key y :: 'k :: linorder) < key x) xs" "n < length xs" "key r < key (xs ! n)"
  shows "Suc n \<le> length (filter (\<lambda>x. key r < key x) xs)"
proof -
  have "\<forall>x \<in> set (take (Suc n) xs). key r < key x"
  proof
    fix x assume "x \<in> set (take (Suc n) xs)"
    then obtain i where i: "i \<le> n" "x = xs ! i" using assms(2) by (auto simp: in_set_conv_nth less_Suc_eq_le)
    then have "key (xs ! n) \<le> key x"
      using assms(1,2) by (cases "i = n") (auto simp: sorted_wrt_iff_nth_less less_imp_le)
    then show "key r < key x" using assms(3) by simp
  qed
  then have "length (filter (\<lambda>x. key r < key x) (take (Suc n) xs)) = Suc n"
    using assms(2) by (simp add: filter_id_conv [THEN iffD2])
  moreover have "length (filter (\<lambda>x. key r < key x) (take (Suc n) xs)) \<le> length (filter (\<lambda>x. key r < key x) xs)"
    by (metis append_take_drop_id filter_append length_append le_add1)
  ultimately show ?thesis by simp
qed

lemma RetentionCandidates_row:
  assumes "RetentionCandidates now did keep olderThan cursor limit b = Inr cs" "c \<in> set cs"
  obtains r where "r \<in> set (finished_runs did b)" "c = \<lparr>rc_ID = rr_run_id r, rc_SortUS = sort_us r\<rparr>"
    "rr_run_id r \<notin> set (map rr_run_id (take 1 (finished_runs did b)))" "\<not> key_live now b (rr_run_id r)"
    "(keep > 0 \<and> list_ex (\<lambda>k. k > retention_key r)
        (map retention_key (take 1 (drop (nat (max keep 1 - 1)) (finished_runs did b)))))
     \<or> (olderThan \<noteq> 0 \<and> (case rr_ended_us r of None \<Rightarrow> False | Some e \<Rightarrow> e < unix_micro olderThan))"
proof -
  have "0 < limit" using assms(1) by (auto simp: RetentionCandidates_def split: if_splits)
  with assms obtain r where r: "c = \<lparr>rc_ID = rr_run_id r, rc_SortUS = sort_us r\<rparr>"
    "r \<in> set (take (nat limit) (filter (eligible now did keep olderThan cursor b) (finished_runs did b)))"
    by (auto simp: RetentionCandidates_def)
  from in_set_takeD [OF r(2)] show thesis
    by (intro that [OF _ r(1)]) (simp_all add: eligible_def Let_def)
qed

lemma boundary_newer:
  assumes "distinct (run_ids b)" "0 < keep" "list_ex (\<lambda>k. k > retention_key r)
        (map retention_key (take 1 (drop (nat (max keep 1 - 1)) (finished_runs did b))))"
  shows "nat keep \<le> length (filter (\<lambda>x. retention_key r < retention_key x) (finished_runs did b))"
proof -
  let ?n = "nat (max keep 1 - 1)"
  from assms(3) have n: "?n < length (finished_runs did b)"
    by (rule_tac ccontr) simp
  then have "take 1 (drop ?n (finished_runs did b)) = [finished_runs did b ! ?n]"
    by (simp add: take_Suc_conv_app_nth hd_drop_conv_nth take_Suc)
  then have "retention_key r < retention_key (finished_runs did b ! ?n)" using assms(3) by simp
  from newer_than_boundary [OF finished_runs_sorted [OF assms(1)] n this] assms(2) show ?thesis by simp
qed

end
