(* ===== verification/Store_Queue.thy ===== *)
theory Store_Queue
  imports Store_Runs
begin

text \<open>
  The durable execution queue (\<^verbatim>\<open>src/internal/store/queue.go\<close>): a queued run is a row of
  \<^verbatim>\<open>runs\<close> in status \<^verbatim>\<open>queued\<close> together with a row of \<^verbatim>\<open>exec_queue\<close>.

  The operations, the steps of the run tables, the invariant that ties the two tables together
  and the limits, the interface \<open>once_queue\<close> of a queue that hands out every key at most once,
  and its interpretation on the operations.
\<close>

section \<open>Operations\<close>

record queue_limits =
  MaxItems :: int
  MaxPerJob :: int
  MaxBytes :: int
  MaxAge :: duration

record idempotency_req =
  id_Principal :: string
  id_Operation :: string
  id_Key :: string
  id_RequestHash :: string

record queue_stats =
  qs_Depth :: nat
  qs_Bytes :: int
  qs_OldestUS :: int

record queue_item =
  qi_Seq :: int
  qi_RunID :: string
  qi_DefinitionID :: int
  qi_ExpiresUS :: int

definition queuePayloadOverhead :: int where
  "queuePayloadOverhead = 128"

definition QueuePayloadBytes :: "run_rec \<Rightarrow> idempotency_req option \<Rightarrow> int" where
  "QueuePayloadBytes r idem =
     queuePayloadOverhead + int (length (r_ID r)) + int (length (r_Job r)) + int (length (r_DefinitionHash r))
     + int (length (r_ParentRunID r)) + int (length (r_Trigger r)) + int (length (r_BootID r))
     + (case idem of None \<Rightarrow> 0
        | Some i \<Rightarrow> int (length (id_Principal i)) + int (length (id_Operation i))
            + int (length (id_Key i)) + int (length (id_RequestHash i)))"

definition queue_depth :: "db \<Rightarrow> int" where
  "queue_depth b = int (length (db_queue b))"

definition queue_bytes :: "db \<Rightarrow> int" where
  "queue_bytes b = sum_list (map q_payload_bytes (db_queue b))"

definition queue_per_job :: "int \<Rightarrow> db \<Rightarrow> int" where
  "queue_per_job did b = int (length (filter (\<lambda>q. q_definition_id q = did) (db_queue b)))"

text \<open>The key is reserved only when there is one; \<open>now1\<close> is the time the reservation reads,
  \<open>now2\<close> the time of the insertion.\<close>

definition reserve_for ::
  "time \<Rightarrow> idempotency_req option \<Rightarrow> db \<Rightarrow> store_error + (db \<times> string)" where
  "reserve_for now idem b =
     (case idem of None \<Rightarrow> Inr (b, '''')
      | Some i \<Rightarrow> if id_Key i = '''' then Inr (b, '''')
          else reserveIdempotency now (id_Principal i) (id_Operation i) (id_Key i) (id_RequestHash i) b)"

definition save_key :: "time \<Rightarrow> idempotency_req option \<Rightarrow> string \<Rightarrow> db \<Rightarrow> store_error + db" where
  "save_key now idem rid b =
     (case idem of None \<Rightarrow> Inr b
      | Some i \<Rightarrow> if id_Key i = '''' then Inr b
          else insert_idempotency \<lparr>i_principal = id_Principal i, i_operation = id_Operation i,
                 i_key = id_Key i, i_request_hash = id_RequestHash i, i_run_id = rid,
                 i_created_us = unix_micro now\<rparr> b)"

definition EnqueueRun ::
  "time \<Rightarrow> time \<Rightarrow> run_rec \<Rightarrow> idempotency_req option \<Rightarrow> queue_limits \<Rightarrow> bool \<Rightarrow> db \<Rightarrow> string op" where
  "EnqueueRun now1 now2 r idem lim uniq b =
     transaction b
      (case reserve_for now1 idem b of
         Inl e \<Rightarrow> Inl e
       | Inr (b1, replay) \<Rightarrow>
           if replay \<noteq> '''' then Inr (b, replay)
           else
             let nbytes = QueuePayloadBytes r idem;
                 perJob = queue_per_job (r_DefinitionID r) b1
             in if uniq \<and> perJob > 0 then Inl ErrQueueDuplicate
                else if queue_depth b1 \<ge> MaxItems lim then Inl ErrQueueFull
                else if perJob \<ge> MaxPerJob lim then Inl ErrQueueFull
                else if queue_bytes b1 + nbytes > MaxBytes lim then Inl ErrQueueFull
                else case insert_run (runArgs (r\<lparr>r_Status := ''queued''\<rparr>)) b1 of
                       Inl e \<Rightarrow> Inl e
                     | Inr b2 \<Rightarrow>
                         (case insert_queue (r_ID r) (r_DefinitionID r) (unix_micro now2)
                                 (unix_micro (now2 + MaxAge lim)) nbytes b2 of
                            Inl e \<Rightarrow> Inl e
                          | Inr b3 \<Rightarrow>
                              (case save_key now2 idem (r_ID r) b3 of
                                 Inl e \<Rightarrow> Inl e | Inr b4 \<Rightarrow> Inr (b4, ''''))))"

definition QueueStats :: "db \<Rightarrow> queue_stats" where
  "QueueStats b = \<lparr>qs_Depth = length (db_queue b), qs_Bytes = queue_bytes b,
     qs_OldestUS = (case map q_enqueued_us (db_queue b) of [] \<Rightarrow> 0 | u # us \<Rightarrow> foldl min u us)\<rparr>"

definition NextQueueExpiry :: "db \<Rightarrow> time option" where
  "NextQueueExpiry b =
     (case map q_expires_us (db_queue b) of [] \<Rightarrow> None | u # us \<Rightarrow> Some (from_micro (foldl min u us)))"

definition queue_item_of :: "queue_row \<Rightarrow> queue_item" where
  "queue_item_of q = \<lparr>qi_Seq = q_seq q, qi_RunID = q_run_id q, qi_DefinitionID = q_definition_id q,
     qi_ExpiresUS = q_expires_us q\<rparr>"

text \<open>The condition of the heads query: the least sequence number of its definition.\<close>

definition is_head :: "db \<Rightarrow> queue_row \<Rightarrow> bool" where
  "is_head b q \<longleftrightarrow>
     list_all (\<lambda>q'. q_definition_id q' = q_definition_id q \<longrightarrow> q_seq q \<le> q_seq q') (db_queue b)"

definition QueueHeads :: "nat \<Rightarrow> db \<Rightarrow> queue_item list" where
  "QueueHeads limit b = map queue_item_of (take limit (sort_key q_seq (filter (is_head b) (db_queue b))))"

definition expired_ids :: "time \<Rightarrow> nat \<Rightarrow> db \<Rightarrow> string list" where
  "expired_ids now limit b =
     map q_run_id (take limit (sort_key q_expires_us
       (filter (\<lambda>q. q_expires_us q \<le> unix_micro now) (db_queue b))))"

text \<open>Ending a queued run: its terminal status, reason and end time.\<close>

definition end_row :: "string \<Rightarrow> string \<Rightarrow> time \<Rightarrow> run_row \<Rightarrow> run_row" where
  "end_row status reason now r =
     r\<lparr>rr_status := status, rr_end_reason := Some reason, rr_ended_us := Some (unix_micro now)\<rparr>"

definition ExpireQueued :: "time \<Rightarrow> nat \<Rightarrow> db \<Rightarrow> db \<times> string list" where
  "ExpireQueued now limit b =
     (let ids = expired_ids now limit b
      in if ids = [] then (b, [])
         else (delete_queue (\<lambda>q. q_run_id q \<in> set ids)
                 (update_runs (\<lambda>r. rr_status r = ''queued'' \<and> rr_run_id r \<in> set ids)
                    (end_row ''skipped'' ''queue_expired'' now) b), ids))"

definition endQueued :: "string \<Rightarrow> string \<Rightarrow> string \<Rightarrow> time \<Rightarrow> db \<Rightarrow> unit op" where
  "endQueued rid status reason now b =
     (let P = (\<lambda>r. rr_run_id r = rid \<and> rr_status r = ''queued'')
      in (delete_queue (\<lambda>q. q_run_id q = rid) (update_runs P (end_row status reason now) b),
          if rows_affected P b \<noteq> 1 then Inl ErrInvalidTransition else Inr ()))"

definition DropQueued :: "string \<Rightarrow> string \<Rightarrow> time \<Rightarrow> db \<Rightarrow> unit op" where
  "DropQueued rid reason now b = endQueued rid ''skipped'' reason now b"

definition CancelQueued :: "string \<Rightarrow> time \<Rightarrow> db \<Rightarrow> unit op" where
  "CancelQueued rid now b = endQueued rid ''stopped'' ''queue_cancelled'' now b"

definition dropDefinitionQueued :: "int \<Rightarrow> string \<Rightarrow> time \<Rightarrow> db \<Rightarrow> db" where
  "dropDefinitionQueued did reason now b =
     delete_queue (\<lambda>q. q_definition_id q = did)
       (update_runs (\<lambda>r. rr_status r = ''queued''
            \<and> rr_run_id r \<in> q_run_id ` set (filter (\<lambda>q. q_definition_id q = did) (db_queue b)))
          (end_row ''skipped'' reason now) b)"

definition DequeueRun :: "string \<Rightarrow> int \<Rightarrow> string \<Rightarrow> string \<Rightarrow> db \<Rightarrow> unit op" where
  "DequeueRun rid revision hash bootID b =
     (let P = (\<lambda>r. rr_run_id r = rid \<and> rr_status r = ''queued'')
      in transaction b
          (if rows_affected P b \<noteq> 1 then Inl ErrInvalidTransition
           else Inr (delete_queue (\<lambda>q. q_run_id q = rid)
                  (update_runs P (\<lambda>r. r\<lparr>rr_status := ''pending'', rr_revision := revision,
                     rr_definition_hash := hash, rr_boot_id := Some bootID\<rparr>) b), ())))"

section \<open>The invariant of the run tables\<close>

definition queue_inv :: "db \<Rightarrow> bool" where
  "queue_inv b \<longleftrightarrow>
     distinct (run_ids b) \<and> distinct (queue_ids b) \<and>
     sorted_wrt (<) (map q_seq (db_queue b)) \<and> (\<forall>q \<in> set (db_queue b). q_seq q \<le> db_queue_seq b) \<and>
     (\<forall>q \<in> set (db_queue b). \<exists>r \<in> set (db_runs b). rr_run_id r = q_run_id q \<and>
        rr_status r = ''queued'' \<and> rr_definition_id r = q_definition_id q) \<and>
     (\<forall>r \<in> set (db_runs b). rr_status r = ''queued'' \<longrightarrow> rr_run_id r \<in> set (queue_ids b)) \<and>
     sorted_wrt (\<lambda>r r'. \<not> same_occurrence r r') (db_runs b)"

definition within_limits :: "queue_limits \<Rightarrow> db \<Rightarrow> bool" where
  "within_limits lim b \<longleftrightarrow> queue_depth b \<le> MaxItems lim \<and> queue_bytes b \<le> MaxBytes lim
     \<and> (\<forall>did. queue_per_job did b \<le> MaxPerJob lim) \<and> (\<forall>q \<in> set (db_queue b). 0 \<le> q_payload_bytes q)"

section \<open>Preservation\<close>

text \<open>Updates that keep the identity columns of a row.\<close>

definition keeps_key :: "(run_row \<Rightarrow> run_row) \<Rightarrow> bool" where
  "keeps_key f \<longleftrightarrow> (\<forall>r. rr_run_id (f r) = rr_run_id r \<and> rr_definition_id (f r) = rr_definition_id r
     \<and> rr_trigger (f r) = rr_trigger r \<and> rr_scheduled_for_us (f r) = rr_scheduled_for_us r)"

lemma keeps_key_end_row [simp]: "keeps_key (end_row status reason now)"
  by (simp add: keeps_key_def end_row_def)

lemma run_ids_update [simp]: "keeps_key f \<Longrightarrow> run_ids (update_runs P f b) = run_ids b"
  by (auto simp: run_ids_def keeps_key_def)

lemma run_ids_delete_queue [simp]: "run_ids (delete_queue Q b) = run_ids b"
  by (simp add: run_ids_def)

lemma occurrences_update:
  assumes "keeps_key f" "sorted_wrt (\<lambda>r r'. \<not> same_occurrence r r') rs"
  shows "sorted_wrt (\<lambda>r r'. \<not> same_occurrence r r') (map (\<lambda>r. if P r then f r else r) rs)"
proof -
  have "same_occurrence (if P r then f r else r) (if P r' then f r' else r') = same_occurrence r r'" for r r'
    using assms(1) by (simp add: same_occurrence_def keeps_key_def)
  then show ?thesis using assms(2) by (simp add: sorted_wrt_map)
qed

lemma row_unique:
  "distinct (run_ids b) \<Longrightarrow> r \<in> set (db_runs b) \<Longrightarrow> r' \<in> set (db_runs b) \<Longrightarrow>
   rr_run_id r = rr_run_id r' \<Longrightarrow> r = r'"
  by (simp add: run_ids_def distinct_map inj_on_def)

text \<open>The shared argument: queued rows that change their status lose exactly their queue row.\<close>

lemma queue_inv_update:
  assumes inv: "queue_inv b" and f: "keeps_key f" "\<And>r. rr_status (f r) \<noteq> ''queued''"
    and PQ: "\<And>r q. r \<in> set (db_runs b) \<Longrightarrow> q \<in> set (db_queue b) \<Longrightarrow> rr_run_id r = q_run_id q \<Longrightarrow>
      rr_status r = ''queued'' \<Longrightarrow> P r \<longleftrightarrow> Q q"
  shows "queue_inv (delete_queue Q (update_runs P f b))"
proof -
  let ?g = "\<lambda>r. if P r then f r else r"
  have g: "rr_run_id (?g r) = rr_run_id r" "rr_definition_id (?g r) = rr_definition_id r" for r
    using f(1) by (simp_all add: keeps_key_def)
  have "\<exists>r \<in> set (map ?g (db_runs b)). rr_run_id r = q_run_id q \<and> rr_status r = ''queued''
      \<and> rr_definition_id r = q_definition_id q"
    if q: "q \<in> set (db_queue b)" "\<not> Q q" for q
  proof -
    from inv q obtain r where r: "r \<in> set (db_runs b)" "rr_run_id r = q_run_id q"
      "rr_status r = ''queued''" "rr_definition_id r = q_definition_id q"
      by (auto simp: queue_inv_def)
    with PQ [OF r(1) q(1) r(2,3)] q(2) show ?thesis by force
  qed
  moreover have "rr_run_id r \<in> q_run_id ` {q \<in> set (db_queue b). \<not> Q q}"
    if r: "r \<in> set (map ?g (db_runs b))" "rr_status r = ''queued''" for r
  proof -
    from r f(2) obtain r0 where r0: "r0 \<in> set (db_runs b)" "r = r0" "\<not> P r0" by auto
    from inv r0 r(2) obtain q where q: "q \<in> set (db_queue b)" "q_run_id q = rr_run_id r"
      by (auto simp: queue_inv_def queue_ids_def)
    with PQ [OF r0(1) q(1)] r0 r(2) show ?thesis by force
  qed
  moreover have "distinct (queue_ids (delete_queue Q (update_runs P f b)))"
    using inv by (simp add: queue_inv_def queue_ids_def filter_map_distinct)
  moreover have "sorted_wrt (<) (map q_seq (filter (\<lambda>q. \<not> Q q) (db_queue b)))"
    using inv by (simp add: queue_inv_def sorted_wrt_map sorted_wrt_filter)
  ultimately show ?thesis
    using inv f(1) occurrences_update [OF f(1)]
    by (simp add: queue_inv_def queue_ids_def)
qed

lemma delete_queue_none [simp]: "delete_queue (\<lambda>_. False) b = b"
  by (simp add: delete_queue_def)

lemma queue_inv_update_only:
  assumes "queue_inv b" "keeps_key f" "\<And>r. rr_status (f r) \<noteq> ''queued''"
    and "\<And>r. r \<in> set (db_runs b) \<Longrightarrow> P r \<Longrightarrow> rr_status r \<noteq> ''queued''"
  shows "queue_inv (update_runs P f b)"
  using queue_inv_update [of b f P "\<lambda>_. False"] assms by auto

lemma queue_inv_insert_run:
  assumes "queue_inv b" "insert_run row b = Inr b'" "rr_status row \<noteq> ''queued''"
  shows "queue_inv b'"
  using assms insert_run_InrD [OF assms(2)]
  by (auto simp: queue_inv_def run_ids_def queue_ids_def sorted_wrt_append list_ex_iff same_occurrence_def)

lemma queue_inv_cong:
  "db_runs b' = db_runs b \<Longrightarrow> db_queue b' = db_queue b \<Longrightarrow> db_queue_seq b' = db_queue_seq b \<Longrightarrow>
   queue_inv b' = queue_inv b"
  by (simp add: queue_inv_def run_ids_def queue_ids_def)

lemma queue_inv_delete_idempotency [simp]: "queue_inv (delete_idempotency P b) = queue_inv b"
  by (rule queue_inv_cong) simp_all

lemma queue_inv_enqueue_rows:
  assumes inv: "queue_inv b" and r: "insert_run row b = Inr b1" "rr_status row = ''queued''"
    and q: "insert_queue (rr_run_id row) (rr_definition_id row) enq expires nbytes b1 = Inr b2"
  shows "queue_inv b2"
proof -
  note r' = insert_run_InrD [OF r(1)] and q' = insert_queue_InrD [OF q]
  have "\<forall>x \<in> set (db_queue b). q_seq x < db_queue_seq b + 1"
    using inv by (force simp: queue_inv_def)
  then show ?thesis
    using inv r' q' r(2)
    by (auto simp: queue_inv_def run_ids_def queue_ids_def sorted_wrt_append list_ex_iff same_occurrence_def)
qed

section \<open>What the operations keep\<close>

lemma reserveIdempotency_cases:
  "reserveIdempotency now p oper k h b = Inr (b1, rid) \<Longrightarrow> b1 = b \<or> (\<exists>P. b1 = delete_idempotency P b)"
  by (auto simp: reserveIdempotency_def split: option.splits if_splits)

lemma reserve_for_cases:
  "reserve_for now idem b = Inr (b1, rid) \<Longrightarrow> b1 = b \<or> (\<exists>P. b1 = delete_idempotency P b)"
  by (auto simp: reserve_for_def split: option.splits if_splits dest: reserveIdempotency_cases)

lemma save_key_cases:
  "save_key now idem rid b = Inr b' \<Longrightarrow> db_runs b' = db_runs b \<and> db_queue b' = db_queue b
     \<and> db_queue_seq b' = db_queue_seq b"
  by (auto simp: save_key_def split: option.splits if_splits dest: insert_idempotency_InrD)

text \<open>What a successful enqueue did: a replay that changed nothing, or a new queued run that
  passed every limit.\<close>

lemma EnqueueRun_cases:
  assumes "EnqueueRun now1 now2 r idem lim uniq b = (b', Inr replay)"
  obtains (replay) "b' = b" "replay \<noteq> ''''" "\<exists>b1. reserve_for now1 idem b = Inr (b1, replay)"
  | (queued) b1 b2 b3 where "replay = ''''" "reserve_for now1 idem b = Inr (b1, '''')"
      "uniq \<longrightarrow> queue_per_job (r_DefinitionID r) b = 0" "queue_depth b < MaxItems lim"
      "queue_per_job (r_DefinitionID r) b < MaxPerJob lim"
      "queue_bytes b + QueuePayloadBytes r idem \<le> MaxBytes lim"
      "insert_run (runArgs (r\<lparr>r_Status := ''queued''\<rparr>)) b1 = Inr b2"
      "insert_queue (r_ID r) (r_DefinitionID r) (unix_micro now2) (unix_micro (now2 + MaxAge lim))
         (QueuePayloadBytes r idem) b2 = Inr b3"
      "save_key now2 idem (r_ID r) b3 = Inr b'"
proof -
  obtain b1 rid where res: "reserve_for now1 idem b = Inr (b1, rid)"
    using assms by (cases "reserve_for now1 idem b") (auto simp: EnqueueRun_def)
  have q: "queue_per_job d b1 = queue_per_job d b" "queue_depth b1 = queue_depth b"
    "queue_bytes b1 = queue_bytes b" for d
    using reserve_for_cases [OF res] by (auto simp: queue_per_job_def queue_depth_def queue_bytes_def)
  have nonneg: "0 \<le> queue_per_job d b" for d by (simp add: queue_per_job_def)
  show thesis
  proof (cases "rid = ''''")
    case False
    then show thesis using assms res replay by (auto simp: EnqueueRun_def)
  next
    case True
    then show thesis
      using assms res queued [of b1] nonneg [of "r_DefinitionID r"]
      by (auto simp: EnqueueRun_def Let_def q split: if_splits sum.splits)
  qed
qed

lemma EnqueueRun_error: "EnqueueRun now1 now2 r idem lim uniq b = (b', Inl e) \<Longrightarrow> b' = b"
  by (auto simp: EnqueueRun_def transaction_def split: sum.splits)

lemma EnqueueRun_inv [step_inv]:
  assumes "queue_inv b" "EnqueueRun now1 now2 r idem lim uniq b = (b', res)"
  shows "queue_inv b'"
proof (cases res)
  case (Inl e)
  then show ?thesis using assms EnqueueRun_error by blast
next
  case (Inr replay)
  from assms(2)[unfolded Inr] show ?thesis
  proof (cases rule: EnqueueRun_cases)
    case replay
    then show ?thesis using assms(1) by simp
  next
    case (queued b1 b2 b3)
    have "queue_inv b1" using reserve_for_cases [OF queued(2)] assms(1) by auto
    then have "queue_inv b3"
      using queue_inv_enqueue_rows [OF _ queued(7)] queued(8) by (simp add: runArgs_def)
    then show ?thesis using save_key_cases [OF queued(9)] queue_inv_cong by metis
  qed
qed

lemma CreateRun_inv [step_inv]:
  "queue_inv b \<Longrightarrow> r_Status r \<noteq> ''queued'' \<Longrightarrow> CreateRun r b = (b', res) \<Longrightarrow> queue_inv b'"
  using queue_inv_insert_run [of b "runArgs r"]
  by (auto simp: CreateRun_def runArgs_def split: sum.splits)

lemma AdmitIdempotentRun_cases:
  assumes "AdmitIdempotentRun now1 now2 r p oper k h b = (b', res)"
  obtains (same) "b' = b" "res \<noteq> Inr []"
  | (created) b1 b2 where "res = Inr []" "reserveIdempotency now1 p oper k h b = Inr (b1, [])"
      "insert_run (runArgs r) b1 = Inr b2"
      "insert_idempotency \<lparr>i_principal = p, i_operation = oper, i_key = k, i_request_hash = h,
         i_run_id = r_ID r, i_created_us = unix_micro now2\<rparr> b2 = Inr b'"
proof (cases "reserveIdempotency now1 p oper k h b")
  case (Inl e)
  then show thesis using assms same by (auto simp: AdmitIdempotentRun_def)
next
  case (Inr x)
  obtain b1 rid where x: "x = (b1, rid)" by (cases x)
  show thesis
  proof (cases "rid = []")
    case False
    then show thesis using assms same Inr x by (auto simp: AdmitIdempotentRun_def)
  next
    case True
    then show thesis
      using assms same created [of b1] Inr x
      by (auto simp: AdmitIdempotentRun_def split: sum.splits)
  qed
qed

lemma AdmitIdempotentRun_inv [step_inv]:
  assumes "queue_inv b" "r_Status r \<noteq> ''queued''"
    "AdmitIdempotentRun now1 now2 r p oper k h b = (b', res)"
  shows "queue_inv b'"
  using assms(3)
proof (cases rule: AdmitIdempotentRun_cases)
  case same
  then show ?thesis using assms(1) by simp
next
  case (created b1 b2)
  have "queue_inv b1" using reserveIdempotency_cases [OF created(2)] assms(1) by auto
  then have "queue_inv b2" using queue_inv_insert_run [OF _ created(3)] assms(2) by (simp add: runArgs_def)
  then show ?thesis using insert_idempotency_InrD [OF created(4)] queue_inv_cong [of b' b2] by simp
qed

lemma StartRun_inv [step_inv]: "queue_inv b \<Longrightarrow> StartRun rid pid pgid sid t b = (b', res) \<Longrightarrow> queue_inv b'"
  by (auto simp: StartRun_def guarded_update_def keeps_key_def intro!: queue_inv_update_only)

lemma FinishRunWithUsage_inv [step_inv]:
  "queue_inv b \<Longrightarrow> status \<noteq> ''queued'' \<Longrightarrow>
   FinishRunWithUsage rid status reason code sig t bytes tr usage b = (b', res) \<Longrightarrow> queue_inv b'"
  by (auto simp: FinishRunWithUsage_def guarded_update_def keeps_key_def intro!: queue_inv_update_only)

lemma Recover_inv [step_inv]: "queue_inv b \<Longrightarrow> queue_inv (Recover now b)"
  unfolding Recover_def
  by (rule queue_inv_update_only) (auto simp: keeps_key_def recover_cond_def queue_inv_def)

lemma ExpireQueued_inv [step_inv]:
  "queue_inv b \<Longrightarrow> ExpireQueued now limit b = (b', ids) \<Longrightarrow> queue_inv b'"
  by (auto simp: ExpireQueued_def Let_def end_row_def keeps_key_def split: if_splits intro!: queue_inv_update)

lemma endQueued_inv [step_inv]:
  "queue_inv b \<Longrightarrow> status \<noteq> ''queued'' \<Longrightarrow> endQueued rid status reason now b = (b', res) \<Longrightarrow> queue_inv b'"
  by (auto simp: endQueued_def Let_def end_row_def keeps_key_def intro!: queue_inv_update)

lemma dropDefinitionQueued_inv [step_inv]:
  assumes "queue_inv b" shows "queue_inv (dropDefinitionQueued did reason now b)"
  unfolding dropDefinitionQueued_def
proof (rule queue_inv_update [OF assms])
  fix r q assume "q \<in> set (db_queue b)" "rr_run_id r = q_run_id q" "rr_status r = ''queued''"
  moreover have "inj_on q_run_id (set (db_queue b))"
    using assms by (simp add: queue_inv_def queue_ids_def distinct_map)
  ultimately show "(rr_status r = ''queued'' \<and> rr_run_id r \<in> q_run_id ` set
      (filter (\<lambda>q. q_definition_id q = did) (db_queue b))) = (q_definition_id q = did)"
    by (auto dest: inj_onD)
qed (auto simp: end_row_def)

lemma DequeueRun_inv [step_inv]:
  "queue_inv b \<Longrightarrow> DequeueRun rid revision hash boot b = (b', res) \<Longrightarrow> queue_inv b'"
  by (auto simp: DequeueRun_def Let_def keeps_key_def split: if_splits intro!: queue_inv_update)

lemma queue_inv_delete_runs:
  assumes inv: "queue_inv b" and P: "\<And>r. r \<in> set (db_runs b) \<Longrightarrow> P r \<Longrightarrow> rr_status r \<noteq> ''queued''"
  shows "queue_inv (delete_runs_where P b)"
proof -
  have kept: "rr_run_id r \<in> rr_run_id ` {r \<in> set (db_runs b). \<not> P r}"
    if "r \<in> set (db_runs b)" "rr_status r = ''queued''" for r using that P by auto
  have "q_run_id q \<in> rr_run_id ` {r \<in> set (db_runs b). \<not> P r}" if "q \<in> set (db_queue b)" for q
    using inv kept that by (force simp: queue_inv_def)
  then have same: "filter (\<lambda>q. q_run_id q \<in> rr_run_id ` {r \<in> set (db_runs b). \<not> P r}) (db_queue b) = db_queue b"
    by simp
  have "\<exists>r. r \<in> set (db_runs b) \<and> \<not> P r \<and> rr_run_id r = q_run_id q \<and> rr_status r = ''queued''
      \<and> rr_definition_id r = q_definition_id q" if "q \<in> set (db_queue b)" for q
    using inv that P by (fastforce simp: queue_inv_def)
  then show ?thesis
    using inv same
    by (auto simp: queue_inv_def delete_runs_where_def Let_def run_ids_def queue_ids_def
        filter_map_distinct sorted_wrt_filter)
qed

lemma DeleteRuns_inv [step_inv]: "queue_inv b \<Longrightarrow> queue_inv (DeleteRuns now ids b)"
  by (auto simp: DeleteRuns_def delete_cond_def intro: queue_inv_delete_runs)

lemma DeleteRun_inv [step_inv]: "queue_inv b \<Longrightarrow> queue_inv (DeleteRun now rid b)"
  by (auto simp: DeleteRun_def delete_cond_def intro: queue_inv_delete_runs)

section \<open>Steps of the run tables\<close>

text \<open>One committed change: an operation on runs or the queue with the arguments its callers
  give it (a created run is not in status queued, a finished run gets a terminal status), or a
  change to the other tables. An operation that fails leaves the database as it was, except
  that the guarded updates may match no row.\<close>

inductive run_step :: "queue_limits \<Rightarrow> db \<Rightarrow> db \<Rightarrow> bool" for lim :: queue_limits where
  create: "r_Status r \<noteq> ''queued'' \<Longrightarrow> CreateRun r b = (b', res) \<Longrightarrow> run_step lim b b'"
| admit: "r_Status r \<noteq> ''queued'' \<Longrightarrow> AdmitIdempotentRun now1 now2 r p oper k h b = (b', res1) \<Longrightarrow>
    run_step lim b b'"
| enqueue: "EnqueueRun now1 now2 r idem lim uniq b = (b', res1) \<Longrightarrow> run_step lim b b'"
| start: "StartRun rid pid pgid sid t b = (b', res) \<Longrightarrow> run_step lim b b'"
| finish: "Terminal status \<Longrightarrow> FinishRunWithUsage rid status reason code sig t bytes tr usage b = (b', res) \<Longrightarrow>
    run_step lim b b'"
| recover: "run_step lim b (Recover now b)"
| expire: "ExpireQueued now limit b = (b', ids) \<Longrightarrow> run_step lim b b'"
| drop: "DropQueued rid reason now b = (b', res) \<Longrightarrow> run_step lim b b'"
| cancel: "CancelQueued rid now b = (b', res) \<Longrightarrow> run_step lim b b'"
| drop_definition: "run_step lim b (dropDefinitionQueued did reason now b)"
| dequeue: "DequeueRun rid revision hash boot b = (b', res) \<Longrightarrow> run_step lim b b'"
| delete: "run_step lim b (DeleteRun now rid b)"
| delete_page: "run_step lim b (DeleteRuns now ids b)"
| other: "db_runs b' = db_runs b \<Longrightarrow> db_queue b' = db_queue b \<Longrightarrow> db_queue_seq b' = db_queue_seq b \<Longrightarrow>
    run_step lim b b'"

lemma DropQueued_inv [step_inv]: "queue_inv b \<Longrightarrow> DropQueued rid reason now b = (b', res) \<Longrightarrow> queue_inv b'"
  unfolding DropQueued_def by (rule endQueued_inv [of _ "''skipped''"]) simp_all

lemma CancelQueued_inv [step_inv]: "queue_inv b \<Longrightarrow> CancelQueued rid now b = (b', res) \<Longrightarrow> queue_inv b'"
  unfolding CancelQueued_def by (rule endQueued_inv [of _ "''stopped''"]) simp_all

lemma Terminal_not_queued: "Terminal status \<Longrightarrow> status \<noteq> ''queued''"
  using not_Terminal_active(1) by blast

lemma run_step_inv: "run_step lim b b' \<Longrightarrow> queue_inv b \<Longrightarrow> queue_inv b'"
proof (induction rule: run_step.induct)
  case (other b' b)
  then show ?case using queue_inv_cong by metis
next
  case (finish status rid reason code sig t bytes tr usage b b' res)
  then show ?case using FinishRunWithUsage_inv Terminal_not_queued by blast
qed (blast intro: step_inv)+

lemma empty_db_inv: "queue_inv empty_db"
  by (simp add: queue_inv_def empty_db_def run_ids_def queue_ids_def)

interpretation run_tables: invariant_system "\<lambda>b. b = empty_db" "run_step lim" queue_inv
  by unfold_locales (auto simp: empty_db_inv dest: run_step_inv)

section \<open>Limits\<close>

lemma within_limits_shrink:
  assumes "within_limits lim b" "db_queue b' = filter Q (db_queue b)"
  shows "within_limits lim b'"
proof -
  have "sum_list (map q_payload_bytes (filter Q qs)) \<le> sum_list (map q_payload_bytes qs)"
    if "\<forall>q \<in> set qs. 0 \<le> q_payload_bytes q" for qs
    using that by (induction qs) auto
  then have "queue_bytes b' \<le> queue_bytes b"
    using assms by (simp add: queue_bytes_def within_limits_def)
  moreover have "queue_depth b' \<le> queue_depth b" using assms(2) by (simp add: queue_depth_def)
  moreover have "queue_per_job did b' \<le> queue_per_job did b" for did
  proof -
    have "length (filter (\<lambda>q. q_definition_id q = did) (filter Q qs))
        \<le> length (filter (\<lambda>q. q_definition_id q = did) qs)" for qs
      by (induction qs) auto
    then show ?thesis by (simp add: queue_per_job_def assms(2))
  qed
  ultimately show ?thesis
    using assms unfolding within_limits_def by (metis filter_is_subset order_trans subsetD)
qed

lemma within_limits_cong: "db_queue b' = db_queue b \<Longrightarrow> within_limits lim b' = within_limits lim b"
  by (simp add: within_limits_def queue_bytes_def queue_depth_def queue_per_job_def)

lemma QueuePayloadBytes_nonneg: "0 \<le> QueuePayloadBytes r idem"
  by (simp add: QueuePayloadBytes_def queuePayloadOverhead_def split: option.split)

lemma EnqueueRun_queue:
  assumes "EnqueueRun now1 now2 r idem lim uniq b = (b', Inr [])"
  shows "db_queue b' = db_queue b @ [\<lparr>q_seq = db_queue_seq b + 1, q_run_id = r_ID r,
      q_definition_id = r_DefinitionID r, q_enqueued_us = unix_micro now2,
      q_expires_us = unix_micro (now2 + MaxAge lim), q_payload_bytes = QueuePayloadBytes r idem\<rparr>] \<and>
    db_runs b' = db_runs b @ [runArgs (r\<lparr>r_Status := ''queued''\<rparr>)] \<and> r_ID r \<notin> set (run_ids b) \<and>
    queue_depth b < MaxItems lim \<and> queue_per_job (r_DefinitionID r) b < MaxPerJob lim \<and>
    queue_bytes b + QueuePayloadBytes r idem \<le> MaxBytes lim"
  using assms
proof (cases rule: EnqueueRun_cases)
  case (queued b1 b2 b3)
  have "db_queue b1 = db_queue b" "db_runs b1 = db_runs b" "db_queue_seq b1 = db_queue_seq b"
    using reserve_for_cases [OF queued(2)] by auto
  then show ?thesis
    using queued insert_run_InrD [OF queued(7)] insert_queue_InrD [OF queued(8)] save_key_cases [OF queued(9)]
    by (simp add: run_ids_def runArgs_def)
qed simp

lemma EnqueueRun_limits:
  assumes "within_limits lim b" "EnqueueRun now1 now2 r idem lim uniq b = (b', res)"
  shows "within_limits lim b'"
proof (cases "res = Inr []")
  case False
  then have "b' = b"
    using assms(2) EnqueueRun_error [of now1 now2 r idem lim uniq b b']
    by (cases res) (auto elim: EnqueueRun_cases)
  then show ?thesis using assms(1) by simp
next
  case True
  note q = EnqueueRun_queue [OF assms(2)[unfolded True]]
  then show ?thesis
    using assms(1) QueuePayloadBytes_nonneg
    by (auto simp: within_limits_def queue_depth_def queue_bytes_def queue_per_job_def)
qed

lemma run_step_limits: "run_step lim b b' \<Longrightarrow> within_limits lim b \<Longrightarrow> within_limits lim b'"
proof (induction rule: run_step.induct)
  case (enqueue now1 now2 r idem uniq b b' res1)
  then show ?case using EnqueueRun_limits by blast
next
  case (admit r now1 now2 p oper k h b b' res1)
  from admit(2) show ?case
  proof (cases rule: AdmitIdempotentRun_cases)
    case same
    then show ?thesis using admit.prems by simp
  next
    case (created b1 b2)
    then have "db_queue b' = db_queue b"
      using reserveIdempotency_cases [OF created(2)] insert_run_InrD [OF created(3)]
        insert_idempotency_InrD [OF created(4)] by auto
    then show ?thesis using admit.prems within_limits_cong by blast
  qed
next
  case (other b' b)
  then show ?case using within_limits_cong by blast
next
  case (create r b b' res)
  then have "db_queue b' = db_queue b" by (auto simp: CreateRun_def split: sum.splits dest!: insert_run_InrD)
  then show ?case using create.prems within_limits_cong by blast
next
  case (start rid pid pgid sid t b b' res)
  then have "db_queue b' = db_queue b" by (auto simp: StartRun_def guarded_update_def)
  then show ?case using start.prems within_limits_cong by blast
next
  case (finish status rid reason code sig t bytes tr usage b b' res)
  then have "db_queue b' = db_queue b" by (auto simp: FinishRunWithUsage_def guarded_update_def)
  then show ?case using finish.prems within_limits_cong by blast
next
  case (recover b now)
  then show ?case using within_limits_cong [of "Recover now b" b] by (simp add: Recover_def)
qed (auto simp: ExpireQueued_def DropQueued_def CancelQueued_def endQueued_def dropDefinitionQueued_def
    DequeueRun_def DeleteRun_def DeleteRuns_def delete_runs_where_def Let_def split: if_splits
    elim!: within_limits_shrink)

section \<open>The lifecycle of a run\<close>

text \<open>The abstract state machine of one run identifier: no row, waiting, admitted, running, or
  ended. An ended run keeps its status for good; only ended runs disappear.\<close>

definition status_of :: "string \<Rightarrow> db \<Rightarrow> string option" where
  "status_of rid b = map_option rr_status (find_run rid b)"

definition lifecycle :: "string option \<Rightarrow> string option \<Rightarrow> bool" where
  "lifecycle x y \<longleftrightarrow> x = y \<or>
     (case (x, y) of
        (None, _) \<Rightarrow> True
      | (Some s, None) \<Rightarrow> s \<notin> {''queued'', ''pending'', ''running''}
      | (Some s, Some t) \<Rightarrow>
          s = ''queued'' \<and> (t = ''pending'' \<or> Terminal t)
          \<or> s = ''pending'' \<and> (t = ''running'' \<or> Terminal t)
          \<or> s = ''running'' \<and> Terminal t)"

lemma lifecycle_refl [simp]: "lifecycle x x"
  by (simp add: lifecycle_def)

lemma lifecycle_Some [simp]: "lifecycle (Some s) (Some t) \<longleftrightarrow> s = t
    \<or> s = ''queued'' \<and> (t = ''pending'' \<or> Terminal t)
    \<or> s = ''pending'' \<and> (t = ''running'' \<or> Terminal t) \<or> s = ''running'' \<and> Terminal t"
  by (auto simp: lifecycle_def)

lemma find_run_update:
  "keeps_key f \<Longrightarrow> find_run rid (update_runs P f b) = map_option (\<lambda>r. if P r then f r else r) (find_run rid b)"
proof -
  assume "keeps_key f"
  then have "find (\<lambda>r. rr_run_id r = rid) (map (\<lambda>r. if P r then f r else r) rs)
      = map_option (\<lambda>r. if P r then f r else r) (find (\<lambda>r. rr_run_id r = rid) rs)" for rs
    by (induction rs) (auto simp: keeps_key_def)
  then show ?thesis by (simp add: find_run_def)
qed

lemma find_run_cong: "db_runs b' = db_runs b \<Longrightarrow> find_run rid b' = find_run rid b"
  by (simp add: find_run_def)

lemma find_run_SomeD: "find_run rid b = Some r \<Longrightarrow> r \<in> set (db_runs b) \<and> rr_run_id r = rid"
  unfolding find_run_def by (drule find_Some_set) simp

lemma find_run_append: "find_run rid (b\<lparr>db_runs := db_runs b @ [row]\<rparr>)
    = (case find_run rid b of Some r \<Rightarrow> Some r | None \<Rightarrow> if rr_run_id row = rid then Some row else None)"
proof -
  have "find Q (rs @ [row]) = (case find Q rs of Some r \<Rightarrow> Some r | None \<Rightarrow> if Q row then Some row else None)"
    for Q rs by (induction rs) auto
  then show ?thesis by (simp add: find_run_def)
qed

lemma find_run_delete:
  assumes "distinct (run_ids b)"
  shows "find_run rid (delete_runs_where P b)
    = (case find_run rid b of None \<Rightarrow> None | Some r \<Rightarrow> if P r then None else Some r)"
proof -
  have "distinct (map rr_run_id rs) \<Longrightarrow> find (\<lambda>r. rr_run_id r = rid) (filter (\<lambda>r. \<not> P r) rs)
      = (case find (\<lambda>r. rr_run_id r = rid) rs of None \<Rightarrow> None | Some r \<Rightarrow> if P r then None else Some r)" for rs
  proof (induction rs)
    case (Cons a rs)
    show ?case
    proof (cases "rr_run_id a = rid")
      case True
      then have "find (\<lambda>r. rr_run_id r = rid) rs = None" using Cons.prems by (auto simp: find_None_all image_iff)
      then show ?thesis using Cons True by simp
    qed (use Cons in simp)
  qed simp
  then show ?thesis using assms by (simp add: find_run_def delete_runs_where_def Let_def run_ids_def)
qed

text \<open>The two shapes of a lifecycle step: a guarded update, and an insertion.\<close>

lemma lifecycle_update:
  assumes "keeps_key f" "\<And>r. P r \<Longrightarrow> lifecycle (Some (rr_status r)) (Some (rr_status (f r)))"
  shows "lifecycle (status_of rid b) (status_of rid (update_runs P f b))"
  using assms by (cases "find_run rid b") (auto simp: status_of_def find_run_update)

lemma lifecycle_insert:
  "insert_run row b = Inr b' \<Longrightarrow> lifecycle (status_of rid b) (status_of rid b')"
  by (drule insert_run_InrD)
    (auto simp: status_of_def find_run_append lifecycle_def split: option.splits)

lemma status_of_cong: "db_runs b' = db_runs b \<Longrightarrow> status_of rid b' = status_of rid b"
  by (simp add: status_of_def find_run_def)

lemma status_of_delete_queue [simp]: "status_of rid (delete_queue Q b) = status_of rid b"
  by (rule status_of_cong) simp

lemma EnqueueRun_lifecycle:
  assumes "EnqueueRun now1 now2 r idem lim uniq b = (b', res)"
  shows "lifecycle (status_of rid b) (status_of rid b')"
proof (cases "res = Inr []")
  case True
  from EnqueueRun_queue [OF assms [unfolded True]]
  have "status_of rid b' = status_of rid (b\<lparr>db_runs := db_runs b @ [runArgs (r\<lparr>r_Status := ''queued''\<rparr>)]\<rparr>)"
    by (intro status_of_cong) simp
  then show ?thesis by (auto simp: status_of_def find_run_append lifecycle_def split: option.splits)
next
  case False
  then have "b' = b"
    using assms EnqueueRun_error [of now1 now2 r idem lim uniq b b']
    by (cases res) (auto elim: EnqueueRun_cases)
  then show ?thesis by simp
qed

lemma AdmitIdempotentRun_lifecycle:
  assumes "AdmitIdempotentRun now1 now2 r p oper k h b = (b', res)"
  shows "lifecycle (status_of rid b) (status_of rid b')"
  using assms
proof (cases rule: AdmitIdempotentRun_cases)
  case (created b1 b2)
  have "status_of rid b1 = status_of rid b" "status_of rid b' = status_of rid b2"
    using reserveIdempotency_cases [OF created(2)] insert_idempotency_InrD [OF created(4)]
    by (auto intro: status_of_cong)
  then show ?thesis using lifecycle_insert [OF created(3), of rid] by simp
qed simp

lemma delete_lifecycle:
  assumes "queue_inv b" "\<And>r. P r \<Longrightarrow> rr_status r \<notin> {''queued'', ''pending'', ''running''}"
  shows "lifecycle (status_of rid b) (status_of rid (delete_runs_where P b))"
  using assms by (auto simp: status_of_def find_run_delete queue_inv_def lifecycle_def split: option.splits)

lemma run_step_lifecycle:
  "run_step lim b b' \<Longrightarrow> queue_inv b \<Longrightarrow> lifecycle (status_of rid b) (status_of rid b')"
proof (induction rule: run_step.induct)
  case (create r b b' res)
  then show ?case by (auto simp: CreateRun_def split: sum.splits dest: lifecycle_insert)
next
  case (admit r now1 now2 p oper k h b b' res1)
  then show ?case using AdmitIdempotentRun_lifecycle by blast
next
  case (enqueue now1 now2 r idem uniq b b' res1)
  then show ?case using EnqueueRun_lifecycle by blast
next
  case (start rid' pid pgid sid t b b' res)
  then show ?case
    by (auto simp: StartRun_def guarded_update_def keeps_key_def intro!: lifecycle_update)
next
  case (finish status rid' reason code sig t bytes tr usage b b' res)
  then show ?case
    by (auto simp: FinishRunWithUsage_def guarded_update_def keeps_key_def intro!: lifecycle_update)
next
  case (recover b now)
  then show ?case unfolding Recover_def
    by (intro lifecycle_update) (auto simp: recover_cond_def keeps_key_def Terminal_simps)
next
  case (expire now limit b b' ids)
  then show ?case
    by (auto simp: ExpireQueued_def Let_def end_row_def keeps_key_def Terminal_simps
        split: if_splits intro!: lifecycle_update)
next
  case (delete b now rid')
  then show ?case unfolding DeleteRun_def by (intro delete_lifecycle) (auto simp: delete_cond_def)
next
  case (delete_page b now ids)
  then show ?case unfolding DeleteRuns_def by (auto simp: delete_cond_def intro!: delete_lifecycle)
next
  case (other b' b)
  then show ?case using status_of_cong by (metis lifecycle_refl)
qed (auto simp: DropQueued_def CancelQueued_def endQueued_def dropDefinitionQueued_def DequeueRun_def Let_def
    end_row_def keeps_key_def Terminal_simps split: if_splits intro!: lifecycle_update)

section \<open>A queue that hands out each key once\<close>

text \<open>The interface the drain loop relies on: keys wait in order, a key that was ever accepted
  is never accepted again, and handing a key out removes it. A trace is a sequence of pushes and
  takes; it records the keys accepted and the keys handed out.\<close>

primrec queue_trace :: "('p \<Rightarrow> 's \<Rightarrow> 's \<times> 'k option) \<Rightarrow> ('t \<Rightarrow> 's \<Rightarrow> 's \<times> 'k option)
    \<Rightarrow> ('p + 't) list \<Rightarrow> 's \<Rightarrow> 's \<times> 'k list \<times> 'k list" where
  "queue_trace push pop [] s = (s, [], [])"
| "queue_trace push pop (e # es) s =
     (case e of
        Inl p \<Rightarrow> (case push p s of (s1, r) \<Rightarrow>
           (case queue_trace push pop es s1 of (s2, ps, ts) \<Rightarrow>
              (s2, (case r of None \<Rightarrow> ps | Some k \<Rightarrow> k # ps), ts)))
      | Inr t \<Rightarrow> (case pop t s of (s1, r) \<Rightarrow>
           (case queue_trace push pop es s1 of (s2, ps, ts) \<Rightarrow>
              (s2, ps, (case r of None \<Rightarrow> ts | Some k \<Rightarrow> k # ts)))))"

locale once_queue =
  fixes ok :: "'s \<Rightarrow> bool" and waiting :: "'s \<Rightarrow> 'k list" and used :: "'s \<Rightarrow> 'k set"
    and push :: "'p \<Rightarrow> 's \<Rightarrow> 's \<times> 'k option" and pop :: "'t \<Rightarrow> 's \<Rightarrow> 's \<times> 'k option"
  assumes waiting_ok: "ok s \<Longrightarrow> distinct (waiting s) \<and> set (waiting s) \<subseteq> used s"
    and push_none: "ok s \<Longrightarrow> push p s = (s', None) \<Longrightarrow> ok s' \<and> waiting s' = waiting s \<and> used s' = used s"
    and push_some: "ok s \<Longrightarrow> push p s = (s', Some k) \<Longrightarrow>
      ok s' \<and> k \<notin> used s \<and> waiting s' = waiting s @ [k] \<and> used s' = insert k (used s)"
    and pop_none: "ok s \<Longrightarrow> pop t s = (s', None) \<Longrightarrow>
      ok s' \<and> used s' = used s \<and> (\<exists>Q. waiting s' = filter Q (waiting s))"
    and pop_some: "ok s \<Longrightarrow> pop t s = (s', Some k) \<Longrightarrow>
      ok s' \<and> used s' = used s \<and> k \<in> set (waiting s) \<and> waiting s' = remove1 k (waiting s)"
begin

lemma trace_once:
  "ok s \<Longrightarrow> queue_trace push pop es s = (s', ps, ts) \<Longrightarrow>
   ok s' \<and> distinct ts \<and> distinct ps \<and> set ps \<inter> used s = {} \<and> used s' = used s \<union> set ps \<and>
   set ts \<union> set (waiting s') \<subseteq> set (waiting s) \<union> set ps \<and> set ts \<inter> set (waiting s') = {}"
proof (induction es arbitrary: s s' ps ts)
  case Nil
  then show ?case by simp
next
  case (Cons e es)
  show ?case
  proof (cases e)
    case (Inl p)
    obtain s1 r where step: "push p s = (s1, r)" by (cases "push p s")
    obtain s2 ps2 ts2 where rest: "queue_trace push pop es s1 = (s2, ps2, ts2)" by (metis prod_cases3)
    have res: "s' = s2" "ts = ts2" "ps = (case r of None \<Rightarrow> ps2 | Some k \<Rightarrow> k # ps2)"
      using Cons.prems(2) Inl step rest by simp_all
    show ?thesis
    proof (cases r)
      case None
      then show ?thesis
        using Cons.IH [OF _ rest] push_none [OF Cons.prems(1) step [unfolded None]] res by auto
    next
      case (Some k)
      note s1 = push_some [OF Cons.prems(1) step [unfolded Some]]
      have IH: "ok s2 \<and> distinct ts2 \<and> distinct ps2 \<and> set ps2 \<inter> insert k (used s) = {} \<and>
          used s2 = insert k (used s) \<union> set ps2 \<and>
          set ts2 \<union> set (waiting s2) \<subseteq> insert k (set (waiting s)) \<union> set ps2 \<and> set ts2 \<inter> set (waiting s2) = {}"
        using Cons.IH [OF _ rest] s1 by simp
      then show ?thesis using s1 res Some by auto
    qed
  next
    case (Inr t)
    obtain s1 r where step: "pop t s = (s1, r)" by (cases "pop t s")
    obtain s2 ps2 ts2 where rest: "queue_trace push pop es s1 = (s2, ps2, ts2)" by (metis prod_cases3)
    have res: "s' = s2" "ps = ps2" "ts = (case r of None \<Rightarrow> ts2 | Some k \<Rightarrow> k # ts2)"
      using Cons.prems(2) Inr step rest by simp_all
    note w = waiting_ok [OF Cons.prems(1)]
    show ?thesis
    proof (cases r)
      case None
      note s1 = pop_none [OF Cons.prems(1) step [unfolded None]]
      then have "set (waiting s1) \<subseteq> set (waiting s)" by auto
      then show ?thesis using Cons.IH [OF _ rest] s1 res None by auto
    next
      case (Some k)
      note s1 = pop_some [OF Cons.prems(1) step [unfolded Some]]
      have w1: "set (waiting s1) = set (waiting s) - {k}" using s1 w by simp
      have IH: "ok s2 \<and> distinct ts2 \<and> distinct ps2 \<and> set ps2 \<inter> used s = {} \<and> used s2 = used s \<union> set ps2 \<and>
          set ts2 \<union> set (waiting s2) \<subseteq> (set (waiting s) - {k}) \<union> set ps2 \<and> set ts2 \<inter> set (waiting s2) = {}"
        using Cons.IH [OF _ rest] s1 w1 by simp
      have "k \<in> used s" using s1 w by auto
      then show ?thesis using IH s1 res Some by auto
    qed
  qed
qed

end

text \<open>The operations of the store as pushes and takes: only a dequeue hands a run out, the
  other ways to leave the queue end it.\<close>

type_synonym enqueue_args = "time \<times> time \<times> run_rec \<times> idempotency_req option \<times> queue_limits \<times> bool"

datatype leave_queue =
    LeaveDequeue string int string string
  | LeaveDrop string string time
  | LeaveCancel string time
  | LeaveExpire time nat
  | LeaveDefinition int string time

definition enqueue_event :: "enqueue_args \<Rightarrow> db \<Rightarrow> db \<times> string option" where
  "enqueue_event p b =
     (case p of (now1, now2, r, idem, lim, uniq) \<Rightarrow>
        (case EnqueueRun now1 now2 r idem lim uniq b of
           (b', res) \<Rightarrow> (b', if res = Inr '''' then Some (r_ID r) else None)))"

definition leave_event :: "leave_queue \<Rightarrow> db \<Rightarrow> db \<times> string option" where
  "leave_event t b =
     (case t of
        LeaveDequeue rid revision hash bootID \<Rightarrow>
          (case DequeueRun rid revision hash bootID b of
             (b', res) \<Rightarrow> (b', if res = Inr () then Some rid else None))
      | LeaveDrop rid reason now \<Rightarrow> (fst (DropQueued rid reason now b), None)
      | LeaveCancel rid now \<Rightarrow> (fst (CancelQueued rid now b), None)
      | LeaveExpire now limit \<Rightarrow> (fst (ExpireQueued now limit b), None)
      | LeaveDefinition did reason now \<Rightarrow> (dropDefinitionQueued did reason now b, None))"

lemma queue_ids_run_ids: "queue_inv b \<Longrightarrow> set (queue_ids b) \<subseteq> set (run_ids b)"
  by (force simp: queue_inv_def queue_ids_def run_ids_def)

lemma queue_ids_delete: "queue_ids (delete_queue (\<lambda>q. P (q_run_id q)) b) = filter (\<lambda>k. \<not> P k) (queue_ids b)"
  by (simp add: queue_ids_def filter_map comp_def)

lemma queue_ids_delete_run: "distinct (queue_ids b) \<Longrightarrow> queue_ids (delete_queue (\<lambda>q. q_run_id q = rid) b)
    = remove1 rid (queue_ids b)"
  using queue_ids_delete [of "\<lambda>k. k = rid" b] by (simp add: distinct_remove1_removeAll removeAll_filter_not_eq) (metis (no_types))

lemma queue_ids_update [simp]: "queue_ids (update_runs P f b) = queue_ids b"
  by (simp add: queue_ids_def)

lemma DequeueRun_Inr:
  assumes "queue_inv b" "DequeueRun rid revision hash boot b = (b', Inr ())"
  shows "rid \<in> set (queue_ids b)" "queue_ids b' = remove1 rid (queue_ids b)" "run_ids b' = run_ids b"
proof -
  let ?P = "\<lambda>r. rr_run_id r = rid \<and> rr_status r = ''queued''"
  have n: "rows_affected ?P b = 1" and b': "b' = delete_queue (\<lambda>q. q_run_id q = rid)
      (update_runs ?P (\<lambda>r. r\<lparr>rr_status := ''pending'', rr_revision := revision,
         rr_definition_hash := hash, rr_boot_id := Some boot\<rparr>) b)"
    using assms(2) by (auto simp: DequeueRun_def Let_def split: if_splits)
  from n have "filter ?P (db_runs b) \<noteq> []" by (auto simp: rows_affected_def)
  then obtain r where "r \<in> set (db_runs b)" "?P r" by (auto simp: filter_empty_conv)
  then show "rid \<in> set (queue_ids b)" using assms(1) by (auto simp: queue_inv_def)
  show "run_ids b' = run_ids b" unfolding b' by (simp add: keeps_key_def)
  show "queue_ids b' = remove1 rid (queue_ids b)"
    unfolding b' using assms(1) queue_ids_delete_run by (simp add: queue_inv_def)
qed

lemma DequeueRun_Inl: "DequeueRun rid revision hash boot b = (b', Inl e) \<Longrightarrow> b' = b"
  by (auto simp: DequeueRun_def Let_def split: if_splits)

interpretation run_queue: once_queue queue_inv queue_ids "\<lambda>b. set (run_ids b)" enqueue_event leave_event
proof
  fix b assume "queue_inv b"
  then show "distinct (queue_ids b) \<and> set (queue_ids b) \<subseteq> set (run_ids b)"
    using queue_ids_run_ids by (simp add: queue_inv_def)
next
  fix b p b' assume *: "queue_inv b" "enqueue_event p b = (b', None)"
  obtain now1 now2 r idem lim uniq where p: "p = (now1, now2, r, idem, lim, uniq)" by (metis prod_cases6)
  obtain res where res: "EnqueueRun now1 now2 r idem lim uniq b = (b', res)" "res \<noteq> Inr []"
    using * by (cases "EnqueueRun now1 now2 r idem lim uniq b")
      (auto simp: enqueue_event_def p split: if_splits)
  then have "b' = b"
    using EnqueueRun_error [of now1 now2 r idem lim uniq b b'] by (cases res) (auto elim: EnqueueRun_cases)
  then show "queue_inv b' \<and> queue_ids b' = queue_ids b \<and> set (run_ids b') = set (run_ids b)" using * by simp
next
  fix b p b' k assume *: "queue_inv b" "enqueue_event p b = (b', Some k)"
  obtain now1 now2 r idem lim uniq where p: "p = (now1, now2, r, idem, lim, uniq)" by (metis prod_cases6)
  have enq: "EnqueueRun now1 now2 r idem lim uniq b = (b', Inr [])" "k = r_ID r"
    using * by (cases "EnqueueRun now1 now2 r idem lim uniq b";
      auto simp: enqueue_event_def p split: if_splits)+
  show "queue_inv b' \<and> k \<notin> set (run_ids b) \<and> queue_ids b' = queue_ids b @ [k]
      \<and> set (run_ids b') = insert k (set (run_ids b))"
    using EnqueueRun_queue [OF enq(1)] EnqueueRun_inv [OF *(1) enq(1)] enq(2)
    by (auto simp: queue_ids_def run_ids_def runArgs_def)
next
  fix b t b' assume *: "queue_inv b" "leave_event t b = (b', None)"
  have inv: "queue_inv b'"
    using * by (cases t)
      (auto simp: leave_event_def split: prod.splits if_splits intro: DequeueRun_inv dropDefinitionQueued_inv
        DropQueued_inv [OF _ prod.collapse [symmetric]] CancelQueued_inv [OF _ prod.collapse [symmetric]]
        ExpireQueued_inv [OF _ prod.collapse [symmetric]])
  moreover have "run_ids b' = run_ids b \<and> (\<exists>Q. queue_ids b' = filter Q (queue_ids b))"
  proof (cases t)
    case (LeaveDequeue rid revision hash boot)
    then obtain e where "DequeueRun rid revision hash boot b = (b', Inl e)"
      using *(2) by (cases "DequeueRun rid revision hash boot b"; cases "snd (DequeueRun rid revision hash boot b)")
        (auto simp: leave_event_def split: if_splits)
    then have "b' = b" by (rule DequeueRun_Inl)
    then show ?thesis by (auto intro: exI [of _ "\<lambda>_. True"])
  next
    case (LeaveExpire now limit)
    then show ?thesis
      using *(2) queue_ids_delete [of "\<lambda>k. k \<in> set (expired_ids now limit b)"]
      by (auto simp: leave_event_def ExpireQueued_def Let_def split: if_splits intro: exI [of _ "\<lambda>_. True"])
  next
    case (LeaveDefinition did reason now)
    have "queue_ids b' = map q_run_id (filter (\<lambda>q. q_definition_id q \<noteq> did) (db_queue b))"
      using *(2) LeaveDefinition by (auto simp: leave_event_def dropDefinitionQueued_def queue_ids_def)
    also have "\<dots> = filter (\<lambda>k. k \<in> q_run_id ` {q \<in> set (db_queue b). q_definition_id q \<noteq> did}) (queue_ids b)"
    proof -
      have "inj_on q_run_id (set (db_queue b))" using *(1) by (simp add: queue_inv_def queue_ids_def distinct_map)
      then have "filter (\<lambda>q. q_definition_id q \<noteq> did) (db_queue b)
        = filter (\<lambda>q. q_run_id q \<in> q_run_id ` {q \<in> set (db_queue b). q_definition_id q \<noteq> did}) (db_queue b)"
        by (intro filter_cong) (auto dest: inj_onD)
      then show ?thesis by (simp add: queue_ids_def filter_map comp_def)
    qed
    finally show ?thesis
      using *(2) LeaveDefinition by (auto simp: leave_event_def dropDefinitionQueued_def)
  qed (use *(2) queue_ids_delete [of "\<lambda>k. k = rid" for rid] in
    \<open>auto simp: leave_event_def DropQueued_def CancelQueued_def endQueued_def Let_def\<close>)
  ultimately show "queue_inv b' \<and> set (run_ids b') = set (run_ids b) \<and> (\<exists>Q. queue_ids b' = filter Q (queue_ids b))"
    by simp
next
  fix b t b' k assume *: "queue_inv b" "leave_event t b = (b', Some k)"
  then obtain revision hash boot where "DequeueRun k revision hash boot b = (b', Inr ())"
    by (cases t) (auto simp: leave_event_def split: prod.splits if_splits)
  then show "queue_inv b' \<and> set (run_ids b') = set (run_ids b) \<and> k \<in> set (queue_ids b)
      \<and> queue_ids b' = remove1 k (queue_ids b)"
    using * DequeueRun_Inr DequeueRun_inv by metis
qed

section \<open>Heads of the queue\<close>

lemma sorted_wrt_distinct_map: "sorted_wrt (<) (map f xs) \<Longrightarrow> distinct (map f xs :: 'a :: linorder list)"
  by (simp add: strict_sorted_iff)

lemma queue_seq_inj:
  "queue_inv b \<Longrightarrow> q \<in> set (db_queue b) \<Longrightarrow> q' \<in> set (db_queue b) \<Longrightarrow> q_seq q = q_seq q' \<Longrightarrow> q = q'"
  using sorted_wrt_distinct_map [of q_seq "db_queue b"] by (auto simp: queue_inv_def distinct_map dest: inj_onD)

lemma QueueHeads_filter:
  assumes "queue_inv b"
  shows "QueueHeads limit b = map queue_item_of (take limit (filter (is_head b) (db_queue b)))"
proof -
  have "sorted (map q_seq (filter (is_head b) (db_queue b)))"
    using assms by (auto simp: queue_inv_def sorted_wrt_map intro!: sorted_wrt_filter
        elim!: sorted_wrt_mono_rel [rotated])
  then show ?thesis by (simp add: QueueHeads_def sort_key_id_if_sorted)
qed

lemma heads_definitions_distinct:
  assumes "queue_inv b"
  shows "distinct (map q_definition_id (filter (is_head b) (db_queue b)))"
proof -
  have "q = q'" if "q \<in> set (filter (is_head b) (db_queue b))" "q' \<in> set (filter (is_head b) (db_queue b))"
    "q_definition_id q = q_definition_id q'" for q q'
  proof (rule queue_seq_inj [OF assms])
    show "q_seq q = q_seq q'" using that by (intro antisym) (auto simp: is_head_def list_all_iff)
  qed (use that in auto)
  moreover have "distinct (db_queue b)"
    using assms by (auto simp: queue_inv_def queue_ids_def distinct_map)
  ultimately show ?thesis by (auto simp: distinct_map inj_on_def)
qed

lemma heads_cover:
  assumes "q \<in> set (db_queue b)"
  shows "\<exists>h \<in> set (db_queue b). is_head b h \<and> q_definition_id h = q_definition_id q"
proof -
  let ?S = "{q' \<in> set (db_queue b). q_definition_id q' = q_definition_id q}"
  have "finite ?S" "?S \<noteq> {}" using assms by auto
  then obtain h where "h \<in> ?S" "\<forall>q' \<in> ?S. q_seq h \<le> q_seq q'"
    by (metis (no_types, lifting) arg_min_if_finite(1) arg_min_least)
  then show ?thesis by (auto simp: is_head_def list_all_iff intro!: bexI [of _ h])
qed

lemma heads_length:
  assumes "queue_inv b"
  shows "length (QueueHeads limit b) = min limit (card (q_definition_id ` set (db_queue b)))"
proof -
  have "q_definition_id ` set (filter (is_head b) (db_queue b)) = q_definition_id ` set (db_queue b)"
    using heads_cover by (fastforce simp: image_iff)
  then have "length (filter (is_head b) (db_queue b)) = card (q_definition_id ` set (db_queue b))"
    using distinct_card [OF heads_definitions_distinct [OF assms]] by simp
  then show ?thesis by (simp add: QueueHeads_filter [OF assms] min.commute)
qed

section \<open>Expiry and recovery\<close>

lemma expired_ids_queue: "set (expired_ids now limit b) \<subseteq> set (queue_ids b)"
  by (auto simp: expired_ids_def queue_ids_def dest!: in_set_takeD)

lemma expired_ids_complete:
  assumes "q \<in> set (db_queue b)" "q_expires_us q \<le> unix_micro now"
    "length (filter (\<lambda>q. q_expires_us q \<le> unix_micro now) (db_queue b)) \<le> limit"
  shows "q_run_id q \<in> set (expired_ids now limit b)"
  using assms by (simp add: expired_ids_def)

lemma ExpireQueued_status:
  assumes "queue_inv b" "ExpireQueued now limit b = (b', ids)" "rid \<in> set ids"
  shows "\<exists>r. find_run rid b' = Some r \<and> rr_status r = ''skipped'' \<and> rr_end_reason r = Some ''queue_expired''
     \<and> rr_ended_us r = Some (unix_micro now)" "rid \<notin> set (queue_ids b')"
proof -
  have ids: "ids = expired_ids now limit b" "ids \<noteq> []"
    using assms(2,3) by (auto simp: ExpireQueued_def Let_def split: if_splits)
  then have b': "b' = delete_queue (\<lambda>q. q_run_id q \<in> set ids)
      (update_runs (\<lambda>r. rr_status r = ''queued'' \<and> rr_run_id r \<in> set ids) (end_row ''skipped'' ''queue_expired'' now) b)"
    using assms(2) by (auto simp: ExpireQueued_def Let_def)
  show "rid \<notin> set (queue_ids b')"
    unfolding b' using assms(3) queue_ids_delete [of "\<lambda>k. k \<in> set ids"] by simp
  obtain r where r: "r \<in> set (db_runs b)" "rr_run_id r = rid" "rr_status r = ''queued''"
    using assms(1,3) expired_ids_queue ids(1) by (force simp: queue_inv_def queue_ids_def)
  then have "find_run rid b = Some r" using assms(1) find_run_unique by (auto simp: queue_inv_def)
  then have "find_run rid b' = Some (end_row ''skipped'' ''queue_expired'' now r)"
    unfolding b' using r assms(3)
    by (subst find_run_cong [of _ "update_runs (\<lambda>r. rr_status r = ''queued'' \<and> rr_run_id r \<in> set ids)
          (end_row ''skipped'' ''queue_expired'' now) b"]) (simp_all add: find_run_update)
  then show "\<exists>r. find_run rid b' = Some r \<and> rr_status r = ''skipped'' \<and> rr_end_reason r = Some ''queue_expired''
     \<and> rr_ended_us r = Some (unix_micro now)" by (simp add: end_row_def)
qed

end
