(* ===== verification/Document.thy ===== *)
theory Document
  imports Model "HOL-Library.List_Lexorder" "HOL-Library.Char_ord"
begin

text \<open>
  The JSON document of a definition (the field tags of \<^verbatim>\<open>Definition\<close> in \<^verbatim>\<open>src/internal/model/model.go\<close>), represented by the
  definition it decodes to.  The tags \<^verbatim>\<open>omitempty\<close> drop a list or a map without elements, which is read back as absent, and the
  keys of a map are written in order.  The tags \<^verbatim>\<open>omitzero\<close> and \<^verbatim>\<open>omitempty\<close> on strings, numbers, booleans and pointers drop
  exactly the values an absent key is decoded to.
\<close>

definition nil_if_empty :: "'a list option \<Rightarrow> 'a list option" where
  "nil_if_empty v = (if v = Some [] then None else v)"

definition sorted_map :: "go_map option \<Rightarrow> go_map option" where
  "sorted_map v = nil_if_empty (map_option (sort_key fst) v)"

definition json_document :: "definition_rec \<Rightarrow> definition_rec" where
  "json_document d = d\<lparr>d_Argv := nil_if_empty (d_Argv d), d_SuccessCodes := nil_if_empty (d_SuccessCodes d),
     d_Alerts := nil_if_empty (d_Alerts d), d_Env := sorted_map (d_Env d),
     d_SecretEnv := sorted_map (d_SecretEnv d), d_Labels := sorted_map (d_Labels d)\<rparr>"

text \<open>Writing and reading a document twice is the same as once.\<close>

lemma nil_if_empty_idem [simp]: "nil_if_empty (nil_if_empty v) = nil_if_empty v"
  by (simp add: nil_if_empty_def)

lemma sorted_map_idem [simp]: "sorted_map (sorted_map v) = sorted_map v"
  by (cases v) (auto simp: sorted_map_def nil_if_empty_def sort_key_id_if_sorted)

lemma json_document_idem [simp]: "json_document (json_document d) = json_document d"
  by (simp add: json_document_def)

lemma sorted_map_entries:
  "(case sorted_map v of None \<Rightarrow> {} | Some m \<Rightarrow> set m) = (case v of None \<Rightarrow> {} | Some m \<Rightarrow> set m)"
proof (cases v)
  case (Some m)
  have "sort_key fst m = [] \<longleftrightarrow> m = []" by (metis length_0_conv length_sort)
  then show ?thesis using Some by (auto simp: sorted_map_def nil_if_empty_def)
qed (simp add: sorted_map_def nil_if_empty_def)

end
