(* ===== verification/Registry.thy ===== *)
theory Registry
  imports Store_Queue Document
begin

text \<open>
  The definition registry of the metadata database (\<^verbatim>\<open>src/internal/store/store.go\<close>,
  \<^verbatim>\<open>worker_state.go\<close>, \<^verbatim>\<open>alerts.go\<close> and \<^verbatim>\<open>alert_channels.go\<close>):
  definitions with revisions and an audit trail, worker exhaustion records, alert deliveries and
  alert channels.

  The canonical JSON document of a definition is represented by the definition it decodes to:
  empty lists and maps are omitted and the keys of a map are in order. The SHA-256 function on
  documents is a parameter (\<open>Sum256\<close>).
\<close>

section \<open>Documents\<close>

definition Canonical :: "(definition_rec \<Rightarrow> string) \<Rightarrow> definition_rec \<Rightarrow> definition_rec \<times> string" where
  "Canonical Sum256 d = (let b = json_document (d\<lparr>d_ID := 0, d_Revision := 0\<rparr>) in (b, Sum256 b))"

section \<open>Statements\<close>

definition tx_bind :: "store_error + 'a \<Rightarrow> ('a \<Rightarrow> store_error + 'b) \<Rightarrow> store_error + 'b" where
  "tx_bind r f = (case r of Inl e \<Rightarrow> Inl e | Inr v \<Rightarrow> f v)"

fun tx_fold :: "('a \<Rightarrow> db \<Rightarrow> store_error + db) \<Rightarrow> 'a list \<Rightarrow> db \<Rightarrow> store_error + db" where
  "tx_fold f [] b = Inr b"
| "tx_fold f (x # xs) b = tx_bind (f x b) (tx_fold f xs)"

definition find_definition :: "string \<Rightarrow> db \<Rightarrow> definition_row option" where
  "find_definition name b = find (\<lambda>r. df_name r = name) (db_definitions b)"

definition live :: "definition_row \<Rightarrow> bool" where
  "live r \<longleftrightarrow> df_deleted_us r = None"

definition find_live :: "string \<Rightarrow> db \<Rightarrow> definition_row option" where
  "find_live name b = find (\<lambda>r. df_name r = name \<and> live r) (db_definitions b)"

text \<open>\<^verbatim>\<open>INTEGER PRIMARY KEY\<close>: one more than the largest identifier in the table.\<close>

definition next_definition_id :: "db \<Rightarrow> int" where
  "next_definition_id b = foldl max 0 (definition_ids b) + 1"

definition valid_kind :: "kind \<Rightarrow> bool" where
  "valid_kind k \<longleftrightarrow> k = KindJob \<or> k = KindWorker"

definition insert_definition ::
  "string \<Rightarrow> kind \<Rightarrow> definition_rec \<Rightarrow> string \<Rightarrow> bool \<Rightarrow> string \<Rightarrow> int \<Rightarrow> db \<Rightarrow> store_error + (db \<times> int)" where
  "insert_definition name kind spec hash enabled source now b =
     (if find_definition name b \<noteq> None \<or> \<not> valid_kind kind then Inl ErrConstraint
      else let did = next_definition_id b
           in Inr (b\<lparr>db_definitions := db_definitions b @ [\<lparr>df_definition_id = did, df_name = name, df_kind = kind,
                  df_spec = spec, df_spec_hash = hash, df_revision = 1, df_enabled = enabled, df_source = source,
                  df_created_us = now, df_updated_us = now, df_deleted_us = None\<rparr>]\<rparr>, did))"

definition update_definitions :: "(definition_row \<Rightarrow> bool) \<Rightarrow> (definition_row \<Rightarrow> definition_row) \<Rightarrow> db \<Rightarrow> db" where
  "update_definitions P f b = b\<lparr>db_definitions := map (\<lambda>r. if P r then f r else r) (db_definitions b)\<rparr>"

definition store_definition ::
  "int \<Rightarrow> kind \<Rightarrow> definition_rec \<Rightarrow> string \<Rightarrow> int \<Rightarrow> bool \<Rightarrow> int \<Rightarrow> db \<Rightarrow> store_error + db" where
  "store_definition did kind spec hash rv enabled now b =
     (if \<not> valid_kind kind then Inl ErrConstraint
      else Inr (update_definitions (\<lambda>r. df_definition_id r = did)
             (\<lambda>r. r\<lparr>df_kind := kind, df_spec := spec, df_spec_hash := hash, df_revision := rv,
                    df_enabled := enabled, df_updated_us := now, df_deleted_us := None\<rparr>) b))"

definition insert_revision :: "int \<Rightarrow> int \<Rightarrow> definition_rec \<Rightarrow> string \<Rightarrow> string \<Rightarrow> int \<Rightarrow> db \<Rightarrow> store_error + db" where
  "insert_revision did rv spec hash actor now b =
     (if (did, rv) \<in> (\<lambda>v. (rv_definition_id v, rv_revision v)) ` set (db_revisions b)
         \<or> did \<notin> set (definition_ids b)
      then Inl ErrConstraint
      else Inr (b\<lparr>db_revisions := db_revisions b @ [\<lparr>rv_definition_id = did, rv_revision = rv, rv_spec = spec,
             rv_spec_hash = hash, rv_actor = actor, rv_at_us = now\<rparr>]\<rparr>))"

definition insert_audit ::
  "int \<Rightarrow> string \<Rightarrow> string \<Rightarrow> string \<Rightarrow> document option \<Rightarrow> document option \<Rightarrow> db \<Rightarrow> db" where
  "insert_audit now actor action target before after b =
     b\<lparr>db_audit := db_audit b @ [\<lparr>au_id = foldl max 0 (map au_id (db_audit b)) + 1, au_at_us = now, au_actor = actor,
         au_action = action, au_target = target, au_before = before, au_after = after\<rparr>]\<rparr>"

section \<open>Reading definitions\<close>

definition scan_definition :: "definition_row \<Rightarrow> definition_rec" where
  "scan_definition r = (df_spec r)\<lparr>d_ID := df_definition_id r, d_Revision := df_revision r,
     d_Source := df_source r, d_Enabled := Some (df_enabled r)\<rparr>"

definition Definitions :: "db \<Rightarrow> definition_rec list" where
  "Definitions b = map scan_definition (sort_key df_name (filter live (db_definitions b)))"

definition RetentionDefinitions :: "db \<Rightarrow> definition_rec list" where
  "RetentionDefinitions b =
     map (\<lambda>r. (df_spec r)\<lparr>d_ID := df_definition_id r, d_Revision := df_revision r, d_Enabled := Some (df_enabled r)\<rparr>)
       (sort_key df_name (db_definitions b))"

definition Definition_get :: "string \<Rightarrow> db \<Rightarrow> store_error + (definition_rec \<times> string)" where
  "Definition_get name b =
     (case find_live name b of None \<Rightarrow> Inl ErrNoRows | Some r \<Rightarrow> Inr (scan_definition r, df_spec_hash r))"

section \<open>Writing definitions\<close>

definition channel_names :: "db \<Rightarrow> string list" where
  "channel_names b = map ac_Name (db_channels b)"

definition alerts_of :: "definition_rec \<Rightarrow> string list" where
  "alerts_of d = (case d_Alerts d of None \<Rightarrow> [] | Some names \<Rightarrow> names)"

fun check_alerts :: "string list \<Rightarrow> string list \<Rightarrow> db \<Rightarrow> store_error option" where
  "check_alerts seen [] b = None"
| "check_alerts seen (name # names) b =
     (if name \<in> set seen then Some ErrUnknownAlertChannel
      else if name \<notin> set (channel_names b) then Some ErrUnknownAlertChannel
      else check_alerts (name # seen) names b)"

definition validateAlertReferencesTx :: "definition_rec \<Rightarrow> db \<Rightarrow> store_error + unit" where
  "validateAlertReferencesTx d b =
     (case check_alerts [] (alerts_of d) b of None \<Rightarrow> Inr () | Some e \<Rightarrow> Inl e)"

text \<open>What the three writers of definitions do once a document is accepted: insert or update
  the row and record the revision and an audit entry.\<close>

definition before_document :: "definition_row option \<Rightarrow> document" where
  "before_document row = (case row of None \<Rightarrow> DocEmpty | Some r \<Rightarrow> DocDefinition (df_spec r))"

definition write_definition ::
  "definition_rec \<Rightarrow> definition_rec \<Rightarrow> string \<Rightarrow> string \<Rightarrow> string \<Rightarrow> string \<Rightarrow> int \<Rightarrow> db
   \<Rightarrow> store_error + (db \<times> int \<times> int)" where
  "write_definition d spec hash source actor action now b =
     (let row = find_definition (d_Name d) b
      in tx_bind
          (case row of
             None \<Rightarrow> tx_bind (insert_definition (d_Name d) (d_Kind d) spec hash (IsEnabled d) source now b)
                      (\<lambda>(b1, did). Inr (b1, did, 1))
           | Some r \<Rightarrow> tx_bind (store_definition (df_definition_id r) (d_Kind d) spec hash (df_revision r + 1)
                                 (IsEnabled d) now b)
                        (\<lambda>b1. Inr (b1, df_definition_id r, df_revision r + 1)))
          (\<lambda>(b1, did, rv).
             tx_bind (insert_revision did rv spec hash actor now b1)
               (\<lambda>b2. Inr (insert_audit now actor action (d_Name d) (Some (before_document row))
                       (Some (DocDefinition spec)) b2, did, rv))))"

definition putDefinition ::
  "(definition_rec \<Rightarrow> string) \<Rightarrow> time \<Rightarrow> definition_rec \<Rightarrow> int \<Rightarrow> string \<Rightarrow> bool \<Rightarrow> db \<Rightarrow> definition_rec op" where
  "putDefinition Sum256 now d0 expected actor createOnly b =
     (let d = d0\<lparr>d_Source := ''''\<rparr>
      in case Canonical Sum256 d of (spec, hash) \<Rightarrow>
         transaction b
          (tx_bind (validateAlertReferencesTx d b) (\<lambda>_.
             case find_definition (d_Name d) b of
               None \<Rightarrow>
                 tx_bind (write_definition d spec hash '''' actor ''update'' (unix_micro now) b)
                   (\<lambda>(b1, did, rv). Inr (b1, d\<lparr>d_ID := did, d_Revision := rv\<rparr>))
             | Some r \<Rightarrow>
                 if df_source r = ''config'' then Inl ErrReadOnly
                 else if createOnly then Inl ErrRevisionConflict
                 else if df_deleted_us r = None \<and> expected \<noteq> 0 \<and> expected \<noteq> df_revision r then Inl ErrRevisionConflict
                 else if df_deleted_us r \<noteq> None \<and> expected \<noteq> 0 then Inl ErrRevisionConflict
                 else tx_bind (write_definition d spec hash '''' actor ''update'' (unix_micro now) b)
                   (\<lambda>(b1, did, rv). Inr (b1, d\<lparr>d_ID := did, d_Revision := rv\<rparr>)))))"

definition PutDefinition ::
  "(definition_rec \<Rightarrow> string) \<Rightarrow> time \<Rightarrow> definition_rec \<Rightarrow> int \<Rightarrow> string \<Rightarrow> db \<Rightarrow> definition_rec op" where
  "PutDefinition Sum256 now d expected actor b = putDefinition Sum256 now d expected actor False b"

definition CreateDefinition ::
  "(definition_rec \<Rightarrow> string) \<Rightarrow> time \<Rightarrow> definition_rec \<Rightarrow> string \<Rightarrow> db \<Rightarrow> definition_rec op" where
  "CreateDefinition Sum256 now d actor b = putDefinition Sum256 now d 0 actor True b"

definition import_one ::
  "(definition_rec \<Rightarrow> string) \<Rightarrow> int \<Rightarrow> string \<Rightarrow> definition_rec \<Rightarrow> db \<Rightarrow> store_error + db" where
  "import_one Sum256 now actor d0 b =
     tx_bind (validateAlertReferencesTx d0 b) (\<lambda>_.
       let d = d0\<lparr>d_Source := ''''\<rparr>
       in case Canonical Sum256 d of (spec, hash) \<Rightarrow>
            if (case find_definition (d_Name d) b of None \<Rightarrow> False | Some r \<Rightarrow> df_source r = ''config'')
            then Inl ErrReadOnly
            else tx_bind (write_definition d spec hash '''' actor ''import'' now b) (\<lambda>(b1, _). Inr b1))"

definition ImportDefinitions ::
  "(definition_rec \<Rightarrow> string) \<Rightarrow> time \<Rightarrow> definition_rec list \<Rightarrow> string \<Rightarrow> db \<Rightarrow> unit op" where
  "ImportDefinitions Sum256 now defs actor b =
     transaction b (tx_bind (tx_fold (import_one Sum256 (unix_micro now) actor) defs b) (\<lambda>b1. Inr (b1, ())))"

definition sync_one :: "(definition_rec \<Rightarrow> string) \<Rightarrow> int \<Rightarrow> definition_rec \<Rightarrow> db \<Rightarrow> store_error + db" where
  "sync_one Sum256 now d0 b =
     tx_bind (validateAlertReferencesTx d0 b) (\<lambda>_.
       let d = d0\<lparr>d_Source := ''config''\<rparr>
       in case Canonical Sum256 d of (spec, hash) \<Rightarrow>
            case find_definition (d_Name d) b of
              None \<Rightarrow> tx_bind (write_definition d spec hash ''config'' ''config'' ''sync'' now b) (\<lambda>(b1, _). Inr b1)
            | Some r \<Rightarrow>
                if df_source r \<noteq> ''config''
                then Inl (ErrInvalidArgument ''config definition conflicts with registry definition'')
                else if df_spec_hash r = hash \<and> df_deleted_us r = None then Inr b
                else tx_bind (write_definition d spec hash ''config'' ''config'' ''sync'' now b) (\<lambda>(b1, _). Inr b1))"

definition remove_config :: "int \<Rightarrow> db \<Rightarrow> string \<Rightarrow> db" where
  "remove_config now b name =
     insert_audit now ''config'' ''remove'' name None None
       (update_definitions (\<lambda>r. df_name r = name)
          (\<lambda>r. r\<lparr>df_deleted_us := Some now, df_enabled := False, df_updated_us := now\<rparr>) b)"

definition SyncConfigDefinitions :: "(definition_rec \<Rightarrow> string) \<Rightarrow> time \<Rightarrow> definition_rec list \<Rightarrow> db \<Rightarrow> unit op" where
  "SyncConfigDefinitions Sum256 now defs b =
     transaction b
      (tx_bind (tx_fold (sync_one Sum256 (unix_micro now)) defs b) (\<lambda>b1.
         let removed = filter (\<lambda>name. name \<notin> set (map d_Name defs))
               (map df_name (filter (\<lambda>r. df_source r = ''config'' \<and> live r) (db_definitions b1)))
         in Inr (foldl (remove_config (unix_micro now)) b1 removed, ())))"

definition DeleteDefinition :: "time \<Rightarrow> string \<Rightarrow> string \<Rightarrow> db \<Rightarrow> unit op" where
  "DeleteDefinition now name actor b =
     transaction b
      (case find_live name b of
         None \<Rightarrow> Inl ErrNoRows
       | Some r \<Rightarrow>
           if df_source r = ''config'' then Inl ErrReadOnly
           else
             let us = unix_micro now;
                 b1 = update_definitions (\<lambda>r. df_name r = name)
                        (\<lambda>r. r\<lparr>df_deleted_us := Some us, df_enabled := False, df_updated_us := us\<rparr>) b;
                 b2 = insert_audit us actor ''delete'' name (Some (DocDefinition (df_spec r))) None b1
             in Inr (dropDefinitionQueued (df_definition_id r) ''definition_removed'' (from_micro us) b2, ()))"

definition SetEnabled :: "time \<Rightarrow> string \<Rightarrow> bool \<Rightarrow> db \<Rightarrow> unit op" where
  "SetEnabled now name enabled b =
     transaction b
      (case find_live name b of
         None \<Rightarrow> Inl ErrNoRows
       | Some r \<Rightarrow>
           if df_source r = ''config'' then Inl ErrReadOnly
           else
             let us = unix_micro now; revision = df_revision r + 1;
                 b1 = update_definitions (\<lambda>r'. df_definition_id r' = df_definition_id r)
                        (\<lambda>r'. r'\<lparr>df_enabled := enabled, df_revision := revision, df_updated_us := us\<rparr>) b
             in tx_bind (insert_revision (df_definition_id r) revision (df_spec r) (df_spec_hash r) ''api'' us b1)
                  (\<lambda>b2. let b3 = insert_audit us ''api'' ''set_enabled'' name None (Some (DocEnabled enabled)) b2
                        in Inr (if enabled then b3
                                else dropDefinitionQueued (df_definition_id r) ''definition_disabled''
                                       (from_micro us) b3, ())))"

section \<open>Worker exhaustion\<close>

definition workerStatePrefix :: string where
  "workerStatePrefix = ''worker_exhaustion:''"

definition worker_key :: "int \<Rightarrow> string" where
  "worker_key did = workerStatePrefix @ FormatInt did"

definition meta_put :: "string \<Rightarrow> meta_value \<Rightarrow> (string \<times> meta_value) list \<Rightarrow> (string \<times> meta_value) list" where
  "meta_put key v m = (if key \<in> fst ` set m then map (\<lambda>p. if fst p = key then (key, v) else p) m else m @ [(key, v)])"

definition SaveWorkerExhaustion :: "definition_rec \<Rightarrow> worker_exhaustion \<Rightarrow> db \<Rightarrow> unit op" where
  "SaveWorkerExhaustion d state b =
     (if list_ex (\<lambda>r. df_definition_id r = d_ID d \<and> df_revision r = d_Revision d \<and> live r) (db_definitions b)
      then (b\<lparr>db_meta := meta_put (worker_key (d_ID d)) (MetaExhaustion state) (db_meta b)\<rparr>, Inr ())
      else (b, Inl ErrRevisionConflict))"

definition ClearWorkerExhaustion :: "string \<Rightarrow> db \<Rightarrow> db" where
  "ClearWorkerExhaustion name b =
     (if name = '''' then
        b\<lparr>db_meta := filter (\<lambda>p. take (length workerStatePrefix) (fst p) \<noteq> workerStatePrefix) (db_meta b)\<rparr>
      else
        b\<lparr>db_meta := filter (\<lambda>p. fst p \<notin> worker_key ` set (map df_definition_id
             (filter (\<lambda>r. df_name r = name) (db_definitions b)))) (db_meta b)\<rparr>)"

fun exhaustion_rows :: "(definition_row \<times> meta_value) list \<Rightarrow> store_error + (string \<times> worker_exhaustion) list" where
  "exhaustion_rows [] = Inr []"
| "exhaustion_rows ((r, v) # rows) =
     (case v of
        MetaText t \<Rightarrow> Inl (ErrInvalidArgument ''decode worker exhaustion'')
      | MetaExhaustion state \<Rightarrow>
          tx_bind (exhaustion_rows rows) (\<lambda>result.
            Inr (if we_Revision state = df_revision r then (df_name r, state) # result else result)))"

definition WorkerExhaustions :: "db \<Rightarrow> store_error + (string \<times> worker_exhaustion) list" where
  "WorkerExhaustions b = exhaustion_rows
     (List.map_filter (\<lambda>r. map_option (\<lambda>v. (r, v)) (map_of (db_meta b) (worker_key (df_definition_id r))))
        (filter (\<lambda>r. df_kind r = KindWorker \<and> live r) (db_definitions b)))"

section \<open>Alert deliveries\<close>

record alert_update =
  u_RunID :: string
  u_Channel :: string
  u_Status :: string
  u_Attempts :: int
  u_LastError :: string
  u_At :: time

definition stamp :: "alert_update \<Rightarrow> int \<Rightarrow> int" where
  "stamp u now = (if u_At u = zero_time then now else unix_micro (u_At u))"

text \<open>The upsert \<^verbatim>\<open>recordAlert\<close>: an observation never overwrites a newer one.\<close>

definition recordAlert :: "string \<Rightarrow> string \<Rightarrow> string \<Rightarrow> int \<Rightarrow> string \<Rightarrow> int \<Rightarrow> db \<Rightarrow> store_error + db" where
  "recordAlert rid channel status attempts lastError us b =
     (let row = \<lparr>al_run_id = rid, al_channel = channel, al_status = status, al_attempts = attempts,
            al_last_error = lastError, al_updated_us = us\<rparr>
      in if list_ex (\<lambda>a. al_run_id a = rid \<and> al_channel a = channel) (db_deliveries b)
         then Inr (b\<lparr>db_deliveries := map (\<lambda>a. if al_run_id a = rid \<and> al_channel a = channel \<and> us \<ge> al_updated_us a
                      then row else a) (db_deliveries b)\<rparr>)
         else if rid \<notin> set (run_ids b) then Inl ErrConstraint
         else Inr (b\<lparr>db_deliveries := db_deliveries b @ [row]\<rparr>))"

definition RecordAlert :: "time \<Rightarrow> string \<Rightarrow> string \<Rightarrow> string \<Rightarrow> int \<Rightarrow> string \<Rightarrow> db \<Rightarrow> unit op" where
  "RecordAlert now rid channel status attempts lastError b =
     (case recordAlert rid channel status attempts lastError (unix_micro now) b of
        Inl e \<Rightarrow> (b, Inl e) | Inr b' \<Rightarrow> (b', Inr ()))"

definition record_update :: "int \<Rightarrow> alert_update \<Rightarrow> db \<Rightarrow> store_error + db" where
  "record_update now u b = recordAlert (u_RunID u) (u_Channel u) (u_Status u) (u_Attempts u) (u_LastError u) (stamp u now) b"

definition RecordAlerts :: "time \<Rightarrow> alert_update list \<Rightarrow> db \<Rightarrow> unit op" where
  "RecordAlerts now updates b =
     (if updates = [] then (b, Inr ())
      else transaction b (tx_bind (tx_fold (record_update (unix_micro now)) updates b) (\<lambda>b1. Inr (b1, ()))))"

definition RecordAlertsForStoredRuns :: "time \<Rightarrow> alert_update list \<Rightarrow> db \<Rightarrow> alert_update list op" where
  "RecordAlertsForStoredRuns now updates b =
     (if updates = [] then (b, Inr [])
      else
        let isstored = (\<lambda>u. u_RunID u \<in> set (run_ids b))
        in transaction b (tx_bind (tx_fold (record_update (unix_micro now)) (filter isstored updates) b)
             (\<lambda>b1. Inr (b1, filter (\<lambda>u. \<not> isstored u) updates))))"

definition InterruptAlerts :: "time \<Rightarrow> db \<Rightarrow> db" where
  "InterruptAlerts now b =
     b\<lparr>db_deliveries := map (\<lambda>a. if al_status a = ''queued'' \<or> al_status a = ''sending''
        then a\<lparr>al_status := ''interrupted'', al_last_error := ''daemon restarted before delivery completed'',
               al_updated_us := unix_micro now\<rparr>
        else a) (db_deliveries b)\<rparr>"

section \<open>Alert channels\<close>

definition MaxAlertChannels :: nat where
  "MaxAlertChannels = 100"

definition find_channel :: "string \<Rightarrow> db \<Rightarrow> alert_channel option" where
  "find_channel name b = find (\<lambda>c. ac_Name c = name) (db_channels b)"

definition put_channel :: "alert_channel \<Rightarrow> db \<Rightarrow> db" where
  "put_channel c b = b\<lparr>db_channels :=
     (if find_channel (ac_Name c) b = None then db_channels b @ [c]
      else map (\<lambda>x. if ac_Name x = ac_Name c then c else x) (db_channels b))\<rparr>"

definition PutAlertChannel :: "time \<Rightarrow> alert_channel \<Rightarrow> string \<Rightarrow> db \<Rightarrow> unit op" where
  "PutAlertChannel now c0 actor b =
     transaction b
      (if find_channel (ac_Name c0) b = None \<and> length (db_channels b) \<ge> MaxAlertChannels
       then Inl ErrAlertChannelLimit
       else
         let token = (case find_channel (ac_Name c0) b of None \<Rightarrow> '''' | Some x \<Rightarrow> ac_BotToken x);
             c1 = (if ac_BotToken c0 = '''' then c0\<lparr>ac_BotToken := token\<rparr> else c0)
         in case Normalize c1 of
              (c, Some e) \<Rightarrow> Inl (ErrInvalidArgument e)
            | (c, None) \<Rightarrow>
                Inr (insert_audit (unix_micro now) actor ''save_alert_channel'' (ac_Name c) None
                       (Some (DocChannel (Redacted c))) (put_channel c b), ()))"

definition remove_reference ::
  "(definition_rec \<Rightarrow> string) \<Rightarrow> int \<Rightarrow> string \<Rightarrow> string \<Rightarrow> definition_row \<Rightarrow> db \<Rightarrow> store_error + db" where
  "remove_reference Sum256 now name actor r b =
     (let d = (df_spec r)\<lparr>d_ID := df_definition_id r, d_Revision := df_revision r, d_Source := df_source r,
                d_Enabled := Some (df_enabled r),
                d_Alerts := map_option (filter (\<lambda>v. v \<noteq> name)) (d_Alerts (df_spec r))\<rparr>
      in case Canonical Sum256 d of (spec, hash) \<Rightarrow>
           let b1 = update_definitions (\<lambda>x. df_definition_id x = df_definition_id r)
                      (\<lambda>x. x\<lparr>df_spec := spec, df_spec_hash := hash, df_revision := df_revision r + 1, df_updated_us := now\<rparr>) b
           in tx_bind (insert_revision (df_definition_id r) (df_revision r + 1) spec hash actor now b1)
                (\<lambda>b2. Inr (insert_audit now actor ''remove_alert_reference'' (d_Name d)
                        (Some (DocDefinition (df_spec r))) (Some (DocDefinition spec)) b2)))"

fun collect_references :: "bool \<Rightarrow> string \<Rightarrow> definition_row list \<Rightarrow> store_error + definition_row list" where
  "collect_references removeReferences name [] = Inr []"
| "collect_references removeReferences name (r # rows) =
     (if name \<notin> set (alerts_of (df_spec r)) then collect_references removeReferences name rows
      else if \<not> removeReferences then Inl ErrAlertChannelReferenced
      else if df_source r = ''config'' then Inl ErrReadOnly
      else tx_bind (collect_references removeReferences name rows) (\<lambda>rs. Inr (r # rs)))"

definition DeleteAlertChannel ::
  "(definition_rec \<Rightarrow> string) \<Rightarrow> time \<Rightarrow> string \<Rightarrow> bool \<Rightarrow> string \<Rightarrow> db \<Rightarrow> unit op" where
  "DeleteAlertChannel Sum256 now name removeReferences actor b =
     transaction b
      (if find_channel name b = None then Inl ErrNoRows
       else tx_bind (collect_references removeReferences name (sort_key df_name (filter live (db_definitions b))))
         (\<lambda>changes. tx_bind (tx_fold (remove_reference Sum256 (unix_micro now) name actor) changes b)
           (\<lambda>b1. Inr (insert_audit (unix_micro now) actor ''delete_alert_channel'' name None None
              (b1\<lparr>db_channels := filter (\<lambda>c. ac_Name c \<noteq> name) (db_channels b1)\<rparr>), ()))))"

section \<open>The registry invariant\<close>

definition rv_key :: "revision_row \<Rightarrow> int \<times> int" where
  "rv_key v = (rv_definition_id v, rv_revision v)"

text \<open>A row: positive identifier and revision, a known kind, a disabled row when deleted, and,
  when live, alert names that are known channels, each once.\<close>

definition row_ok :: "string list \<Rightarrow> definition_row \<Rightarrow> bool" where
  "row_ok channels r \<longleftrightarrow> 1 \<le> df_definition_id r \<and> 1 \<le> df_revision r \<and> valid_kind (df_kind r) \<and>
     (live r \<or> \<not> df_enabled r) \<and>
     (live r \<longrightarrow> distinct (alerts_of (df_spec r)) \<and> set (alerts_of (df_spec r)) \<subseteq> set channels)"

definition registry_inv :: "db \<Rightarrow> bool" where
  "registry_inv b \<longleftrightarrow>
     distinct (map df_name (db_definitions b)) \<and> distinct (definition_ids b) \<and>
     (\<forall>r \<in> set (db_definitions b). row_ok (channel_names b) r \<and>
        (df_definition_id r, df_revision r) \<in> rv_key ` set (db_revisions b)) \<and>
     distinct (map rv_key (db_revisions b)) \<and>
     (\<forall>v \<in> set (db_revisions b). \<exists>r \<in> set (db_definitions b).
        df_definition_id r = rv_definition_id v \<and> rv_revision v \<le> df_revision r) \<and>
     distinct (channel_names b) \<and> (\<forall>c \<in> set (db_channels b). valid_channel c) \<and>
     length (db_channels b) \<le> MaxAlertChannels"

lemma registry_inv_cong:
  "db_definitions b' = db_definitions b \<Longrightarrow> db_revisions b' = db_revisions b \<Longrightarrow> db_channels b' = db_channels b \<Longrightarrow>
   registry_inv b' = registry_inv b"
  by (simp add: registry_inv_def definition_ids_def channel_names_def)

lemma insert_audit_sel [simp]:
  "db_definitions (insert_audit n a x t p q b) = db_definitions b"
  "db_revisions (insert_audit n a x t p q b) = db_revisions b"
  "db_channels (insert_audit n a x t p q b) = db_channels b"
  "db_runs (insert_audit n a x t p q b) = db_runs b" "db_queue (insert_audit n a x t p q b) = db_queue b"
  "db_queue_seq (insert_audit n a x t p q b) = db_queue_seq b"
  by (simp_all add: insert_audit_def)

lemma registry_inv_audit [simp]: "registry_inv (insert_audit n a x t p q b) = registry_inv b"
  by (rule registry_inv_cong) simp_all

lemma drop_queued_sel [simp]:
  "db_definitions (dropDefinitionQueued did reason now b) = db_definitions b"
  "db_revisions (dropDefinitionQueued did reason now b) = db_revisions b"
  "db_channels (dropDefinitionQueued did reason now b) = db_channels b"
  by (simp_all add: dropDefinitionQueued_def delete_queue_def update_runs_def)

lemma registry_inv_drop [simp]: "registry_inv (dropDefinitionQueued did reason now b) = registry_inv b"
  by (rule registry_inv_cong) simp_all

lemma update_definitions_sel [simp]:
  "db_definitions (update_definitions P f b) = map (\<lambda>r. if P r then f r else r) (db_definitions b)"
  "db_revisions (update_definitions P f b) = db_revisions b" "db_channels (update_definitions P f b) = db_channels b"
  "db_runs (update_definitions P f b) = db_runs b" "db_queue (update_definitions P f b) = db_queue b"
  "db_queue_seq (update_definitions P f b) = db_queue_seq b"
  by (simp_all add: update_definitions_def)

lemma channel_names_update [simp]: "channel_names (update_definitions P f b) = channel_names b"
  by (simp add: channel_names_def)

lemma insert_revision_InrD:
  "insert_revision did rv spec hash actor now b = Inr b' \<Longrightarrow>
   (did, rv) \<notin> rv_key ` set (db_revisions b) \<and> did \<in> set (definition_ids b) \<and>
   b' = b\<lparr>db_revisions := db_revisions b @ [\<lparr>rv_definition_id = did, rv_revision = rv, rv_spec = spec,
             rv_spec_hash = hash, rv_actor = actor, rv_at_us = now\<rparr>]\<rparr>"
  by (auto simp: insert_revision_def rv_key_def image_iff split: if_splits)

lemma foldl_max_ge: "(n::int) \<le> foldl max n xs \<and> (\<forall>x \<in> set xs. x \<le> foldl max n xs)"
proof (induction xs arbitrary: n)
  case (Cons x xs)
  from Cons [of "max n x"] show ?case by (auto intro: order_trans)
qed simp

lemma next_definition_id_fresh: "next_definition_id b \<notin> set (definition_ids b)" "1 \<le> next_definition_id b"
  using foldl_max_ge [of 0 "definition_ids b"] by (auto simp: next_definition_id_def)

text \<open>Identity columns of a definition row are kept by every update.\<close>

definition keeps_name :: "(definition_row \<Rightarrow> definition_row) \<Rightarrow> bool" where
  "keeps_name f \<longleftrightarrow> (\<forall>r. df_definition_id (f r) = df_definition_id r \<and> df_name (f r) = df_name r)"

lemma keeps_name_map:
  "keeps_name f \<Longrightarrow> map df_name (map (\<lambda>r. if P r then f r else r) rs) = map df_name rs"
  "keeps_name f \<Longrightarrow> map df_definition_id (map (\<lambda>r. if P r then f r else r) rs) = map df_definition_id rs"
  by (auto simp: keeps_name_def)

lemma definition_ids_update [simp]: "keeps_name f \<Longrightarrow> definition_ids (update_definitions P f b) = definition_ids b"
  by (simp add: definition_ids_def keeps_name_map del: map_map)

lemma definition_unique:
  "registry_inv b \<Longrightarrow> r \<in> set (db_definitions b) \<Longrightarrow> r' \<in> set (db_definitions b) \<Longrightarrow>
   df_definition_id r = df_definition_id r' \<Longrightarrow> r = r'"
  by (simp add: registry_inv_def definition_ids_def distinct_map inj_on_def)

text \<open>The three changes of a row: a new definition with revision 1, the next revision of one
  definition, and a change without a revision that keeps rows valid.\<close>

lemma registry_inv_insert:
  assumes inv: "registry_inv b" and ins: "insert_definition name kind spec hash en src now b = Inr (b1, did)"
    and alerts: "distinct (alerts_of spec)" "set (alerts_of spec) \<subseteq> set (channel_names b)"
    and rev: "insert_revision did 1 spec hash actor now b1 = Inr b2"
  shows "registry_inv b2"
proof -
  have n: "find_definition name b = None" "valid_kind kind" "did = next_definition_id b"
    and b1: "b1 = b\<lparr>db_definitions := db_definitions b @ [\<lparr>df_definition_id = did, df_name = name, df_kind = kind,
                  df_spec = spec, df_spec_hash = hash, df_revision = 1, df_enabled = en, df_source = src,
                  df_created_us = now, df_updated_us = now, df_deleted_us = None\<rparr>]\<rparr>"
    using ins by (auto simp: insert_definition_def Let_def split: if_splits)
  have fresh: "did \<notin> set (definition_ids b)" "1 \<le> did" using next_definition_id_fresh n(3) by auto
  have "name \<notin> df_name ` set (db_definitions b)" using n(1) by (auto simp: find_definition_def find_None_all)
  then show ?thesis
    using inv insert_revision_InrD [OF rev] n(2) fresh alerts unfolding b1
    by (auto simp: registry_inv_def definition_ids_def channel_names_def row_ok_def live_def rv_key_def image_iff)
qed

lemma registry_inv_bump:
  assumes inv: "registry_inv b" and r: "r \<in> set (db_definitions b)" and f: "keeps_name f"
    and r': "df_revision (f r) = df_revision r + 1" "row_ok (channel_names b) (f r)"
    and rev: "insert_revision (df_definition_id r) (df_revision r + 1) spec hash actor now
      (update_definitions (\<lambda>x. df_definition_id x = df_definition_id r) f b) = Inr b2"
  shows "registry_inv b2"
proof -
  let ?P = "\<lambda>x. df_definition_id x = df_definition_id r" and ?id = "df_definition_id r"
  let ?g = "\<lambda>x. if ?P x then f x else x" and ?v = "\<lparr>rv_definition_id = ?id, rv_revision = df_revision r + 1,
    rv_spec = spec, rv_spec_hash = hash, rv_actor = actor, rv_at_us = now\<rparr>"
  note ins = insert_revision_InrD [OF rev]
  have b2: "db_definitions b2 = map ?g (db_definitions b)" "db_revisions b2 = db_revisions b @ [?v]"
    "db_channels b2 = db_channels b" using ins by simp_all
  have only: "?g x = f r" if "x \<in> set (db_definitions b)" "?P x" for x
    using that definition_unique [OF inv that(1) r that(2)] by simp
  have "row_ok (channel_names b2) x \<and> (df_definition_id x, df_revision x) \<in> rv_key ` set (db_revisions b2)"
    if "x \<in> set (db_definitions b2)" for x
  proof -
    from that b2(1) obtain y where y: "y \<in> set (db_definitions b)" "x = ?g y" by auto
    show ?thesis
    proof (cases "?P y")
      case True
      then have "x = f r" using only y by simp
      then show ?thesis using r' f b2 by (simp add: channel_names_def keeps_name_def rv_key_def)
    next
      case False
      then show ?thesis using y inv b2 by (auto simp: registry_inv_def channel_names_def)
    qed
  qed
  moreover have "\<exists>x \<in> set (db_definitions b2). df_definition_id x = rv_definition_id v \<and> rv_revision v \<le> df_revision x"
    if "v \<in> set (db_revisions b2)" for v
  proof (cases "rv_definition_id v = ?id")
    case True
    have "f r \<in> set (db_definitions b2)" using r b2(1) by force
    moreover have "rv_revision v \<le> df_revision r + 1"
    proof (cases "v = ?v")
      case False
      then have "v \<in> set (db_revisions b)" using that b2(2) by auto
      then obtain x where x: "x \<in> set (db_definitions b)" "df_definition_id x = ?id" "rv_revision v \<le> df_revision x"
        using inv True unfolding registry_inv_def by metis
      then have "x = r" using definition_unique [OF inv x(1) r] by simp
      then show ?thesis using x(3) by simp
    qed simp
    ultimately show ?thesis using r'(1) f True by (intro bexI [of _ "f r"]) (auto simp: keeps_name_def)
  next
    case False
    then have "v \<in> set (db_revisions b)" using that b2(2) by auto
    then obtain x where x: "x \<in> set (db_definitions b)" "df_definition_id x = rv_definition_id v"
      "rv_revision v \<le> df_revision x" using inv unfolding registry_inv_def by metis
    have "?g x \<in> set (db_definitions b2)" using imageI [OF x(1), of ?g] by (simp only: b2(1) set_map)
    moreover have "?g x = x" using x(2) False by simp
    ultimately have "x \<in> set (db_definitions b2)" by (simp only:)
    then show ?thesis using x by blast
  qed
  moreover have "distinct (map df_name (db_definitions b2)) \<and> distinct (definition_ids b2)"
    using inv keeps_name_map [OF f] unfolding registry_inv_def definition_ids_def b2(1) by presburger
  ultimately show ?thesis
    using inv ins b2 by (auto simp: registry_inv_def channel_names_def rv_key_def)
qed

lemma registry_inv_update:
  assumes "registry_inv b" "keeps_name f" "\<And>r. df_revision (f r) = df_revision r"
    "\<And>r. r \<in> set (db_definitions b) \<Longrightarrow> P r \<Longrightarrow> row_ok (channel_names b) (f r)"
  shows "registry_inv (update_definitions P f b)"
proof -
  have "distinct (map df_name (map (\<lambda>r. if P r then f r else r) (db_definitions b)))"
    "distinct (definition_ids (update_definitions P f b))"
    using assms(1) keeps_name_map [OF assms(2)] definition_ids_update [OF assms(2)]
    unfolding registry_inv_def by presburger+
  moreover have "\<exists>x \<in> set (db_definitions (update_definitions P f b)).
      df_definition_id x = rv_definition_id v \<and> rv_revision v \<le> df_revision x" if "v \<in> set (db_revisions b)" for v
  proof -
    from assms(1) that obtain x where "x \<in> set (db_definitions b)"
      "df_definition_id x = rv_definition_id v" "rv_revision v \<le> df_revision x" by (force simp: registry_inv_def)
    then show ?thesis
      using assms(2,3) by (intro bexI [of _ "if P x then f x else x"]) (auto simp: keeps_name_def)
  qed
  moreover have "row_ok (channel_names b) x \<and> (df_definition_id x, df_revision x) \<in> rv_key ` set (db_revisions b)"
    if "x \<in> set (db_definitions (update_definitions P f b))" for x
    using that assms by (auto simp: registry_inv_def keeps_name_def)
  ultimately show ?thesis using assms(1) by (simp add: registry_inv_def del: map_map)
qed

section \<open>What the registry operations keep\<close>

lemma tx_bind_Inr: "tx_bind r f = Inr y \<longleftrightarrow> (\<exists>x. r = Inr x \<and> f x = Inr y)"
  by (auto simp: tx_bind_def split: sum.splits)

lemma transaction_cases: "transaction b r = (b', res) \<Longrightarrow> b' = b \<or> (\<exists>v. r = Inr (b', v))"
  by (auto simp: transaction_def split: sum.splits)

lemma check_alerts_None:
  "check_alerts seen names b = None \<longleftrightarrow>
   distinct names \<and> set names \<inter> set seen = {} \<and> set names \<subseteq> set (channel_names b)"
  by (induction names arbitrary: seen) auto

lemma validateAlertReferencesTx_ok:
  "validateAlertReferencesTx d b = Inr u \<longleftrightarrow> distinct (alerts_of d) \<and> set (alerts_of d) \<subseteq> set (channel_names b)"
  using check_alerts_None [of "[]" "alerts_of d" b] by (auto simp: validateAlertReferencesTx_def split: option.splits)

lemma alerts_of_document [simp]:
  "alerts_of (fst (Canonical Sum256 d)) = alerts_of d" "alerts_of (d\<lparr>d_Source := s\<rparr>) = alerts_of d"
  by (auto simp: Canonical_def Let_def json_document_def alerts_of_def nil_if_empty_def split: option.splits)

lemma find_definition_Some: "find_definition name b = Some r \<Longrightarrow> r \<in> set (db_definitions b) \<and> df_name r = name"
  unfolding find_definition_def by (drule find_Some_set) simp

lemma find_live_Some: "find_live name b = Some r \<Longrightarrow> r \<in> set (db_definitions b) \<and> df_name r = name \<and> live r"
  unfolding find_live_def by (drule find_Some_set) simp

lemma write_definition_inv:
  assumes inv: "registry_inv b" and w: "write_definition d spec hash src actor action now b = Inr (b', did, rv)"
    and alerts: "distinct (alerts_of spec)" "set (alerts_of spec) \<subseteq> set (channel_names b)"
  shows "registry_inv b'"
proof (cases "find_definition (d_Name d) b")
  case None
  with w obtain b1 b2 where
    "insert_definition (d_Name d) (d_Kind d) spec hash (IsEnabled d) src now b = Inr (b1, did)"
    "insert_revision did 1 spec hash actor now b1 = Inr b2" "registry_inv b' = registry_inv b2"
    by (auto simp: write_definition_def Let_def tx_bind_Inr)
  then show ?thesis using registry_inv_insert [OF inv _ alerts] by blast
next
  case (Some r)
  let ?f = "\<lambda>x. x\<lparr>df_kind := d_Kind d, df_spec := spec, df_spec_hash := hash, df_revision := df_revision r + 1,
                    df_enabled := IsEnabled d, df_updated_us := now, df_deleted_us := None\<rparr>"
  from Some w obtain b2 where k: "valid_kind (d_Kind d)" and
    rev: "insert_revision (df_definition_id r) (df_revision r + 1) spec hash actor now
      (update_definitions (\<lambda>x. df_definition_id x = df_definition_id r) ?f b) = Inr b2"
    and "registry_inv b' = registry_inv b2"
    by (auto simp: write_definition_def Let_def tx_bind_Inr store_definition_def split: if_splits)
  moreover have "registry_inv b2"
  proof (rule registry_inv_bump [OF inv _ _ _ _ rev])
    show r: "r \<in> set (db_definitions b)" using find_definition_Some [OF Some] by simp
    then have "1 \<le> df_definition_id r" "1 \<le> df_revision r" using inv by (auto simp: registry_inv_def row_ok_def)
    then show "row_ok (channel_names b) (?f r)" using k alerts by (simp add: row_ok_def live_def)
  qed (simp_all add: keeps_name_def)
  ultimately show ?thesis by simp
qed

lemma Canonical_pair: "Canonical Sum256 d = (spec, hash) \<Longrightarrow> spec = fst (Canonical Sum256 d)"
  by simp

lemma putDefinition_write:
  assumes "putDefinition Sum256 now d expected actor createOnly b = (b', Inr d')"
  obtains did rv where "write_definition (d\<lparr>d_Source := []\<rparr>) (fst (Canonical Sum256 (d\<lparr>d_Source := []\<rparr>)))
      (snd (Canonical Sum256 (d\<lparr>d_Source := []\<rparr>))) [] actor ''update'' (unix_micro now) b = Inr (b', did, rv)"
    "d' = d\<lparr>d_Source := [], d_ID := did, d_Revision := rv\<rparr>"
    "distinct (alerts_of d)" "set (alerts_of d) \<subseteq> set (channel_names b)"
proof -
  obtain spec hash where c: "Canonical Sum256 (d\<lparr>d_Source := []\<rparr>) = (spec, hash)" by fastforce
  have "\<exists>did rv. write_definition (d\<lparr>d_Source := []\<rparr>) spec hash [] actor ''update'' (unix_micro now) b = Inr (b', did, rv)
      \<and> d' = d\<lparr>d_Source := [], d_ID := did, d_Revision := rv\<rparr> \<and> validateAlertReferencesTx (d\<lparr>d_Source := []\<rparr>) b = Inr ()"
    using assms by (auto simp: putDefinition_def Let_def c transaction_def tx_bind_Inr split: sum.splits option.splits if_splits)
  then show thesis using that c by (auto simp: validateAlertReferencesTx_ok)
qed

lemma putDefinition_inv [step_inv]:
  assumes "registry_inv b" "putDefinition Sum256 now d expected actor createOnly b = (b', res)"
  shows "registry_inv b'"
proof (cases res)
  case (Inl e)
  then have "b' = b" using assms(2) by (auto simp: putDefinition_def Let_def transaction_def split: prod.splits sum.splits)
  then show ?thesis using assms(1) by simp
next
  case (Inr d')
  from putDefinition_write [OF assms(2) [unfolded Inr]] show ?thesis
    using write_definition_inv [OF assms(1)] by (metis alerts_of_document)
qed

lemma import_one_inv: "registry_inv b \<Longrightarrow> import_one Sum256 now actor d b = Inr b' \<Longrightarrow> registry_inv b'"
  by (cases "Canonical Sum256 (d\<lparr>d_Source := []\<rparr>)")
    (auto simp: import_one_def Let_def tx_bind_Inr validateAlertReferencesTx_ok split: if_splits prod.splits
      elim!: write_definition_inv dest!: Canonical_pair)

lemma sync_one_inv: "registry_inv b \<Longrightarrow> sync_one Sum256 now d b = Inr b' \<Longrightarrow> registry_inv b'"
  by (cases "Canonical Sum256 (d\<lparr>d_Source := ''config''\<rparr>)")
    (auto simp: sync_one_def Let_def tx_bind_Inr validateAlertReferencesTx_ok split: if_splits prod.splits option.splits
      elim!: write_definition_inv dest!: Canonical_pair)

lemma tx_fold_inv:
  "(\<And>x b b'. I b \<Longrightarrow> f x b = Inr b' \<Longrightarrow> I b') \<Longrightarrow> I b \<Longrightarrow> tx_fold f xs b = Inr b' \<Longrightarrow> I b'"
  by (induction xs arbitrary: b) (auto simp: tx_bind_Inr)

lemma ImportDefinitions_inv [step_inv]:
  "registry_inv b \<Longrightarrow> ImportDefinitions Sum256 now defs actor b = (b', res) \<Longrightarrow> registry_inv b'"
  unfolding ImportDefinitions_def
  by (drule transaction_cases)
    (auto simp: tx_bind_Inr intro: tx_fold_inv [of registry_inv, OF import_one_inv])

lemma deleted_row_ok: "row_ok cs r \<Longrightarrow> row_ok cs (r\<lparr>df_deleted_us := Some t, df_enabled := False, df_updated_us := u\<rparr>)"
  by (simp add: row_ok_def live_def)

lemma soft_delete_inv:
  "registry_inv b \<Longrightarrow> registry_inv (update_definitions P
     (\<lambda>r. r\<lparr>df_deleted_us := Some t, df_enabled := False, df_updated_us := t\<rparr>) b)"
  by (rule registry_inv_update) (auto simp: keeps_name_def registry_inv_def intro!: deleted_row_ok)

lemma remove_config_inv: "registry_inv b \<Longrightarrow> registry_inv (remove_config now b name)"
  unfolding remove_config_def registry_inv_audit by (rule soft_delete_inv)

lemma SyncConfigDefinitions_inv [step_inv]:
  assumes "registry_inv b" "SyncConfigDefinitions Sum256 now defs b = (b', res)"
  shows "registry_inv b'"
proof -
  have removes: "registry_inv c \<Longrightarrow> registry_inv (foldl (remove_config us) c names)" for c us names
    by (induction names arbitrary: c) (auto intro: remove_config_inv)
  from transaction_cases [OF assms(2) [unfolded SyncConfigDefinitions_def Let_def]]
  consider "b' = b" | b1 names where "tx_fold (sync_one Sum256 (unix_micro now)) defs b = Inr b1"
    "b' = foldl (remove_config (unix_micro now)) b1 names"
    by (auto simp: tx_bind_Inr)
  then show ?thesis
  proof cases
    case (2 b1 names)
    have "registry_inv b1"
      by (rule tx_fold_inv [of registry_inv, OF _ assms(1) 2(1)]) (rule sync_one_inv)
    then show ?thesis using removes 2(2) by simp
  qed (use assms(1) in simp)
qed

lemma DeleteDefinition_inv [step_inv]:
  "registry_inv b \<Longrightarrow> DeleteDefinition now name actor b = (b', res) \<Longrightarrow> registry_inv b'"
  unfolding DeleteDefinition_def Let_def
  by (drule transaction_cases) (auto split: option.splits if_splits intro!: soft_delete_inv)

lemma SetEnabled_inv [step_inv]:
  assumes inv: "registry_inv b" and s: "SetEnabled now name en b = (b', res)"
  shows "registry_inv b'"
proof (cases "find_live name b")
  case None
  then show ?thesis using assms by (simp add: SetEnabled_def)
next
  case (Some r)
  let ?f = "\<lambda>x. x\<lparr>df_enabled := en, df_revision := df_revision r + 1, df_updated_us := unix_micro now\<rparr>"
  have r: "r \<in> set (db_definitions b)" "live r" using find_live_Some [OF Some] by auto
  from inv r have "row_ok (channel_names b) (?f r)" by (auto simp: registry_inv_def row_ok_def live_def)
  then have bump: "registry_inv b2" if "insert_revision (df_definition_id r) (df_revision r + 1) (df_spec r)
      (df_spec_hash r) ''api'' (unix_micro now)
      (update_definitions (\<lambda>x. df_definition_id x = df_definition_id r) ?f b) = Inr b2" for b2
    by (intro registry_inv_bump [OF inv r(1) _ _ _ that]) (simp_all add: keeps_name_def)
  from s Some inv bump show ?thesis
    by (auto simp: SetEnabled_def Let_def tx_bind_Inr split: if_splits dest!: transaction_cases)
qed

lemma PutAlertChannel_inv [step_inv]:
  assumes inv: "registry_inv b" and p: "PutAlertChannel now c actor b = (b', res)"
  shows "registry_inv b'"
proof -
  have name: "ac_Name (fst (Normalize x)) = ac_Name x" for x
    by (simp add: Normalize_def Let_def split: option.split)
  have put: "registry_inv (put_channel x b)" if "valid_channel x"
    "find_channel (ac_Name x) b = None \<longrightarrow> length (db_channels b) < MaxAlertChannels" for x
  proof (cases "find_channel (ac_Name x) b")
    case None
    then have "ac_Name x \<notin> set (channel_names b)" by (auto simp: find_channel_def channel_names_def find_None_all)
    then show ?thesis
      using inv that None
      by (auto simp: registry_inv_def put_channel_def channel_names_def definition_ids_def row_ok_def)
  next
    case (Some y)
    have "map ac_Name (map (\<lambda>z. if ac_Name z = ac_Name x then x else z) cs) = map ac_Name cs" for cs by auto
    then have "channel_names (put_channel x b) = channel_names b"
      using Some by (simp add: put_channel_def channel_names_def del: map_map)
    then show ?thesis
      using inv that Some by (auto simp: registry_inv_def put_channel_def definition_ids_def)
  qed
  let ?token = "case find_channel (ac_Name c) b of None \<Rightarrow> [] | Some x \<Rightarrow> ac_BotToken x"
  let ?c1 = "if ac_BotToken c = [] then c\<lparr>ac_BotToken := ?token\<rparr> else c"
  have n1: "ac_Name ?c1 = ac_Name c" by simp
  from transaction_cases [OF p [unfolded PutAlertChannel_def Let_def]]
  consider "b' = b" | x where "Normalize ?c1 = (x, None)"
    "find_channel (ac_Name c) b = None \<longrightarrow> length (db_channels b) < MaxAlertChannels"
    "registry_inv b' = registry_inv (put_channel x b)"
    by (cases "Normalize ?c1"; cases "snd (Normalize ?c1)") (auto split: if_splits)
  then show ?thesis
  proof cases
    case (2 x)
    then have "ac_Name x = ac_Name c" using name [of ?c1] n1 by simp
    then show ?thesis using put [OF Normalize_valid [OF 2(1)]] 2 by simp
  qed (use inv in simp)
qed

lemma collect_references_Inr:
  "collect_references removeRefs name rows = Inr rs \<Longrightarrow> rs = filter (\<lambda>r. name \<in> set (alerts_of (df_spec r))) rows"
  by (induction rows arbitrary: rs) (auto simp: tx_bind_Inr split: if_splits)

lemma remove_reference_inv:
  assumes inv: "registry_inv b" and r: "r \<in> set (db_definitions b)" "live r"
    and s: "remove_reference Sum256 now name actor r b = Inr b'"
  shows "registry_inv b' \<and> channel_names b' = channel_names b \<and>
    (\<exists>r'. name \<notin> set (alerts_of (df_spec r')) \<and> df_definition_id r' = df_definition_id r \<and>
      set (db_definitions b') = insert r' (set (db_definitions b) - {r}))"
proof -
  define d where "d = (df_spec r)\<lparr>d_ID := df_definition_id r, d_Revision := df_revision r, d_Source := df_source r,
                d_Enabled := Some (df_enabled r), d_Alerts := map_option (filter (\<lambda>v. v \<noteq> name)) (d_Alerts (df_spec r))\<rparr>"
  define spec where "spec = fst (Canonical Sum256 d)"
  define hash where "hash = snd (Canonical Sum256 d)"
  define f :: "definition_row \<Rightarrow> definition_row" where "f = (\<lambda>x. x\<lparr>df_spec := spec, df_spec_hash := hash, df_revision := df_revision r + 1, df_updated_us := now\<rparr>)"
  have alerts: "alerts_of spec = filter (\<lambda>v. v \<noteq> name) (alerts_of (df_spec r))"
    unfolding spec_def alerts_of_document by (auto simp: d_def alerts_of_def split: option.splits)
  from s obtain b2 where rev: "insert_revision (df_definition_id r) (df_revision r + 1) spec hash actor now
      (update_definitions (\<lambda>x. df_definition_id x = df_definition_id r) f b) = Inr b2"
    and b': "registry_inv b' = registry_inv b2" "db_definitions b' = db_definitions b2" "db_channels b' = db_channels b2"
    unfolding remove_reference_def Let_def d_def [symmetric]
    by (auto simp: tx_bind_Inr spec_def hash_def f_def split: prod.splits)
  have "row_ok (channel_names b) (f r)"
    using inv r alerts by (auto simp: registry_inv_def row_ok_def f_def live_def)
  then have "registry_inv b2"
    by (intro registry_inv_bump [OF inv r(1) _ _ _ rev]) (simp_all add: f_def keeps_name_def)
  moreover have "set (db_definitions b2) = insert (f r) (set (db_definitions b) - {r})"
  proof -
    have "(if df_definition_id x = df_definition_id r then f x else x) = (if x = r then f r else x)"
      if "x \<in> set (db_definitions b)" for x using definition_unique [OF inv that r(1)] by auto
    then have "map (\<lambda>x. if df_definition_id x = df_definition_id r then f x else x) (db_definitions b)
        = map (\<lambda>x. if x = r then f r else x) (db_definitions b)" by simp
    then show ?thesis using r(1) insert_revision_InrD [OF rev] by auto
  qed
  moreover have "name \<notin> set (alerts_of (df_spec (f r)))" "df_definition_id (f r) = df_definition_id r"
    using alerts by (simp_all add: f_def)
  moreover have "channel_names b2 = channel_names b"
    using insert_revision_InrD [OF rev] by (simp add: channel_names_def)
  ultimately show ?thesis using b' by (auto simp: channel_names_def)
qed

lemma remove_references_inv:
  "registry_inv b \<Longrightarrow> set rs \<subseteq> {r \<in> set (db_definitions b). live r} \<Longrightarrow> distinct (map df_definition_id rs) \<Longrightarrow>
   tx_fold (remove_reference Sum256 now name actor) rs b = Inr b' \<Longrightarrow>
   registry_inv b' \<and> channel_names b' = channel_names b \<and>
   (\<forall>x \<in> set (db_definitions b'). name \<notin> set (alerts_of (df_spec x)) \<or> x \<in> set (db_definitions b) - set rs)"
proof (induction rs arbitrary: b)
  case Nil
  then show ?case by auto
next
  case (Cons r rs)
  then obtain b1 where b1: "remove_reference Sum256 now name actor r b = Inr b1"
    "tx_fold (remove_reference Sum256 now name actor) rs b1 = Inr b'" by (auto simp: tx_bind_Inr)
  from Cons.prems have r: "r \<in> set (db_definitions b)" "live r" by auto
  from remove_reference_inv [OF Cons.prems(1) r b1(1)] obtain r' where
    s: "registry_inv b1" "channel_names b1 = channel_names b" "name \<notin> set (alerts_of (df_spec r'))"
    "df_definition_id r' = df_definition_id r" "set (db_definitions b1) = insert r' (set (db_definitions b) - {r})"
    by blast
  have "r \<notin> set rs" using Cons.prems(3) by auto
  then have "set rs \<subseteq> {x \<in> set (db_definitions b1). live x}" using Cons.prems(2) s(5) by auto
  from Cons.IH [OF s(1) this _ b1(2)] Cons.prems(3) s show ?case by auto
qed

lemma registry_inv_drop_channel:
  assumes inv: "registry_inv b" and free: "\<And>x. x \<in> set (db_definitions b) \<Longrightarrow> live x \<Longrightarrow> name \<notin> set (alerts_of (df_spec x))"
  shows "registry_inv (b\<lparr>db_channels := filter (\<lambda>c. ac_Name c \<noteq> name) (db_channels b)\<rparr>)"
proof -
  let ?b = "b\<lparr>db_channels := filter (\<lambda>c. ac_Name c \<noteq> name) (db_channels b)\<rparr>"
  have "set (channel_names ?b) = set (channel_names b) - {name}" by (auto simp: channel_names_def)
  then have "row_ok (channel_names ?b) r" if "r \<in> set (db_definitions b)" for r
    using inv that free [OF that] by (auto simp: registry_inv_def row_ok_def)
  moreover have "distinct (channel_names ?b)"
    using inv by (simp add: registry_inv_def channel_names_def filter_map_distinct)
  moreover have "length (db_channels ?b) \<le> MaxAlertChannels"
    using inv le_trans [OF length_filter_le [of "\<lambda>c. ac_Name c \<noteq> name" "db_channels b"]]
    by (simp add: registry_inv_def)
  ultimately show ?thesis using inv by (simp add: registry_inv_def definition_ids_def)
qed

lemma DeleteAlertChannel_inv [step_inv]:
  assumes inv: "registry_inv b" and p: "DeleteAlertChannel Sum256 now name removeRefs actor b = (b', res)"
  shows "registry_inv b'"
proof -
  let ?live = "sort_key df_name (filter live (db_definitions b))"
  from transaction_cases [OF p [unfolded DeleteAlertChannel_def]]
  consider "b' = b" | rs b1 where "collect_references removeRefs name ?live = Inr rs"
    "tx_fold (remove_reference Sum256 (unix_micro now) name actor) rs b = Inr b1"
    "registry_inv b' = registry_inv (b1\<lparr>db_channels := filter (\<lambda>c. ac_Name c \<noteq> name) (db_channels b1)\<rparr>)"
    by (auto simp: tx_bind_Inr split: if_splits)
  then show ?thesis
  proof cases
    case (2 rs b1)
    have rs: "rs = filter (\<lambda>r. name \<in> set (alerts_of (df_spec r))) ?live" by (rule collect_references_Inr [OF 2(1)])
    have "distinct (map df_definition_id (filter live (db_definitions b)))"
      using inv by (simp add: registry_inv_def definition_ids_def filter_map_distinct)
    then have "distinct (map df_definition_id rs)"
      unfolding rs by (intro filter_map_distinct) (simp add: distinct_map)
    moreover have "set rs \<subseteq> {r \<in> set (db_definitions b). live r}" unfolding rs by auto
    ultimately have fold: "registry_inv b1" "channel_names b1 = channel_names b"
      "\<forall>x \<in> set (db_definitions b1). name \<notin> set (alerts_of (df_spec x)) \<or> x \<in> set (db_definitions b) - set rs"
      using remove_references_inv [OF inv _ _ 2(2)] by blast+
    have "name \<notin> set (alerts_of (df_spec x))" if "x \<in> set (db_definitions b1)" "live x" for x
      using fold(3) that unfolding rs by auto
    then have "registry_inv (b1\<lparr>db_channels := filter (\<lambda>c. ac_Name c \<noteq> name) (db_channels b1)\<rparr>)"
      by (rule registry_inv_drop_channel [OF fold(1)])
    then show ?thesis using 2(3) by simp
  qed (use inv in simp)
qed

lemma revision_rank_current:
  assumes inv: "registry_inv b" and r: "r \<in> set (db_definitions b)"
    and v: "v \<in> set (db_revisions b)" "rv_key v = (df_definition_id r, df_revision r)"
  shows "revision_rank (db_revisions b) v = 1"
proof -
  have "w = v" if "w \<in> set (db_revisions b)" "rv_definition_id w = rv_definition_id v" "rv_revision w \<ge> rv_revision v" for w
  proof -
    from inv that(1) obtain r' where r': "r' \<in> set (db_definitions b)" "df_definition_id r' = rv_definition_id w"
      "rv_revision w \<le> df_revision r'" by (force simp: registry_inv_def)
    then have "r' = r" using definition_unique [OF inv r'(1) r] that(2) v(2) by (simp add: rv_key_def)
    then have "rv_key w = rv_key v" using r' that v(2) by (simp add: rv_key_def)
    then show ?thesis using inv that(1) v(1) by (auto simp: registry_inv_def distinct_map dest: inj_onD)
  qed
  then have "filter (\<lambda>w. rv_definition_id w = rv_definition_id v \<and> rv_revision w \<ge> rv_revision v) (db_revisions b)
      = filter (\<lambda>w. w = v) (db_revisions b)" by (intro filter_cong) auto
  moreover have "distinct (db_revisions b)" using inv by (auto simp: registry_inv_def distinct_map)
  moreover have "distinct xs \<Longrightarrow> v \<in> set xs \<Longrightarrow> filter (\<lambda>w. w = v) xs = [v]" for xs
    by (induction xs) (auto simp: filter_empty_conv)
  ultimately show ?thesis using v(1) by (simp add: revision_rank_def)
qed

lemma PruneMetadata_inv [step_inv]:
  assumes inv: "registry_inv b" shows "registry_inv (PruneMetadata now keep b)"
proof -
  let ?b = "PruneMetadata now keep b"
  have same: "db_definitions ?b = db_definitions b" "db_channels ?b = db_channels b"
    "db_revisions ?b = filter (\<lambda>v. revision_rank (db_revisions b) v \<le> 100) (db_revisions b)"
    by (simp_all add: PruneMetadata_def)
  have "(df_definition_id r, df_revision r) \<in> rv_key ` set (db_revisions ?b)" if "r \<in> set (db_definitions b)" for r
  proof -
    from inv that obtain v where v: "v \<in> set (db_revisions b)" "rv_key v = (df_definition_id r, df_revision r)"
      by (force simp: registry_inv_def)
    then show ?thesis using revision_rank_current [OF inv that v] by (force simp: same(3))
  qed
  then show ?thesis
    using inv by (simp add: registry_inv_def same definition_ids_def channel_names_def filter_map_distinct)
qed

section \<open>Steps of the registry\<close>

inductive registry_step :: "(definition_rec \<Rightarrow> string) \<Rightarrow> db \<Rightarrow> db \<Rightarrow> bool" for Sum256 :: "definition_rec \<Rightarrow> string" where
  put: "putDefinition Sum256 now d expected actor createOnly b = (b', res) \<Longrightarrow> registry_step Sum256 b b'"
| import_defs: "ImportDefinitions Sum256 now defs actor b = (b', res1) \<Longrightarrow> registry_step Sum256 b b'"
| sync: "SyncConfigDefinitions Sum256 now defs b = (b', res1) \<Longrightarrow> registry_step Sum256 b b'"
| delete: "DeleteDefinition now name actor b = (b', res1) \<Longrightarrow> registry_step Sum256 b b'"
| set_enabled: "SetEnabled now name en b = (b', res1) \<Longrightarrow> registry_step Sum256 b b'"
| put_channel: "PutAlertChannel now c actor b = (b', res1) \<Longrightarrow> registry_step Sum256 b b'"
| delete_channel: "DeleteAlertChannel Sum256 now name removeRefs actor b = (b', res1) \<Longrightarrow> registry_step Sum256 b b'"
| prune: "registry_step Sum256 b (PruneMetadata now auditKeep b)"
| other: "db_definitions b' = db_definitions b \<Longrightarrow> db_revisions b' = db_revisions b \<Longrightarrow>
    db_channels b' = db_channels b \<Longrightarrow> registry_step Sum256 b b'"

lemma registry_step_inv: "registry_step Sum256 b b' \<Longrightarrow> registry_inv b \<Longrightarrow> registry_inv b'"
proof (induction rule: registry_step.induct)
  case (other b' b)
  then show ?case using registry_inv_cong by metis
qed (blast intro: step_inv)+

interpretation registry: invariant_system "\<lambda>b. b = empty_db" "registry_step Sum256" registry_inv
  by unfold_locales
    (auto simp: registry_inv_def empty_db_def definition_ids_def channel_names_def MaxAlertChannels_def
      dest: registry_step_inv)

section \<open>Writing succeeds\<close>

lemma insert_revision_total:
  assumes "(did, rv) \<notin> rv_key ` set (db_revisions b)" "did \<in> set (definition_ids b)"
  shows "\<exists>b'. insert_revision did rv spec hash actor now b = Inr b' \<and> db_definitions b' = db_definitions b
    \<and> db_channels b' = db_channels b"
  using assms by (auto simp: insert_revision_def rv_key_def)

text \<open>Under the invariant a write of a definition with a known kind never hits a constraint.\<close>

lemma write_definition_update:
  assumes inv: "registry_inv b" and r: "find_definition (d_Name d) b = Some r" and k: "valid_kind (d_Kind d)"
  shows "\<exists>b'. write_definition d spec hash src actor action now b = Inr (b', df_definition_id r, df_revision r + 1)
    \<and> db_channels b' = db_channels b
    \<and> db_definitions b' = map (\<lambda>x. if df_definition_id x = df_definition_id r then
        x\<lparr>df_kind := d_Kind d, df_spec := spec, df_spec_hash := hash, df_revision := df_revision r + 1,
          df_enabled := IsEnabled d, df_updated_us := now, df_deleted_us := None\<rparr> else x) (db_definitions b)"
proof -
  let ?f = "\<lambda>x. x\<lparr>df_kind := d_Kind d, df_spec := spec, df_spec_hash := hash, df_revision := df_revision r + 1,
          df_enabled := IsEnabled d, df_updated_us := now, df_deleted_us := None\<rparr>"
  let ?b1 = "update_definitions (\<lambda>x. df_definition_id x = df_definition_id r) ?f b"
  have mem: "r \<in> set (db_definitions b)" using find_definition_Some [OF r] by simp
  have "(df_definition_id r, df_revision r + 1) \<notin> rv_key ` set (db_revisions b)"
  proof
    assume "(df_definition_id r, df_revision r + 1) \<in> rv_key ` set (db_revisions b)"
    then obtain v where v: "v \<in> set (db_revisions b)" "rv_definition_id v = df_definition_id r" "rv_revision v = df_revision r + 1"
      by (auto simp: rv_key_def)
    from inv v(1) obtain r' where r': "r' \<in> set (db_definitions b)" "df_definition_id r' = rv_definition_id v"
      "rv_revision v \<le> df_revision r'" by (force simp: registry_inv_def)
    have "r' = r" by (rule definition_unique [OF inv r'(1) mem]) (simp add: r' v)
    then show False using r'(3) v(3) by simp
  qed
  moreover have "df_definition_id r \<in> set (definition_ids ?b1)"
    using mem by (simp add: keeps_name_def) (simp add: definition_ids_def)
  ultimately obtain b2 where "insert_revision (df_definition_id r) (df_revision r + 1) spec hash actor now ?b1 = Inr b2"
    "db_definitions b2 = db_definitions ?b1" "db_channels b2 = db_channels ?b1"
    using insert_revision_total [of "df_definition_id r" "df_revision r + 1" ?b1 spec hash actor now] by auto
  then show ?thesis
    using r k by (simp add: write_definition_def tx_bind_def store_definition_def)
qed

section \<open>Mirroring the configuration\<close>

lemma find_definition_unique:
  "registry_inv b \<Longrightarrow> r \<in> set (db_definitions b) \<Longrightarrow> find_definition (df_name r) b = Some r"
proof -
  have "distinct (map df_name rs) \<Longrightarrow> r \<in> set rs \<Longrightarrow> find (\<lambda>x. df_name x = df_name r) rs = Some r" for rs
    by (induction rs) (auto simp: image_iff)
  then show "registry_inv b \<Longrightarrow> r \<in> set (db_definitions b) \<Longrightarrow> find_definition (df_name r) b = Some r"
    by (simp add: find_definition_def registry_inv_def)
qed

lemma find_definition_map:
  assumes "\<And>x. df_name (g x) = df_name x" "db_definitions b' = map g (db_definitions b)"
  shows "find_definition n b' = map_option g (find_definition n b)"
proof -
  have "find (\<lambda>x. df_name x = n) (map g xs) = map_option g (find (\<lambda>x. df_name x = n) xs)" for xs
    using assms(1) by (induction xs) auto
  then show ?thesis using assms(2) by (simp add: find_definition_def)
qed

lemma find_definition_append:
  assumes "find_definition name b = None" "df_name row = name" "db_definitions b' = db_definitions b @ [row]"
  shows "find_definition n b' = (if n = name then Some row else find_definition n b)"
proof -
  have "find Q (xs @ [row]) = (case find Q xs of None \<Rightarrow> if Q row then Some row else None | Some x \<Rightarrow> Some x)" for Q xs
    by (induction xs) auto
  then show ?thesis using assms by (auto simp: find_definition_def split: option.splits)
qed

text \<open>What one write leaves behind for every name.\<close>

lemma write_definition_find:
  assumes inv: "registry_inv b" and w: "write_definition d spec hash src actor action now b = Inr (b', did, rv)"
  shows "\<exists>r. find_definition (d_Name d) b' = Some r \<and> df_spec_hash r = hash \<and> live r \<and> df_revision r = rv \<and>
      df_spec r = spec \<and> df_kind r = d_Kind d \<and> df_enabled r = IsEnabled d \<and>
      df_source r = (case find_definition (d_Name d) b of None \<Rightarrow> src | Some x \<Rightarrow> df_source x)"
    and "n \<noteq> d_Name d \<Longrightarrow> find_definition n b' = find_definition n b" and "db_channels b' = db_channels b"
proof -
  have "(\<exists>r. find_definition (d_Name d) b' = Some r \<and> df_spec_hash r = hash \<and> live r \<and> df_revision r = rv \<and>
      df_spec r = spec \<and> df_kind r = d_Kind d \<and> df_enabled r = IsEnabled d \<and>
      df_source r = (case find_definition (d_Name d) b of None \<Rightarrow> src | Some x \<Rightarrow> df_source x)) \<and>
    (n \<noteq> d_Name d \<longrightarrow> find_definition n b' = find_definition n b) \<and> db_channels b' = db_channels b"
  proof (cases "find_definition (d_Name d) b")
    case None
    with w obtain row where "db_definitions b' = db_definitions b @ [row]" "df_name row = d_Name d"
      "df_spec_hash row = hash" "df_spec row = spec" "df_kind row = d_Kind d" "df_enabled row = IsEnabled d" "df_revision row = 1" "rv = 1" "df_source row = src" "live row" "db_channels b' = db_channels b"
      by (auto simp: write_definition_def Let_def tx_bind_Inr insert_definition_def live_def
          split: if_splits dest!: insert_revision_InrD)
    then show ?thesis using find_definition_append [OF None, of row b'] None by auto
  next
    case (Some r)
    let ?g = "\<lambda>x. if df_definition_id x = df_definition_id r then
        x\<lparr>df_kind := d_Kind d, df_spec := spec, df_spec_hash := hash, df_revision := df_revision r + 1,
          df_enabled := IsEnabled d, df_updated_us := now, df_deleted_us := None\<rparr> else x"
    have "valid_kind (d_Kind d)"
      using w Some by (auto simp: write_definition_def Let_def tx_bind_Inr store_definition_def split: if_splits)
    from write_definition_update [OF inv Some this, of spec hash src actor action now] w
    have b': "db_definitions b' = map ?g (db_definitions b)" "db_channels b' = db_channels b" "rv = df_revision r + 1" by auto
    have find: "find_definition m b' = map_option ?g (find_definition m b)" for m
      by (rule find_definition_map [OF _ b'(1)]) simp
    have "?g x = x" if "find_definition n b = Some x" "n \<noteq> d_Name d" for x
      using that find_definition_Some [OF Some] find_definition_Some [OF that(1)] definition_unique [OF inv]
      by metis
    then have "n \<noteq> d_Name d \<Longrightarrow> find_definition n b' = find_definition n b"
      unfolding find by (cases "find_definition n b") auto
    then show ?thesis using find [of "d_Name d"] Some b' by (simp add: live_def)
  qed
  then show "\<exists>r. find_definition (d_Name d) b' = Some r \<and> df_spec_hash r = hash \<and> live r \<and> df_revision r = rv \<and>
      df_spec r = spec \<and> df_kind r = d_Kind d \<and> df_enabled r = IsEnabled d \<and>
      df_source r = (case find_definition (d_Name d) b of None \<Rightarrow> src | Some x \<Rightarrow> df_source x)"
    "n \<noteq> d_Name d \<Longrightarrow> find_definition n b' = find_definition n b" "db_channels b' = db_channels b" by auto
qed

definition mirrored :: "(definition_rec \<Rightarrow> string) \<Rightarrow> db \<Rightarrow> definition_rec \<Rightarrow> bool" where
  "mirrored Sum256 b d \<longleftrightarrow> (\<exists>r. find_definition (d_Name d) b = Some r \<and> df_source r = ''config'' \<and> live r \<and>
     df_spec_hash r = snd (Canonical Sum256 (d\<lparr>d_Source := ''config''\<rparr>))) \<and> validateAlertReferencesTx d b = Inr ()"

lemma validate_cong: "db_channels b' = db_channels b \<Longrightarrow> validateAlertReferencesTx d b' = validateAlertReferencesTx d b"
proof -
  have "channel_names b' = channel_names b \<Longrightarrow> check_alerts seen names b' = check_alerts seen names b" for seen names
    by (induction names arbitrary: seen) auto
  then show "db_channels b' = db_channels b \<Longrightarrow> validateAlertReferencesTx d b' = validateAlertReferencesTx d b"
    by (simp add: validateAlertReferencesTx_def channel_names_def)
qed

text \<open>The row of a definition of the file after a synchronisation: live, config-owned, with the hash of the file's
  document, and either the row there was before or one that carries the document.\<close>

definition synced :: "(definition_rec \<Rightarrow> string) \<Rightarrow> db \<Rightarrow> db \<Rightarrow> definition_rec \<Rightarrow> bool" where
  "synced Sum256 b b' d \<longleftrightarrow> (case Canonical Sum256 (d\<lparr>d_Source := ''config''\<rparr>) of (spec, hash) \<Rightarrow>
     \<exists>r. find_definition (d_Name d) b' = Some r \<and> df_source r = ''config'' \<and> live r \<and> df_spec_hash r = hash \<and>
       (find_definition (d_Name d) b = Some r \<or>
        df_spec r = spec \<and> df_kind r = d_Kind d \<and> df_enabled r = IsEnabled d))"

lemma synced_cong:
  "find_definition (d_Name d) b0 = find_definition (d_Name d) b \<Longrightarrow> find_definition (d_Name d) b1 = find_definition (d_Name d) b' \<Longrightarrow>
   synced Sum256 b0 b1 d = synced Sum256 b b' d"
  by (simp add: synced_def)

lemma sync_one_effect:
  assumes inv: "registry_inv b" and s: "sync_one Sum256 now d b = Inr b'"
  shows "mirrored Sum256 b' d" and "n \<noteq> d_Name d \<Longrightarrow> find_definition n b' = find_definition n b"
    and "db_channels b' = db_channels b"
    and "find_definition (d_Name d) b = Some r \<Longrightarrow> df_source r = ''config''"
    and "synced Sum256 b b' d"
proof -
  let ?d = "d\<lparr>d_Source := ''config''\<rparr>"
  obtain spec hash where c: "Canonical Sum256 ?d = (spec, hash)" by fastforce
  have v: "validateAlertReferencesTx d b = Inr ()" using s by (auto simp: sync_one_def tx_bind_Inr)
  show "find_definition (d_Name d) b = Some r \<Longrightarrow> df_source r = ''config''"
    using s by (auto simp: sync_one_def tx_bind_Inr Let_def c split: if_splits)
  consider "b' = b" "mirrored Sum256 b d"
    | did rv where "write_definition ?d spec hash ''config'' ''config'' ''sync'' now b = Inr (b', did, rv)"
        "\<forall>x. find_definition (d_Name d) b = Some x \<longrightarrow> df_source x = ''config''"
    using s v by (auto simp: sync_one_def tx_bind_Inr Let_def c mirrored_def live_def split: option.splits if_splits)
  then have "mirrored Sum256 b' d \<and> (n \<noteq> d_Name d \<longrightarrow> find_definition n b' = find_definition n b) \<and> db_channels b' = db_channels b \<and>
      synced Sum256 b b' d"
  proof cases
    case 1
    then show ?thesis by (auto simp: mirrored_def synced_def split: prod.split)
  next
    case (2 did rv)
    note f = write_definition_find [OF inv 2(1)]
    have "validateAlertReferencesTx d b' = Inr ()" using v validate_cong [OF f(3)] by simp
    then show ?thesis using f 2(2) c by (auto simp: mirrored_def synced_def IsEnabled_def split: option.splits)
  qed
  then show "mirrored Sum256 b' d" "synced Sum256 b b' d" "n \<noteq> d_Name d \<Longrightarrow> find_definition n b' = find_definition n b"
    "db_channels b' = db_channels b" by auto
qed

lemma mirrored_cong:
  "find_definition (d_Name d) b' = find_definition (d_Name d) b \<Longrightarrow> db_channels b' = db_channels b \<Longrightarrow>
   mirrored Sum256 b' d = mirrored Sum256 b d"
  using validate_cong [of b' b d] by (simp add: mirrored_def)

lemma sync_all_effect:
  "registry_inv b \<Longrightarrow> distinct (map d_Name defs) \<Longrightarrow> tx_fold (sync_one Sum256 now) defs b = Inr b' \<Longrightarrow>
   registry_inv b' \<and> (\<forall>d \<in> set defs. mirrored Sum256 b' d \<and> synced Sum256 b b' d) \<and> db_channels b' = db_channels b \<and>
   (\<forall>n r. find_definition n b = Some r \<and> df_source r \<noteq> ''config'' \<longrightarrow> find_definition n b' = Some r) \<and>
   (\<forall>n. n \<notin> d_Name ` set defs \<longrightarrow> find_definition n b' = find_definition n b)"
proof (induction defs arbitrary: b)
  case (Cons d defs)
  then obtain b1 where b1: "sync_one Sum256 now d b = Inr b1" "tx_fold (sync_one Sum256 now) defs b1 = Inr b'"
    by (auto simp: tx_bind_Inr)
  note one = sync_one_effect [OF Cons.prems(1) b1(1)]
  have inv1: "registry_inv b1" by (rule sync_one_inv [OF Cons.prems(1) b1(1)])
  have IH: "registry_inv b' \<and> (\<forall>d \<in> set defs. mirrored Sum256 b' d \<and> synced Sum256 b1 b' d) \<and> db_channels b' = db_channels b1 \<and>
     (\<forall>n r. find_definition n b1 = Some r \<and> df_source r \<noteq> ''config'' \<longrightarrow> find_definition n b' = Some r) \<and>
     (\<forall>n. n \<notin> d_Name ` set defs \<longrightarrow> find_definition n b' = find_definition n b1)"
    using Cons.IH [OF inv1 _ b1(2)] Cons.prems(2) by simp
  have "mirrored Sum256 b' d \<and> synced Sum256 b b' d"
    using one(1,5) mirrored_cong [of d b' b1] synced_cong [of d b b b' b1] IH Cons.prems(2) by auto
  moreover have "synced Sum256 b b' x" if "x \<in> set defs" for x
  proof -
    have "d_Name x \<noteq> d_Name d" using Cons.prems(2) that by (auto simp: image_iff)
    then show ?thesis using synced_cong [of x b b1 b' b'] one(2) IH that by simp
  qed
  moreover have "find_definition n b' = Some r" if "find_definition n b = Some r" "df_source r \<noteq> ''config''" for n r
  proof -
    have "n \<noteq> d_Name d" using that one(4) by auto
    then show ?thesis using that one(2) IH by auto
  qed
  ultimately show ?case using IH one(2,3) by auto
qed simp

lemma remove_all_definitions:
  "db_definitions (foldl (remove_config now) b names) =
   map (\<lambda>r. if df_name r \<in> set names then r\<lparr>df_deleted_us := Some now, df_enabled := False, df_updated_us := now\<rparr> else r)
     (db_definitions b) \<and> db_channels (foldl (remove_config now) b names) = db_channels b"
proof (induction names arbitrary: b)
  case (Cons name names)
  then show ?case by (auto simp: remove_config_def)
qed (auto intro: map_idI [symmetric])

end
