(* ===== verification/Store_Properties.thy ===== *)
theory Store_Properties
  imports Store_Queue
begin

text \<open>
  The properties of the metadata store: consistency of the run tables, limits of the queue, the
  lifecycle of a run, at-most-once dequeuing, idempotent admission, listings, retention and
  schedule state, each with a concrete instance.
\<close>

section \<open>A small database\<close>

definition backup_definition :: definition_row where
  "backup_definition = \<lparr>df_definition_id = 1, df_name = ''backup'', df_kind = ''job'',
     df_spec = zero_definition\<lparr>d_Name := ''backup''\<rparr>, df_spec_hash = ''h'', df_revision = 1,
     df_enabled = True, df_source = '''', df_created_us = 0, df_updated_us = 0, df_deleted_us = None\<rparr>"

definition backup_db :: db where
  "backup_db = empty_db\<lparr>db_definitions := [backup_definition]\<rparr>"

definition backup_run :: "string \<Rightarrow> run_rec" where
  "backup_run rid = zero_run\<lparr>r_ID := rid, r_DefinitionID := 1, r_Job := ''backup'', r_Kind := ''job'',
     r_Status := ''pending'', r_Trigger := ''manual'', r_Attempt := 1, r_QueuedAt := unix_epoch\<rparr>"

definition small_limits :: queue_limits where
  "small_limits = \<lparr>MaxItems = 2, MaxPerJob = 2, MaxBytes = 10000, MaxAge = Hour\<rparr>"

definition one_queued :: db where
  "one_queued = fst (EnqueueRun unix_epoch unix_epoch (backup_run ''r1'') None small_limits False backup_db)"

lemma backup_db_reachable: "reachable (\<lambda>b. b = empty_db) (run_step lim) backup_db"
  by (rule reachable_step [OF reachable_start]) (auto simp: backup_db_def intro: run_step.other)

lemma one_queued_reachable: "reachable (\<lambda>b. b = empty_db) (run_step small_limits) one_queued"
  unfolding one_queued_def
  by (rule reachable_step [OF backup_db_reachable run_step.enqueue [OF prod.collapse [symmetric]]])

lemma backup_db_inv: "queue_inv backup_db"
  using run_tables.reachable_inv [OF backup_db_reachable] .

lemma one_queued_inv: "queue_inv one_queued"
  using run_tables.reachable_inv [OF one_queued_reachable] .

section \<open>Runs and the queue\<close>

text \<open>C7: in every database state the store can reach, run identifiers are unique, the
  execution queue and the runs in status queued correspond one to one (each queue row names a
  stored run of the same definition that is in status queued, and each queued run has a queue row), queue
  sequence numbers grow, and no scheduled occurrence of a definition has two runs.\<close>

theorem run_tables_consistent:
  assumes "reachable (\<lambda>b. b = empty_db) (run_step lim) b"
  shows "queue_inv b"
  by (rule run_tables.reachable_inv [OF assms])

theorem run_tables_consistent_witness:
  "queue_inv one_queued \<and> queue_ids one_queued = [''r1'']"
  using run_tables_consistent [OF one_queued_reachable] by (simp, code_simp)

text \<open>C8: the queue never exceeds its limits: in every reachable state the number of queued
  runs, the number per definition and the accounted bytes stay within the configured limits.\<close>

theorem queue_limits_hold:
  assumes "0 \<le> MaxItems lim" "0 \<le> MaxPerJob lim" "0 \<le> MaxBytes lim"
    and "reachable (\<lambda>b. b = empty_db) (run_step lim) b"
  shows "queue_depth b \<le> MaxItems lim \<and> queue_bytes b \<le> MaxBytes lim \<and>
    (\<forall>did. queue_per_job did b \<le> MaxPerJob lim)"
proof -
  have start: "within_limits lim empty_db"
    using assms(1-3) by (simp add: within_limits_def empty_db_def queue_depth_def queue_bytes_def queue_per_job_def)
  have "within_limits lim b"
    using assms(4) by (induction rule: reachable.induct) (use start run_step_limits in auto)
  then show ?thesis by (simp add: within_limits_def)
qed

theorem queue_limits_hold_witness:
  "queue_depth one_queued \<le> 2 \<and> queue_depth one_queued = 1"
proof
  show "queue_depth one_queued \<le> 2"
    using queue_limits_hold [OF _ _ _ one_queued_reachable] by (simp add: small_limits_def)
qed code_simp

text \<open>C9: the status of a stored run changes only along its lifecycle, whatever the store does:
  queued to pending or an end status, pending to running or an end status, running to an end
  status; a run that has ended keeps its status, and only ended runs are deleted.\<close>

theorem run_status_lifecycle:
  assumes "queue_inv b" "run_step lim b b'"
  shows "lifecycle (status_of rid b) (status_of rid b')"
  by (rule run_step_lifecycle [OF assms(2,1)])

theorem run_status_lifecycle_witness:
  "lifecycle (status_of ''r1'' one_queued)
     (status_of ''r1'' (fst (DequeueRun ''r1'' 1 ''h'' ''boot'' one_queued)))
   \<and> status_of ''r1'' (fst (DequeueRun ''r1'' 1 ''h'' ''boot'' one_queued)) = Some ''pending''"
  using run_status_lifecycle [OF one_queued_inv run_step.dequeue [OF prod.collapse [symmetric]]]
  by (simp, code_simp)

text \<open>C10: no queued run is ever started twice: over any sequence of enqueues, dequeues, drops,
  cancellations and expiries, the runs handed out by \<^verbatim>\<open>DequeueRun\<close> are pairwise distinct, each was
  waiting at the beginning or accepted by an enqueue of the sequence, and none is still waiting at the end.\<close>

theorem dequeue_at_most_once:
  assumes "queue_inv b" "queue_trace enqueue_event leave_event es b = (b', accepted, started)"
  shows "distinct started \<and> distinct accepted \<and> set started \<subseteq> set (queue_ids b) \<union> set accepted \<and>
    set started \<inter> set (queue_ids b') = {} \<and> queue_inv b'"
  using run_queue.trace_once [OF assms] by simp

theorem dequeue_at_most_once_witness:
  "\<exists>b' accepted. queue_trace enqueue_event leave_event
      [Inl (unix_epoch, unix_epoch, backup_run ''r2'', None, small_limits, False),
       Inr (LeaveDequeue ''r1'' 1 ''h'' ''b''), Inr (LeaveDequeue ''r1'' 1 ''h'' ''b''),
       Inr (LeaveDequeue ''r2'' 1 ''h'' ''b'')] one_queued = (b', accepted, [''r1'', ''r2''])
     \<and> distinct [''r1'', ''r2''] \<and> queue_inv b'"
proof -
  let ?es = "[Inl (unix_epoch, unix_epoch, backup_run ''r2'', None, small_limits, False),
       Inr (LeaveDequeue ''r1'' 1 ''h'' ''b''), Inr (LeaveDequeue ''r1'' 1 ''h'' ''b''),
       Inr (LeaveDequeue ''r2'' 1 ''h'' ''b'')]"
  obtain b' accepted started where t: "queue_trace enqueue_event leave_event ?es one_queued = (b', accepted, started)"
    by (metis prod_cases3)
  have "snd (snd (queue_trace enqueue_event leave_event ?es one_queued)) = [''r1'', ''r2'']" by code_simp
  then have "started = [''r1'', ''r2'']" using t by simp
  then show ?thesis using t dequeue_at_most_once [OF one_queued_inv t] by blast
qed

text \<open>The candidates the drain loop chooses from are fair: the list has one entry per definition with
  queued runs (as many as the limit allows), oldest first, and each entry is the oldest queued run of its definition.\<close>

lemma QueueHeads_oldest:
  assumes "queue_inv b"
  shows "length (QueueHeads limit b) = min limit (card (q_definition_id ` set (db_queue b))) \<and>
    distinct (map qi_DefinitionID (QueueHeads limit b)) \<and> sorted (map qi_Seq (QueueHeads limit b)) \<and>
    (\<forall>h \<in> set (QueueHeads limit b). \<exists>q \<in> set (db_queue b). h = queue_item_of q \<and>
       (\<forall>q' \<in> set (db_queue b). q_definition_id q' = q_definition_id q \<longrightarrow> q_seq q \<le> q_seq q'))"
proof (intro conjI)
  let ?heads = "filter (is_head b) (db_queue b)"
  show "length (QueueHeads limit b) = min limit (card (q_definition_id ` set (db_queue b)))"
    by (rule heads_length [OF assms])
  show "distinct (map qi_DefinitionID (QueueHeads limit b))"
    using heads_definitions_distinct [OF assms]
    by (simp add: QueueHeads_filter [OF assms] comp_def queue_item_of_def take_map [symmetric])
  show "sorted (map qi_Seq (QueueHeads limit b))"
    by (simp add: QueueHeads_def comp_def queue_item_of_def take_map [symmetric] sorted_wrt_take)
  show "\<forall>h \<in> set (QueueHeads limit b). \<exists>q \<in> set (db_queue b). h = queue_item_of q \<and>
       (\<forall>q' \<in> set (db_queue b). q_definition_id q' = q_definition_id q \<longrightarrow> q_seq q \<le> q_seq q')"
    by (auto simp: QueueHeads_filter [OF assms] is_head_def list_all_iff dest!: in_set_takeD)
qed

lemma QueueHeads_oldest_example:
  "map qi_RunID (QueueHeads 5 one_queued) = [''r1''] \<and>
   length (QueueHeads 5 one_queued) = min 5 (card (q_definition_id ` set (db_queue one_queued)))"
  using QueueHeads_oldest [OF one_queued_inv, of 5] by (simp, code_simp)

text \<open>Expiry is complete and atomic: every run \<^verbatim>\<open>ExpireQueued\<close> reports has
  become skipped with reason queue_expired and has left the queue, and when the limit is not
  below the number of expired rows no expired row remains.\<close>

lemma ExpireQueued_ends:
  assumes "queue_inv b" "ExpireQueued now limit b = (b', ids)"
  shows "(\<forall>rid \<in> set ids. rid \<notin> set (queue_ids b') \<and> (\<exists>r. find_run rid b' = Some r \<and>
        rr_status r = ''skipped'' \<and> rr_end_reason r = Some ''queue_expired'')) \<and>
    (length (filter (\<lambda>q. q_expires_us q \<le> unix_micro now) (db_queue b)) \<le> limit \<longrightarrow>
       (\<forall>q \<in> set (db_queue b'). unix_micro now < q_expires_us q))"
proof (intro conjI impI ballI)
  fix q assume len: "length (filter (\<lambda>q. q_expires_us q \<le> unix_micro now) (db_queue b)) \<le> limit"
    and q: "q \<in> set (db_queue b')"
  then have "q \<in> set (db_queue b)" "q_run_id q \<notin> set (expired_ids now limit b)"
    using assms(2) by (auto simp: ExpireQueued_def Let_def split: if_splits)
  then show "unix_micro now < q_expires_us q" using expired_ids_complete [OF _ _ len] by force
qed (use ExpireQueued_status [OF assms] in blast)+

lemma ExpireQueued_ends_example:
  "\<exists>r. find_run ''r1'' (fst (ExpireQueued (unix_epoch + 2 * Hour) 10 one_queued)) = Some r
     \<and> rr_status r = ''skipped''"
proof -
  have "snd (ExpireQueued (unix_epoch + 2 * Hour) 10 one_queued) = [''r1'']" by code_simp
  then show ?thesis
    using ExpireQueued_ends [OF one_queued_inv prod.collapse [symmetric], of "unix_epoch + 2 * Hour" 10] by auto
qed

text \<open>Crash recovery: after \<^verbatim>\<open>Recover\<close> no run is pending or running; those
  that were are interrupted with reason crash_recovery; every other run, in particular every run
  still waiting in the queue, is as it was, and the queue is unchanged.\<close>

lemma Recover_interrupts:
  assumes "queue_inv b"
  shows "db_queue (Recover now b) = db_queue b \<and>
    (\<forall>r \<in> set (db_runs (Recover now b)). rr_status r \<noteq> ''pending'' \<and> rr_status r \<noteq> ''running'') \<and>
    (\<forall>rid. find_run rid (Recover now b) =
      map_option (\<lambda>r. if rr_status r = ''pending'' \<or> rr_status r = ''running''
        then r\<lparr>rr_status := ''interrupted'', rr_end_reason := Some ''crash_recovery'', rr_ended_us := Some (unix_micro now)\<rparr>
        else r) (find_run rid b))"
proof -
  have "recover_cond b r \<longleftrightarrow> rr_status r = ''pending'' \<or> rr_status r = ''running''" if "r \<in> set (db_runs b)" for r
    using assms that by (auto simp: recover_cond_def queue_inv_def)
  then have "map_option (\<lambda>r. if recover_cond b r then f r else r) (find_run rid b)
      = map_option (\<lambda>r. if rr_status r = ''pending'' \<or> rr_status r = ''running'' then f r else r) (find_run rid b)"
    for f rid by (cases "find_run rid b") (auto dest: find_run_SomeD)
  then show ?thesis
    by (auto simp: Recover_def find_run_update keeps_key_def recover_cond_def)
qed

definition one_running :: db where
  "one_running = fst (StartRun ''r1'' 7 7 ''s'' unix_epoch (fst (CreateRun (backup_run ''r1'') backup_db)))"

lemma Recover_interrupts_example:
  "map rr_status (db_runs one_running) = [''running''] \<and>
   filter (\<lambda>r. rr_status r = ''running'') (db_runs (Recover unix_epoch one_running)) = []"
proof -
  have "queue_inv one_running"
    unfolding one_running_def
    by (rule StartRun_inv [OF CreateRun_inv [OF backup_db_inv _ prod.collapse [symmetric]] prod.collapse [symmetric]])
      (simp add: backup_run_def)
  from Recover_interrupts [OF this]
  have "\<forall>r \<in> set (db_runs (Recover unix_epoch one_running)). rr_status r \<noteq> ''running''" by blast
  moreover have "map rr_status (db_runs one_running) = [''running'']" by code_simp
  ultimately show ?thesis by (simp add: filter_empty_conv)
qed

section \<open>Idempotent admission\<close>

lemma find_idem_append:
  "find_idem p oper k b = None \<Longrightarrow> idem_key i = (p, oper, k) \<Longrightarrow>
   find_idem p oper k (b\<lparr>db_idempotency := db_idempotency b @ [i]\<rparr>) = Some i"
proof -
  have "find Q xs = None \<Longrightarrow> Q x \<Longrightarrow> find Q (xs @ [x]) = Some x" for Q xs and x :: idempotency_row
    by (induction xs) (auto split: if_splits)
  then show "find_idem p oper k b = None \<Longrightarrow> idem_key i = (p, oper, k) \<Longrightarrow>
      find_idem p oper k (b\<lparr>db_idempotency := db_idempotency b @ [i]\<rparr>) = Some i"
    by (simp add: find_idem_def)
qed

lemma insert_idempotency_find:
  assumes "insert_idempotency i b = Inr b'" "idem_key i = (p, oper, k)"
  shows "find_idem p oper k b' = Some i"
proof -
  note ins = insert_idempotency_InrD [OF assms(1)]
  then have "find_idem p oper k b = None" using assms(2) by (force simp: find_idem_def find_None_all)
  then show ?thesis using find_idem_append [OF _ assms(2)] ins by simp
qed

text \<open>An idempotency key admits at most one run within its 24-hour window: after a
  successful admission, a second request with the same key and the same request body gets the
  identifier of the first run and changes nothing, whether it is admitted directly or through
  the queue, and a request with the same key but another body is refused as a conflict.\<close>

lemma idempotent_admission:
  assumes "AdmitIdempotentRun now1 now2 r p oper k h b = (b', Inr '''')" "k \<noteq> ''''" "r_ID r \<noteq> ''''"
    and "idem_expiry now < unix_micro now2"
  shows "AdmitIdempotentRun now now' r2 p oper k h b' = (b', Inr (r_ID r)) \<and>
    EnqueueRun now now' r2 (Some \<lparr>id_Principal = p, id_Operation = oper, id_Key = k, id_RequestHash = h\<rparr>)
      lim uniq b' = (b', Inr (r_ID r)) \<and>
    IdempotentRun now p oper k h b' = Inr (r_ID r) \<and>
    (h2 \<noteq> h \<longrightarrow> AdmitIdempotentRun now now' r2 p oper k h2 b' = (b', Inl ErrIdempotencyConflict))"
proof -
  have "find_idem p oper k b' = Some \<lparr>i_principal = p, i_operation = oper, i_key = k, i_request_hash = h,
         i_run_id = r_ID r, i_created_us = unix_micro now2\<rparr>"
    using assms(1)
  proof (cases rule: AdmitIdempotentRun_cases)
    case same
    then show ?thesis by simp
  next
    case (created b1 b2)
    then show ?thesis by (intro insert_idempotency_find) (simp_all add: idem_key_def)
  qed
  then show ?thesis
    using assms by (simp add: AdmitIdempotentRun_def EnqueueRun_def reserve_for_def reserveIdempotency_def
        IdempotentRun_def)
qed

lemma idempotent_admission_example:
  "snd (AdmitIdempotentRun (unix_epoch + Hour) (unix_epoch + Hour) (backup_run ''r9'') ''admin'' ''trigger'' ''k'' ''h''
     (fst (AdmitIdempotentRun unix_epoch unix_epoch (backup_run ''r1'') ''admin'' ''trigger'' ''k'' ''h'' backup_db)))
   = Inr ''r1''"
proof -
  let ?a = "AdmitIdempotentRun unix_epoch unix_epoch (backup_run ''r1'') ''admin'' ''trigger'' ''k'' ''h'' backup_db"
  have "snd ?a = Inr ''''" by code_simp
  then have "?a = (fst ?a, Inr '''')" by (metis prod.collapse)
  from idempotent_admission [OF this, of "unix_epoch + Hour" "unix_epoch + Hour" "backup_run ''r9''"]
  show ?thesis by (simp add: backup_run_def idem_expiry_def unix_micro_def)
qed

section \<open>Listings and retention\<close>

text \<open>Paging through a run listing neither skips nor repeats a run: the pages are
  consecutive pieces of one newest-first listing of the matching runs, so the page that follows
  the run at position n starts with the run at position n + 1.\<close>

lemma RunsPage_pages:
  assumes "distinct (run_ids b)" "n < length (listed job flt b)" "rr_run_id (listed job flt b ! n) \<noteq> ''''"
  shows "RunsPage job limit '''' flt b
      = Inr (map scanRun (take (nat (min (max limit 1) 501)) (listed job flt b))) \<and>
    RunsPage job limit (rr_run_id (listed job flt b ! n)) flt b
      = Inr (map scanRun (take (nat (min (max limit 1) 501)) (drop (Suc n) (listed job flt b)))) \<and>
    sorted_wrt (\<lambda>x y. page_key y < page_key x) (listed job flt b)"
  using RunsPage_first RunsPage_rest [OF assms] listed_sorted [OF assms(1)] by blast

definition two_runs :: db where
  "two_runs = fst (CreateRun (backup_run ''r2'') (fst (CreateRun (backup_run ''r1'') backup_db)))"

lemma RunsPage_pages_example:
  "map_sum id (map r_ID) (RunsPage '''' 1 ''r2'' '''' two_runs) = Inr [''r1'']"
proof -
  have d: "distinct (run_ids two_runs)" by code_simp
  have l: "map rr_run_id (listed '''' '''' two_runs) = [''r2'', ''r1'']" by code_simp
  then have n: "0 < length (listed '''' '''' two_runs)" "rr_run_id (listed '''' '''' two_runs ! 0) = ''r2''"
    by (cases "listed '''' '''' two_runs"; simp)+
  from l have "map r_ID (map scanRun (take 1 (drop (Suc 0) (listed '''' '''' two_runs)))) = [''r1'']"
    by (cases "listed '''' '''' two_runs"; cases "tl (listed '''' '''' two_runs)") (auto simp: scanRun_def)
  then show ?thesis using RunsPage_pages [OF d n(1), of 1] n(2) by simp
qed

text \<open>Retention deletes only what it may: every candidate is an ended run of the definition,
  not its newest ended run, and not the run of a live idempotency key; without an age limit it
  has at least as many newer ended runs as the configured number to keep.\<close>

lemma RetentionCandidates_safe:
  assumes "distinct (run_ids b)" "RetentionCandidates now did keep olderThan cursor limit b = Inr cs" "c \<in> set cs"
  shows "\<exists>r \<in> set (db_runs b). rr_run_id r = rc_ID c \<and> rr_definition_id r = did \<and> Terminal (rr_status r) \<and>
    \<not> key_live now b (rr_run_id r) \<and> rr_run_id r \<noteq> rr_run_id (hd (finished_runs did b)) \<and>
    (olderThan = 0 \<longrightarrow> 0 < keep \<and>
       nat keep \<le> length (filter (\<lambda>x. retention_key r < retention_key x) (finished_runs did b)))"
proof -
  from RetentionCandidates_row [OF assms(2,3)] obtain r where
    r: "r \<in> set (finished_runs did b)" "c = \<lparr>rc_ID = rr_run_id r, rc_SortUS = sort_us r\<rparr>"
    "rr_run_id r \<notin> set (map rr_run_id (take 1 (finished_runs did b)))" "\<not> key_live now b (rr_run_id r)"
    "olderThan = 0 \<longrightarrow> (keep > 0 \<and> list_ex (\<lambda>k. k > retention_key r)
        (map retention_key (take 1 (drop (nat (max keep 1 - 1)) (finished_runs did b)))))"
    by blast
  have "rr_run_id r \<noteq> rr_run_id (hd (finished_runs did b))"
    using r(1,3) by (cases "finished_runs did b") auto
  then show ?thesis
    using r boundary_newer [OF assms(1)] by (intro bexI [of _ r]) (auto simp: finished_runs_set)
qed

definition three_ended :: db where
  "three_ended = foldl (\<lambda>b (rid, t). fst (CreateRun ((backup_run rid)\<lparr>r_Status := ''succeeded'',
     r_EndedAt := Some (unix_epoch + t)\<rparr>) b)) backup_db [(''r1'', 0), (''r2'', Second), (''r3'', 2 * Second)]"

lemma RetentionCandidates_safe_example:
  "\<exists>r \<in> set (db_runs three_ended). rr_run_id r = ''r1'' \<and> Terminal (rr_status r)"
proof -
  have "distinct (run_ids three_ended)" by code_simp
  moreover have "RetentionCandidates (unix_epoch + 48 * Hour) 1 2 0 None 10 three_ended
      = Inr [\<lparr>rc_ID = ''r1'', rc_SortUS = 0\<rparr>]" by code_simp
  ultimately show ?thesis using RetentionCandidates_safe by fastforce
qed

section \<open>Round trips\<close>

text \<open>A created run reads back as it was written, with its instants rounded down to
  microseconds and without the process fields, which only a start or an end fills in.\<close>

lemma CreateRun_roundtrip:
  assumes "CreateRun r b = (b', Inr ())"
  shows "run_get (r_ID r) b' = Inr (r\<lparr>r_PID := 0, r_PGID := 0, r_ProcessStartID := '''', r_ExitCode := None,
     r_Signal := '''', r_QueuedAt := from_micro (unix_micro (r_QueuedAt r)), r_StartedAt := None,
     r_ScheduledFor := map_option (\<lambda>t. from_micro (unix_micro t)) (r_ScheduledFor r),
     r_EndedAt := map_option (\<lambda>t. from_micro (unix_micro t)) (r_EndedAt r),
     r_LogBytes := 0, r_LogTruncated := False, r_ResourceUsage := None\<rparr>)"
proof -
  have ins: "insert_run (runArgs r) b = Inr b'" using assms by (auto simp: CreateRun_def split: sum.splits)
  note row = insert_run_InrD [OF ins]
  have "rr_run_id (runArgs r) = r_ID r" by (simp add: runArgs_def)
  moreover from this have "find_run (r_ID r) b = None"
    using row by (force simp: find_run_def find_None_all run_ids_def)
  ultimately have "find_run (r_ID r) b' = Some (runArgs r)"
    using row by (simp add: find_run_append)
  then show ?thesis
    by (simp add: run_get_def scanRun_def runArgs_def nullString_def coalesce_def timePtrUS_def option.map_comp comp_def)
qed

lemma CreateRun_roundtrip_example:
  "map_sum id r_Status (run_get ''r1'' (fst (CreateRun (backup_run ''r1'') backup_db))) = Inr ''pending''"
proof -
  have "snd (CreateRun (backup_run ''r1'') backup_db) = Inr ()" by code_simp
  then have "CreateRun (backup_run ''r1'') backup_db = (fst (CreateRun (backup_run ''r1'') backup_db), Inr ())"
    by (metis prod.collapse)
  from CreateRun_roundtrip [OF this] show ?thesis by (simp add: backup_run_def)
qed

lemma find_schedule_set:
  "find_schedule did b' = Some row" if "ss_definition_id row = did"
    "db_schedule b' = (case find_schedule did b of
        Some _ \<Rightarrow> map (\<lambda>s. if ss_definition_id s = did then row else s) (db_schedule b)
      | None \<Rightarrow> db_schedule b @ [row])"
proof -
  have "find (\<lambda>s. ss_definition_id s = did) xs = Some y \<Longrightarrow>
      find (\<lambda>s. ss_definition_id s = did) (map (\<lambda>s. if ss_definition_id s = did then row else s) xs) = Some row" for xs y
    using that(1) by (induction xs) (auto split: if_splits)
  moreover have "find (\<lambda>s. ss_definition_id s = did) xs = None \<Longrightarrow>
      find (\<lambda>s. ss_definition_id s = did) (xs @ [row]) = Some row" for xs
    using that(1) by (induction xs) (auto split: if_splits)
  ultimately show ?thesis using that(2) by (auto simp: find_schedule_def split: option.splits)
qed

text \<open>Schedule state reads back as it was written, instants rounded down to microseconds
  and the zero time kept as such; writing it changes no run and no queue row.\<close>

lemma setScheduleState_roundtrip:
  assumes "setScheduleState did hash anchor lastf next b = (b', Inr ())"
  shows "ScheduleState did b' = Inr (from_micro (unix_micro anchor),
      if lastf = 0 then 0 else from_micro (unix_micro lastf), if next = 0 then 0 else from_micro (unix_micro next), hash) \<and>
    ScheduleNext did b' = Inr (if next = 0 then 0 else from_micro (unix_micro next)) \<and>
    db_runs b' = db_runs b \<and> db_queue b' = db_queue b"
proof -
  let ?row = "\<lparr>ss_definition_id = did, ss_schedule_hash = hash, ss_anchor_us = unix_micro anchor,
            ss_last_fire_us = us_or_null lastf, ss_next_fire_us = us_or_null next\<rparr>"
  have "find_schedule did b' = Some ?row"
    by (rule find_schedule_set [of _ _ _ b])
      (use assms in \<open>auto simp: setScheduleState_def Let_def split: option.splits if_splits\<close>)
  moreover have "db_runs b' = db_runs b \<and> db_queue b' = db_queue b"
    using assms by (auto simp: setScheduleState_def Let_def split: option.splits if_splits)
  ultimately show ?thesis
    by (simp add: ScheduleState_def ScheduleNext_def micro_or_zero_def us_or_null_def)
qed

lemma setScheduleState_roundtrip_example:
  "ScheduleNext 1 (fst (setScheduleState 1 ''h'' unix_epoch 0 (unix_epoch + Minute) backup_db)) = Inr (unix_epoch + Minute)"
proof -
  let ?s = "setScheduleState 1 ''h'' unix_epoch 0 (unix_epoch + Minute) backup_db"
  have "snd ?s = Inr ()" by code_simp
  then have "?s = (fst ?s, Inr ())" by (metis prod.collapse)
  from setScheduleState_roundtrip [OF this] show ?thesis
    by (simp add: unix_micro_def from_micro_def unix_epoch_def)
qed

end
