(* ===== verification/Registry_Properties.thy ===== *)
theory Registry_Properties
  imports Registry Store_Properties
begin

text \<open>
  The properties of the definition registry: consistency of definitions, revisions and alert
  references, optimistic concurrency, protection and mirroring of config-owned definitions,
  worker exhaustion records and alert observations.
\<close>

section \<open>Instances\<close>

definition no_hash :: "definition_rec \<Rightarrow> string" where
  "no_hash d = d_Command d"

definition web_definition :: definition_rec where
  "web_definition = zero_definition\<lparr>d_Name := ''web'', d_Kind := ''worker'', d_Command := ''serve''\<rparr>"

definition web_db :: db where
  "web_db = fst (CreateDefinition no_hash unix_epoch web_definition ''api'' empty_db)"

definition config_db :: db where
  "config_db = fst (SyncConfigDefinitions no_hash unix_epoch [web_definition] empty_db)"

lemma web_db_reachable: "reachable (\<lambda>b. b = empty_db) (registry_step no_hash) web_db"
proof (rule reachable_step [OF reachable_start])
  show "registry_step no_hash empty_db web_db"
    unfolding web_db_def CreateDefinition_def by (rule registry_step.put [OF prod.collapse [symmetric]])
qed simp

lemma web_db_inv: "registry_inv web_db"
  using registry.reachable_inv [OF web_db_reachable] .

lemma empty_db_registry_inv: "registry_inv empty_db"
  by (rule registry.inv_start) (rule refl)

lemma config_db_inv: "registry_inv config_db"
  unfolding config_db_def by (rule SyncConfigDefinitions_inv [OF empty_db_registry_inv prod.collapse [symmetric]])

section \<open>Consistency\<close>

text \<open>C11: in every state the registry can reach, names and identifiers of definitions are
  unique, each definition's current revision is recorded and none of its recorded revisions is
  newer, deleted definitions are disabled, and every live definition refers only to existing alert channels, each once;
  the stored channels are valid, uniquely named and at most a hundred.\<close>

theorem registry_consistent:
  assumes "reachable (\<lambda>b. b = empty_db) (registry_step Sum256) b"
  shows "registry_inv b"
  by (rule registry.reachable_inv [OF assms])

theorem registry_consistent_witness:
  "registry_inv web_db \<and> map df_name (db_definitions web_db) = [''web'']"
proof
  show "registry_inv web_db" by (rule registry_consistent [OF web_db_reachable])
qed code_simp

text \<open>Optimistic concurrency: a put to an existing registry-owned definition succeeds exactly
  when the expected revision is the current one (or none is expected) and then the revision grows by one;
  otherwise it is refused as a revision conflict and nothing changes.\<close>

lemma PutDefinition_revision:
  assumes "registry_inv b" "find_definition (d_Name d) b = Some r" "live r" "df_source r \<noteq> ''config''"
    and "valid_kind (d_Kind d)" "validateAlertReferencesTx d b = Inr ()"
  shows "if expected = 0 \<or> expected = df_revision r
     then \<exists>b' d'. PutDefinition Sum256 now d expected actor b = (b', Inr d') \<and> d_ID d' = df_definition_id r \<and>
       d_Revision d' = df_revision r + 1 \<and>
       (\<exists>r'. find_definition (d_Name d) b' = Some r' \<and> df_revision r' = df_revision r + 1)
     else PutDefinition Sum256 now d expected actor b = (b, Inl ErrRevisionConflict)"
proof -
  let ?d = "d\<lparr>d_Source := ''''\<rparr>"
  obtain spec hash where c: "Canonical Sum256 ?d = (spec, hash)" by fastforce
  have v: "validateAlertReferencesTx ?d b = Inr ()"
    using assms(6) validateAlertReferencesTx_ok [of _ b "()"] by simp
  have find: "find_definition (d_Name ?d) b = Some r" "valid_kind (d_Kind ?d)" using assms(2,5) by simp_all
  show ?thesis
  proof (cases "expected = 0 \<or> expected = df_revision r")
    case True
    from write_definition_update [OF assms(1) find, of spec hash "''''" actor "''update''" "unix_micro now"]
    obtain b' where w: "write_definition ?d spec hash '''' actor ''update'' (unix_micro now) b
        = Inr (b', df_definition_id r, df_revision r + 1)" by blast
    from write_definition_find(1) [OF assms(1) w] True v w c assms(2,3,4) show ?thesis
      by (auto simp: PutDefinition_def putDefinition_def Let_def tx_bind_def live_def)
  next
    case False
    then show ?thesis
      using v c assms(2,3,4) by (auto simp: PutDefinition_def putDefinition_def Let_def tx_bind_def live_def)
  qed
qed

lemma PutDefinition_revision_example:
  "PutDefinition no_hash unix_epoch web_definition 7 ''api'' web_db = (web_db, Inl ErrRevisionConflict)"
proof -
  have "map_option (\<lambda>r. (df_revision r, df_source r, df_deleted_us r)) (find_definition ''web'' web_db) = Some (1, '''', None)"
    by code_simp
  then obtain r where r: "find_definition ''web'' web_db = Some r" "df_revision r = 1" "df_source r = ''''" "live r"
    by (auto simp: live_def)
  have "validateAlertReferencesTx web_definition web_db = Inr ()" by code_simp
  then show ?thesis
    using PutDefinition_revision [OF web_db_inv, of web_definition r 7] r
    by (simp add: web_definition_def valid_kind_def)
qed

lemma import_one_other:
  assumes "registry_inv b" "import_one Sum256 now actor x b = Inr b'" "find_definition n b = Some r" "df_source r = ''config''"
  shows "registry_inv b' \<and> find_definition n b' = Some r"
proof -
  obtain spec hash where c: "Canonical Sum256 (x\<lparr>d_Source := ''''\<rparr>) = (spec, hash)" by fastforce
  have ne: "n \<noteq> d_Name x" using assms(2-4) by (auto simp: import_one_def tx_bind_Inr Let_def c)
  obtain did rv where w: "write_definition (x\<lparr>d_Source := ''''\<rparr>) spec hash '''' actor ''import'' now b = Inr (b', did, rv)"
    using assms(2) by (auto simp: import_one_def tx_bind_Inr Let_def c split: if_splits)
  show ?thesis using write_definition_find(2) [OF assms(1) w, of n] ne import_one_inv [OF assms(1,2)] assms(3) by simp
qed

lemma import_refused:
  assumes "d \<in> set ds" "df_source r = ''config''"
  shows "registry_inv b \<Longrightarrow> find_definition (d_Name d) b = Some r \<Longrightarrow> \<exists>e. tx_fold (import_one Sum256 now actor) ds b = Inl e"
  using assms(1)
proof (induction ds arbitrary: b)
  case (Cons x ds)
  show ?case
  proof (cases "import_one Sum256 now actor x b")
    case (Inr b1)
    note o = import_one_other [OF Cons.prems(1) Inr Cons.prems(2) assms(2)]
    have "x \<noteq> d" using Inr Cons.prems(2) assms(2) by (auto simp: import_one_def tx_bind_Inr Let_def split: prod.splits)
    then show ?thesis using Cons.IH [of b1] o Cons.prems(3) Inr by (auto simp: tx_bind_def)
  qed (auto simp: tx_bind_def)
qed simp

text \<open>C12: definitions owned by the configuration file cannot be changed through the registry:
  a put, an import of any list of definitions that contains such a name, a deletion or an enable/disable of such a name
  returns an error and leaves the database as it was; the error is the read-only one when the definition is live, except
  that a put or an import may find another error first (an alert channel that does not exist, another definition of the
  import).\<close>

theorem config_owned_protected:
  assumes "registry_inv b" "find_definition (d_Name d) b = Some r" "df_source r = ''config''"
  shows "(\<exists>e. putDefinition Sum256 now d expected actor createOnly b = (b, Inl e)) \<and>
    (validateAlertReferencesTx d b = Inr () \<longrightarrow> putDefinition Sum256 now d expected actor createOnly b = (b, Inl ErrReadOnly)) \<and>
    (d \<in> set ds \<longrightarrow> (\<exists>e. ImportDefinitions Sum256 now ds actor b = (b, Inl e))) \<and>
    DeleteDefinition now (d_Name d) actor b = (b, Inl (if live r then ErrReadOnly else ErrNoRows)) \<and>
    SetEnabled now (d_Name d) en b = (b, Inl (if live r then ErrReadOnly else ErrNoRows))"
proof -
  have find: "find_live (d_Name d) b = (if live r then Some r else None)"
  proof (cases "find_live (d_Name d) b")
    case None
    then show ?thesis using find_definition_Some [OF assms(2)] by (auto simp: find_live_def find_None_iff)
  next
    case (Some x)
    then show ?thesis
      using find_live_Some [OF Some] find_definition_unique [OF assms(1), of x] assms(2) by auto
  qed
  have v: "validateAlertReferencesTx (d\<lparr>d_Source := ''''\<rparr>) b = validateAlertReferencesTx d b" by (simp add: validateAlertReferencesTx_def)
  have put: "putDefinition Sum256 now d expected actor createOnly b =
      (b, Inl (case validateAlertReferencesTx d b of Inl e \<Rightarrow> e | Inr _ \<Rightarrow> ErrReadOnly))"
    using assms(2,3) v by (cases "validateAlertReferencesTx d b") (auto simp: putDefinition_def Let_def tx_bind_def transaction_def split: prod.split)
  have "\<exists>e. ImportDefinitions Sum256 now ds actor b = (b, Inl e)" if "d \<in> set ds"
    using import_refused [OF that assms(3,1,2), of Sum256 "unix_micro now" actor]
    by (auto simp: ImportDefinitions_def tx_bind_def transaction_def)
  then show ?thesis using put find assms(3) by (auto simp: DeleteDefinition_def SetEnabled_def transaction_def)
qed

theorem config_owned_protected_witness:
  "SetEnabled unix_epoch ''web'' False config_db = (config_db, Inl ErrReadOnly)"
proof -
  have "map_option (\<lambda>r. (df_source r, df_deleted_us r)) (find_definition ''web'' config_db) = Some (''config'', None)" by code_simp
  then obtain r where "find_definition ''web'' config_db = Some r" "df_source r = ''config''" "live r" by (auto simp: live_def)
  then show ?thesis
    using config_owned_protected [OF config_db_inv, of web_definition r] by (simp add: web_definition_def)
qed

text \<open>C13: synchronising with the configuration file makes the config-owned live definitions exactly
  those of the file: their names are the names of the file, and each has the hash of the file's document and either is the row
  that had that hash already or carries the document, kind and enabled flag of the file. It leaves every registry-owned definition untouched, and is idempotent: a second
  synchronisation with the same file changes nothing (no new revision, no audit entry).\<close>

theorem SyncConfigDefinitions_mirror:
  assumes inv: "registry_inv b" and dist: "distinct (map d_Name defs)"
    and sync: "SyncConfigDefinitions Sum256 now defs b = (b', Inr ())"
  shows "df_name ` {r \<in> set (db_definitions b'). df_source r = ''config'' \<and> live r} = set (map d_Name defs) \<and>
    (\<forall>d \<in> set defs. synced Sum256 b b' d) \<and>
    {r \<in> set (db_definitions b). df_source r \<noteq> ''config''} \<subseteq> set (db_definitions b') \<and>
    SyncConfigDefinitions Sum256 now' defs b' = (b', Inr ())"
proof -
  define us where "us = unix_micro now"
  from sync obtain b1 where fold: "tx_fold (sync_one Sum256 us) defs b = Inr b1"
    and b': "b' = foldl (remove_config us) b1 (filter (\<lambda>name. name \<notin> set (map d_Name defs))
        (map df_name (filter (\<lambda>r. df_source r = ''config'' \<and> live r) (db_definitions b1))))"
    by (auto simp: SyncConfigDefinitions_def us_def Let_def transaction_def tx_bind_Inr split: sum.splits)
  note all = sync_all_effect [OF inv dist fold]
  define names where "names = filter (\<lambda>name. name \<notin> set (map d_Name defs))
        (map df_name (filter (\<lambda>r. df_source r = ''config'' \<and> live r) (db_definitions b1)))"
  define gone where "gone = (\<lambda>r :: definition_row. df_name r \<in> set names)"
  define g where "g = (\<lambda>r :: definition_row. if gone r
      then r\<lparr>df_deleted_us := Some us, df_enabled := False, df_updated_us := us\<rparr> else r)"
  have defs': "db_definitions b' = map g (db_definitions b1)" "db_channels b' = db_channels b1"
    unfolding b' g_def gone_def names_def [symmetric] using remove_all_definitions [of us b1 names] by simp_all
  have gone_iff: "gone r \<longleftrightarrow> (\<exists>x. df_name x = df_name r \<and> x \<in> set (db_definitions b1) \<and> df_source x = ''config''
      \<and> live x \<and> df_name x \<notin> d_Name ` set defs)" for r
    by (auto simp: gone_def names_def image_iff)
  have gone_row: "gone r \<Longrightarrow> r \<in> set (db_definitions b1) \<Longrightarrow> df_source r = ''config''" for r
  proof -
    assume "gone r" and r: "r \<in> set (db_definitions b1)"
    then obtain x where x: "df_name x = df_name r" "x \<in> set (db_definitions b1)" "df_source x = ''config''"
      unfolding gone_iff by blast
    have inv1: "registry_inv b1" using all by blast
    have "x = r" using find_definition_unique [OF inv1 x(2)] find_definition_unique [OF inv1 r] x(1)
      by (metis option.inject)
    then show "df_source r = ''config''" using x(3) by simp
  qed
  have find': "find_definition n b' = map_option g (find_definition n b1)" for n
    by (rule find_definition_map [OF _ defs'(1)]) (simp add: g_def)
  have mir: "mirrored Sum256 b' d" "synced Sum256 b b' d" if "d \<in> set defs" for d
  proof -
    from all that obtain r where r: "find_definition (d_Name d) b1 = Some r" by (auto simp: mirrored_def)
    then have "df_name r = d_Name d" using find_definition_Some by blast
    then have "\<not> gone r" using that unfolding gone_iff by force
    then have "find_definition (d_Name d) b' = find_definition (d_Name d) b1" using r by (simp add: find' g_def)
    then show "mirrored Sum256 b' d" "synced Sum256 b b' d"
      using mirrored_cong [of d b' b1] synced_cong [of d b b b' b1] defs'(2) all that by simp_all
  qed
  have names: "df_name r \<in> d_Name ` set defs" if r: "r \<in> set (db_definitions b')" "df_source r = ''config''" "live r" for r
  proof (rule ccontr)
    assume no: "df_name r \<notin> d_Name ` set defs"
    from r(1) obtain x where x: "x \<in> set (db_definitions b1)" "r = g x" by (auto simp: defs'(1))
    then have "\<not> gone x" using r(3) by (auto simp: g_def live_def split: if_splits)
    moreover from this have "r = x" using x(2) by (simp add: g_def)
    ultimately show False using x(1) r no unfolding gone_iff by blast
  qed
  have one: "sync_one Sum256 t d b' = Inr b'" if "d \<in> set defs" for t d
    using mir(1) [OF that] by (auto simp: mirrored_def sync_one_def tx_bind_def Let_def live_def split: prod.split)
  have "tx_fold (sync_one Sum256 t) ds b' = Inr b'" if "set ds \<subseteq> set defs" for t ds
    using that by (induction ds) (auto simp: one tx_bind_def)
  moreover have none: "filter (\<lambda>name. name \<notin> set (map d_Name defs))
      (map df_name (filter (\<lambda>r. df_source r = ''config'' \<and> live r) (db_definitions b'))) = []"
    using names by (auto simp: filter_empty_conv)
  ultimately have "SyncConfigDefinitions Sum256 now' defs b' = (b', Inr ())"
    unfolding SyncConfigDefinitions_def by (simp add: tx_bind_def none)
  moreover have "d_Name d \<in> df_name ` {r \<in> set (db_definitions b'). df_source r = ''config'' \<and> live r}" if "d \<in> set defs" for d
    using mir(1) [OF that] find_definition_Some [of "d_Name d" b'] by (force simp: mirrored_def)
  moreover have "r \<in> set (db_definitions b')" if "r \<in> set (db_definitions b)" "df_source r \<noteq> ''config''" for r
  proof -
    have "find_definition (df_name r) b1 = Some r"
      using all find_definition_unique [OF inv that(1)] that(2) by blast
    then have m: "r \<in> set (db_definitions b1)" using find_definition_Some by blast
    then have "g r = r" using gone_row that(2) by (auto simp: g_def)
    then show ?thesis using m imageI [of r "set (db_definitions b1)" g] by (simp add: defs'(1))
  qed
  ultimately show ?thesis using names mir(2) by auto
qed

theorem SyncConfigDefinitions_mirror_witness:
  "SyncConfigDefinitions no_hash (unix_epoch + Hour) [web_definition] config_db = (config_db, Inr ())"
proof -
  let ?s = "SyncConfigDefinitions no_hash unix_epoch [web_definition] empty_db"
  have "snd ?s = Inr ()" by code_simp
  then have "?s = (config_db, Inr ())" unfolding config_db_def by (metis prod.collapse)
  from SyncConfigDefinitions_mirror [OF empty_db_registry_inv _ this] show ?thesis by simp
qed

section \<open>Deleting and disabling\<close>

text \<open>Deleting or disabling a definition takes its work out of the queue in the same
  transaction: no queue row of it remains, each of its queued runs is skipped, and the run tables stay consistent.\<close>

lemma removal_drops_queue:
  assumes "queue_inv b" "find_live name b = Some r" "df_source r \<noteq> ''config''"
    and "DeleteDefinition now name actor b = (b1, Inr ())" "SetEnabled now name False b = (b2, Inr ())"
  shows "queue_per_job (df_definition_id r) b1 = 0 \<and> queue_per_job (df_definition_id r) b2 = 0 \<and>
    queue_inv b1 \<and> queue_inv b2 \<and>
    (\<forall>q \<in> set (db_queue b). q_definition_id q = df_definition_id r \<longrightarrow>
       status_of (q_run_id q) b1 = Some ''skipped'' \<and> status_of (q_run_id q) b2 = Some ''skipped'')"
proof -
  have skip: "status_of (q_run_id q) (dropDefinitionQueued did reason t c) = Some ''skipped''"
    if "queue_inv c" "q \<in> set (db_queue c)" "q_definition_id q = did" for c q did reason t
  proof -
    from that(1,2) obtain x where x: "x \<in> set (db_runs c)" "rr_run_id x = q_run_id q" "rr_status x = ''queued''"
      by (auto simp: queue_inv_def)
    then have "find_run (q_run_id q) c = Some x" using that(1) find_run_unique by (force simp: queue_inv_def)
    then show ?thesis
      using that x by (auto simp: dropDefinitionQueued_def status_of_def find_run_update
          find_run_cong [of "delete_queue Q b" b for Q b] end_row_def image_iff)
  qed
  have drop: "queue_per_job did (dropDefinitionQueued did reason t c) = 0" for did reason t c
    by (simp add: queue_per_job_def dropDefinitionQueued_def)
  from assms(2,3,4) obtain c1 where c1: "b1 = dropDefinitionQueued (df_definition_id r) ''definition_removed''
      (from_micro (unix_micro now)) c1" "db_runs c1 = db_runs b" "db_queue c1 = db_queue b" "db_queue_seq c1 = db_queue_seq b"
    by (auto simp: DeleteDefinition_def Let_def)
  from assms(2,3,5) obtain c2 where c2: "b2 = dropDefinitionQueued (df_definition_id r) ''definition_disabled''
      (from_micro (unix_micro now)) c2" "db_runs c2 = db_runs b" "db_queue c2 = db_queue b" "db_queue_seq c2 = db_queue_seq b"
    by (auto simp: SetEnabled_def Let_def transaction_def tx_bind_Inr split: sum.splits dest!: insert_revision_InrD)
  have "queue_inv c1" "queue_inv c2" using assms(1) c1 c2 queue_inv_cong [of c1 b] queue_inv_cong [of c2 b] by auto
  then show ?thesis
    unfolding c1(1) c2(1) using drop skip dropDefinitionQueued_inv c1(3) c2(3) by metis
qed

definition web_queued :: db where
  "web_queued = fst (EnqueueRun unix_epoch unix_epoch ((backup_run ''r1'')\<lparr>r_DefinitionID := 1\<rparr>) None small_limits False web_db)"

lemma removal_drops_queue_example:
  "status_of ''r1'' (fst (DeleteDefinition unix_epoch ''web'' ''api'' web_queued)) = Some ''skipped''"
proof -
  have "db_queue web_db = []" "db_runs web_db = []" "db_queue_seq web_db = 0" by code_simp+
  then have "queue_inv web_db" by (simp add: queue_inv_def queue_ids_def run_ids_def)
  then have inv: "queue_inv web_queued" unfolding web_queued_def by (rule EnqueueRun_inv [OF _ prod.collapse [symmetric]])
  let ?d = "DeleteDefinition unix_epoch ''web'' ''api'' web_queued" and ?e = "SetEnabled unix_epoch ''web'' False web_queued"
  have ok: "snd ?d = Inr ()" "snd ?e = Inr ()" by code_simp+
  have "map_option (\<lambda>r. (df_definition_id r, df_source r)) (find_live ''web'' web_queued) = Some (1, '''')" by code_simp
  then obtain r where r: "find_live ''web'' web_queued = Some r" "df_definition_id r = 1" "df_source r \<noteq> ''config''" by auto
  have "map q_run_id (db_queue web_queued) = [''r1'']" "map q_definition_id (db_queue web_queued) = [1]" by code_simp+
  then obtain q where "q \<in> set (db_queue web_queued)" "q_run_id q = ''r1''" "q_definition_id q = 1" by (auto simp: Cons_eq_map_conv)
  then show ?thesis
    using removal_drops_queue [OF inv r(1,3), of unix_epoch "''api''" "fst ?d" "fst ?e"] ok r(2)
      prod.collapse [of ?d] prod.collapse [of ?e] by metis
qed

section \<open>Worker exhaustion\<close>

lemma meta_put_same: "map_of (meta_put k v m) k = Some v"
proof (cases "k \<in> fst ` set m")
  case True
  have "k \<in> fst ` set m \<Longrightarrow> map_of (map (\<lambda>p. if fst p = k then (k, v) else p) m) k = Some v" by (induction m) auto
  then show ?thesis using True by (simp add: meta_put_def)
next
  case False
  then have "map_of m k = None" by (simp add: map_of_eq_None_iff)
  then show ?thesis using False by (simp add: meta_put_def map_add_def)
qed

lemma exhaustion_rows_mem:
  "exhaustion_rows rows = Inr result \<Longrightarrow> (name, state) \<in> set result \<longleftrightarrow>
   (\<exists>r. (r, MetaExhaustion state) \<in> set rows \<and> df_name r = name \<and> we_Revision state = df_revision r)"
  by (induction rows arbitrary: result rule: exhaustion_rows.induct)
    (auto simp: tx_bind_Inr split: meta_value.splits if_splits)

text \<open>An exhaustion record is reported exactly for the revision it was saved under: what
  \<^verbatim>\<open>WorkerExhaustions\<close> reports is the stored record of a live worker whose current revision is
  the record's, a record saved for the current revision of a live worker is reported, and saving one
  under a revision that is not the current one of a live definition is refused.\<close>

lemma exhaustion_tracks_revision:
  "(\<forall>result. WorkerExhaustions b = Inr result \<longrightarrow> (name, state) \<in> set result \<longrightarrow>
     (\<exists>r \<in> set (db_definitions b). df_name r = name \<and> live r \<and> df_kind r = KindWorker \<and> df_revision r = we_Revision state \<and>
        map_of (db_meta b) (worker_key (df_definition_id r)) = Some (MetaExhaustion state))) \<and>
   (\<forall>r result b'. r \<in> set (db_definitions b) \<longrightarrow> live r \<longrightarrow> df_kind r = KindWorker \<longrightarrow>
     df_definition_id r = d_ID d \<longrightarrow> df_revision r = d_Revision d \<longrightarrow> we_Revision state = d_Revision d \<longrightarrow>
     SaveWorkerExhaustion d state b = (b', Inr ()) \<longrightarrow> WorkerExhaustions b' = Inr result \<longrightarrow>
     (df_name r, state) \<in> set result) \<and>
   ((\<forall>r \<in> set (db_definitions b). df_definition_id r = d_ID d \<longrightarrow> df_revision r \<noteq> d_Revision d \<or> \<not> live r) \<longrightarrow>
     SaveWorkerExhaustion d state b = (b, Inl ErrRevisionConflict))"
proof (intro conjI allI impI)
  fix result assume w: "WorkerExhaustions b = Inr result" and m: "(name, state) \<in> set result"
  from exhaustion_rows_mem [OF w [unfolded WorkerExhaustions_def]] m
  show "\<exists>r \<in> set (db_definitions b). df_name r = name \<and> live r \<and> df_kind r = KindWorker \<and> df_revision r = we_Revision state \<and>
        map_of (db_meta b) (worker_key (df_definition_id r)) = Some (MetaExhaustion state)"
    by (auto simp: map_filter_def)
next
  fix r result b' assume r: "r \<in> set (db_definitions b)" "live r" "df_kind r = KindWorker"
    "df_definition_id r = d_ID d" "df_revision r = d_Revision d" "we_Revision state = d_Revision d"
    and s: "SaveWorkerExhaustion d state b = (b', Inr ())" and w: "WorkerExhaustions b' = Inr result"
  from s have b': "b' = b\<lparr>db_meta := meta_put (worker_key (d_ID d)) (MetaExhaustion state) (db_meta b)\<rparr>"
    by (auto simp: SaveWorkerExhaustion_def split: if_splits)
  have "(r, MetaExhaustion state) \<in> set (List.map_filter
      (\<lambda>r. map_option (\<lambda>v. (r, v)) (map_of (db_meta b') (worker_key (df_definition_id r))))
        (filter (\<lambda>r. df_kind r = KindWorker \<and> live r) (db_definitions b')))"
    using r by (force simp: map_filter_def b' meta_put_same)
  then show "(df_name r, state) \<in> set result"
    using exhaustion_rows_mem [OF w [unfolded WorkerExhaustions_def]] r by auto
next
  assume "\<forall>r \<in> set (db_definitions b). df_definition_id r = d_ID d \<longrightarrow> df_revision r \<noteq> d_Revision d \<or> \<not> live r"
  then show "SaveWorkerExhaustion d state b = (b, Inl ErrRevisionConflict)"
    by (auto simp: SaveWorkerExhaustion_def list_ex_iff)
qed

definition gave_up :: worker_exhaustion where
  "gave_up = \<lparr>we_Reason = ''restart_exhausted'', we_LastRunID = ''r1'', we_Attempts = 3, we_Revision = 1, we_At = unix_epoch\<rparr>"

lemma exhaustion_tracks_revision_example:
  "SaveWorkerExhaustion (web_definition\<lparr>d_ID := 1, d_Revision := 5\<rparr>) gave_up web_db = (web_db, Inl ErrRevisionConflict) \<and>
   map_sum id (map fst) (WorkerExhaustions (fst (SaveWorkerExhaustion (web_definition\<lparr>d_ID := 1, d_Revision := 1\<rparr>) gave_up web_db)))
     = Inr [''web'']"
proof
  have "map df_revision (db_definitions web_db) = [1]" by code_simp
  then have "\<forall>r \<in> set (db_definitions web_db). df_revision r \<noteq> 5" by (auto simp: Cons_eq_map_conv)
  then show "SaveWorkerExhaustion (web_definition\<lparr>d_ID := 1, d_Revision := 5\<rparr>) gave_up web_db = (web_db, Inl ErrRevisionConflict)"
    using exhaustion_tracks_revision [of web_db _ gave_up "web_definition\<lparr>d_ID := 1, d_Revision := 5\<rparr>"] by simp
qed code_simp

section \<open>Alert observations\<close>

lemma recordAlert_newer:
  assumes "recordAlert rid channel status attempts err us b = Inr b'" "a \<in> set (db_deliveries b)"
  shows "\<exists>a' \<in> set (db_deliveries b'). al_run_id a' = al_run_id a \<and> al_channel a' = al_channel a \<and>
    (a' = a \<or> al_updated_us a \<le> al_updated_us a')"
proof -
  let ?row = "\<lparr>al_run_id = rid, al_channel = channel, al_status = status, al_attempts = attempts,
            al_last_error = err, al_updated_us = us\<rparr>"
  let ?g = "\<lambda>a. if al_run_id a = rid \<and> al_channel a = channel \<and> us \<ge> al_updated_us a then ?row else a"
  from assms(1) consider "db_deliveries b' = map ?g (db_deliveries b)" | "db_deliveries b' = db_deliveries b @ [?row]"
    by (auto simp: recordAlert_def Let_def split: if_splits)
  then show ?thesis
  proof cases
    case 1
    have "?g a \<in> set (db_deliveries b')" using imageI [OF assms(2), of ?g] unfolding 1 by (simp only: set_map)
    then show ?thesis by (rule bexI [rotated]) simp
  qed (use assms(2) in auto)
qed

lemma record_updates_newer:
  "tx_fold (record_update now) us b = Inr b' \<Longrightarrow> a \<in> set (db_deliveries b) \<Longrightarrow>
   \<exists>a' \<in> set (db_deliveries b'). al_run_id a' = al_run_id a \<and> al_channel a' = al_channel a \<and> al_updated_us a \<le> al_updated_us a'"
proof (induction us arbitrary: b a)
  case (Cons u us)
  then obtain b1 where b1: "record_update now u b = Inr b1" "tx_fold (record_update now) us b1 = Inr b'"
    by (auto simp: tx_bind_Inr)
  from recordAlert_newer [OF b1(1) [unfolded record_update_def] Cons.prems(2)] obtain a1 where
    a1: "a1 \<in> set (db_deliveries b1)" "al_run_id a1 = al_run_id a" "al_channel a1 = al_channel a" "al_updated_us a \<le> al_updated_us a1"
    by auto
  from Cons.IH [OF b1(2) a1(1)] a1 show ?case by force
qed auto

text \<open>Alert observations only move forward in time: after any batch of observations, for every
  delivery recorded before there is a record of the same run and channel that is at least as recent; a batch for runs that may
  not be stored yet writes nothing for the missing ones and returns exactly those, in order.\<close>

lemma alert_observations_monotone:
  assumes "RecordAlertsForStoredRuns now updates b = (b', Inr missing)"
  shows "missing = filter (\<lambda>u. u_RunID u \<notin> set (run_ids b)) updates \<and>
    (\<forall>a \<in> set (db_deliveries b). \<exists>a' \<in> set (db_deliveries b'). al_run_id a' = al_run_id a \<and>
       al_channel a' = al_channel a \<and> al_updated_us a \<le> al_updated_us a')"
proof (cases "updates = []")
  case True
  then show ?thesis using assms by (auto simp: RecordAlertsForStoredRuns_def)
next
  case False
  with assms have m: "missing = filter (\<lambda>u. u_RunID u \<notin> set (run_ids b)) updates"
    and f: "tx_fold (record_update (unix_micro now)) (filter (\<lambda>u. u_RunID u \<in> set (run_ids b)) updates) b = Inr b'"
    by (auto simp: RecordAlertsForStoredRuns_def Let_def transaction_def tx_bind_Inr split: sum.splits)
  show ?thesis using m record_updates_newer [OF f] by blast
qed

definition sent :: "string \<Rightarrow> alert_update" where
  "sent rid = \<lparr>u_RunID = rid, u_Channel = ''ops'', u_Status = ''sent'', u_Attempts = 1, u_LastError = '''', u_At = 0\<rparr>"

lemma alert_observations_monotone_example:
  "\<exists>b'. RecordAlertsForStoredRuns unix_epoch [sent ''r1'', sent ''zz''] one_queued = (b', Inr [sent ''zz''])"
proof -
  let ?r = "RecordAlertsForStoredRuns unix_epoch [sent ''r1'', sent ''zz''] one_queued"
  have "map_sum id (map u_RunID) (snd ?r) = Inr [''zz'']" by code_simp
  then obtain missing where "?r = (fst ?r, Inr missing)" by (cases "snd ?r") (auto simp: prod_eq_iff)
  moreover have "run_ids one_queued = [''r1'']" by code_simp
  ultimately have "missing = [sent ''zz'']" using alert_observations_monotone by (force simp: sent_def)
  then show ?thesis using \<open>?r = (fst ?r, Inr missing)\<close> by metis
qed

end
