(* ===== verification/Retry_Heap.thy ===== *)
theory Retry_Heap
  imports Prelude "HOL-Library.Multiset"
begin

text \<open>
  The binary heap behind the retry scheduler (\<^verbatim>\<open>src/internal/executor/retries.go\<close>):
  \<^verbatim>\<open>retryHeap\<close> with \<^verbatim>\<open>heap.Push\<close> and \<^verbatim>\<open>heap.Pop\<close> of Go's
  \<^verbatim>\<open>container/heap\<close>, which sift an element up or down an array.

  The interface \<open>priority_queue\<close> states what a client may rely on; the loop that takes the due
  elements off a queue (\<open>take_due\<close>) is proved correct against the interface, and the array heap
  is shown to implement it.
\<close>

section \<open>The interface\<close>

text \<open>Take elements while the first one is due, at most \<open>n\<close> of them.\<close>

primrec take_due :: "('q \<Rightarrow> bool) \<Rightarrow> ('q \<Rightarrow> 'a) \<Rightarrow> ('q \<Rightarrow> 'a \<times> 'q) \<Rightarrow> ('a \<Rightarrow> bool) \<Rightarrow> nat \<Rightarrow> 'q \<Rightarrow> 'a list \<times> 'q" where
  "take_due empt peek pop due 0 q = ([], q)"
| "take_due empt peek pop due (Suc n) q =
     (if \<not> empt q \<and> due (peek q)
      then case pop q of (x, q1) \<Rightarrow> case take_due empt peek pop due n q1 of (xs, q2) \<Rightarrow> (x # xs, q2)
      else ([], q))"

locale priority_queue =
  fixes invar :: "'q \<Rightarrow> bool" and elems :: "'q \<Rightarrow> 'a multiset" and key :: "'a \<Rightarrow> 'k :: linorder"
    and empt :: "'q \<Rightarrow> bool" and peek :: "'q \<Rightarrow> 'a" and push :: "'a \<Rightarrow> 'q \<Rightarrow> 'q" and pop :: "'q \<Rightarrow> 'a \<times> 'q"
  assumes empt_iff: "invar q \<Longrightarrow> empt q \<longleftrightarrow> elems q = {#}"
    and peek_min: "invar q \<Longrightarrow> elems q \<noteq> {#} \<Longrightarrow> peek q \<in># elems q \<and> (\<forall>x \<in># elems q. key (peek q) \<le> key x)"
    and push_ok: "invar q \<Longrightarrow> invar (push x q) \<and> elems (push x q) = add_mset x (elems q)"
    and pop_ok: "invar q \<Longrightarrow> elems q \<noteq> {#} \<Longrightarrow> pop q = (x, q') \<Longrightarrow>
      x = peek q \<and> invar q' \<and> elems q = add_mset x (elems q')"
begin

lemma take_due_spec:
  assumes "\<And>x. due x \<longleftrightarrow> key x \<le> now"
  shows "invar q \<Longrightarrow> take_due empt peek pop due n q = (xs, q') \<Longrightarrow>
    invar q' \<and> elems q = mset xs + elems q' \<and> length xs \<le> n \<and> sorted (map key xs) \<and>
    (\<forall>x \<in> set xs. key x \<le> now \<and> (\<forall>y \<in># elems q'. key x \<le> key y)) \<and>
    (length xs < n \<longrightarrow> (\<forall>y \<in># elems q'. now < key y))"
proof (induction n arbitrary: q xs)
  case 0
  then show ?case by simp
next
  case (Suc n)
  show ?case
  proof (cases "\<not> empt q \<and> due (peek q)")
    case False
    then have res: "xs = []" "q' = q" using Suc.prems(2) by auto
    have "now < key y" if "y \<in># elems q" for y
      using False empt_iff [OF Suc.prems(1)] peek_min [OF Suc.prems(1)] that assms by force
    then show ?thesis using res Suc.prems(1) by simp
  next
    case True
    obtain x q1 where p: "pop q = (x, q1)" by (cases "pop q")
    obtain ys where t: "take_due empt peek pop due n q1 = (ys, q')" "xs = x # ys"
      using Suc.prems(2) True p by (auto split: prod.splits)
    have ne: "elems q \<noteq> {#}" using True empt_iff [OF Suc.prems(1)] by simp
    note pop1 = pop_ok [OF Suc.prems(1) ne p]
    then have inv1: "invar q1" by blast
    note IH = Suc.IH [OF inv1 t(1)]
    have least: "\<forall>y \<in># elems q. key x \<le> key y" using peek_min [OF Suc.prems(1) ne] pop1 by simp
    have "elems q = mset xs + elems q'" using pop1 IH t(2) by simp
    moreover have "key x \<le> now" using True pop1 assms by simp
    ultimately show ?thesis using IH least t(2) by auto
  qed
qed

end

section \<open>The array heap\<close>

definition heap_swap :: "'a list \<Rightarrow> nat \<Rightarrow> nat \<Rightarrow> 'a list" where
  "heap_swap xs i j = xs[i := xs ! j, j := xs ! i]"

definition heap_parent :: "nat \<Rightarrow> nat" where
  "heap_parent k = (k - 1) div 2"

lemma heap_parent_less: "0 < k \<Longrightarrow> heap_parent k < k"
  by (simp add: heap_parent_def)

lemma heap_parent_child [simp]: "heap_parent (Suc (2 * i)) = i" "heap_parent (Suc (Suc (2 * i))) = i"
  by (simp_all add: heap_parent_def)

lemma child_cases: "0 < k \<Longrightarrow> heap_parent k = i \<Longrightarrow> k = 2 * i + 1 \<or> k = 2 * i + 2"
  unfolding heap_parent_def by presburger

function heap_up :: "('a \<Rightarrow> 'k :: linorder) \<Rightarrow> 'a list \<Rightarrow> nat \<Rightarrow> 'a list" where
  "heap_up key xs j =
     (let i = heap_parent j
      in if j = 0 \<or> \<not> key (xs ! j) < key (xs ! i) then xs else heap_up key (heap_swap xs i j) i)"
  by pat_completeness auto
termination
  by (relation "measure (\<lambda>(key, xs, j). j)") (auto intro: heap_parent_less)

definition least_child :: "('a \<Rightarrow> 'k :: linorder) \<Rightarrow> 'a list \<Rightarrow> nat \<Rightarrow> nat \<Rightarrow> nat" where
  "least_child key xs i n =
     (let j1 = 2 * i + 1
      in if j1 + 1 < n \<and> key (xs ! (j1 + 1)) < key (xs ! j1) then j1 + 1 else j1)"

lemma least_child_greater: "i < least_child key xs i n"
  by (simp add: least_child_def Let_def)

function heap_down :: "('a \<Rightarrow> 'k :: linorder) \<Rightarrow> 'a list \<Rightarrow> nat \<Rightarrow> nat \<Rightarrow> 'a list" where
  "heap_down key xs i n =
     (if 2 * i + 1 \<ge> n then xs
      else let j = least_child key xs i n
           in if \<not> key (xs ! j) < key (xs ! i) then xs else heap_down key (heap_swap xs i j) j n)"
  by pat_completeness auto
termination
  by (relation "measure (\<lambda>(key, xs, i, n). n - i)") (auto intro: diff_less_mono2 least_child_greater)

declare heap_up.simps [simp del] heap_down.simps [simp del]

definition heap_push :: "('a \<Rightarrow> 'k :: linorder) \<Rightarrow> 'a \<Rightarrow> 'a list \<Rightarrow> 'a list" where
  "heap_push key x xs = heap_up key (xs @ [x]) (length xs)"

definition heap_pop :: "('a \<Rightarrow> 'k :: linorder) \<Rightarrow> 'a list \<Rightarrow> 'a \<times> 'a list" where
  "heap_pop key xs =
     (let n = length xs - 1; ys = heap_down key (heap_swap xs 0 n) 0 n in (ys ! n, take n ys))"

text \<open>The heap order of the first \<open>n\<close> elements.\<close>

definition heap_upto :: "('a \<Rightarrow> 'k :: linorder) \<Rightarrow> 'a list \<Rightarrow> nat \<Rightarrow> bool" where
  "heap_upto key xs n \<longleftrightarrow> (\<forall>k < n. 0 < k \<longrightarrow> key (xs ! heap_parent k) \<le> key (xs ! k))"

definition is_heap :: "('a \<Rightarrow> 'k :: linorder) \<Rightarrow> 'a list \<Rightarrow> bool" where
  "is_heap key xs \<longleftrightarrow> heap_upto key xs (length xs)"

lemma length_swap [simp]: "length (heap_swap xs i j) = length xs"
  by (simp add: heap_swap_def)

lemma mset_swap_heap: "i < length xs \<Longrightarrow> j < length xs \<Longrightarrow> mset (heap_swap xs i j) = mset xs"
  unfolding heap_swap_def by (rule mset_swap)

lemma nth_swap:
  "i < length xs \<Longrightarrow> j < length xs \<Longrightarrow> heap_swap xs i j ! k = (if k = j then xs ! i else if k = i then xs ! j else xs ! k)"
  by (simp add: heap_swap_def nth_list_update)

section \<open>Sifting up\<close>

text \<open>The order holds except between \<open>j\<close> and its parent, and the children of \<open>j\<close> are not
  smaller than that parent.\<close>

definition up_inv :: "('a \<Rightarrow> 'k :: linorder) \<Rightarrow> 'a list \<Rightarrow> nat \<Rightarrow> bool" where
  "up_inv key xs j \<longleftrightarrow> j < length xs \<and>
     (\<forall>k < length xs. 0 < k \<longrightarrow> k \<noteq> j \<longrightarrow> key (xs ! heap_parent k) \<le> key (xs ! k)) \<and>
     (\<forall>c < length xs. 0 < c \<longrightarrow> heap_parent c = j \<longrightarrow> 0 < j \<longrightarrow> key (xs ! heap_parent j) \<le> key (xs ! c))"

lemma up_inv_step:
  assumes inv: "up_inv key xs j" and j: "0 < j" and less: "key (xs ! j) < key (xs ! heap_parent j)"
  shows "up_inv key (heap_swap xs (heap_parent j) j) (heap_parent j)"
proof -
  let ?i = "heap_parent j" and ?ys = "heap_swap xs (heap_parent j) j"
  have len: "j < length xs" "?i < j" "?i < length xs" using inv heap_parent_less [OF j] by (auto simp: up_inv_def)
  note nth = nth_swap [OF len(3,1)]
  have ord: "key (xs ! heap_parent k) \<le> key (xs ! k)" if "k < length xs" "0 < k" "k \<noteq> j" for k
    using inv that by (simp add: up_inv_def)
  have child: "key (xs ! ?i) \<le> key (xs ! c)" if "c < length xs" "0 < c" "heap_parent c = j" for c
    using inv that j by (simp add: up_inv_def)
  have "key (?ys ! heap_parent k) \<le> key (?ys ! k)" if k: "k < length xs" "0 < k" "k \<noteq> ?i" for k
  proof (cases "k = j")
    case True
    then show ?thesis using less len(2) by (simp add: nth less_imp_le)
  next
    case False
    consider "heap_parent k = ?i" | "heap_parent k = j" | "heap_parent k \<noteq> ?i" "heap_parent k \<noteq> j" by blast
    then show ?thesis
    proof cases
      case 1
      then show ?thesis using ord [OF k(1,2) False] less False k(3) len(2) by (simp add: nth)
    next
      case 2
      then show ?thesis using child [OF k(1,2)] False k(3) len(2) by (simp add: nth)
    next
      case 3
      then show ?thesis using ord [OF k(1,2) False] False k(3) by (simp add: nth)
    qed
  qed
  moreover have "key (?ys ! heap_parent ?i) \<le> key (?ys ! c)" if c: "c < length xs" "0 < c" "heap_parent c = ?i" "0 < ?i" for c
  proof -
    have i: "key (xs ! heap_parent ?i) \<le> key (xs ! ?i)" using ord [OF len(3) c(4)] len(2) by simp
    have pi: "heap_parent ?i \<noteq> ?i" "heap_parent ?i \<noteq> j" "c \<noteq> ?i" using heap_parent_less [OF c(4)] heap_parent_less [OF c(2)] c(3) len(2) by auto
    show ?thesis
    proof (cases "c = j")
      case True
      then show ?thesis using i pi by (simp add: nth)
    next
      case False
      then show ?thesis using i pi ord [OF c(1,2) False] c(3) by (simp add: nth)
    qed
  qed
  ultimately show ?thesis using len by (simp add: up_inv_def)
qed

lemma heap_up_ok:
  "up_inv key xs j \<Longrightarrow> is_heap key (heap_up key xs j) \<and> mset (heap_up key xs j) = mset xs"
proof (induction key xs j rule: heap_up.induct)
  case (1 key xs j)
  show ?case
  proof (cases "j = 0 \<or> \<not> key (xs ! j) < key (xs ! heap_parent j)")
    case True
    then have "is_heap key xs" using "1.prems" by (auto simp: is_heap_def heap_upto_def up_inv_def not_less)
    then show ?thesis using True by (simp add: heap_up.simps [of key xs j])
  next
    case False
    then have j: "0 < j" "key (xs ! j) < key (xs ! heap_parent j)" by auto
    have len: "j < length xs" "heap_parent j < length xs"
      using "1.prems" heap_parent_less [OF j(1)] by (auto simp: up_inv_def)
    have "heap_up key xs j = heap_up key (heap_swap xs (heap_parent j) j) (heap_parent j)"
      using j by (simp add: heap_up.simps [of key xs j] Let_def)
    then show ?thesis
      using "1.IH" [OF refl False up_inv_step [OF "1.prems" j]] len by (simp add: mset_swap_heap)
  qed
qed

lemma heap_push_ok: "is_heap key xs \<Longrightarrow> is_heap key (heap_push key x xs) \<and> mset (heap_push key x xs) = add_mset x (mset xs)"
proof -
  assume h: "is_heap key xs"
  have p: "heap_parent k < length xs" if "0 < k" "k \<le> length xs" for k using heap_parent_less [OF that(1)] that by simp
  have "up_inv key (xs @ [x]) (length xs)"
    unfolding up_inv_def
  proof (intro conjI allI impI)
    fix k assume "k < length (xs @ [x])" "0 < k" "k \<noteq> length xs"
    then show "key ((xs @ [x]) ! heap_parent k) \<le> key ((xs @ [x]) ! k)"
      using h p [of k] by (simp add: nth_append is_heap_def heap_upto_def)
  next
    fix c assume "c < length (xs @ [x])" "0 < c" "heap_parent c = length xs"
    then show "key ((xs @ [x]) ! heap_parent (length xs)) \<le> key ((xs @ [x]) ! c)" using p [of c] by simp
  qed simp
  from heap_up_ok [OF this] show ?thesis by (simp add: heap_push_def)
qed

section \<open>Sifting down\<close>

definition down_inv :: "('a \<Rightarrow> 'k :: linorder) \<Rightarrow> 'a list \<Rightarrow> nat \<Rightarrow> nat \<Rightarrow> bool" where
  "down_inv key xs i n \<longleftrightarrow> n \<le> length xs \<and>
     (\<forall>k < n. 0 < k \<longrightarrow> heap_parent k \<noteq> i \<longrightarrow> key (xs ! heap_parent k) \<le> key (xs ! k)) \<and>
     (\<forall>c < n. 0 < c \<longrightarrow> heap_parent c = i \<longrightarrow> 0 < i \<longrightarrow> key (xs ! heap_parent i) \<le> key (xs ! c))"

lemma down_inv_step:
  assumes inv: "down_inv key xs i n" and j: "j < n" "heap_parent j = i" "0 < j"
    and least: "\<And>k. k < n \<Longrightarrow> 0 < k \<Longrightarrow> heap_parent k = i \<Longrightarrow> key (xs ! j) \<le> key (xs ! k)"
    and less: "key (xs ! j) < key (xs ! i)"
  shows "down_inv key (heap_swap xs i j) j n"
proof -
  let ?ys = "heap_swap xs i j"
  have len: "i < j" "i < length xs" "j < length xs" using inv j heap_parent_less [OF j(3)] by (auto simp: down_inv_def)
  note nth = nth_swap [OF len(2,3)]
  have ord: "key (xs ! heap_parent k) \<le> key (xs ! k)" if "k < n" "0 < k" "heap_parent k \<noteq> i" for k
    using inv that by (simp add: down_inv_def)
  have up: "key (xs ! heap_parent i) \<le> key (xs ! j)" if "0 < i" using inv j that by (simp add: down_inv_def)
  have "key (?ys ! heap_parent k) \<le> key (?ys ! k)" if k: "k < n" "0 < k" "heap_parent k \<noteq> j" for k
  proof (cases "heap_parent k = i")
    case True
    then have "k \<noteq> i" using heap_parent_less [OF k(2)] by auto
    then show ?thesis using True least [OF k(1,2) True] less len(1) by (simp add: nth less_imp_le)
  next
    case False
    then have "k \<noteq> j" using j(2) by auto
    show ?thesis
    proof (cases "k = i")
      case True
      then show ?thesis using up k False len(1) heap_parent_less [OF k(2)] by (simp add: nth)
    next
      case ki: False
      then show ?thesis using ord [OF k(1,2) False] False k(3) \<open>k \<noteq> j\<close> by (simp add: nth)
    qed
  qed
  moreover have "key (?ys ! heap_parent j) \<le> key (?ys ! c)" if c: "c < n" "0 < c" "heap_parent c = j" for c
  proof -
    have "c \<noteq> i" "c \<noteq> j" using heap_parent_less [OF c(2)] c(3) len(1) by auto
    moreover have "key (xs ! j) \<le> key (xs ! c)" using ord [OF c(1,2)] c(3) len(1) by simp
    ultimately show ?thesis using j(2) len(1) by (simp add: nth)
  qed
  ultimately show ?thesis using inv by (simp add: down_inv_def)
qed

lemma least_child_bounds:
  assumes "2 * i + 1 < n"
  shows "least_child key xs i n < n" "0 < least_child key xs i n" "heap_parent (least_child key xs i n) = i"
  using assms by (simp_all add: least_child_def Let_def)

lemma least_child_least:
  assumes "k < n" "0 < k" "heap_parent k = i"
  shows "key (xs ! least_child key xs i n) \<le> key (xs ! k)"
  using child_cases [OF assms(2,3)] assms(1) by (auto simp: least_child_def Let_def not_less)

lemma heap_upto_no_smaller_child:
  assumes "down_inv key xs i n" "\<And>k. k < n \<Longrightarrow> 0 < k \<Longrightarrow> heap_parent k = i \<Longrightarrow> key (xs ! i) \<le> key (xs ! k)"
  shows "heap_upto key xs n"
  using assms unfolding heap_upto_def down_inv_def by metis

lemma heap_down_ok:
  "down_inv key xs i n \<Longrightarrow> i < length xs \<Longrightarrow>
   heap_upto key (heap_down key xs i n) n \<and> mset (heap_down key xs i n) = mset xs \<and>
   (\<forall>k \<ge> n. i < n \<longrightarrow> heap_down key xs i n ! k = xs ! k) \<and> length (heap_down key xs i n) = length xs"
proof (induction key xs i n rule: heap_down.induct)
  case (1 key xs i n)
  define j where "j = least_child key xs i n"
  note unf = heap_down.simps [of key xs i n, folded j_def, unfolded Let_def]
  show ?case
  proof (cases "2 * i + 1 \<ge> n")
    case True
    have "heap_upto key xs n"
    proof (rule heap_upto_no_smaller_child [OF "1.prems"(1)])
      fix k assume "k < n" "0 < k" "heap_parent k = i"
      then show "key (xs ! i) \<le> key (xs ! k)" using child_cases [of k i] True by auto
    qed
    then show ?thesis using True unf by simp
  next
    case False
    then have j: "j < n" "0 < j" "heap_parent j = i" using least_child_bounds [of i n key xs] by (simp_all add: j_def)
    have least: "\<And>k. k < n \<Longrightarrow> 0 < k \<Longrightarrow> heap_parent k = i \<Longrightarrow> key (xs ! j) \<le> key (xs ! k)"
      unfolding j_def by (rule least_child_least)
    show ?thesis
    proof (cases "key (xs ! j) < key (xs ! i)")
      case stop: False
      have "heap_upto key xs n"
      proof (rule heap_upto_no_smaller_child [OF "1.prems"(1)])
        fix k assume k: "k < n" "0 < k" "heap_parent k = i"
        have "key (xs ! i) \<le> key (xs ! j)" using stop by simp
        also have "\<dots> \<le> key (xs ! k)" by (rule least [OF k])
        finally show "key (xs ! i) \<le> key (xs ! k)" .
      qed
      then show ?thesis using stop False unf by simp
    next
      case True
      have jl: "j < length xs" using "1.prems"(1) j(1) by (simp add: down_inv_def)
      have step: "heap_down key xs i n = heap_down key (heap_swap xs i j) j n" using True False unf by simp
      have "j < length (heap_swap xs i j)" using jl by simp
      moreover have "\<not> \<not> key (xs ! j) < key (xs ! i)" using True by blast
      ultimately have IH: "heap_upto key (heap_down key (heap_swap xs i j) j n) n \<and>
          mset (heap_down key (heap_swap xs i j) j n) = mset (heap_swap xs i j) \<and>
          (\<forall>k \<ge> n. j < n \<longrightarrow> heap_down key (heap_swap xs i j) j n ! k = heap_swap xs i j ! k) \<and>
          length (heap_down key (heap_swap xs i j) j n) = length (heap_swap xs i j)"
        using "1.IH" [OF False j_def] down_inv_step [OF "1.prems"(1) j(1,3,2) least True] by blast
      have "heap_swap xs i j ! k = xs ! k" if "k \<ge> n" "i < n" for k
        using nth_swap [OF "1.prems"(2) jl] that j(1) by auto
      then show ?thesis using IH jl j(1) "1.prems"(2) unfolding step by (simp add: mset_swap_heap)
    qed
  qed
qed

lemma heap_root_least: "is_heap key xs \<Longrightarrow> k < length xs \<Longrightarrow> key (xs ! 0) \<le> key (xs ! k)"
proof (induction k rule: less_induct)
  case (less k)
  show ?case
  proof (cases "k = 0")
    case False
    then have "heap_parent k < k" by (simp add: heap_parent_less)
    moreover have "key (xs ! heap_parent k) \<le> key (xs ! k)" using less.prems False by (simp add: is_heap_def heap_upto_def)
    ultimately show ?thesis using less.IH [of "heap_parent k"] less.prems by (meson order_less_trans order_trans)
  qed simp
qed

lemma heap_pop_ok:
  assumes h: "is_heap key xs" and ne: "xs \<noteq> []" and p: "heap_pop key xs = (x, ys)"
  shows "x = xs ! 0" "is_heap key ys" "mset xs = add_mset x (mset ys)"
proof -
  define n where "n = length xs - 1"
  define zs where "zs = heap_down key (heap_swap xs 0 n) 0 n"
  have len: "n < length xs" "0 < length xs" "length xs = Suc n" using ne by (auto simp: n_def)
  note nth = nth_swap [OF len(2,1)]
  have "key (heap_swap xs 0 n ! heap_parent k) \<le> key (heap_swap xs 0 n ! k)" if "k < n" "0 < k" "heap_parent k \<noteq> 0" for k
    using h that heap_parent_less [of k] len by (simp add: nth is_heap_def heap_upto_def)
  then have "down_inv key (heap_swap xs 0 n) 0 n" using len by (simp add: down_inv_def)
  from heap_down_ok [OF this] len
  have d: "heap_upto key zs n" "mset zs = mset xs" "length zs = length xs" "0 < n \<longrightarrow> zs ! n = xs ! 0"
    by (auto simp: zs_def mset_swap_heap nth)
  have xy: "x = zs ! n" "ys = take n zs" using p by (simp_all add: heap_pop_def Let_def zs_def n_def)
  show "x = xs ! 0"
  proof (cases "n = 0")
    case True
    then have "zs = heap_swap xs 0 0" by (simp add: zs_def heap_down.simps [of key _ 0 0])
    then show ?thesis using xy True len by (simp add: heap_swap_def)
  qed (use d xy in simp)
  have "key (ys ! heap_parent k) \<le> key (ys ! k)" if "k < n" "0 < k" for k
    using d(1) that heap_parent_less [OF that(2)] unfolding xy by (simp add: heap_upto_def)
  then show "is_heap key ys" using d(3) len unfolding xy by (simp add: is_heap_def heap_upto_def)
  have "zs = ys @ [x]" using xy d(3) len by (simp add: take_Suc_conv_app_nth [symmetric])
  then show "mset xs = add_mset x (mset ys)" using d(2) by simp
qed

interpretation array_heap: priority_queue "is_heap key" mset key "\<lambda>xs. xs = []" "\<lambda>xs. xs ! 0"
  "heap_push key" "heap_pop key"
proof
  fix xs :: "'a list" assume h: "is_heap key xs" and ne: "mset xs \<noteq> {#}"
  then have "xs \<noteq> []" by auto
  then show "xs ! 0 \<in># mset xs \<and> (\<forall>x \<in># mset xs. key (xs ! 0) \<le> key x)"
    using heap_root_least [OF h] by (auto simp: in_set_conv_nth)
next
  fix xs :: "'a list" and x ys assume "is_heap key xs" "mset xs \<noteq> {#}" "heap_pop key xs = (x, ys)"
  then show "x = xs ! 0 \<and> is_heap key ys \<and> mset xs = add_mset x (mset ys)"
    using heap_pop_ok [of key xs x ys] by auto
qed (auto simp: heap_push_ok)

end
