(* ===== verification/Executor_State.thy ===== *)
theory Executor_State
  imports Registry Retry_Heap "HOL-Library.Word"
begin

text \<open>
  The state of the execution service (\<^verbatim>\<open>src/internal/executor\<close>): the options of
  \<^verbatim>\<open>executor.go\<close> and \<^verbatim>\<open>queue.go\<close>, the record \<^verbatim>\<open>Service\<close> with the
  parts of \<^verbatim>\<open>retries.go\<close>, \<^verbatim>\<open>finalizer.go\<close>, \<^verbatim>\<open>storage.go\<close> and
  \<^verbatim>\<open>persistlag.go\<close>, and the environment an operation meets.

  A Go map with a length is an association list with distinct keys; the order of the list stands
  for the order in which the program happens to iterate over the map. A channel used as a
  semaphore is the number of slots taken; a channel used to wake a loop is a flag. The callbacks
  \<^verbatim>\<open>OnFinished\<close> and \<^verbatim>\<open>OnRunStored\<close> append to a log.

  The environment holds what one operation reads from outside: the successive results of
  \<^verbatim>\<open>time.Now\<close>, the identifier \<^verbatim>\<open>uuid.NewV7\<close> returns, whether the context of the
  caller has ended, whether shutdown begins just before the n-th time the operation looks, and how each
  call of the database ends. A call may fail without an effect or fail although it was committed.
\<close>

section \<open>Calls of the database\<close>

datatype call_error = Refused store_error | Unavailable

datatype io = Works | Fails | FailsAfterCommit

definition call :: "io \<Rightarrow> (db \<Rightarrow> 'a op) \<Rightarrow> db \<Rightarrow> db \<times> (call_error + 'a)" where
  "call io f b =
     (case io of
        Works \<Rightarrow> (case f b of (b', Inl e) \<Rightarrow> (b', Inl (Refused e)) | (b', Inr v) \<Rightarrow> (b', Inr v))
      | Fails \<Rightarrow> (b, Inl Unavailable)
      | FailsAfterCommit \<Rightarrow> (fst (f b), Inl Unavailable))"

definition call_read :: "io \<Rightarrow> (db \<Rightarrow> store_error + 'a) \<Rightarrow> db \<Rightarrow> call_error + 'a" where
  "call_read io f b =
     (if io = Works then (case f b of Inl e \<Rightarrow> Inl (Refused e) | Inr v \<Rightarrow> Inr v) else Inl Unavailable)"

lemma call_cases:
  assumes "call io f b = (b', res)"
  obtains "b' = b" "res = Inl Unavailable"
  | "b' = fst (f b)" "res = Inl Unavailable" "io = FailsAfterCommit"
  | e where "f b = (b', Inl e)" "res = Inl (Refused e)"
  | v where "f b = (b', Inr v)" "res = Inr v"
  using assms by (auto simp: call_def split: io.splits prod.splits sum.splits)

lemma call_db: "call io f b = (b', res) \<Longrightarrow> b' = b \<or> b' = fst (f b)"
  by (erule call_cases) auto

datatype store_call = CAdmit | CCreate | CScheduled | CRun | CEnqueue | CStart | CFinish | CDefinition
  | CDrop | CDequeue | CExpire | CHeads | CStats | CNextExpiry | CCancel

datatype exec_error = ExShutdown | ExCanceled | ExDisabled | ExCapacity | ExQueueFull
  | ExQueueUnavailable | ExNotExist | ExHistoryConflict | ExStore call_error

record env =
  e_now :: "nat \<Rightarrow> time"
  e_uuid :: string
  e_admission :: "exec_error option"
  e_ctx :: "nat \<Rightarrow> bool"
  e_stop :: "nat \<Rightarrow> bool"
  e_io :: "store_call \<Rightarrow> io"
  e_finish :: "io list"

text \<open>An environment in which nothing fails.\<close>

definition good_env :: "time \<Rightarrow> string \<Rightarrow> env" where
  "good_env now uuid = \<lparr>e_now = (\<lambda>_. now), e_uuid = uuid, e_admission = None, e_ctx = (\<lambda>_. False),
     e_stop = (\<lambda>_. False), e_io = (\<lambda>_. Works), e_finish = [Works]\<rparr>"

section \<open>Options\<close>

record queue_options =
  qo_Disabled :: bool
  qo_MaxItems :: int
  qo_MaxPerJob :: int
  qo_MaxBytes :: int
  qo_MaxAge :: duration
  qo_DrainRate :: int
  qo_MaxPendingRetries :: int
  qo_MaxFinalizers :: int

definition withDefaults :: "queue_options \<Rightarrow> queue_options" where
  "withDefaults o0 =
     (let o1 = (if qo_MaxItems o0 \<le> 0 then o0\<lparr>qo_MaxItems := 100\<rparr> else o0);
          o2 = (if qo_MaxPerJob o1 \<le> 0 then o1\<lparr>qo_MaxPerJob := min 25 (qo_MaxItems o1)\<rparr> else o1);
          o3 = (if qo_MaxBytes o2 \<le> 0 then o2\<lparr>qo_MaxBytes := 256 * 2 ^ 10\<rparr> else o2);
          o4 = (if qo_MaxAge o3 \<le> 0 then o3\<lparr>qo_MaxAge := 15 * Minute\<rparr> else o3);
          o5 = (if qo_DrainRate o4 \<le> 0 then o4\<lparr>qo_DrainRate := 5\<rparr> else o4);
          o6 = (if qo_MaxPendingRetries o5 \<le> 0 then o5\<lparr>qo_MaxPendingRetries := 500\<rparr> else o5)
      in if qo_MaxFinalizers o6 \<le> 0 then o6\<lparr>qo_MaxFinalizers := 1024\<rparr> else o6)"

record exec_config =
  c_bootID :: string
  c_MaxConcurrentRuns :: int
  c_queueOpt :: queue_options

text \<open>The settings \<^verbatim>\<open>New\<close> keeps; \<open>uuid\<close> replaces an unreadable kernel boot id.\<close>

definition exec_settings :: "string \<Rightarrow> string \<Rightarrow> int \<Rightarrow> queue_options \<Rightarrow> exec_config" where
  "exec_settings kernelBootID uuid maxRuns queueOpt =
     \<lparr>c_bootID = (if kernelBootID = '''' then uuid else kernelBootID),
      c_MaxConcurrentRuns = (if maxRuns \<le> 0 then 32 else maxRuns), c_queueOpt = withDefaults queueOpt\<rparr>"

definition queueable :: "exec_config \<Rightarrow> string \<Rightarrow> bool" where
  "queueable cfg trig \<longleftrightarrow> \<not> qo_Disabled (c_queueOpt cfg)
     \<and> (trig = ''schedule'' \<or> trig = ''manual'' \<or> trig = ''retry'')"

definition queueLimits :: "exec_config \<Rightarrow> queue_limits" where
  "queueLimits cfg = \<lparr>MaxItems = qo_MaxItems (c_queueOpt cfg), MaxPerJob = qo_MaxPerJob (c_queueOpt cfg),
     MaxBytes = qo_MaxBytes (c_queueOpt cfg), MaxAge = qo_MaxAge (c_queueOpt cfg)\<rparr>"

section \<open>The parts of the service\<close>

record retry_item =
  ri_due :: time
  ri_runID :: string
  ri_name :: string
  ri_defID :: int
  ri_revision :: int
  ri_hash :: string
  ri_attempt :: int
  ri_scheduled :: "time option"
  ri_delay :: duration

definition retryEvidenceCap :: nat where "retryEvidenceCap = 64"

definition retryBatch :: nat where "retryBatch = 16"

record retry_state =
  rt_heap :: "retry_item list"
  rt_started :: bool
  rt_wake :: bool
  rt_dropped :: int
  rt_evidence :: "retry_item list"
  rt_lost :: int

record queue_state =
  qu_depth :: int
  qu_wake :: bool
  qu_started :: bool
  qu_served :: "(int \<times> 64 word) list"
  qu_tick :: "64 word"
  qu_nextStart :: time
  qu_expired :: int
  qu_rejected :: int
  qu_unavailable :: int
  qu_dropped :: int

record start_info =
  si_pid :: int
  si_pgid :: int
  si_id :: string
  si_at :: time

record terminal =
  t_status :: string
  t_reason :: string
  t_code :: "int option"
  t_signal :: string
  t_ended :: time
  t_bytes :: int
  t_truncated :: bool
  t_retry :: bool
  t_usage :: "resource_usage option"

definition zero_terminal :: terminal where
  "zero_terminal = \<lparr>t_status = '''', t_reason = '''', t_code = None, t_signal = '''', t_ended = zero_time,
     t_bytes = 0, t_truncated = False, t_retry = False, t_usage = None\<rparr>"

record final_item =
  fi_r :: run_rec
  fi_d :: definition_rec
  fi_create :: bool
  fi_start :: bool
  fi_started :: start_info
  fi_done :: bool
  fi_t :: terminal
  fi_token :: "64 word"
  fi_backoff :: duration
  fi_nextTry :: time
  fi_attempts :: int

record persist_lag =
  pl_count :: int
  pl_totalNS :: int
  pl_lastNS :: int
  pl_maxNS :: int
  pl_next :: "64 word"
  pl_pending :: "(64 word \<times> time) list"

record storage_health =
  sh_down :: bool
  sh_since :: time
  sh_deferred :: int
  sh_dropped :: int

record active_run =
  a_run :: run_rec
  a_def :: definition_rec
  a_unrecorded :: bool

definition maxOutcomes :: nat where "maxOutcomes = 1024"

record service =
  s_db :: db
  s_capacity :: int
  s_closing :: bool
  s_active :: "(string \<times> active_run) list"
  s_byJob :: "string \<Rightarrow> int"
  s_finalizing :: "(string \<times> final_item) list"
  s_finals_started :: bool
  s_finals_wake :: bool
  s_queue :: queue_state
  s_retries :: retry_state
  s_lag :: persist_lag
  s_health :: storage_health
  s_outcomes :: "(string \<times> run_rec) list"
  s_notified :: "(run_rec \<times> definition_rec) list"
  s_stored :: "string list"

definition New :: "db \<Rightarrow> service" where
  "New b = \<lparr>s_db = b, s_capacity = 0, s_closing = False, s_active = [], s_byJob = (\<lambda>_. 0), s_finalizing = [],
     s_finals_started = False, s_finals_wake = False,
     s_queue = \<lparr>qu_depth = 0, qu_wake = False, qu_started = False, qu_served = [], qu_tick = 0,
       qu_nextStart = zero_time, qu_expired = 0, qu_rejected = 0, qu_unavailable = 0, qu_dropped = 0\<rparr>,
     s_retries = \<lparr>rt_heap = [], rt_started = False, rt_wake = False, rt_dropped = 0, rt_evidence = [], rt_lost = 0\<rparr>,
     s_lag = \<lparr>pl_count = 0, pl_totalNS = 0, pl_lastNS = 0, pl_maxNS = 0, pl_next = 0, pl_pending = []\<rparr>,
     s_health = \<lparr>sh_down = False, sh_since = 0, sh_deferred = 0, sh_dropped = 0\<rparr>,
     s_outcomes = [], s_notified = [], s_stored = []\<rparr>"

section \<open>Association lists as Go maps\<close>

definition put_key :: "'k \<Rightarrow> 'v \<Rightarrow> ('k \<times> 'v) list \<Rightarrow> ('k \<times> 'v) list" where
  "put_key k v m = (if k \<in> fst ` set m then map (\<lambda>(k', v'). if k' = k then (k, v) else (k', v')) m else m @ [(k, v)])"

definition del_key :: "'k \<Rightarrow> ('k \<times> 'v) list \<Rightarrow> ('k \<times> 'v) list" where
  "del_key k m = filter (\<lambda>kv. fst kv \<noteq> k) m"

lemma map_of_replace:
  "map_of (map (\<lambda>(k', v'). if k' = k then (k, v) else (k', v')) m) x =
   (if x = k then (if k \<in> fst ` set m then Some v else None) else map_of m x)"
  by (induction m) force+

lemma map_of_put_key [simp]: "map_of (put_key k v m) = (map_of m)(k \<mapsto> v)"
proof
  fix x
  show "map_of (put_key k v m) x = ((map_of m)(k \<mapsto> v)) x"
  proof (cases "k \<in> fst ` set m")
    case True
    then show ?thesis by (simp add: put_key_def map_of_replace)
  next
    case False
    then have "map_of m k = None" by (simp add: map_of_eq_None_iff)
    then show ?thesis using False by (simp add: put_key_def map_add_def split: option.splits)
  qed
qed

lemma map_of_del_key [simp]: "map_of (del_key k m) = (map_of m)(k := None)"
  by (induction m) (auto simp: del_key_def)

lemma put_key_keys: "map fst (put_key k v m) = (if k \<in> fst ` set m then map fst m else map fst m @ [k])"
  by (auto simp: put_key_def)

lemma set_put_key_keys [simp]: "fst ` set (put_key k v m) = insert k (fst ` set m)"
  using arg_cong [OF put_key_keys [of k v m], of set] by auto

lemma distinct_put_key [simp]: "distinct (map fst (put_key k v m)) = distinct (map fst m)"
  by (auto simp: put_key_keys)

lemma distinct_del_key [simp]: "distinct (map fst m) \<Longrightarrow> distinct (map fst (del_key k m))"
  by (simp add: del_key_def filter_map_distinct)

lemma length_put_key: "length (put_key k v m) = (if k \<in> fst ` set m then length m else Suc (length m))"
  by (simp add: put_key_def)

lemma length_del_key: "length (del_key k m) \<le> length m"
  by (simp add: del_key_def)

lemma set_del_key [simp]: "set (del_key k m) = {kv \<in> set m. fst kv \<noteq> k}"
  by (simp add: del_key_def)

lemma filter_put_key_new: "k \<notin> fst ` set m \<Longrightarrow> filter P (put_key k v m) = filter P m @ (if P (k, v) then [(k, v)] else [])"
  by (simp add: put_key_def)

lemma filter_del_key:
  "distinct (map fst m) \<Longrightarrow> map_of m k = Some v \<Longrightarrow>
   int (length (filter P (del_key k m))) = int (length (filter P m)) - (if P (k, v) then 1 else 0)"
proof (induction m)
  case (Cons kv m)
  have gone: "del_key k m = m" if "k \<notin> fst ` set m" using that by (force simp: del_key_def intro: filter_True)
  show ?case
  proof (cases "fst kv = k")
    case True
    then have "del_key k (kv # m) = m" "kv = (k, v)"
      using Cons.prems gone by (auto simp: del_key_def)
    then show ?thesis by simp
  next
    case False
    then have "map_of m k = Some v" using Cons.prems by (cases kv) auto
    then have "int (length (filter P (del_key k m))) = int (length (filter P m)) - (if P (k, v) then 1 else 0)"
      using Cons.IH Cons.prems by simp
    moreover have "del_key k (kv # m) = kv # del_key k m" using False by (simp add: del_key_def)
    ultimately show ?thesis by (cases "P (k, v)") simp_all
  qed
qed simp

section \<open>Storage health and persistence lag\<close>

definition storageFailed :: "time \<Rightarrow> service \<Rightarrow> service" where
  "storageFailed now s =
     (if sh_down (s_health s) then s else s\<lparr>s_health := (s_health s)\<lparr>sh_down := True, sh_since := now\<rparr>\<rparr>)"

definition storageRecovered :: "service \<Rightarrow> service" where
  "storageRecovered s = (if sh_down (s_health s) then s\<lparr>s_health := (s_health s)\<lparr>sh_down := False\<rparr>\<rparr> else s)"

definition count_deferred :: "service \<Rightarrow> service" where
  "count_deferred s = s\<lparr>s_health := (s_health s)\<lparr>sh_deferred := sh_deferred (s_health s) + 1\<rparr>\<rparr>"

definition historyLost :: "service \<Rightarrow> service" where
  "historyLost s = s\<lparr>s_health := (s_health s)\<lparr>sh_dropped := sh_dropped (s_health s) + 1\<rparr>\<rparr>"

text \<open>The first argument says whether the caller's context has ended.\<close>

definition storageUnavailable :: "bool \<Rightarrow> call_error \<Rightarrow> bool" where
  "storageUnavailable canceled err \<longleftrightarrow> \<not> canceled
     \<and> err \<noteq> Refused ErrConstraint \<and> err \<noteq> Refused ErrInvalidTransition \<and> err \<noteq> Refused ErrIdempotencyConflict"

definition observe :: "time \<Rightarrow> time \<Rightarrow> persist_lag \<Rightarrow> persist_lag" where
  "observe now ended p =
     (if ended = zero_time then p
      else let d = max (time_sub now ended) 0
           in p\<lparr>pl_count := pl_count p + 1, pl_totalNS := wrap64 (pl_totalNS p + d), pl_lastNS := d,
                pl_maxNS := max (pl_maxNS p) d\<rparr>)"

definition startPending :: "time \<Rightarrow> persist_lag \<Rightarrow> persist_lag \<times> 64 word" where
  "startPending ended p =
     (let token = pl_next p + 1 in (p\<lparr>pl_next := token, pl_pending := put_key token ended (pl_pending p)\<rparr>, token))"

definition endPending :: "64 word \<Rightarrow> persist_lag \<Rightarrow> persist_lag" where
  "endPending token p = p\<lparr>pl_pending := del_key token (pl_pending p)\<rparr>"

section \<open>Shutdown and small operations\<close>

definition BeginShutdown :: "service \<Rightarrow> service" where
  "BeginShutdown s = s\<lparr>s_closing := True\<rparr>"

text \<open>Shutdown may begin at any moment; an operation notices it where it takes the lock.\<close>

definition stop_if :: "bool \<Rightarrow> service \<Rightarrow> service" where
  "stop_if begins s = (if begins then BeginShutdown s else s)"

definition Active :: "string \<Rightarrow> service \<Rightarrow> int" where
  "Active job s = s_byJob s job"

definition Finalizing :: "string \<Rightarrow> service \<Rightarrow> bool" where
  "Finalizing rid s \<longleftrightarrow> map_of (s_finalizing s) rid \<noteq> None"

definition RowPending :: "string \<Rightarrow> service \<Rightarrow> bool" where
  "RowPending rid s = (case map_of (s_finalizing s) rid of None \<Rightarrow> False | Some it \<Rightarrow> fi_create it)"

definition historyPending :: "service \<Rightarrow> bool" where
  "historyPending s \<longleftrightarrow> length (s_finalizing s) > 0"

text \<open>A goroutine is started once, and never after shutdown has begun; the first argument marks
  which loop it is.\<close>

definition startLoop :: "(service \<Rightarrow> service) \<Rightarrow> service \<Rightarrow> service \<times> bool" where
  "startLoop start s = (if s_closing s then (s, False) else (start s, True))"

definition queue_loop_started :: "service \<Rightarrow> service" where
  "queue_loop_started s = s\<lparr>s_queue := (s_queue s)\<lparr>qu_started := True\<rparr>\<rparr>"

definition retry_loop_started :: "service \<Rightarrow> service" where
  "retry_loop_started s = s\<lparr>s_retries := (s_retries s)\<lparr>rt_started := True\<rparr>\<rparr>"

definition final_loop_started :: "service \<Rightarrow> service" where
  "final_loop_started s = s\<lparr>s_finals_started := True\<rparr>"

definition signal_queue :: "service \<Rightarrow> service" where
  "signal_queue s = s\<lparr>s_queue := (s_queue s)\<lparr>qu_wake := True\<rparr>\<rparr>"

definition signal_retries :: "service \<Rightarrow> service" where
  "signal_retries s = s\<lparr>s_retries := (s_retries s)\<lparr>rt_wake := True\<rparr>\<rparr>"

definition signal_finals :: "service \<Rightarrow> service" where
  "signal_finals s = s\<lparr>s_finals_wake := True\<rparr>"

definition add_depth :: "int \<Rightarrow> service \<Rightarrow> service" where
  "add_depth n s = s\<lparr>s_queue := (s_queue s)\<lparr>qu_depth := qu_depth (s_queue s) + n\<rparr>\<rparr>"

text \<open>The non-blocking send on the capacity channel has room.\<close>

definition slot_free :: "exec_config \<Rightarrow> service \<Rightarrow> bool" where
  "slot_free cfg s \<longleftrightarrow> s_capacity s < c_MaxConcurrentRuns cfg"

definition take_slot :: "service \<Rightarrow> service" where
  "take_slot s = s\<lparr>s_capacity := s_capacity s + 1\<rparr>"

definition return_slot :: "service \<Rightarrow> service" where
  "return_slot s = s\<lparr>s_capacity := s_capacity s - 1\<rparr>"

definition releaseSlot :: "service \<Rightarrow> service" where
  "releaseSlot s = (let s1 = return_slot s in if qu_depth (s_queue s1) > 0 then signal_queue s1 else s1)"

definition notifyFinished :: "run_rec \<Rightarrow> definition_rec \<Rightarrow> service \<Rightarrow> service" where
  "notifyFinished r d s = s\<lparr>s_notified := s_notified s @ [(r, d)]\<rparr>"

definition record_outcome_of :: "run_rec \<Rightarrow> terminal \<Rightarrow> run_rec" where
  "record_outcome_of r t = r\<lparr>r_Status := t_status t, r_EndReason := t_reason t, r_ExitCode := t_code t,
     r_Signal := t_signal t, r_EndedAt := Some (t_ended t)\<rparr>"

definition recordOutcome :: "run_rec \<Rightarrow> terminal \<Rightarrow> service \<Rightarrow> service" where
  "recordOutcome r t s =
     (if r_Trigger r \<noteq> ''startup'' then s
      else let kept = (if length (s_outcomes s) \<ge> maxOutcomes then tl (s_outcomes s) else s_outcomes s)
           in s\<lparr>s_outcomes := put_key (r_ID r) (record_outcome_of r t) kept\<rparr>)"

definition TakeOutcome :: "string \<Rightarrow> service \<Rightarrow> service \<times> run_rec option" where
  "TakeOutcome rid s = (s\<lparr>s_outcomes := del_key rid (s_outcomes s)\<rparr>, map_of (s_outcomes s) rid)"

end
