(* ===== verification/Executor_History.thy ===== *)
theory Executor_History
  imports Executor_State
begin

text \<open>
  Deferred run history (\<^verbatim>\<open>src/internal/executor/finalizer.go\<close>): while the metadata
  database cannot take writes, a run executes and its row, its running state and its terminal
  state wait as one item per run, which a single background writer carries to the database once
  it accepts writes again.
\<close>

section \<open>Registering deferred history\<close>

definition finalizerBackoffMin :: duration where "finalizerBackoffMin = Second"

definition finalizerBackoffMax :: duration where "finalizerBackoffMax = 30 * Second"

definition finalizerFailStreak :: nat where "finalizerFailStreak = 3"

definition zero_start :: start_info where
  "zero_start = \<lparr>si_pid = 0, si_pgid = 0, si_id = '''', si_at = zero_time\<rparr>"

definition new_item :: "bool \<Rightarrow> time \<Rightarrow> run_rec \<Rightarrow> definition_rec \<Rightarrow> final_item" where
  "new_item down now r d = \<lparr>fi_r = r, fi_d = d, fi_create = False, fi_start = False, fi_started = zero_start,
     fi_done = False, fi_t = zero_terminal, fi_token = 0, fi_backoff = finalizerBackoffMin,
     fi_nextTry = (if down then now + finalizerBackoffMin else now), fi_attempts = 0\<rparr>"

text \<open>Applying an update to an item; a terminal state that becomes known is reported as pending.\<close>

definition update_item :: "string \<Rightarrow> final_item \<Rightarrow> (final_item \<Rightarrow> final_item) \<Rightarrow> service \<Rightarrow> service" where
  "update_item rid it upd s =
     (let it1 = upd it
      in if fi_done it1 \<and> \<not> fi_done it
         then case startPending (t_ended (fi_t it1)) (s_lag s) of
                (lag, token) \<Rightarrow> s\<lparr>s_lag := lag, s_finalizing := put_key rid (it1\<lparr>fi_token := token\<rparr>) (s_finalizing s)\<rparr>
         else s\<lparr>s_finalizing := put_key rid it1 (s_finalizing s)\<rparr>)"

definition end_pending_of :: "final_item \<Rightarrow> service \<Rightarrow> service" where
  "end_pending_of it s = (if fi_done it then s\<lparr>s_lag := endPending (fi_token it) (s_lag s)\<rparr> else s)"

definition dropFinalizer :: "string \<Rightarrow> service \<Rightarrow> service" where
  "dropFinalizer rid s =
     (case map_of (s_finalizing s) rid of
        None \<Rightarrow> s
      | Some it \<Rightarrow> (end_pending_of it s)\<lparr>s_finalizing := del_key rid (s_finalizing s)\<rparr>)"

text \<open>\<open>stop\<close> says whether shutdown begins between the registration and the start of the writer.\<close>

definition spool :: "exec_config \<Rightarrow> time \<Rightarrow> bool \<Rightarrow> run_rec \<Rightarrow> definition_rec \<Rightarrow> (final_item \<Rightarrow> final_item) \<Rightarrow>
    service \<Rightarrow> service \<times> bool" where
  "spool cfg now stop r d upd s =
     (if s_closing s then (s, False)
      else if map_of (s_finalizing s) (r_ID r) = None
              \<and> int (length (s_finalizing s)) \<ge> qo_MaxFinalizers (c_queueOpt cfg)
      then (s, False)
      else
        let it = (case map_of (s_finalizing s) (r_ID r) of Some it \<Rightarrow> it
                  | None \<Rightarrow> new_item (sh_down (s_health s)) now r d)
        in case startLoop final_loop_started (stop_if stop (update_item (r_ID r) it upd s)) of
             (s1, False) \<Rightarrow> (dropFinalizer (r_ID r) s1, False)
           | (s1, True) \<Rightarrow> (signal_finals s1, True))"

definition spooled :: "string \<Rightarrow> (final_item \<Rightarrow> final_item) \<Rightarrow> service \<Rightarrow> service \<times> bool" where
  "spooled rid upd s =
     (case map_of (s_finalizing s) rid of
        None \<Rightarrow> (s, False)
      | Some it \<Rightarrow> (signal_finals (update_item rid it upd s), True))"

definition abandonFinalizers :: "service \<Rightarrow> service" where
  "abandonFinalizers s = (fold (\<lambda>(rid, it) s. end_pending_of it s) (s_finalizing s) s)\<lparr>s_finalizing := []\<rparr>"

section \<open>The background writer\<close>

definition modify_item :: "string \<Rightarrow> (final_item \<Rightarrow> final_item) \<Rightarrow> service \<Rightarrow> service" where
  "modify_item rid f s =
     s\<lparr>s_finalizing := map (\<lambda>(k, it). if k = rid then (k, f it) else (k, it)) (s_finalizing s)\<rparr>"

text \<open>The insertion of the row. A constraint violation is taken as success when the row is there:
  an earlier attempt may have been committed before it reported an error.\<close>

definition write_row :: "env \<Rightarrow> final_item \<Rightarrow> service \<Rightarrow> service \<times> exec_error option" where
  "write_row e v s =
     (let rid = r_ID (fi_r v);
          created = (\<lambda>s. (modify_item rid (\<lambda>it. it\<lparr>fi_create := False\<rparr>) s)\<lparr>s_stored := s_stored s @ [rid]\<rparr>)
      in if \<not> fi_create v then (s, None)
         else case call (e_io e CCreate) (CreateRun (fi_r v)) (s_db s) of
           (b, Inr _) \<Rightarrow> (created (s\<lparr>s_db := b\<rparr>), None)
         | (b, Inl err) \<Rightarrow>
             if err \<noteq> Refused ErrConstraint then (s\<lparr>s_db := b\<rparr>, Some (ExStore err))
             else (case call_read (e_io e CRun) (run_get rid) b of
                     Inl _ \<Rightarrow> (s\<lparr>s_db := b\<rparr>, Some ExHistoryConflict)
                   | Inr _ \<Rightarrow> (created (s\<lparr>s_db := b\<rparr>), None)))"

definition write_start :: "env \<Rightarrow> final_item \<Rightarrow> service \<Rightarrow> service \<times> exec_error option" where
  "write_start e v s =
     (let rid = r_ID (fi_r v); st = fi_started v
      in if \<not> fi_start v then (s, None)
         else case call (e_io e CStart) (StartRun rid (si_pid st) (si_pgid st) (si_id st) (si_at st)) (s_db s) of
           (b, res) \<Rightarrow>
             if res = Inr () \<or> res = Inl (Refused ErrInvalidTransition)
             then (modify_item rid (\<lambda>it. it\<lparr>fi_start := False\<rparr>) (s\<lparr>s_db := b\<rparr>), None)
             else (s\<lparr>s_db := b\<rparr>, (case res of Inl err \<Rightarrow> Some (ExStore err) | Inr _ \<Rightarrow> None)))"

definition finish_run_of :: "string \<Rightarrow> terminal \<Rightarrow> db \<Rightarrow> unit op" where
  "finish_run_of rid t = FinishRunWithUsage rid (t_status t) (t_reason t) (t_code t) (t_signal t) (t_ended t)
     (t_bytes t) (t_truncated t) (t_usage t)"

definition write_done :: "env \<Rightarrow> final_item \<Rightarrow> service \<Rightarrow> service \<times> exec_error option" where
  "write_done e v s =
     (if \<not> fi_done v then (s, None)
      else case call (e_io e CFinish) (finish_run_of (r_ID (fi_r v)) (fi_t v)) (s_db s) of
        (b, Inl err) \<Rightarrow> (s\<lparr>s_db := b\<rparr>, Some (ExStore err))
      | (b, Inr _) \<Rightarrow> (s\<lparr>s_db := b, s_lag := observe (e_now e 1) (t_ended (fi_t v)) (s_lag s)\<rparr>, None))"

text \<open>The item leaves the list when no stage arrived since the snapshot \<open>v\<close> was taken.\<close>

definition retire :: "final_item \<Rightarrow> service \<Rightarrow> service" where
  "retire v s =
     (let rid = r_ID (fi_r v)
      in case map_of (s_finalizing s) rid of
           None \<Rightarrow> signal_finals s
         | Some it \<Rightarrow>
             if \<not> fi_create it \<and> \<not> fi_start it \<and> (fi_done v \<or> \<not> fi_done it) then dropFinalizer rid s
             else signal_finals s)"

definition and_then :: "service \<times> exec_error option \<Rightarrow> (service \<Rightarrow> service \<times> exec_error option) \<Rightarrow> service \<times> exec_error option" where
  "and_then r f = (case r of (s, None) \<Rightarrow> f s | (s, Some err) \<Rightarrow> (s, Some err))"

definition writeHistory :: "env \<Rightarrow> final_item \<Rightarrow> service \<Rightarrow> service \<times> exec_error option" where
  "writeHistory e v s =
     and_then (and_then (and_then (write_row e v s) (write_start e v)) (write_done e v)) (\<lambda>s. (retire v s, None))"

definition delay_item :: "time \<Rightarrow> final_item \<Rightarrow> final_item" where
  "delay_item now it =
     (let backoff = backoff_next finalizerBackoffMax (fi_backoff it)
      in it\<lparr>fi_attempts := fi_attempts it + 1, fi_backoff := backoff, fi_nextTry := now + backoff\<rparr>)"

definition history_rejected :: "exec_error \<Rightarrow> bool" where
  "history_rejected err \<longleftrightarrow> err = ExStore (Refused ErrInvalidTransition) \<or> err = ExHistoryConflict"

text \<open>One item of a pass: the result says whether the write failed.\<close>

definition finalize_one :: "env \<Rightarrow> final_item \<Rightarrow> service \<Rightarrow> service \<times> bool" where
  "finalize_one e v s =
     (case writeHistory e v s of
        (s1, None) \<Rightarrow> (storageRecovered s1, False)
      | (s1, Some err) \<Rightarrow>
          if history_rejected err then (dropFinalizer (r_ID (fi_r v)) s1, False)
          else (modify_item (r_ID (fi_r v)) (delay_item (e_now e 2)) (storageFailed (e_now e 1) s1), True))"

text \<open>A pass, with one environment per item; the result says whether it ended early.\<close>

fun finalize_views :: "(nat \<Rightarrow> env) \<Rightarrow> nat \<Rightarrow> nat \<Rightarrow> final_item list \<Rightarrow> service \<Rightarrow> service \<times> bool" where
  "finalize_views es n streak [] s = (s, False)"
| "finalize_views es n streak (v # vs) s =
     (let s0 = stop_if (e_stop (es n) 0) s
      in if s_closing s0 then (s0, False)
         else case finalize_one (es n) v s0 of
           (s1, False) \<Rightarrow> finalize_views es (Suc n) 0 vs s1
         | (s1, True) \<Rightarrow>
             if Suc streak \<ge> finalizerFailStreak then (s1, True)
             else finalize_views es (Suc n) (Suc streak) vs s1)"

definition due_views :: "time \<Rightarrow> service \<Rightarrow> final_item list" where
  "due_views now s =
     sort_key (\<lambda>v. r_QueuedAt (fi_r v)) (filter (\<lambda>it. \<not> fi_nextTry it > now) (map snd (s_finalizing s)))"

definition finalizePass :: "time \<Rightarrow> (nat \<Rightarrow> env) \<Rightarrow> service \<Rightarrow> service \<times> bool" where
  "finalizePass now es s = finalize_views es 0 0 (due_views now s) s"

definition untilNextFinalizer :: "time \<Rightarrow> service \<Rightarrow> duration" where
  "untilNextFinalizer now s =
     (case map (\<lambda>(rid, it). max (time_sub (fi_nextTry it) now) 0) (s_finalizing s) of
        [] \<Rightarrow> - 1
      | w # ws \<Rightarrow> foldl min w ws)"

text \<open>How long \<^verbatim>\<open>finalizeLoop\<close> waits after a pass, and its next global backoff.\<close>

definition finalize_wait :: "time \<Rightarrow> bool \<Rightarrow> duration \<Rightarrow> service \<Rightarrow> duration \<times> duration" where
  "finalize_wait now failedEarly global s =
     (if failedEarly then (global, backoff_next finalizerBackoffMax global)
      else (untilNextFinalizer now s, finalizerBackoffMin))"

interpretation finalizer_backoff: capped_backoff finalizerBackoffMin finalizerBackoffMax
  by unfold_locales (simp_all add: finalizerBackoffMin_def finalizerBackoffMax_def)

end
