(* ===== verification/Executor.thy ===== *)
theory Executor
  imports Executor_History
begin

text \<open>
  The execution service (\<^verbatim>\<open>src/internal/executor\<close>): retries (\<^verbatim>\<open>retries.go\<close>),
  admission, launch and completion of runs (\<^verbatim>\<open>executor.go\<close>) and the drain of the durable
  queue (\<^verbatim>\<open>queue.go\<close>).

  Triggers and the drain hold the admission semaphore, so each of them is one operation of the
  model; a run ends (\<open>execute_done\<close>) by an operation of its own. The process itself, its pipes and
  its log are not part of the state: the outcome of the process is the argument \<open>t\<close> of
  \<open>complete\<close>.
\<close>

section \<open>Retries\<close>

definition addRetry :: "exec_config \<Rightarrow> retry_item \<Rightarrow> service \<Rightarrow> service" where
  "addRetry cfg it s =
     (case startLoop retry_loop_started s of
        (s1, False) \<Rightarrow> s1
      | (s1, True) \<Rightarrow>
          let rt = s_retries s1
          in if int (length (rt_heap rt)) \<ge> qo_MaxPendingRetries (c_queueOpt cfg)
             then
               let full = length (rt_evidence rt) \<ge> retryEvidenceCap;
                   kept = (if full then tl (rt_evidence rt) else rt_evidence rt)
               in signal_retries (s1\<lparr>s_retries := rt\<lparr>rt_dropped := rt_dropped rt + 1,
                    rt_lost := (if full then rt_lost rt + 1 else rt_lost rt), rt_evidence := kept @ [it]\<rparr>\<rparr>)
             else signal_retries (s1\<lparr>s_retries := rt\<lparr>rt_heap := heap_push ri_due it (rt_heap rt)\<rparr>\<rparr>))"

definition retry_delay :: "definition_rec \<Rightarrow> duration" where
  "retry_delay d = (let delay = wrap64 (d_RetryDelay d * Second) in if delay \<le> 0 then 5 * Second else delay)"

definition retryable :: "run_rec \<Rightarrow> definition_rec \<Rightarrow> bool" where
  "retryable r d \<longleftrightarrow> \<not> (d_Kind d \<noteq> KindJob \<or> r_Status r \<noteq> ''failed'' \<or> r_Attempt r > d_Retries d)"

definition retry_item_of :: "time \<Rightarrow> run_rec \<Rightarrow> definition_rec \<Rightarrow> retry_item" where
  "retry_item_of now r d = \<lparr>ri_due = now + retry_delay d, ri_runID = r_ID r, ri_name = d_Name d, ri_defID = d_ID d,
     ri_revision = r_Revision r, ri_hash = r_DefinitionHash r, ri_attempt = r_Attempt r,
     ri_scheduled = r_ScheduledFor r, ri_delay = retry_delay d\<rparr>"

definition scheduleRetry :: "exec_config \<Rightarrow> time \<Rightarrow> run_rec \<Rightarrow> definition_rec \<Rightarrow> service \<Rightarrow> service" where
  "scheduleRetry cfg now r d s = (if \<not> retryable r d then s else addRetry cfg (retry_item_of now r d) s)"

text \<open>The row that records a dropped retry.\<close>

definition evidence_run :: "exec_config \<Rightarrow> env \<Rightarrow> retry_item \<Rightarrow> run_rec" where
  "evidence_run cfg e it = zero_run\<lparr>r_ID := e_uuid e, r_DefinitionID := ri_defID it, r_Job := ri_name it,
     r_Kind := KindJob, r_Revision := ri_revision it, r_DefinitionHash := ri_hash it, r_Status := ''skipped'',
     r_EndReason := ''retry_dropped'', r_Trigger := ''retry'', r_Attempt := ri_attempt it + 1,
     r_ParentRunID := ri_runID it, r_ScheduledFor := ri_scheduled it, r_BootID := c_bootID cfg,
     r_QueuedAt := e_now e 0, r_EndedAt := Some (e_now e 0)\<rparr>"

fun write_evidence :: "exec_config \<Rightarrow> (nat \<Rightarrow> env) \<Rightarrow> nat \<Rightarrow> retry_item list \<Rightarrow> service \<Rightarrow> service" where
  "write_evidence cfg es n [] s = s"
| "write_evidence cfg es n (it # items) s =
     (let s0 = stop_if (e_stop (es n) 0) s
      in if s_closing s0 then s0
         else case call (e_io (es n) CCreate) (CreateRun (evidence_run cfg (es n) it)) (s_db s0) of
           (b, Inl err) \<Rightarrow>
             s0\<lparr>s_db := b, s_retries := (s_retries s0)\<lparr>rt_lost := rt_lost (s_retries s0) + int (length (it # items))\<rparr>\<rparr>
         | (b, Inr _) \<Rightarrow> write_evidence cfg es (Suc n) items (s0\<lparr>s_db := b\<rparr>))"

definition persistRetryEvidence :: "exec_config \<Rightarrow> (nat \<Rightarrow> env) \<Rightarrow> service \<Rightarrow> service" where
  "persistRetryEvidence cfg es s =
     write_evidence cfg es 0 (rt_evidence (s_retries s)) (s\<lparr>s_retries := (s_retries s)\<lparr>rt_evidence := []\<rparr>\<rparr>)"

definition due_retries :: "time \<Rightarrow> retry_item list \<Rightarrow> retry_item list \<times> retry_item list" where
  "due_retries now h =
     take_due (\<lambda>xs. xs = []) (\<lambda>xs. xs ! 0) (heap_pop ri_due) (\<lambda>it. \<not> ri_due it > now) retryBatch h"

section \<open>Run rows\<close>

definition new_run :: "exec_config \<Rightarrow> string \<Rightarrow> time \<Rightarrow> definition_rec \<Rightarrow> string \<Rightarrow> string \<Rightarrow> string \<Rightarrow>
    time option \<Rightarrow> int \<Rightarrow> string \<Rightarrow> run_rec" where
  "new_run cfg rid now d hash status trig scheduled attempt parent =
     zero_run\<lparr>r_ID := rid, r_DefinitionID := d_ID d, r_Job := d_Name d, r_Kind := d_Kind d,
       r_Revision := d_Revision d, r_DefinitionHash := hash, r_Status := status, r_Trigger := trig,
       r_Attempt := attempt, r_ParentRunID := parent, r_ScheduledFor := scheduled, r_BootID := c_bootID cfg,
       r_QueuedAt := now\<rparr>"

definition has_key :: "idempotency_req option \<Rightarrow> bool" where
  "has_key idem = (case idem of None \<Rightarrow> False | Some i \<Rightarrow> id_Key i \<noteq> '''')"

definition admit_key :: "env \<Rightarrow> run_rec \<Rightarrow> idempotency_req option \<Rightarrow> service \<Rightarrow> service \<times> (call_error + string)" where
  "admit_key e r idem s =
     (case idem of None \<Rightarrow> (s, Inl Unavailable)
      | Some i \<Rightarrow>
          (case call (e_io e CAdmit) (AdmitIdempotentRun (e_now e 2) (e_now e 3) r (id_Principal i) (id_Operation i)
                  (id_Key i) (id_RequestHash i)) (s_db s) of
             (b, res) \<Rightarrow> (s\<lparr>s_db := b\<rparr>, res)))"

definition read_run :: "env \<Rightarrow> string \<Rightarrow> service \<Rightarrow> exec_error + run_rec" where
  "read_run e rid s = (case call_read (e_io e CRun) (run_get rid) (s_db s) of Inl err \<Rightarrow> Inl (ExStore err) | Inr r \<Rightarrow> Inr r)"

definition replay :: "env \<Rightarrow> string \<Rightarrow> service \<Rightarrow> exec_error + (run_rec \<times> bool)" where
  "replay e rid s = (case read_run e rid s of Inl err \<Rightarrow> Inl err | Inr r \<Rightarrow> Inr (r, True))"

text \<open>The run a schedule already recorded for this occurrence.\<close>

definition existing_occurrence :: "env \<Rightarrow> definition_rec \<Rightarrow> string \<Rightarrow> time option \<Rightarrow> service \<Rightarrow> run_rec option" where
  "existing_occurrence e d trig scheduled s =
     (case scheduled of
        None \<Rightarrow> None
      | Some at \<Rightarrow>
          if trig \<noteq> ''schedule'' then None
          else (case call_read (e_io e CScheduled) (ScheduledRun (d_ID d) at) (s_db s) of Inl _ \<Rightarrow> None | Inr r \<Rightarrow> Some r))"

definition admitRow :: "env \<Rightarrow> run_rec \<Rightarrow> service \<Rightarrow> service \<times> (exec_error + bool)" where
  "admitRow e r s =
     (if sh_down (s_health s) \<and> historyPending s
      then (s, if e_ctx e 1 then Inl ExCanceled else Inr False)
      else case call (e_io e CCreate) (CreateRun r) (s_db s) of
        (b, Inr _) \<Rightarrow> (storageRecovered (s\<lparr>s_db := b\<rparr>), Inr True)
      | (b, Inl err) \<Rightarrow>
          if storageUnavailable (e_ctx e 1) err
          then (storageFailed (e_now e 4) (s\<lparr>s_db := b\<rparr>), Inr False)
          else (s\<lparr>s_db := b\<rparr>, Inl (ExStore err)))"

definition set_create :: "final_item \<Rightarrow> final_item" where
  "set_create it = it\<lparr>fi_create := True\<rparr>"

definition deferRecord :: "exec_config \<Rightarrow> env \<Rightarrow> run_rec \<Rightarrow> definition_rec \<Rightarrow> service \<Rightarrow> service" where
  "deferRecord cfg e r d s =
     (case spool cfg (e_now e 5) (e_stop e 1) r d set_create (count_deferred s) of
        (s1, True) \<Rightarrow> s1 | (s1, False) \<Rightarrow> historyLost s1)"

definition recordSkipped :: "exec_config \<Rightarrow> env \<Rightarrow> definition_rec \<Rightarrow> string \<Rightarrow> string \<Rightarrow> time option \<Rightarrow>
    idempotency_req option \<Rightarrow> int \<Rightarrow> string \<Rightarrow> string \<Rightarrow> service \<Rightarrow> service \<times> (exec_error + (run_rec \<times> bool))" where
  "recordSkipped cfg e d hash trig scheduled idem attempt parent reason s =
     (let r = (new_run cfg (e_uuid e) (e_now e 1) d hash ''skipped'' trig scheduled attempt parent)
            \<lparr>r_EndReason := reason, r_EndedAt := Some (e_now e 1)\<rparr>
      in if has_key idem
         then case admit_key e r idem s of
                (s1, Inl err) \<Rightarrow> (s1, Inl (ExStore err))
              | (s1, Inr existing) \<Rightarrow>
                  if existing \<noteq> '''' then (s1, replay e existing s1) else (notifyFinished r d s1, Inr (r, False))
         else case admitRow e r s of
                (s1, Inl err) \<Rightarrow>
                  (case existing_occurrence e d trig scheduled s1 of
                     Some existing \<Rightarrow> (s1, Inr (existing, True)) | None \<Rightarrow> (s1, Inl err))
              | (s1, Inr recorded) \<Rightarrow>
                  (notifyFinished r d (if recorded then s1 else deferRecord cfg e r d s1), Inr (r, False)))"

definition skipUnrecorded :: "exec_config \<Rightarrow> env \<Rightarrow> run_rec \<Rightarrow> definition_rec \<Rightarrow> service \<Rightarrow> service \<times> run_rec" where
  "skipUnrecorded cfg e r d s =
     (let t = zero_terminal\<lparr>t_status := ''skipped'', t_reason := ''history_unavailable'', t_ended := e_now e 6\<rparr>;
          upd = (\<lambda>it. it\<lparr>fi_create := True, fi_done := True, fi_t := t\<rparr>);
          s2 = (case spool cfg (e_now e 5) (e_stop e 1) r d upd (count_deferred s) of
                  (s1, True) \<Rightarrow> s1 | (s1, False) \<Rightarrow> historyLost s1);
          r2 = r\<lparr>r_Status := ''skipped'', r_EndReason := ''history_unavailable'', r_EndedAt := Some (e_now e 6)\<rparr>
      in (notifyFinished r2 d s2, r2))"

definition RecordMissed :: "exec_config \<Rightarrow> env \<Rightarrow> definition_rec \<Rightarrow> string \<Rightarrow> int \<Rightarrow> time \<Rightarrow> service \<Rightarrow>
    service \<times> (exec_error + run_rec)" where
  "RecordMissed cfg e d hash missed scheduled s =
     (let r = (new_run cfg (e_uuid e) (e_now e 1) d hash ''missed'' ''schedule'' (Some scheduled) 1 '''')
            \<lparr>r_EndReason := ''crash_recovery'', r_MissedCount := missed, r_EndedAt := Some (e_now e 1)\<rparr>
      in case admitRow e r s of
           (s1, Inl err) \<Rightarrow>
             (case existing_occurrence e d ''schedule'' (Some scheduled) s1 of
                Some existing \<Rightarrow> (s1, Inr existing) | None \<Rightarrow> (s1, Inl err))
         | (s1, Inr recorded) \<Rightarrow> (notifyFinished r d (if recorded then s1 else deferRecord cfg e r d s1), Inr r))"

section \<open>Launching and completing\<close>

fun finish_attempts :: "io list \<Rightarrow> (db \<Rightarrow> unit op) \<Rightarrow> db \<Rightarrow> db \<times> (call_error + unit)" where
  "finish_attempts [] f b = (b, Inl Unavailable)"
| "finish_attempts (io # ios) f b =
     (case call io f b of
        (b', Inr _) \<Rightarrow> (b', Inr ())
      | (b', Inl err) \<Rightarrow> if ios = [] then (b', Inl err) else finish_attempts ios f b')"

text \<open>At most five attempts, fewer when the deadline of five seconds ends them: \<open>e_finish\<close> lists
  how the attempts end.\<close>

definition finishRun :: "env \<Rightarrow> string \<Rightarrow> terminal \<Rightarrow> db \<Rightarrow> db \<times> (call_error + unit)" where
  "finishRun e rid t b = finish_attempts (take 5 (e_finish e)) (finish_run_of rid t) b"

text \<open>The result is the run that failed to start (\<^verbatim>\<open>failedStart\<close>) and the error.\<close>

definition launch :: "env \<Rightarrow> run_rec \<Rightarrow> definition_rec \<Rightarrow> bool \<Rightarrow> service \<Rightarrow> service \<times> run_rec option \<times> exec_error option" where
  "launch e r d recorded s0 =
     (let s = stop_if (e_stop e 2) s0;
          releaseCapacity = (\<lambda>s. if d_Kind d = KindJob then releaseSlot s else s)
      in if s_closing s
         then let s1 = dropFinalizer (r_ID r) s
              in if \<not> recorded then (releaseCapacity s1, None, Some ExShutdown)
                 else case finishRun e (r_ID r) (zero_terminal\<lparr>t_status := ''failed'', t_reason := ''start_error'',
                         t_ended := e_now e 7\<rparr>) (s_db s1) of
                        (b, _) \<Rightarrow> (releaseCapacity (s1\<lparr>s_db := b\<rparr>), None, Some ExShutdown)
         else (s\<lparr>s_active := put_key (r_ID r) \<lparr>a_run = r, a_def = d, a_unrecorded = \<not> recorded\<rparr> (s_active s),
                 s_byJob := (s_byJob s)(d_Name d := s_byJob s (d_Name d) + 1)\<rparr>, None, None))"

definition announce_failed :: "exec_config \<Rightarrow> env \<Rightarrow> run_rec option \<Rightarrow> definition_rec \<Rightarrow> service \<Rightarrow> service" where
  "announce_failed cfg e failed d s =
     (case failed of None \<Rightarrow> s | Some r \<Rightarrow> scheduleRetry cfg (e_now e 8) r d (notifyFinished r d s))"

text \<open>The end of \<^verbatim>\<open>execute\<close>: the run leaves the active set and frees its slot.\<close>

definition execute_done :: "string \<Rightarrow> service \<Rightarrow> service" where
  "execute_done rid s =
     (case map_of (s_active s) rid of
        None \<Rightarrow> s
      | Some a \<Rightarrow>
          let name = d_Name (a_def a);
              s1 = s\<lparr>s_active := del_key rid (s_active s),
                     s_byJob := (s_byJob s)(name := if s_byJob s name \<le> 1 then 0 else s_byJob s name - 1)\<rparr>
          in if d_Kind (a_def a) = KindJob then releaseSlot s1 else s1)"

definition persistStart :: "exec_config \<Rightarrow> env \<Rightarrow> run_rec \<Rightarrow> definition_rec \<Rightarrow> bool \<Rightarrow> start_info \<Rightarrow> service \<Rightarrow>
    service \<times> exec_error option" where
  "persistStart cfg e r d unrecorded info s =
     (let upd = (\<lambda>it. it\<lparr>fi_start := True, fi_started := info\<rparr>);
          defer_it = (\<lambda>s. case spool cfg (e_now e 5) (e_stop e 1) r d upd s of
                             (s1, True) \<Rightarrow> (s1, None) | (s1, False) \<Rightarrow> (historyLost s1, None))
      in if unrecorded then (s, None)
         else case spooled (r_ID r) upd s of
           (s1, True) \<Rightarrow> (s1, None)
         | (s1, False) \<Rightarrow>
             if sh_down (s_health s1) then defer_it s1
             else case call (e_io e CStart) (StartRun (r_ID r) (si_pid info) (si_pgid info) (si_id info) (si_at info)) (s_db s1) of
                    (b, Inr _) \<Rightarrow> (storageRecovered (s1\<lparr>s_db := b\<rparr>), None)
                  | (b, Inl err) \<Rightarrow>
                      if err = Refused ErrInvalidTransition then (s1\<lparr>s_db := b\<rparr>, Some (ExStore err))
                      else defer_it (storageFailed (e_now e 4) (s1\<lparr>s_db := b\<rparr>)))"

definition finished :: "exec_config \<Rightarrow> env \<Rightarrow> run_rec \<Rightarrow> definition_rec \<Rightarrow> terminal \<Rightarrow> service \<Rightarrow> service" where
  "finished cfg e r d t s =
     (let r1 = (record_outcome_of r t)\<lparr>r_ResourceUsage := t_usage t\<rparr>;
          s1 = notifyFinished r1 d s
      in if t_retry t then scheduleRetry cfg (e_now e 8) r1 d s1 else s1)"

definition complete :: "exec_config \<Rightarrow> env \<Rightarrow> run_rec \<Rightarrow> definition_rec \<Rightarrow> bool \<Rightarrow> terminal \<Rightarrow> service \<Rightarrow> service" where
  "complete cfg e r d unrecorded t s0 =
     (let s = recordOutcome r t s0;
          upd = (\<lambda>it. it\<lparr>fi_done := True, fi_t := t\<rparr>);
          defer_it = (\<lambda>s. case spool cfg (e_now e 5) (e_stop e 1) r d upd s of
                             (s1, True) \<Rightarrow> s1
                           | (s1, False) \<Rightarrow> if s_closing s1 then s1 else historyLost s1)
      in if unrecorded then finished cfg e r d t s
         else case spooled (r_ID r) upd s of
           (s1, True) \<Rightarrow> finished cfg e r d t s1
         | (s1, False) \<Rightarrow>
             if sh_down (s_health s1) then finished cfg e r d t (defer_it s1)
             else case finishRun e (r_ID r) t (s_db s1) of
                    (b, Inr _) \<Rightarrow>
                      finished cfg e r d t
                        ((storageRecovered (s1\<lparr>s_db := b\<rparr>))\<lparr>s_lag := observe (e_now e 7) (t_ended t) (s_lag s1)\<rparr>)
                  | (b, Inl err) \<Rightarrow>
                      if err = Refused ErrInvalidTransition then s1\<lparr>s_db := b\<rparr>
                      else finished cfg e r d t (defer_it (storageFailed (e_now e 4) (s1\<lparr>s_db := b\<rparr>))))"

section \<open>Admission\<close>

definition enqueue :: "exec_config \<Rightarrow> env \<Rightarrow> definition_rec \<Rightarrow> string \<Rightarrow> string \<Rightarrow> time option \<Rightarrow>
    idempotency_req option \<Rightarrow> int \<Rightarrow> string \<Rightarrow> service \<Rightarrow> service \<times> (exec_error + (run_rec \<times> bool))" where
  "enqueue cfg e d hash trig scheduled idem attempt parent s =
     (let r = (new_run cfg (e_uuid e) (e_now e 1) d hash ''queued'' trig scheduled attempt parent)
            \<lparr>r_LogRef := ''file:'' @ e_uuid e\<rparr>;
          key = (if has_key idem then idem else None);
          rejected = (\<lambda>s. s\<lparr>s_queue := (s_queue s)\<lparr>qu_rejected := qu_rejected (s_queue s) + 1\<rparr>\<rparr>);
          unavailable = (\<lambda>s. s\<lparr>s_queue := (s_queue s)\<lparr>qu_unavailable := qu_unavailable (s_queue s) + 1\<rparr>\<rparr>)
      in case call (e_io e CEnqueue)
               (EnqueueRun (e_now e 2) (e_now e 3) r key (queueLimits cfg) (d_OnOverlap d = ''skip'')) (s_db s) of
           (b, Inr existing) \<Rightarrow>
             let s1 = s\<lparr>s_db := b\<rparr>
             in if existing \<noteq> '''' then (s1, replay e existing s1)
                else (case startLoop queue_loop_started (stop_if (e_stop e 1) (add_depth 1 s1)) of
                        (s2, False) \<Rightarrow> (s2, Inr (r, False))
                      | (s2, True) \<Rightarrow> (signal_queue s2, Inr (r, False)))
         | (b, Inl err) \<Rightarrow>
             let s1 = s\<lparr>s_db := b\<rparr>
             in if err = Refused ErrQueueDuplicate
                then recordSkipped cfg e d hash trig scheduled idem attempt parent ''overlap_skip'' s1
                else if err = Refused ErrQueueFull
                then (if trig = ''retry'' then (rejected s1, Inl ExCapacity)
                      else if trig = ''manual'' then (rejected s1, Inl ExQueueFull)
                      else recordSkipped cfg e d hash trig scheduled idem attempt parent ''queue_full'' (rejected s1))
                else if err = Refused ErrIdempotencyConflict \<or> err = Refused ErrIdempotencyKeyExists \<or> e_ctx e 1
                then (s1, Inl (ExStore err))
                else (case existing_occurrence e d trig scheduled s1 of
                        Some existing \<Rightarrow> (s1, Inr (existing, True))
                      | None \<Rightarrow>
                          (unavailable s1, Inl (if trig = ''retry'' then ExCapacity else ExQueueUnavailable))))"

definition launch_result :: "exec_config \<Rightarrow> env \<Rightarrow> run_rec \<Rightarrow> definition_rec \<Rightarrow> bool \<Rightarrow> service \<Rightarrow>
    service \<times> (exec_error + (run_rec \<times> bool))" where
  "launch_result cfg e r d recorded s =
     (case launch e r d recorded s of
        (s1, failed, err) \<Rightarrow>
          (announce_failed cfg e failed d s1, (case err of None \<Rightarrow> Inr (r, False) | Some x \<Rightarrow> Inl x)))"

text \<open>The part of \<^verbatim>\<open>trigger\<close> after the capacity slot is taken (for a job).\<close>

definition admit_run :: "exec_config \<Rightarrow> env \<Rightarrow> definition_rec \<Rightarrow> string \<Rightarrow> string \<Rightarrow> time option \<Rightarrow>
    idempotency_req option \<Rightarrow> int \<Rightarrow> string \<Rightarrow> service \<Rightarrow> service \<times> (exec_error + (run_rec \<times> bool))" where
  "admit_run cfg e d hash trig scheduled idem attempt parent s =
     (let r = (new_run cfg (e_uuid e) (e_now e 1) d hash ''pending'' trig scheduled attempt parent)
            \<lparr>r_LogRef := ''file:'' @ e_uuid e\<rparr>;
          releaseCapacity = (\<lambda>s. if d_Kind d = KindJob then releaseSlot s else s)
      in if has_key idem
         then case admit_key e r idem s of
                (s1, Inl err) \<Rightarrow> (releaseCapacity s1, Inl (ExStore err))
              | (s1, Inr existing) \<Rightarrow>
                  if existing \<noteq> '''' then (releaseCapacity s1, replay e existing s1)
                  else launch_result cfg e r d True s1
         else case admitRow e r s of
                (s1, Inl err) \<Rightarrow>
                  (releaseCapacity s1, (case existing_occurrence e d trig scheduled s1 of
                     Some existing \<Rightarrow> Inr (existing, True) | None \<Rightarrow> Inl err))
              | (s1, Inr True) \<Rightarrow> launch_result cfg e r d True s1
              | (s1, Inr False) \<Rightarrow>
                  if d_Kind d = KindJob \<and> d_OnHistoryUnavailable d = ''skip''
                  then (case skipUnrecorded cfg e r d (releaseCapacity s1) of (s2, r2) \<Rightarrow> (s2, Inr (r2, False)))
                  else (case spool cfg (e_now e 5) (e_stop e 1) r d set_create (count_deferred s1) of
                          (s2, True) \<Rightarrow> launch_result cfg e r d True s2
                        | (s2, False) \<Rightarrow> launch_result cfg e r d False (historyLost s2)))"

definition trigger :: "exec_config \<Rightarrow> env \<Rightarrow> definition_rec \<Rightarrow> string \<Rightarrow> string \<Rightarrow> time option \<Rightarrow>
    idempotency_req option \<Rightarrow> int \<Rightarrow> string \<Rightarrow> service \<Rightarrow> service \<times> (exec_error + (run_rec \<times> bool))" where
  "trigger cfg e d hash trig scheduled idem attempt parent s0 =
     (if s_closing s0 then (s0, Inl ExShutdown)
      else case e_admission e of
        Some err \<Rightarrow> (s0, Inl err)
      | None \<Rightarrow>
          let s = stop_if (e_stop e 0) s0; job = (d_Kind d = KindJob)
          in if s_closing s then (s, Inl ExShutdown)
             else if e_ctx e 0 then (s, Inl ExCanceled)
             else if \<not> IsEnabled d then (s, Inl ExDisabled)
             else if job \<and> d_OnOverlap d = ''skip'' \<and> Active (d_Name d) s > 0
             then recordSkipped cfg e d hash trig scheduled idem attempt parent ''overlap_skip'' s
             else if job \<and> queueable cfg trig \<and> qu_depth (s_queue s) > 0
             then enqueue cfg e d hash trig scheduled idem attempt parent s
             else if job \<and> \<not> slot_free cfg s
             then (if queueable cfg trig then enqueue cfg e d hash trig scheduled idem attempt parent s
                   else if trig = ''retry'' then (s, Inl ExCapacity)
                   else recordSkipped cfg e d hash trig scheduled idem attempt parent ''queue_full'' s)
             else admit_run cfg e d hash trig scheduled idem attempt parent (if job then take_slot s else s))"

definition Trigger :: "exec_config \<Rightarrow> env \<Rightarrow> definition_rec \<Rightarrow> string \<Rightarrow> string \<Rightarrow> time option \<Rightarrow> service \<Rightarrow>
    service \<times> (exec_error + run_rec)" where
  "Trigger cfg e d hash trig scheduled s =
     (case trigger cfg e d hash trig scheduled None 1 '''' s of
        (s1, Inl err) \<Rightarrow> (s1, Inl err) | (s1, Inr (r, _)) \<Rightarrow> (s1, Inr r))"

definition TriggerIdempotent :: "exec_config \<Rightarrow> env \<Rightarrow> definition_rec \<Rightarrow> string \<Rightarrow> string \<Rightarrow> time option \<Rightarrow>
    idempotency_req \<Rightarrow> service \<Rightarrow> service \<times> (exec_error + (run_rec \<times> bool))" where
  "TriggerIdempotent cfg e d hash trig scheduled idem s = trigger cfg e d hash trig scheduled (Some idem) 1 '''' s"

section \<open>The retry loop\<close>

definition retryNow :: "exec_config \<Rightarrow> env \<Rightarrow> retry_item \<Rightarrow> service \<Rightarrow> service" where
  "retryNow cfg e it s =
     (case call_read (e_io e CDefinition) (Definition_get (ri_name it)) (s_db s) of
        Inl err \<Rightarrow>
          if \<not> s_closing s \<and> err \<noteq> Refused ErrNoRows
          then addRetry cfg (it\<lparr>ri_due := e_now e 9 + max (ri_delay it) Second\<rparr>) s else s
      | Inr (current, hash) \<Rightarrow>
          if d_ID current \<noteq> ri_defID it \<or> d_Kind current \<noteq> KindJob \<or> \<not> IsEnabled current
             \<or> ri_attempt it > d_Retries current
          then s
          else case trigger cfg e current hash ''retry'' (ri_scheduled it) None (ri_attempt it + 1) (ri_runID it) s of
                 (s1, Inl ExCapacity) \<Rightarrow> addRetry cfg (it\<lparr>ri_due := e_now e 9 + ri_delay it\<rparr>) s1
               | (s1, _) \<Rightarrow> s1)"

fun retry_all :: "exec_config \<Rightarrow> (nat \<Rightarrow> env) \<Rightarrow> nat \<Rightarrow> retry_item list \<Rightarrow> service \<Rightarrow> service" where
  "retry_all cfg es n [] s = s"
| "retry_all cfg es n (it # due) s =
     (let s0 = stop_if (e_stop (es n) 3) s
      in if s_closing s0 then s0 else retry_all cfg es (Suc n) due (retryNow cfg (es n) it s0))"

definition retryStep :: "exec_config \<Rightarrow> time \<Rightarrow> (nat \<Rightarrow> env) \<Rightarrow> (nat \<Rightarrow> env) \<Rightarrow> service \<Rightarrow> service" where
  "retryStep cfg now es1 es2 s =
     (let s1 = persistRetryEvidence cfg es1 s
      in case due_retries now (rt_heap (s_retries s1)) of
           (due, rest) \<Rightarrow> retry_all cfg es2 0 due (s1\<lparr>s_retries := (s_retries s1)\<lparr>rt_heap := rest\<rparr>\<rparr>))"

section \<open>Draining the queue\<close>

definition queueExpireBatch :: nat where "queueExpireBatch = 100"

definition queueHeadWindow :: nat where "queueHeadWindow = 64"

definition queueBackoffMin :: duration where "queueBackoffMin = Second"

definition queueBackoffMax :: duration where "queueBackoffMax = 30 * Second"

definition ResumeQueue :: "env \<Rightarrow> service \<Rightarrow> service \<times> exec_error option" where
  "ResumeQueue e s =
     (case call_read (e_io e CStats) (\<lambda>b. Inr (QueueStats b)) (s_db s) of
        Inl err \<Rightarrow> (s, Some (ExStore err))
      | Inr st \<Rightarrow>
          let s1 = s\<lparr>s_queue := (s_queue s)\<lparr>qu_depth := int (qs_Depth st)\<rparr>\<rparr>
          in if qs_Depth st > 0
             then (case startLoop queue_loop_started s1 of
                     (s2, True) \<Rightarrow> (signal_queue s2, None) | (s2, False) \<Rightarrow> (s2, None))
             else (s1, None))"

definition untilExpiry :: "env \<Rightarrow> service \<Rightarrow> duration \<Rightarrow> exec_error + duration" where
  "untilExpiry e s base =
     (case call_read (e_io e CNextExpiry) (\<lambda>b. Inr (NextQueueExpiry b)) (s_db s) of
        Inl err \<Rightarrow> Inl (ExStore err)
      | Inr None \<Rightarrow> Inr base
      | Inr (Some at) \<Rightarrow>
          let til = max (time_sub at (e_now e 2)) Millisecond
          in if base < 0 \<or> til < base then Inr til else Inr base)"

definition served_tick :: "(int \<times> 64 word) list \<Rightarrow> int \<Rightarrow> 64 word" where
  "served_tick served did = (case map_of served did of None \<Rightarrow> 0 | Some t \<Rightarrow> t)"

fun pick_head :: "(int \<Rightarrow> 64 word) \<Rightarrow> queue_item option \<Rightarrow> queue_item list \<Rightarrow> queue_item option" where
  "pick_head tick best [] = best"
| "pick_head tick best (h # hs) =
     pick_head tick
       (case best of None \<Rightarrow> Some h
        | Some b \<Rightarrow> if tick (qi_DefinitionID h) < tick (qi_DefinitionID b) then Some h else Some b) hs"

definition nextItem :: "env \<Rightarrow> service \<Rightarrow> exec_error + queue_item option" where
  "nextItem e s =
     (case call_read (e_io e CHeads) (\<lambda>b. Inr (QueueHeads queueHeadWindow b)) (s_db s) of
        Inl err \<Rightarrow> Inl (ExStore err)
      | Inr heads \<Rightarrow> Inr (pick_head (served_tick (qu_served (s_queue s))) None heads))"

text \<open>Ending a queued run that may not start; \<open>notify\<close> is the definition whose channels hear of
  it. The result says that nothing was started.\<close>

definition drop_item :: "env \<Rightarrow> run_rec \<Rightarrow> string \<Rightarrow> definition_rec option \<Rightarrow> service \<Rightarrow> service \<times> (exec_error + bool)" where
  "drop_item e run reason notify s =
     (case call (e_io e CDrop) (DropQueued (r_ID run) reason (e_now e 4)) (s_db s) of
        (b, res) \<Rightarrow>
          let s1 = s\<lparr>s_db := b\<rparr>;
              counted = s1\<lparr>s_queue := (s_queue s1)\<lparr>qu_dropped := qu_dropped (s_queue s1) + 1\<rparr>\<rparr>
          in case res of
               Inl err \<Rightarrow> if err = Refused ErrInvalidTransition then (counted, Inr False) else (s1, Inl (ExStore err))
             | Inr _ \<Rightarrow>
                 (case notify of
                    None \<Rightarrow> (counted, Inr False)
                  | Some d \<Rightarrow>
                      (notifyFinished (run\<lparr>r_Status := ''skipped'', r_EndReason := reason, r_EndedAt := Some (e_now e 4)\<rparr>)
                         d counted, Inr False)))"

text \<open>The point of no return: dequeue and launch.\<close>

definition start_item :: "exec_config \<Rightarrow> env \<Rightarrow> run_rec \<Rightarrow> definition_rec \<Rightarrow> string \<Rightarrow> service \<Rightarrow>
    service \<times> (exec_error + bool)" where
  "start_item cfg e run current hash s0 =
     (let s = stop_if (e_stop e 1) s0
      in if s_closing s then (s, Inl ExShutdown)
         else case call (e_io e CDequeue) (DequeueRun (r_ID run) (d_Revision current) hash (c_bootID cfg)) (s_db s) of
           (b, Inl err) \<Rightarrow>
             (s\<lparr>s_db := b\<rparr>, if err = Refused ErrInvalidTransition then Inr False else Inl (ExStore err))
         | (b, Inr _) \<Rightarrow>
             (case launch e (run\<lparr>r_Status := ''pending'', r_Revision := d_Revision current, r_DefinitionHash := hash,
                      r_BootID := c_bootID cfg\<rparr>) current True (s\<lparr>s_db := b\<rparr>) of
                (s1, failed, _) \<Rightarrow> (announce_failed cfg e failed current s1, Inr True)))"

definition startQueued :: "exec_config \<Rightarrow> env \<Rightarrow> queue_item \<Rightarrow> service \<Rightarrow> service \<times> (exec_error + bool)" where
  "startQueued cfg e item s =
     (case call_read (e_io e CRun) (run_get (qi_RunID item)) (s_db s) of
        Inl err \<Rightarrow> (s, Inl (ExStore err))
      | Inr run \<Rightarrow>
          if r_Status run \<noteq> ''queued'' then drop_item e run ''queue_inconsistent'' None s
          else
            let found = call_read (e_io e CDefinition) (Definition_get (r_Job run)) (s_db s)
            in if unix_micro (e_now e 3) \<ge> qi_ExpiresUS item
               then drop_item e run ''queue_expired''
                      (case found of
                         Inr (current, _) \<Rightarrow>
                           if d_ID current = qi_DefinitionID item \<and> IsEnabled current then Some current else None
                       | Inl _ \<Rightarrow> None)
                      (s\<lparr>s_queue := (s_queue s)\<lparr>qu_expired := qu_expired (s_queue s) + 1\<rparr>\<rparr>)
               else case found of
                 Inl err \<Rightarrow>
                   if err = Refused ErrNoRows then drop_item e run ''definition_removed'' None s
                   else (s, Inl (ExStore err))
               | Inr (current, hash) \<Rightarrow>
                   if d_ID current \<noteq> qi_DefinitionID item \<or> d_Kind current \<noteq> KindJob
                   then drop_item e run ''definition_removed'' None s
                   else if \<not> IsEnabled current then drop_item e run ''definition_disabled'' None s
                   else if r_Trigger run = ''retry'' \<and> r_Attempt run - 1 > d_Retries current
                   then drop_item e run ''retry_budget'' (Some current) s
                   else if d_OnOverlap current = ''skip'' \<and> Active (d_Name current) s > 0
                   then drop_item e run ''overlap_skip'' (Some current) s
                   else start_item cfg e run current hash s)"

definition serve :: "queue_item \<Rightarrow> service \<Rightarrow> service" where
  "serve item s =
     (let tick = qu_tick (s_queue s) + 1
      in s\<lparr>s_queue := (s_queue s)\<lparr>qu_tick := tick, qu_served := put_key (qi_DefinitionID item) tick (qu_served (s_queue s))\<rparr>\<rparr>)"

definition served_bounded :: "service \<Rightarrow> service" where
  "served_bounded s =
     (if length (qu_served (s_queue s)) > 4096 then s\<lparr>s_queue := (s_queue s)\<lparr>qu_served := []\<rparr>\<rparr> else s)"

definition set_nextStart :: "exec_config \<Rightarrow> time \<Rightarrow> service \<Rightarrow> service" where
  "set_nextStart cfg now s = s\<lparr>s_queue := (s_queue s)\<lparr>qu_nextStart := now + Second sdiv qo_DrainRate (c_queueOpt cfg)\<rparr>\<rparr>"

text \<open>The part of \<^verbatim>\<open>drainStep\<close> that holds a capacity slot.\<close>

definition drain_slot :: "exec_config \<Rightarrow> env \<Rightarrow> service \<Rightarrow> service \<times> (exec_error + duration)" where
  "drain_slot cfg e s =
     (if e_admission e \<noteq> None then (return_slot s, Inr (- 1))
      else
        let s1 = stop_if (e_stop e 0) s
        in if s_closing s1 then (return_slot s1, Inr (- 1))
           else case nextItem e s1 of
             Inl err \<Rightarrow> (return_slot s1, Inl err)
           | Inr None \<Rightarrow>
               (case call_read (e_io e CStats) (\<lambda>b. Inr (QueueStats b)) (s_db s1) of
                  Inl err \<Rightarrow> (return_slot s1, Inl (ExStore err))
                | Inr st \<Rightarrow> (return_slot (s1\<lparr>s_queue := (s_queue s1)\<lparr>qu_depth := int (qs_Depth st)\<rparr>\<rparr>), Inr 0))
           | Inr (Some item) \<Rightarrow>
               (case startQueued cfg e item (serve item s1) of
                  (s2, Inl err) \<Rightarrow> (return_slot s2, Inl err)
                | (s2, Inr started) \<Rightarrow>
                    let s3 = served_bounded (add_depth (- 1) s2)
                    in if started then (set_nextStart cfg (e_now e 6) s3, Inr 0) else (return_slot s3, Inr 0)))"

definition drainStep :: "exec_config \<Rightarrow> env \<Rightarrow> service \<Rightarrow> service \<times> (exec_error + duration)" where
  "drainStep cfg e s =
     (if qu_depth (s_queue s) \<le> 0 then (s, Inr (- 1))
      else case call (e_io e CExpire) (\<lambda>b. case ExpireQueued (e_now e 0) queueExpireBatch b of (b', ids) \<Rightarrow> (b', Inr ids))
                  (s_db s) of
        (b, Inl err) \<Rightarrow> (s\<lparr>s_db := b\<rparr>, Inl (ExStore err))
      | (b, Inr ids) \<Rightarrow>
          let n = length ids;
              s1 = add_depth (- int n) (s\<lparr>s_db := b\<rparr>);
              s2 = s1\<lparr>s_queue := (s_queue s1)\<lparr>qu_expired := qu_expired (s_queue s1) + int n\<rparr>\<rparr>
          in if n = queueExpireBatch then (s2, Inr 0)
             else if qu_depth (s_queue s2) \<le> 0 then (s2, Inr (- 1))
             else let wait = time_sub (qu_nextStart (s_queue s2)) (e_now e 1)
                  in if wait > 0 then (s2, untilExpiry e s2 wait)
                     else if \<not> slot_free cfg s2 then (s2, untilExpiry e s2 (- 1))
                     else drain_slot cfg e (take_slot s2))"

text \<open>How long \<^verbatim>\<open>queueLoop\<close> waits after a step (zero: not at all; negative: until it is
  woken), and its next backoff.\<close>

definition drain_wait :: "exec_error + duration \<Rightarrow> duration \<Rightarrow> duration \<times> duration" where
  "drain_wait res backoff =
     (case res of
        Inl _ \<Rightarrow> (backoff, backoff_next queueBackoffMax backoff)
      | Inr next_in \<Rightarrow> (next_in, queueBackoffMin))"

interpretation drain_backoff: capped_backoff queueBackoffMin queueBackoffMax
  by unfold_locales (simp_all add: queueBackoffMin_def queueBackoffMax_def)

section \<open>Stopping\<close>

text \<open>\<open>Stop\<close> of an active run cancels its context; a queued run is cancelled in the queue. The
  result says whether the run was found.\<close>

definition Stop :: "env \<Rightarrow> string \<Rightarrow> service \<Rightarrow> service \<times> exec_error option" where
  "Stop e rid s =
     (if map_of (s_active s) rid \<noteq> None then (s, None)
      else if e_admission e \<noteq> None then (s, Some ExNotExist)
      else case call (e_io e CCancel) (CancelQueued rid (e_now e 0)) (s_db s) of
        (b, Inl _) \<Rightarrow> (s\<lparr>s_db := b\<rparr>, Some ExNotExist)
      | (b, Inr _) \<Rightarrow> (add_depth (- 1) (s\<lparr>s_db := b\<rparr>), None))"

definition shutdownGraceFor :: "duration \<Rightarrow> int \<Rightarrow> int" where
  "shutdownGraceFor limit grace =
     (if limit \<le> 0 \<or> wrap64 (grace * Second) \<le> limit then grace else max (limit sdiv Second) 1)"

datatype wait_result = WaitOk | WaitExit int string | WaitError

datatype stop_cause = NoCause | DeadlineExceeded | OtherCause

definition classify :: "wait_result \<Rightarrow> stop_cause \<Rightarrow> int list \<Rightarrow> string \<times> string \<times> int option \<times> string" where
  "classify err cause success =
     (case err of
        WaitOk \<Rightarrow>
          if cause = DeadlineExceeded then (''timeout'', ''timeout'', Some 0, '''')
          else if cause \<noteq> NoCause then (''stopped'', ''stop_signal'', Some 0, '''')
          else if 0 \<in> set success then (''succeeded'', ''exit'', Some 0, '''')
          else (''failed'', ''exit_nonzero'', Some 0, '''')
      | WaitExit code signal \<Rightarrow>
          if cause = DeadlineExceeded then (''timeout'', ''timeout'', Some code, signal)
          else if cause \<noteq> NoCause then (''stopped'', ''stop_signal'', Some code, signal)
          else if code \<in> set success then (''succeeded'', ''exit'', Some code, signal)
          else if signal \<noteq> '''' then (''failed'', ''signal'', Some code, signal)
          else (''failed'', ''exit_nonzero'', Some code, '''')
      | WaitError \<Rightarrow> (''failed'', ''start_error'', None, ''''))"

end
