(* ===== verification/Executor_Invariant.thy ===== *)
theory Executor_Invariant
  imports Executor
begin

text \<open>
  The invariant of the execution service and its preservation: capacity slots and per-job counters
  agree with the active runs, the in-memory budgets hold, the retry heap is ordered, the queue and
  the active runs are disjoint, and the in-memory depth never falls below the length of the
  durable queue.

  Most operations only touch history, counters and callbacks; the relation \<open>quiet\<close> collects what
  they keep, and is reflexive and transitive, so that an operation composed of quiet ones is quiet.
\<close>

declare One_nat_def [simp del]

section \<open>The invariant\<close>

definition config_ok :: "exec_config \<Rightarrow> bool" where
  "config_ok cfg \<longleftrightarrow> 0 < c_MaxConcurrentRuns cfg \<and> 0 < qo_MaxPendingRetries (c_queueOpt cfg)
     \<and> 0 < qo_MaxFinalizers (c_queueOpt cfg) \<and> 0 < qo_DrainRate (c_queueOpt cfg)"

definition is_job_run :: "string \<times> active_run \<Rightarrow> bool" where
  "is_job_run ra \<longleftrightarrow> d_Kind (a_def (snd ra)) = KindJob"

definition is_named :: "string \<Rightarrow> string \<times> active_run \<Rightarrow> bool" where
  "is_named name ra \<longleftrightarrow> d_Name (a_def (snd ra)) = name"

definition job_runs :: "service \<Rightarrow> int" where
  "job_runs s = int (length (filter is_job_run (s_active s)))"

definition named_runs :: "string \<Rightarrow> service \<Rightarrow> int" where
  "named_runs name s = int (length (filter (is_named name) (s_active s)))"

definition active_ids :: "service \<Rightarrow> string set" where
  "active_ids s = fst ` set (s_active s)"

text \<open>A slot per active job run, and \<open>held\<close> slots an operation holds.\<close>

definition accounted :: "exec_config \<Rightarrow> int \<Rightarrow> service \<Rightarrow> bool" where
  "accounted cfg held s \<longleftrightarrow> distinct (map fst (s_active s)) \<and> s_capacity s = job_runs s + held
     \<and> s_capacity s \<le> c_MaxConcurrentRuns cfg \<and> (\<forall>name. s_byJob s name = named_runs name s)
     \<and> (\<forall>(rid, a) \<in> set (s_active s). r_ID (a_run a) = rid \<and> r_Status (a_run a) \<noteq> ''queued'')"

definition item_ok :: "string \<Rightarrow> final_item \<Rightarrow> bool" where
  "item_ok rid it \<longleftrightarrow> r_ID (fi_r it) = rid \<and> r_Status (fi_r it) \<noteq> ''queued''
     \<and> (fi_done it \<longrightarrow> Terminal (t_status (fi_t it)))"

definition retries_ok :: "exec_config \<Rightarrow> retry_state \<Rightarrow> bool" where
  "retries_ok cfg rt \<longleftrightarrow> is_heap ri_due (rt_heap rt)
     \<and> int (length (rt_heap rt)) \<le> qo_MaxPendingRetries (c_queueOpt cfg) \<and> length (rt_evidence rt) \<le> retryEvidenceCap"

definition items_ok :: "exec_config \<Rightarrow> (string \<times> final_item) list \<Rightarrow> bool" where
  "items_ok cfg items \<longleftrightarrow> distinct (map fst items)
     \<and> int (length items) \<le> qo_MaxFinalizers (c_queueOpt cfg) \<and> (\<forall>(rid, it) \<in> set items. item_ok rid it)"

definition outcomes_ok :: "(string \<times> run_rec) list \<Rightarrow> bool" where
  "outcomes_ok outs \<longleftrightarrow> distinct (map fst outs) \<and> length outs \<le> maxOutcomes"

definition budgets_ok :: "exec_config \<Rightarrow> service \<Rightarrow> bool" where
  "budgets_ok cfg s \<longleftrightarrow> retries_ok cfg (s_retries s) \<and> items_ok cfg (s_finalizing s) \<and> outcomes_ok (s_outcomes s)"

definition mirrored_depth :: "service \<Rightarrow> bool" where
  "mirrored_depth s \<longleftrightarrow> int (length (db_queue (s_db s))) \<le> qu_depth (s_queue s)"

definition store_ok :: "service \<Rightarrow> bool" where
  "store_ok s \<longleftrightarrow> queue_inv (s_db s) \<and> active_ids s \<inter> set (queue_ids (s_db s)) = {}"

definition exec_inv :: "exec_config \<Rightarrow> service \<Rightarrow> bool" where
  "exec_inv cfg s \<longleftrightarrow> accounted cfg 0 s \<and> budgets_ok cfg s \<and> store_ok s"

section \<open>Quiet operations\<close>

text \<open>A change of the database that queues nothing.\<close>

definition calm :: "db \<Rightarrow> db \<Rightarrow> bool" where
  "calm b b' \<longleftrightarrow> (queue_inv b \<longrightarrow> queue_inv b') \<and> set (queue_ids b') \<subseteq> set (queue_ids b)
     \<and> length (db_queue b') \<le> length (db_queue b)"

definition quiet :: "exec_config \<Rightarrow> service \<Rightarrow> service \<Rightarrow> bool" where
  "quiet cfg s s' \<longleftrightarrow> s_capacity s' = s_capacity s \<and> s_active s' = s_active s \<and> s_byJob s' = s_byJob s
     \<and> calm (s_db s) (s_db s') \<and> qu_depth (s_queue s') = qu_depth (s_queue s)
     \<and> (budgets_ok cfg s \<longrightarrow> budgets_ok cfg s')"

named_theorems quiet_intro \<open>operations that are quiet\<close>
named_theorems calm_intro \<open>store operations that queue nothing\<close>

lemma calm_refl [simp, calm_intro]: "calm b b"
  by (simp add: calm_def)

lemma calm_trans: "calm b1 b2 \<Longrightarrow> calm b2 b3 \<Longrightarrow> calm b1 b3"
  by (auto simp: calm_def)

lemma quiet_refl [simp, quiet_intro]: "quiet cfg s s"
  by (simp add: quiet_def)

lemma quiet_trans: "quiet cfg s1 s2 \<Longrightarrow> quiet cfg s2 s3 \<Longrightarrow> quiet cfg s1 s3"
  by (auto simp: quiet_def intro: calm_trans)

lemma quiet_db [quiet_intro]: "calm (s_db s) b \<Longrightarrow> quiet cfg s (s\<lparr>s_db := b\<rparr>)"
  by (simp add: quiet_def budgets_ok_def)

lemma calm_same_queue:
  "(queue_inv b \<Longrightarrow> queue_inv b') \<Longrightarrow> db_queue b' = db_queue b \<Longrightarrow> calm b b'"
  by (simp add: calm_def queue_ids_def)

lemma calm_call [calm_intro]: "call io f b = (b', res) \<Longrightarrow> calm b (fst (f b)) \<Longrightarrow> calm b b'"
  by (auto dest: call_db)

lemma CreateRun_queue: "db_queue (fst (CreateRun r b)) = db_queue b"
  by (auto simp: CreateRun_def split: sum.splits dest: insert_run_InrD)

lemma CreateRun_calm [calm_intro]: "r_Status r \<noteq> ''queued'' \<Longrightarrow> calm b (fst (CreateRun r b))"
  by (rule calm_same_queue) (auto simp: CreateRun_queue intro: CreateRun_inv prod.collapse [symmetric])

lemma guarded_update_queue: "db_queue (fst (guarded_update P f b)) = db_queue b"
  by (simp add: guarded_update_def)

lemma StartRun_calm [calm_intro]: "calm b (fst (StartRun rid pid pgid sid at b))"
  by (rule calm_same_queue) (auto simp: StartRun_def guarded_update_queue intro: StartRun_inv [unfolded StartRun_def] prod.collapse [symmetric])

lemma finish_run_of_calm [calm_intro]:
  assumes "Terminal (t_status t)"
  shows "calm b (fst (finish_run_of rid t b))"
proof (rule calm_same_queue)
  show "queue_inv (fst (finish_run_of rid t b))" if "queue_inv b"
    unfolding finish_run_of_def
    by (rule FinishRunWithUsage_inv [OF that Terminal_not_queued [OF assms] prod.collapse [symmetric]])
qed (simp add: finish_run_of_def FinishRunWithUsage_def guarded_update_queue)

lemma AdmitIdempotentRun_calm [calm_intro]:
  assumes "r_Status r \<noteq> ''queued''"
  shows "calm b (fst (AdmitIdempotentRun now1 now2 r p oper k h b))"
proof -
  obtain b' res where eq: "AdmitIdempotentRun now1 now2 r p oper k h b = (b', res)" by fastforce
  then have "db_queue b' = db_queue b"
  proof (cases rule: AdmitIdempotentRun_cases)
    case (created b1 b2)
    have "db_queue b1 = db_queue b" using reserveIdempotency_cases [OF created(2)] by auto
    then show ?thesis using insert_run_InrD [OF created(3)] insert_idempotency_InrD [OF created(4)] by simp
  qed simp
  then show ?thesis using AdmitIdempotentRun_inv [OF _ assms eq] eq by (auto intro: calm_same_queue)
qed

lemma finish_attempts_calm:
  assumes "\<And>b. calm b (fst (f b))"
  shows "finish_attempts ios f b = (b', res) \<Longrightarrow> calm b b'"
proof (induction ios arbitrary: b)
  case (Cons io ios)
  obtain b1 r1 where c: "call io f b = (b1, r1)" by fastforce
  have c1: "calm b b1" using calm_call [OF c] assms by blast
  show ?case
  proof (cases r1)
    case (Inr u)
    then show ?thesis using Cons.prems c c1 by simp
  next
    case (Inl err)
    then show ?thesis using Cons.prems Cons.IH c c1 calm_trans by (fastforce split: if_splits)
  qed
qed simp

lemma finishRun_calm [calm_intro]: "finishRun e rid t b = (b', res) \<Longrightarrow> Terminal (t_status t) \<Longrightarrow> calm b b'"
  unfolding finishRun_def by (rule finish_attempts_calm) (auto intro: finish_run_of_calm)

section \<open>Small operations are quiet\<close>

lemma quiet_small [quiet_intro]:
  "quiet cfg s (storageFailed now s)" "quiet cfg s (storageRecovered s)" "quiet cfg s (count_deferred s)"
  "quiet cfg s (historyLost s)" "quiet cfg s (BeginShutdown s)" "quiet cfg s (stop_if stop s)"
  "quiet cfg s (queue_loop_started s)" "quiet cfg s (retry_loop_started s)" "quiet cfg s (final_loop_started s)"
  "quiet cfg s (signal_queue s)" "quiet cfg s (signal_retries s)" "quiet cfg s (signal_finals s)"
  "quiet cfg s (notifyFinished r d s)" "quiet cfg s (end_pending_of it s)"
  by (simp_all add: quiet_def budgets_ok_def storageFailed_def storageRecovered_def count_deferred_def historyLost_def
      BeginShutdown_def stop_if_def queue_loop_started_def retry_loop_started_def final_loop_started_def
      signal_queue_def signal_retries_def signal_finals_def notifyFinished_def end_pending_of_def retries_ok_def)

text \<open>The same facts in the form that peels the last operation off a goal.\<close>

lemmas quiet_after = quiet_small [THEN quiet_trans [rotated]]

lemma retry_loop_started_sel [simp]:
  "rt_heap (s_retries (retry_loop_started s)) = rt_heap (s_retries s)"
  "rt_evidence (s_retries (retry_loop_started s)) = rt_evidence (s_retries s)"
  by (simp_all add: retry_loop_started_def)

lemma heap_push_length:
  "is_heap key xs \<Longrightarrow> length (heap_push key x xs) = Suc (length xs)"
  using heap_push_ok [of key xs x] by (metis size_add_mset size_mset)

lemma addRetry_quiet [quiet_intro]: "quiet cfg s (addRetry cfg it s)"
proof -
  have "budgets_ok cfg (addRetry cfg it s)" if "budgets_ok cfg s"
    using that heap_push_ok [of ri_due "rt_heap (s_retries s)" it]
      heap_push_length [of ri_due "rt_heap (s_retries s)" it]
    by (auto simp: addRetry_def startLoop_def budgets_ok_def retries_ok_def Let_def signal_retries_def
        retry_loop_started_def retryEvidenceCap_def)
  moreover have "s_capacity (addRetry cfg it s) = s_capacity s \<and> s_active (addRetry cfg it s) = s_active s
      \<and> s_byJob (addRetry cfg it s) = s_byJob s \<and> s_db (addRetry cfg it s) = s_db s
      \<and> s_queue (addRetry cfg it s) = s_queue s"
    by (simp add: addRetry_def startLoop_def Let_def signal_retries_def retry_loop_started_def)
  ultimately show ?thesis by (simp add: quiet_def)
qed

lemma scheduleRetry_quiet [quiet_intro]: "quiet cfg s (scheduleRetry cfg now r d s)"
  by (simp add: scheduleRetry_def addRetry_quiet)

lemma announce_failed_quiet [quiet_intro]: "quiet cfg s (announce_failed cfg e failed d s)"
  by (auto simp: announce_failed_def split: option.splits intro: quiet_trans quiet_small scheduleRetry_quiet)

lemma recordOutcome_quiet [quiet_intro]: "quiet cfg s (recordOutcome r t s)"
proof -
  have "outcomes_ok (put_key rid x (if length outs \<ge> maxOutcomes then tl outs else outs))"
    if "outcomes_ok outs" for rid x outs
    using that by (auto simp: outcomes_ok_def length_put_key maxOutcomes_def map_tl distinct_tl)
  then show ?thesis by (simp add: quiet_def recordOutcome_def budgets_ok_def Let_def)
qed

lemma item_of: "items_ok cfg items \<Longrightarrow> map_of items rid = Some it \<Longrightarrow> item_ok rid it"
  by (auto simp: items_ok_def dest!: map_of_SomeD)

lemma items_ok_put:
  assumes "items_ok cfg items" "item_ok rid it"
    "rid \<in> fst ` set items \<or> int (length items) < qo_MaxFinalizers (c_queueOpt cfg)"
  shows "items_ok cfg (put_key rid it items)"
  using assms by (auto simp: items_ok_def length_put_key) (auto simp: put_key_def split: if_splits)

lemma items_ok_del: "items_ok cfg items \<Longrightarrow> items_ok cfg (del_key rid items)"
  using length_del_key [of rid items] by (auto simp: items_ok_def)

lemma dropFinalizer_quiet [quiet_intro]: "quiet cfg s (dropFinalizer rid s)"
  by (auto simp: quiet_def dropFinalizer_def budgets_ok_def end_pending_of_def items_ok_del split: option.splits)

lemma update_item_quiet:
  assumes "item_ok rid (upd it)"
    "rid \<in> fst ` set (s_finalizing s) \<or> int (length (s_finalizing s)) < qo_MaxFinalizers (c_queueOpt cfg)"
  shows "quiet cfg s (update_item rid it upd s)"
proof -
  have "item_ok rid ((upd it)\<lparr>fi_token := token\<rparr>)" for token using assms(1) by (simp add: item_ok_def)
  then show ?thesis
    using assms by (auto simp: quiet_def update_item_def Let_def budgets_ok_def items_ok_put split: prod.splits)
qed

text \<open>Updates of an item that keep it well formed.\<close>

definition keeps_item :: "string \<Rightarrow> (final_item \<Rightarrow> final_item) \<Rightarrow> bool" where
  "keeps_item rid upd \<longleftrightarrow> (\<forall>it. item_ok rid it \<longrightarrow> item_ok rid (upd it))"

lemma spool_quiet [quiet_intro]:
  assumes "spool cfg now stop r d upd s = (s', ok)" "keeps_item (r_ID r) upd" "r_Status r \<noteq> ''queued''"
  shows "budgets_ok cfg s \<Longrightarrow> quiet cfg s s'"
proof -
  assume b: "budgets_ok cfg s"
  define it where "it = (case map_of (s_finalizing s) (r_ID r) of Some it \<Rightarrow> it
                  | None \<Rightarrow> new_item (sh_down (s_health s)) now r d)"
  have "item_ok (r_ID r) it"
    using b item_of [of cfg "s_finalizing s" "r_ID r"] assms(3)
    by (auto simp: it_def budgets_ok_def item_ok_def new_item_def split: option.splits)
  then have upd: "item_ok (r_ID r) (upd it)" using assms(2) by (simp add: keeps_item_def)
  show ?thesis
  proof (cases "s_closing s \<or> (map_of (s_finalizing s) (r_ID r) = None
      \<and> int (length (s_finalizing s)) \<ge> qo_MaxFinalizers (c_queueOpt cfg))")
    case True
    then have "spool cfg now stop r d upd s = (s, False)" by (cases "s_closing s") (simp_all add: spool_def)
    then have "s' = s" using assms(1) by simp
    then show ?thesis by simp
  next
    case False
    then have room: "r_ID r \<in> fst ` set (s_finalizing s) \<or> int (length (s_finalizing s)) < qo_MaxFinalizers (c_queueOpt cfg)"
      by (auto simp: map_of_eq_None_iff)
    define s1 where "s1 = stop_if stop (update_item (r_ID r) it upd s)"
    have q1: "quiet cfg s s1"
      unfolding s1_def using update_item_quiet [of "r_ID r" upd it, OF upd room] quiet_small(6) quiet_trans by blast
    have "spool cfg now stop r d upd s = (case startLoop final_loop_started s1 of
             (s1, False) \<Rightarrow> (dropFinalizer (r_ID r) s1, False) | (s1, True) \<Rightarrow> (signal_finals s1, True))"
      using False unfolding spool_def it_def [symmetric] s1_def by (auto simp: Let_def)
    then have "s' = dropFinalizer (r_ID r) s1 \<or> s' = signal_finals (final_loop_started s1)"
      using assms(1) by (simp add: startLoop_def split: if_splits)
    then show ?thesis using q1 by (auto intro: quiet_after dropFinalizer_quiet [THEN quiet_trans [rotated]])
  qed
qed

lemma spooled_quiet [quiet_intro]:
  assumes "spooled rid upd s = (s', ok)" "keeps_item rid upd" "budgets_ok cfg s"
  shows "quiet cfg s s'"
proof (cases "map_of (s_finalizing s) rid")
  case None
  then show ?thesis using assms(1) by (simp add: spooled_def)
next
  case (Some it)
  then have "item_ok rid (upd it)" using assms item_of by (auto simp: keeps_item_def budgets_ok_def)
  moreover have "rid \<in> fst ` set (s_finalizing s)" using Some by (force dest: map_of_SomeD)
  ultimately have "quiet cfg s (update_item rid it upd s)" by (intro update_item_quiet) auto
  moreover have "s' = signal_finals (update_item rid it upd s)" using assms(1) Some by (simp add: spooled_def)
  ultimately show ?thesis using quiet_small(12) quiet_trans by blast
qed

lemma quiet_budgets: "quiet cfg s s' \<Longrightarrow> budgets_ok cfg s \<Longrightarrow> budgets_ok cfg s'"
  by (simp add: quiet_def)

lemma modify_item_quiet:
  assumes "keeps_item rid f"
  shows "quiet cfg s (modify_item rid f s)"
proof -
  let ?g = "\<lambda>(k, it). if k = rid then (k, f it) else (k, it)"
  have fst_g: "map fst (map ?g items) = map fst items" for items :: "(string \<times> final_item) list"
    by (induction items) auto
  have "items_ok cfg (map ?g items)" if "items_ok cfg items" for items
    unfolding items_ok_def fst_g using that assms by (auto simp: items_ok_def keeps_item_def split: if_splits)
  then show ?thesis by (simp add: quiet_def modify_item_def budgets_ok_def)
qed

section \<open>History, skips and completions are quiet\<close>

lemmas quiet_after2 = quiet_after addRetry_quiet [THEN quiet_trans [rotated]]
  scheduleRetry_quiet [THEN quiet_trans [rotated]] recordOutcome_quiet [THEN quiet_trans [rotated]]
  dropFinalizer_quiet [THEN quiet_trans [rotated]] announce_failed_quiet [THEN quiet_trans [rotated]]

lemma quiet_db_after: "quiet cfg s0 s \<Longrightarrow> calm (s_db s) b \<Longrightarrow> quiet cfg s0 (s\<lparr>s_db := b\<rparr>)"
  using quiet_db quiet_trans by blast

lemma quiet_lag: "quiet cfg s0 s \<Longrightarrow> quiet cfg s0 (s\<lparr>s_lag := lag\<rparr>)"
  by (simp add: quiet_def budgets_ok_def)

lemma quiet_stored: "quiet cfg s0 s \<Longrightarrow> quiet cfg s0 (s\<lparr>s_stored := ids\<rparr>)"
  by (simp add: quiet_def budgets_ok_def)

lemma keeps_item_updates [simp]:
  "keeps_item rid set_create" "keeps_item rid (\<lambda>it. it\<lparr>fi_create := False\<rparr>)"
  "keeps_item rid (\<lambda>it. it\<lparr>fi_start := False\<rparr>)" "keeps_item rid (delay_item now)"
  "keeps_item rid (\<lambda>it. it\<lparr>fi_start := True, fi_started := info\<rparr>)"
  "Terminal (t_status t) \<Longrightarrow> keeps_item rid (\<lambda>it. it\<lparr>fi_done := True, fi_t := t\<rparr>)"
  "Terminal (t_status t) \<Longrightarrow> keeps_item rid (\<lambda>it. it\<lparr>fi_create := True, fi_done := True, fi_t := t\<rparr>)"
  by (simp_all add: keeps_item_def item_ok_def set_create_def delay_item_def Let_def)

lemma modify_item_after: "quiet cfg s0 s \<Longrightarrow> keeps_item rid f \<Longrightarrow> quiet cfg s0 (modify_item rid f s)"
  using modify_item_quiet quiet_trans by blast

lemma write_row_quiet:
  assumes "item_ok rid v" "write_row e v s = (s', err)"
  shows "quiet cfg s s'"
proof (cases "fi_create v")
  case False
  then show ?thesis using assms(2) by (simp add: write_row_def Let_def)
next
  case True
  obtain b res where c: "call (e_io e CCreate) (CreateRun (fi_r v)) (s_db s) = (b, res)" by fastforce
  have "calm (s_db s) b" using assms(1) by (intro calm_call [OF c] CreateRun_calm) (simp add: item_ok_def)
  then have q: "quiet cfg s (s\<lparr>s_db := b\<rparr>)" by (rule quiet_db)
  then have "quiet cfg s ((modify_item (r_ID (fi_r v)) (\<lambda>it. it\<lparr>fi_create := False\<rparr>) (s\<lparr>s_db := b\<rparr>))
      \<lparr>s_stored := s_stored (s\<lparr>s_db := b\<rparr>) @ [r_ID (fi_r v)]\<rparr>)"
    by (intro quiet_stored modify_item_after) simp_all
  then show ?thesis
    using assms(2) q True by (auto simp: write_row_def Let_def c split: sum.splits if_splits)
qed

lemma write_start_quiet:
  assumes "write_start e v s = (s', err)"
  shows "quiet cfg s s'"
proof (cases "fi_start v")
  case False
  then show ?thesis using assms by (simp add: write_start_def Let_def)
next
  case True
  obtain b res where c: "call (e_io e CStart) (StartRun (r_ID (fi_r v)) (si_pid (fi_started v)) (si_pgid (fi_started v))
      (si_id (fi_started v)) (si_at (fi_started v))) (s_db s) = (b, res)" by fastforce
  have "quiet cfg s (s\<lparr>s_db := b\<rparr>)" by (intro quiet_db calm_call [OF c] StartRun_calm)
  then show ?thesis
    using assms True by (auto simp: write_start_def Let_def c split: if_splits intro: modify_item_after)
qed

lemma write_done_quiet:
  assumes "item_ok rid v" "write_done e v s = (s', err)"
  shows "quiet cfg s s'"
proof (cases "fi_done v")
  case False
  then show ?thesis using assms by (simp add: write_done_def)
next
  case True
  obtain b res where c: "call (e_io e CFinish) (finish_run_of (r_ID (fi_r v)) (fi_t v)) (s_db s) = (b, res)" by fastforce
  have "quiet cfg s (s\<lparr>s_db := b\<rparr>)"
    using assms(1) True by (intro quiet_db calm_call [OF c] finish_run_of_calm) (simp add: item_ok_def)
  then have "quiet cfg s (s\<lparr>s_db := b\<rparr>)" "quiet cfg s (s\<lparr>s_db := b, s_lag := lag\<rparr>)" for lag
    by (auto dest: quiet_lag)
  then show ?thesis using assms(2) True by (auto simp: write_done_def c split: sum.splits)
qed

lemma retire_quiet: "quiet cfg s (retire v s)"
  by (auto simp: retire_def Let_def split: option.splits intro: quiet_after2 quiet_refl)

lemma and_then_quiet:
  assumes "and_then r f = (s', err)" "quiet cfg s (fst r)" "\<And>s1 s2 err. f s1 = (s2, err) \<Longrightarrow> quiet cfg s1 s2"
  shows "quiet cfg s s'"
  using assms by (auto simp: and_then_def split: prod.splits option.splits intro: quiet_trans)

lemma writeHistory_quiet:
  assumes "item_ok rid v" "writeHistory e v s = (s', err)"
  shows "quiet cfg s s'"
proof -
  let ?r1 = "write_row e v s" and ?r2 = "and_then (write_row e v s) (write_start e v)"
  let ?r3 = "and_then ?r2 (write_done e v)"
  have "quiet cfg s (fst ?r1)" by (rule write_row_quiet [OF assms(1) prod.collapse [symmetric]])
  then have "quiet cfg s (fst ?r2)"
    by (rule and_then_quiet [OF prod.collapse [symmetric]]) (rule write_start_quiet)
  then have "quiet cfg s (fst ?r3)"
    by (rule and_then_quiet [OF prod.collapse [symmetric]]) (rule write_done_quiet [OF assms(1)])
  then show ?thesis
    by (rule and_then_quiet [OF assms(2) [unfolded writeHistory_def]]) (auto intro: retire_quiet)
qed

lemma finalize_one_quiet:
  assumes "item_ok rid v" "finalize_one e v s = (s', failed)"
  shows "quiet cfg s s'"
proof -
  obtain s1 err where w: "writeHistory e v s = (s1, err)" by fastforce
  have "quiet cfg s s1" by (rule writeHistory_quiet [OF assms(1) w])
  then show ?thesis
    using assms(2) w
    by (auto simp: finalize_one_def split: option.splits if_splits intro!: modify_item_after quiet_after2)
qed

lemma deferRecord_quiet:
  assumes "budgets_ok cfg s" "r_Status r \<noteq> ''queued''"
  shows "quiet cfg s (deferRecord cfg e r d s)"
proof -
  obtain s1 ok where sp: "spool cfg (e_now e 5) (e_stop e 1) r d set_create (count_deferred s) = (s1, ok)" by fastforce
  have "quiet cfg s (count_deferred s)" by (rule quiet_small)
  moreover have "quiet cfg (count_deferred s) s1"
    using spool_quiet [OF sp _ assms(2)] quiet_budgets [OF quiet_small(3) assms(1)] by simp
  ultimately have "quiet cfg s s1" by (rule quiet_trans)
  then show ?thesis by (auto simp: deferRecord_def sp split: bool.splits intro: quiet_after2)
qed

lemma admitRow_quiet:
  assumes "admitRow e r s = (s', res)" "r_Status r \<noteq> ''queued''"
  shows "quiet cfg s s'"
proof (cases "sh_down (s_health s) \<and> historyPending s")
  case True
  then show ?thesis using assms(1) by (simp add: admitRow_def)
next
  case False
  obtain b x where c: "call (e_io e CCreate) (CreateRun r) (s_db s) = (b, x)" by fastforce
  have "quiet cfg s (s\<lparr>s_db := b\<rparr>)" using assms(2) by (intro quiet_db calm_call [OF c] CreateRun_calm)
  then show ?thesis
    using assms(1) False by (auto simp: admitRow_def c split: sum.splits if_splits intro: quiet_after2)
qed

lemma admit_key_quiet:
  assumes "admit_key e r idem s = (s', res)" "r_Status r \<noteq> ''queued''"
  shows "quiet cfg s s'"
proof (cases idem)
  case None
  then show ?thesis using assms(1) by (simp add: admit_key_def)
next
  case (Some i)
  obtain b x where c: "call (e_io e CAdmit) (AdmitIdempotentRun (e_now e 2) (e_now e 3) r (id_Principal i) (id_Operation i)
      (id_Key i) (id_RequestHash i)) (s_db s) = (b, x)" by fastforce
  have "quiet cfg s (s\<lparr>s_db := b\<rparr>)"
    using assms(2) by (intro quiet_db calm_call [OF c] AdmitIdempotentRun_calm)
  then show ?thesis using assms(1) Some by (auto simp: admit_key_def c)
qed

lemma new_run_status [simp]:
  "r_Status (new_run cfg rid now d hash status trig scheduled attempt parent) = status"
  "r_ID (new_run cfg rid now d hash status trig scheduled attempt parent) = rid"
  by (simp_all add: new_run_def)

lemma recordSkipped_quiet:
  assumes "recordSkipped cfg e d hash trig scheduled idem attempt parent reason s = (s', res)" "budgets_ok cfg s"
  shows "quiet cfg s s'"
proof -
  define r where "r = (new_run cfg (e_uuid e) (e_now e 1) d hash ''skipped'' trig scheduled attempt parent)
            \<lparr>r_EndReason := reason, r_EndedAt := Some (e_now e 1)\<rparr>"
  have r: "r_Status r \<noteq> ''queued''" by (simp add: r_def)
  show ?thesis
  proof (cases "has_key idem")
    case True
    obtain s1 x where k: "admit_key e r idem s = (s1, x)" by fastforce
    from admit_key_quiet [OF k r] show ?thesis
      using assms(1) True unfolding recordSkipped_def r_def [symmetric] Let_def k
      by (auto split: sum.splits if_splits intro: quiet_after2)
  next
    case False
    obtain s1 x where k: "admitRow e r s = (s1, x)" by fastforce
    have q1: "quiet cfg s s1" by (rule admitRow_quiet [OF k r])
    then have "quiet cfg s (deferRecord cfg e r d s1)"
      using deferRecord_quiet [OF quiet_budgets [OF q1 assms(2)] r] quiet_trans by blast
    then show ?thesis
      using assms(1) False q1 unfolding recordSkipped_def r_def [symmetric] Let_def k
      by (auto split: sum.splits option.splits if_splits intro!: quiet_after2)
  qed
qed

lemma RecordMissed_quiet:
  assumes "RecordMissed cfg e d hash missed scheduled s = (s', res)" "budgets_ok cfg s"
  shows "quiet cfg s s'"
proof -
  define r where "r = (new_run cfg (e_uuid e) (e_now e 1) d hash ''missed'' ''schedule'' (Some scheduled) 1 '''')
            \<lparr>r_EndReason := ''crash_recovery'', r_MissedCount := missed, r_EndedAt := Some (e_now e 1)\<rparr>"
  have r: "r_Status r \<noteq> ''queued''" by (simp add: r_def)
  obtain s1 x where k: "admitRow e r s = (s1, x)" by fastforce
  have q1: "quiet cfg s s1" by (rule admitRow_quiet [OF k r])
  then have "quiet cfg s (deferRecord cfg e r d s1)"
    using deferRecord_quiet [OF quiet_budgets [OF q1 assms(2)] r] quiet_trans by blast
  then show ?thesis
    using assms(1) q1 unfolding RecordMissed_def r_def [symmetric] Let_def k
    by (auto split: sum.splits option.splits if_splits intro!: quiet_after2)
qed

lemma spool_or_lost_quiet:
  assumes "spool cfg now stop r d upd s = (s1, ok)" "budgets_ok cfg s" "keeps_item (r_ID r) upd" "r_Status r \<noteq> ''queued''"
  shows "quiet cfg s s1" "quiet cfg s (historyLost s1)"
  using spool_quiet [OF assms(1,3,4,2)] by (auto intro: quiet_after2)

lemma skipUnrecorded_quiet:
  assumes "skipUnrecorded cfg e r d s = (s', r')" "budgets_ok cfg s" "r_Status r \<noteq> ''queued''"
  shows "quiet cfg s s'"
proof -
  define t where "t = zero_terminal\<lparr>t_status := ''skipped'', t_reason := ''history_unavailable'', t_ended := e_now e 6\<rparr>"
  have t: "Terminal (t_status t)" by (simp add: t_def Terminal_simps)
  obtain s1 ok where sp: "spool cfg (e_now e 5) (e_stop e 1) r d (\<lambda>it. it\<lparr>fi_create := True, fi_done := True, fi_t := t\<rparr>)
      (count_deferred s) = (s1, ok)" by fastforce
  note q = spool_or_lost_quiet [OF sp quiet_budgets [OF quiet_small(3) assms(2)] keeps_item_updates(7) [OF t] assms(3)]
  have "quiet cfg s s1" "quiet cfg s (historyLost s1)" using q quiet_small(3) quiet_trans by blast+
  then show ?thesis
    using assms(1) unfolding skipUnrecorded_def t_def [symmetric] Let_def sp
    by (auto split: bool.splits intro!: quiet_after2)
qed

lemma persistStart_quiet:
  assumes "persistStart cfg e r d unrecorded info s = (s', err)" "budgets_ok cfg s" "r_Status r \<noteq> ''queued''"
  shows "quiet cfg s s'"
proof (cases unrecorded)
  case True
  then show ?thesis using assms(1) by (simp add: persistStart_def)
next
  case False
  let ?upd = "\<lambda>it. it\<lparr>fi_start := True, fi_started := info\<rparr>"
  obtain s1 found where sp: "spooled (r_ID r) ?upd s = (s1, found)" by fastforce
  have q1: "quiet cfg s s1" by (rule spooled_quiet [OF sp _ assms(2)]) simp
  have lost: "quiet cfg s s3" "quiet cfg s (historyLost s3)"
    if "quiet cfg s s2" "spool cfg (e_now e 5) (e_stop e 1) r d ?upd s2 = (s3, ok)" for s2 s3 ok
    using spool_or_lost_quiet [OF that(2) quiet_budgets [OF that(1) assms(2)] keeps_item_updates(5) assms(3)]
      that(1) quiet_trans by blast+
  obtain b x where c: "call (e_io e CStart) (StartRun (r_ID r) (si_pid info) (si_pgid info) (si_id info) (si_at info))
      (s_db s1) = (b, x)" by fastforce
  have q2: "quiet cfg s (s1\<lparr>s_db := b\<rparr>)" by (intro quiet_db_after q1 calm_call [OF c] StartRun_calm)
  have q3: "quiet cfg s (storageFailed now (s1\<lparr>s_db := b\<rparr>))" for now using q2 by (intro quiet_after2)
  show ?thesis
    using assms(1) False q1 q2 quiet_after(2) [OF q2] lost [OF q1] lost [OF q3]
    unfolding persistStart_def Let_def sp c
    by (auto simp: c split: bool.splits prod.splits sum.splits if_splits)
qed

lemma finished_quiet: "quiet cfg s (finished cfg e r d t s)"
  by (auto simp: finished_def Let_def intro!: quiet_after2)

lemma complete_quiet:
  assumes "budgets_ok cfg s" "r_Status r \<noteq> ''queued''" "Terminal (t_status t)"
  shows "quiet cfg s (complete cfg e r d unrecorded t s)"
proof -
  define s0 where "s0 = recordOutcome r t s"
  have q0: "quiet cfg s s0" unfolding s0_def by (rule recordOutcome_quiet)
  let ?upd = "\<lambda>it. it\<lparr>fi_done := True, fi_t := t\<rparr>"
  let ?lost = "\<lambda>s. case spool cfg (e_now e 5) (e_stop e 1) r d ?upd s of
                   (s1, True) \<Rightarrow> s1 | (s1, False) \<Rightarrow> if s_closing s1 then s1 else historyLost s1"
  note after = finished_quiet [THEN quiet_trans [rotated]]
  obtain s1 found where sp: "spooled (r_ID r) ?upd s0 = (s1, found)" by fastforce
  have q1: "quiet cfg s s1"
    using spooled_quiet [OF sp keeps_item_updates(6) [OF assms(3)] quiet_budgets [OF q0 assms(1)]] q0 quiet_trans by blast
  have lost: "quiet cfg s (?lost s2)" if "quiet cfg s s2" for s2
  proof -
    obtain s3 ok where sp2: "spool cfg (e_now e 5) (e_stop e 1) r d ?upd s2 = (s3, ok)" by fastforce
    have "quiet cfg s s3" "quiet cfg s (historyLost s3)"
      using spool_or_lost_quiet [OF sp2 quiet_budgets [OF that assms(1)] keeps_item_updates(6) [OF assms(3)] assms(2)]
        that quiet_trans by blast+
    then show ?thesis by (auto simp: sp2 split: bool.splits)
  qed
  obtain b x where c: "finishRun e (r_ID r) t (s_db s1) = (b, x)" by fastforce
  have q2: "quiet cfg s (s1\<lparr>s_db := b\<rparr>)" by (intro quiet_db_after q1 finishRun_calm [OF c] assms(3))
  have q3: "quiet cfg s (storageFailed now (s1\<lparr>s_db := b\<rparr>))" for now using q2 by (intro quiet_after2)
  have q4: "quiet cfg s ((storageRecovered (s1\<lparr>s_db := b\<rparr>))\<lparr>s_lag := lag\<rparr>)" for lag using q2 by (intro quiet_lag quiet_after2)
  show ?thesis
    using after [OF q0] after [OF q1] after [OF lost [OF q1]] after [OF lost [OF q3]] after [OF q4] q2
    unfolding complete_def Let_def s0_def [symmetric] sp
    by (cases x) (auto simp: c split: bool.splits)
qed

section \<open>Slots\<close>

lemma accounted_cong:
  "s_capacity s' = s_capacity s \<Longrightarrow> s_active s' = s_active s \<Longrightarrow> s_byJob s' = s_byJob s \<Longrightarrow>
   accounted cfg held s' = accounted cfg held s"
  by (simp add: accounted_def job_runs_def named_runs_def)

lemma quiet_accounted: "quiet cfg s s' \<Longrightarrow> accounted cfg held s' = accounted cfg held s"
  by (rule accounted_cong) (simp_all add: quiet_def)

lemma quiet_store_ok: "quiet cfg s s' \<Longrightarrow> store_ok s \<Longrightarrow> store_ok s'"
  by (auto simp: quiet_def store_ok_def calm_def active_ids_def)

lemma quiet_mirrored: "quiet cfg s s' \<Longrightarrow> mirrored_depth s \<Longrightarrow> mirrored_depth s'"
  by (auto simp: quiet_def mirrored_depth_def calm_def)

text \<open>A state in the middle of an operation that holds \<open>held\<close> slots.\<close>

definition working :: "exec_config \<Rightarrow> int \<Rightarrow> service \<Rightarrow> bool" where
  "working cfg held s \<longleftrightarrow> accounted cfg held s \<and> budgets_ok cfg s \<and> store_ok s"

lemma exec_inv_working: "exec_inv cfg s = working cfg 0 s"
  by (simp add: exec_inv_def working_def)

lemma working_budgets: "working cfg held s \<Longrightarrow> budgets_ok cfg s"
  by (simp add: working_def)

lemma quiet_working: "quiet cfg s s' \<Longrightarrow> working cfg held s \<Longrightarrow> working cfg held s'"
  by (auto simp: working_def quiet_accounted quiet_budgets quiet_store_ok)

lemma take_slot_working: "working cfg held s \<Longrightarrow> slot_free cfg s \<Longrightarrow> working cfg (held + 1) (take_slot s)"
  by (auto simp: working_def accounted_def job_runs_def named_runs_def budgets_ok_def store_ok_def active_ids_def
      take_slot_def slot_free_def)

lemma return_slot_working: "working cfg held s \<Longrightarrow> working cfg (held - 1) (return_slot s)"
  by (auto simp: working_def accounted_def job_runs_def named_runs_def budgets_ok_def store_ok_def active_ids_def
      return_slot_def)

lemma releaseSlot_working: "working cfg held s \<Longrightarrow> working cfg (held - 1) (releaseSlot s)"
  using return_slot_working [of cfg held s] quiet_working [OF quiet_small(10)] by (simp add: releaseSlot_def Let_def)

lemma slot_sel [simp]:
  "s_db (take_slot s) = s_db s" "s_db (return_slot s) = s_db s" "s_db (releaseSlot s) = s_db s"
  "s_queue (take_slot s) = s_queue s" "s_queue (return_slot s) = s_queue s"
  "qu_depth (s_queue (releaseSlot s)) = qu_depth (s_queue s)"
  "s_active (take_slot s) = s_active s" "s_active (return_slot s) = s_active s"
  by (simp_all add: take_slot_def return_slot_def releaseSlot_def signal_queue_def Let_def)

lemma add_depth_working: "working cfg held (add_depth n s) = working cfg held s"
  by (simp add: working_def accounted_def job_runs_def named_runs_def budgets_ok_def store_ok_def active_ids_def add_depth_def)

lemma working_queue: "working cfg held (s\<lparr>s_queue := q\<rparr>) = working cfg held s"
  by (simp add: working_def accounted_def job_runs_def named_runs_def budgets_ok_def store_ok_def active_ids_def)

text \<open>The database only changed calmly and the depth is the same.\<close>

definition same_queue :: "service \<Rightarrow> service \<Rightarrow> bool" where
  "same_queue s s' \<longleftrightarrow> calm (s_db s) (s_db s') \<and> qu_depth (s_queue s') = qu_depth (s_queue s)"

lemma same_queue_refl [simp]: "same_queue s s"
  by (simp add: same_queue_def)

lemma same_queue_trans: "same_queue s1 s2 \<Longrightarrow> same_queue s2 s3 \<Longrightarrow> same_queue s1 s3"
  by (auto simp: same_queue_def intro: calm_trans)

lemma quiet_same_queue: "quiet cfg s s' \<Longrightarrow> same_queue s s'"
  by (simp add: quiet_def same_queue_def)

lemma same_queue_mirrored: "same_queue s s' \<Longrightarrow> mirrored_depth s \<Longrightarrow> mirrored_depth s'"
  by (auto simp: same_queue_def mirrored_depth_def calm_def)

definition slots_for :: "definition_rec \<Rightarrow> int" where
  "slots_for d = (if d_Kind d = KindJob then 1 else 0)"

text \<open>A slot goes with its run on every path of \<^verbatim>\<open>launch\<close>.\<close>

lemma launch_working:
  assumes w: "working cfg (slots_for d) s" and fresh: "r_ID r \<notin> active_ids s" "r_ID r \<notin> set (queue_ids (s_db s))"
    and st: "r_Status r \<noteq> ''queued''" and l: "launch e r d recorded s = (s', failed, err)"
  shows "working cfg 0 s'" "same_queue s s'" "failed = None"
proof -
  define s1 where "s1 = stop_if (e_stop e 2) s"
  have q1: "quiet cfg s s1" unfolding s1_def by (rule quiet_small)
  define rel where "rel = (\<lambda>s. if d_Kind d = KindJob then releaseSlot s else s)"
  have rel: "working cfg 0 (rel s2)" "same_queue s (rel s2)" if "quiet cfg s s2" for s2
    using releaseSlot_working [OF quiet_working [OF that w]] quiet_working [OF that w] quiet_same_queue [OF that]
    by (auto simp: rel_def slots_for_def same_queue_def)
  have "working cfg 0 s' \<and> same_queue s s' \<and> failed = None"
  proof (cases "s_closing s1")
    case True
    define s2 where "s2 = dropFinalizer (r_ID r) s1"
    have q2: "quiet cfg s s2" unfolding s2_def using q1 by (intro quiet_after2)
    obtain b x where f: "finishRun e (r_ID r) (zero_terminal\<lparr>t_status := ''failed'', t_reason := ''start_error'',
        t_ended := e_now e 7\<rparr>) (s_db s2) = (b, x)" by fastforce
    have q3: "quiet cfg s (s2\<lparr>s_db := b\<rparr>)"
      by (intro quiet_db_after q2 finishRun_calm [OF f]) (simp add: Terminal_simps)
    have "s' = rel s2 \<or> s' = rel (s2\<lparr>s_db := b\<rparr>)" "failed = None"
      using l True unfolding launch_def Let_def s1_def [symmetric] s2_def [symmetric] f rel_def
      by (auto split: if_splits)
    then show ?thesis using rel [OF q2] rel [OF q3] by auto
  next
    case False
    let ?a = "\<lparr>a_run = r, a_def = d, a_unrecorded = \<not> recorded\<rparr>"
    have s': "s' = s1\<lparr>s_active := put_key (r_ID r) ?a (s_active s1),
        s_byJob := (s_byJob s1)(d_Name d := s_byJob s1 (d_Name d) + 1)\<rparr>" "failed = None"
      using l False unfolding launch_def Let_def s1_def [symmetric] by auto
    have new: "r_ID r \<notin> fst ` set (s_active s1)" using fresh(1) q1 by (simp add: active_ids_def quiet_def)
    have w1: "working cfg (slots_for d) s1" by (rule quiet_working [OF q1 w])
    have runs: "job_runs s' = job_runs s1 + slots_for d"
      "named_runs name s' = named_runs name s1 + (if name = d_Name d then 1 else 0)" for name
      unfolding s' by (auto simp: job_runs_def named_runs_def filter_put_key_new [OF new] slots_for_def is_job_run_def is_named_def)
    have "accounted cfg 0 s'"
      using w1 st runs new unfolding working_def accounted_def
      by (auto simp: s' put_key_def)
    moreover have "budgets_ok cfg s'" using w1 by (simp add: s' working_def budgets_ok_def)
    moreover have "store_ok s'"
      using w1 fresh(2) q1 by (auto simp: s' working_def store_ok_def active_ids_def quiet_def calm_def)
    moreover have "same_queue s s'" using quiet_same_queue [OF q1] by (simp add: s' same_queue_def)
    ultimately show ?thesis using s'(2) by (simp add: working_def)
  qed
  then show "working cfg 0 s'" "same_queue s s'" "failed = None" by auto
qed

lemma execute_done_working:
  assumes "working cfg 0 s"
  shows "working cfg 0 (execute_done rid s)" "same_queue s (execute_done rid s)"
proof -
  have "working cfg 0 (execute_done rid s) \<and> same_queue s (execute_done rid s)"
  proof (cases "map_of (s_active s) rid")
    case None
    then show ?thesis using assms by (simp add: execute_done_def)
  next
    case (Some a)
    define name where "name = d_Name (a_def a)"
    define s1 where "s1 = s\<lparr>s_active := del_key rid (s_active s),
        s_byJob := (s_byJob s)(name := if s_byJob s name \<le> 1 then 0 else s_byJob s name - 1)\<rparr>"
    have dist: "distinct (map fst (s_active s))" using assms by (simp add: working_def accounted_def)
    note count = filter_del_key [OF dist Some]
    have runs: "job_runs s1 = job_runs s - slots_for (a_def a)"
      "named_runs n s1 = named_runs n s - (if n = name then 1 else 0)" for n
      using count [of is_job_run] count [of "is_named n"]
      by (auto simp: s1_def job_runs_def named_runs_def slots_for_def is_job_run_def is_named_def name_def)
    have pos: "0 \<le> named_runs n s1" for n by (simp add: named_runs_def)
    have "s_byJob s name = named_runs name s" using assms by (simp add: working_def accounted_def)
    then have by_job: "s_byJob s1 n = named_runs n s1" for n
      using runs(2) [of n] pos [of n] assms by (auto simp: s1_def working_def accounted_def)
    have "accounted cfg (slots_for (a_def a)) s1"
      using assms runs(1) by_job dist by (auto simp: working_def accounted_def s1_def)
    moreover have "budgets_ok cfg s1" "store_ok s1"
      using assms by (auto simp: s1_def working_def budgets_ok_def store_ok_def active_ids_def)
    ultimately have w1: "working cfg (slots_for (a_def a)) s1" by (simp add: working_def)
    have "execute_done rid s = (if d_Kind (a_def a) = KindJob then releaseSlot s1 else s1)"
      using Some by (simp add: execute_done_def Let_def s1_def name_def)
    moreover have "same_queue s s1" by (simp add: s1_def same_queue_def)
    ultimately show ?thesis
      using w1 releaseSlot_working [OF w1] by (auto simp: slots_for_def same_queue_def)
  qed
  then show "working cfg 0 (execute_done rid s)" "same_queue s (execute_done rid s)" by auto
qed

section \<open>Admission keeps the invariant\<close>

text \<open>What an operation establishes: the invariant, and, when every enqueue that was committed is
  reported as such, the mirror of the queue.\<close>

definition keeps_inv :: "exec_config \<Rightarrow> bool \<Rightarrow> service \<Rightarrow> service \<Rightarrow> bool" where
  "keeps_inv cfg honest s s' \<longleftrightarrow> exec_inv cfg s' \<and> (honest \<longrightarrow> mirrored_depth s \<longrightarrow> mirrored_depth s')"

definition honest :: "env \<Rightarrow> bool" where
  "honest e \<longleftrightarrow> e_io e CEnqueue \<noteq> FailsAfterCommit"

definition fresh_id :: "env \<Rightarrow> service \<Rightarrow> bool" where
  "fresh_id e s \<longleftrightarrow> e_uuid e \<notin> active_ids s \<and> e_uuid e \<notin> set (queue_ids (s_db s))"

lemma keeps_inv_same_queue: "working cfg 0 s' \<Longrightarrow> same_queue s s' \<Longrightarrow> keeps_inv cfg ok s s'"
  by (simp add: keeps_inv_def exec_inv_working same_queue_mirrored)

lemma keeps_inv_quiet: "exec_inv cfg s \<Longrightarrow> quiet cfg s s' \<Longrightarrow> keeps_inv cfg ok s s'"
  by (simp add: exec_inv_working keeps_inv_same_queue quiet_working quiet_same_queue)

lemma keeps_inv_after_quiet: "keeps_inv cfg ok s1 s2 \<Longrightarrow> quiet cfg s s1 \<Longrightarrow> keeps_inv cfg ok s s2"
  by (simp add: keeps_inv_def quiet_mirrored)

lemma keeps_inv_then_quiet: "keeps_inv cfg ok s s1 \<Longrightarrow> quiet cfg s1 s2 \<Longrightarrow> keeps_inv cfg ok s s2"
  by (auto simp: keeps_inv_def exec_inv_working quiet_working quiet_mirrored)

lemma working_sub: "working cfg held s \<Longrightarrow> quiet cfg s s1 \<Longrightarrow> fresh_id e s \<Longrightarrow> fresh_id e s1"
  by (auto simp: fresh_id_def quiet_def calm_def active_ids_def)

lemma launch_result_working:
  assumes "working cfg (slots_for d) s" "fresh_id e s" "r_ID r = e_uuid e" "r_Status r \<noteq> ''queued''"
    "launch_result cfg e r d recorded s = (s', res)"
  shows "working cfg 0 s' \<and> same_queue s s'"
proof -
  obtain s1 failed err where l: "launch e r d recorded s = (s1, failed, err)" by (metis prod_cases3)
  have "r_ID r \<notin> active_ids s" "r_ID r \<notin> set (queue_ids (s_db s))" using assms(2,3) by (auto simp: fresh_id_def)
  note w = launch_working [OF assms(1) this assms(4) l]
  then have "s' = s1" using assms(5) l by (auto simp: launch_result_def announce_failed_def)
  then show ?thesis using w by simp
qed

lemma admit_run_working:
  assumes w: "working cfg (slots_for d) s" and fr: "fresh_id e s"
    and a: "admit_run cfg e d hash trig scheduled idem attempt parent s = (s', res)"
  shows "working cfg 0 s' \<and> same_queue s s'"
proof -
  define r where "r = (new_run cfg (e_uuid e) (e_now e 1) d hash ''pending'' trig scheduled attempt parent)
            \<lparr>r_LogRef := ''file:'' @ e_uuid e\<rparr>"
  have r: "r_Status r \<noteq> ''queued''" "r_ID r = e_uuid e" by (simp_all add: r_def)
  define rel where "rel = (\<lambda>s. if d_Kind d = KindJob then releaseSlot s else s)"
  have rel: "working cfg 0 (rel s2)" "same_queue s (rel s2)" if "quiet cfg s s2" for s2
    using releaseSlot_working [OF quiet_working [OF that w]] quiet_working [OF that w] quiet_same_queue [OF that]
    by (auto simp: rel_def slots_for_def same_queue_def)
  have go: "working cfg 0 s3 \<and> same_queue s s3"
    if "quiet cfg s s2" "launch_result cfg e r d recorded s2 = (s3, x)" for s2 s3 x recorded
    using launch_result_working [OF quiet_working [OF that(1) w] working_sub [OF w that(1) fr] r(2,1) that(2)]
      quiet_same_queue [OF that(1)] same_queue_trans by blast
  note a' = a [unfolded admit_run_def Let_def, folded r_def]
  show ?thesis
  proof (cases "has_key idem")
    case True
    obtain s1 x where k: "admit_key e r idem s = (s1, x)" by fastforce
    have q1: "quiet cfg s s1" by (rule admit_key_quiet [OF k r(1)])
    show ?thesis using a' True rel [OF q1] go [OF q1] by (auto simp: k rel_def split: sum.splits if_splits)
  next
    case False
    obtain s1 x where k: "admitRow e r s = (s1, x)" by fastforce
    have q1: "quiet cfg s s1" by (rule admitRow_quiet [OF k r(1)])
    show ?thesis
    proof (cases "x = Inr False")
      case x: False
      then show ?thesis using a' False rel [OF q1] go [OF q1] by (auto simp: k rel_def split: sum.splits bool.splits if_splits)
    next
      case True
      obtain s2 ok where sp: "spool cfg (e_now e 5) (e_stop e 1) r d set_create (count_deferred s1) = (s2, ok)" by fastforce
      have q2: "quiet cfg s (count_deferred s1)" using q1 by (intro quiet_after2)
      note sl = spool_or_lost_quiet [OF sp quiet_budgets [OF q2 working_budgets [OF w]] keeps_item_updates(1) r(1)]
      have q3: "quiet cfg s s2" "quiet cfg s (historyLost s2)" using sl q2 quiet_trans by blast+
      obtain s4 r4 where sk: "skipUnrecorded cfg e r d (rel s1) = (s4, r4)" by fastforce
      have sk': "d_Kind d = KindJob \<Longrightarrow> skipUnrecorded cfg e r d (releaseSlot s1) = (s4, r4)"
        using sk by (simp add: rel_def)
      have "quiet cfg (rel s1) s4"
        by (rule skipUnrecorded_quiet [OF sk working_budgets [OF rel(1) [OF q1]] r(1)])
      then have "working cfg 0 s4 \<and> same_queue s s4"
        using rel [OF q1] quiet_working quiet_same_queue same_queue_trans by blast
      then show ?thesis
        using a' False True go [OF q3(1)] go [OF q3(2)] by (cases ok) (auto simp: k sp sk' split: if_splits)
    qed
  qed
qed

lemma EnqueueRun_ids:
  assumes "EnqueueRun now1 now2 r idem lim uniq b = (b', res)"
  shows "res \<noteq> Inr [] \<Longrightarrow> b' = b"
    "res = Inr [] \<Longrightarrow> queue_ids b' = queue_ids b @ [r_ID r] \<and> length (db_queue b') = length (db_queue b) + 1"
proof -
  show "b' = b" if "res \<noteq> Inr []"
    using assms that EnqueueRun_error by (cases res) (auto elim: EnqueueRun_cases)
  show "queue_ids b' = queue_ids b @ [r_ID r] \<and> length (db_queue b') = length (db_queue b) + 1" if "res = Inr []"
    using EnqueueRun_queue [OF assms [unfolded that]] by (simp add: queue_ids_def)
qed

lemma enqueue_inv:
  assumes inv: "exec_inv cfg s" and fr: "fresh_id e s"
    and q: "enqueue cfg e d hash trig scheduled idem attempt parent s = (s', res)"
  shows "keeps_inv cfg (honest e) s s'"
proof -
  define r where "r = (new_run cfg (e_uuid e) (e_now e 1) d hash ''queued'' trig scheduled attempt parent)
            \<lparr>r_LogRef := ''file:'' @ e_uuid e\<rparr>"
  define key where "key = (if has_key idem then idem else None)"
  define f where "f = EnqueueRun (e_now e 2) (e_now e 3) r key (queueLimits cfg) (d_OnOverlap d = ''skip'')"
  obtain b x where c: "call (e_io e CEnqueue) f (s_db s) = (b, x)" by fastforce
  obtain b1 x1 where f1: "f (s_db s) = (b1, x1)" by fastforce
  have rid: "r_ID r = e_uuid e" by (simp add: r_def)
  note ids = EnqueueRun_ids [OF f1 [unfolded f_def], unfolded rid]
  have b: "b = s_db s \<or> b = b1" using call_db [OF c] f1 by auto
  have sub: "set (queue_ids b) \<subseteq> insert (e_uuid e) (set (queue_ids (s_db s)))"
    using b ids by (cases "x1 = Inr []") auto
  have "queue_inv b"
    using b EnqueueRun_inv [OF _ f1 [unfolded f_def]] inv by (auto simp: exec_inv_def store_ok_def)
  moreover have "active_ids s \<inter> set (queue_ids b) = {}"
    using sub inv fr unfolding exec_inv_def store_ok_def fresh_id_def by blast
  ultimately have ok: "working cfg 0 (s\<lparr>s_db := b\<rparr>)"
    using inv by (simp add: exec_inv_working working_def store_ok_def active_ids_def accounted_def job_runs_def
        named_runs_def budgets_ok_def)
  have same: "b = s_db s" if "honest e" "x \<noteq> Inr []"
  proof (rule call_cases [OF c])
    show "b = s_db s" if "b = fst (f (s_db s))" "x = Inl Unavailable" "e_io e CEnqueue = FailsAfterCommit"
      using that \<open>honest e\<close> by (simp add: honest_def)
  qed (use ids f1 that in auto)
  define s1 where "s1 = s\<lparr>s_db := b\<rparr>"
  have k1: "keeps_inv cfg (honest e) s s2" if "x \<noteq> Inr []" "quiet cfg s1 s2" for s2
  proof -
    have "working cfg 0 s2" using ok quiet_working [OF that(2)] by (simp add: s1_def)
    moreover have "mirrored_depth s2" if "honest e" "mirrored_depth s"
      using quiet_mirrored [OF \<open>quiet cfg s1 s2\<close>] same that \<open>x \<noteq> Inr []\<close> by (simp add: s1_def mirrored_depth_def)
    ultimately show ?thesis by (simp add: keeps_inv_def exec_inv_working)
  qed
  note q' = q [unfolded enqueue_def Let_def, folded r_def, folded key_def, folded f_def, unfolded c]
  show ?thesis
  proof (cases x)
    case (Inr existing)
    show ?thesis
    proof (cases "existing = []")
      case False
      then show ?thesis using q' Inr k1 [of s1] by (simp add: s1_def)
    next
      case True
      define s2 where "s2 = stop_if (e_stop e 1) (add_depth 1 s1)"
      have "x1 = Inr []" "b = b1" using c f1 Inr True by (auto simp: call_def split: io.splits sum.splits)
      then have "mirrored_depth (add_depth 1 s1)" if "mirrored_depth s"
        using ids(2) that by (simp add: mirrored_depth_def add_depth_def s1_def)
      then have "keeps_inv cfg (honest e) s (add_depth 1 s1)"
        using ok by (simp add: keeps_inv_def exec_inv_working add_depth_working s1_def)
      then have k2: "keeps_inv cfg (honest e) s s2" unfolding s2_def by (rule keeps_inv_then_quiet) (rule quiet_small)
      have "s' = s2 \<or> s' = signal_queue (queue_loop_started s2)"
        using q' Inr True by (simp add: s2_def s1_def startLoop_def split: if_splits)
      then show ?thesis
        using k2 keeps_inv_then_quiet [OF k2, of "signal_queue (queue_loop_started s2)"]
        by (auto intro: quiet_after2 quiet_refl)
    qed
  next
    case (Inl err)
    let ?rej = "s1\<lparr>s_queue := (s_queue s1)\<lparr>qu_rejected := qu_rejected (s_queue s1) + 1\<rparr>\<rparr>"
    let ?una = "s1\<lparr>s_queue := (s_queue s1)\<lparr>qu_unavailable := qu_unavailable (s_queue s1) + 1\<rparr>\<rparr>"
    have qs: "quiet cfg s1 ?rej" "quiet cfg s1 ?una" by (simp_all add: quiet_def budgets_ok_def)
    have b1: "budgets_ok cfg s1" using ok by (simp add: s1_def working_def)
    have sk1: "quiet cfg s1 s2"
      if "recordSkipped cfg e d hash trig scheduled idem attempt parent why s1 = (s2, y)" for why s2 y
      by (rule recordSkipped_quiet [OF that b1])
    have sk2: "quiet cfg s1 s2"
      if "recordSkipped cfg e d hash trig scheduled idem attempt parent why ?rej = (s2, y)" for why s2 y
      by (rule quiet_trans [OF qs(1) recordSkipped_quiet [OF that quiet_budgets [OF qs(1) b1]]])
    have "quiet cfg s1 s'"
      using q' Inl qs sk1 sk2 unfolding s1_def by (auto split: if_splits option.splits)
    then show ?thesis using k1 Inl by simp
  qed
qed

lemma trigger_inv:
  assumes inv: "exec_inv cfg s" and fr: "fresh_id e s"
    and t: "trigger cfg e d hash trig scheduled idem attempt parent s = (s', res)"
  shows "keeps_inv cfg (honest e) s s'"
proof -
  define s1 where "s1 = stop_if (e_stop e 0) s"
  have q1: "quiet cfg s s1" unfolding s1_def by (rule quiet_small)
  have w: "working cfg 0 s" using inv by (simp add: exec_inv_working)
  have i1: "exec_inv cfg s1" using quiet_working [OF q1 w] by (simp add: exec_inv_working)
  have fr1: "fresh_id e s1" by (rule working_sub [OF w q1 fr])
  have here: "keeps_inv cfg (honest e) s s1" by (rule keeps_inv_quiet [OF inv q1])
  have skip: "keeps_inv cfg (honest e) s s2"
    if "recordSkipped cfg e d hash trig scheduled idem attempt parent why s1 = (s2, y)" for why s2 y
    using recordSkipped_quiet [OF that] i1 by (auto simp: exec_inv_def intro: keeps_inv_then_quiet [OF here])
  have enq: "keeps_inv cfg (honest e) s s2"
    if "enqueue cfg e d hash trig scheduled idem attempt parent s1 = (s2, y)" for s2 y
    by (rule keeps_inv_after_quiet [OF enqueue_inv [OF i1 fr1 that] q1])
  have adm: "keeps_inv cfg (honest e) s s2"
    if "admit_run cfg e d hash trig scheduled idem attempt parent (if d_Kind d = KindJob then take_slot s1 else s1) = (s2, y)"
      "d_Kind d = KindJob \<Longrightarrow> slot_free cfg s1" for s2 y
  proof -
    let ?s = "if d_Kind d = KindJob then take_slot s1 else s1"
    have "working cfg (slots_for d) ?s"
      using take_slot_working [of cfg 0 s1] that(2) i1 by (auto simp: slots_for_def exec_inv_working)
    moreover have "fresh_id e ?s" using fr1 by (simp add: fresh_id_def active_ids_def)
    moreover have "same_queue s ?s" using quiet_same_queue [OF q1] by (simp add: same_queue_def)
    ultimately show ?thesis
      using admit_run_working [OF _ _ that(1)] same_queue_trans keeps_inv_same_queue by blast
  qed
  have self: "keeps_inv cfg (honest e) s s" using inv by (simp add: keeps_inv_quiet)
  show ?thesis
    using t self here skip enq adm unfolding trigger_def Let_def s1_def [symmetric]
    by (auto split: if_splits option.splits)
qed

section \<open>Draining keeps the invariant\<close>

lemma endQueued_calm: "status \<noteq> ''queued'' \<Longrightarrow> calm b (fst (endQueued rid status reason now b))"
  using endQueued_inv [of b status rid reason now, OF _ _ prod.collapse [symmetric]]
  by (auto simp: calm_def endQueued_def Let_def queue_ids_def)

lemma endQueued_shrinks:
  assumes "rid \<in> set (queue_ids b)"
  shows "length (db_queue (fst (endQueued rid status reason now b))) < length (db_queue b)"
proof -
  obtain q where "q \<in> set (db_queue b)" "q_run_id q = rid" using assms by (auto simp: queue_ids_def)
  then have "length (filter (\<lambda>q. q_run_id q \<noteq> rid) (db_queue b)) < length (db_queue b)"
    by (intro length_filter_less) auto
  then show ?thesis by (simp add: endQueued_def Let_def)
qed

lemma DequeueRun_calm: "calm b (fst (DequeueRun rid revision hash boot b))"
  using DequeueRun_inv [of b rid revision hash boot, OF _ prod.collapse [symmetric]]
  by (auto simp: calm_def DequeueRun_def Let_def queue_ids_def split: if_splits)

lemma ExpireQueued_shrinks:
  assumes "queue_inv b" "ExpireQueued now limit b = (b', ids)"
  shows "length (db_queue b') + length ids \<le> length (db_queue b)"
proof (cases "ids = []")
  case True
  then show ?thesis using assms(2) by (auto simp: ExpireQueued_def Let_def split: if_splits)
next
  case False
  have ids: "ids = expired_ids now limit b" using assms(2) by (auto simp: ExpireQueued_def Let_def split: if_splits)
  have dq: "distinct (queue_ids b)" using assms(1) by (simp add: queue_inv_def)
  have "distinct ids"
    unfolding ids expired_ids_def
    using dq by (simp add: queue_ids_def distinct_map inj_on_def take_map [symmetric])
  then have "length ids = card (set ids)" by (simp add: distinct_card)
  also have "\<dots> \<le> card (set (filter (\<lambda>k. k \<in> set ids) (queue_ids b)))"
    using expired_ids_queue [of now limit b] unfolding ids by (intro card_mono) auto
  also have "\<dots> \<le> length (filter (\<lambda>k. k \<in> set ids) (queue_ids b))" by (rule card_length)
  finally have "length ids \<le> length (filter (\<lambda>k. k \<in> set ids) (queue_ids b))" .
  moreover have "queue_ids b' = filter (\<lambda>k. k \<notin> set ids) (queue_ids b)"
    using assms(2) False queue_ids_delete [of "\<lambda>k. k \<in> set ids"] ids by (auto simp: ExpireQueued_def Let_def)
  ultimately have "length (queue_ids b') + length ids \<le> length (queue_ids b)"
    using sum_length_filter_compl [of "\<lambda>k. k \<in> set ids" "queue_ids b"] by simp
  then show ?thesis by (simp add: queue_ids_def)
qed

lemma ExpireQueued_calm:
  assumes "ExpireQueued now limit b = (b', ids)"
  shows "calm b b'"
  using assms ExpireQueued_inv [OF _ assms] by (auto simp: calm_def ExpireQueued_def Let_def queue_ids_def split: if_splits)

text \<open>Ending or starting one item: the queue gets shorter when the item is settled.\<close>

definition settles :: "exec_config \<Rightarrow> queue_item \<Rightarrow> service \<Rightarrow> service \<Rightarrow> exec_error + bool \<Rightarrow> bool" where
  "settles cfg item s s' res \<longleftrightarrow>
     working cfg (if res = Inr True then 0 else 1) s' \<and> same_queue s s' \<and>
     (qi_RunID item \<in> set (queue_ids (s_db s)) \<longrightarrow> (\<exists>started. res = Inr started) \<longrightarrow>
        length (db_queue (s_db s')) < length (db_queue (s_db s)))"

lemma settles_error: "working cfg 1 s' \<Longrightarrow> quiet cfg s s' \<Longrightarrow> settles cfg item s s' (Inl err)"
  by (simp add: settles_def quiet_same_queue)

lemma drop_item_settles:
  assumes w: "working cfg 1 s" and d: "drop_item e run reason notify s = (s', res)" and rid: "r_ID run = qi_RunID item"
  shows "settles cfg item s s' res"
proof -
  define f where "f = DropQueued (r_ID run) reason (e_now e 4)"
  obtain b x where c: "call (e_io e CDrop) f (s_db s) = (b, x)" by fastforce
  have calm_f: "calm (s_db s) (fst (f (s_db s)))" by (simp add: f_def DropQueued_def endQueued_calm)
  define s1 where "s1 = s\<lparr>s_db := b\<rparr>"
  have q1: "quiet cfg s s1" unfolding s1_def by (intro quiet_db calm_call [OF c calm_f])
  define s2 where "s2 = s1\<lparr>s_queue := (s_queue s1)\<lparr>qu_dropped := qu_dropped (s_queue s1) + 1\<rparr>\<rparr>"
  have q2: "quiet cfg s s2" using q1 unfolding s2_def by (simp add: quiet_def budgets_ok_def)
  have "quiet cfg s s' \<and> (res = Inr False \<and> b = fst (f (s_db s)) \<and> s_db s' = b \<or> (\<exists>err. res = Inl err))"
  proof (cases x)
    case (Inl err)
    then have "err = Refused ErrInvalidTransition \<longrightarrow> b = fst (f (s_db s))"
      using call_cases [OF c] by fastforce
    then show ?thesis
      using d Inl q1 q2 unfolding drop_item_def f_def [symmetric] c Let_def
      by (auto simp: s1_def s2_def split: if_splits)
  next
    case (Inr u)
    then have "b = fst (f (s_db s))" using call_cases [OF c] by fastforce
    then show ?thesis
      using d Inr q2 quiet_small(13) [THEN quiet_trans [rotated], OF q2]
      unfolding drop_item_def f_def [symmetric] c Let_def
      by (auto simp: s1_def s2_def notifyFinished_def split: option.splits)
  qed
  then show ?thesis
    using quiet_working [OF _ w] quiet_same_queue endQueued_shrinks [of "r_ID run" "s_db s"] rid
    by (auto simp: settles_def f_def DropQueued_def)
qed

lemma rows_affected_one:
  assumes d: "distinct (run_ids b)" and r: "r \<in> set (db_runs b)" "P r"
    and only: "\<And>r'. r' \<in> set (db_runs b) \<Longrightarrow> P r' \<Longrightarrow> rr_run_id r' = rr_run_id r"
  shows "rows_affected P b = 1"
proof -
  have "r' = r" if "r' \<in> set (db_runs b)" "P r'" for r' by (rule row_unique [OF d that(1) r(1) only [OF that]])
  then have "set (filter P (db_runs b)) = {r}" using r unfolding set_filter by blast
  moreover have "distinct (filter P (db_runs b))" using d by (simp add: run_ids_def distinct_map)
  ultimately show ?thesis using distinct_card [of "filter P (db_runs b)"] by (simp add: rows_affected_def)
qed

lemma queued_row_once:
  assumes "queue_inv b" "rid \<in> set (queue_ids b)"
  shows "rows_affected (\<lambda>r. rr_run_id r = rid \<and> rr_status r = ''queued'') b = 1"
proof -
  obtain r where "r \<in> set (db_runs b)" "rr_run_id r = rid" "rr_status r = ''queued''"
    using assms by (force simp: queue_inv_def queue_ids_def)
  then show ?thesis using assms(1) by (intro rows_affected_one [of b r]) (auto simp: queue_inv_def)
qed

lemma start_item_settles:
  assumes w: "working cfg 1 s" and st: "start_item cfg e run current hash s = (s', res)" and rid: "r_ID run = qi_RunID item"
    and job: "d_Kind current = KindJob" and qd: "qi_RunID item \<in> set (queue_ids (s_db s))"
  shows "settles cfg item s s' res"
proof -
  define s0 where "s0 = stop_if (e_stop e 1) s"
  have q0: "quiet cfg s s0" unfolding s0_def by (rule quiet_small)
  have db0: "s_db s0 = s_db s" by (simp add: s0_def stop_if_def BeginShutdown_def)
  have w0: "working cfg 1 s0" by (rule quiet_working [OF q0 w])
  have inv0: "queue_inv (s_db s)" using w by (simp add: working_def store_ok_def)
  define f where "f = DequeueRun (r_ID run) (d_Revision current) hash (c_bootID cfg)"
  obtain b x where c: "call (e_io e CDequeue) f (s_db s0) = (b, x)" by fastforce
  have q1: "quiet cfg s (s0\<lparr>s_db := b\<rparr>)"
    using q0 by (intro quiet_db_after calm_call [OF c]) (simp_all add: f_def DequeueRun_calm)
  have ok: "\<exists>b1. f (s_db s) = (b1, Inr ())"
    using queued_row_once [OF inv0 qd] rid by (simp add: f_def DequeueRun_def Let_def)
  note st' = st [unfolded start_item_def Let_def, folded s0_def, folded f_def, unfolded c]
  show ?thesis
  proof (cases "s_closing s0 \<or> (\<exists>err. x = Inl err)")
    case True
    have "x \<noteq> Inl (Refused e1)" for e1 using call_cases [OF c] ok db0 by fastforce
    then show ?thesis
      using st' True settles_error [OF w0 q0] settles_error [OF quiet_working [OF q1 w] q1]
      by (auto split: if_splits)
  next
    case False
    then have x: "x = Inr ()" and cl: "\<not> s_closing s0" by (cases x; simp)+
    have b: "f (s_db s) = (b, Inr ())" using call_cases [OF c] x db0 by auto
    note dq = DequeueRun_Inr [OF inv0 b [unfolded f_def]]
    define run1 where "run1 = run\<lparr>r_Status := ''pending'', r_Revision := d_Revision current, r_DefinitionHash := hash,
                      r_BootID := c_bootID cfg\<rparr>"
    obtain s1 failed err where l: "launch e run1 current True (s0\<lparr>s_db := b\<rparr>) = (s1, failed, err)" by (metis prod_cases3)
    have "r_ID run1 \<notin> active_ids (s0\<lparr>s_db := b\<rparr>)"
      using w0 qd rid db0 by (auto simp: working_def store_ok_def run1_def active_ids_def)
    moreover have "r_ID run1 \<notin> set (queue_ids (s_db (s0\<lparr>s_db := b\<rparr>)))"
      using dq(2) inv0 by (simp add: run1_def queue_inv_def)
    moreover have "working cfg (slots_for current) (s0\<lparr>s_db := b\<rparr>)"
      using quiet_working [OF q1 w] job by (simp add: slots_for_def)
    ultimately have "working cfg 0 s1" "same_queue (s0\<lparr>s_db := b\<rparr>) s1" "failed = None"
      using launch_working [OF _ _ _ _ l] by (simp_all add: run1_def)
    moreover have "length (db_queue b) < length (db_queue (s_db s))"
      using arg_cong [OF dq(2), of length] dq(1) length_pos_if_in_set [OF dq(1)]
      by (simp add: queue_ids_def length_remove1)
    moreover have "s' = s1" "res = Inr True"
      using st' x cl l \<open>failed = None\<close> by (auto simp: run1_def announce_failed_def)
    ultimately show ?thesis
      using quiet_same_queue [OF q1] same_queue_trans by (auto simp: settles_def same_queue_def calm_def)
  qed
qed

lemma run_get_id: "run_get rid b = Inr run \<Longrightarrow> r_ID run = rid"
  by (auto simp: run_get_def scanRun_def split: option.splits dest: find_run_SomeD)

lemma call_read_Inr: "call_read io f b = Inr v \<Longrightarrow> f b = Inr v"
  by (auto simp: call_read_def split: if_splits sum.splits)

lemma settles_cong: "s_db s1 = s_db s \<Longrightarrow> qu_depth (s_queue s1) = qu_depth (s_queue s) \<Longrightarrow>
    settles cfg item s1 s' res = settles cfg item s s' res"
  by (simp add: settles_def same_queue_def)

lemma startQueued_settles:
  assumes w: "working cfg 1 s" and qd: "qi_RunID item \<in> set (queue_ids (s_db s))"
    and st: "startQueued cfg e item s = (s', res)"
  shows "settles cfg item s s' res"
proof (cases "call_read (e_io e CRun) (run_get (qi_RunID item)) (s_db s)")
  case (Inl err)
  then show ?thesis using st w by (auto simp: startQueued_def intro: settles_error)
next
  case (Inr run)
  have rid: "r_ID run = qi_RunID item" using run_get_id [OF call_read_Inr [OF Inr]] .
  define s1 where "s1 = s\<lparr>s_queue := (s_queue s)\<lparr>qu_expired := qu_expired (s_queue s) + 1\<rparr>\<rparr>"
  have w1: "working cfg 1 s1" using w by (simp add: s1_def working_queue)
  have dropped: "settles cfg item s s2 y" if "drop_item e run why notify s = (s2, y)" for why notify s2 y
    by (rule drop_item_settles [OF w that rid])
  have expired: "settles cfg item s s2 y" if "drop_item e run why notify s1 = (s2, y)" for why notify s2 y
    using drop_item_settles [OF w1 that rid] settles_cong [of s1 s] by (simp add: s1_def)
  have started: "settles cfg item s s2 y" if "start_item cfg e run current hash s = (s2, y)" "d_Kind current = KindJob"
    for current hash s2 y by (rule start_item_settles [OF w that(1) rid that(2) qd])
  have failed: "settles cfg item s s (Inl err)" for err using w by (simp add: settles_error)
  show ?thesis
    using st dropped expired started failed unfolding startQueued_def Inr Let_def s1_def [symmetric]
    by (auto split: if_splits sum.splits prod.splits)
qed

lemma pick_head_in: "pick_head tick best hs = Some h \<Longrightarrow> h \<in> set hs \<or> best = Some h"
  by (induction tick best hs rule: pick_head.induct) (fastforce split: option.splits if_splits)+

lemma nextItem_queued: "nextItem e s = Inr (Some item) \<Longrightarrow> qi_RunID item \<in> set (queue_ids (s_db s))"
  by (auto simp: nextItem_def QueueHeads_def queue_item_of_def queue_ids_def split: sum.splits
      dest!: call_read_Inr pick_head_in in_set_takeD)

lemma serve_sel [simp]: "s_db (serve item s) = s_db s" "qu_depth (s_queue (serve item s)) = qu_depth (s_queue s)"
  by (simp_all add: serve_def Let_def)

lemma serve_working: "working cfg held (serve item s) = working cfg held s"
  by (simp add: serve_def Let_def working_queue)

lemma set_nextStart_working: "working cfg held (set_nextStart cfg now s) = working cfg held s"
  by (simp add: set_nextStart_def working_queue)

lemma served_bounded_working: "working cfg held (served_bounded s) = working cfg held s"
  by (simp add: served_bounded_def working_queue)

lemma served_sel [simp]:
  "s_db (set_nextStart cfg now s) = s_db s" "s_db (served_bounded s) = s_db s" "s_db (add_depth n s) = s_db s"
  "qu_depth (s_queue (set_nextStart cfg now s)) = qu_depth (s_queue s)"
  "qu_depth (s_queue (served_bounded s)) = qu_depth (s_queue s)"
  "qu_depth (s_queue (add_depth n s)) = qu_depth (s_queue s) + n"
  by (simp_all add: set_nextStart_def served_bounded_def add_depth_def)

lemma return_slot_mirrored [simp]: "mirrored_depth (return_slot s) = mirrored_depth s"
  by (simp add: mirrored_depth_def)

lemma return_slot_inv: "working cfg 1 s' \<Longrightarrow> (mirrored_depth s \<Longrightarrow> mirrored_depth s') \<Longrightarrow> keeps_inv cfg ok s (return_slot s')"
  using return_slot_working [of cfg 1 s'] by (simp add: keeps_inv_def exec_inv_working)

lemma drain_slot_inv:
  assumes w: "working cfg 1 s" and ds: "drain_slot cfg e s = (s', res)"
  shows "keeps_inv cfg ok s s'"
proof -
  define s1 where "s1 = stop_if (e_stop e 0) s"
  have q1: "quiet cfg s s1" unfolding s1_def by (rule quiet_small)
  have w1: "working cfg 1 s1" by (rule quiet_working [OF q1 w])
  have ret: "keeps_inv cfg ok s (return_slot s)" "keeps_inv cfg ok s (return_slot s1)"
    using w w1 quiet_mirrored [OF q1] by (auto intro: return_slot_inv)
  have resync: "keeps_inv cfg ok s (return_slot (s1\<lparr>s_queue := (s_queue s1)\<lparr>qu_depth := int (length (db_queue (s_db s1)))\<rparr>\<rparr>))"
    using w1 by (intro return_slot_inv) (simp_all add: working_queue mirrored_depth_def)
  note ds' = ds [unfolded drain_slot_def Let_def, folded s1_def]
  show ?thesis
  proof (cases "nextItem e s1")
    case (Inl err)
    then show ?thesis using ds' ret by (auto split: if_splits)
  next
    case (Inr found)
    show ?thesis
    proof (cases found)
      case None
      then show ?thesis
        using ds' Inr ret resync by (auto simp: QueueStats_def split: if_splits sum.splits dest!: call_read_Inr)
    next
      case (Some item)
      have qd: "qi_RunID item \<in> set (queue_ids (s_db (serve item s1)))" using nextItem_queued Inr Some by simp
      obtain s2 x where sq: "startQueued cfg e item (serve item s1) = (s2, x)" by fastforce
      have "settles cfg item (serve item s1) s2 x"
        using startQueued_settles [OF _ qd sq] w1 by (simp add: serve_working)
      then have set2: "settles cfg item s1 s2 x" using settles_cong [of "serve item s1" s1] by simp
      define s3 where "s3 = served_bounded (add_depth (- 1) s2)"
      have m2: "mirrored_depth s2" if "mirrored_depth s"
        using set2 quiet_mirrored [OF q1 that] same_queue_mirrored by (auto simp: settles_def)
      have m3: "mirrored_depth s3" if "mirrored_depth s" "x = Inr started" for started
        using set2 quiet_mirrored [OF q1 that(1)] that(2) qd
        by (auto simp: s3_def mirrored_depth_def settles_def same_queue_def)
      have w2: "working cfg (if x = Inr True then 0 else 1) s2" using set2 by (simp add: settles_def)
      have w3: "working cfg (if x = Inr True then 0 else 1) s3"
        using w2 by (simp add: s3_def served_bounded_working add_depth_working)
      show ?thesis
      proof (cases x)
        case err: (Inl err)
        then have "keeps_inv cfg ok s (return_slot s2)" using w2 m2 by (intro return_slot_inv) simp_all
        then show ?thesis using ds' Inr Some sq err ret by (auto split: if_splits)
      next
        case st: (Inr started)
        have "keeps_inv cfg ok s (set_nextStart cfg (e_now e 6) s3)" if started
          using w3 m3 that st by (simp add: keeps_inv_def exec_inv_working set_nextStart_working mirrored_depth_def)
        moreover have "keeps_inv cfg ok s (return_slot s3)" if "\<not> started"
          using w3 m3 that st by (intro return_slot_inv) simp_all
        ultimately show ?thesis
          using ds' Inr Some sq st ret unfolding s3_def by (auto split: if_splits)
      qed
    qed
  qed
qed

lemma drainStep_inv:
  assumes inv: "exec_inv cfg s" and ds: "drainStep cfg e s = (s', res)"
  shows "keeps_inv cfg ok s s'"
proof (cases "qu_depth (s_queue s) \<le> 0")
  case True
  then show ?thesis using ds inv by (simp add: drainStep_def keeps_inv_quiet)
next
  case False
  define f where "f = (\<lambda>b. case ExpireQueued (e_now e 0) queueExpireBatch b of
      (b', ids) \<Rightarrow> (b', Inr ids :: store_error + string list))"
  obtain b x where c: "call (e_io e CExpire) f (s_db s) = (b, x)" by fastforce
  have calm_f: "calm (s_db s) (fst (f (s_db s)))"
    by (auto simp: f_def split: prod.splits intro: ExpireQueued_calm)
  have q1: "quiet cfg s (s\<lparr>s_db := b\<rparr>)" by (intro quiet_db calm_call [OF c calm_f])
  note ds' = ds [unfolded drainStep_def Let_def, folded f_def, unfolded c]
  show ?thesis
  proof (cases x)
    case (Inl err)
    then show ?thesis using ds' False keeps_inv_quiet [OF inv q1] by simp
  next
    case (Inr ids)
    have "f (s_db s) = (b, Inr ids)" using call_cases [OF c] Inr by auto
    then have ex: "ExpireQueued (e_now e 0) queueExpireBatch (s_db s) = (b, ids)" by (auto simp: f_def split: prod.splits)
    define s1 where "s1 = add_depth (- int (length ids)) (s\<lparr>s_db := b\<rparr>)"
    define s2 where "s2 = s1\<lparr>s_queue := (s_queue s1)\<lparr>qu_expired := qu_expired (s_queue s1) + int (length ids)\<rparr>\<rparr>"
    have "queue_inv (s_db s)" using inv by (simp add: exec_inv_def store_ok_def)
    from ExpireQueued_shrinks [OF this ex]
    have m2: "mirrored_depth s2" if "mirrored_depth s"
      using that by (simp add: mirrored_depth_def s2_def s1_def add_depth_def)
    have w2: "working cfg 0 s2"
      using quiet_working [OF q1] inv by (simp add: s2_def s1_def working_queue add_depth_working exec_inv_working)
    then have here: "keeps_inv cfg ok s s2" using m2 by (simp add: keeps_inv_def exec_inv_working)
    have "keeps_inv cfg ok s s3" if "drain_slot cfg e (take_slot s2) = (s3, y)" "slot_free cfg s2" for s3 y
      using drain_slot_inv [OF _ that(1), of ok] take_slot_working [OF w2 that(2)] m2
      by (auto simp: keeps_inv_def mirrored_depth_def)
    then show ?thesis
      using ds' False Inr here by (auto simp: s2_def s1_def split: if_splits)
  qed
qed

section \<open>Retries, stopping and the remaining operations\<close>

lemma retryNow_inv:
  assumes inv: "exec_inv cfg s" and fr: "fresh_id e s"
  shows "keeps_inv cfg (honest e) s (retryNow cfg e it s)"
proof (cases "call_read (e_io e CDefinition) (Definition_get (ri_name it)) (s_db s)")
  case (Inl err)
  then show ?thesis
    by (auto simp: retryNow_def intro: keeps_inv_quiet [OF inv] addRetry_quiet)
next
  case (Inr ch)
  obtain current hash where ch: "ch = (current, hash)" by (cases ch)
  obtain s1 res where t: "trigger cfg e current hash ''retry'' (ri_scheduled it) None (ri_attempt it + 1) (ri_runID it) s = (s1, res)"
    by fastforce
  have k: "keeps_inv cfg (honest e) s s1" by (rule trigger_inv [OF inv fr t])
  have "retryNow cfg e it s = s \<or> retryNow cfg e it s = s1
      \<or> retryNow cfg e it s = addRetry cfg (it\<lparr>ri_due := e_now e 9 + ri_delay it\<rparr>) s1"
    using Inr ch by (simp add: retryNow_def t split: sum.splits exec_error.splits)
  then show ?thesis
    using k keeps_inv_quiet [OF inv quiet_refl] keeps_inv_then_quiet [OF k addRetry_quiet] by metis
qed

lemma write_evidence_quiet: "quiet cfg s (write_evidence cfg es n items s)"
proof (induction items arbitrary: n s)
  case (Cons it items)
  define s0 where "s0 = stop_if (e_stop (es n) 0) s"
  have q0: "quiet cfg s s0" unfolding s0_def by (rule quiet_small)
  obtain b x where c: "call (e_io (es n) CCreate) (CreateRun (evidence_run cfg (es n) it)) (s_db s0) = (b, x)" by fastforce
  have "calm (s_db s0) b" by (intro calm_call [OF c] CreateRun_calm) (simp add: evidence_run_def)
  then have q1: "quiet cfg s (s0\<lparr>s_db := b\<rparr>)" by (rule quiet_db_after [OF q0])
  then have "quiet cfg s (s0\<lparr>s_db := b, s_retries := (s_retries s0)\<lparr>rt_lost := l\<rparr>\<rparr>)" for l
    by (simp add: quiet_def budgets_ok_def retries_ok_def)
  moreover have "quiet cfg s (write_evidence cfg es (Suc n) items (s0\<lparr>s_db := b\<rparr>))" using Cons.IH q1 quiet_trans by blast
  ultimately show ?case using q0 by (auto simp: s0_def [symmetric] c Let_def split: sum.splits)
qed simp

lemma persistRetryEvidence_quiet: "quiet cfg s (persistRetryEvidence cfg es s)"
proof -
  have "quiet cfg s (s\<lparr>s_retries := (s_retries s)\<lparr>rt_evidence := []\<rparr>\<rparr>)" by (simp add: quiet_def budgets_ok_def retries_ok_def)
  then show ?thesis unfolding persistRetryEvidence_def using write_evidence_quiet quiet_trans by blast
qed

lemma due_retries_spec:
  assumes "is_heap ri_due h" "due_retries now h = (due, rest)"
  shows "is_heap ri_due rest" "mset h = mset due + mset rest" "length due \<le> retryBatch" "sorted (map ri_due due)"
    "\<forall>it \<in> set due. ri_due it \<le> now \<and> (\<forall>it' \<in> set rest. ri_due it \<le> ri_due it')"
    "length due < retryBatch \<longrightarrow> (\<forall>it' \<in> set rest. now < ri_due it')"
  using array_heap.take_due_spec [of "\<lambda>it. \<not> ri_due it > now" ri_due now h retryBatch due rest] assms
  by (auto simp: due_retries_def not_less)

definition take_due_retries :: "time \<Rightarrow> service \<Rightarrow> service" where
  "take_due_retries now s = s\<lparr>s_retries := (s_retries s)\<lparr>rt_heap := snd (due_retries now (rt_heap (s_retries s)))\<rparr>\<rparr>"

lemma take_due_quiet: "quiet cfg s (take_due_retries now s)"
proof -
  obtain due rest where d: "due_retries now (rt_heap (s_retries s)) = (due, rest)" by fastforce
  have "retries_ok cfg ((s_retries s)\<lparr>rt_heap := rest\<rparr>)" if r: "retries_ok cfg (s_retries s)"
  proof -
    have h: "is_heap ri_due (rt_heap (s_retries s))" using r by (simp add: retries_ok_def)
    have "length (rt_heap (s_retries s)) = length due + length rest"
      using due_retries_spec(2) [OF h d] by (metis size_mset size_union)
    then show ?thesis using r due_retries_spec(1) [OF h d] by (simp add: retries_ok_def)
  qed
  then show ?thesis by (simp add: quiet_def take_due_retries_def d budgets_ok_def)
qed

lemma Stop_inv:
  assumes inv: "exec_inv cfg s" and st: "Stop e rid s = (s', err)"
  shows "keeps_inv cfg ok s s'"
proof -
  define f where "f = CancelQueued rid (e_now e 0)"
  obtain b x where c: "call (e_io e CCancel) f (s_db s) = (b, x)" by fastforce
  have "calm (s_db s) (fst (f (s_db s)))" by (simp add: f_def CancelQueued_def endQueued_calm)
  then have q1: "quiet cfg s (s\<lparr>s_db := b\<rparr>)" by (intro quiet_db calm_call [OF c])
  have "keeps_inv cfg ok s (add_depth (- 1) (s\<lparr>s_db := b\<rparr>))" if "x = Inr u" for u
  proof -
    have f: "f (s_db s) = (b, Inr u)" using call_cases [OF c] that by auto
    have row: "rows_affected (\<lambda>r. rr_run_id r = rid \<and> rr_status r = ''queued'') (s_db s) = 1"
      using f by (auto simp: f_def CancelQueued_def endQueued_def Let_def split: if_splits)
    then have "filter (\<lambda>r. rr_run_id r = rid \<and> rr_status r = ''queued'') (db_runs (s_db s)) \<noteq> []"
      by (auto simp: rows_affected_def)
    then obtain r where "r \<in> set (db_runs (s_db s))" "rr_run_id r = rid" "rr_status r = ''queued''"
      by (auto simp: filter_empty_conv)
    then have "rid \<in> set (queue_ids (s_db s))" using inv by (auto simp: exec_inv_def store_ok_def queue_inv_def)
    then have "length (db_queue b) < length (db_queue (s_db s))"
      using endQueued_shrinks [of rid "s_db s" "''stopped''" "''queue_cancelled''" "e_now e 0"] f
      by (simp add: f_def CancelQueued_def)
    then show ?thesis
      using quiet_working [OF q1] inv
      by (auto simp: keeps_inv_def exec_inv_working add_depth_working mirrored_depth_def)
  qed
  then show ?thesis
    using st keeps_inv_quiet [OF inv q1] keeps_inv_quiet [OF inv quiet_refl]
    unfolding Stop_def f_def [symmetric] c by (auto split: if_splits sum.splits)
qed

lemma ResumeQueue_inv:
  assumes "exec_inv cfg s" "ResumeQueue e s = (s', err)"
  shows "exec_inv cfg s'" "err = None \<Longrightarrow> mirrored_depth s'" "err \<noteq> None \<Longrightarrow> s' = s"
proof -
  define s1 where "s1 = s\<lparr>s_queue := (s_queue s)\<lparr>qu_depth := int (length (db_queue (s_db s)))\<rparr>\<rparr>"
  have i1: "exec_inv cfg s1" "mirrored_depth s1"
    using assms(1) by (simp_all add: s1_def exec_inv_working working_queue mirrored_depth_def)
  have q: "quiet cfg s1 (signal_queue (queue_loop_started s1))" by (intro quiet_after2 quiet_refl)
  have "s' = s \<and> err \<noteq> None \<or> s' = s1 \<or> s' = signal_queue (queue_loop_started s1)"
    using assms(2)
    by (auto simp: ResumeQueue_def s1_def QueueStats_def startLoop_def Let_def split: sum.splits if_splits dest!: call_read_Inr)
  then show "exec_inv cfg s'" "err = None \<Longrightarrow> mirrored_depth s'"
    using assms(1) i1 quiet_working [OF q] quiet_mirrored [OF q] by (auto simp: exec_inv_working)
  show "err \<noteq> None \<Longrightarrow> s' = s"
    using assms(2) by (auto simp: ResumeQueue_def Let_def split: sum.splits if_splits prod.splits bool.splits)
qed

lemma TakeOutcome_quiet: "quiet cfg s (fst (TakeOutcome rid s))"
  using length_del_key [of rid "s_outcomes s"]
  by (auto simp: quiet_def TakeOutcome_def budgets_ok_def outcomes_ok_def)

lemma fold_end_pending: "quiet cfg s (fold (\<lambda>(rid, it) s. end_pending_of it s) items s)"
proof (induction items arbitrary: s)
  case (Cons x items)
  then show ?case using quiet_small(14) quiet_trans by (cases x) (simp, blast)
qed simp

lemma abandonFinalizers_quiet: "config_ok cfg \<Longrightarrow> quiet cfg s (abandonFinalizers s)"
  using fold_end_pending [of cfg s "s_finalizing s"]
  by (auto simp: abandonFinalizers_def quiet_def budgets_ok_def items_ok_def config_ok_def)

lemma finalize_views_quiet:
  "\<forall>v \<in> set vs. item_ok (r_ID (fi_r v)) v \<Longrightarrow> finalize_views es n streak vs s = (s', early) \<Longrightarrow> quiet cfg s s'"
proof (induction vs arbitrary: n streak s s' early)
  case (Cons v vs)
  define s0 where "s0 = stop_if (e_stop (es n) 0) s"
  have q0: "quiet cfg s s0" unfolding s0_def by (rule quiet_small)
  obtain s1 failed where f: "finalize_one (es n) v s0 = (s1, failed)" by fastforce
  have q1: "quiet cfg s s1" using finalize_one_quiet [OF _ f] Cons.prems(1) q0 quiet_trans by (metis list.set_intros(1))
  have IH: "quiet cfg s s2" if "finalize_views es (Suc n) k vs s1 = (s2, x)" for k s2 x
    using Cons.IH [OF _ that] Cons.prems(1) q1 quiet_trans by auto
  show ?case
    using Cons.prems(2) q0 q1 IH by (auto simp: s0_def [symmetric] f Let_def split: if_splits bool.splits)
qed simp

lemma finalizePass_quiet:
  assumes "budgets_ok cfg s" "finalizePass now es s = (s', early)"
  shows "quiet cfg s s'"
proof -
  have "\<forall>v \<in> set (due_views now s). item_ok (r_ID (fi_r v)) v"
    using assms(1) by (auto simp: due_views_def budgets_ok_def items_ok_def item_ok_def)
  then show ?thesis using finalize_views_quiet assms(2) unfolding finalizePass_def by blast
qed

section \<open>Steps of the service\<close>

text \<open>The operations of the service in any order and interleaved with changes of the database by
  other parts of the daemon, which queue nothing. \<open>ok\<close> restricts the environments considered. A
  trigger, a retry and a drain step may begin shutdown at each point where they look for it.\<close>

inductive exec_step :: "exec_config \<Rightarrow> (env \<Rightarrow> bool) \<Rightarrow> service \<Rightarrow> service \<Rightarrow> bool"
  for cfg :: exec_config and ok :: "env \<Rightarrow> bool" where
  step_trigger: "ok e \<Longrightarrow> fresh_id e s \<Longrightarrow>
     trigger cfg e d hash trig scheduled idem attempt parent s = (s', res) \<Longrightarrow> exec_step cfg ok s s'"
| step_missed: "RecordMissed cfg e d hash missed at s = (s', res') \<Longrightarrow> exec_step cfg ok s s'"
| step_start: "(rid, a) \<in> set (s_active s) \<Longrightarrow>
     persistStart cfg e (a_run a) (a_def a) (a_unrecorded a) info s = (s', err) \<Longrightarrow> exec_step cfg ok s s'"
| step_complete: "(rid, a) \<in> set (s_active s) \<Longrightarrow> Terminal (t_status t) \<Longrightarrow>
     exec_step cfg ok s (complete cfg e (a_run a) (a_def a) (a_unrecorded a) t s)"
| step_done: "exec_step cfg ok s (execute_done rid s)"
| step_evidence: "exec_step cfg ok s (persistRetryEvidence cfg es s)"
| step_due: "exec_step cfg ok s (take_due_retries now s)"
| step_retry: "ok e \<Longrightarrow> fresh_id e s \<Longrightarrow> exec_step cfg ok s (retryNow cfg e it s)"
| step_drain: "drainStep cfg e s = (s', wait) \<Longrightarrow> exec_step cfg ok s s'"
| step_resume: "ResumeQueue e s = (s', err) \<Longrightarrow> exec_step cfg ok s s'"
| step_finalize: "finalizePass now es s = (s', early) \<Longrightarrow> exec_step cfg ok s s'"
| step_write: "item_ok rid v \<Longrightarrow> finalize_one e v s = (s', failed) \<Longrightarrow> exec_step cfg ok s s'"
| step_stop: "Stop e rid s = (s', err) \<Longrightarrow> exec_step cfg ok s s'"
| step_outcome: "exec_step cfg ok s (fst (TakeOutcome rid s))"
| step_abandon: "exec_step cfg ok s (abandonFinalizers s)"
| step_shutdown: "exec_step cfg ok s (BeginShutdown s)"
| step_database: "calm (s_db s) b \<Longrightarrow> exec_step cfg ok s (s\<lparr>s_db := b\<rparr>)"

text \<open>The service after \<^verbatim>\<open>New\<close>, on a database that an earlier run of the daemon may have left with a queue. The daemon calls
  \<^verbatim>\<open>ResumeQueue\<close> later, after its startup tasks, and goes on when it fails.\<close>

definition exec_start :: "exec_config \<Rightarrow> service \<Rightarrow> bool" where
  "exec_start cfg s \<longleftrightarrow> config_ok cfg \<and> (\<exists>b. queue_inv b \<and> s = New b)"

lemma New_inv: "config_ok cfg \<Longrightarrow> queue_inv b \<Longrightarrow> exec_inv cfg (New b)"
  by (simp add: exec_inv_def accounted_def job_runs_def named_runs_def budgets_ok_def retries_ok_def items_ok_def
      outcomes_ok_def store_ok_def active_ids_def New_def config_ok_def is_heap_def heap_upto_def)

lemma exec_start_inv: "exec_start cfg s \<Longrightarrow> exec_inv cfg s"
  using New_inv unfolding exec_start_def by blast

lemma active_run_ok: "exec_inv cfg s \<Longrightarrow> (rid, a) \<in> set (s_active s) \<Longrightarrow> r_Status (a_run a) \<noteq> ''queued''"
  by (auto simp: exec_inv_def accounted_def)

lemma exec_step_keeps:
  assumes cfg: "config_ok cfg" and inv: "exec_inv cfg s" and step: "exec_step cfg ok s s'"
  shows "exec_inv cfg s' \<and> ((\<forall>e. ok e \<longrightarrow> honest e) \<longrightarrow> mirrored_depth s \<longrightarrow> mirrored_depth s')"
proof -
  have b: "budgets_ok cfg s" using inv by (simp add: exec_inv_def)
  have w: "working cfg 0 s" using inv by (simp add: exec_inv_working)
  have quietly: "?thesis" if "quiet cfg s s'"
    using keeps_inv_quiet [OF inv that, of True] by (simp add: keeps_inv_def)
  have keeping: "?thesis" if "keeps_inv cfg h s s'" "(\<forall>e. ok e \<longrightarrow> honest e) \<longrightarrow> h" for h
    using that by (auto simp: keeps_inv_def)
  show ?thesis
    using step
  proof cases
    case (step_trigger e d hash trig scheduled idem attempt parent res)
    then show ?thesis using keeping [OF trigger_inv [OF inv]] by blast
  next
    case (step_retry e it)
    then show ?thesis using keeping [of "honest e"] retryNow_inv [OF inv] by blast
  next
    case (step_complete rid a t e)
    then show ?thesis using quietly complete_quiet [OF b active_run_ok [OF inv]] by blast
  next
    case (step_start rid a e info err)
    then show ?thesis using quietly persistStart_quiet [OF _ b active_run_ok [OF inv]] by blast
  next
    case (step_done rid)
    then show ?thesis
      using execute_done_working [OF w, of rid] same_queue_mirrored by (auto simp: exec_inv_working)
  next
    case (step_resume e err)
    then show ?thesis using ResumeQueue_inv [OF inv step_resume] by (cases err) auto
  next
    case (step_drain e wait)
    then show ?thesis using keeping [OF drainStep_inv [OF inv], of e wait True] by simp
  next
    case (step_stop e rid err)
    then show ?thesis using keeping [OF Stop_inv [OF inv], of e rid err True] by simp
  next
    case step_database
    then show ?thesis using quietly quiet_db by simp
  next
    case step_missed
    then show ?thesis using quietly RecordMissed_quiet [OF _ b] by blast
  next
    case step_finalize
    then show ?thesis using quietly finalizePass_quiet [OF b] by blast
  next
    case step_write
    then show ?thesis using quietly finalize_one_quiet by blast
  qed (use quietly persistRetryEvidence_quiet take_due_quiet TakeOutcome_quiet abandonFinalizers_quiet [OF cfg]
      quiet_small(5) in simp)+
qed

interpretation executor: invariant_system "exec_start cfg" "\<lambda>s s'. config_ok cfg \<and> exec_step cfg ok s s'" "exec_inv cfg"
  using exec_start_inv exec_step_keeps by unfold_locales blast+

text \<open>The moment a \<^verbatim>\<open>ResumeQueue\<close> succeeded, and what follows.\<close>

definition exec_resumed :: "exec_config \<Rightarrow> service \<Rightarrow> bool" where
  "exec_resumed cfg s \<longleftrightarrow> (\<exists>ok s0 e. reachable (exec_start cfg) (\<lambda>s s'. config_ok cfg \<and> exec_step cfg ok s s') s0 \<and>
     ResumeQueue e s0 = (s, None))"

lemma exec_resumed_inv: "exec_resumed cfg s \<Longrightarrow> exec_inv cfg s \<and> mirrored_depth s"
  unfolding exec_resumed_def using executor.reachable_inv ResumeQueue_inv by blast

interpretation honest_executor: invariant_system "exec_resumed cfg" "\<lambda>s s'. config_ok cfg \<and> exec_step cfg honest s s'"
  "\<lambda>s. exec_inv cfg s \<and> mirrored_depth s"
  using exec_resumed_inv exec_step_keeps [where ok = honest] by unfold_locales blast+

end
