(* ===== verification/Executor_Properties.thy ===== *)
theory Executor_Properties
  imports Executor_Invariant
begin

text \<open>
  The properties of the execution service: accounting and budgets in every reachable state,
  admission, fairness of the drain, retries, completion and deferred history.
\<close>

section \<open>Shared lemmas\<close>

abbreviation (input) exec_reachable :: "exec_config \<Rightarrow> (env \<Rightarrow> bool) \<Rightarrow> service \<Rightarrow> bool" where
  "exec_reachable cfg ok \<equiv> reachable (exec_start cfg) (\<lambda>s s'. config_ok cfg \<and> exec_step cfg ok s s')"

lemma launch_result_active:
  assumes "launch_result cfg e r d recorded s = (s', res)"
  shows "s_active s' = s_active s \<or>
    (\<not> s_closing s' \<and> s_active s' = put_key (r_ID r) \<lparr>a_run = r, a_def = d, a_unrecorded = \<not> recorded\<rparr> (s_active s))"
proof -
  obtain s1 failed err where l: "launch e r d recorded s = (s1, failed, err)" by (metis prod_cases3)
  have drop: "s_active (dropFinalizer rid s) = s_active s" for rid s
    by (simp add: dropFinalizer_def end_pending_of_def split: option.splits)
  have rel: "s_active (releaseSlot s) = s_active s" for s
    by (simp add: releaseSlot_def Let_def return_slot_def signal_queue_def)
  have stop: "s_active (stop_if begins s) = s_active s" for begins s by (simp add: stop_if_def BeginShutdown_def)
  have "failed = None" using l by (auto simp: launch_def Let_def split: if_splits prod.splits)
  then have "s' = s1" using assms l by (simp add: launch_result_def announce_failed_def)
  then show ?thesis
    using l unfolding launch_def Let_def by (auto simp: drop rel stop split: if_splits prod.splits)
qed

lemma releaseSlot_active [simp]: "s_active (releaseSlot s) = s_active s"
  by (simp add: releaseSlot_def Let_def return_slot_def signal_queue_def)

lemma admit_run_active:
  assumes b: "budgets_ok cfg s" and a: "admit_run cfg e d hash trig scheduled idem attempt parent s = (s', res)"
  shows "s_active s' = s_active s \<or> (\<not> s_closing s' \<and> (\<exists>run. r_ID (a_run run) = e_uuid e \<and> a_def run = d
     \<and> s_active s' = put_key (e_uuid e) run (s_active s)))"
proof -
  define r where "r = (new_run cfg (e_uuid e) (e_now e 1) d hash ''pending'' trig scheduled attempt parent)
            \<lparr>r_LogRef := ''file:'' @ e_uuid e\<rparr>"
  have r: "r_Status r \<noteq> ''queued''" "r_ID r = e_uuid e" by (simp_all add: r_def)
  define Q where "Q s2 \<longleftrightarrow> s_active s2 = s_active s \<or> (\<not> s_closing s2 \<and> (\<exists>run. r_ID (a_run run) = e_uuid e \<and> a_def run = d
     \<and> s_active s2 = put_key (e_uuid e) run (s_active s)))" for s2 :: service
  have go: "Q s3" if "quiet cfg s s2" "launch_result cfg e r d recorded s2 = (s3, x)" for s2 s3 x recorded
  proof -
    let ?run = "\<lparr>a_run = r, a_def = d, a_unrecorded = \<not> recorded\<rparr>"
    have "s_active s2 = s_active s" using that(1) by (simp add: quiet_def)
    then have "s_active s3 = s_active s \<or> \<not> s_closing s3 \<and> s_active s3 = put_key (e_uuid e) ?run (s_active s)"
      using launch_result_active [OF that(2)] r(2) by simp
    moreover have "r_ID (a_run ?run) = e_uuid e \<and> a_def ?run = d" using r(2) by simp
    ultimately show ?thesis unfolding Q_def by blast
  qed
  have same: "Q s2" if "s_active s2 = s_active s" for s2 using that by (simp add: Q_def)
  have rel: "Q (if d_Kind d = KindJob then releaseSlot s2 else s2)" "Q (releaseSlot s2)" "Q s2" if "quiet cfg s s2" for s2
    using that by (auto simp: quiet_def intro!: same)
  note a' = a [unfolded admit_run_def Let_def, folded r_def]
  have "Q s'"
  proof (cases "has_key idem")
    case True
    obtain s1 x where k: "admit_key e r idem s = (s1, x)" by fastforce
    have q1: "quiet cfg s s1" by (rule admit_key_quiet [OF k r(1)])
    show ?thesis using a' True rel [OF q1] go [OF q1] by (auto simp: k split: sum.splits if_splits)
  next
    case False
    obtain s1 x where k: "admitRow e r s = (s1, x)" by fastforce
    have q1: "quiet cfg s s1" by (rule admitRow_quiet [OF k r(1)])
    show ?thesis
    proof (cases "x = Inr False")
      case x: False
      then show ?thesis using a' False rel [OF q1] go [OF q1] by (auto simp: k split: sum.splits bool.splits if_splits)
    next
      case True
      obtain s2 ok where sp: "spool cfg (e_now e 5) (e_stop e 1) r d set_create (count_deferred s1) = (s2, ok)" by fastforce
      have q2: "quiet cfg s (count_deferred s1)" using q1 by (intro quiet_after2)
      note sl = spool_or_lost_quiet [OF sp quiet_budgets [OF q2 b] keeps_item_updates(1) r(1)]
      have q3: "quiet cfg s s2" "quiet cfg s (historyLost s2)" using sl q2 quiet_trans by blast+
      obtain s4 r4 where sk: "skipUnrecorded cfg e r d (releaseSlot s1) = (s4, r4)" by fastforce
      have "budgets_ok cfg (releaseSlot s1)"
        using quiet_budgets [OF q1 b] by (simp add: budgets_ok_def releaseSlot_def return_slot_def signal_queue_def Let_def)
      from skipUnrecorded_quiet [OF sk this r(1)] have "Q s4" using q1 by (auto simp: quiet_def intro: same)
      then show ?thesis
        using a' False True go [OF q3(1)] go [OF q3(2)] by (cases ok) (auto simp: k sp sk split: if_splits)
    qed
  qed
  then show ?thesis by (simp add: Q_def)
qed

lemma enqueue_active:
  assumes "budgets_ok cfg s" "enqueue cfg e d hash trig scheduled idem attempt parent s = (s', res)"
  shows "s_active s' = s_active s"
proof -
  have sk1: "s_active s2 = s_active s"
    if "recordSkipped cfg e d hash trig scheduled idem attempt parent why (s\<lparr>s_db := b\<rparr>) = (s2, y)" for why s2 y b
    using recordSkipped_quiet [OF that] assms(1) by (simp add: quiet_def budgets_ok_def)
  have sk2: "s_active s2 = s_active s"
    if "recordSkipped cfg e d hash trig scheduled idem attempt parent why (s\<lparr>s_db := b, s_queue := q\<rparr>) = (s2, y)"
    for why s2 y b q
    using recordSkipped_quiet [OF that] assms(1) by (simp add: quiet_def budgets_ok_def)
  show ?thesis
    using assms(2) unfolding enqueue_def Let_def
    by (auto simp: startLoop_def stop_if_def BeginShutdown_def add_depth_def queue_loop_started_def signal_queue_def
        split: prod.splits sum.splits if_splits option.splits dest: sk1 sk2)
qed

section \<open>Properties\<close>

text \<open>C14: in every state the service can reach, with any failures of the database and any
  interleaving of its operations: the capacity slots taken are exactly the active job runs and
  at most \<^verbatim>\<open>MaxConcurrentRuns\<close>; the per-job counters behind the overlap policy count
  exactly the active runs of that name; and pending retries, drop evidence, deferred history and
  untaken outcomes stay within their budgets.\<close>

theorem executor_accounting:
  assumes "exec_reachable cfg ok s"
  shows "s_capacity s = job_runs s \<and> job_runs s \<le> c_MaxConcurrentRuns cfg \<and>
    (\<forall>name. Active name s = named_runs name s) \<and>
    int (length (rt_heap (s_retries s))) \<le> qo_MaxPendingRetries (c_queueOpt cfg) \<and>
    length (rt_evidence (s_retries s)) \<le> retryEvidenceCap \<and>
    int (length (s_finalizing s)) \<le> qo_MaxFinalizers (c_queueOpt cfg) \<and> length (s_outcomes s) \<le> maxOutcomes"
  using executor.reachable_inv [OF assms]
  by (simp add: exec_inv_def accounted_def budgets_ok_def retries_ok_def items_ok_def outcomes_ok_def Active_def)


text \<open>C16: when a trigger starts a run, the definition is enabled, shutdown has not begun and the
  caller has not gone away; a job had a free capacity slot, a job that skips overlaps had no other
  active run, and a queueable trigger found the queue empty (newer work never overtakes queued
  work). The run that starts is new and carries the definition it was triggered with.\<close>

theorem trigger_admission:
  assumes inv: "exec_inv cfg s"
    and t: "trigger cfg e d hash trig scheduled idem attempt parent s = (s', res)"
    and started: "s_active s' \<noteq> s_active s"
  shows "IsEnabled d \<and> \<not> s_closing s' \<and> \<not> e_ctx e 0 \<and>
    (d_Kind d = KindJob \<longrightarrow> s_capacity s < c_MaxConcurrentRuns cfg \<and>
       (d_OnOverlap d = ''skip'' \<longrightarrow> Active (d_Name d) s = 0) \<and>
       (queueable cfg trig \<longrightarrow> qu_depth (s_queue s) \<le> 0)) \<and>
    (\<exists>run. r_ID (a_run run) = e_uuid e \<and> a_def run = d \<and> s_active s' = put_key (e_uuid e) run (s_active s))"
proof -
  define s1 where "s1 = stop_if (e_stop e 0) s"
  have same: "s_active s1 = s_active s" "s_capacity s1 = s_capacity s" "s_byJob s1 = s_byJob s" "s_queue s1 = s_queue s"
    by (simp_all add: s1_def stop_if_def BeginShutdown_def)
  have b1: "budgets_ok cfg s1" using inv quiet_budgets [OF quiet_small(6)] by (simp add: s1_def exec_inv_def)
  have b2: "budgets_ok cfg (take_slot s1)" using b1 by (simp add: budgets_ok_def take_slot_def)
  have skip: "s_active s2 = s_active s"
    if "recordSkipped cfg e d hash trig scheduled idem attempt parent why s1 = (s2, y)" for why s2 y
    using recordSkipped_quiet [OF that b1] same by (simp add: quiet_def)
  have enq: "s_active s2 = s_active s"
    if "enqueue cfg e d hash trig scheduled idem attempt parent s1 = (s2, y)" for s2 y
    using enqueue_active [OF b1 that] same by simp
  have nonneg: "0 \<le> Active (d_Name d) s"
    using inv by (simp add: exec_inv_def accounted_def Active_def named_runs_def)
  let ?s = "if d_Kind d = KindJob then take_slot s1 else s1"
  have act: "s_active ?s = s_active s" and bs: "budgets_ok cfg ?s" using same b1 b2 by simp_all
  have checks: "IsEnabled d" "\<not> e_ctx e 0"
    "d_Kind d = KindJob \<longrightarrow> \<not> (d_OnOverlap d = ''skip'' \<and> Active (d_Name d) s1 > 0)
       \<and> \<not> (queueable cfg trig \<and> qu_depth (s_queue s1) > 0) \<and> slot_free cfg s1"
    and a: "admit_run cfg e d hash trig scheduled idem attempt parent ?s = (s', res)"
    using t started skip enq same(1) unfolding trigger_def Let_def s1_def [symmetric]
    by (auto split: if_splits option.splits)
  from admit_run_active [OF bs a] started act
  have "\<not> s_closing s'" "\<exists>run. r_ID (a_run run) = e_uuid e \<and> a_def run = d \<and> s_active s' = put_key (e_uuid e) run (s_active s)"
    by auto
  then show ?thesis
    using checks nonneg same by (auto simp: Active_def slot_free_def)
qed

section \<open>Completion\<close>

text \<open>The parts of the state that completing a run acts on last.\<close>

definition front :: "service \<Rightarrow> (run_rec \<times> definition_rec) list \<times> (string \<times> run_rec) list \<times> retry_state" where
  "front s = (s_notified s, s_outcomes s, s_retries s)"

lemma front_small [simp]:
  "front (storageFailed now s) = front s" "front (storageRecovered s) = front s" "front (historyLost s) = front s"
  "front (dropFinalizer rid s) = front s" "front (update_item rid it upd s) = front s"
  "front (stop_if stop s) = front s" "front (final_loop_started s) = front s" "front (signal_finals s) = front s"
  "front (s\<lparr>s_db := b\<rparr>) = front s" "front (s\<lparr>s_lag := lag\<rparr>) = front s"
  by (simp_all add: front_def storageFailed_def storageRecovered_def historyLost_def dropFinalizer_def end_pending_of_def
      update_item_def Let_def stop_if_def BeginShutdown_def final_loop_started_def signal_finals_def startPending_def
      split: option.splits)

lemma spool_front: "spool cfg now stop r d upd s = (s', ok) \<Longrightarrow> front s' = front s"
  by (auto simp: spool_def startLoop_def Let_def split: if_splits option.splits)

lemma spooled_front: "spooled rid upd s = (s', ok) \<Longrightarrow> front s' = front s"
  by (auto simp: spooled_def split: option.splits)

lemma spooled_missing: "spooled rid upd s = (s', False) \<Longrightarrow> s' = s \<and> \<not> Finalizing rid s"
  by (auto simp: spooled_def Finalizing_def split: option.splits)

lemma recordOutcome_sel [simp]:
  "s_db (recordOutcome r t s) = s_db s" "s_health (recordOutcome r t s) = s_health s"
  "Finalizing rid (recordOutcome r t s) = Finalizing rid s" "s_notified (recordOutcome r t s) = s_notified s"
  "s_retries (recordOutcome r t s) = s_retries s" "s_closing (recordOutcome r t s) = s_closing s"
  by (simp_all add: recordOutcome_def Let_def Finalizing_def)

definition final_run :: "run_rec \<Rightarrow> terminal \<Rightarrow> run_rec" where
  "final_run r t = (record_outcome_of r t)\<lparr>r_ResourceUsage := t_usage t\<rparr>"

lemma finished_eq:
  "finished cfg e r d t s =
     (let s1 = notifyFinished (final_run r t) d s
      in if t_retry t then scheduleRetry cfg (e_now e 8) (final_run r t) d s1 else s1)"
  by (simp add: finished_def final_run_def Let_def)

text \<open>The terminal write was refused: the run is not pending or running any more.\<close>

definition finish_refused :: "env \<Rightarrow> string \<Rightarrow> bool \<Rightarrow> terminal \<Rightarrow> service \<Rightarrow> bool" where
  "finish_refused e rid unrecorded t s \<longleftrightarrow> \<not> unrecorded \<and> \<not> Finalizing rid s \<and> \<not> sh_down (s_health s)
     \<and> snd (finishRun e rid t (s_db s)) = Inl (Refused ErrInvalidTransition)"

lemma complete_front:
  "front (complete cfg e r d unrecorded t s) = front (recordOutcome r t s) \<and> finish_refused e (r_ID r) unrecorded t s \<or>
   (\<exists>s1. complete cfg e r d unrecorded t s = finished cfg e r d t s1 \<and> front s1 = front (recordOutcome r t s))"
proof -
  define s0 where "s0 = recordOutcome r t s"
  let ?upd = "\<lambda>it. it\<lparr>fi_done := True, fi_t := t\<rparr>"
  let ?lost = "\<lambda>s. case spool cfg (e_now e 5) (e_stop e 1) r d ?upd s of
                   (s1, True) \<Rightarrow> s1 | (s1, False) \<Rightarrow> if s_closing s1 then s1 else historyLost s1"
  have lost: "front (?lost s2) = front s2" for s2
    by (auto split: prod.splits bool.splits dest: spool_front)
  obtain s1 found where sp: "spooled (r_ID r) ?upd s0 = (s1, found)" by fastforce
  note n1 = spooled_front [OF sp]
  obtain b x where f: "finishRun e (r_ID r) t (s_db s1) = (b, x)" by fastforce
  note unf = complete_def [of cfg e r d unrecorded t s, unfolded Let_def, folded s0_def, unfolded sp]
  show ?thesis
  proof (cases "\<not> unrecorded \<and> \<not> found \<and> \<not> sh_down (s_health s1) \<and> x = Inl (Refused ErrInvalidTransition)")
    case True
    then have "s1 = s0 \<and> \<not> Finalizing (r_ID r) s0" using spooled_missing [of "r_ID r" ?upd s0 s1] sp by simp
    then have "finish_refused e (r_ID r) unrecorded t s" using True f by (simp add: finish_refused_def s0_def)
    moreover have "complete cfg e r d unrecorded t s = s1\<lparr>s_db := b\<rparr>" unfolding unf using True f by simp
    ultimately show ?thesis using n1 by (simp add: s0_def)
  next
    case False
    then consider "unrecorded" | "\<not> unrecorded" found | "\<not> unrecorded" "\<not> found" "sh_down (s_health s1)"
      | u where "\<not> unrecorded" "\<not> found" "\<not> sh_down (s_health s1)" "x = Inr u"
      | err where "\<not> unrecorded" "\<not> found" "\<not> sh_down (s_health s1)" "x = Inl err" "err \<noteq> Refused ErrInvalidTransition"
      by (cases x) auto
    then have "\<exists>s2. complete cfg e r d unrecorded t s = finished cfg e r d t s2 \<and> front s2 = front s0"
    proof cases
      case 1 then show ?thesis unfolding unf by auto
    next
      case 2 then show ?thesis unfolding unf using n1 by auto
    next
      case 3 then show ?thesis unfolding unf using n1 lost by auto
    next
      case (4 u)
      then show ?thesis unfolding unf using n1 by (intro exI conjI) (simp add: f, simp)
    next
      case (5 err)
      then show ?thesis unfolding unf using n1 lost by (intro exI conjI) (simp add: f, simp)
    qed
    then show ?thesis by (simp add: s0_def)
  qed
qed

lemma addRetry_effect:
  assumes "\<not> s_closing s"
  shows "int (length (rt_heap (s_retries s))) < qo_MaxPendingRetries (c_queueOpt cfg) \<and>
      rt_heap (s_retries (addRetry cfg it s)) = heap_push ri_due it (rt_heap (s_retries s)) \<or>
    rt_heap (s_retries (addRetry cfg it s)) = rt_heap (s_retries s) \<and>
      rt_dropped (s_retries (addRetry cfg it s)) = rt_dropped (s_retries s) + 1 \<and>
      it \<in> set (rt_evidence (s_retries (addRetry cfg it s))) \<and>
      int (length (rt_evidence (s_retries (addRetry cfg it s)))) + rt_lost (s_retries (addRetry cfg it s))
        = int (length (rt_evidence (s_retries s))) + rt_lost (s_retries s) + 1"
  using assms by (auto simp: addRetry_def startLoop_def Let_def signal_retries_def retry_loop_started_def
      retryEvidenceCap_def not_le)

text \<open>A retry is waiting in the heap, or its drop is on record.\<close>

definition retry_kept :: "retry_item \<Rightarrow> retry_state \<Rightarrow> retry_state \<Rightarrow> bool" where
  "retry_kept it rt rt' \<longleftrightarrow> mset (rt_heap rt') = add_mset it (mset (rt_heap rt)) \<or>
     rt_dropped rt' = rt_dropped rt + 1 \<and> it \<in> set (rt_evidence rt')"

text \<open>C17: a run that stops is announced whatever the database does: either the terminal write
  was refused because the stored run is not pending or running any more, or the completion callback
  gets the run with its terminal status exactly once and, when the failed attempt of a job has
  retries left, the retry waits in the heap or its drop is on record (unless shutdown has begun).\<close>

theorem complete_announces:
  assumes "exec_inv cfg s"
  shows "finish_refused e (r_ID r) unrecorded t s \<or>
    s_notified (complete cfg e r d unrecorded t s) = s_notified s @ [(final_run r t, d)] \<and>
    (t_retry t \<and> retryable (final_run r t) d \<and> \<not> s_closing (complete cfg e r d unrecorded t s) \<longrightarrow>
       retry_kept (retry_item_of (e_now e 8) (final_run r t) d) (s_retries s)
         (s_retries (complete cfg e r d unrecorded t s)))"
proof (cases "finish_refused e (r_ID r) unrecorded t s")
  case False
  then obtain s1 where c: "complete cfg e r d unrecorded t s = finished cfg e r d t s1"
    and fr: "front s1 = front (recordOutcome r t s)" using complete_front by blast
  define s2 where "s2 = notifyFinished (final_run r t) d s1"
  have s2: "s_notified s2 = s_notified s @ [(final_run r t, d)]" "s_retries s2 = s_retries s"
    using fr by (simp_all add: s2_def notifyFinished_def front_def)
  have cl: "s_closing (addRetry cfg it s2) = s_closing s2" "s_notified (addRetry cfg it s2) = s_notified s2" for it
    by (simp_all add: addRetry_def startLoop_def Let_def signal_retries_def retry_loop_started_def)
  have heap: "is_heap ri_due (rt_heap (s_retries s))"
    using assms by (simp add: exec_inv_def budgets_ok_def retries_ok_def)
  have "retry_kept it (s_retries s) (s_retries (addRetry cfg it s2))" if "\<not> s_closing s2" for it
    using addRetry_effect [OF that, of cfg it] s2(2) heap_push_ok [OF heap, of it] by (auto simp: retry_kept_def)
  then show ?thesis
    using c s2 cl by (auto simp: finished_eq s2_def [symmetric] Let_def scheduleRetry_def)
qed simp

definition finishable :: "string \<Rightarrow> string \<Rightarrow> db \<Rightarrow> bool" where
  "finishable rid status b \<longleftrightarrow> distinct (run_ids b) \<and> (\<exists>r \<in> set (db_runs b). rr_run_id r = rid \<and>
     (rr_status r = ''pending'' \<or> rr_status r = ''running'' \<or> rr_status r = status))"

lemma finish_run_of_ok:
  assumes "finishable rid (t_status t) b"
  shows "\<exists>b'. finish_run_of rid t b = (b', Inr ()) \<and> finishable rid (t_status t) b' \<and> status_of rid b' = Some (t_status t)"
proof -
  let ?P = "\<lambda>r. rr_run_id r = rid \<and> (rr_status r = ''pending'' \<or> rr_status r = ''running'' \<or> rr_status r = t_status t)"
  let ?f = "\<lambda>r. r\<lparr>rr_status := t_status t, rr_end_reason := Some (t_reason t), rr_exit_code := t_code t,
              rr_signal := nullString (t_signal t), rr_ended_us := Some (unix_micro (t_ended t)),
              rr_log_bytes := t_bytes t, rr_log_truncated := t_truncated t,
              rr_user_cpu_us := map_option UserCPUUS (t_usage t),
              rr_system_cpu_us := map_option SystemCPUUS (t_usage t),
              rr_peak_rss_bytes := map_option PeakRSSBytes (t_usage t)\<rparr>"
  obtain r where r: "r \<in> set (db_runs b)" "?P r" using assms by (auto simp: finishable_def)
  have d: "distinct (run_ids b)" using assms by (simp add: finishable_def)
  have one: "rows_affected ?P b = 1" using d r by (intro rows_affected_one [of b r]) auto
  define b' where "b' = update_runs ?P ?f b"
  have k: "keeps_key ?f" by (simp add: keeps_key_def)
  have fr: "find_run rid b = Some r"
    using find_run_unique [OF d r(1)] r(2) by simp
  have "find_run rid b' = Some (?f r)"
    unfolding b'_def using find_run_update [OF k] fr r(2) by simp
  then have "status_of rid b' = Some (t_status t)" "\<exists>r' \<in> set (db_runs b'). rr_run_id r' = rid \<and> rr_status r' = t_status t"
    using r(2) by (auto simp: status_of_def dest!: find_run_SomeD intro!: bexI [of _ "?f r"])
  moreover have "distinct (run_ids b')" unfolding b'_def using d run_ids_update [OF k] by simp
  moreover have "finish_run_of rid t b = (b', Inr ())"
    using one by (simp add: finish_run_of_def FinishRunWithUsage_def guarded_update_def b'_def)
  ultimately show ?thesis by (auto simp: finishable_def)
qed

lemma StartRun_finishable:
  assumes "finishable rid status b"
  shows "finishable rid status (fst (StartRun rid pid pgid sid at b))"
proof -
  let ?P = "\<lambda>r. rr_run_id r = rid \<and> rr_status r = ''pending''"
  let ?f = "\<lambda>r. r\<lparr>rr_status := ''running'', rr_pid := Some pid, rr_pgid := Some pgid,
              rr_process_start_id := Some sid, rr_started_us := Some (unix_micro at)\<rparr>"
  have b': "fst (StartRun rid pid pgid sid at b) = update_runs ?P ?f b" by (simp add: StartRun_def guarded_update_def)
  have k: "keeps_key ?f" by (simp add: keeps_key_def)
  obtain r where r: "r \<in> set (db_runs b)" "rr_run_id r = rid"
    "rr_status r = ''pending'' \<or> rr_status r = ''running'' \<or> rr_status r = status"
    using assms by (auto simp: finishable_def)
  have "(if ?P r then ?f r else r) \<in> set (db_runs (update_runs ?P ?f b))" using r(1) by simp
  moreover have "rr_run_id (if ?P r then ?f r else r) = rid" using r(2) by simp
  moreover have "rr_status (if ?P r then ?f r else r) = ''running'' \<or> rr_status (if ?P r then ?f r else r) = status"
    using r(2,3) by auto
  moreover have "distinct (run_ids (update_runs ?P ?f b))"
    using assms run_ids_update [OF k, of ?P b] by (simp add: finishable_def)
  ultimately show ?thesis unfolding b' finishable_def by blast
qed

lemma finish_attempts_ok:
  assumes "finishable rid (t_status t) b" "Works \<in> set ios"
  shows "\<exists>b'. finish_attempts ios (finish_run_of rid t) b = (b', Inr ()) \<and> status_of rid b' = Some (t_status t)"
  using assms
proof (induction ios arbitrary: b)
  case (Cons io ios)
  obtain b1 where b1: "finish_run_of rid t b = (b1, Inr ())" "finishable rid (t_status t) b1" "status_of rid b1 = Some (t_status t)"
    using finish_run_of_ok [OF Cons.prems(1)] by blast
  show ?case
  proof (cases io)
    case Works
    then show ?thesis using b1 by (simp add: call_def)
  next
    case Fails
    then have "Works \<in> set ios" using Cons.prems(2) by simp
    moreover have "ios \<noteq> []" using calculation by auto
    ultimately show ?thesis using Cons.IH [OF Cons.prems(1)] Fails by (simp add: call_def)
  next
    case FailsAfterCommit
    then have "Works \<in> set ios" using Cons.prems(2) by simp
    moreover have "ios \<noteq> []" using calculation by auto
    ultimately show ?thesis using Cons.IH [OF b1(2)] FailsAfterCommit b1(1) by (simp add: call_def)
  qed
qed simp

text \<open>Whatever goes wrong with the first attempts to store a terminal state (no effect, or
  committed but reported as failed), as soon as one of at most five attempts works the write
  succeeds and the stored run has that state: repeating a committed write is accepted.\<close>

lemma finishRun_repeats:
  assumes "finishable rid (t_status t) b" "Works \<in> set (take 5 (e_finish e))"
  shows "\<exists>b'. finishRun e rid t b = (b', Inr ()) \<and> status_of rid b' = Some (t_status t)"
  unfolding finishRun_def by (rule finish_attempts_ok [OF assms])

section \<open>Retries\<close>

text \<open>Everything the retry scheduler answers for: waiting retries, drops not yet written, drops
  known only to the counter.\<close>

definition retry_ledger :: "retry_state \<Rightarrow> int" where
  "retry_ledger rt = int (length (rt_heap rt)) + int (length (rt_evidence rt)) + rt_lost rt"

text \<open>Writing the evidence \<open>items\<close>, numbered from \<open>n\<close>: the rows of the first \<open>k\<close> are added. Either these are all, or
  shutdown began and the others are dropped, or a write failed and the others are counted as lost, where the
  failed write may have been committed.\<close>

definition evidence_row :: "exec_config \<Rightarrow> (nat \<Rightarrow> env) \<Rightarrow> nat \<Rightarrow> retry_item list \<Rightarrow> nat \<Rightarrow> run_row" where
  "evidence_row cfg es n items i = runArgs (evidence_run cfg (es (n + i)) (items ! i))"

definition evidence_written :: "exec_config \<Rightarrow> (nat \<Rightarrow> env) \<Rightarrow> nat \<Rightarrow> retry_item list \<Rightarrow> service \<Rightarrow> service \<Rightarrow> bool" where
  "evidence_written cfg es n items s s' \<longleftrightarrow> (\<exists>k more.
     k \<le> length items \<and> db_runs (s_db s') = db_runs (s_db s) @ map (evidence_row cfg es n items) [0..<k] @ more \<and>
     (k = length items \<and> more = [] \<and> rt_lost (s_retries s') = rt_lost (s_retries s) \<or>
      k < length items \<and> more = [] \<and> rt_lost (s_retries s') = rt_lost (s_retries s) \<and> s_closing s' \<or>
      k < length items \<and> more \<in> {[], [evidence_row cfg es n items k]} \<and>
        rt_lost (s_retries s') = rt_lost (s_retries s) + int (length items - k)))"

lemma evidence_written_Suc:
  assumes "evidence_written cfg es (Suc n) items (s0\<lparr>s_db := b\<rparr>) s'" "s_retries s0 = s_retries s"
    and "db_runs b = db_runs (s_db s) @ [runArgs (evidence_run cfg (es n) it)]"
  shows "evidence_written cfg es n (it # items) s s'"
proof -
  have row: "evidence_row cfg es n (it # items) (Suc i) = evidence_row cfg es (Suc n) items i" for i by (simp add: evidence_row_def)
  have rows: "map (evidence_row cfg es n (it # items)) [0..<Suc k] =
      runArgs (evidence_run cfg (es n) it) # map (evidence_row cfg es (Suc n) items) [0..<k]" for k
    by (simp add: upt_conv_Cons map_Suc_upt [symmetric] row del: upt_Suc) (simp add: evidence_row_def)
  from assms(1) obtain k more where k: "k \<le> length items"
    "db_runs (s_db s') = db_runs b @ map (evidence_row cfg es (Suc n) items) [0..<k] @ more"
    "k = length items \<and> more = [] \<and> rt_lost (s_retries s') = rt_lost (s_retries s) \<or>
      k < length items \<and> more = [] \<and> rt_lost (s_retries s') = rt_lost (s_retries s) \<and> s_closing s' \<or>
      k < length items \<and> more \<in> {[], [evidence_row cfg es (Suc n) items k]} \<and>
        rt_lost (s_retries s') = rt_lost (s_retries s) + int (length items - k)"
    unfolding evidence_written_def assms(2) [symmetric] by auto
  show ?thesis
    unfolding evidence_written_def
    by (rule exI [of _ "Suc k"], rule exI [of _ more]) (use k assms(3) rows [of k] row in \<open>simp del: upt_Suc, blast?\<close>)
qed

lemma write_evidence_written:
  "evidence_written cfg es n items s (write_evidence cfg es n items s) \<and>
   rt_heap (s_retries (write_evidence cfg es n items s)) = rt_heap (s_retries s) \<and>
   rt_evidence (s_retries (write_evidence cfg es n items s)) = rt_evidence (s_retries s)"
proof (induction items arbitrary: n s)
  case Nil
  show ?case by (simp add: evidence_written_def)
next
  case (Cons it items)
  define s0 where "s0 = stop_if (e_stop (es n) 0) s"
  have s0: "s_db s0 = s_db s" "s_retries s0 = s_retries s" by (simp_all add: s0_def stop_if_def BeginShutdown_def)
  define f where "f = CreateRun (evidence_run cfg (es n) it)"
  obtain b x where c: "call (e_io (es n) CCreate) f (s_db s0) = (b, x)" by fastforce
  let ?row = "runArgs (evidence_run cfg (es n) it)"
  have row: "db_runs b = db_runs (s_db s) @ [?row]" if "x = Inr u" for u
  proof -
    have "f (s_db s0) = (b, Inr u)" using call_cases [OF c] that by auto
    then show ?thesis using s0 by (auto simp: f_def CreateRun_def split: sum.splits dest: insert_run_InrD)
  qed
  have maybe: "db_runs b = db_runs (s_db s) \<or> db_runs b = db_runs (s_db s) @ [?row]"
    using call_db [OF c] s0 by (auto simp: f_def CreateRun_def split: sum.splits dest: insert_run_InrD)
  have unf: "write_evidence cfg es n (it # items) s = (if s_closing s0 then s0
      else case x of Inl _ \<Rightarrow> s0\<lparr>s_db := b, s_retries := (s_retries s0)\<lparr>rt_lost := rt_lost (s_retries s0) + int (length (it # items))\<rparr>\<rparr>
         | Inr _ \<Rightarrow> write_evidence cfg es (Suc n) items (s0\<lparr>s_db := b\<rparr>))"
    using c by (simp add: s0_def f_def Let_def split: sum.splits)
  show ?case
  proof (cases "s_closing s0")
    case True
    then have "evidence_written cfg es n (it # items) s s0"
      unfolding evidence_written_def using s0 by (intro exI [of _ 0] exI [of _ "[]"]) simp
    then show ?thesis using True s0 unfolding unf by simp
  next
    case going: False
    show ?thesis
    proof (cases x)
      case (Inl err)
      let ?s = "s0\<lparr>s_db := b, s_retries := (s_retries s0)\<lparr>rt_lost := rt_lost (s_retries s0) + int (length (it # items))\<rparr>\<rparr>"
      have "evidence_written cfg es n (it # items) s ?s"
        unfolding evidence_written_def
        by (rule exI [of _ 0], rule exI [of _ "if db_runs b = db_runs (s_db s) then [] else [?row]"])
          (use maybe s0 in \<open>auto simp: evidence_row_def\<close>)
      then show ?thesis using going Inl s0 unfolding unf by simp
    next
      case (Inr u)
      have "evidence_written cfg es n (it # items) s (write_evidence cfg es (Suc n) items (s0\<lparr>s_db := b\<rparr>))"
        using Cons.IH [of "Suc n" "s0\<lparr>s_db := b\<rparr>"] evidence_written_Suc [where es = es and n = n, OF _ s0(2) row [OF Inr]] by blast
      then show ?thesis using Cons.IH [of "Suc n" "s0\<lparr>s_db := b\<rparr>"] going Inr s0 unfolding unf by simp
    qed
  qed
qed


text \<open>The retries one pass takes off the heap are due, at most sixteen, in the order of
  their due times; no retry left behind is due earlier than one taken, and if fewer than
  sixteen were taken nothing due is left. Nothing is lost or duplicated.\<close>

lemma retry_due_order:
  assumes "exec_inv cfg s" "due_retries now (rt_heap (s_retries s)) = (due, rest)"
  shows "mset (rt_heap (s_retries s)) = mset due + mset rest \<and> length due \<le> 16 \<and> sorted (map ri_due due) \<and>
    (\<forall>it \<in> set due. ri_due it \<le> now \<and> (\<forall>it' \<in> set rest. ri_due it \<le> ri_due it')) \<and>
    (length due < 16 \<longrightarrow> (\<forall>it' \<in> set rest. now < ri_due it'))"
proof -
  have "is_heap ri_due (rt_heap (s_retries s))"
    using assms(1) by (simp add: exec_inv_def budgets_ok_def retries_ok_def)
  note spec = due_retries_spec [OF this assms(2), unfolded retryBatch_def]
  show ?thesis using spec by blast
qed

section \<open>Fairness of the drain\<close>

lemma pick_head_least:
  "sorted_wrt (\<lambda>a b. qi_Seq a < qi_Seq b) hs \<Longrightarrow> pick_head tick best hs = Some h \<Longrightarrow>
   (\<forall>b. best = Some b \<longrightarrow> (\<forall>x \<in> set hs. qi_Seq b < qi_Seq x)) \<Longrightarrow>
   \<forall>x \<in> set hs \<union> set_option best. tick (qi_DefinitionID h) < tick (qi_DefinitionID x)
     \<or> tick (qi_DefinitionID h) = tick (qi_DefinitionID x) \<and> qi_Seq h \<le> qi_Seq x"
proof (induction hs arbitrary: best)
  case (Cons a hs)
  define best' where "best' = (case best of None \<Rightarrow> Some a
        | Some b \<Rightarrow> if tick (qi_DefinitionID a) < tick (qi_DefinitionID b) then Some a else Some b)"
  have "pick_head tick best' hs = Some h" using Cons.prems(2) by (simp add: best'_def)
  moreover have "\<forall>b. best' = Some b \<longrightarrow> (\<forall>x \<in> set hs. qi_Seq b < qi_Seq x)"
    using Cons.prems(1,3) by (auto simp: best'_def split: option.splits if_splits)
  ultimately have IH: "\<forall>x \<in> set hs \<union> set_option best'. tick (qi_DefinitionID h) < tick (qi_DefinitionID x)
     \<or> tick (qi_DefinitionID h) = tick (qi_DefinitionID x) \<and> qi_Seq h \<le> qi_Seq x"
    using Cons.IH Cons.prems(1) by simp
  show ?case
  proof (cases best)
    case None
    then show ?thesis using IH by (simp add: best'_def)
  next
    case (Some b)
    then have "qi_Seq b < qi_Seq a" using Cons.prems(3) by simp
    then show ?thesis using IH Some by (auto simp: best'_def not_less split: if_splits)
  qed
qed simp

text \<open>The drain is fair. The item it serves next is the oldest queued run of its definition,
  and among the heads it considers no definition was served longer ago; of definitions served
  equally long ago it takes the oldest head.\<close>

lemma nextItem_fair:
  assumes inv: "exec_inv cfg s" and n: "nextItem e s = Inr (Some item)"
  shows "item \<in> set (QueueHeads queueHeadWindow (s_db s)) \<and>
    (\<forall>q \<in> set (db_queue (s_db s)). q_definition_id q = qi_DefinitionID item \<longrightarrow> qi_Seq item \<le> q_seq q) \<and>
    (\<forall>h \<in> set (QueueHeads queueHeadWindow (s_db s)).
       served_tick (qu_served (s_queue s)) (qi_DefinitionID item) < served_tick (qu_served (s_queue s)) (qi_DefinitionID h) \<or>
       served_tick (qu_served (s_queue s)) (qi_DefinitionID item) = served_tick (qu_served (s_queue s)) (qi_DefinitionID h)
         \<and> qi_Seq item \<le> qi_Seq h)"
proof -
  let ?b = "s_db s" and ?tick = "served_tick (qu_served (s_queue s))"
  have qinv: "queue_inv ?b" using inv by (simp add: exec_inv_def store_ok_def)
  have pick: "pick_head ?tick None (QueueHeads queueHeadWindow ?b) = Some item"
    using n by (auto simp: nextItem_def split: sum.splits dest!: call_read_Inr)
  have heads: "QueueHeads queueHeadWindow ?b = map queue_item_of (take queueHeadWindow (filter (is_head ?b) (db_queue ?b)))"
    by (rule QueueHeads_filter [OF qinv])
  have "sorted_wrt (\<lambda>a b. q_seq a < q_seq b) (db_queue ?b)"
    using qinv by (simp add: queue_inv_def sorted_wrt_map)
  then have "sorted_wrt (\<lambda>a b. qi_Seq a < qi_Seq b) (QueueHeads queueHeadWindow ?b)"
    unfolding heads by (simp add: sorted_wrt_map queue_item_of_def sorted_wrt_filter sorted_wrt_take)
  from pick_head_least [OF this pick] have least: "\<forall>h \<in> set (QueueHeads queueHeadWindow ?b).
      ?tick (qi_DefinitionID item) < ?tick (qi_DefinitionID h)
      \<or> ?tick (qi_DefinitionID item) = ?tick (qi_DefinitionID h) \<and> qi_Seq item \<le> qi_Seq h" by simp
  have mem: "item \<in> set (QueueHeads queueHeadWindow ?b)" using pick_head_in [OF pick] by simp
  then obtain q where q: "q \<in> set (db_queue ?b)" "is_head ?b q" "item = queue_item_of q"
    unfolding heads by (auto dest!: in_set_takeD)
  then have "\<forall>q' \<in> set (db_queue ?b). q_definition_id q' = qi_DefinitionID item \<longrightarrow> qi_Seq item \<le> q_seq q'"
    by (auto simp: is_head_def list_all_iff queue_item_of_def)
  then show ?thesis using mem least by blast
qed

section \<open>Deferred history\<close>

lemma modify_item_map_of:
  "map_of (s_finalizing (modify_item rid f s)) k = (if k = rid then map_option f (map_of (s_finalizing s) rid) else map_of (s_finalizing s) k)"
proof -
  have "map_of (map (\<lambda>(k, it). if k = rid then (k, f it) else (k, it)) items) k
      = (if k = rid then map_option f (map_of items rid) else map_of items k)" for items :: "(string \<times> final_item) list"
    by (induction items) auto
  then show ?thesis by (simp add: modify_item_def)
qed

lemma modify_item_db [simp]: "s_db (modify_item rid f s) = s_db s" "s_lag (modify_item rid f s) = s_lag s"
  by (simp_all add: modify_item_def)

lemma retire_db [simp]: "s_db (retire v s) = s_db s"
  by (simp add: retire_def Let_def dropFinalizer_def end_pending_of_def signal_finals_def split: option.splits)

lemma retire_gone:
  "map_of (s_finalizing s) (r_ID (fi_r v)) = Some it \<Longrightarrow> \<not> fi_create it \<Longrightarrow> \<not> fi_start it \<Longrightarrow> fi_done v \<or> \<not> fi_done it \<Longrightarrow>
   map_of (s_finalizing (retire v s)) (r_ID (fi_r v)) = None"
  by (simp add: retire_def Let_def dropFinalizer_def)

text \<open>The row of a run whose history was kept in memory: the row it was admitted with, the process it started, if
  one did, and how it ended.\<close>

definition history_row :: "final_item \<Rightarrow> run_row" where
  "history_row v =
     (let r = runArgs (fi_r v); st = fi_started v; t = fi_t v;
          r1 = (if fi_start v then r\<lparr>rr_pid := Some (si_pid st), rr_pgid := Some (si_pgid st),
                  rr_process_start_id := Some (si_id st), rr_started_us := Some (unix_micro (si_at st))\<rparr> else r)
      in r1\<lparr>rr_status := t_status t, rr_end_reason := Some (t_reason t), rr_exit_code := t_code t,
           rr_signal := nullString (t_signal t), rr_ended_us := Some (unix_micro (t_ended t)),
           rr_log_bytes := t_bytes t, rr_log_truncated := t_truncated t,
           rr_user_cpu_us := map_option UserCPUUS (t_usage t), rr_system_cpu_us := map_option SystemCPUUS (t_usage t),
           rr_peak_rss_bytes := map_option PeakRSSBytes (t_usage t)\<rparr>)"

lemma guarded_update_last:
  assumes "db_runs b = rs @ [r]" "\<forall>x \<in> set rs. \<not> P x" "P r"
  shows "guarded_update P f b = (b\<lparr>db_runs := rs @ [f r]\<rparr>, Inr ())"
proof -
  have "map (\<lambda>x. if P x then f x else x) rs = rs" using assms(2) by (intro map_idI) auto
  moreover have "filter P rs = []" using assms(2) by (simp add: filter_empty_conv)
  ultimately show ?thesis using assms(1,3) by (simp add: guarded_update_def update_runs_def rows_affected_def)
qed

text \<open>C19: when the database accepts writes again, one pass of the writer stores the whole history
  of a run that was admitted, executed and finished without it, provided its row can be inserted (its identifier is new, its
  definition is there and no other run has its occurrence): the pass adds exactly one row, with everything the run was admitted
  with, the process that was started, if any, and how it ended; it changes nothing else in the database; the run stops
  waiting, and the callback for stored rows has been called.\<close>

theorem writeHistory_stores:
  assumes item: "map_of (s_finalizing s) rid = Some v" "item_ok rid v" "r_Status (fi_r v) = ''pending''"
    and stages: "fi_create v" "fi_done v"
    and works: "e_io e CCreate = Works" "e_io e CStart = Works" "e_io e CFinish = Works"
    and room: "insert_run (runArgs (fi_r v)) (s_db s) = Inr b"
    and w: "writeHistory e v s = (s', err)"
  shows "err = None \<and> s_db s' = s_db s\<lparr>db_runs := db_runs (s_db s) @ [history_row v]\<rparr> \<and> \<not> Finalizing rid s' \<and>
    s_stored s' = s_stored s @ [rid]"
proof -
  let ?rs = "db_runs (s_db s)" and ?r = "runArgs (fi_r v)" and ?st = "fi_started v" and ?t = "fi_t v"
  have rid: "r_ID (fi_r v) = rid" using item(2) by (simp add: item_ok_def)
  have row: "rr_run_id ?r = rid" "rr_status ?r = ''pending''" using rid item(3) by (simp_all add: runArgs_def)
  have b: "b = s_db s\<lparr>db_runs := ?rs @ [?r]\<rparr>" and fresh: "\<forall>x \<in> set ?rs. rr_run_id x \<noteq> rid"
    using room row(1) by (auto simp: insert_run_def run_ids_def image_iff split: if_splits)
  define s1 where "s1 = (modify_item rid (\<lambda>it. it\<lparr>fi_create := False\<rparr>) (s\<lparr>s_db := b\<rparr>))\<lparr>s_stored := s_stored s @ [rid]\<rparr>"
  have r1: "write_row e v s = (s1, None)"
    using stages(1) works(1) room rid by (simp add: write_row_def Let_def call_def CreateRun_def s1_def)
  have it1: "map_of (s_finalizing s1) rid = Some (v\<lparr>fi_create := False\<rparr>)"
    using item(1) modify_item_map_of [of rid _ "s\<lparr>s_db := b\<rparr>" rid] by (simp add: s1_def)
  have db1: "s_db s1 = b" by (simp add: s1_def)
  define r2 where "r2 = (if fi_start v then ?r\<lparr>rr_status := ''running'', rr_pid := Some (si_pid ?st), rr_pgid := Some (si_pgid ?st),
      rr_process_start_id := Some (si_id ?st), rr_started_us := Some (unix_micro (si_at ?st))\<rparr> else ?r)"
  obtain s2 where s2: "write_start e v s1 = (s2, None)" "s_db s2 = s_db s\<lparr>db_runs := ?rs @ [r2]\<rparr>"
    "\<exists>it. map_of (s_finalizing s2) rid = Some it \<and> \<not> fi_create it \<and> \<not> fi_start it" "s_stored s2 = s_stored s1"
  proof (cases "fi_start v")
    case False
    then show thesis using that [of s1] it1 by (simp add: write_start_def Let_def db1 b r2_def)
  next
    case True
    define s2 where "s2 = modify_item rid (\<lambda>it. it\<lparr>fi_start := False\<rparr>) (s1\<lparr>s_db := s_db s\<lparr>db_runs := ?rs @ [r2]\<rparr>\<rparr>)"
    have "StartRun rid (si_pid ?st) (si_pgid ?st) (si_id ?st) (si_at ?st) b = (s_db s\<lparr>db_runs := ?rs @ [r2]\<rparr>, Inr ())"
      unfolding StartRun_def using guarded_update_last [of b ?rs ?r] fresh row True by (simp add: b r2_def)
    then have "write_start e v s1 = (s2, None)"
      using True works(2) rid by (simp add: write_start_def Let_def call_def db1 s2_def)
    moreover have "map_of (s_finalizing s2) rid = Some (v\<lparr>fi_create := False, fi_start := False\<rparr>)"
      using it1 modify_item_map_of [of rid _ "s1\<lparr>s_db := s_db s\<lparr>db_runs := ?rs @ [r2]\<rparr>\<rparr>" rid] by (simp add: s2_def)
    moreover have "s_stored s2 = s_stored s1" by (simp add: s2_def modify_item_def)
    ultimately show thesis using that [of s2] by (simp add: s2_def)
  qed
  have id2: "rr_run_id r2 = rid" "rr_status r2 = ''pending'' \<or> rr_status r2 = ''running''" using row by (simp_all add: r2_def)
  define s3 where "s3 = s2\<lparr>s_db := s_db s\<lparr>db_runs := ?rs @ [history_row v]\<rparr>, s_lag := observe (e_now e 1) (t_ended ?t) (s_lag s2)\<rparr>"
  have "finish_run_of rid ?t (s_db s2) = (s_db s\<lparr>db_runs := ?rs @ [history_row v]\<rparr>, Inr ())"
    unfolding finish_run_of_def FinishRunWithUsage_def
    by (subst guarded_update_last [where rs = ?rs and r = r2])
      (use s2(2) fresh id2 in \<open>auto simp: history_row_def Let_def r2_def\<close>)
  then have r3: "write_done e v s2 = (s3, None)"
    using stages(2) works(3) rid by (simp add: write_done_def call_def s3_def)
  have "s' = retire v s3" "err = None" using w r1 s2(1) r3 by (simp_all add: writeHistory_def and_then_def)
  moreover have "map_of (s_finalizing (retire v s3)) rid = None"
    using s2(3) retire_gone [of s3 v] stages(2) rid by (auto simp: s3_def)
  moreover have "s_stored (retire v s3) = s_stored s3"
    by (simp add: retire_def Let_def dropFinalizer_def end_pending_of_def signal_finals_def split: option.splits)
  ultimately show ?thesis using s2(4) by (simp add: s3_def s1_def Finalizing_def)
qed

section \<open>Settings\<close>

lemma withDefaults_sel:
  "qo_Disabled (withDefaults opts) = qo_Disabled opts"
  "qo_MaxItems (withDefaults opts) = (if qo_MaxItems opts \<le> 0 then 100 else qo_MaxItems opts)"
  "qo_MaxPerJob (withDefaults opts) =
     (if qo_MaxPerJob opts \<le> 0 then min 25 (qo_MaxItems (withDefaults opts)) else qo_MaxPerJob opts)"
  "qo_MaxBytes (withDefaults opts) = (if qo_MaxBytes opts \<le> 0 then 256 * 2 ^ 10 else qo_MaxBytes opts)"
  "qo_MaxAge (withDefaults opts) = (if qo_MaxAge opts \<le> 0 then 15 * Minute else qo_MaxAge opts)"
  "qo_DrainRate (withDefaults opts) = (if qo_DrainRate opts \<le> 0 then 5 else qo_DrainRate opts)"
  "qo_MaxPendingRetries (withDefaults opts) = (if qo_MaxPendingRetries opts \<le> 0 then 500 else qo_MaxPendingRetries opts)"
  "qo_MaxFinalizers (withDefaults opts) = (if qo_MaxFinalizers opts \<le> 0 then 1024 else qo_MaxFinalizers opts)"
  by (simp_all add: withDefaults_def Let_def)

lemma withDefaults_idem: "withDefaults (withDefaults opts) = withDefaults opts"
proof (rule queue_options.equality)
  show "qo_MaxPerJob (withDefaults (withDefaults opts)) = qo_MaxPerJob (withDefaults opts)"
    using withDefaults_sel(2) [of opts] withDefaults_sel(3) [of opts] withDefaults_sel(3) [of "withDefaults opts"]
    by (simp split: if_splits)
qed (simp_all add: withDefaults_sel)

lemma exec_settings_config_ok: "config_ok (exec_settings boot uuid maxRuns opts)"
  by (simp add: exec_settings_def config_ok_def withDefaults_sel)

text \<open>The limits the service runs with are positive whatever was configured, a positive
  setting is kept, and applying the defaults again changes nothing; so the service always has room for
  one run, one retry and one deferred history.\<close>

lemma exec_settings_positive:
  "config_ok (exec_settings boot uuid maxRuns opts) \<and> withDefaults (withDefaults opts) = withDefaults opts \<and>
   0 < qo_MaxItems (withDefaults opts) \<and> 0 < qo_MaxPerJob (withDefaults opts) \<and> 0 < qo_MaxBytes (withDefaults opts) \<and>
   0 < qo_MaxAge (withDefaults opts) \<and>
   c_MaxConcurrentRuns (exec_settings boot uuid maxRuns opts) = (if maxRuns \<le> 0 then 32 else maxRuns) \<and>
   qo_MaxItems (withDefaults opts) = (if qo_MaxItems opts \<le> 0 then 100 else qo_MaxItems opts)"
  using withDefaults_idem exec_settings_config_ok by (simp add: exec_settings_def withDefaults_sel)

section \<open>Witnesses\<close>

text \<open>A database with one enabled job, and the service with two slots started on it.\<close>

definition demo_job :: definition_rec where
  "demo_job = zero_definition\<lparr>d_ID := 1, d_Name := ''backup'', d_Kind := KindJob, d_Revision := 1, d_Retries := 2\<rparr>"

definition demo_db :: db where
  "demo_db = empty_db\<lparr>db_definitions := [\<lparr>df_definition_id = 1, df_name = ''backup'', df_kind = KindJob,
     df_spec = demo_job, df_spec_hash = ''h'', df_revision = 1, df_enabled = True, df_source = ''api'',
     df_created_us = 0, df_updated_us = 0, df_deleted_us = None\<rparr>]\<rparr>"

definition demo_cfg :: exec_config where
  "demo_cfg = exec_settings ''boot'' ''u'' 2 \<lparr>qo_Disabled = False, qo_MaxItems = 0, qo_MaxPerJob = 0, qo_MaxBytes = 0,
     qo_MaxAge = 0, qo_DrainRate = 0, qo_MaxPendingRetries = 1, qo_MaxFinalizers = 0\<rparr>"

definition demo_env :: env where
  "demo_env = good_env (from_micro 0) ''run-1''"

definition demo_start :: service where
  "demo_start = New demo_db"

definition demo_running :: service where
  "demo_running = fst (trigger demo_cfg demo_env demo_job ''h'' ''manual'' None None 1 '''' demo_start)"

lemma demo_cfg_ok: "config_ok demo_cfg"
  using exec_settings_config_ok unfolding demo_cfg_def .

lemma demo_start_ok: "exec_start demo_cfg demo_start"
proof -
  have "queue_inv demo_db" by (simp add: queue_inv_def demo_db_def empty_db_def run_ids_def queue_ids_def)
  then show ?thesis using demo_cfg_ok by (auto simp: exec_start_def demo_start_def)
qed

lemma demo_honest: "honest demo_env"
  by (simp add: honest_def demo_env_def good_env_def)

lemma demo_start_fresh: "fresh_id demo_env demo_start"
proof -
  have "s_active demo_start = []" "db_queue (s_db demo_start) = []" by code_simp+
  then show ?thesis by (simp add: fresh_id_def active_ids_def queue_ids_def)
qed

lemma demo_reachable: "exec_reachable demo_cfg honest demo_running"
proof -
  have "exec_step demo_cfg honest demo_start demo_running"
    unfolding demo_running_def
    by (rule step_trigger [where e = demo_env and ok = honest, OF demo_honest demo_start_fresh]) (rule prod.collapse [symmetric])
  moreover have "exec_reachable demo_cfg honest demo_start" by (rule reachable_start) (rule demo_start_ok)
  ultimately show ?thesis using demo_cfg_ok by (blast intro: reachable_step)
qed

lemma demo_resumed: "reachable (exec_resumed demo_cfg) (\<lambda>s s'. config_ok demo_cfg \<and> exec_step demo_cfg honest s s') demo_running"
proof -
  have "ResumeQueue demo_env demo_start = (demo_start, None)"
    by (simp add: ResumeQueue_def demo_start_def New_def demo_env_def good_env_def call_read_def QueueStats_def demo_db_def empty_db_def)
  moreover have "exec_reachable demo_cfg honest demo_start" by (rule reachable_start) (rule demo_start_ok)
  ultimately have "exec_resumed demo_cfg demo_start" unfolding exec_resumed_def by blast
  moreover have "exec_step demo_cfg honest demo_start demo_running"
    unfolding demo_running_def
    by (rule step_trigger [where e = demo_env and ok = honest, OF demo_honest demo_start_fresh]) (rule prod.collapse [symmetric])
  ultimately show ?thesis using demo_cfg_ok by (blast intro: reachable_start reachable_step)
qed

lemma demo_inv: "exec_inv demo_cfg demo_start" "exec_inv demo_cfg demo_running"
  using exec_start_inv [OF demo_start_ok] executor.reachable_inv [OF demo_reachable] by auto

theorem executor_accounting_witness: "s_capacity demo_running = 1 \<and> s_capacity demo_running = job_runs demo_running"
proof -
  have "s_capacity demo_running = 1" by code_simp
  then show ?thesis using executor_accounting [OF demo_reachable] by simp
qed


theorem trigger_admission_witness: "IsEnabled demo_job \<and> s_capacity demo_start < c_MaxConcurrentRuns demo_cfg"
proof -
  have "map fst (s_active demo_running) = [''run-1'']" "map fst (s_active demo_start) = []" by code_simp+
  then have "s_active demo_running \<noteq> s_active demo_start" by auto
  moreover have "d_Kind demo_job = KindJob" by (simp add: demo_job_def)
  ultimately show ?thesis
    using trigger_admission [OF demo_inv(1) prod.collapse [symmetric], of demo_env demo_job "''h''" "''manual''" None None 1 "''''"]
    unfolding demo_running_def by simp
qed

definition demo_terminal :: terminal where
  "demo_terminal = zero_terminal\<lparr>t_status := ''failed'', t_reason := ''exit_nonzero'', t_ended := from_micro 5, t_retry := True\<rparr>"

definition demo_run :: run_rec where
  "demo_run = zero_run\<lparr>r_ID := ''run-1'', r_DefinitionID := 1, r_Job := ''backup'', r_Kind := KindJob,
     r_Status := ''pending'', r_Trigger := ''manual'', r_Attempt := 1\<rparr>"

definition broken_env :: env where
  "broken_env = demo_env\<lparr>e_io := (\<lambda>_. Fails), e_finish := [FailsAfterCommit, Fails]\<rparr>"

theorem complete_announces_witness:
  "s_notified (complete demo_cfg broken_env demo_run demo_job False demo_terminal demo_running)
     = s_notified demo_running @ [(final_run demo_run demo_terminal, demo_job)]"
proof -
  have "snd (finishRun broken_env ''run-1'' demo_terminal (s_db demo_running)) = Inl Unavailable" by code_simp
  then have "\<not> finish_refused broken_env (r_ID demo_run) False demo_terminal demo_running"
    by (simp add: finish_refused_def demo_run_def)
  then show ?thesis using complete_announces [OF demo_inv(2)] by blast
qed

lemma finishRun_repeats_example:
  "\<exists>b'. finishRun (demo_env\<lparr>e_finish := [FailsAfterCommit, Works]\<rparr>) ''run-1'' demo_terminal (s_db demo_running) = (b', Inr ())
     \<and> status_of ''run-1'' b' = Some ''failed''"
proof -
  have ids: "map rr_run_id (db_runs (s_db demo_running)) = [''run-1'']" "map rr_status (db_runs (s_db demo_running)) = [''pending'']"
    by code_simp+
  then have "finishable ''run-1'' (t_status demo_terminal) (s_db demo_running)"
    by (auto simp: finishable_def run_ids_def map_eq_Cons_conv)
  moreover have "t_status demo_terminal = ''failed''" by (simp add: demo_terminal_def)
  moreover have "Works \<in> set (take 5 (e_finish (demo_env\<lparr>e_finish := [FailsAfterCommit, Works]\<rparr>)))" by simp
  ultimately show ?thesis using finishRun_repeats by metis
qed

definition demo_retry :: retry_item where
  "demo_retry = retry_item_of 7 demo_run demo_job"


definition demo_waiting :: service where
  "demo_waiting = addRetry demo_cfg demo_retry demo_running"

lemma retry_due_order_example:
  "due_retries (7 + 5 * Second) (rt_heap (s_retries demo_waiting)) = ([demo_retry], []) \<and> ri_due demo_retry \<le> 7 + 5 * Second"
proof -
  have d: "due_retries (7 + 5 * Second) (rt_heap (s_retries demo_waiting)) = ([demo_retry], [])" by code_simp
  have "exec_inv demo_cfg demo_waiting"
    using keeps_inv_quiet [OF demo_inv(2) addRetry_quiet] by (simp add: keeps_inv_def demo_waiting_def)
  from retry_due_order [OF this d] show ?thesis using d by simp
qed

text \<open>Both slots taken and a third trigger queued.\<close>

definition demo_env_of :: "string \<Rightarrow> env" where
  "demo_env_of rid = demo_env\<lparr>e_uuid := rid\<rparr>"

definition demo_full :: service where
  "demo_full = fst (trigger demo_cfg (demo_env_of ''run-2'') demo_job ''h'' ''manual'' None None 1 '''' demo_running)"

definition demo_queued :: service where
  "demo_queued = fst (trigger demo_cfg (demo_env_of ''run-3'') demo_job ''h'' ''manual'' None None 1 '''' demo_full)"

lemma demo_trigger_inv:
  assumes "exec_inv demo_cfg s" "rid \<notin> set (map fst (s_active s))" "rid \<notin> set (map q_run_id (db_queue (s_db s)))"
  shows "exec_inv demo_cfg (fst (trigger demo_cfg (demo_env_of rid) demo_job ''h'' ''manual'' None None 1 '''' s))"
proof -
  have "fresh_id (demo_env_of rid) s" using assms by (simp add: fresh_id_def active_ids_def queue_ids_def demo_env_of_def)
  from trigger_inv [OF assms(1) this prod.collapse [symmetric]] show ?thesis by (simp add: keeps_inv_def)
qed

lemma demo_queued_inv: "exec_inv demo_cfg demo_queued"
  unfolding demo_queued_def
proof (rule demo_trigger_inv)
  show "exec_inv demo_cfg demo_full"
    unfolding demo_full_def by (rule demo_trigger_inv [OF demo_inv(2)]; code_simp)
qed code_simp+

definition demo_item :: queue_item where
  "demo_item = \<lparr>qi_Seq = 1, qi_RunID = ''run-3'', qi_DefinitionID = 1, qi_ExpiresUS = 900000000\<rparr>"

lemma nextItem_fair_example:
  "nextItem demo_env demo_queued = Inr (Some demo_item) \<and> demo_item \<in> set (QueueHeads queueHeadWindow (s_db demo_queued))"
proof -
  have n: "nextItem demo_env demo_queued = Inr (Some demo_item)" by code_simp
  then show ?thesis using nextItem_fair [OF demo_queued_inv n] by blast
qed

text \<open>A run admitted and finished while the database was down.\<close>

definition demo_deferred :: service where
  "demo_deferred = complete demo_cfg broken_env demo_run demo_job False demo_terminal
     (fst (trigger demo_cfg broken_env demo_job ''h'' ''manual'' None None 1 '''' demo_start))"

definition demo_final :: final_item where
  "demo_final = snd (hd (s_finalizing demo_deferred))"

theorem writeHistory_stores_witness:
  "db_runs (s_db (fst (writeHistory demo_env demo_final demo_deferred))) = [history_row demo_final]
   \<and> rr_status (history_row demo_final) = ''failed'' \<and> \<not> Finalizing ''run-1'' (fst (writeHistory demo_env demo_final demo_deferred))"
proof -
  have "map_of (s_finalizing demo_deferred) ''run-1'' = Some demo_final" by code_simp
  moreover have "item_ok ''run-1'' demo_final" by code_simp
  moreover have "r_Status (fi_r demo_final) = ''pending''" "fi_create demo_final" "fi_done demo_final"
    "rr_status (history_row demo_final) = ''failed''" "db_runs (s_db demo_deferred) = []" by code_simp+
  moreover have "insert_run (runArgs (fi_r demo_final)) (s_db demo_deferred)
      = Inr (s_db demo_deferred\<lparr>db_runs := [runArgs (fi_r demo_final)]\<rparr>)" by code_simp
  moreover have "e_io demo_env c = Works" for c by (simp add: demo_env_def good_env_def)
  ultimately show ?thesis
    using writeHistory_stores [OF _ _ _ _ _ _ _ _ _ prod.collapse [symmetric], of demo_deferred "''run-1''" demo_final demo_env]
    by auto
qed

end
