(* ===== verification/Supervisor.thy ===== *)
theory Supervisor
  imports Executor_State
begin

text \<open>
  The worker supervisor (\<^verbatim>\<open>src/internal/supervisor\<close>): one goroutine per supervised worker
  runs \<^verbatim>\<open>loop\<close>, and the operators \<^verbatim>\<open>Reload\<close>, \<^verbatim>\<open>StartDefinition\<close>,
  \<^verbatim>\<open>Restart\<close>, \<^verbatim>\<open>Stop\<close> and \<^verbatim>\<open>BeginShutdown\<close> act on the shared maps.

  Every goroutine has a program counter (\<open>loop_pc\<close>, \<open>lifecycle\<close>) and one step is one critical
  section of \<^verbatim>\<open>s.mu\<close> or one call out of the package, so that the step relation of
  \<^verbatim>\<open>Supervisor_Properties\<close> interleaves the goroutines as the locks of the code allow.
  The \<^verbatim>\<open>lifecycle\<close> lock is the field \<open>sv_lifecycle\<close> (held unless it is \<open>Idle\<close>) and
  \<^verbatim>\<open>stateMu\<close> is the flag \<open>sv_stateMu\<close>.

  A goroutine is known by the number under which \<open>sv_loops\<close> keeps it; the same number stands for
  its cancel function in \<^verbatim>\<open>workerCancels\<close> and for its channel in \<^verbatim>\<open>workerDone\<close>.
  The interface \<^verbatim>\<open>workerExecutor\<close> is a parameter: its answers, the clock, the fate of
  database calls and the choice a \<^verbatim>\<open>select\<close> makes between ready cases are the inputs of a step
  (\<open>answers\<close>), and the calls made to it are logged in \<open>sv_calls\<close>.
\<close>

section \<open>State\<close>

datatype loop_pc =
    LTop
  | LTrigger
  | LActivate run_rec
  | LHoldStop string
  | LWait string
  | LCtxStop string
  | LCtxJoin string
  | LDeactivate string
  | LOutcome string
  | LTerminal string duration
  | LPoll string duration
  | LAbandoned string
  | LDecide run_rec
  | LRestart bool string string
  | LExhaust "64 word" int worker_exhaustion duration
  | LPersist "64 word" int worker_exhaustion duration
  | LPersistWait "64 word" int worker_exhaustion duration
  | LRetire "64 word" int
  | LDelay duration
  | LDefer
  | LDeferStop string
  | LDeferJoin string
  | LClean
  | LEnded

record worker_loop =
  lp_def :: definition_rec
  lp_ctx :: bool
  lp_last :: string
  lp_pc :: loop_pc

datatype reset_for = ForReload "definition_rec list" | ForStart definition_rec | ForRestart definition_rec

datatype lifecycle =
    Idle
  | ResetCheck reset_for
  | ResetClear reset_for
  | ResetCommit reset_for
  | ReloadScan "definition_rec list"
  | ReloadWait "definition_rec list" "nat list"
  | StartBegin definition_rec
  | StartWait definition_rec "nat option"
  | StartLaunch definition_rec
  | RestartSample definition_rec
  | RestartHold definition_rec "nat option" "nat option"
  | RestartStop definition_rec "nat option" "nat option" string
  | RestartCancel definition_rec "nat option" "nat option"
  | RestartSpawn definition_rec "nat option"

record replacement =
  rp_def :: definition_rec
  rp_done :: "nat option"
  rp_epoch :: "64 word"

datatype exec_call = CallTrigger string | CallStop string | CallStopForShutdown string | CallTake string

record supervisor =
  sv_db :: db
  sv_stateMu :: bool
  sv_epochs :: "string \<Rightarrow> 64 word option"
  sv_epochBase :: "64 word"
  sv_epochSeq :: "64 word"
  sv_exhausted :: "string \<Rightarrow> worker_exhaustion option"
  sv_pending :: "string \<Rightarrow> bool"
  sv_notified :: "(definition_rec \<times> worker_exhaustion) list"
  sv_ctx :: bool
  sv_cancelled :: bool
  sv_closing :: bool
  sv_stopped :: bool
  sv_holds :: "string \<Rightarrow> bool"
  sv_failures :: "string \<Rightarrow> int"
  sv_active :: "string \<Rightarrow> string option"
  sv_workerCancels :: "(string \<times> nat) list"
  sv_workerDone :: "string \<Rightarrow> nat option"
  sv_workerDefs :: "string \<Rightarrow> definition_rec option"
  sv_retiring :: "string \<Rightarrow> bool"
  sv_loops :: "nat \<Rightarrow> worker_loop option"
  sv_next :: nat
  sv_closedDone :: "nat \<Rightarrow> bool"
  sv_lifecycle :: lifecycle
  sv_replacements :: "replacement list"
  sv_stopping :: "string list"
  sv_calls :: "exec_call list"

definition New_Supervisor :: "db \<Rightarrow> supervisor" where
  "New_Supervisor b = \<lparr>sv_db = b, sv_stateMu = False, sv_epochs = (\<lambda>_. None), sv_epochBase = 0,
     sv_epochSeq = 0, sv_exhausted = (\<lambda>_. None), sv_pending = (\<lambda>_. False), sv_notified = [],
     sv_ctx = False, sv_cancelled = False, sv_closing = False, sv_stopped = False,
     sv_holds = (\<lambda>_. False), sv_failures = (\<lambda>_. 0), sv_active = (\<lambda>_. None), sv_workerCancels = [],
     sv_workerDone = (\<lambda>_. None), sv_workerDefs = (\<lambda>_. None), sv_retiring = (\<lambda>_. False),
     sv_loops = (\<lambda>_. None), sv_next = 0, sv_closedDone = (\<lambda>_. False), sv_lifecycle = Idle,
     sv_replacements = [], sv_stopping = [], sv_calls = []\<rparr>"

text \<open>What one step is told by its surroundings. \<open>an_wait\<close> is the channel \<^verbatim>\<open>Wait\<close>
  returns: \<open>None\<close> for \<^verbatim>\<open>nil\<close>, else whether it is closed.\<close>

record answers =
  an_trigger :: "run_rec \<times> exec_error option"
  an_message :: string
  an_wait :: "bool option"
  an_outcome :: "run_rec option"
  an_finalizing :: bool
  an_io :: io
  an_timer :: bool
  an_ctx_first :: bool
  an_now :: time

text \<open>A \<^verbatim>\<open>select\<close> between the end of a context and another channel: which case it takes,
  when any is ready.\<close>

datatype selected = CtxDone | Ready | Blocked

definition select_case :: "bool \<Rightarrow> bool \<Rightarrow> bool \<Rightarrow> selected" where
  "select_case ended ready ctxFirst =
     (if ended \<and> (ctxFirst \<or> \<not> ready) then CtxDone else if ready then Ready else Blocked)"

section \<open>Shared helpers\<close>

definition epochLocked :: "string \<Rightarrow> supervisor \<Rightarrow> 64 word" where
  "epochLocked name s = (case sv_epochs s name of Some epoch \<Rightarrow> epoch | None \<Rightarrow> sv_epochBase s)"

definition held :: "string \<Rightarrow> supervisor \<Rightarrow> bool" where
  "held name s = sv_holds s name"

definition sameDefinition :: "(definition_rec \<Rightarrow> string) \<Rightarrow> definition_rec \<Rightarrow> definition_rec \<Rightarrow> bool" where
  "sameDefinition Sum256 a b \<longleftrightarrow>
     d_Revision a = d_Revision b \<and> snd (Canonical Sum256 a) = snd (Canonical Sum256 b)"

definition stopRun :: "string \<Rightarrow> supervisor \<Rightarrow> supervisor" where
  "stopRun rid s = s\<lparr>sv_calls := sv_calls s @ [if sv_closing s then CallStopForShutdown rid else CallStop rid]\<rparr>"

text \<open>\<^verbatim>\<open>restartDelay\<close>; the loop runs while the counter is below the number of failures and
  the delay below the limit. Durations are 64-bit.\<close>

fun doubled :: "nat \<Rightarrow> duration \<Rightarrow> duration \<Rightarrow> duration" where
  "doubled 0 limit delay = delay"
| "doubled (Suc n) limit delay = (if delay < limit then doubled n limit (wrap64 (delay * 2)) else delay)"

definition restartDelay :: "definition_rec \<Rightarrow> int \<Rightarrow> duration" where
  "restartDelay d failures =
     (let delay = wrap64 (d_RestartDelay d * Second); limit = wrap64 (d_RestartBackoffMax d * Second)
      in if limit \<le> 0 then delay else min (doubled (nat (failures - 1)) limit delay) limit)"

section \<open>Starting a worker loop\<close>

definition startLocked :: "definition_rec \<Rightarrow> supervisor \<Rightarrow> supervisor \<times> nat" where
  "startLocked d s =
     (let n = d_Name d; k = sv_next s
      in (s\<lparr>sv_failures := (sv_failures s)(n := 0), sv_holds := (sv_holds s)(n := False),
            sv_workerCancels := put_key n k (sv_workerCancels s),
            sv_workerDone := (sv_workerDone s)(n \<mapsto> k), sv_workerDefs := (sv_workerDefs s)(n \<mapsto> d),
            sv_retiring := (sv_retiring s)(n := False), sv_next := Suc k\<rparr>, k))"

definition worker_launch :: "definition_rec \<Rightarrow> supervisor \<times> nat \<Rightarrow> supervisor" where
  "worker_launch d sk =
     (case sk of (s, k) \<Rightarrow>
        s\<lparr>sv_loops := (sv_loops s)(k \<mapsto> \<lparr>lp_def = d, lp_ctx = False, lp_last = '''', lp_pc = LTop\<rparr>)\<rparr>)"

abbreviation (input) start_worker :: "definition_rec \<Rightarrow> supervisor \<Rightarrow> supervisor" where
  "start_worker d s \<equiv> worker_launch d (startLocked d s)"

section \<open>The worker loop\<close>

definition goto :: "nat \<Rightarrow> worker_loop \<Rightarrow> loop_pc \<Rightarrow> supervisor \<Rightarrow> supervisor" where
  "goto k l pc s = s\<lparr>sv_loops := (sv_loops s)(k \<mapsto> l\<lparr>lp_pc := pc\<rparr>)\<rparr>"

definition ended :: "worker_loop \<Rightarrow> supervisor \<Rightarrow> bool" where
  "ended l s \<longleftrightarrow> lp_ctx l \<or> sv_cancelled s"

text \<open>The top of the loop and the call of \<^verbatim>\<open>Trigger\<close>.\<close>

definition loop_top :: "nat \<Rightarrow> worker_loop \<Rightarrow> supervisor \<Rightarrow> supervisor" where
  "loop_top k l s = goto k l (if ended l s \<or> held (d_Name (lp_def l)) s then LDefer else LTrigger) s"

definition loop_trigger :: "answers \<Rightarrow> nat \<Rightarrow> worker_loop \<Rightarrow> supervisor \<Rightarrow> supervisor" where
  "loop_trigger a k l s0 =
     (case an_trigger a of (r, err) \<Rightarrow>
        let s = s0\<lparr>sv_calls := sv_calls s0 @ [CallTrigger (d_Name (lp_def l))]\<rparr>;
            l1 = (if r_ID r \<noteq> '''' then l\<lparr>lp_last := r_ID r\<rparr> else l)
        in case err of
             None \<Rightarrow> goto k l1 (LActivate r) s
           | Some e \<Rightarrow>
               if ended l s \<or> e = ExShutdown \<or> held (d_Name (lp_def l)) s then goto k l1 LDefer s
               else if \<not> Terminal (r_Status r) then
                 (if d_Restart (lp_def l) = ''never'' then goto k l1 LDefer s
                  else goto k l1 (LRestart False (lp_last l1) (''start_error: '' @ an_message a)) s)
               else goto k l1 (LActivate r) s)"

definition loop_activate :: "run_rec \<Rightarrow> nat \<Rightarrow> worker_loop \<Rightarrow> supervisor \<Rightarrow> supervisor" where
  "loop_activate r k l s =
     (let n = d_Name (lp_def l); s1 = s\<lparr>sv_active := (sv_active s)(n \<mapsto> r_ID r)\<rparr>
      in goto k l (if sv_holds s n then LHoldStop (r_ID r) else LWait (r_ID r)) s1)"

definition loop_wait :: "answers \<Rightarrow> string \<Rightarrow> nat \<Rightarrow> worker_loop \<Rightarrow> supervisor \<Rightarrow> supervisor" where
  "loop_wait a rid k l s =
     (case an_wait a of
        None \<Rightarrow> goto k l (LDeactivate rid) s
      | Some ready \<Rightarrow>
          (case select_case (ended l s) ready (an_ctx_first a) of
             CtxDone \<Rightarrow> goto k l (LCtxStop rid) s
           | Ready \<Rightarrow> goto k l (LDeactivate rid) s
           | Blocked \<Rightarrow> s))"

text \<open>In \<^verbatim>\<open>loop_ctx_join\<close> the channel is the one \<^verbatim>\<open>loop_wait\<close> got, which was not
  \<^verbatim>\<open>nil\<close>: only its closing lets the loop go on.\<close>

definition deactivate :: "string \<Rightarrow> string \<Rightarrow> supervisor \<Rightarrow> supervisor" where
  "deactivate n rid s =
     (if (case sv_active s n of Some x \<Rightarrow> x | None \<Rightarrow> '''') = rid
      then s\<lparr>sv_active := (sv_active s)(n := None)\<rparr> else s)"

definition loop_ctx_join :: "answers \<Rightarrow> string \<Rightarrow> nat \<Rightarrow> worker_loop \<Rightarrow> supervisor \<Rightarrow> supervisor" where
  "loop_ctx_join a rid k l s =
     (if an_wait a \<noteq> Some True then s
      else goto k l LDefer (deactivate (d_Name (lp_def l)) rid (s\<lparr>sv_calls := sv_calls s @ [CallTake rid]\<rparr>)))"

definition loop_outcome :: "answers \<Rightarrow> string \<Rightarrow> nat \<Rightarrow> worker_loop \<Rightarrow> supervisor \<Rightarrow> supervisor" where
  "loop_outcome a rid k l s0 =
     (let s = s0\<lparr>sv_calls := sv_calls s0 @ [CallTake rid]\<rparr>
      in case an_outcome a of
           Some current \<Rightarrow> goto k l (LDecide current) s
         | None \<Rightarrow> goto k l (LTerminal rid (500 * Millisecond)) s)"

text \<open>\<^verbatim>\<open>terminalRun\<close>: one read of the stored row, and the wait before the next.\<close>

definition terminalRun :: "answers \<Rightarrow> string \<Rightarrow> duration \<Rightarrow> nat \<Rightarrow> worker_loop \<Rightarrow> supervisor \<Rightarrow> supervisor" where
  "terminalRun a rid backoff k l s =
     (case call_read (an_io a) (run_get rid) (sv_db s) of
        Inr current \<Rightarrow>
          if Terminal (r_Status current) then goto k l (LDecide current) s
          else if \<not> an_finalizing a then goto k l (LAbandoned rid) s
          else goto k l (LPoll rid backoff) s
      | Inl e \<Rightarrow> goto k l (if ended l s then LDefer else LPoll rid backoff) s)"

definition terminal_poll :: "answers \<Rightarrow> string \<Rightarrow> duration \<Rightarrow> nat \<Rightarrow> worker_loop \<Rightarrow> supervisor \<Rightarrow> supervisor" where
  "terminal_poll a rid backoff k l s =
     (case select_case (ended l s) (an_timer a) (an_ctx_first a) of
        CtxDone \<Rightarrow> goto k l LDefer s
      | Ready \<Rightarrow> goto k l (LTerminal rid (backoff_next (30 * Second) backoff)) s
      | Blocked \<Rightarrow> s)"

text \<open>The restart policy, once the outcome of a lifetime is known.\<close>

definition healthy_lifetime :: "definition_rec \<Rightarrow> run_rec \<Rightarrow> bool" where
  "healthy_lifetime d current \<longleftrightarrow> r_Status current = ''succeeded''
     \<or> (case (r_StartedAt current, r_EndedAt current) of
          (Some st, Some en) \<Rightarrow> time_sub en st \<ge> wrap64 (d_HealthyAfter d * Second)
        | _ \<Rightarrow> False)"

definition loop_abandoned :: "string \<Rightarrow> nat \<Rightarrow> worker_loop \<Rightarrow> supervisor \<Rightarrow> supervisor" where
  "loop_abandoned rid k l s =
     goto k l (if held (d_Name (lp_def l)) s \<or> d_Restart (lp_def l) = ''never'' then LDefer
               else LRestart False rid ''terminal persistence abandoned'') s"

definition loop_decide :: "run_rec \<Rightarrow> nat \<Rightarrow> worker_loop \<Rightarrow> supervisor \<Rightarrow> supervisor" where
  "loop_decide current k l s =
     (let d = lp_def l
      in goto k l
          (if held (d_Name d) s then LDefer
           else if d_Restart d = ''never'' \<or> (d_Restart d = ''on-failure'' \<and> r_Status current = ''succeeded'')
           then LDefer
           else LRestart (healthy_lifetime d current) (r_ID current) (r_EndReason current)) s)"

section \<open>Restarting and exhaustion\<close>

definition exhaustion_record :: "definition_rec \<Rightarrow> int \<Rightarrow> string \<Rightarrow> string \<Rightarrow> time \<Rightarrow> worker_exhaustion" where
  "exhaustion_record d attempts lastRunID reason now =
     \<lparr>we_Reason = take 512 (''restart attempts exhausted after '' @ FormatInt attempts @ '' failures: '' @ reason),
      we_LastRunID = lastRunID, we_Attempts = attempts, we_Revision = d_Revision d, we_At = now\<rparr>"

definition restartAfter :: "answers \<Rightarrow> bool \<Rightarrow> string \<Rightarrow> string \<Rightarrow> nat \<Rightarrow> worker_loop \<Rightarrow> supervisor \<Rightarrow> supervisor" where
  "restartAfter a healthy lastRunID reason k l s =
     (if ended l s then goto k l LDefer s
      else
        let d = lp_def l; n = d_Name d;
            failures = (if healthy then 0 else sv_failures s n + 1);
            s1 = s\<lparr>sv_failures := (sv_failures s)(n := failures)\<rparr>;
            epoch = epochLocked n s1
        in if d_RestartBackoffMax d > 0 then goto k l (LDelay (restartDelay d failures)) s1
           else if failures \<ge> d_MaxRestartAttempts d
           then goto k l (LExhaust epoch failures
                  (exhaustion_record d failures lastRunID reason (an_now a)) Second) s1
           else goto k l (LDelay (restartDelay d failures)) s1)"

text \<open>\<^verbatim>\<open>persistExhaustion\<close>: the check and the note in memory, the write, and the wait before
  another attempt. \<^verbatim>\<open>stateMu\<close> is held from the first to the end of the second.\<close>

definition persistExhaustion_note ::
  "64 word \<Rightarrow> int \<Rightarrow> worker_exhaustion \<Rightarrow> duration \<Rightarrow> nat \<Rightarrow> worker_loop \<Rightarrow> supervisor \<Rightarrow> supervisor" where
  "persistExhaustion_note epoch attempts outcome delay k l s =
     (let n = d_Name (lp_def l)
      in if sv_stateMu s then s
         else if ended l s \<or> epochLocked n s \<noteq> epoch
         then goto k l (LDelay (restartDelay (lp_def l) attempts)) s
         else goto k l (LPersist epoch attempts outcome delay)
                (s\<lparr>sv_exhausted := (sv_exhausted s)(n \<mapsto> outcome), sv_pending := (sv_pending s)(n := True),
                   sv_stateMu := True\<rparr>))"

definition persistExhaustion_write ::
  "answers \<Rightarrow> 64 word \<Rightarrow> int \<Rightarrow> worker_exhaustion \<Rightarrow> duration \<Rightarrow> nat \<Rightarrow> worker_loop \<Rightarrow> supervisor \<Rightarrow> supervisor" where
  "persistExhaustion_write a epoch attempts outcome delay k l s =
     (let d = lp_def l; n = d_Name d
      in case call (an_io a) (SaveWorkerExhaustion d outcome) (sv_db s) of
           (b, Inr _) \<Rightarrow>
             goto k l (LRetire epoch attempts)
               (s\<lparr>sv_db := b, sv_pending := (sv_pending s)(n := False), sv_stateMu := False,
                  sv_notified := sv_notified s @ [(d, outcome)]\<rparr>)
         | (b, Inl err) \<Rightarrow>
             if err = Refused ErrRevisionConflict then
               goto k l (LRetire epoch attempts)
                 (s\<lparr>sv_db := b, sv_pending := (sv_pending s)(n := False),
                    sv_exhausted := (sv_exhausted s)(n := None), sv_stateMu := False\<rparr>)
             else
               goto k l (if ended l s then LDelay (restartDelay d attempts) else LPersistWait epoch attempts outcome delay)
                 (s\<lparr>sv_db := b, sv_stateMu := False\<rparr>))"

definition persistExhaustion_wait ::
  "answers \<Rightarrow> 64 word \<Rightarrow> int \<Rightarrow> worker_exhaustion \<Rightarrow> duration \<Rightarrow> nat \<Rightarrow> worker_loop \<Rightarrow> supervisor \<Rightarrow> supervisor" where
  "persistExhaustion_wait a epoch attempts outcome delay k l s =
     (case select_case (ended l s) (an_timer a) (an_ctx_first a) of
        CtxDone \<Rightarrow> goto k l (LDelay (restartDelay (lp_def l) attempts)) s
      | Ready \<Rightarrow> goto k l (LExhaust epoch attempts outcome (backoff_next (30 * Second) delay)) s
      | Blocked \<Rightarrow> s)"

definition restart_retire :: "64 word \<Rightarrow> int \<Rightarrow> nat \<Rightarrow> worker_loop \<Rightarrow> supervisor \<Rightarrow> supervisor" where
  "restart_retire epoch failures k l s =
     (let n = d_Name (lp_def l)
      in if epochLocked n s = epoch
         then goto k l LDefer (s\<lparr>sv_retiring := (sv_retiring s)(n := True)\<rparr>)
         else goto k l (LDelay (restartDelay (lp_def l) failures)) s)"

definition restart_delay :: "answers \<Rightarrow> nat \<Rightarrow> worker_loop \<Rightarrow> supervisor \<Rightarrow> supervisor" where
  "restart_delay a k l s =
     (case select_case (ended l s) (an_timer a) (an_ctx_first a) of
        CtxDone \<Rightarrow> goto k l LDefer s
      | Ready \<Rightarrow> goto k l (if held (d_Name (lp_def l)) s then LDefer else LTop) s
      | Blocked \<Rightarrow> s)"

section \<open>Leaving the loop\<close>

definition loop_defer :: "nat \<Rightarrow> worker_loop \<Rightarrow> supervisor \<Rightarrow> supervisor" where
  "loop_defer k l s =
     (let rid = (case sv_active s (d_Name (lp_def l)) of Some x \<Rightarrow> x | None \<Rightarrow> '''')
      in goto k l (if rid \<noteq> '''' then LDeferStop rid else LClean) s)"

definition loop_defer_join :: "answers \<Rightarrow> string \<Rightarrow> nat \<Rightarrow> worker_loop \<Rightarrow> supervisor \<Rightarrow> supervisor" where
  "loop_defer_join a rid k l s =
     (if an_wait a = Some False then s
      else goto k l LClean (s\<lparr>sv_calls := sv_calls s @ [CallTake rid]\<rparr>))"

definition loop_clean :: "nat \<Rightarrow> worker_loop \<Rightarrow> supervisor \<Rightarrow> supervisor" where
  "loop_clean k l s =
     (let n = d_Name (lp_def l);
          s1 = s\<lparr>sv_active := (sv_active s)(n := None), sv_workerCancels := del_key n (sv_workerCancels s),
                 sv_workerDefs := (sv_workerDefs s)(n := None), sv_retiring := (sv_retiring s)(n := False)\<rparr>
      in goto k l LEnded
          (case sv_workerDone s n of
             None \<Rightarrow> s1
           | Some ch \<Rightarrow> s1\<lparr>sv_closedDone := (sv_closedDone s)(ch := True),
                           sv_workerDone := (sv_workerDone s)(n := None)\<rparr>))"

text \<open>One step of the goroutine that runs \<^verbatim>\<open>loop\<close>.\<close>

definition loop_step :: "answers \<Rightarrow> nat \<Rightarrow> worker_loop \<Rightarrow> supervisor \<Rightarrow> supervisor" where
  "loop_step a k l s =
     (case lp_pc l of
        LTop \<Rightarrow> loop_top k l s
      | LTrigger \<Rightarrow> loop_trigger a k l s
      | LActivate r \<Rightarrow> loop_activate r k l s
      | LHoldStop rid \<Rightarrow> goto k l (LWait rid) (stopRun rid s)
      | LWait rid \<Rightarrow> loop_wait a rid k l s
      | LCtxStop rid \<Rightarrow> goto k l (LCtxJoin rid) (stopRun rid s)
      | LCtxJoin rid \<Rightarrow> loop_ctx_join a rid k l s
      | LDeactivate rid \<Rightarrow> goto k l (LOutcome rid) (deactivate (d_Name (lp_def l)) rid s)
      | LOutcome rid \<Rightarrow> loop_outcome a rid k l s
      | LTerminal rid backoff \<Rightarrow> terminalRun a rid backoff k l s
      | LPoll rid backoff \<Rightarrow> terminal_poll a rid backoff k l s
      | LAbandoned rid \<Rightarrow> loop_abandoned rid k l s
      | LDecide current \<Rightarrow> loop_decide current k l s
      | LRestart healthy lastRunID reason \<Rightarrow> restartAfter a healthy lastRunID reason k l s
      | LExhaust epoch n outcome delay \<Rightarrow> persistExhaustion_note epoch n outcome delay k l s
      | LPersist epoch n outcome delay \<Rightarrow> persistExhaustion_write a epoch n outcome delay k l s
      | LPersistWait epoch n outcome delay \<Rightarrow> persistExhaustion_wait a epoch n outcome delay k l s
      | LRetire epoch n \<Rightarrow> restart_retire epoch n k l s
      | LDelay n \<Rightarrow> restart_delay a k l s
      | LDefer \<Rightarrow> loop_defer k l s
      | LDeferStop rid \<Rightarrow> goto k l (LDeferJoin rid) (stopRun rid s)
      | LDeferJoin rid \<Rightarrow> loop_defer_join a rid k l s
      | LClean \<Rightarrow> loop_clean k l s
      | LEnded \<Rightarrow> s)"

section \<open>Operators\<close>

text \<open>\<^verbatim>\<open>resetExhaustion\<close>: the check, the statement that clears the stored records, and the
  reset of memory. The empty name resets every worker.\<close>

definition reset_name :: "reset_for \<Rightarrow> string" where
  "reset_name f = (case f of ForReload _ \<Rightarrow> '''' | ForStart d \<Rightarrow> d_Name d | ForRestart d \<Rightarrow> d_Name d)"

definition after_reset :: "reset_for \<Rightarrow> lifecycle" where
  "after_reset f = (case f of ForReload desired \<Rightarrow> ReloadScan desired | ForStart d \<Rightarrow> StartBegin d
     | ForRestart d \<Rightarrow> RestartSample d)"

definition resetExhaustion_check :: "reset_for \<Rightarrow> supervisor \<Rightarrow> supervisor" where
  "resetExhaustion_check f s =
     (if sv_stateMu s then s
      else if sv_closing s then s\<lparr>sv_lifecycle := Idle\<rparr>
      else s\<lparr>sv_stateMu := True, sv_lifecycle := ResetClear f\<rparr>)"

definition resetExhaustion_clear :: "answers \<Rightarrow> reset_for \<Rightarrow> supervisor \<Rightarrow> supervisor" where
  "resetExhaustion_clear a f s =
     (case call (an_io a) (\<lambda>b. (ClearWorkerExhaustion (reset_name f) b, Inr ())) (sv_db s) of
        (b, Inl err) \<Rightarrow>
          if reset_name f \<noteq> '''' then s\<lparr>sv_db := b, sv_stateMu := False, sv_lifecycle := Idle\<rparr>
          else s\<lparr>sv_db := b, sv_lifecycle := ResetCommit f\<rparr>
      | (b, Inr _) \<Rightarrow> s\<lparr>sv_db := b, sv_lifecycle := ResetCommit f\<rparr>)"

definition resetExhaustion_commit :: "reset_for \<Rightarrow> supervisor \<Rightarrow> supervisor" where
  "resetExhaustion_commit f s =
     (let sq = sv_epochSeq s + 1; n = reset_name f;
          s1 = s\<lparr>sv_epochSeq := sq, sv_stateMu := False, sv_lifecycle := after_reset f\<rparr>
      in if n = '''' then
           s1\<lparr>sv_epochBase := sq, sv_epochs := (\<lambda>_. None), sv_failures := (\<lambda>_. 0),
              sv_exhausted := (\<lambda>_. None), sv_pending := (\<lambda>_. False)\<rparr>
         else
           s1\<lparr>sv_epochs := (sv_epochs s)(n \<mapsto> sq), sv_failures := (sv_failures s)(n := 0),
              sv_exhausted := (sv_exhausted s)(n := None), sv_pending := (sv_pending s)(n := False)\<rparr>)"

text \<open>\<^verbatim>\<open>Reload\<close>. The map \<^verbatim>\<open>desired\<close> is a list with one definition per name, a later
  definition replacing an earlier one of its name.\<close>

definition desired_workers :: "definition_rec list \<Rightarrow> definition_rec list" where
  "desired_workers defs =
     map snd (fold (\<lambda>d m. if d_Kind d = KindWorker \<and> IsEnabled d \<and> DoesAutostart d then put_key (d_Name d) d m else m)
       defs [])"

definition Reload :: "definition_rec list \<Rightarrow> supervisor \<Rightarrow> supervisor" where
  "Reload defs s =
     (if sv_closing s then s
      else s\<lparr>sv_ctx := True, sv_lifecycle := ResetCheck (ForReload (desired_workers defs))\<rparr>)"

definition keeps_worker ::
  "(definition_rec \<Rightarrow> string) \<Rightarrow> definition_rec list \<Rightarrow> supervisor \<Rightarrow> string \<Rightarrow> bool" where
  "keeps_worker Sum256 desired s n \<longleftrightarrow>
     (case find (\<lambda>d. d_Name d = n) desired of
        None \<Rightarrow> False
      | Some want \<Rightarrow>
          sameDefinition Sum256 (case sv_workerDefs s n of Some d \<Rightarrow> d | None \<Rightarrow> zero_definition) want
          \<and> \<not> sv_holds s n \<and> \<not> sv_retiring s n)"

definition cancel_loops :: "nat list \<Rightarrow> supervisor \<Rightarrow> supervisor" where
  "cancel_loops ks s =
     s\<lparr>sv_loops := (\<lambda>k. map_option (\<lambda>l. if k \<in> set ks then l\<lparr>lp_ctx := True\<rparr> else l) (sv_loops s k))\<rparr>"

definition reload_scan :: "(definition_rec \<Rightarrow> string) \<Rightarrow> definition_rec list \<Rightarrow> supervisor \<Rightarrow> supervisor" where
  "reload_scan Sum256 desired s =
     (let leaving = filter (\<lambda>(n, k). \<not> keeps_worker Sum256 desired s n) (sv_workerCancels s);
          kept = map fst (filter (\<lambda>(n, k). keeps_worker Sum256 desired s n) (sv_workerCancels s));
          waits = List.map_filter (\<lambda>(n, k). sv_workerDone s n) leaving
      in (cancel_loops (map snd leaving) s)
           \<lparr>sv_lifecycle := ReloadWait (filter (\<lambda>d. d_Name d \<notin> set kept) desired) waits\<rparr>)"

definition reload_wait :: "answers \<Rightarrow> definition_rec list \<Rightarrow> nat list \<Rightarrow> supervisor \<Rightarrow> supervisor" where
  "reload_wait a desired waits s =
     (case waits of
        ch # rest \<Rightarrow>
          (case select_case (sv_stopped s) (sv_closedDone s ch) (an_ctx_first a) of
             CtxDone \<Rightarrow> s\<lparr>sv_lifecycle := Idle\<rparr>
           | Ready \<Rightarrow> s\<lparr>sv_lifecycle := ReloadWait desired rest\<rparr>
           | Blocked \<Rightarrow> s)
      | [] \<Rightarrow>
          if sv_closing s then s\<lparr>sv_lifecycle := Idle\<rparr>
          else fold start_worker desired (s\<lparr>sv_holds := (\<lambda>_. False), sv_lifecycle := Idle\<rparr>))"

text \<open>\<^verbatim>\<open>Stop\<close>: the hold, and the call that follows once the lock is released.\<close>

definition active_id :: "string \<Rightarrow> supervisor \<Rightarrow> string" where
  "active_id n s = (case sv_active s n of Some rid \<Rightarrow> rid | None \<Rightarrow> '''')"

definition Stop_worker :: "string \<Rightarrow> supervisor \<Rightarrow> supervisor" where
  "Stop_worker n s =
     s\<lparr>sv_holds := (sv_holds s)(n := True),
       sv_stopping := (if active_id n s \<noteq> '''' then sv_stopping s @ [active_id n s] else sv_stopping s)\<rparr>"

definition Stop_call :: "string \<Rightarrow> supervisor \<Rightarrow> supervisor" where
  "Stop_call rid s = s\<lparr>sv_stopping := remove1 rid (sv_stopping s), sv_calls := sv_calls s @ [CallStop rid]\<rparr>"

text \<open>\<^verbatim>\<open>startDefinitionLocked\<close>, before and after it waits for an idle loop to leave.\<close>

definition launch_allowed :: "definition_rec \<Rightarrow> supervisor \<Rightarrow> bool" where
  "launch_allowed d s \<longleftrightarrow> \<not> sv_closing s \<and> sv_ctx s \<and> d_Kind d = KindWorker \<and> IsEnabled d"

definition startDefinition_begin :: "definition_rec \<Rightarrow> supervisor \<Rightarrow> supervisor" where
  "startDefinition_begin d s0 =
     (let n = d_Name d;
          s = s0\<lparr>sv_holds := (sv_holds s0)(n := False), sv_failures := (sv_failures s0)(n := 0),
                 sv_lifecycle := Idle\<rparr>
      in case map_of (sv_workerCancels s) n of
           Some k \<Rightarrow>
             if active_id n s = ''''
             then (cancel_loops [k] s)\<lparr>sv_lifecycle := StartWait d (sv_workerDone s n)\<rparr>
             else s
         | None \<Rightarrow> if launch_allowed d s then start_worker d s else s)"

definition startDefinition_wait :: "answers \<Rightarrow> definition_rec \<Rightarrow> nat option \<Rightarrow> supervisor \<Rightarrow> supervisor" where
  "startDefinition_wait a d ch s =
     (case select_case (sv_stopped s) (case ch of None \<Rightarrow> False | Some k \<Rightarrow> sv_closedDone s k) (an_ctx_first a) of
        CtxDone \<Rightarrow> s\<lparr>sv_lifecycle := Idle\<rparr>
      | Ready \<Rightarrow> s\<lparr>sv_lifecycle := StartLaunch d\<rparr>
      | Blocked \<Rightarrow> s)"

definition startDefinition_launch :: "definition_rec \<Rightarrow> supervisor \<Rightarrow> supervisor" where
  "startDefinition_launch d s0 =
     (let s = s0\<lparr>sv_lifecycle := Idle\<rparr> in if launch_allowed d s then start_worker d s else s)"

text \<open>\<^verbatim>\<open>Restart\<close> after the reset, and the goroutine it leaves behind.\<close>

definition restart_sample :: "definition_rec \<Rightarrow> supervisor \<Rightarrow> supervisor" where
  "restart_sample d s =
     (if sv_closing s then s\<lparr>sv_lifecycle := Idle\<rparr>
      else s\<lparr>sv_lifecycle := RestartHold d (sv_workerDone s (d_Name d)) (map_of (sv_workerCancels s) (d_Name d))\<rparr>)"

definition restart_hold :: "definition_rec \<Rightarrow> nat option \<Rightarrow> nat option \<Rightarrow> supervisor \<Rightarrow> supervisor" where
  "restart_hold d ch cancel s =
     (let n = d_Name d
      in s\<lparr>sv_holds := (sv_holds s)(n := True),
           sv_lifecycle := (if active_id n s \<noteq> '''' then RestartStop d ch cancel (active_id n s)
                            else RestartCancel d ch cancel)\<rparr>)"

definition restart_stop :: "definition_rec \<Rightarrow> nat option \<Rightarrow> nat option \<Rightarrow> string \<Rightarrow> supervisor \<Rightarrow> supervisor" where
  "restart_stop d ch cancel rid s =
     s\<lparr>sv_calls := sv_calls s @ [CallStop rid], sv_lifecycle := RestartCancel d ch cancel\<rparr>"

definition restart_cancel :: "definition_rec \<Rightarrow> nat option \<Rightarrow> nat option \<Rightarrow> supervisor \<Rightarrow> supervisor" where
  "restart_cancel d ch cancel s =
     (cancel_loops (case cancel of None \<Rightarrow> [] | Some k \<Rightarrow> [k]) s)\<lparr>sv_lifecycle := RestartSpawn d ch\<rparr>"

definition restart_spawn :: "definition_rec \<Rightarrow> nat option \<Rightarrow> supervisor \<Rightarrow> supervisor" where
  "restart_spawn d ch s =
     (if sv_closing s then s\<lparr>sv_lifecycle := Idle\<rparr>
      else s\<lparr>sv_lifecycle := Idle, sv_replacements := sv_replacements s
               @ [\<lparr>rp_def = d, rp_done = ch, rp_epoch = epochLocked (d_Name d) s\<rparr>]\<rparr>)"

definition replace_step :: "answers \<Rightarrow> replacement \<Rightarrow> supervisor \<Rightarrow> supervisor" where
  "replace_step a rp s =
     (let gone = s\<lparr>sv_replacements := remove1 rp (sv_replacements s)\<rparr>;
          n = d_Name (rp_def rp);
          go = (if sv_lifecycle s \<noteq> Idle then s
                else if \<not> sv_closing s \<and> epochLocked n s = rp_epoch rp
                then gone\<lparr>sv_lifecycle := StartBegin (rp_def rp)\<rparr> else gone)
      in case rp_done rp of
           None \<Rightarrow> go
         | Some ch \<Rightarrow>
             (case select_case (sv_stopped s) (sv_closedDone s ch) (an_ctx_first a) of
                CtxDone \<Rightarrow> gone | Ready \<Rightarrow> go | Blocked \<Rightarrow> s))"

text \<open>One step of the goroutine that holds the \<^verbatim>\<open>lifecycle\<close> lock.\<close>

definition lifecycle_step :: "(definition_rec \<Rightarrow> string) \<Rightarrow> answers \<Rightarrow> supervisor \<Rightarrow> supervisor" where
  "lifecycle_step Sum256 a s =
     (case sv_lifecycle s of
        Idle \<Rightarrow> s
      | ResetCheck f \<Rightarrow> resetExhaustion_check f s
      | ResetClear f \<Rightarrow> resetExhaustion_clear a f s
      | ResetCommit f \<Rightarrow> resetExhaustion_commit f s
      | ReloadScan desired \<Rightarrow> reload_scan Sum256 desired s
      | ReloadWait desired waits \<Rightarrow> reload_wait a desired waits s
      | StartBegin d \<Rightarrow> startDefinition_begin d s
      | StartWait d ch \<Rightarrow> startDefinition_wait a d ch s
      | StartLaunch d \<Rightarrow> startDefinition_launch d s
      | RestartSample d \<Rightarrow> restart_sample d s
      | RestartHold d ch cancel \<Rightarrow> restart_hold d ch cancel s
      | RestartStop d ch cancel rid \<Rightarrow> restart_stop d ch cancel rid s
      | RestartCancel d ch cancel \<Rightarrow> restart_cancel d ch cancel s
      | RestartSpawn d ch \<Rightarrow> restart_spawn d ch s)"

definition Supervisor_BeginShutdown :: "supervisor \<Rightarrow> supervisor" where
  "Supervisor_BeginShutdown s =
     s\<lparr>sv_stopped := True, sv_closing := True, sv_cancelled := sv_cancelled s \<or> sv_ctx s\<rparr>"

section \<open>Reported states\<close>

record worker_state =
  ws_Held :: bool
  ws_Active :: bool
  ws_Failures :: int
  ws_Status :: string
  ws_Exhaustion :: "worker_exhaustion option"
  ws_ExhaustionPending :: bool

definition stateLocked :: "string \<Rightarrow> supervisor \<Rightarrow> worker_state" where
  "stateLocked name s =
     (let active = sv_active s name \<noteq> None;
          status = (if active then ''running''
                    else if map_of (sv_workerCancels s) name \<noteq> None then ''restarting'' else ''stopped'');
          status1 = (if sv_holds s name then ''held'' else status);
          st = \<lparr>ws_Held = sv_holds s name, ws_Active = active, ws_Failures = sv_failures s name,
                ws_Status = status1, ws_Exhaustion = None, ws_ExhaustionPending = False\<rparr>
      in case sv_exhausted s name of
           None \<Rightarrow> st
         | Some outcome \<Rightarrow> st\<lparr>ws_Status := ''exhausted'', ws_Exhaustion := Some outcome,
                                ws_ExhaustionPending := sv_pending s name\<rparr>)"

definition States :: "string list \<Rightarrow> supervisor \<Rightarrow> string \<Rightarrow> worker_state option" where
  "States names s name = (if name \<in> set names then Some (stateLocked name s) else None)"

definition ReadStates ::
  "io \<Rightarrow> string list \<Rightarrow> supervisor \<Rightarrow> call_error + (string \<Rightarrow> worker_state option)" where
  "ReadStates io names s =
     (case call_read io WorkerExhaustions (sv_db s) of
        Inl err \<Rightarrow> Inl err
      | Inr outcomes \<Rightarrow>
          Inr (\<lambda>name. map_option (\<lambda>st.
                 case map_of outcomes name of
                   Some outcome \<Rightarrow>
                     if ws_Exhaustion st = None
                     then st\<lparr>ws_Status := ''exhausted'', ws_Exhaustion := Some outcome,
                             ws_Failures := we_Attempts outcome\<rparr>
                     else st
                 | None \<Rightarrow> st) (States names s name)))"

end
