(* ===== verification/Supervisor_Invariant.thy ===== *)
theory Supervisor_Invariant
  imports Supervisor
begin

text \<open>
  The step relation of the worker supervisor and its invariants: which goroutine is registered
  under which name (\<open>workers_ok\<close>), what the holder of the \<^verbatim>\<open>lifecycle\<close> lock may rely on
  (\<open>lifecycle_ok\<close>), that a hold is followed by a stop request (\<open>holds_ok\<close>), that a failing
  worker keeps within its budget (\<open>budget_ok\<close>) and what shutdown leaves (\<open>shutdown_ok\<close>).
  The interpretation \<open>supervision\<close> of \<open>invariant_system\<close> collects them.
\<close>

named_theorems sv_defs \<open>the operations of the supervisor\<close>

inductive sv_step :: "(definition_rec \<Rightarrow> string) \<Rightarrow> supervisor \<Rightarrow> supervisor \<Rightarrow> bool"
  for Sum256 :: "definition_rec \<Rightarrow> string" where
  sv_step_loop: "sv_loops s k = Some l \<Longrightarrow> sv_step Sum256 s (loop_step a k l s)"
| sv_step_lifecycle: "sv_step Sum256 s (lifecycle_step Sum256 a s)"
| sv_step_reload: "sv_lifecycle s = Idle \<Longrightarrow> sv_step Sum256 s (Reload defs s)"
| sv_step_start: "sv_lifecycle s = Idle \<Longrightarrow> sv_step Sum256 s (s\<lparr>sv_lifecycle := ResetCheck (ForStart d)\<rparr>)"
| sv_step_restart: "sv_lifecycle s = Idle \<Longrightarrow> sv_step Sum256 s (s\<lparr>sv_lifecycle := ResetCheck (ForRestart d)\<rparr>)"
| sv_step_replace: "rp \<in> set (sv_replacements s) \<Longrightarrow> sv_step Sum256 s (replace_step a rp s)"
| sv_step_stop: "sv_step Sum256 s (Stop_worker n s)"
| sv_step_stop_call: "rid \<in> set (sv_stopping s) \<Longrightarrow> sv_step Sum256 s (Stop_call rid s)"
| sv_step_shutdown: "sv_step Sum256 s (Supervisor_BeginShutdown s)"
| sv_step_db: "sv_step Sum256 s (s\<lparr>sv_db := b\<rparr>)"

definition sv_start :: "supervisor \<Rightarrow> bool" where
  "sv_start s \<longleftrightarrow> (\<exists>b. s = New_Supervisor b)"

section \<open>Shape of a loop step\<close>

abbreviation (input) worker_name :: "worker_loop \<Rightarrow> string" where
  "worker_name l \<equiv> d_Name (lp_def l)"

definition alive :: "worker_loop \<Rightarrow> bool" where
  "alive l \<longleftrightarrow> lp_pc l \<noteq> LEnded"

text \<open>The run a loop has entered in \<^verbatim>\<open>active\<close>.\<close>

fun run_of :: "loop_pc \<Rightarrow> string option" where
  "run_of (LHoldStop rid) = Some rid"
| "run_of (LWait rid) = Some rid"
| "run_of (LCtxStop rid) = Some rid"
| "run_of (LCtxJoin rid) = Some rid"
| "run_of (LDeactivate rid) = Some rid"
| "run_of _ = None"

text \<open>The program points the deferred function reaches only after a panic.\<close>

fun panicked :: "loop_pc \<Rightarrow> bool" where
  "panicked (LDeferStop _) = True"
| "panicked (LDeferJoin _) = True"
| "panicked _ = False"

text \<open>A step of a loop that is not the last touches its own record, its own entry in
  \<^verbatim>\<open>active\<close>, and nothing else of the registration (\<open>outer\<close>).\<close>

definition outer :: "string \<Rightarrow> supervisor \<Rightarrow> supervisor \<Rightarrow> bool" where
  "outer n s s' \<longleftrightarrow>
     sv_workerCancels s' = sv_workerCancels s \<and> sv_workerDone s' = sv_workerDone s \<and>
     sv_workerDefs s' = sv_workerDefs s \<and> sv_closedDone s' = sv_closedDone s \<and>
     sv_next s' = sv_next s \<and> sv_lifecycle s' = sv_lifecycle s \<and> sv_holds s' = sv_holds s \<and>
     sv_ctx s' = sv_ctx s \<and> sv_cancelled s' = sv_cancelled s \<and> sv_closing s' = sv_closing s \<and>
     sv_stopped s' = sv_stopped s \<and> sv_epochs s' = sv_epochs s \<and> sv_epochBase s' = sv_epochBase s \<and>
     sv_stopping s' = sv_stopping s \<and> set (sv_calls s) \<subseteq> set (sv_calls s') \<and>
     (\<forall>m. m \<noteq> n \<longrightarrow> sv_failures s' m = sv_failures s m)"

definition moved :: "nat \<Rightarrow> worker_loop \<Rightarrow> worker_loop \<Rightarrow> supervisor \<Rightarrow> supervisor \<Rightarrow> bool" where
  "moved k l l' s s' \<longleftrightarrow>
     lp_def l' = lp_def l \<and> lp_ctx l' = lp_ctx l \<and> alive l' \<and> \<not> panicked (lp_pc l') \<and>
     sv_loops s' = (sv_loops s)(k \<mapsto> l') \<and>
     sv_active s' = (sv_active s)(worker_name l := run_of (lp_pc l')) \<and> outer (worker_name l) s s'"

definition steps_to :: "nat \<Rightarrow> worker_loop \<Rightarrow> supervisor \<Rightarrow> supervisor \<Rightarrow> bool" where
  "steps_to k l s s' \<longleftrightarrow> s' = s \<or> (\<exists>l'. moved k l l' s s')"

lemma steps_to_refl [intro]: "steps_to k l s s"
  by (simp add: steps_to_def)

lemma goto_steps:
  assumes "lp_def l1 = lp_def l" "lp_ctx l1 = lp_ctx l" "pc \<noteq> LEnded" "\<not> panicked pc"
    "sv_loops s1 = sv_loops s" "sv_active s1 = (sv_active s)(worker_name l := run_of pc)"
    "outer (worker_name l) s s1"
  shows "steps_to k l s (goto k l1 pc s1)"
proof -
  have "moved k l (l1\<lparr>lp_pc := pc\<rparr>) s (goto k l1 pc s1)"
    using assms by (simp add: moved_def alive_def goto_def outer_def)
  then show ?thesis unfolding steps_to_def by blast
qed

text \<open>The same when the entry in \<^verbatim>\<open>active\<close> stays as it is.\<close>

lemma goto_steps_same:
  assumes "sv_active s (worker_name l) = run_of pc" "lp_def l1 = lp_def l" "lp_ctx l1 = lp_ctx l"
    "pc \<noteq> LEnded" "\<not> panicked pc" "sv_loops s1 = sv_loops s" "sv_active s1 = sv_active s"
    "outer (worker_name l) s s1"
  shows "steps_to k l s (goto k l1 pc s1)"
  by (rule goto_steps) (use assms in \<open>auto simp: fun_eq_iff\<close>)

lemma outer_refl [simp]: "outer n s s"
  by (simp add: outer_def)

lemma outer_updates [simp]:
  "outer n s (s1\<lparr>sv_active := f1\<rparr>) = outer n s s1"
  "outer n s (s1\<lparr>sv_db := b\<rparr>) = outer n s s1"
  "outer n s (s1\<lparr>sv_pending := f2\<rparr>) = outer n s s1"
  "outer n s (s1\<lparr>sv_exhausted := f3\<rparr>) = outer n s s1"
  "outer n s (s1\<lparr>sv_stateMu := v\<rparr>) = outer n s s1"
  "outer n s (s1\<lparr>sv_notified := vs\<rparr>) = outer n s s1"
  "outer n s (s1\<lparr>sv_retiring := f4\<rparr>) = outer n s s1"
  "outer n s (s\<lparr>sv_calls := sv_calls s @ cs\<rparr>)"
  "outer n s (s\<lparr>sv_failures := (sv_failures s)(n := v1)\<rparr>)"
  by (auto simp: outer_def)

lemma loop_trigger_steps: "lp_pc l = LTrigger \<Longrightarrow> sv_active s (worker_name l) = None \<Longrightarrow>
  steps_to k l s (loop_trigger a k l s)"
  unfolding loop_trigger_def Let_def
  by (cases "an_trigger a") (auto split: option.splits intro!: goto_steps_same)

lemma loop_restart_steps: "sv_active s (worker_name l) = None \<Longrightarrow>
  steps_to k l s (restartAfter a h lr reason k l s)"
  unfolding restartAfter_def Let_def by (auto intro!: goto_steps_same)

lemma loop_persist_steps:
  assumes "sv_active s (worker_name l) = None"
  shows "steps_to k l s (persistExhaustion_note ep n x dl k l s)"
    "steps_to k l s (persistExhaustion_write a ep n x dl k l s)"
    "steps_to k l s (persistExhaustion_wait a ep n x dl k l s)"
    "steps_to k l s (restart_retire ep n k l s)"
    "steps_to k l s (restart_delay a k l s)"
  using assms
  unfolding persistExhaustion_note_def persistExhaustion_write_def persistExhaustion_wait_def
    restart_retire_def restart_delay_def Let_def
  by (auto split: selected.splits prod.splits sum.splits intro!: goto_steps_same)

lemma loop_read_steps:
  assumes "sv_active s (worker_name l) = None"
  shows "steps_to k l s (loop_outcome a rid k l s)"
    "steps_to k l s (terminalRun a rid b k l s)"
    "steps_to k l s (terminal_poll a rid b k l s)"
    "steps_to k l s (loop_abandoned rid k l s)"
    "steps_to k l s (loop_decide current k l s)"
    "steps_to k l s (loop_top k l s)"
    "steps_to k l s (loop_defer k l s)"
  using assms
  unfolding loop_outcome_def terminalRun_def terminal_poll_def loop_abandoned_def loop_decide_def
    loop_top_def loop_defer_def Let_def
  by (auto split: selected.splits option.splits sum.splits intro!: goto_steps_same)

lemma loop_active_steps:
  assumes "sv_active s (worker_name l) = Some rid"
  shows "steps_to k l s (goto k l (LWait rid) (stopRun rid s))"
    "steps_to k l s (goto k l (LCtxJoin rid) (stopRun rid s))"
    "steps_to k l s (loop_wait a rid k l s)"
    "steps_to k l s (loop_ctx_join a rid k l s)"
    "steps_to k l s (goto k l (LOutcome rid) (deactivate (worker_name l) rid s))"
  using assms unfolding loop_wait_def loop_ctx_join_def deactivate_def stopRun_def
  by (auto split: selected.splits option.splits intro!: goto_steps_same [of s l] goto_steps)

lemma loop_step_steps:
  assumes "sv_active s (worker_name l) = run_of (lp_pc l)" "\<not> panicked (lp_pc l)"
    "lp_pc l \<noteq> LClean"
  shows "steps_to k l s (loop_step a k l s)"
proof -
  have activate: "steps_to k l s (loop_activate r k l s)" for r
    unfolding loop_activate_def Let_def by (auto intro!: goto_steps)
  show ?thesis
    using assms
    by (cases "lp_pc l") (simp_all add: loop_step_def loop_trigger_steps loop_restart_steps
        loop_persist_steps loop_read_steps loop_active_steps activate steps_to_refl)
qed

section \<open>Registration\<close>

definition loop_ok :: "supervisor \<Rightarrow> nat \<Rightarrow> worker_loop \<Rightarrow> bool" where
  "loop_ok s k l \<longleftrightarrow> k < sv_next s \<and> sv_closedDone s k = (\<not> alive l) \<and>
     (alive l \<longrightarrow> map_of (sv_workerCancels s) (worker_name l) = Some k \<and>
        sv_workerDone s (worker_name l) = Some k \<and> sv_workerDefs s (worker_name l) = Some (lp_def l) \<and>
        sv_active s (worker_name l) = run_of (lp_pc l) \<and> \<not> panicked (lp_pc l))"

definition registered_ok :: "supervisor \<Rightarrow> string \<Rightarrow> bool" where
  "registered_ok s n \<longleftrightarrow>
     (case map_of (sv_workerCancels s) n of
        None \<Rightarrow> sv_workerDone s n = None \<and> sv_workerDefs s n = None \<and> sv_active s n = None
      | Some k \<Rightarrow> (\<exists>l. sv_loops s k = Some l \<and> alive l \<and> worker_name l = n))"

definition workers_ok :: "supervisor \<Rightarrow> bool" where
  "workers_ok s \<longleftrightarrow> distinct (map fst (sv_workerCancels s)) \<and>
     (\<forall>k l. sv_loops s k = Some l \<longrightarrow> loop_ok s k l) \<and> (\<forall>n. registered_ok s n)"

definition lifecycle_ok :: "supervisor \<Rightarrow> bool" where
  "lifecycle_ok s \<longleftrightarrow>
     (case sv_lifecycle s of
        ResetCheck (ForReload desired) \<Rightarrow> distinct (map d_Name desired)
      | ResetClear (ForReload desired) \<Rightarrow> distinct (map d_Name desired)
      | ResetCommit (ForReload desired) \<Rightarrow> distinct (map d_Name desired)
      | ReloadScan desired \<Rightarrow> distinct (map d_Name desired)
      | ReloadWait desired waits \<Rightarrow> distinct (map d_Name desired) \<and>
          (\<forall>d \<in> set desired. \<forall>k. map_of (sv_workerCancels s) (d_Name d) = Some k \<longrightarrow> k \<in> set waits)
      | StartWait d ch \<Rightarrow> (\<forall>k. map_of (sv_workerCancels s) (d_Name d) = Some k \<longrightarrow> ch = Some k)
      | StartLaunch d \<Rightarrow> map_of (sv_workerCancels s) (d_Name d) = None
      | _ \<Rightarrow> True)"

lemma workers_okD:
  assumes "workers_ok s"
  shows "sv_loops s k = Some l \<Longrightarrow> loop_ok s k l" "registered_ok s n" "distinct (map fst (sv_workerCancels s))"
  using assms by (auto simp: workers_ok_def)

lemma registeredD: "workers_ok s \<Longrightarrow> map_of (sv_workerCancels s) n = Some k \<Longrightarrow>
  \<exists>l. sv_loops s k = Some l \<and> alive l \<and> worker_name l = n \<and> \<not> sv_closedDone s k"
  using workers_okD(2) [of s n] workers_okD(1) by (auto simp: registered_ok_def loop_ok_def)

lemma same_worker_same_loop:
  "workers_ok s \<Longrightarrow> sv_loops s k = Some l \<Longrightarrow> alive l \<Longrightarrow> sv_loops s k' = Some l' \<Longrightarrow> alive l' \<Longrightarrow>
   worker_name l = worker_name l' \<Longrightarrow> k = k'"
  using workers_okD(1) [of s k l] workers_okD(1) [of s k' l'] unfolding loop_ok_def
  by (metis option.inject)

text \<open>Steps that leave the registration alone, up to the cancellation of contexts.\<close>

definition ctx_upto :: "worker_loop \<Rightarrow> worker_loop \<Rightarrow> bool" where
  "ctx_upto l l' \<longleftrightarrow> lp_def l' = lp_def l \<and> lp_pc l' = lp_pc l \<and> (lp_ctx l \<longrightarrow> lp_ctx l')"

definition same_registration :: "supervisor \<Rightarrow> supervisor \<Rightarrow> bool" where
  "same_registration s s' \<longleftrightarrow>
     sv_workerCancels s' = sv_workerCancels s \<and> sv_workerDone s' = sv_workerDone s \<and>
     sv_workerDefs s' = sv_workerDefs s \<and> sv_closedDone s' = sv_closedDone s \<and>
     sv_next s' = sv_next s \<and> sv_active s' = sv_active s \<and>
     (\<forall>k. rel_option ctx_upto (sv_loops s k) (sv_loops s' k))"

lemma same_registrationI:
  assumes "sv_workerCancels s' = sv_workerCancels s" "sv_workerDone s' = sv_workerDone s"
    "sv_workerDefs s' = sv_workerDefs s" "sv_closedDone s' = sv_closedDone s"
    "sv_next s' = sv_next s" "sv_active s' = sv_active s" "sv_loops s' = sv_loops s"
  shows "same_registration s s'"
  using assms by (auto simp: same_registration_def ctx_upto_def intro!: option.rel_refl)

lemma cancel_loops_simps [simp]:
  "sv_workerCancels (cancel_loops ks s) = sv_workerCancels s" "sv_workerDone (cancel_loops ks s) = sv_workerDone s"
  "sv_workerDefs (cancel_loops ks s) = sv_workerDefs s" "sv_closedDone (cancel_loops ks s) = sv_closedDone s"
  "sv_next (cancel_loops ks s) = sv_next s" "sv_active (cancel_loops ks s) = sv_active s"
  "sv_lifecycle (cancel_loops ks s) = sv_lifecycle s" "sv_holds (cancel_loops ks s) = sv_holds s"
  "sv_failures (cancel_loops ks s) = sv_failures s" "sv_calls (cancel_loops ks s) = sv_calls s"
  "sv_stopping (cancel_loops ks s) = sv_stopping s" "sv_ctx (cancel_loops ks s) = sv_ctx s"
  "sv_cancelled (cancel_loops ks s) = sv_cancelled s" "sv_closing (cancel_loops ks s) = sv_closing s"
  "sv_stopped (cancel_loops ks s) = sv_stopped s" "sv_epochs (cancel_loops ks s) = sv_epochs s"
  "sv_epochBase (cancel_loops ks s) = sv_epochBase s"
  by (simp_all add: cancel_loops_def)

lemma cancel_loops_rel: "rel_option ctx_upto (sv_loops s k) (sv_loops (cancel_loops ks s) k)"
  by (cases "sv_loops s k") (simp_all add: cancel_loops_def ctx_upto_def)

lemma same_registrationD:
  assumes "same_registration s s'"
  shows "sv_loops s k = Some l \<Longrightarrow> \<exists>l'. sv_loops s' k = Some l' \<and> ctx_upto l l'"
    "sv_loops s' k = Some l' \<Longrightarrow> \<exists>l. sv_loops s k = Some l \<and> ctx_upto l l'"
  using assms unfolding same_registration_def by (metis option_rel_Some1, metis option_rel_Some2)

lemma workers_ok_same:
  assumes "same_registration s s'" "workers_ok s"
  shows "workers_ok s'"
proof -
  have "registered_ok s' n" for n
  proof (cases "map_of (sv_workerCancels s) n")
    case None
    then show ?thesis using assms workers_okD(2) [OF assms(2), of n]
      by (simp add: registered_ok_def same_registration_def)
  next
    case (Some k)
    then obtain l where "sv_loops s k = Some l" "alive l" "worker_name l = n"
      using registeredD [OF assms(2)] by blast
    then show ?thesis using Some same_registrationD(1) [OF assms(1), of k l] assms(1)
      by (auto simp: registered_ok_def alive_def ctx_upto_def same_registration_def)
  qed
  moreover have "loop_ok s' k l'" if l': "sv_loops s' k = Some l'" for k l'
  proof -
    obtain l where "sv_loops s k = Some l" "ctx_upto l l'"
      using same_registrationD(2) [OF assms(1) l'] by blast
    then show ?thesis using workers_okD(1) [OF assms(2), of k l] assms(1)
      by (simp add: loop_ok_def same_registration_def alive_def ctx_upto_def)
  qed
  ultimately show ?thesis using assms unfolding workers_ok_def same_registration_def by auto
qed

lemma workers_ok_moved:
  assumes "workers_ok s" "sv_loops s k = Some l" "alive l" "moved k l l' s s'"
  shows "workers_ok s'"
proof -
  note l = workers_okD(1) [OF assms(1,2)]
  have "loop_ok s' j m" if "sv_loops s' j = Some m" for j m
  proof (cases "j = k")
    case True
    then show ?thesis using that l assms(3,4) by (auto simp: moved_def outer_def loop_ok_def)
  next
    case False
    then have m: "sv_loops s j = Some m" using that assms(4) by (simp add: moved_def)
    moreover have "alive m \<Longrightarrow> worker_name m \<noteq> worker_name l"
      using same_worker_same_loop [OF assms(1) m _ assms(2,3)] False by blast
    ultimately show ?thesis using workers_okD(1) [OF assms(1) m] assms(4)
      by (auto simp: loop_ok_def moved_def outer_def)
  qed
  moreover have "registered_ok s' n" for n
  proof (cases "map_of (sv_workerCancels s) n")
    case None
    then have "n \<noteq> worker_name l" using l assms(3) by (auto simp: loop_ok_def)
    then show ?thesis using None workers_okD(2) [OF assms(1), of n] assms(4)
      by (simp add: registered_ok_def moved_def outer_def)
  next
    case (Some j)
    then obtain m where "sv_loops s j = Some m" "alive m" "worker_name m = n"
      using registeredD [OF assms(1)] by blast
    then show ?thesis using Some assms(2,4) by (auto simp: registered_ok_def moved_def outer_def)
  qed
  ultimately show ?thesis using assms(1,4) by (simp add: workers_ok_def moved_def outer_def)
qed

lemma workers_ok_clean:
  assumes "workers_ok s" "sv_loops s k = Some l" "lp_pc l = LClean"
  shows "workers_ok (loop_clean k l s)"
proof -
  let ?s = "loop_clean k l s"
  have al: "alive l" using assms(3) by (simp add: alive_def)
  note l = workers_okD(1) [OF assms(1,2)]
  then have d: "sv_workerDone s (worker_name l) = Some k" using al by (simp add: loop_ok_def)
  note eqs = loop_clean_def Let_def goto_def d
  have "loop_ok ?s j m" if "sv_loops ?s j = Some m" for j m
  proof (cases "j = k")
    case True
    then show ?thesis using that l by (auto simp: eqs loop_ok_def alive_def)
  next
    case False
    then have m: "sv_loops s j = Some m" using that by (simp add: eqs)
    moreover have "alive m \<Longrightarrow> worker_name m \<noteq> worker_name l"
      using same_worker_same_loop [OF assms(1) m _ assms(2) al] False by blast
    ultimately show ?thesis using workers_okD(1) [OF assms(1) m] False
      by (auto simp: loop_ok_def eqs)
  qed
  moreover have "registered_ok ?s n" for n
  proof (cases "n = worker_name l")
    case False
    show ?thesis
    proof (cases "map_of (sv_workerCancels s) n")
      case None
      then show ?thesis using False workers_okD(2) [OF assms(1), of n] by (simp add: registered_ok_def eqs)
    next
      case (Some j)
      then obtain m where "sv_loops s j = Some m" "alive m" "worker_name m = n"
        using registeredD [OF assms(1)] by blast
      then show ?thesis using Some False assms(2) by (auto simp: registered_ok_def eqs)
    qed
  qed (simp add: registered_ok_def eqs)
  ultimately show ?thesis using workers_okD(3) [OF assms(1)] by (simp add: workers_ok_def eqs)
qed

lemma start_worker_simps [simp]:
  "sv_loops (start_worker d s) = (sv_loops s)(sv_next s \<mapsto> \<lparr>lp_def = d, lp_ctx = False, lp_last = '''', lp_pc = LTop\<rparr>)"
  "sv_workerCancels (start_worker d s) = put_key (d_Name d) (sv_next s) (sv_workerCancels s)"
  "sv_workerDone (start_worker d s) = (sv_workerDone s)(d_Name d \<mapsto> sv_next s)"
  "sv_workerDefs (start_worker d s) = (sv_workerDefs s)(d_Name d \<mapsto> d)"
  "sv_active (start_worker d s) = sv_active s" "sv_closedDone (start_worker d s) = sv_closedDone s"
  "sv_next (start_worker d s) = Suc (sv_next s)" "sv_lifecycle (start_worker d s) = sv_lifecycle s"
  "sv_holds (start_worker d s) = (sv_holds s)(d_Name d := False)"
  "sv_failures (start_worker d s) = (sv_failures s)(d_Name d := 0)"
  "sv_calls (start_worker d s) = sv_calls s" "sv_stopping (start_worker d s) = sv_stopping s"
  "sv_ctx (start_worker d s) = sv_ctx s" "sv_cancelled (start_worker d s) = sv_cancelled s"
  "sv_closing (start_worker d s) = sv_closing s" "sv_stopped (start_worker d s) = sv_stopped s"
  "sv_epochs (start_worker d s) = sv_epochs s" "sv_epochBase (start_worker d s) = sv_epochBase s"
  by (simp_all add: worker_launch_def startLocked_def Let_def)

text \<open>The slot \<open>sv_next\<close> is fresh.\<close>

definition fresh_ok :: "supervisor \<Rightarrow> bool" where
  "fresh_ok s \<longleftrightarrow> (\<forall>k. sv_next s \<le> k \<longrightarrow> sv_loops s k = None \<and> \<not> sv_closedDone s k)"

lemma workers_ok_start:
  assumes "workers_ok s" "fresh_ok s" "map_of (sv_workerCancels s) (d_Name d) = None"
  shows "workers_ok (start_worker d s)" "fresh_ok (start_worker d s)"
proof -
  let ?s = "start_worker d s"
  have new: "sv_loops s (sv_next s) = None" "\<not> sv_closedDone s (sv_next s)"
    using assms(2) by (auto simp: fresh_ok_def)
  have "loop_ok ?s j m" if m: "sv_loops ?s j = Some m" for j m
  proof (cases "j = sv_next s")
    case True
    then have "m = \<lparr>lp_def = d, lp_ctx = False, lp_last = '''', lp_pc = LTop\<rparr>" using m by simp
    moreover have "sv_active s (d_Name d) = None"
      using workers_okD(2) [OF assms(1), of "d_Name d"] assms(3) by (simp add: registered_ok_def)
    ultimately show ?thesis using True new by (simp add: loop_ok_def alive_def)
  next
    case False
    then have "loop_ok s j m" using m workers_okD(1) [OF assms(1), of j m] by simp
    then show ?thesis using assms(3) by (auto simp: loop_ok_def)
  qed
  moreover have "registered_ok ?s n" for n
  proof (cases "n = d_Name d")
    case True
    then show ?thesis by (simp add: registered_ok_def alive_def)
  next
    case False
    show ?thesis
    proof (cases "map_of (sv_workerCancels s) n")
      case None
      then show ?thesis using False workers_okD(2) [OF assms(1), of n] by (simp add: registered_ok_def)
    next
      case (Some j)
      then obtain m where "sv_loops s j = Some m" "alive m" "worker_name m = n"
        using registeredD [OF assms(1)] by blast
      then show ?thesis using Some False new by (auto simp: registered_ok_def)
    qed
  qed
  ultimately show "workers_ok ?s" using workers_okD(3) [OF assms(1)]
    unfolding workers_ok_def by (metis distinct_put_key start_worker_simps(2))
  show "fresh_ok ?s" using assms(2) by (auto simp: fresh_ok_def)
qed

lemma workers_ok_start_all:
  assumes "workers_ok s" "fresh_ok s" "distinct (map d_Name ds)"
    "\<forall>d \<in> set ds. map_of (sv_workerCancels s) (d_Name d) = None"
  shows "workers_ok (fold start_worker ds s) \<and> fresh_ok (fold start_worker ds s)"
  using assms
proof (induction ds arbitrary: s)
  case (Cons d ds)
  have "workers_ok (start_worker d s)" "fresh_ok (start_worker d s)"
    using workers_ok_start [OF Cons.prems(1,2)] Cons.prems(4) by auto
  moreover have "\<forall>x \<in> set ds. map_of (sv_workerCancels (start_worker d s)) (d_Name x) = None"
  proof
    fix x assume x: "x \<in> set ds"
    then have "d_Name x \<in> d_Name ` set ds" by simp
    then have "d_Name x \<noteq> d_Name d" using Cons.prems(3) by auto
    moreover have "map_of (sv_workerCancels s) (d_Name x) = None" using x Cons.prems(4) by simp
    ultimately show "map_of (sv_workerCancels (start_worker d s)) (d_Name x) = None" by simp
  qed
  ultimately show ?case using Cons.IH [of "start_worker d s"] Cons.prems(3) by simp
qed simp

definition registration_ok :: "supervisor \<Rightarrow> bool" where
  "registration_ok s \<longleftrightarrow> workers_ok s \<and> fresh_ok s \<and> lifecycle_ok s"

lemma lifecycle_ok_mono:
  assumes "lifecycle_ok s" "sv_lifecycle s' = sv_lifecycle s"
    "\<And>n k. map_of (sv_workerCancels s') n = Some k \<Longrightarrow> map_of (sv_workerCancels s) n = Some k"
  shows "lifecycle_ok s'"
proof (cases "sv_lifecycle s")
  case (StartLaunch d)
  then have "map_of (sv_workerCancels s') (d_Name d) \<noteq> Some k" for k
    using assms(1) assms(3) [of "d_Name d" k] by (auto simp: lifecycle_ok_def)
  then show ?thesis using StartLaunch assms(2) by (auto simp: lifecycle_ok_def)
next
  case (ReloadWait desired waits)
  then show ?thesis using assms by (auto simp: lifecycle_ok_def)
next
  case (StartWait d ch)
  then show ?thesis using assms by (auto simp: lifecycle_ok_def)
qed (use assms in \<open>auto simp: lifecycle_ok_def split: reset_for.splits\<close>)

lemma fresh_ok_same: "same_registration s s' \<Longrightarrow> fresh_ok s \<Longrightarrow> fresh_ok s'"
  unfolding fresh_ok_def same_registration_def by (metis option_rel_Some2 not_Some_eq)

lemma registration_ok_same:
  "same_registration s s' \<Longrightarrow> lifecycle_ok s' \<Longrightarrow> registration_ok s \<Longrightarrow> registration_ok s'"
  using workers_ok_same fresh_ok_same by (auto simp: registration_ok_def)

lemma registration_ok_kept:
  "same_registration s s' \<Longrightarrow> sv_lifecycle s' = sv_lifecycle s \<Longrightarrow> registration_ok s \<Longrightarrow> registration_ok s'"
  by (rule registration_ok_same, assumption, rule lifecycle_ok_mono [of s])
    (auto simp: registration_ok_def same_registration_def)

lemma registration_ok_loop:
  assumes "registration_ok s" "sv_loops s k = Some l"
  shows "registration_ok (loop_step a k l s)"
proof -
  have w: "workers_ok s" and f: "fresh_ok s" and lc: "lifecycle_ok s"
    using assms(1) by (auto simp: registration_ok_def)
  note l = workers_okD(1) [OF w assms(2)]
  consider "lp_pc l = LEnded" | "lp_pc l = LClean" | "alive l" "lp_pc l \<noteq> LClean"
    by (auto simp: alive_def)
  then show ?thesis
  proof cases
    case 1
    then show ?thesis using assms(1) by (simp add: loop_step_def)
  next
    case 2
    have d: "sv_workerDone s (worker_name l) = Some k" using l 2 by (simp add: loop_ok_def alive_def)
    have "fresh_ok (loop_clean k l s)"
      using f assms(2) by (auto simp: fresh_ok_def loop_clean_def Let_def goto_def d)
    moreover have "lifecycle_ok (loop_clean k l s)"
      by (rule lifecycle_ok_mono [OF lc])
        (auto simp: loop_clean_def Let_def goto_def d fun_upd_apply split: if_splits)
    ultimately show ?thesis using 2 workers_ok_clean [OF w assms(2)]
      by (simp add: registration_ok_def loop_step_def)
  next
    case 3
    then have "steps_to k l s (loop_step a k l s)"
      using l by (intro loop_step_steps) (auto simp: loop_ok_def)
    then consider "loop_step a k l s = s" | l' where "moved k l l' s (loop_step a k l s)"
      by (auto simp: steps_to_def)
    then show ?thesis
    proof cases
      case (2 l')
      have "fresh_ok (loop_step a k l s)"
        using 2 f assms(2) by (auto simp: fresh_ok_def moved_def outer_def)
      moreover have "lifecycle_ok (loop_step a k l s)"
        by (rule lifecycle_ok_mono [OF lc]) (use 2 in \<open>simp_all add: moved_def outer_def\<close>)
      ultimately show ?thesis using workers_ok_moved [OF w assms(2) 3(1) 2] by (simp add: registration_ok_def)
    qed (use assms(1) in simp)
  qed
qed

lemma desired_workers_distinct: "distinct (map d_Name (desired_workers defs))"
proof -
  define m where "m = fold (\<lambda>d m. if d_Kind d = KindWorker \<and> IsEnabled d \<and> DoesAutostart d
     then put_key (d_Name d) d m else m) defs []"
  have put: "list_all (\<lambda>(n, x). d_Name x = n) (put_key (d_Name d) d m)"
    if "list_all (\<lambda>(n, x). d_Name x = n) m" for d :: definition_rec and m
    using that by (auto simp: put_key_def list_all_iff split: if_splits)
  have "distinct (map fst m) \<and> list_all (\<lambda>(n, d). d_Name d = n) m"
    unfolding m_def
  proof (induction defs rule: rev_induct)
    case (snoc d defs)
    then show ?case using put by simp
  qed simp
  then have "map d_Name (map snd m) = map fst m" "distinct (map fst m)"
    by (auto simp: case_prod_beta list_all_iff)
  then have "distinct (map d_Name (map snd m))" by metis
  then show ?thesis unfolding desired_workers_def m_def .
qed

lemma reload_scan_registration:
  assumes "registration_ok s" "distinct (map d_Name desired)"
  shows "registration_ok (reload_scan Sum256 desired s)"
proof -
  let ?s = "reload_scan Sum256 desired s"
  have w: "workers_ok s" using assms(1) by (simp add: registration_ok_def)
  have waits: "k \<in> set (List.map_filter (\<lambda>(n, k). sv_workerDone s n)
      (filter (\<lambda>(n, k). \<not> keeps_worker Sum256 desired s n) (sv_workerCancels s)))"
    if "map_of (sv_workerCancels s) n = Some k" "\<not> keeps_worker Sum256 desired s n" for n k
  proof -
    have "sv_workerDone s n = Some k"
      using registeredD [OF w that(1)] workers_okD(1) [OF w, of k] by (auto simp: loop_ok_def)
    then show ?thesis using map_of_SomeD [OF that(1)] that(2)
      by (force simp: List.map_filter_def)
  qed
  have kept: "n \<in> fst ` {x \<in> set (sv_workerCancels s). case x of (n, k) \<Rightarrow> keeps_worker Sum256 desired s n}"
    if "map_of (sv_workerCancels s) n = Some k" "keeps_worker Sum256 desired s n" for n k
    using map_of_SomeD [OF that(1)] that(2) by force
  have "lifecycle_ok ?s"
    unfolding reload_scan_def Let_def lifecycle_ok_def
    using waits kept assms(2) by (auto simp: filter_map_distinct)
  moreover have "same_registration s ?s"
    using cancel_loops_rel by (simp add: reload_scan_def Let_def same_registration_def)
  ultimately show ?thesis using registration_ok_same assms(1) by blast
qed

lemma reload_wait_registration:
  assumes "registration_ok s" "sv_lifecycle s = ReloadWait desired waits"
  shows "registration_ok (reload_wait a desired waits s)"
proof (cases waits)
  case Nil
  show ?thesis
  proof (cases "sv_closing s")
    case False
    let ?s = "s\<lparr>sv_holds := \<lambda>_. False, sv_lifecycle := Idle\<rparr>"
    have "registration_ok ?s"
      by (rule registration_ok_same [OF same_registrationI _ assms(1)]) (simp_all add: lifecycle_ok_def)
    moreover have "\<forall>d \<in> set desired. map_of (sv_workerCancels ?s) (d_Name d) = None" "distinct (map d_Name desired)"
      using assms Nil by (auto simp: registration_ok_def lifecycle_ok_def)
    ultimately have "workers_ok (fold start_worker desired ?s) \<and> fresh_ok (fold start_worker desired ?s)"
      using workers_ok_start_all [of ?s desired] by (simp add: registration_ok_def)
    moreover have "sv_lifecycle (fold start_worker ds t) = sv_lifecycle t" for ds t
      by (induction ds arbitrary: t) simp_all
    ultimately show ?thesis using Nil False by (simp add: reload_wait_def registration_ok_def lifecycle_ok_def)
  next
    case True
    have "registration_ok (s\<lparr>sv_lifecycle := Idle\<rparr>)"
      by (rule registration_ok_same [OF same_registrationI _ assms(1)]) (simp_all add: lifecycle_ok_def)
    then show ?thesis using Nil True by (simp add: reload_wait_def)
  qed
next
  case (Cons ch rest)
  have "lifecycle_ok (s\<lparr>sv_lifecycle := ReloadWait desired rest\<rparr>)" if "sv_closedDone s ch"
    using assms that Cons registeredD [of s _ ch] by (fastforce simp: registration_ok_def lifecycle_ok_def)
  then have "registration_ok (s\<lparr>sv_lifecycle := ReloadWait desired rest\<rparr>)" if "sv_closedDone s ch"
    using that by (intro registration_ok_same [OF same_registrationI _ assms(1)]) simp_all
  moreover have "registration_ok (s\<lparr>sv_lifecycle := Idle\<rparr>)"
    by (rule registration_ok_same [OF same_registrationI _ assms(1)]) (simp_all add: lifecycle_ok_def)
  ultimately show ?thesis using assms(1) Cons
    by (auto simp: reload_wait_def select_case_def split: selected.splits)
qed

lemma registration_ok_idle:
  "registration_ok s \<Longrightarrow> same_registration s s' \<Longrightarrow>
   (\<And>desired waits d ch f. sv_lifecycle s' \<noteq> ReloadScan desired \<and> sv_lifecycle s' \<noteq> ReloadWait desired waits \<and>
      sv_lifecycle s' \<noteq> StartWait d ch \<and> sv_lifecycle s' \<noteq> StartLaunch d \<and> sv_lifecycle s' \<noteq> ResetCheck f \<and>
      sv_lifecycle s' \<noteq> ResetClear f \<and> sv_lifecycle s' \<noteq> ResetCommit f) \<Longrightarrow> registration_ok s'"
  by (rule registration_ok_same) (auto simp: lifecycle_ok_def split: lifecycle.splits)

lemma startDefinition_registration:
  assumes "registration_ok s"
  shows "registration_ok (startDefinition_begin d s)"
    "sv_lifecycle s = StartWait d ch \<Longrightarrow> registration_ok (startDefinition_wait a d ch s)"
    "sv_lifecycle s = StartLaunch d \<Longrightarrow> registration_ok (startDefinition_launch d s)"
proof -
  have launch: "registration_ok (start_worker d t)"
    if "registration_ok t" "sv_lifecycle t = Idle" "map_of (sv_workerCancels t) (d_Name d) = None" for t
    using workers_ok_start [of t d] that by (simp add: registration_ok_def lifecycle_ok_def)
  let ?s = "s\<lparr>sv_holds := (sv_holds s)(d_Name d := False), sv_failures := (sv_failures s)(d_Name d := 0),
     sv_lifecycle := Idle\<rparr>"
  have s: "registration_ok ?s"
    by (rule registration_ok_idle [OF assms same_registrationI]) simp_all
  show "registration_ok (startDefinition_begin d s)"
  proof (cases "map_of (sv_workerCancels s) (d_Name d)")
    case None
    then show ?thesis using s launch [of ?s] by (simp add: startDefinition_begin_def Let_def)
  next
    case (Some k)
    have "sv_workerDone s (d_Name d) = Some k"
      using registeredD [of s, OF _ Some] workers_okD(1) [of s k] assms
      by (auto simp: registration_ok_def loop_ok_def)
    then have "lifecycle_ok ((cancel_loops [k] ?s)\<lparr>sv_lifecycle := StartWait d (sv_workerDone s (d_Name d))\<rparr>)"
      using Some by (simp add: lifecycle_ok_def)
    moreover have "same_registration ?s ((cancel_loops [k] ?s)\<lparr>sv_lifecycle := StartWait d (sv_workerDone s (d_Name d))\<rparr>)"
      using cancel_loops_rel [of ?s _ "[k]"] by (simp add: same_registration_def)
    ultimately show ?thesis using Some s registration_ok_same
      by (simp add: startDefinition_begin_def Let_def)
  qed
  show "registration_ok (startDefinition_wait a d ch s)" if lc: "sv_lifecycle s = StartWait d ch"
  proof -
    have idle: "registration_ok (s\<lparr>sv_lifecycle := Idle\<rparr>)"
      by (rule registration_ok_idle [OF assms same_registrationI]) simp_all
    have "registration_ok (s\<lparr>sv_lifecycle := StartLaunch d\<rparr>)" if "ch = Some k" "sv_closedDone s k" for k
    proof -
      have "map_of (sv_workerCancels s) (d_Name d) \<noteq> Some j" for j
        using assms lc that registeredD [of s "d_Name d" j] by (auto simp: registration_ok_def lifecycle_ok_def)
      then show ?thesis
        by (intro registration_ok_same [OF same_registrationI _ assms]) (auto simp: lifecycle_ok_def)
    qed
    then show ?thesis using idle assms
      by (auto simp: startDefinition_wait_def select_case_def split: selected.splits option.splits)
  qed
  show "registration_ok (startDefinition_launch d s)" if lc: "sv_lifecycle s = StartLaunch d"
  proof -
    have "registration_ok (s\<lparr>sv_lifecycle := Idle\<rparr>)"
      by (rule registration_ok_idle [OF assms same_registrationI]) simp_all
    then show ?thesis using launch [of "s\<lparr>sv_lifecycle := Idle\<rparr>"] assms lc
      by (simp add: startDefinition_launch_def Let_def registration_ok_def lifecycle_ok_def)
  qed
qed

lemma restart_registration:
  assumes "registration_ok s"
  shows "registration_ok (restart_sample d s)" "registration_ok (restart_hold d ch cancel s)"
    "registration_ok (restart_stop d ch cancel rid s)" "registration_ok (restart_cancel d ch cancel s)"
    "registration_ok (restart_spawn d ch s)"
proof -
  show "registration_ok (restart_sample d s)"
    by (rule registration_ok_idle [OF assms same_registrationI]) (simp_all add: restart_sample_def)
  show "registration_ok (restart_hold d ch cancel s)"
    by (rule registration_ok_idle [OF assms same_registrationI]) (simp_all add: restart_hold_def Let_def)
  show "registration_ok (restart_stop d ch cancel rid s)"
    by (rule registration_ok_idle [OF assms same_registrationI]) (simp_all add: restart_stop_def)
  show "registration_ok (restart_spawn d ch s)"
    by (rule registration_ok_idle [OF assms same_registrationI]) (simp_all add: restart_spawn_def)
  show "registration_ok (restart_cancel d ch cancel s)"
    by (rule registration_ok_idle [OF assms])
      (use cancel_loops_rel [of s] in \<open>simp_all add: restart_cancel_def same_registration_def\<close>)
qed

lemma reset_registration:
  assumes "registration_ok s"
  shows "sv_lifecycle s = ResetCheck f \<Longrightarrow> registration_ok (resetExhaustion_check f s)"
    "sv_lifecycle s = ResetClear f \<Longrightarrow> registration_ok (resetExhaustion_clear a f s)"
    "sv_lifecycle s = ResetCommit f \<Longrightarrow> registration_ok (resetExhaustion_commit f s)"
proof -
  have lc: "lifecycle_ok s" using assms by (simp add: registration_ok_def)
  show "registration_ok (resetExhaustion_check f s)" if "sv_lifecycle s = ResetCheck f"
    by (rule registration_ok_same [OF same_registrationI _ assms])
      (use that lc in \<open>auto simp: resetExhaustion_check_def lifecycle_ok_def split: reset_for.splits\<close>)
  show "registration_ok (resetExhaustion_clear a f s)" if "sv_lifecycle s = ResetClear f"
    by (rule registration_ok_same [OF same_registrationI _ assms])
      (use that lc in \<open>auto simp: resetExhaustion_clear_def lifecycle_ok_def
         split: reset_for.splits prod.splits sum.splits\<close>)
  show "registration_ok (resetExhaustion_commit f s)" if "sv_lifecycle s = ResetCommit f"
    by (rule registration_ok_same [OF same_registrationI _ assms])
      (use that lc in \<open>auto simp: resetExhaustion_commit_def lifecycle_ok_def after_reset_def Let_def
         split: reset_for.splits\<close>)
qed

lemma registration_ok_lifecycle:
  assumes "registration_ok s"
  shows "registration_ok (lifecycle_step Sum256 a s)"
proof (cases "sv_lifecycle s")
  case (ReloadScan desired)
  then have "distinct (map d_Name desired)" using assms by (simp add: registration_ok_def lifecycle_ok_def)
  then show ?thesis using ReloadScan reload_scan_registration [OF assms] by (simp add: lifecycle_step_def)
qed (simp_all add: lifecycle_step_def assms reset_registration reload_wait_registration
    startDefinition_registration restart_registration)

lemma registration_ok_step:
  assumes "registration_ok s" "sv_step Sum256 s s'"
  shows "registration_ok s'"
  using assms(2)
proof cases
  case (sv_step_loop k l a)
  then show ?thesis using registration_ok_loop [OF assms(1)] by simp
next
  case (sv_step_lifecycle a)
  then show ?thesis using registration_ok_lifecycle [OF assms(1)] by simp
next
  case (sv_step_reload defs)
  show ?thesis
    by (rule registration_ok_same [OF same_registrationI _ assms(1)])
      (use sv_step_reload desired_workers_distinct in \<open>auto simp: Reload_def lifecycle_ok_def\<close>)
next
  case (sv_step_start d)
  show ?thesis
    by (rule registration_ok_same [OF same_registrationI _ assms(1)])
      (use sv_step_start in \<open>auto simp: lifecycle_ok_def\<close>)
next
  case (sv_step_restart d)
  show ?thesis
    by (rule registration_ok_same [OF same_registrationI _ assms(1)])
      (use sv_step_restart in \<open>auto simp: lifecycle_ok_def\<close>)
next
  case (sv_step_replace rp a)
  have same: "same_registration s s'"
    by (rule same_registrationI)
      (use sv_step_replace in \<open>auto simp: replace_step_def Let_def split: option.splits selected.splits\<close>)
  consider "sv_lifecycle s' = sv_lifecycle s" | d where "sv_lifecycle s' = StartBegin d"
    using sv_step_replace
    by (auto simp: replace_step_def Let_def split: option.splits selected.splits if_splits)
  then show ?thesis
  proof cases
    case 1
    then show ?thesis using registration_ok_kept same assms(1) by blast
  next
    case 2
    then show ?thesis by (intro registration_ok_idle [OF assms(1) same]) simp
  qed
qed (rule registration_ok_kept [OF same_registrationI _ assms(1)];
     simp add: Stop_worker_def Stop_call_def Supervisor_BeginShutdown_def)+

section \<open>Holds\<close>

text \<open>A stop of the run has been requested, or a goroutine is past the point where it decided to.\<close>

definition stop_noted :: "string \<Rightarrow> supervisor \<Rightarrow> bool" where
  "stop_noted rid s \<longleftrightarrow> CallStop rid \<in> set (sv_calls s) \<or> CallStopForShutdown rid \<in> set (sv_calls s)
     \<or> rid \<in> set (sv_stopping s) \<or> (\<exists>d ch cancel. sv_lifecycle s = RestartStop d ch cancel rid)
     \<or> (\<exists>k l. sv_loops s k = Some l \<and> lp_pc l = LHoldStop rid)"

definition holds_ok :: "supervisor \<Rightarrow> bool" where
  "holds_ok s \<longleftrightarrow> (\<forall>n rid. sv_holds s n \<and> sv_active s n = Some rid \<and> rid \<noteq> '''' \<longrightarrow> stop_noted rid s)"

lemma holds_okI:
  assumes "holds_ok s" "\<And>rid. stop_noted rid s \<Longrightarrow> stop_noted rid s'"
    "\<And>n rid. sv_holds s' n \<Longrightarrow> sv_active s' n = Some rid \<Longrightarrow> rid \<noteq> '''' \<Longrightarrow>
       (sv_holds s n \<and> sv_active s n = Some rid) \<or> stop_noted rid s'"
  shows "holds_ok s'"
  using assms unfolding holds_ok_def by blast

lemma goto_simps [simp]:
  "sv_active (goto k l pc s) = sv_active s" "sv_holds (goto k l pc s) = sv_holds s"
  "sv_calls (goto k l pc s) = sv_calls s" "sv_stopping (goto k l pc s) = sv_stopping s"
  "sv_lifecycle (goto k l pc s) = sv_lifecycle s" "sv_failures (goto k l pc s) = sv_failures s"
  "sv_epochs (goto k l pc s) = sv_epochs s" "sv_epochBase (goto k l pc s) = sv_epochBase s"
  "sv_cancelled (goto k l pc s) = sv_cancelled s" "sv_stateMu (goto k l pc s) = sv_stateMu s"
  "sv_ctx (goto k l pc s) = sv_ctx s" "sv_closing (goto k l pc s) = sv_closing s"
  "sv_stopped (goto k l pc s) = sv_stopped s" "sv_next (goto k l pc s) = sv_next s"
  "sv_loops (goto k l pc s) = (sv_loops s)(k \<mapsto> l\<lparr>lp_pc := pc\<rparr>)"
  by (simp_all add: goto_def)

lemma stop_noted_frame:
  assumes "stop_noted rid s" "sv_loops s k = Some l" "lp_pc l \<noteq> LHoldStop rid"
    "sv_loops s' = (sv_loops s)(k \<mapsto> l')" "set (sv_calls s) \<subseteq> set (sv_calls s')"
    "sv_stopping s' = sv_stopping s" "sv_lifecycle s' = sv_lifecycle s"
  shows "stop_noted rid s'"
proof -
  consider "CallStop rid \<in> set (sv_calls s) \<or> CallStopForShutdown rid \<in> set (sv_calls s)"
    | "rid \<in> set (sv_stopping s)" | d ch cancel where "sv_lifecycle s = RestartStop d ch cancel rid"
    | j m where "sv_loops s j = Some m" "lp_pc m = LHoldStop rid"
    using assms(1) unfolding stop_noted_def by blast
  then show ?thesis
  proof cases
    case (4 j m)
    then have "j \<noteq> k" using assms(2,3) by auto
    then have "sv_loops s' j = Some m" using 4 assms(4) by simp
    then show ?thesis using 4 unfolding stop_noted_def by blast
  qed (use assms(5-7) in \<open>auto simp: stop_noted_def\<close>)
qed

lemma loop_step_active_mono:
  assumes "\<And>r. lp_pc l \<noteq> LActivate r" "sv_active (loop_step a k l s) n = Some rid"
  shows "sv_active s n = Some rid"
proof -
  have same: "sv_active (restartAfter a h lr reason k l s) = sv_active s"
    "sv_active (persistExhaustion_note ep m x dl k l s) = sv_active s"
    "sv_active (persistExhaustion_write a ep m x dl k l s) = sv_active s"
    "sv_active (persistExhaustion_wait a ep m x dl k l s) = sv_active s"
    "sv_active (restart_retire ep m k l s) = sv_active s" "sv_active (restart_delay a k l s) = sv_active s"
    "sv_active (loop_top k l s) = sv_active s" "sv_active (loop_wait a r k l s) = sv_active s"
    "sv_active (loop_outcome a r k l s) = sv_active s" "sv_active (terminalRun a r b k l s) = sv_active s"
    "sv_active (terminal_poll a r b k l s) = sv_active s" "sv_active (loop_abandoned r k l s) = sv_active s"
    "sv_active (loop_decide cur k l s) = sv_active s" "sv_active (loop_defer k l s) = sv_active s"
    "sv_active (loop_defer_join a r k l s) = sv_active s" "sv_active (stopRun r s) = sv_active s"
    for h lr reason ep m x dl r b cur
    by (auto simp: restartAfter_def persistExhaustion_note_def persistExhaustion_write_def
        persistExhaustion_wait_def restart_retire_def restart_delay_def loop_top_def loop_wait_def
        loop_outcome_def terminalRun_def terminal_poll_def loop_abandoned_def loop_decide_def loop_defer_def
        loop_defer_join_def stopRun_def Let_def split: prod.splits sum.splits selected.splits option.splits)
  have trig: "sv_active (loop_trigger a k l s) = sv_active s"
    by (auto simp: loop_trigger_def Let_def split: prod.splits option.splits)
  show ?thesis
    using assms
    by (cases "lp_pc l")
      (auto simp: loop_step_def same trig loop_ctx_join_def deactivate_def loop_clean_def Let_def
        split: if_splits option.splits)
qed

lemma holds_ok_loop:
  assumes "holds_ok s" "registration_ok s" "sv_loops s k = Some l"
  shows "holds_ok (loop_step a k l s)"
proof -
  let ?s = "loop_step a k l s"
  have w: "workers_ok s" using assms(2) by (simp add: registration_ok_def)
  note l = workers_okD(1) [OF w assms(3)]
  consider "lp_pc l = LEnded" | "lp_pc l = LClean" | rid where "lp_pc l = LHoldStop rid"
    | r where "lp_pc l = LActivate r"
    | "alive l" "lp_pc l \<noteq> LClean" "\<And>r. lp_pc l \<noteq> LActivate r" "\<And>rid. lp_pc l \<noteq> LHoldStop rid"
    by (cases "lp_pc l") (auto simp: alive_def)
  then show ?thesis
  proof cases
    case 1
    then show ?thesis using assms(1) by (simp add: loop_step_def)
  next
    case 2
    have "stop_noted rid ?s" if "stop_noted rid s" for rid
      by (rule stop_noted_frame [OF that assms(3), where l' = "l\<lparr>lp_pc := LEnded\<rparr>"])
        (use 2 in \<open>auto simp: loop_step_def loop_clean_def Let_def split: option.splits\<close>)
    then show ?thesis
      using 2 loop_step_active_mono [of l a k s]
      by (intro holds_okI [OF assms(1)]) (auto simp: loop_step_def loop_clean_def Let_def split: option.splits)
  next
    case (3 rid)
    have "stop_noted x ?s" if "stop_noted x s" for x
    proof (cases "x = rid")
      case True
      then show ?thesis using 3 by (simp add: stop_noted_def loop_step_def stopRun_def)
    next
      case False
      then show ?thesis
        by (intro stop_noted_frame [OF that assms(3), where l' = "l\<lparr>lp_pc := LWait rid\<rparr>"])
          (use 3 in \<open>simp_all add: loop_step_def stopRun_def subset_insertI\<close>)
    qed
    then show ?thesis
      by (rule holds_okI [OF assms(1)]) (use 3 in \<open>auto simp: loop_step_def stopRun_def\<close>)
  next
    case (4 r)
    have "stop_noted x ?s" if "stop_noted x s" for x
      by (rule stop_noted_frame [OF that assms(3), where
            l' = "l\<lparr>lp_pc := if sv_holds s (worker_name l) then LHoldStop (r_ID r) else LWait (r_ID r)\<rparr>"])
        (use 4 in \<open>simp_all add: loop_step_def loop_activate_def Let_def\<close>)
    then show ?thesis
      by (rule holds_okI [OF assms(1)])
        (use 4 in \<open>auto simp: loop_step_def loop_activate_def Let_def stop_noted_def split: if_splits\<close>)
  next
    case 5
    then have "steps_to k l s ?s" using l by (intro loop_step_steps) (auto simp: loop_ok_def)
    then consider "?s = s" | l' where "moved k l l' s ?s" by (auto simp: steps_to_def)
    then show ?thesis
    proof cases
      case (2 l')
      show ?thesis
      proof (rule holds_okI [OF assms(1)])
        show "stop_noted rid ?s" if "stop_noted rid s" for rid
          by (rule stop_noted_frame [OF that assms(3) 5(4), where l' = l'])
            (use 2 in \<open>auto simp: moved_def outer_def\<close>)
        show "(sv_holds s n \<and> sv_active s n = Some rid) \<or> stop_noted rid ?s"
          if "sv_holds ?s n" "sv_active ?s n = Some rid" for n rid
          using that loop_step_active_mono [OF 5(3) that(2)] 2 by (simp add: moved_def outer_def)
      qed
    qed (use assms(1) in simp)
  qed
qed

text \<open>What an operator's step does outside the registration.\<close>

definition operator_frame :: "supervisor \<Rightarrow> supervisor \<Rightarrow> bool" where
  "operator_frame s s' \<longleftrightarrow> sv_active s' = sv_active s \<and> set (sv_calls s) \<subseteq> set (sv_calls s') \<and>
     set (sv_stopping s) \<subseteq> set (sv_stopping s') \<and>
     (\<forall>j m. sv_loops s j = Some m \<longrightarrow> (\<exists>m'. sv_loops s' j = Some m' \<and> ctx_upto m m'))"

lemma ctx_upto_refl [simp]: "ctx_upto l l"
  by (simp add: ctx_upto_def)

lemma ctx_upto_trans: "ctx_upto a b \<Longrightarrow> ctx_upto b c \<Longrightarrow> ctx_upto a c"
  by (auto simp: ctx_upto_def)

lemma operator_frame_trans: "operator_frame s t \<Longrightarrow> operator_frame t u \<Longrightarrow> operator_frame s u"
  unfolding operator_frame_def by (metis ctx_upto_trans subset_trans)

lemma operator_frame_same:
  "same_registration s s' \<Longrightarrow> set (sv_calls s) \<subseteq> set (sv_calls s') \<Longrightarrow>
   set (sv_stopping s) \<subseteq> set (sv_stopping s') \<Longrightarrow> operator_frame s s'"
  using same_registrationD(1) by (auto simp: operator_frame_def same_registration_def)

lemma operator_frameI:
  "sv_active s' = sv_active s \<Longrightarrow> set (sv_calls s) \<subseteq> set (sv_calls s') \<Longrightarrow>
   set (sv_stopping s) \<subseteq> set (sv_stopping s') \<Longrightarrow> sv_loops s' = sv_loops s \<Longrightarrow> operator_frame s s'"
  by (simp add: operator_frame_def)

lemma fresh_ok_start: "fresh_ok s \<Longrightarrow> fresh_ok (start_worker d s)"
  by (auto simp: fresh_ok_def)

lemma operator_frame_start: "fresh_ok s \<Longrightarrow> operator_frame s (start_worker d s)"
  by (auto simp: operator_frame_def fresh_ok_def)

lemma operator_frame_start_all: "fresh_ok s \<Longrightarrow> operator_frame s (fold start_worker ds s)"
proof (induction ds arbitrary: s)
  case (Cons d ds)
  then show ?case
    using operator_frame_trans [OF operator_frame_start Cons.IH [OF fresh_ok_start]] by simp
qed (simp add: operator_frame_def)

lemma operator_frame_cancel: "operator_frame s (cancel_loops ks s)"
  using cancel_loops_rel [of s _ ks] by (auto simp: operator_frame_def) (metis option_rel_Some1)

lemma lifecycle_step_frame:
  assumes "fresh_ok s"
  shows "operator_frame s (lifecycle_step Sum256 a s)"
proof -
  have keep: "operator_frame s s" for s by (simp add: operator_frame_def)
  have cancel: "operator_frame s ((cancel_loops ks s1)\<lparr>sv_lifecycle := lc\<rparr>)"
    if "operator_frame s s1" for ks s1 lc
    by (rule operator_frame_trans [OF that]) (use operator_frame_cancel [of s1 ks] in \<open>simp add: operator_frame_def\<close>)
  have launch: "operator_frame s (fold start_worker ds (s\<lparr>sv_holds := h, sv_lifecycle := lc\<rparr>))" for ds h lc
    by (rule operator_frame_trans [OF _ operator_frame_start_all])
      (use assms in \<open>auto simp: operator_frame_def fresh_ok_def\<close>)
  have launch1: "operator_frame s (start_worker d (s\<lparr>sv_holds := h, sv_failures := f, sv_lifecycle := lc\<rparr>))"
    "operator_frame s (start_worker d (s\<lparr>sv_lifecycle := lc\<rparr>))" for d h f lc
    by (rule operator_frame_trans [OF _ operator_frame_start],
        use assms in \<open>auto simp: operator_frame_def fresh_ok_def\<close>)+
  show ?thesis
  proof (cases "sv_lifecycle s")
    case (ReloadScan desired)
    then show ?thesis using cancel keep by (simp add: lifecycle_step_def reload_scan_def Let_def)
  next
    case (ReloadWait desired waits)
    then show ?thesis using launch keep
      by (cases waits) (auto simp: lifecycle_step_def reload_wait_def intro: operator_frameI split: selected.splits)
  next
    case (StartBegin d)
    have "operator_frame s (s\<lparr>sv_holds := h, sv_failures := f, sv_lifecycle := lc\<rparr>)" for h f lc
      by (simp add: operator_frameI)
    then show ?thesis using StartBegin launch1 cancel
      by (auto simp: lifecycle_step_def startDefinition_begin_def Let_def split: option.splits)
  next
    case (StartLaunch d)
    then show ?thesis using launch1
      by (simp add: lifecycle_step_def startDefinition_launch_def Let_def operator_frameI)
  next
    case (RestartCancel d ch cancel)
    then show ?thesis using cancel keep by (simp add: lifecycle_step_def restart_cancel_def)
  qed (auto simp: lifecycle_step_def keep resetExhaustion_check_def resetExhaustion_clear_def
      resetExhaustion_commit_def startDefinition_wait_def restart_sample_def restart_hold_def restart_stop_def
      restart_spawn_def Let_def intro!: operator_frameI split: prod.splits sum.splits selected.splits)
qed

lemma fold_start_holds: "sv_holds (fold start_worker ds s) n \<Longrightarrow> sv_holds s n"
proof (induction ds arbitrary: s)
  case (Cons d ds)
  then show ?case using Cons.IH [of "start_worker d s"] by (simp split: if_splits)
qed simp

lemma lifecycle_step_holds:
  assumes "sv_holds (lifecycle_step Sum256 a s) n"
  shows "sv_holds s n \<or> (\<exists>d ch cancel. sv_lifecycle s = RestartHold d ch cancel \<and> n = d_Name d)"
proof (cases "sv_lifecycle s")
  case (ReloadWait desired waits)
  then show ?thesis using assms fold_start_holds [of desired "s\<lparr>sv_holds := \<lambda>_. False, sv_lifecycle := Idle\<rparr>" n]
    by (cases waits) (auto simp: lifecycle_step_def reload_wait_def split: selected.splits if_splits)
qed (use assms in \<open>auto simp: lifecycle_step_def reload_scan_def
      resetExhaustion_check_def resetExhaustion_clear_def resetExhaustion_commit_def startDefinition_begin_def
      startDefinition_wait_def startDefinition_launch_def restart_sample_def restart_hold_def restart_stop_def
      restart_cancel_def restart_spawn_def Let_def
      split: if_splits prod.splits sum.splits selected.splits option.splits\<close>)

lemma stop_noted_operator:
  assumes "stop_noted rid s" "operator_frame s s'"
    "\<And>d ch cancel. sv_lifecycle s = RestartStop d ch cancel rid \<Longrightarrow> sv_lifecycle s' = sv_lifecycle s \<or> stop_noted rid s'"
  shows "stop_noted rid s'"
proof -
  have frame: "x \<in> set (sv_calls s) \<Longrightarrow> x \<in> set (sv_calls s')" "y \<in> set (sv_stopping s) \<Longrightarrow> y \<in> set (sv_stopping s')"
    for x y using assms(2) by (auto simp: operator_frame_def)
  consider "CallStop rid \<in> set (sv_calls s) \<or> CallStopForShutdown rid \<in> set (sv_calls s)"
    | "rid \<in> set (sv_stopping s)" | d ch cancel where "sv_lifecycle s = RestartStop d ch cancel rid"
    | j m where "sv_loops s j = Some m" "lp_pc m = LHoldStop rid"
    using assms(1) unfolding stop_noted_def by blast
  then show ?thesis
  proof cases
    case 3
    then show ?thesis using assms(3) by (auto simp: stop_noted_def)
  next
    case (4 j m)
    then obtain m' where "sv_loops s' j = Some m'" "lp_pc m' = LHoldStop rid"
      using assms(2) unfolding operator_frame_def ctx_upto_def by metis
    then show ?thesis unfolding stop_noted_def by blast
  qed (use frame in \<open>auto simp: stop_noted_def\<close>)
qed

lemma holds_ok_lifecycle:
  assumes "holds_ok s" "fresh_ok s"
  shows "holds_ok (lifecycle_step Sum256 a s)"
proof -
  let ?s = "lifecycle_step Sum256 a s"
  note frame = lifecycle_step_frame [OF assms(2), of Sum256 a]
  show ?thesis
  proof (rule holds_okI [OF assms(1)])
    show "stop_noted rid ?s" if "stop_noted rid s" for rid
      by (rule stop_noted_operator [OF that frame])
        (simp add: lifecycle_step_def restart_stop_def stop_noted_def)
    show "(sv_holds s n \<and> sv_active s n = Some rid) \<or> stop_noted rid ?s"
      if "sv_holds ?s n" "sv_active ?s n = Some rid" "rid \<noteq> ''''" for n rid
      using lifecycle_step_holds [OF that(1)] frame that(2,3)
      by (auto simp: operator_frame_def lifecycle_step_def restart_hold_def Let_def active_id_def stop_noted_def)
  qed
qed

lemma holds_ok_step:
  assumes "holds_ok s" "registration_ok s" "sv_step Sum256 s s'"
  shows "holds_ok s'"
  using assms(3)
proof cases
  case (sv_step_loop k l a)
  then show ?thesis using holds_ok_loop [OF assms(1,2)] by simp
next
  case (sv_step_lifecycle a)
  then show ?thesis using holds_ok_lifecycle [OF assms(1)] assms(2) by (simp add: registration_ok_def)
next
  case (sv_step_replace rp a)
  have "operator_frame s s'"
    using sv_step_replace
    by (auto simp: replace_step_def Let_def intro!: operator_frameI split: option.splits selected.splits)
  moreover have "sv_lifecycle s \<noteq> Idle \<Longrightarrow> sv_lifecycle s' = sv_lifecycle s" "sv_holds s' = sv_holds s"
    using sv_step_replace by (auto simp: replace_step_def Let_def split: option.splits selected.splits)
  ultimately show ?thesis
    by (intro holds_okI [OF assms(1)] stop_noted_operator [of _ s s']) (auto simp: operator_frame_def)
next
  case (sv_step_stop n)
  have "operator_frame s s'" using sv_step_stop by (simp add: Stop_worker_def operator_frame_def subset_insertI)
  then show ?thesis
    by (intro holds_okI [OF assms(1)] stop_noted_operator [of _ s s'])
      (use sv_step_stop in \<open>auto simp: Stop_worker_def operator_frame_def active_id_def stop_noted_def split: if_splits\<close>)
next
  case (sv_step_stop_call rid)
  then show ?thesis
    by (intro holds_okI [OF assms(1)]) (auto simp: Stop_call_def stop_noted_def in_set_remove1)
qed (use assms(1) in \<open>auto simp: holds_ok_def stop_noted_def Reload_def Supervisor_BeginShutdown_def\<close>)

section \<open>The failure budget\<close>

text \<open>Where a loop that is not being cancelled stands with respect to its budget: while it is
  reporting exhaustion only an operator's reset gives it budget again, elsewhere some is left.\<close>

fun budget_at :: "loop_pc \<Rightarrow> bool \<Rightarrow> 64 word \<Rightarrow> bool" where
  "budget_at (LExhaust e _ _ _) left epoch = (epoch \<noteq> e \<longrightarrow> left)"
| "budget_at (LPersist e _ _ _) left epoch = (epoch \<noteq> e \<longrightarrow> left)"
| "budget_at (LPersistWait e _ _ _) left epoch = (epoch \<noteq> e \<longrightarrow> left)"
| "budget_at (LRetire e _) left epoch = (epoch \<noteq> e \<longrightarrow> left)"
| "budget_at LDefer left epoch = True"
| "budget_at (LDeferStop _) left epoch = True"
| "budget_at (LDeferJoin _) left epoch = True"
| "budget_at LClean left epoch = True"
| "budget_at LEnded left epoch = True"
| "budget_at _ left epoch = left"

definition limited :: "definition_rec \<Rightarrow> bool" where
  "limited d \<longleftrightarrow> d_RestartBackoffMax d \<le> 0 \<and> 1 \<le> d_MaxRestartAttempts d"

definition within_budget :: "supervisor \<Rightarrow> worker_loop \<Rightarrow> bool" where
  "within_budget s l \<longleftrightarrow> (limited (lp_def l) \<and> \<not> ended l s \<longrightarrow>
     budget_at (lp_pc l) (sv_failures s (worker_name l) < d_MaxRestartAttempts (lp_def l))
       (epochLocked (worker_name l) s))"

definition budget_ok :: "supervisor \<Rightarrow> bool" where
  "budget_ok s \<longleftrightarrow> (\<forall>k l. sv_loops s k = Some l \<longrightarrow> within_budget s l)"

lemma budget_at_left: "budget_at pc True epoch"
  by (cases pc) auto

lemma epochLocked_cong: "sv_epochs s' = sv_epochs s \<Longrightarrow> sv_epochBase s' = sv_epochBase s \<Longrightarrow>
  epochLocked n s' = epochLocked n s"
  by (simp add: epochLocked_def split: option.split)

lemma epochLocked_goto [simp]: "epochLocked n (goto k l pc s) = epochLocked n s"
  by (simp add: epochLocked_def split: option.split)

lemma ended_goto [simp]: "ended l (goto k l' pc s) = ended l s"
  by (simp add: ended_def)

text \<open>The step of the loop itself.\<close>

definition own_budget :: "nat \<Rightarrow> worker_loop \<Rightarrow> supervisor \<Rightarrow> bool" where
  "own_budget k l s' \<longleftrightarrow> (\<forall>l'. sv_loops s' k = Some l' \<longrightarrow> within_budget s' l')"

lemma own_budget_goto:
  assumes "lp_def l1 = lp_def l" "lp_ctx l1 = lp_ctx l"
    "limited (lp_def l) \<Longrightarrow> \<not> ended l s1 \<Longrightarrow>
       budget_at pc (sv_failures s1 (worker_name l) < d_MaxRestartAttempts (lp_def l)) (epochLocked (worker_name l) s1)"
  shows "own_budget k l (goto k l1 pc s1)"
  using assms by (simp add: own_budget_def within_budget_def ended_def)

lemma ended_simps [simp]:
  "ended l (s\<lparr>sv_calls := cs\<rparr>) = ended l s" "ended l (s\<lparr>sv_active := f\<rparr>) = ended l s"
  "ended l (s\<lparr>sv_failures := g\<rparr>) = ended l s" "ended l (s\<lparr>sv_db := b\<rparr>) = ended l s"
  "ended l (s\<lparr>sv_retiring := h\<rparr>) = ended l s" "ended l (s\<lparr>sv_stateMu := v\<rparr>) = ended l s"
  "ended l (s\<lparr>sv_pending := p\<rparr>) = ended l s" "ended l (s\<lparr>sv_exhausted := x\<rparr>) = ended l s"
  "ended l (s\<lparr>sv_notified := ns\<rparr>) = ended l s"
  by (simp_all add: ended_def)

lemma epochLocked_simps [simp]:
  "epochLocked n (s\<lparr>sv_calls := cs\<rparr>) = epochLocked n s" "epochLocked n (s\<lparr>sv_active := f\<rparr>) = epochLocked n s"
  "epochLocked n (s\<lparr>sv_failures := g\<rparr>) = epochLocked n s" "epochLocked n (s\<lparr>sv_db := b\<rparr>) = epochLocked n s"
  "epochLocked n (s\<lparr>sv_retiring := h\<rparr>) = epochLocked n s" "epochLocked n (s\<lparr>sv_stateMu := v\<rparr>) = epochLocked n s"
  "epochLocked n (s\<lparr>sv_pending := p\<rparr>) = epochLocked n s" "epochLocked n (s\<lparr>sv_exhausted := x\<rparr>) = epochLocked n s"
  "epochLocked n (s\<lparr>sv_notified := ns\<rparr>) = epochLocked n s"
  by (simp_all add: epochLocked_def split: option.split)

lemma stopRun_simps [simp]:
  "ended l (stopRun rid s) = ended l s" "epochLocked n (stopRun rid s) = epochLocked n s"
  "sv_failures (stopRun rid s) = sv_failures s"
  by (simp_all add: stopRun_def)

lemma deactivate_simps [simp]:
  "ended l (deactivate n rid s) = ended l s" "epochLocked m (deactivate n rid s) = epochLocked m s"
  "sv_failures (deactivate n rid s) = sv_failures s"
  by (simp_all add: deactivate_def)

text \<open>Steps between program points at which some budget is left.\<close>

lemma own_budget_left:
  assumes "limited (lp_def l) \<Longrightarrow> \<not> ended l s \<Longrightarrow> sv_failures s (worker_name l) < d_MaxRestartAttempts (lp_def l)"
    "own_budget k l s"
  shows "own_budget k l (loop_top k l s)" "own_budget k l (loop_trigger a k l s)"
    "own_budget k l (loop_activate r k l s)" "own_budget k l (loop_wait a rid k l s)"
    "own_budget k l (loop_ctx_join a rid k l s)" "own_budget k l (loop_outcome a rid k l s)"
    "own_budget k l (terminalRun a rid bo k l s)" "own_budget k l (terminal_poll a rid bo k l s)"
    "own_budget k l (loop_abandoned rid k l s)" "own_budget k l (loop_decide cur k l s)"
    "own_budget k l (restart_delay a k l s)"
    "own_budget k l (goto k l (LWait rid) (stopRun rid s))"
    "own_budget k l (goto k l (LCtxJoin rid) (stopRun rid s))"
    "own_budget k l (goto k l (LOutcome rid) (deactivate (worker_name l) rid s))"
  using assms
  by (auto simp: loop_top_def loop_trigger_def loop_activate_def loop_wait_def loop_ctx_join_def loop_outcome_def
      terminalRun_def terminal_poll_def loop_abandoned_def loop_decide_def restart_delay_def Let_def
      split: prod.splits option.splits selected.splits sum.splits intro!: own_budget_goto)

lemma own_budget_restart: "own_budget k l (restartAfter a h lr reason k l s)"
proof (cases h)
  case True
  then show ?thesis
    by (auto simp: restartAfter_def Let_def limited_def intro!: own_budget_goto)
next
  case False
  then show ?thesis
    by (auto simp: restartAfter_def Let_def limited_def not_le intro!: own_budget_goto)
qed

lemma own_budget_persist:
  assumes "limited (lp_def l) \<Longrightarrow> \<not> ended l s \<Longrightarrow> epochLocked (worker_name l) s \<noteq> ep \<Longrightarrow>
      sv_failures s (worker_name l) < d_MaxRestartAttempts (lp_def l)" "own_budget k l s"
  shows "own_budget k l (persistExhaustion_note ep m x dl k l s)"
    "own_budget k l (persistExhaustion_write a ep m x dl k l s)"
    "own_budget k l (persistExhaustion_wait a ep m x dl k l s)"
    "own_budget k l (restart_retire ep m k l s)"
proof -
  show "own_budget k l (persistExhaustion_note ep m x dl k l s)"
    using assms by (auto simp: persistExhaustion_note_def Let_def intro!: own_budget_goto)
  show "own_budget k l (persistExhaustion_write a ep m x dl k l s)"
    using assms by (auto simp: persistExhaustion_write_def Let_def intro!: own_budget_goto split: prod.splits sum.splits)
  show "own_budget k l (persistExhaustion_wait a ep m x dl k l s)"
    using assms
    by (auto simp: persistExhaustion_wait_def select_case_def intro!: own_budget_goto split: selected.splits if_splits)
  show "own_budget k l (restart_retire ep m k l s)"
    using assms by (auto simp: restart_retire_def Let_def intro!: own_budget_goto)
qed

lemma own_budget_defer: "own_budget k l s \<Longrightarrow> own_budget k l (loop_defer k l s)"
  by (auto simp: loop_defer_def Let_def intro!: own_budget_goto)

lemma own_budget_step:
  assumes "sv_loops s k = Some l" "within_budget s l" "\<not> panicked (lp_pc l)"
  shows "own_budget k l (loop_step a k l s)"
proof -
  have own: "own_budget k l s" using assms by (simp add: own_budget_def)
  note b = assms(2) [unfolded within_budget_def]
  show ?thesis
    using assms(3)
    by (cases "lp_pc l")
      (use b in \<open>auto simp: loop_step_def own loop_clean_def Let_def
        intro!: own_budget_left own_budget_restart own_budget_persist own_budget_defer own_budget_goto\<close>)
qed

lemma budget_ok_loop:
  assumes "budget_ok s" "registration_ok s" "sv_loops s k = Some l"
  shows "budget_ok (loop_step a k l s)"
proof -
  let ?s = "loop_step a k l s"
  have w: "workers_ok s" using assms(2) by (simp add: registration_ok_def)
  note l = workers_okD(1) [OF w assms(3)]
  have other: "within_budget ?s m"
    if "alive l" "sv_loops s j = Some m" "j \<noteq> k" "sv_epochs ?s = sv_epochs s" "sv_epochBase ?s = sv_epochBase s"
      "sv_cancelled ?s = sv_cancelled s" "\<forall>n. n \<noteq> worker_name l \<longrightarrow> sv_failures ?s n = sv_failures s n" for j m
  proof (cases "alive m")
    case True
    then have "worker_name m \<noteq> worker_name l"
      using same_worker_same_loop [OF w that(2) True assms(3) that(1)] that(3) by blast
    moreover have "within_budget s m" using assms(1) that(2) by (simp add: budget_ok_def)
    ultimately show ?thesis using that(4-7) epochLocked_cong [of ?s s]
      by (simp add: within_budget_def ended_def)
  qed (simp add: within_budget_def alive_def)
  have own: "own_budget k l ?s" if "alive l"
    using assms l that by (intro own_budget_step) (auto simp: budget_ok_def loop_ok_def)
  consider "lp_pc l = LEnded" | "lp_pc l = LClean" | "alive l" "lp_pc l \<noteq> LClean"
    by (auto simp: alive_def)
  then show ?thesis
  proof cases
    case 1
    then show ?thesis using assms(1) by (simp add: loop_step_def)
  next
    case 2
    have eqs: "sv_loops ?s = (sv_loops s)(k \<mapsto> l\<lparr>lp_pc := LEnded\<rparr>)" "sv_epochs ?s = sv_epochs s"
      "sv_epochBase ?s = sv_epochBase s" "sv_cancelled ?s = sv_cancelled s" "sv_failures ?s = sv_failures s"
      using 2 by (auto simp: loop_step_def loop_clean_def Let_def split: option.splits)
    then show ?thesis using 2 other own unfolding budget_ok_def own_budget_def
      by (metis alive_def fun_upd_other loop_pc.distinct(551))
  next
    case 3
    then have "steps_to k l s ?s" using l by (intro loop_step_steps) (auto simp: loop_ok_def)
    then consider "?s = s" | l' where "moved k l l' s ?s" by (auto simp: steps_to_def)
    then show ?thesis
    proof cases
      case (2 l')
      then have "sv_loops ?s = (sv_loops s)(k \<mapsto> l')" "sv_epochs ?s = sv_epochs s"
        "sv_epochBase ?s = sv_epochBase s" "sv_cancelled ?s = sv_cancelled s"
        "\<forall>n. n \<noteq> worker_name l \<longrightarrow> sv_failures ?s n = sv_failures s n"
        by (auto simp: moved_def outer_def)
      then show ?thesis using other [OF 3(1)] own [OF 3(1)] unfolding budget_ok_def own_budget_def
        by (metis fun_upd_other)
    qed (use assms(1) in simp)
  qed
qed

text \<open>An operator's step keeps the counters or sets them back, and starts loops with a fresh budget.\<close>

definition budget_frame :: "supervisor \<Rightarrow> supervisor \<Rightarrow> bool" where
  "budget_frame s s' \<longleftrightarrow> (sv_cancelled s \<longrightarrow> sv_cancelled s') \<and>
     (\<forall>n. sv_failures s' n = 0 \<or> (sv_failures s' n = sv_failures s n \<and> epochLocked n s' = epochLocked n s)) \<and>
     (\<forall>k l'. sv_loops s' k = Some l' \<longrightarrow>
        sv_failures s' (worker_name l') = 0 \<or> (\<exists>l. sv_loops s k = Some l \<and> ctx_upto l l'))"

lemma budget_ok_frame:
  assumes "budget_frame s s'" "budget_ok s"
  shows "budget_ok s'"
proof -
  have "within_budget s' l'" if l': "sv_loops s' k = Some l'" for k l'
  proof (cases "sv_failures s' (worker_name l') = 0")
    case True
    then show ?thesis by (auto simp: within_budget_def limited_def budget_at_left)
  next
    case False
    then obtain l where l: "sv_loops s k = Some l" "ctx_upto l l'"
      using assms(1) l' unfolding budget_frame_def by blast
    then have "within_budget s l" using assms(2) by (simp add: budget_ok_def)
    then show ?thesis using l(2) False assms(1) unfolding within_budget_def budget_frame_def ended_def ctx_upto_def
      by auto
  qed
  then show ?thesis by (simp add: budget_ok_def)
qed

lemma budget_frameI:
  assumes "sv_loops s' = sv_loops s" "sv_cancelled s \<Longrightarrow> sv_cancelled s'"
    "\<And>n. sv_failures s' n = 0 \<or> (sv_failures s' n = sv_failures s n \<and> epochLocked n s' = epochLocked n s)"
  shows "budget_frame s s'"
proof -
  have "\<exists>l. sv_loops s k = Some l \<and> ctx_upto l l'" if "sv_loops s' k = Some l'" for k l'
    using that assms(1) ctx_upto_refl by metis
  then show ?thesis using assms(2,3) unfolding budget_frame_def by blast
qed

lemma budget_frame_trans:
  assumes "budget_frame s t" "budget_frame t u"
  shows "budget_frame s u"
proof -
  have f: "sv_failures u n = 0 \<or> (sv_failures u n = sv_failures t n \<and> epochLocked n u = epochLocked n t)"
    "sv_failures t n = 0 \<or> (sv_failures t n = sv_failures s n \<and> epochLocked n t = epochLocked n s)" for n
    using assms by (auto simp: budget_frame_def)
  have "sv_failures u (worker_name l') = 0 \<or> (\<exists>l. sv_loops s k = Some l \<and> ctx_upto l l')"
    if "sv_loops u k = Some l'" for k l'
  proof (cases "sv_failures u (worker_name l') = 0")
    case False
    then obtain m where m: "sv_loops t k = Some m" "ctx_upto m l'"
      using assms(2) \<open>sv_loops u k = Some l'\<close> unfolding budget_frame_def by blast
    moreover have "sv_failures t (worker_name m) \<noteq> 0" using f(1) [of "worker_name l'"] False m(2) by (auto simp: ctx_upto_def)
    ultimately obtain l where "sv_loops s k = Some l" "ctx_upto l m"
      using assms(1) unfolding budget_frame_def by blast
    then show ?thesis using ctx_upto_trans m(2) by blast
  qed simp
  moreover have "sv_failures u n = 0 \<or> (sv_failures u n = sv_failures s n \<and> epochLocked n u = epochLocked n s)" for n
    using f [of n] by metis
  ultimately show ?thesis using assms unfolding budget_frame_def by blast
qed

lemma budget_frame_start: "budget_frame s (start_worker d s)"
proof -
  have "epochLocked n (start_worker d s) = epochLocked n s" for n by (rule epochLocked_cong) simp_all
  then show ?thesis by (auto simp: budget_frame_def)
qed

lemma budget_frame_start_all: "budget_frame s (fold start_worker ds s)"
proof (induction ds arbitrary: s)
  case (Cons d ds)
  then show ?case using budget_frame_trans [OF budget_frame_start Cons.IH [of "start_worker d s"]] by simp
qed (simp add: budget_frameI)

lemma budget_frame_cancel: "budget_frame s (cancel_loops ks s)"
proof -
  have "epochLocked n (cancel_loops ks s) = epochLocked n s" for n by (rule epochLocked_cong) simp_all
  then show ?thesis using cancel_loops_rel [of s _ ks] unfolding budget_frame_def
    by (metis cancel_loops_simps(9,13) option_rel_Some2)
qed

lemma epochLocked_frame [simp]:
  "epochLocked n (s\<lparr>sv_lifecycle := lc\<rparr>) = epochLocked n s" "epochLocked n (s\<lparr>sv_holds := h\<rparr>) = epochLocked n s"
  "epochLocked n (s\<lparr>sv_replacements := rs\<rparr>) = epochLocked n s" "epochLocked n (s\<lparr>sv_stopping := st\<rparr>) = epochLocked n s"
  "epochLocked n (s\<lparr>sv_ctx := c\<rparr>) = epochLocked n s" "epochLocked n (s\<lparr>sv_closing := v\<rparr>) = epochLocked n s"
  "epochLocked n (s\<lparr>sv_stopped := w\<rparr>) = epochLocked n s" "epochLocked n (s\<lparr>sv_cancelled := x\<rparr>) = epochLocked n s"
  by (simp_all add: epochLocked_def split: option.split)

lemma budget_frame_refl [simp]: "budget_frame s s"
  by (rule budget_frameI) simp_all

lemma budget_frame_cancelled:
  "budget_frame s t \<Longrightarrow> budget_frame s ((cancel_loops ks t)\<lparr>sv_lifecycle := lc\<rparr>)"
  by (erule budget_frame_trans, rule budget_frame_trans [OF budget_frame_cancel [of _ ks]], rule budget_frameI)
    simp_all

lemma budget_frame_lifecycle: "budget_frame s (lifecycle_step Sum256 a s)"
proof (cases "sv_lifecycle s")
  case (ReloadScan desired)
  then show ?thesis by (simp add: lifecycle_step_def reload_scan_def Let_def budget_frame_cancelled)
next
  case (ReloadWait desired waits)
  have "budget_frame s (s\<lparr>sv_holds := h, sv_lifecycle := lc\<rparr>)" "budget_frame s (s\<lparr>sv_lifecycle := lc\<rparr>)" for h lc
    by (rule budget_frameI; simp)+
  then show ?thesis using ReloadWait budget_frame_trans [OF _ budget_frame_start_all] budget_frameI [of s s]
    by (cases waits) (auto simp: lifecycle_step_def reload_wait_def split: selected.splits)
next
  case (StartBegin d)
  let ?s = "s\<lparr>sv_holds := (sv_holds s)(d_Name d := False), sv_failures := (sv_failures s)(d_Name d := 0), sv_lifecycle := Idle\<rparr>"
  have s: "budget_frame s ?s" by (rule budget_frameI) simp_all
  then show ?thesis using StartBegin s budget_frame_trans [OF s budget_frame_start] budget_frame_cancelled [OF s]
    by (auto simp: lifecycle_step_def startDefinition_begin_def Let_def split: option.splits)
next
  case (StartLaunch d)
  have s: "budget_frame s (s\<lparr>sv_lifecycle := Idle\<rparr>)" by (rule budget_frameI) simp_all
  then show ?thesis using StartLaunch budget_frame_trans [OF s budget_frame_start]
    by (simp add: lifecycle_step_def startDefinition_launch_def Let_def)
next
  case (RestartCancel d ch cancel)
  then show ?thesis by (simp add: lifecycle_step_def restart_cancel_def budget_frame_cancelled)
next
  case (ResetCommit f)
  show ?thesis
    by (rule budget_frameI)
      (use ResetCommit in \<open>auto simp: lifecycle_step_def resetExhaustion_commit_def Let_def epochLocked_def
         split: option.split\<close>)
qed (rule budget_frameI; auto simp: lifecycle_step_def resetExhaustion_check_def resetExhaustion_clear_def
      startDefinition_wait_def restart_sample_def restart_hold_def restart_stop_def
      restart_spawn_def Let_def split: prod.splits sum.splits selected.splits)+

lemma budget_ok_step:
  assumes "budget_ok s" "registration_ok s" "sv_step Sum256 s s'"
  shows "budget_ok s'"
  using assms(3)
proof cases
  case (sv_step_loop k l a)
  then show ?thesis using budget_ok_loop [OF assms(1,2)] by simp
next
  case (sv_step_lifecycle a)
  then show ?thesis using budget_ok_frame [OF budget_frame_lifecycle assms(1)] by simp
qed (rule budget_ok_frame [OF budget_frameI assms(1)];
     auto simp: Reload_def replace_step_def Let_def Stop_worker_def Stop_call_def Supervisor_BeginShutdown_def
       split: option.splits selected.splits)+

section \<open>Shutdown\<close>

fun for_reload :: "reset_for \<Rightarrow> bool" where
  "for_reload (ForReload _) = True"
| "for_reload _ = False"

fun reloading :: "lifecycle \<Rightarrow> bool" where
  "reloading (ResetCheck f) = for_reload f"
| "reloading (ResetClear f) = for_reload f"
| "reloading (ResetCommit f) = for_reload f"
| "reloading (ReloadScan _) = True"
| "reloading (ReloadWait _ _) = True"
| "reloading _ = False"

definition shutdown_ok :: "supervisor \<Rightarrow> bool" where
  "shutdown_ok s \<longleftrightarrow> (sv_closing s \<longrightarrow> sv_stopped s \<and> (sv_ctx s \<longrightarrow> sv_cancelled s)) \<and>
     ((\<exists>k l. sv_loops s k = Some l) \<longrightarrow> sv_ctx s) \<and> (reloading (sv_lifecycle s) \<longrightarrow> sv_ctx s)"

definition same_flags :: "supervisor \<Rightarrow> supervisor \<Rightarrow> bool" where
  "same_flags s s' \<longleftrightarrow> sv_closing s' = sv_closing s \<and> sv_stopped s' = sv_stopped s \<and> sv_ctx s' = sv_ctx s \<and>
     sv_cancelled s' = sv_cancelled s"

lemma fold_start_flags: "same_flags s (fold start_worker ds s)"
proof (induction ds arbitrary: s)
  case (Cons d ds)
  then show ?case using Cons.IH [of "start_worker d s"] by (simp add: same_flags_def)
qed (simp add: same_flags_def)

lemma fold_start_lifecycle: "sv_lifecycle (fold start_worker ds s) = sv_lifecycle s"
proof (induction ds arbitrary: s)
  case (Cons d ds)
  then show ?case using Cons.IH [of "start_worker d s"] by simp
qed simp

lemma lifecycle_step_flags: "same_flags s (lifecycle_step Sum256 a s)"
proof (cases "sv_lifecycle s")
  case (ReloadWait desired waits)
  then show ?thesis using fold_start_flags [of "s\<lparr>sv_holds := \<lambda>_. False, sv_lifecycle := Idle\<rparr>" desired]
    by (cases waits) (auto simp: lifecycle_step_def reload_wait_def same_flags_def split: selected.splits)
qed (auto simp: same_flags_def lifecycle_step_def resetExhaustion_check_def resetExhaustion_clear_def
      resetExhaustion_commit_def reload_scan_def startDefinition_begin_def startDefinition_wait_def
      startDefinition_launch_def restart_sample_def restart_hold_def restart_stop_def restart_cancel_def
      restart_spawn_def Let_def split: prod.splits sum.splits selected.splits option.splits)

text \<open>An operator starts loops only with the root context in place and before shutdown.\<close>

lemma lifecycle_step_loops:
  assumes "sv_loops s k = None" "sv_loops (lifecycle_step Sum256 a s) k \<noteq> None"
  shows "\<not> sv_closing s \<and> (sv_ctx s \<or> reloading (sv_lifecycle s))"
  using assms
  by (cases "sv_lifecycle s")
    (auto simp: lifecycle_step_def resetExhaustion_check_def resetExhaustion_clear_def
      resetExhaustion_commit_def reload_scan_def reload_wait_def startDefinition_begin_def startDefinition_wait_def
      startDefinition_launch_def restart_sample_def restart_hold_def restart_stop_def restart_cancel_def
      restart_spawn_def launch_allowed_def Let_def cancel_loops_def
      split: prod.splits sum.splits selected.splits option.splits list.splits if_splits)

lemma lifecycle_step_reloading: "reloading (sv_lifecycle (lifecycle_step Sum256 a s)) \<Longrightarrow> reloading (sv_lifecycle s)"
  by (cases "sv_lifecycle s")
    (auto simp: lifecycle_step_def resetExhaustion_check_def resetExhaustion_clear_def
      resetExhaustion_commit_def after_reset_def reload_scan_def reload_wait_def startDefinition_begin_def
      startDefinition_wait_def startDefinition_launch_def restart_sample_def restart_hold_def restart_stop_def
      restart_cancel_def restart_spawn_def Let_def fold_start_lifecycle
      split: prod.splits sum.splits selected.splits option.splits list.splits if_splits reset_for.splits)

lemma lifecycle_step_next_closing: "sv_closing s \<Longrightarrow> sv_next (lifecycle_step Sum256 a s) = sv_next s"
  by (cases "sv_lifecycle s")
    (auto simp: lifecycle_step_def resetExhaustion_check_def resetExhaustion_clear_def
      resetExhaustion_commit_def reload_scan_def reload_wait_def startDefinition_begin_def startDefinition_wait_def
      startDefinition_launch_def restart_sample_def restart_hold_def restart_stop_def restart_cancel_def
      restart_spawn_def launch_allowed_def Let_def
      split: prod.splits sum.splits selected.splits option.splits list.splits)

lemma loop_step_outer:
  assumes "registration_ok s" "sv_loops s k = Some l"
  shows "same_flags s (loop_step a k l s) \<and> sv_lifecycle (loop_step a k l s) = sv_lifecycle s \<and>
     sv_next (loop_step a k l s) = sv_next s \<and>
     (\<exists>l'. sv_loops (loop_step a k l s) = (sv_loops s)(k \<mapsto> l') \<and> lp_def l' = lp_def l \<and> lp_ctx l' = lp_ctx l)"
proof -
  let ?s = "loop_step a k l s"
  have l: "loop_ok s k l" using assms workers_okD(1) by (auto simp: registration_ok_def)
  consider "?s = s" | "lp_pc l = LClean" | l' where "moved k l l' s ?s"
  proof (cases "alive l \<and> lp_pc l \<noteq> LClean")
    case True
    then have "steps_to k l s ?s" using l by (intro loop_step_steps) (auto simp: loop_ok_def)
    then show thesis using that by (auto simp: steps_to_def)
  qed (use that in \<open>auto simp: alive_def loop_step_def\<close>)
  then show ?thesis
  proof cases
    case 1
    have "(sv_loops s)(k \<mapsto> l) = sv_loops s" using assms(2) by (rule fun_upd_idem)
    then have "sv_loops s = (sv_loops s)(k \<mapsto> l) \<and> lp_def l = lp_def l \<and> lp_ctx l = lp_ctx l" by simp
    then show ?thesis unfolding 1 same_flags_def by blast
  next
    case 2
    then have "sv_loops ?s = (sv_loops s)(k \<mapsto> l\<lparr>lp_pc := LEnded\<rparr>)"
      by (auto simp: loop_step_def loop_clean_def Let_def split: option.splits)
    moreover have "same_flags s ?s \<and> sv_lifecycle ?s = sv_lifecycle s \<and> sv_next ?s = sv_next s"
      using 2 by (auto simp: loop_step_def loop_clean_def Let_def same_flags_def split: option.splits)
    ultimately show ?thesis by fastforce
  next
    case (3 l')
    then have "sv_loops ?s = (sv_loops s)(k \<mapsto> l')" "lp_def l' = lp_def l" "lp_ctx l' = lp_ctx l"
      "same_flags s ?s \<and> sv_lifecycle ?s = sv_lifecycle s \<and> sv_next ?s = sv_next s"
      by (auto simp: moved_def outer_def same_flags_def)
    then show ?thesis by blast
  qed
qed

lemma shutdown_ok_step:
  assumes "shutdown_ok s" "registration_ok s" "sv_step Sum256 s s'"
  shows "shutdown_ok s'"
  using assms(3)
proof cases
  case (sv_step_loop k l a)
  then show ?thesis using loop_step_outer [OF assms(2), of k l a] assms(1)
    by (auto simp: shutdown_ok_def same_flags_def)
next
  case (sv_step_lifecycle a)
  then have "sv_ctx s" if "sv_loops s' k = Some l" for k l
    using lifecycle_step_loops [of s k Sum256 a] assms(1) that by (cases "sv_loops s k") (auto simp: shutdown_ok_def)
  then show ?thesis
    using sv_step_lifecycle lifecycle_step_flags [of s Sum256 a] lifecycle_step_reloading [of Sum256 a s] assms(1)
    unfolding shutdown_ok_def same_flags_def by metis
next
  case (sv_step_replace rp a)
  have "same_flags s s'" "sv_loops s' = sv_loops s" "reloading (sv_lifecycle s') \<Longrightarrow> reloading (sv_lifecycle s)"
    using sv_step_replace
    by (auto simp: replace_step_def Let_def same_flags_def split: option.splits selected.splits if_splits)
  then show ?thesis using assms(1) unfolding shutdown_ok_def same_flags_def by metis
qed (use assms(1) in \<open>auto simp: shutdown_ok_def Reload_def Stop_worker_def Stop_call_def Supervisor_BeginShutdown_def\<close>)

lemma closing_step:
  assumes "registration_ok s" "sv_closing s" "sv_step Sum256 s s'"
  shows "sv_closing s' \<and> sv_next s' = sv_next s"
  using assms(3)
proof cases
  case (sv_step_loop k l a)
  then show ?thesis using loop_step_outer [OF assms(1), of k l a] assms(2) by (simp add: same_flags_def)
next
  case (sv_step_lifecycle a)
  then show ?thesis using lifecycle_step_flags [of s Sum256 a] lifecycle_step_next_closing [OF assms(2)] assms(2)
    by (simp add: same_flags_def)
qed (use assms(2) in \<open>auto simp: Reload_def replace_step_def Let_def Stop_worker_def Stop_call_def
      Supervisor_BeginShutdown_def split: option.splits selected.splits\<close>)

section \<open>The invariant\<close>

definition supervisor_inv :: "supervisor \<Rightarrow> bool" where
  "supervisor_inv s \<longleftrightarrow> registration_ok s \<and> holds_ok s \<and> budget_ok s \<and> shutdown_ok s"

lemma supervisor_inv_start: "sv_start s \<Longrightarrow> supervisor_inv s"
  by (auto simp: sv_start_def New_Supervisor_def supervisor_inv_def registration_ok_def workers_ok_def
      registered_ok_def fresh_ok_def lifecycle_ok_def holds_ok_def budget_ok_def shutdown_ok_def)

interpretation supervision: invariant_system sv_start "sv_step Sum256" supervisor_inv for Sum256
proof
  show "supervisor_inv s" if "sv_start s" for s using supervisor_inv_start that .
  show "supervisor_inv t" if "supervisor_inv s" "sv_step Sum256 s t" for s t
    using that registration_ok_step holds_ok_step budget_ok_step shutdown_ok_step
    unfolding supervisor_inv_def by blast
qed

end
