(* ===== verification/Supervisor_Properties.thy ===== *)
theory Supervisor_Properties
  imports Supervisor_Invariant
begin

text \<open>
  Properties of the worker supervisor: one loop per worker, holds that stop what they find running,
  the failure budget, the end of every loop after shutdown, and the closed form of the restart delay.
\<close>

section \<open>Ending a cancelled loop\<close>

definition run_loop :: "nat \<Rightarrow> answers \<Rightarrow> supervisor \<Rightarrow> supervisor" where
  "run_loop k a s = (case sv_loops s k of None \<Rightarrow> s | Some l \<Rightarrow> loop_step a k l s)"

text \<open>Answers that come: the run has finished, and a poll of the stored row that finds both its timer due and its context
  cancelled takes the context.\<close>

fun polling :: "loop_pc \<Rightarrow> bool" where
  "polling (LPoll _ _) = True"
| "polling _ = False"

definition responsive :: "worker_loop \<Rightarrow> answers \<Rightarrow> bool" where
  "responsive l a \<longleftrightarrow> an_wait a = Some True \<and> (polling (lp_pc l) \<and> an_timer a \<longrightarrow> an_ctx_first a)"

text \<open>How many steps of its own a cancelled loop has left at most.\<close>

fun rank :: "loop_pc \<Rightarrow> nat" where
  "rank LEnded = 0"
| "rank LClean = 1"
| "rank (LDeferJoin _) = 2"
| "rank (LDeferStop _) = 3"
| "rank LDefer = 4"
| "rank LTop = 5"
| "rank (LCtxJoin _) = 5"
| "rank (LCtxStop _) = 6"
| "rank LTrigger = 13"
| "rank (LActivate _) = 12"
| "rank (LHoldStop _) = 11"
| "rank (LWait _) = 10"
| "rank (LDeactivate _) = 9"
| "rank (LOutcome _) = 8"
| "rank (LTerminal _ _) = 7"
| "rank (LPoll _ _) = 5"
| "rank (LAbandoned _) = 6"
| "rank (LDecide _) = 6"
| "rank (LRestart _ _ _) = 5"
| "rank (LExhaust _ _ _ _) = 7"
| "rank (LPersist _ _ _ _) = 8"
| "rank (LPersistWait _ _ _ _) = 8"
| "rank (LRetire _ _) = 7"
| "rank (LDelay _) = 6"

lemma rank_bound: "rank pc \<le> 13"
  by (cases pc) simp_all

fun persisting :: "loop_pc \<Rightarrow> bool" where
  "persisting (LPersist _ _ _ _) = True"
| "persisting _ = False"

text \<open>What one such step brings about for its loop.\<close>

definition sinks :: "nat \<Rightarrow> worker_loop \<Rightarrow> supervisor \<Rightarrow> bool" where
  "sinks k l s' \<longleftrightarrow> (\<exists>l'. sv_loops s' k = Some l' \<and> rank (lp_pc l') < rank (lp_pc l) \<and> ended l' s' \<and> \<not> sv_stateMu s')"

lemma sinks_goto:
  assumes "lp_ctx l1 = lp_ctx l" "ended l s1" "rank pc < rank (lp_pc l)" "\<not> sv_stateMu s1"
  shows "sinks k l (goto k l1 pc s1)"
  using assms by (auto simp: sinks_def ended_def)

lemma loop_step_sinks:
  assumes "ended l s" "sv_stateMu s \<longrightarrow> persisting (lp_pc l)" "responsive l a" "lp_pc l \<noteq> LEnded"
  shows "sinks k l (loop_step a k l s)"
proof (cases "lp_pc l")
  case LTrigger
  then show ?thesis using assms unfolding loop_step_def loop_trigger_def Let_def
    by (cases "an_trigger a") (auto split: option.splits intro!: sinks_goto)
next
  case (LPersist ep n x dl)
  then show ?thesis using assms unfolding loop_step_def persistExhaustion_write_def Let_def
    by (auto split: prod.splits sum.splits intro!: sinks_goto)
next
  case LClean
  then show ?thesis using assms
    by (auto simp: loop_step_def loop_clean_def sinks_def ended_def Let_def split: option.splits)
qed (use assms in \<open>auto simp: loop_step_def loop_top_def loop_activate_def loop_wait_def loop_ctx_join_def
      loop_outcome_def terminalRun_def terminal_poll_def loop_abandoned_def loop_decide_def restartAfter_def
      persistExhaustion_note_def persistExhaustion_wait_def restart_retire_def restart_delay_def loop_defer_def
      loop_defer_join_def stopRun_def deactivate_def responsive_def select_case_def Let_def
      split: option.splits sum.splits intro!: sinks_goto\<close>)

lemma loop_step_ended: "lp_pc l = LEnded \<Longrightarrow> loop_step a k l s = s"
  by (simp add: loop_step_def)

text \<open>\<open>paced Sum256 k n s t\<close>: an execution from \<open>s\<close> to \<open>t\<close> in which the loop \<open>k\<close> takes \<open>n\<close> steps of its own with answers that
  come and with \<^verbatim>\<open>stateMu\<close> free or its own, and anything else may happen between them.\<close>

inductive paced :: "(definition_rec \<Rightarrow> string) \<Rightarrow> nat \<Rightarrow> nat \<Rightarrow> supervisor \<Rightarrow> supervisor \<Rightarrow> bool"
  for Sum256 :: "definition_rec \<Rightarrow> string" and k :: nat where
  paced_start: "paced Sum256 k 0 s s"
| paced_other: "paced Sum256 k n s t \<Longrightarrow> sv_step Sum256 t u \<Longrightarrow>
     map_option lp_pc (sv_loops u k) = map_option lp_pc (sv_loops t k) \<Longrightarrow> paced Sum256 k n s u"
| paced_own: "paced Sum256 k n s t \<Longrightarrow> sv_loops t k = Some l \<Longrightarrow> responsive l a \<Longrightarrow>
     (sv_stateMu t \<Longrightarrow> persisting (lp_pc l)) \<Longrightarrow> paced Sum256 k (Suc n) s (loop_step a k l t)"

section \<open>The mutex of the exhaustion records\<close>

fun resetting :: "lifecycle \<Rightarrow> bool" where
  "resetting (ResetClear _) = True"
| "resetting (ResetCommit _) = True"
| "resetting _ = False"

definition persisters :: "supervisor \<Rightarrow> nat set" where
  "persisters s = {k. \<exists>l. sv_loops s k = Some l \<and> persisting (lp_pc l)}"

text \<open>\<^verbatim>\<open>stateMu\<close> is held exactly when one loop writes its record or one operator resets, and never by both.\<close>

definition mutex_ok :: "supervisor \<Rightarrow> bool" where
  "mutex_ok s \<longleftrightarrow> (if sv_stateMu s then (\<exists>k. persisters s = {k} \<and> \<not> resetting (sv_lifecycle s)) \<or>
       (persisters s = {} \<and> resetting (sv_lifecycle s))
     else persisters s = {} \<and> \<not> resetting (sv_lifecycle s))"

lemma mutex_ok_cong:
  "sv_stateMu s' = sv_stateMu s \<Longrightarrow> persisters s' = persisters s \<Longrightarrow> resetting (sv_lifecycle s') = resetting (sv_lifecycle s) \<Longrightarrow>
   mutex_ok s' = mutex_ok s"
  by (simp add: mutex_ok_def)

lemma loop_step_mutex:
  assumes "sv_loops s k = Some l"
  shows "if persisting (lp_pc l) then k \<notin> persisters (loop_step a k l s) \<and> \<not> sv_stateMu (loop_step a k l s)
     else if k \<in> persisters (loop_step a k l s) then \<not> sv_stateMu s \<and> sv_stateMu (loop_step a k l s)
     else sv_stateMu (loop_step a k l s) = sv_stateMu s"
proof (cases "lp_pc l")
  case LTrigger
  then show ?thesis using assms unfolding loop_step_def loop_trigger_def Let_def
    by (cases "an_trigger a") (auto simp: persisters_def split: option.splits)
next
  case (LPersist ep n x dl)
  then show ?thesis using assms unfolding loop_step_def persistExhaustion_write_def Let_def
    by (auto simp: persisters_def split: prod.splits sum.splits)
next
  case LClean
  then show ?thesis using assms by (auto simp: loop_step_def loop_clean_def persisters_def Let_def split: option.splits)
qed (use assms in \<open>auto simp: loop_step_def loop_top_def loop_activate_def loop_wait_def loop_ctx_join_def
      loop_outcome_def terminalRun_def terminal_poll_def loop_abandoned_def loop_decide_def restartAfter_def
      persistExhaustion_note_def persistExhaustion_wait_def restart_retire_def restart_delay_def loop_defer_def
      loop_defer_join_def stopRun_def deactivate_def select_case_def persisters_def Let_def
      split: option.splits sum.splits\<close>)

lemma mutex_ok_loop:
  assumes "registration_ok s" "mutex_ok s" "sv_loops s k = Some l"
  shows "mutex_ok (loop_step a k l s)"
proof -
  let ?s = "loop_step a k l s"
  from loop_step_outer [OF assms(1,3), of a] obtain l' where
    lc: "sv_lifecycle ?s = sv_lifecycle s" and loops: "sv_loops ?s = (sv_loops s)(k \<mapsto> l')" by blast
  have others: "persisters ?s - {k} = persisters s - {k}" by (auto simp: persisters_def loops)
  note step = loop_step_mutex [OF assms(3), of a]
  show ?thesis
  proof (cases "persisting (lp_pc l)")
    case True
    then have "k \<in> persisters s" using assms(3) by (auto simp: persisters_def)
    then have "persisters s = {k}" "\<not> resetting (sv_lifecycle s)" using assms(2) by (auto simp: mutex_ok_def split: if_splits)
    then show ?thesis using step True others by (simp add: mutex_ok_def lc)
  next
    case False
    then have out: "k \<notin> persisters s" using assms(3) by (auto simp: persisters_def)
    show ?thesis
    proof (cases "k \<in> persisters ?s")
      case True
      then have "persisters s = {}" "\<not> resetting (sv_lifecycle s)" "sv_stateMu ?s"
        using step False assms(2) by (simp_all add: mutex_ok_def)
      moreover then have "persisters ?s = {k}" using True others by auto
      ultimately show ?thesis by (simp add: mutex_ok_def lc)
    next
      case no: False
      then have "persisters ?s = persisters s" using out others by blast
      then show ?thesis using step False no assms(2) mutex_ok_cong [of ?s s] by (simp add: lc)
    qed
  qed
qed

text \<open>The steps of operators leave every loop where it is and start new ones at the top.\<close>

definition new_or_kept :: "supervisor \<Rightarrow> supervisor \<Rightarrow> bool" where
  "new_or_kept s s' \<longleftrightarrow> (\<forall>k l'. sv_loops s' k = Some l' \<longrightarrow> lp_pc l' = LTop \<or> (\<exists>l. sv_loops s k = Some l \<and> ctx_upto l l'))"

lemma new_or_keptI: "sv_loops s' = sv_loops s \<Longrightarrow> new_or_kept s s'"
  by (auto simp: new_or_kept_def)

lemma new_or_kept_trans: "new_or_kept s t \<Longrightarrow> new_or_kept t u \<Longrightarrow> new_or_kept s u"
  unfolding new_or_kept_def ctx_upto_def by (smt (verit))

lemma new_or_kept_start: "new_or_kept s (start_worker d s)"
  by (auto simp: new_or_kept_def split: if_splits)

lemma new_or_kept_start_all: "new_or_kept s (fold start_worker ds s)"
proof (induction ds arbitrary: s)
  case (Cons d ds)
  show ?case using new_or_kept_trans [OF new_or_kept_start [of s d] Cons.IH] by simp
qed (simp add: new_or_keptI)

lemma new_or_kept_cancel: "new_or_kept s (cancel_loops ks s)"
  using cancel_loops_rel [of s _ ks] by (auto simp: new_or_kept_def) (metis option_rel_Some2)

lemma lifecycle_step_kept: "new_or_kept s (lifecycle_step Sum256 a s)"
proof -
  have cancel: "new_or_kept s ((cancel_loops ks s1)\<lparr>sv_lifecycle := lc\<rparr>)" if "sv_loops s1 = sv_loops s" for ks s1 lc
    using new_or_kept_trans [OF new_or_keptI [OF that] new_or_kept_cancel [of s1 ks]] by (simp add: new_or_kept_def)
  have launch: "new_or_kept s (fold start_worker ds s1)" if "sv_loops s1 = sv_loops s" for ds s1
    using new_or_kept_trans [OF new_or_keptI [OF that] new_or_kept_start_all] .
  have launch1: "new_or_kept s (start_worker d s1)" if "sv_loops s1 = sv_loops s" for d s1
    using new_or_kept_trans [OF new_or_keptI [OF that] new_or_kept_start] .
  show ?thesis
    by (cases "sv_lifecycle s")
      (auto simp: lifecycle_step_def reload_scan_def reload_wait_def startDefinition_begin_def startDefinition_launch_def
        restart_cancel_def resetExhaustion_check_def resetExhaustion_clear_def resetExhaustion_commit_def
        startDefinition_wait_def restart_sample_def restart_hold_def restart_stop_def restart_spawn_def Let_def
        intro!: new_or_keptI cancel launch launch1 split: prod.splits sum.splits selected.splits option.splits list.splits)
qed

lemma operator_pcs:
  assumes "operator_frame s s'" "new_or_kept s s'" "\<And>d. \<not> P LTop d"
  shows "(\<exists>l'. sv_loops s' k = Some l' \<and> P (lp_pc l') (lp_def l')) \<longleftrightarrow> (\<exists>l. sv_loops s k = Some l \<and> P (lp_pc l) (lp_def l))"
proof
  assume "\<exists>l'. sv_loops s' k = Some l' \<and> P (lp_pc l') (lp_def l')"
  then show "\<exists>l. sv_loops s k = Some l \<and> P (lp_pc l) (lp_def l)"
    using assms(2,3) unfolding new_or_kept_def ctx_upto_def by metis
next
  assume "\<exists>l. sv_loops s k = Some l \<and> P (lp_pc l) (lp_def l)"
  then show "\<exists>l'. sv_loops s' k = Some l' \<and> P (lp_pc l') (lp_def l')"
    using assms(1) unfolding operator_frame_def ctx_upto_def by metis
qed

lemma operator_persisters: "operator_frame s s' \<Longrightarrow> new_or_kept s s' \<Longrightarrow> persisters s' = persisters s"
  using operator_pcs [of s s' "\<lambda>pc _. persisting pc"] by (simp add: persisters_def)

lemma lifecycle_step_resetting:
  "sv_stateMu (lifecycle_step Sum256 a s) = (if resetting (sv_lifecycle (lifecycle_step Sum256 a s)) then True
     else if resetting (sv_lifecycle s) then False else sv_stateMu s) \<and>
   (resetting (sv_lifecycle (lifecycle_step Sum256 a s)) \<longrightarrow> resetting (sv_lifecycle s) \<or> \<not> sv_stateMu s)"
  if "resetting (sv_lifecycle s) \<longrightarrow> sv_stateMu s"
proof -
  have launch [simp]: "sv_stateMu (start_worker d t) = sv_stateMu t" for d t
    by (simp add: startLocked_def worker_launch_def Let_def)
  have cancel [simp]: "sv_stateMu (cancel_loops ks t) = sv_stateMu t" for ks t by (simp add: cancel_loops_def)
  have fold [simp]: "sv_stateMu (fold start_worker ds t) = sv_stateMu t" for ds t
    by (induction ds arbitrary: t) simp_all
  show ?thesis using that
    by (cases "sv_lifecycle s")
      (auto simp: lifecycle_step_def reload_scan_def reload_wait_def startDefinition_begin_def startDefinition_launch_def
        restart_cancel_def resetExhaustion_check_def resetExhaustion_clear_def resetExhaustion_commit_def after_reset_def
        startDefinition_wait_def restart_sample_def restart_hold_def restart_stop_def restart_spawn_def Let_def
        fold_start_lifecycle split: prod.splits sum.splits selected.splits option.splits list.splits reset_for.splits)
qed

lemma mutex_ok_step:
  assumes "registration_ok s" "mutex_ok s" "sv_step Sum256 s s'"
  shows "mutex_ok s'"
  using assms(3)
proof cases
  case (sv_step_loop k l a)
  then show ?thesis using mutex_ok_loop [OF assms(1,2)] by simp
next
  case (sv_step_lifecycle a)
  have "persisters s' = persisters s"
    unfolding sv_step_lifecycle
    using operator_persisters [OF lifecycle_step_frame lifecycle_step_kept] assms(1) by (simp add: registration_ok_def)
  moreover have "resetting (sv_lifecycle s) \<longrightarrow> sv_stateMu s" using assms(2) by (auto simp: mutex_ok_def split: if_splits)
  ultimately show ?thesis
    using lifecycle_step_resetting [of s Sum256 a] assms(2) unfolding sv_step_lifecycle mutex_ok_def
    by (cases "resetting (sv_lifecycle s)"; cases "resetting (sv_lifecycle (lifecycle_step Sum256 a s))"; cases "sv_stateMu s") simp_all
next
  case (sv_step_replace rp a)
  have "sv_loops s' = sv_loops s \<and> sv_stateMu s' = sv_stateMu s \<and> resetting (sv_lifecycle s') = resetting (sv_lifecycle s)"
    unfolding sv_step_replace by (auto simp: replace_step_def Let_def split: option.splits selected.splits)
  then show ?thesis using assms(2) mutex_ok_cong [of s' s] by (simp add: persisters_def)
qed (use assms(2) in \<open>auto simp: mutex_ok_def persisters_def Reload_def Let_def Stop_worker_def Stop_call_def
      Supervisor_BeginShutdown_def\<close>)

interpretation state_mutex: invariant_system sv_start "sv_step Sum256" "\<lambda>s. supervisor_inv s \<and> mutex_ok s" for Sum256
proof
  show "supervisor_inv s \<and> mutex_ok s" if "sv_start s" for s
    using supervisor_inv_start [OF that] that by (auto simp: sv_start_def New_Supervisor_def mutex_ok_def persisters_def)
  show "supervisor_inv t \<and> mutex_ok t" if "supervisor_inv s \<and> mutex_ok s" "sv_step Sum256 s t" for s t
    using that supervision.inv_step mutex_ok_step unfolding supervisor_inv_def by blast
qed

abbreviation (input) supervised :: "(definition_rec \<Rightarrow> string) \<Rightarrow> supervisor \<Rightarrow> bool" where
  "supervised Sum256 s \<equiv> reachable sv_start (sv_step Sum256) s"

lemma supervised_inv: "supervised Sum256 s \<Longrightarrow> supervisor_inv s"
  by (rule supervision.reachable_inv)

lemma reset_releases:
  "resetting (sv_lifecycle s) \<Longrightarrow> \<not> sv_stateMu (lifecycle_step Sum256 a s) \<or>
     \<not> sv_stateMu (lifecycle_step Sum256 a' (lifecycle_step Sum256 a s))"
  by (cases "sv_lifecycle s")
    (auto simp: lifecycle_step_def resetExhaustion_clear_def resetExhaustion_commit_def after_reset_def Let_def
      split: prod.splits sum.splits option.splits reset_for.splits)

lemma stateMu_released:
  assumes "supervised Sum256 s"
  shows "sv_stateMu s \<longrightarrow>
     (\<exists>j m. sv_loops s j = Some m \<and> persisting (lp_pc m) \<and> \<not> sv_stateMu (loop_step a j m s)) \<or>
     \<not> sv_stateMu (lifecycle_step Sum256 a s) \<or> \<not> sv_stateMu (lifecycle_step Sum256 a' (lifecycle_step Sum256 a s))"
proof
  assume mu: "sv_stateMu s"
  have "mutex_ok s" using state_mutex.reachable_inv [OF assms] by simp
  with mu have "persisters s \<noteq> {} \<or> resetting (sv_lifecycle s)" unfolding mutex_ok_def by auto
  then consider j m where "sv_loops s j = Some m" "persisting (lp_pc m)" | "resetting (sv_lifecycle s)"
    by (auto simp: persisters_def)
  then show "(\<exists>j m. sv_loops s j = Some m \<and> persisting (lp_pc m) \<and> \<not> sv_stateMu (loop_step a j m s)) \<or>
     \<not> sv_stateMu (lifecycle_step Sum256 a s) \<or> \<not> sv_stateMu (lifecycle_step Sum256 a' (lifecycle_step Sum256 a s))"
  proof cases
    case 1
    then show ?thesis using loop_step_mutex [of s j m a] by auto
  next
    case 2
    then show ?thesis using reset_releases by blast
  qed
qed

lemma sv_step_others:
  assumes "registration_ok s" "sv_step Sum256 s s'" "sv_loops s k = Some l"
  shows "(\<exists>a. s' = loop_step a k l s) \<or> map_option lp_pc (sv_loops s' k) = Some (lp_pc l)"
  using assms(2)
proof cases
  case (sv_step_loop j m a)
  then show ?thesis using loop_step_outer [OF assms(1), of j m a] assms(3) by (cases "j = k") auto
next
  case (sv_step_lifecycle a)
  have "operator_frame s s'"
    using lifecycle_step_frame [of s Sum256 a] assms(1) sv_step_lifecycle by (simp add: registration_ok_def)
  then show ?thesis using assms(3) unfolding operator_frame_def ctx_upto_def by fastforce
qed (use assms(3) in \<open>force simp: Reload_def replace_step_def Let_def Stop_worker_def Stop_call_def
      Supervisor_BeginShutdown_def split: option.splits selected.splits\<close>)+

lemma closing_ended:
  assumes "supervised Sum256 s" "sv_closing s" "sv_loops s k = Some l"
  shows "ended l s"
  using supervised_inv [OF assms(1)] assms(2,3) unfolding supervisor_inv_def shutdown_ok_def ended_def by blast

lemma rank_zero: "rank pc = 0 \<longleftrightarrow> pc = LEnded"
  by (cases pc) simp_all

lemma paced_sinks:
  assumes "paced Sum256 k n s t" "supervised Sum256 s" "sv_closing s" "sv_loops s k = Some l"
  shows "supervised Sum256 t \<and> sv_closing t \<and> (\<exists>l'. sv_loops t k = Some l' \<and> rank (lp_pc l') \<le> rank (lp_pc l) - n)"
  using assms
proof induction
  case (paced_start s)
  then show ?case by simp
next
  case (paced_other n s t u)
  then obtain l' where t: "supervised Sum256 t" "sv_closing t" "sv_loops t k = Some l'" "rank (lp_pc l') \<le> rank (lp_pc l) - n"
    by blast
  then have "sv_closing u"
    using closing_step [OF _ _ paced_other.hyps(2)] supervised_inv [OF t(1)] by (simp add: supervisor_inv_def)
  then show ?case using t paced_other.hyps(3) reachable_step [OF t(1) paced_other.hyps(2)] by force
next
  case (paced_own n s t m a)
  then obtain t: "supervised Sum256 t" "sv_closing t" and r: "rank (lp_pc m) \<le> rank (lp_pc l) - n" by auto
  have step: "sv_step Sum256 t (loop_step a k m t)" by (rule sv_step_loop [OF paced_own.hyps(2)])
  have keep: "supervised Sum256 (loop_step a k m t)" "sv_closing (loop_step a k m t)"
    using reachable_step [OF t(1) step] closing_step [OF _ t(2) step] supervised_inv [OF t(1)] by (auto simp: supervisor_inv_def)
  show ?case
  proof (cases "lp_pc m = LEnded")
    case True
    then show ?thesis using keep paced_own.hyps(2) by (auto simp: loop_step_ended)
  next
    case False
    have "sinks k m (loop_step a k m t)"
      using loop_step_sinks [OF closing_ended [OF t paced_own.hyps(2)] _ paced_own.hyps(3) False] paced_own.hyps(4) by blast
    then show ?thesis using keep r by (fastforce simp: sinks_def)
  qed
qed

section \<open>Triggers of a held worker\<close>

definition triggering :: "string \<Rightarrow> supervisor \<Rightarrow> nat set" where
  "triggering n s = {k. \<exists>l. sv_loops s k = Some l \<and> lp_pc l = LTrigger \<and> worker_name l = n}"

definition trigger_calls :: "string \<Rightarrow> supervisor \<Rightarrow> nat" where
  "trigger_calls n s = count_list (sv_calls s) (CallTrigger n)"

lemma loop_step_triggers:
  assumes "sv_loops s k = Some l" "sv_holds s n"
  shows "k \<notin> triggering n (loop_step a k l s) \<and>
     trigger_calls n (loop_step a k l s) = trigger_calls n s + (if k \<in> triggering n s then 1 else 0)"
proof (cases "lp_pc l")
  case LTrigger
  then show ?thesis using assms unfolding loop_step_def loop_trigger_def Let_def
    by (cases "an_trigger a") (auto simp: triggering_def trigger_calls_def split: option.splits)
next
  case (LPersist ep n x dl)
  then show ?thesis using assms unfolding loop_step_def persistExhaustion_write_def Let_def
    by (auto simp: triggering_def trigger_calls_def split: prod.splits sum.splits)
next
  case LClean
  then show ?thesis using assms
    by (auto simp: loop_step_def loop_clean_def triggering_def trigger_calls_def Let_def split: option.splits)
qed (use assms in \<open>auto simp: loop_step_def loop_top_def loop_activate_def loop_wait_def loop_ctx_join_def
      loop_outcome_def terminalRun_def terminal_poll_def loop_abandoned_def loop_decide_def restartAfter_def
      persistExhaustion_note_def persistExhaustion_wait_def restart_retire_def restart_delay_def loop_defer_def
      loop_defer_join_def stopRun_def deactivate_def select_case_def held_def triggering_def trigger_calls_def Let_def
      split: option.splits sum.splits\<close>)

lemma lifecycle_step_triggers: "trigger_calls n (lifecycle_step Sum256 a s) = trigger_calls n s"
proof -
  have fold [simp]: "sv_calls (fold start_worker ds t) = sv_calls t" for ds t
    by (induction ds arbitrary: t) simp_all
  show ?thesis
    by (cases "sv_lifecycle s")
      (auto simp: lifecycle_step_def reload_scan_def reload_wait_def startDefinition_begin_def startDefinition_launch_def
        restart_cancel_def resetExhaustion_check_def resetExhaustion_clear_def resetExhaustion_commit_def after_reset_def
        startDefinition_wait_def restart_sample_def restart_hold_def restart_stop_def restart_spawn_def Let_def
        trigger_calls_def split: prod.splits sum.splits selected.splits option.splits list.splits reset_for.splits)
qed

text \<open>While the hold lasts, the triggers already made plus the one a loop past its check is about to make never grow.\<close>

lemma held_step_triggers:
  assumes "registration_ok s" "sv_holds s n" "sv_step Sum256 s t"
  shows "trigger_calls n t + of_bool (triggering n t \<noteq> {}) \<le> trigger_calls n s + of_bool (triggering n s \<noteq> {})"
  using assms(3)
proof cases
  case (sv_step_loop k l a)
  obtain l' where loops: "sv_loops t = (sv_loops s)(k \<mapsto> l')"
    using loop_step_outer [OF assms(1), of k l a] sv_step_loop by blast
  have others: "triggering n t - {k} = triggering n s - {k}" by (auto simp: triggering_def loops)
  have w: "workers_ok s" using assms(1) by (simp add: registration_ok_def)
  have only: "triggering n s = {k}" if k: "k \<in> triggering n s"
  proof -
    have "j = k" if j: "j \<in> triggering n s" for j
    proof -
      from j k obtain l1 l2 where "sv_loops s j = Some l1" "lp_pc l1 = LTrigger" "worker_name l1 = n"
        "sv_loops s k = Some l2" "lp_pc l2 = LTrigger" "worker_name l2 = n" unfolding triggering_def by blast
      then show ?thesis by (intro same_worker_same_loop [OF w, of j l1 k l2]) (simp_all add: alive_def)
    qed
    then show ?thesis using k by blast
  qed
  show ?thesis
    using loop_step_triggers [OF sv_step_loop(2) assms(2), of a] others only unfolding sv_step_loop(1) [symmetric]
    by (cases "k \<in> triggering n s") auto
next
  case (sv_step_lifecycle a)
  have "triggering n t = triggering n s"
    unfolding sv_step_lifecycle triggering_def
    using operator_pcs [OF lifecycle_step_frame lifecycle_step_kept, of s "\<lambda>pc d. pc = LTrigger \<and> d_Name d = n"] assms(1)
    by (simp add: registration_ok_def)
  then show ?thesis using lifecycle_step_triggers [of n Sum256 a s] unfolding sv_step_lifecycle by simp
next
  case (sv_step_replace rp a)
  have "sv_loops t = sv_loops s \<and> sv_calls t = sv_calls s"
    unfolding sv_step_replace by (auto simp: replace_step_def Let_def split: option.splits selected.splits)
  then show ?thesis by (simp add: triggering_def trigger_calls_def)
qed (auto simp: triggering_def trigger_calls_def Reload_def Let_def Stop_worker_def Stop_call_def Supervisor_BeginShutdown_def)

lemma held_triggers:
  assumes "(\<lambda>s t. sv_step Sum256 s t \<and> sv_holds s n)\<^sup>*\<^sup>* s t" "supervised Sum256 s"
  shows "supervised Sum256 t \<and>
     trigger_calls n t + of_bool (triggering n t \<noteq> {}) \<le> trigger_calls n s + of_bool (triggering n s \<noteq> {})"
  using assms(1)
proof induction
  case (step t u)
  then have "registration_ok t" using supervised_inv by (auto simp: supervisor_inv_def)
  then show ?case using held_step_triggers [of t n Sum256 u] step reachable_step by fastforce
qed (use assms(2) in simp)

section \<open>The restart delay\<close>

lemma doubled_closed_form:
  assumes "0 \<le> delay" "limit \<le> max_int64 div 2"
  shows "min (doubled n limit delay) limit = min (delay * 2 ^ n) limit"
  using assms(1)
proof (induction n arbitrary: delay)
  case (Suc n)
  show ?case
  proof (cases "delay < limit")
    case True
    then have "fits64 (delay * 2)" using Suc.prems assms(2) by (simp add: fits64_nonneg max_int64_def)
    then show ?thesis using Suc.IH [of "delay * 2"] Suc.prems True by (simp add: wrap64_id algebra_simps)
  next
    case False
    have "delay * 1 \<le> delay * 2 ^ Suc n"
      using Suc.prems by (intro mult_left_mono one_le_power) simp_all
    then show ?thesis using False by simp
  qed
qed simp

section \<open>Properties\<close>

text \<open>C20: whatever the interleaving of reloads, starts, restarts, stops, shutdown, worker loops and
  failing database calls, a worker has at most one supervision loop that has not ended, that loop is
  the one its cancel function, its done channel and its definition are registered for, and a run is
  recorded as active only while the loop of that worker is waiting for it.\<close>

theorem supervisor_single_instance:
  assumes "supervised Sum256 s"
  shows "(sv_loops s k = Some l \<and> alive l \<and> sv_loops s k' = Some l' \<and> alive l' \<and>
            d_Name (lp_def l) = d_Name (lp_def l') \<longrightarrow> k = k') \<and>
     (sv_loops s k = Some l \<and> alive l \<longrightarrow>
        map_of (sv_workerCancels s) (d_Name (lp_def l)) = Some k \<and>
        sv_workerDone s (d_Name (lp_def l)) = Some k \<and>
        sv_workerDefs s (d_Name (lp_def l)) = Some (lp_def l)) \<and>
     (sv_active s n = Some rid \<longrightarrow>
        (\<exists>k l. sv_loops s k = Some l \<and> alive l \<and> d_Name (lp_def l) = n \<and> run_of (lp_pc l) = Some rid))"
proof -
  have w: "workers_ok s" using supervised_inv [OF assms] by (simp add: supervisor_inv_def registration_ok_def)
  have "\<exists>k l. sv_loops s k = Some l \<and> alive l \<and> d_Name (lp_def l) = n \<and> run_of (lp_pc l) = Some rid"
    if active: "sv_active s n = Some rid"
  proof -
    obtain k where k: "map_of (sv_workerCancels s) n = Some k"
      using workers_okD(2) [OF w, of n] active by (cases "map_of (sv_workerCancels s) n") (auto simp: registered_ok_def)
    then obtain l where l: "sv_loops s k = Some l" "alive l" "worker_name l = n"
      using registeredD [OF w] by blast
    then show ?thesis using workers_okD(1) [OF w l(1)] active by (auto simp: loop_ok_def)
  qed
  then show ?thesis using same_worker_same_loop [OF w] workers_okD(1) [OF w, of k l]
    unfolding loop_ok_def by blast
qed


text \<open>C22: in the fixed-delay mode (no \<^verbatim>\<open>restart_backoff_max\<close>) a loop that is not being
  cancelled is about to trigger a run only while fewer consecutive failures than
  \<^verbatim>\<open>max_restart_attempts\<close> are counted against the worker; once the budget is used up no further run is
  started until an operator resets it.\<close>

theorem restart_budget:
  assumes "supervised Sum256 s" "sv_loops s k = Some l" "lp_pc l = LTop \<or> lp_pc l = LTrigger"
    "\<not> ended l s" "d_RestartBackoffMax (lp_def l) \<le> 0" "1 \<le> d_MaxRestartAttempts (lp_def l)"
  shows "sv_failures s (d_Name (lp_def l)) < d_MaxRestartAttempts (lp_def l)"
proof -
  have "within_budget s l"
    using supervised_inv [OF assms(1)] assms(2) by (simp add: supervisor_inv_def budget_ok_def)
  then show ?thesis using assms(3-6) by (auto simp: within_budget_def limited_def)
qed


text \<open>The doubling loop of \<^verbatim>\<open>restartDelay\<close> computes the closed form
  \<^verbatim>\<open>min(restart_delay * 2^(failures-1), restart_backoff_max)\<close>, the plain
  \<^verbatim>\<open>restart_delay\<close> without a maximum, for every delay and maximum a 64-bit duration can double.\<close>

lemma restartDelay_closed_form:
  assumes "0 \<le> d_RestartDelay d" "d_RestartDelay d \<le> 4611686018"
    "0 \<le> d_RestartBackoffMax d" "d_RestartBackoffMax d \<le> 4611686018"
  shows "restartDelay d failures =
     (if d_RestartBackoffMax d = 0 then d_RestartDelay d * Second
      else min (d_RestartDelay d * Second * 2 ^ nat (failures - 1)) (d_RestartBackoffMax d * Second))"
proof -
  have w: "wrap64 (d_RestartDelay d * Second) = d_RestartDelay d * Second"
    "wrap64 (d_RestartBackoffMax d * Second) = d_RestartBackoffMax d * Second"
    using assms by (auto simp: fits64_nonneg max_int64_def intro!: wrap64_id)
  have "d_RestartBackoffMax d * Second \<le> max_int64 div 2" using assms(4) by (simp add: max_int64_def)
  then show ?thesis
    using doubled_closed_form [of "d_RestartDelay d * Second" "d_RestartBackoffMax d * Second"] assms(1,3)
    by (simp add: restartDelay_def Let_def w)
qed

section \<open>Witnesses\<close>

text \<open>A worker under supervision: loaded, started, and waiting for its run.\<close>

definition web_worker :: definition_rec where
  "web_worker = zero_definition\<lparr>d_Name := ''web'', d_Kind := KindWorker, d_Restart := ''always'',
     d_MaxRestartAttempts := 3, d_RestartDelay := 2\<rparr>"

definition quick :: answers where
  "quick = \<lparr>an_trigger = (zero_run\<lparr>r_ID := ''r1'', r_Status := ''running''\<rparr>, None), an_message = '''',
     an_wait = Some True, an_outcome = None, an_finalizing = False, an_io = Works, an_timer = False,
     an_ctx_first = False, an_now = 0\<rparr>"

definition web_sum :: "definition_rec \<Rightarrow> string" where
  "web_sum d = d_Name d"

definition web_up :: supervisor where
  "web_up = fold (\<lambda>_. lifecycle_step web_sum quick) [0..<5] (Reload [web_worker] (New_Supervisor empty_db))"

definition web_running :: supervisor where
  "web_running = fold (run_loop 0) [quick, quick, quick] web_up"

lemma supervised_lifecycle: "supervised Sum256 s \<Longrightarrow> supervised Sum256 (lifecycle_step Sum256 a s)"
  by (erule reachable_step) (rule sv_step_lifecycle)

lemma supervised_run_loop: "supervised Sum256 s \<Longrightarrow> supervised Sum256 (run_loop k a s)"
  by (auto simp: run_loop_def intro: reachable_step sv_step_loop split: option.split)

lemma supervised_web_up: "supervised web_sum web_up"
proof -
  have "supervised web_sum (Reload [web_worker] (New_Supervisor empty_db))"
    by (rule reachable_step, rule reachable_start, simp add: sv_start_def, rule exI, rule refl, rule sv_step_reload)
      (simp add: New_Supervisor_def)
  moreover have "supervised web_sum s \<Longrightarrow> supervised web_sum (fold (\<lambda>_. lifecycle_step web_sum quick) xs s)" for s and xs :: "nat list"
    by (induction xs arbitrary: s) (simp_all add: supervised_lifecycle)
  ultimately show ?thesis unfolding web_up_def by blast
qed

lemma supervised_web_running: "supervised web_sum web_running"
  using supervised_web_up by (simp add: web_running_def supervised_run_loop)

theorem supervisor_single_instance_witness:
  "sv_active web_running ''web'' = Some ''r1'' \<and>
   (\<exists>k l. sv_loops web_running k = Some l \<and> alive l \<and> d_Name (lp_def l) = ''web'' \<and> run_of (lp_pc l) = Some ''r1'')"
proof -
  have "sv_active web_running ''web'' = Some ''r1''" by code_simp
  then show ?thesis
    using supervisor_single_instance [OF supervised_web_running, of _ _ _ _ "''web''" "''r1''"] by blast
qed

text \<open>The race: the loop passes its check, an operator sets the hold, and the loop still triggers its one run.\<close>

definition web_raced :: supervisor where
  "web_raced = Stop_worker ''web'' (run_loop 0 quick web_up)"


theorem restart_budget_witness: "sv_failures web_up ''web'' < 3"
proof -
  obtain l where l: "sv_loops web_up 0 = Some l" "lp_pc l = LTop" "\<not> ended l web_up" "lp_def l = web_worker"
  proof
    show "sv_loops web_up 0 = Some \<lparr>lp_def = web_worker, lp_ctx = False, lp_last = '''', lp_pc = LTop\<rparr>" by code_simp
    show "\<not> ended \<lparr>lp_def = web_worker, lp_ctx = False, lp_last = '''', lp_pc = LTop\<rparr> web_up" by code_simp
  qed simp_all
  then show ?thesis using restart_budget [OF supervised_web_up l(1)] by (simp add: web_worker_def zero_definition_def)
qed

lemma paced_run_loop:
  assumes "sv_loops s k = Some l" "ended l s" "\<not> sv_stateMu s" "an_wait a = Some True" "\<not> an_timer a"
  shows "paced Sum256 k n s0 s \<Longrightarrow> paced Sum256 k (n + m) s0 (fold (run_loop k) (replicate m a) s)"
  using assms(1-3)
proof (induction m arbitrary: n s l)
  case (Suc m)
  have r: "responsive l a" using assms(4,5) by (simp add: responsive_def)
  have own: "paced Sum256 k (Suc n) s0 (loop_step a k l s)"
    using Suc.prems(1,2) r Suc.prems(4) by (blast intro: paced_own)
  obtain l' where "sv_loops (loop_step a k l s) k = Some l'" "ended l' (loop_step a k l s)" "\<not> sv_stateMu (loop_step a k l s)"
    using loop_step_sinks [OF Suc.prems(3) _ r, of k] Suc.prems loop_step_ended [of l a k s]
    by (cases "lp_pc l = LEnded") (auto simp: sinks_def)
  then show ?case using Suc.IH [OF own] Suc.prems(2) by (simp add: run_loop_def)
qed simp


lemma restartDelay_closed_form_example:
  "restartDelay (web_worker\<lparr>d_RestartBackoffMax := 60\<rparr>) 4 = 16 * Second"
  using restartDelay_closed_form [of "web_worker\<lparr>d_RestartBackoffMax := 60\<rparr>" 4]
  by (simp add: web_worker_def zero_definition_def)

end
