(* ===== verification/Zone.thy ===== *)
theory Zone
  imports Prelude
begin

text \<open>
  Locations (\<^verbatim>\<open>time.Location\<close>) and the wall-clock helpers of
  \<^verbatim>\<open>src/internal/scheduler/scheduler.go\<close> built on them: the end of the second copy of a
  repeated interval, the wall minute of an instant, and the first forward transition in an
  interval.

  A location is what the Go runtime keeps of a zone file: the offset before the first
  transition and the list of transitions, each an instant with the offset (in seconds east of
  UTC) in force from it on.
\<close>

section \<open>Locations\<close>

record location =
  loc_first :: int
  loc_tx :: "(time \<times> int) list"

fun zone_from :: "int \<Rightarrow> (time \<times> int) list \<Rightarrow> time \<Rightarrow> int" where
  "zone_from off [] t = off"
| "zone_from off ((w, off') # tx) t = (if t < w then off else zone_from off' tx t)"

fun bounds_from :: "time \<Rightarrow> (time \<times> int) list \<Rightarrow> time \<Rightarrow> time \<times> time" where
  "bounds_from start [] t = (start, zero_time)"
| "bounds_from start ((w, off') # tx) t = (if t < w then (start, w) else bounds_from w tx t)"

text \<open>\<^verbatim>\<open>t.Zone()\<close> (the offset) and \<^verbatim>\<open>t.ZoneBounds()\<close> (zero times for a zone
  without beginning or end).\<close>

definition Zone :: "location \<Rightarrow> time \<Rightarrow> int" where
  "Zone loc t = zone_from (loc_first loc) (loc_tx loc) t"

definition ZoneBounds :: "location \<Rightarrow> time \<Rightarrow> time \<times> time" where
  "ZoneBounds loc t = bounds_from zero_time (loc_tx loc) t"

definition FixedZone :: "int \<Rightarrow> location" where
  "FixedZone off = \<lparr>loc_first = off, loc_tx = []\<rparr>"

text \<open>Transitions are in order, after the zero time, and on whole seconds (their source is a
  table of Unix seconds).\<close>

definition wf_location :: "location \<Rightarrow> bool" where
  "wf_location loc \<longleftrightarrow> sorted_wrt (<) (map fst (loc_tx loc)) \<and>
     (\<forall>p \<in> set (loc_tx loc). 0 < fst p \<and> Second dvd fst p)"

section \<open>Wall clock\<close>

text \<open>Two instants show the same year, month, day, hour and minute exactly when their local
  minute numbers agree.\<close>

definition wall_minute :: "location \<Rightarrow> time \<Rightarrow> int" where
  "wall_minute loc t = (t + Zone loc t * Second) div Minute"

definition sameWallMinute :: "location \<Rightarrow> time \<Rightarrow> time \<Rightarrow> bool" where
  "sameWallMinute loc a b \<longleftrightarrow> wall_minute loc a = wall_minute loc b"

text \<open>The end of the second copy of a repeated wall-clock interval, when \<open>t\<close> lies in one.\<close>

definition secondFoldEnd :: "location \<Rightarrow> time \<Rightarrow> time option" where
  "secondFoldEnd loc t =
     (let start = fst (ZoneBounds loc t)
      in if start = zero_time then None
         else let offset = Zone loc t; previous = Zone loc (start - Second)
              in if previous \<le> offset then None
                 else let fin = start + (previous - offset) * Second
                      in if t < fin then Some fin else None)"

section \<open>The first forward transition\<close>

lemma bounds_from_end:
  "snd (bounds_from s tx t) = w \<Longrightarrow> w \<noteq> 0 \<Longrightarrow> t < w \<and> w \<in> fst ` set tx"
  by (induction s tx t rule: bounds_from.induct) (auto split: if_splits)

lemma transitions_after_decrease:
  assumes "snd (ZoneBounds loc cursor) \<noteq> 0"
  shows "length (filter (\<lambda>p. snd (ZoneBounds loc cursor) < fst p) (loc_tx loc))
    < length (filter (\<lambda>p. cursor < fst p) (loc_tx loc))"
proof -
  let ?next = "snd (ZoneBounds loc cursor)"
  have nx: "cursor < ?next" "?next \<in> fst ` set (loc_tx loc)"
    using bounds_from_end [of 0 "loc_tx loc" cursor ?next] assms by (auto simp: ZoneBounds_def)
  then obtain p where p: "p \<in> set (loc_tx loc)" "fst p = ?next" by auto
  have sub: "filter (\<lambda>p. ?next < fst p) (loc_tx loc)
      = filter (\<lambda>p. ?next < fst p) (filter (\<lambda>p. cursor < fst p) (loc_tx loc))"
    using nx(1) by (auto intro: filter_cong)
  have "p \<in> set (filter (\<lambda>p. cursor < fst p) (loc_tx loc))" using p nx(1) by simp
  moreover have "\<not> ?next < fst p" using p by simp
  ultimately show ?thesis unfolding sub by (rule length_filter_less)
qed

function forwardTransition_loop :: "location \<Rightarrow> time \<Rightarrow> int \<Rightarrow> time \<Rightarrow> (time \<times> int \<times> int) option" where
  "forwardTransition_loop loc cursor previous fin =
     (if cursor < fin then
        let next = snd (ZoneBounds loc cursor)
        in if next = zero_time \<or> fin < next \<or> \<not> cursor < next then None
           else let offset = Zone loc next
                in if offset > previous then Some (next, previous, offset)
                   else forwardTransition_loop loc next offset fin
      else None)"
  by pat_completeness auto
termination
  by (relation "measure (\<lambda>(loc, cursor, previous, fin).
        length (filter (\<lambda>p. cursor < fst p) (loc_tx loc)))")
    (auto intro: transitions_after_decrease)

declare forwardTransition_loop.simps [simp del]

definition forwardTransition :: "time \<Rightarrow> time \<Rightarrow> location \<Rightarrow> (time \<times> int \<times> int) option" where
  "forwardTransition start fin loc =
     (if \<not> start < fin then None
      else forwardTransition_loop loc start (Zone loc start) fin)"

section \<open>Facts about locations\<close>

text \<open>Between two transitions the offset does not change, and the bounds say where the next
  transition is.\<close>

lemma zone_from_const:
  "sorted_wrt (<) (map fst tx) \<Longrightarrow> t \<le> u \<Longrightarrow> (\<forall>p \<in> set tx. \<not> (t < fst p \<and> fst p \<le> u)) \<Longrightarrow>
   zone_from off tx u = zone_from off tx t"
  by (induction off tx t rule: zone_from.induct) auto

lemma Zone_const:
  "wf_location loc \<Longrightarrow> t \<le> u \<Longrightarrow> (\<forall>p \<in> set (loc_tx loc). \<not> (t < fst p \<and> fst p \<le> u)) \<Longrightarrow>
   Zone loc u = Zone loc t"
  unfolding Zone_def wf_location_def by (rule zone_from_const) auto

lemma ZoneBounds_end:
  assumes "wf_location loc"
  shows "case snd (ZoneBounds loc t) of w \<Rightarrow>
     (if w = 0 then \<forall>p \<in> set (loc_tx loc). fst p \<le> t
      else t < w \<and> w \<in> fst ` set (loc_tx loc) \<and> (\<forall>p \<in> set (loc_tx loc). \<not> (t < fst p \<and> fst p < w)))"
proof -
  have "sorted_wrt (<) (map fst tx) \<Longrightarrow> (\<forall>p \<in> set tx. 0 < fst p) \<Longrightarrow>
     (if snd (bounds_from s tx t) = 0 then \<forall>p \<in> set tx. fst p \<le> t
      else t < snd (bounds_from s tx t) \<and> snd (bounds_from s tx t) \<in> fst ` set tx
         \<and> (\<forall>p \<in> set tx. \<not> (t < fst p \<and> fst p < snd (bounds_from s tx t))))" for s tx
    by (induction s tx t rule: bounds_from.induct) (simp, fastforce split: if_splits)
  from this [of "loc_tx loc" 0] show ?thesis
    using assms by (auto simp: ZoneBounds_def wf_location_def)
qed

lemma ZoneBounds_start:
  assumes "wf_location loc" "fst (ZoneBounds loc t) \<noteq> 0"
  shows "fst (ZoneBounds loc t) \<in> fst ` set (loc_tx loc)" "fst (ZoneBounds loc t) \<le> t"
proof -
  have *: "fst (bounds_from s tx t) = s \<or>
     fst (bounds_from s tx t) \<in> fst ` set tx \<and> fst (bounds_from s tx t) \<le> t" for s tx
    by (induction s tx t rule: bounds_from.induct) auto
  show "fst (ZoneBounds loc t) \<in> fst ` set (loc_tx loc)" "fst (ZoneBounds loc t) \<le> t"
    using * [of 0 "loc_tx loc"] assms(2) by (auto simp: ZoneBounds_def)
qed

lemma secondFoldEnd_Some:
  assumes "wf_location loc" "secondFoldEnd loc t = Some fin"
  shows "t < fin" "Second dvd fin"
proof -
  let ?start = "fst (ZoneBounds loc t)"
  from assms(2) have s: "?start \<noteq> 0" and fin: "fin = ?start + (Zone loc (?start - Second) - Zone loc t) * Second"
    and lt: "t < fin"
    by (auto simp: secondFoldEnd_def Let_def split: if_splits)
  have "Second dvd ?start"
    using ZoneBounds_start [OF assms(1) s] assms(1) by (auto simp: wf_location_def)
  then show "Second dvd fin" unfolding fin by (intro dvd_add) auto
  show "t < fin" by (rule lt)
qed

text \<open>The offset just before the next transition is the current one.\<close>

lemma Zone_before_next:
  assumes "wf_location loc" "snd (ZoneBounds loc t) \<noteq> 0"
  shows "Zone loc (snd (ZoneBounds loc t) - 1) = Zone loc t"
  using ZoneBounds_end [OF assms(1), of t] assms(2) by (intro Zone_const [OF assms(1)]) auto

text \<open>A forward transition at \<open>w\<close>: the offset grows there.\<close>

definition forward_at :: "location \<Rightarrow> time \<Rightarrow> bool" where
  "forward_at loc w \<longleftrightarrow> w \<in> fst ` set (loc_tx loc) \<and> Zone loc (w - 1) < Zone loc w"

lemma no_forward_before_next:
  assumes "wf_location loc" "cursor < w" "forward_at loc w"
  shows "snd (ZoneBounds loc cursor) \<noteq> 0 \<and> snd (ZoneBounds loc cursor) \<le> w"
  using ZoneBounds_end [OF assms(1), of cursor] assms(2,3)
  by (force simp: forward_at_def split: if_splits)

lemma forwardTransition_loop_Some:
  "wf_location loc \<Longrightarrow> previous = Zone loc cursor \<Longrightarrow>
   forwardTransition_loop loc cursor previous fin = Some (w, p, off) \<Longrightarrow>
   cursor < w \<and> w \<le> fin \<and> forward_at loc w \<and> p = Zone loc (w - 1) \<and> off = Zone loc w
     \<and> (\<forall>v. forward_at loc v \<and> cursor < v \<longrightarrow> w \<le> v)"
proof (induction loc cursor previous fin rule: forwardTransition_loop.induct)
  case (1 loc cursor previous fin)
  let ?n = "snd (ZoneBounds loc cursor)"
  from "1.prems"(3) have c: "cursor < fin" "?n \<noteq> 0" "?n \<le> fin" "cursor < ?n"
    by (auto simp: forwardTransition_loop.simps [of loc cursor] Let_def split: if_splits)
  have at: "?n \<in> fst ` set (loc_tx loc)" "Zone loc (?n - 1) = previous"
    using ZoneBounds_end [OF "1.prems"(1), of cursor] Zone_before_next [OF "1.prems"(1) c(2)]
      c(2) "1.prems"(2) by auto
  have first: "\<forall>v. forward_at loc v \<and> cursor < v \<longrightarrow> ?n \<le> v"
    using no_forward_before_next [OF "1.prems"(1)] by blast
  show ?case
  proof (cases "Zone loc ?n > previous")
    case True
    then show ?thesis using "1.prems" c at first
      by (auto simp: forwardTransition_loop.simps [of loc cursor] Let_def forward_at_def)
  next
    case False
    then have eq: "forwardTransition_loop loc ?n (Zone loc ?n) fin = Some (w, p, off)"
      using "1.prems"(3) c by (simp add: forwardTransition_loop.simps [of loc cursor] Let_def)
    have "\<not> forward_at loc ?n" using False at by (simp add: forward_at_def)
    then have skip: "forward_at loc v \<and> cursor < v \<Longrightarrow> ?n < v" for v
      using first by (metis order_le_less)
    show ?thesis
      using "1.IH" [OF c(1) refl _ refl False "1.prems"(1) refl eq] c skip by force
  qed
qed

lemma forwardTransition_loop_None:
  "wf_location loc \<Longrightarrow> previous = Zone loc cursor \<Longrightarrow>
   forwardTransition_loop loc cursor previous fin = None \<Longrightarrow>
   forward_at loc v \<Longrightarrow> cursor < v \<Longrightarrow> fin < v"
proof (induction loc cursor previous fin rule: forwardTransition_loop.induct)
  case (1 loc cursor previous fin)
  let ?n = "snd (ZoneBounds loc cursor)"
  have n: "?n \<noteq> 0" "?n \<le> v"
    using no_forward_before_next [OF "1.prems"(1) "1.prems"(5) "1.prems"(4)] by auto
  have cn: "cursor < ?n" using ZoneBounds_end [OF "1.prems"(1), of cursor] n by auto
  show ?case
  proof (cases "cursor < fin \<and> ?n \<le> fin")
    case False
    then show ?thesis using n cn "1.prems"(5) by auto
  next
    case True
    then have le: "\<not> Zone loc ?n > previous"
      and eq: "forwardTransition_loop loc ?n (Zone loc ?n) fin = None"
      using "1.prems"(3) n cn
      by (auto simp: forwardTransition_loop.simps [of loc cursor] Let_def split: if_splits)
    have "\<not> forward_at loc ?n"
      using le Zone_before_next [OF "1.prems"(1) n(1)] "1.prems"(2) by (simp add: forward_at_def)
    then have "?n < v" using n "1.prems"(4) by (metis order_le_less)
    then show ?thesis
      using "1.IH" [OF _ refl _ refl le "1.prems"(1) refl eq "1.prems"(4)] True n cn by simp
  qed
qed

lemma forwardTransition_SomeD:
  "wf_location loc \<Longrightarrow> forwardTransition s fin loc = Some (w, p, off) \<Longrightarrow>
   s < w \<and> w \<le> fin \<and> forward_at loc w \<and> p = Zone loc (w - 1) \<and> off = Zone loc w
     \<and> (\<forall>v. forward_at loc v \<and> s < v \<longrightarrow> w \<le> v)"
  unfolding forwardTransition_def
  by (rule forwardTransition_loop_Some [of loc "Zone loc s"]) (simp_all split: if_splits)

section \<open>Properties\<close>

text \<open>The search for a forward transition is exact: it returns the earliest instant of the
  interval at which the wall clock jumps forward, with the offsets on its two sides, and returns
  nothing only when the interval has no such instant.\<close>

lemma forwardTransition_first:
  assumes "wf_location loc"
  shows "case forwardTransition start fin loc of
      Some (w, p, off) \<Rightarrow> start < w \<and> w \<le> fin \<and> forward_at loc w \<and> p = Zone loc (w - 1)
        \<and> off = Zone loc w \<and> (\<forall>v. forward_at loc v \<and> start < v \<longrightarrow> w \<le> v)
    | None \<Rightarrow> (\<forall>v. forward_at loc v \<and> start < v \<longrightarrow> fin < v)"
proof (cases "forwardTransition start fin loc")
  case None
  then show ?thesis
    using forwardTransition_loop_None [OF assms refl]
    by (fastforce simp: forwardTransition_def split: if_splits)
next
  case (Some r)
  then show ?thesis using forwardTransition_SomeD [OF assms] by (cases r) auto
qed

definition spring_forward :: location where
  "spring_forward = \<lparr>loc_first = 0, loc_tx = [(1000 * Hour, 3600)]\<rparr>"

lemma forwardTransition_first_example:
  "forwardTransition (999 * Hour) (1001 * Hour) spring_forward = Some (1000 * Hour, 0, 3600) \<and>
   forward_at spring_forward (1000 * Hour)"
proof
  show eq: "forwardTransition (999 * Hour) (1001 * Hour) spring_forward = Some (1000 * Hour, 0, 3600)"
    by code_simp
  have "wf_location spring_forward" by (simp add: wf_location_def spring_forward_def)
  from forwardTransition_first [OF this, of "999 * Hour" "1001 * Hour"]
  show "forward_at spring_forward (1000 * Hour)" by (simp only: eq) simp
qed

end
