(* ===== verification/Schedule.thy ===== *)
theory Schedule
  imports Model Zone
begin

text \<open>
  Compiled schedules of \<^verbatim>\<open>src/internal/scheduler/scheduler.go\<close>: the next fire of an
  interval or cron schedule, its daylight-saving rules, and the occurrences that elapsed while
  no scheduler ran.

  The cron library (\<^verbatim>\<open>robfig/cron\<close>), the time zone database and
  \<^verbatim>\<open>time.ParseDuration\<close> are parameters: a compiled cron schedule is its
  \<^verbatim>\<open>Next\<close> function, which takes an instant with its location and returns the next
  activation or the zero time. \<open>cron_next_ok\<close> is the behaviour its documentation promises.
  The cancellation of a context is a predicate on the iteration at which it is polled.
\<close>

section \<open>Compiled schedules\<close>

type_synonym cron_next = "location \<Rightarrow> time \<Rightarrow> time"

record compiled_schedule =
  cs_raw :: string
  cs_interval :: duration
  cs_loc :: location
  cs_cron :: cron_next

text \<open>\<^verbatim>\<open>Next\<close> returns the zero time or an activation, on a whole second, later than
  the given time.\<close>

definition cron_next_ok :: "cron_next \<Rightarrow> bool" where
  "cron_next_ok nxt \<longleftrightarrow>
     (\<forall>loc t. nxt loc t \<noteq> zero_time \<longrightarrow> t < nxt loc t \<and> Second dvd nxt loc t)"

definition no_cron :: cron_next where
  "no_cron loc t = zero_time"

definition compileSchedule ::
  "(string \<Rightarrow> duration result) \<Rightarrow> (string \<Rightarrow> location result) \<Rightarrow> (string \<Rightarrow> cron_next result)
   \<Rightarrow> definition_rec \<Rightarrow> compiled_schedule result" where
  "compileSchedule ParseDuration LoadLocation Parse d =
     (let c = \<lparr>cs_raw = d_Schedule d, cs_interval = 0, cs_loc = FixedZone 0, cs_cron = no_cron\<rparr>
      in case CutPrefix (d_Schedule d) ''@every '' of
           Some raw \<Rightarrow>
             (case ParseDuration raw of
                Inl e \<Rightarrow> Inl e
              | Inr interval \<Rightarrow>
                  if interval \<le> 0 then Inl ''schedule interval must be positive''
                  else Inr (c\<lparr>cs_interval := interval\<rparr>))
         | None \<Rightarrow>
             (case LoadLocation (d_Timezone d) of
                Inl e \<Rightarrow> Inl e
              | Inr loc \<Rightarrow>
                  (case Parse (d_Schedule d) of
                     Inl e \<Rightarrow> Inl e
                   | Inr schedule \<Rightarrow> Inr (c\<lparr>cs_loc := loc, cs_cron := schedule\<rparr>))))"

section \<open>The next fire\<close>

text \<open>The loop that leaves the second copies of repeated wall-clock intervals, at most
  \<open>n\<close> times.\<close>

primrec suppressFold :: "nat \<Rightarrow> compiled_schedule \<Rightarrow> time \<Rightarrow> time result" where
  "suppressFold 0 c candidate = Inr candidate"
| "suppressFold (Suc n) c candidate =
     (case secondFoldEnd (cs_loc c) candidate of
        None \<Rightarrow> Inr candidate
      | Some foldEnd \<Rightarrow>
          let candidate' = cs_cron c (cs_loc c) (foldEnd - Second)
          in if candidate' = zero_time then Inl ''schedule has no future occurrence''
             else suppressFold n c candidate')"

text \<open>A matching minute inside a forward gap fires at the transition.\<close>

definition coalesceGap :: "compiled_schedule \<Rightarrow> time \<Rightarrow> time \<Rightarrow> time" where
  "coalesceGap c after candidate =
     (case forwardTransition after candidate (cs_loc c) of
        None \<Rightarrow> candidate
      | Some (transition, oldOffset, newOffset) \<Rightarrow>
          let gapStart = transition - transition mod Minute;
              gapEnd = gapStart + (newOffset - oldOffset) * Second;
              firstInGap = cs_cron c (FixedZone oldOffset) (gapStart - Minute)
          in if firstInGap \<noteq> zero_time \<and> firstInGap < gapEnd then transition else candidate)"

definition nextFire :: "compiled_schedule \<Rightarrow> time \<Rightarrow> time \<Rightarrow> time result" where
  "nextFire c after anchor =
     (if 0 < cs_interval c then
        (if after < anchor then Inr (anchor + cs_interval c)
         else
           let periods = time_sub after anchor sdiv cs_interval c
           in if periods \<ge> max_int64 sdiv cs_interval c
              then Inl ''schedule interval exceeds supported time range''
              else
                let candidate = anchor + wrap64 (wrap64 (periods + 1) * cs_interval c)
                in if \<not> after < candidate
                   then Inl ''schedule does not advance beyond current time''
                   else Inr candidate)
      else
        let from = (case secondFoldEnd (cs_loc c) after of
                      Some foldEnd \<Rightarrow> foldEnd - Second | None \<Rightarrow> after);
            candidate = cs_cron c (cs_loc c) from
        in if candidate = zero_time then Inl ''schedule has no future occurrence''
           else case suppressFold 4 c candidate of
                  Inl e \<Rightarrow> Inl e
                | Inr candidate' \<Rightarrow> Inr (coalesceGap c after candidate'))"

definition nextFireDistinct :: "compiled_schedule \<Rightarrow> time \<Rightarrow> time \<Rightarrow> time \<Rightarrow> time result" where
  "nextFireDistinct c after anchor lastf =
     (case nextFire c after anchor of
        Inl e \<Rightarrow> Inl e
      | Inr candidate \<Rightarrow>
          if lastf = zero_time \<or> 0 < cs_interval c then Inr candidate
          else if sameWallMinute (cs_loc c) lastf candidate then nextFire c candidate anchor
          else Inr candidate)"

section \<open>Overdue occurrences\<close>

definition maxCatchUpCount :: nat where "maxCatchUpCount = 100000"
definition maxCatchUpWindow :: nat where "maxCatchUpWindow = 100000"

record overdue_fires =
  od_first :: time
  od_latest :: time
  od_count :: int
  od_exact :: bool

definition no_overdue :: overdue_fires where
  "no_overdue = \<lparr>od_first = 0, od_latest = 0, od_count = 0, od_exact = False\<rparr>"

text \<open>The inner loop of \<^verbatim>\<open>latestFire\<close>, with \<open>n\<close> the steps left in this window.\<close>

primrec scanWindow ::
  "nat \<Rightarrow> compiled_schedule \<Rightarrow> (nat \<Rightarrow> bool) \<Rightarrow> time \<Rightarrow> time \<Rightarrow> time \<Rightarrow> time \<Rightarrow> time \<Rightarrow> time result" where
  "scanWindow 0 c ctx anchor lastf now cursor best = Inl ''too many occurrences in a window''"
| "scanWindow (Suc n) c ctx anchor lastf now cursor best =
     (let steps = maxCatchUpWindow - Suc n
      in if steps mod 4096 = 4095 \<and> ctx steps then Inl ''context canceled''
         else case nextFireDistinct c cursor anchor lastf of
                Inl e \<Rightarrow> Inl e
              | Inr next \<Rightarrow>
                  if now < next then Inr best
                  else scanWindow n c ctx anchor lastf now next next)"

text \<open>The outer loop: windows of growing size. \<open>None\<close> is a loop that does not return within
  the fuel.\<close>

primrec latestFireLoop ::
  "nat \<Rightarrow> compiled_schedule \<Rightarrow> (nat \<Rightarrow> bool) \<Rightarrow> time \<Rightarrow> time \<Rightarrow> time \<Rightarrow> time \<Rightarrow> duration
   \<Rightarrow> time result option" where
  "latestFireLoop 0 c ctx first anchor lastf now window = None"
| "latestFireLoop (Suc fuel) c ctx first anchor lastf now window =
     (let full = (window \<ge> time_sub now first \<or> window > max_int64 sdiv 8);
          start = (if full then first else now - window);
          best = (if full then first else zero_time)
      in case scanWindow maxCatchUpWindow c ctx anchor lastf now start best of
           Inl e \<Rightarrow> Some (Inl e)
         | Inr found \<Rightarrow>
             if found \<noteq> zero_time then Some (Inr found)
             else latestFireLoop fuel c ctx first anchor lastf now (wrap64 (window * 8)))"

definition latestFire ::
  "compiled_schedule \<Rightarrow> (nat \<Rightarrow> bool) \<Rightarrow> time \<Rightarrow> time \<Rightarrow> time \<Rightarrow> time \<Rightarrow> time result option" where
  "latestFire c ctx first anchor lastf now = latestFireLoop 8 c ctx first anchor lastf now Hour"

text \<open>The counting loop, with \<open>n\<close> the counts left before its bound: the number counted and
  whether it is exact.\<close>

primrec countFires ::
  "nat \<Rightarrow> compiled_schedule \<Rightarrow> (nat \<Rightarrow> bool) \<Rightarrow> time \<Rightarrow> time \<Rightarrow> time \<Rightarrow> time \<Rightarrow> time
   \<Rightarrow> (nat \<times> bool) result" where
  "countFires 0 c ctx anchor lastf now latest cursor = Inr (maxCatchUpCount, \<not> cursor \<le> now)"
| "countFires (Suc n) c ctx anchor lastf now latest cursor =
     (let count = maxCatchUpCount - Suc n
      in if \<not> cursor \<le> now then Inr (count, True)
         else if count mod 4096 = 0 \<and> ctx count then Inl ''context canceled''
         else if cursor = latest then Inr (Suc count, True)
         else case nextFireDistinct c cursor anchor lastf of
                Inl e \<Rightarrow> Inl e
              | Inr cursor' \<Rightarrow> countFires n c ctx anchor lastf now latest cursor')"

definition overdue ::
  "compiled_schedule \<Rightarrow> (nat \<Rightarrow> bool) \<Rightarrow> time \<Rightarrow> time \<Rightarrow> time \<Rightarrow> bool \<Rightarrow> overdue_fires result option" where
  "overdue c ctx anchor lastf now wantCount =
     (let base = (if lastf = zero_time then anchor else lastf)
      in case nextFireDistinct c base anchor lastf of
           Inl e \<Rightarrow> Some (Inl e)
         | Inr first \<Rightarrow>
             if \<not> first < now then Some (Inr no_overdue)
             else if 0 < cs_interval c then
               let steps = time_sub now first sdiv cs_interval c
               in Some (Inr \<lparr>od_first = first, od_latest = first + wrap64 (steps * cs_interval c),
                    od_count = (if steps \<ge> max_int64 then max_int64 else wrap64 (steps + 1)),
                    od_exact = True\<rparr>)
             else
               case latestFire c ctx first anchor lastf now of
                 None \<Rightarrow> None
               | Some (Inl e) \<Rightarrow> Some (Inl e)
               | Some (Inr latest) \<Rightarrow>
                   if latest = first
                   then Some (Inr \<lparr>od_first = first, od_latest = latest, od_count = 1, od_exact = True\<rparr>)
                   else if \<not> wantCount
                   then Some (Inr \<lparr>od_first = first, od_latest = latest, od_count = 2, od_exact = False\<rparr>)
                   else case countFires maxCatchUpCount c ctx anchor lastf now latest first of
                          Inl e \<Rightarrow> Some (Inl e)
                        | Inr (n, exact) \<Rightarrow>
                            Some (Inr \<lparr>od_first = first, od_latest = latest, od_count = int n,
                              od_exact = exact\<rparr>))"

definition maxTime :: "time \<Rightarrow> time \<Rightarrow> time" where
  "maxTime a b = (if b < a then a else b)"

section \<open>Interval schedules\<close>

text \<open>The guard on the number of periods keeps every product of the interval arithmetic in
  range.\<close>

lemma periods_in_range:
  assumes i: "0 < i" "i \<le> max_int64" and p: "0 \<le> p" "p < max_int64 div i"
  shows "fits64 (p + 1)" "fits64 ((p + 1) * i)"
proof -
  have le: "(p + 1) * i \<le> max_int64 div i * i"
    using p i by (intro mult_right_mono) auto
  also have "\<dots> \<le> max_int64"
    by (simp add: minus_mod_eq_div_mult [symmetric] i max_int64_def)
  finally have prod: "(p + 1) * i \<le> max_int64" .
  have "p + 1 \<le> (p + 1) * i" using p i by (simp add: mult_le_cancel_left1)
  then have "p + 1 \<le> max_int64" using prod by (rule order_trans)
  then show "fits64 (p + 1)" using p by (simp add: fits64_nonneg)
  show "fits64 ((p + 1) * i)" using p i prod by (simp add: fits64_nonneg)
qed

lemma nextFire_interval:
  assumes "0 < cs_interval c" "cs_interval c \<le> max_int64" "anchor \<le> after"
    and "(after - anchor) div cs_interval c < max_int64 div cs_interval c"
  shows "nextFire c after anchor
     = Inr (anchor + ((after - anchor) div cs_interval c + 1) * cs_interval c)"
proof -
  let ?i = "cs_interval c" and ?p = "(after - anchor) div cs_interval c"
  have "after - anchor < (?p + 1) * ?i"
    using assms(1) by (simp add: distrib_right minus_mod_eq_div_mult [symmetric])
  have p0: "0 \<le> ?p" using assms(1,3) by (simp add: pos_imp_zdiv_nonneg_iff)
  note r = periods_in_range [OF assms(1,2) p0 assms(4)]
  have "?p * ?i \<le> max_int64" using r(2) p0 assms(1) by (simp add: fits64_def distrib_right)
  have "after - anchor \<le> max_int64"
    using r(2) \<open>after - anchor < (?p + 1) * ?i\<close> by (simp add: fits64_def)
  then have sub: "time_sub after anchor = after - anchor"
    using assms(3) by (intro time_sub_exact) (simp add: fits64_def min_int64_def)
  have m: "max_int64 sdiv ?i = max_int64 div ?i"
    using assms(1) by (intro sdiv_nonneg) (simp_all add: max_int64_def)
  have pdiv: "time_sub after anchor sdiv ?i = ?p"
    unfolding sub using assms(1,3) by (intro sdiv_nonneg) auto
  show ?thesis
    using assms(1,3,4) r \<open>after - anchor < (?p + 1) * ?i\<close>
    by (simp add: nextFire_def Let_def pdiv m wrap64_id)
qed

text \<open>Any interval result lies on the grid of the anchor, after the given time, and no grid
  point lies between.\<close>

lemma nextFire_interval_Inr:
  assumes "0 < cs_interval c" "cs_interval c \<le> max_int64" "nextFire c after anchor = Inr t"
  shows "after < t \<and> (\<exists>k \<ge> 1. t = anchor + k * cs_interval c) \<and>
    (\<forall>k \<ge> 1. after < anchor + k * cs_interval c \<longrightarrow> t \<le> anchor + k * cs_interval c)"
proof (cases "after < anchor")
  case True
  then have "t = anchor + 1 * cs_interval c"
    using assms(1,3) by (simp add: nextFire_def)
  then show ?thesis using True assms(1) by (force simp: mult_le_cancel_right)
next
  case False
  let ?i = "cs_interval c" and ?p = "(after - anchor) div cs_interval c"
  have m: "max_int64 sdiv ?i = max_int64 div ?i"
    using assms(1) by (intro sdiv_nonneg) (simp_all add: max_int64_def)
  have q: "time_sub after anchor sdiv ?i = time_sub after anchor div ?i"
    using assms(1) False by (intro sdiv_nonneg) (auto intro: time_sub_nonneg)
  have "time_sub after anchor div ?i < max_int64 div ?i"
    using assms(1,3) False by (simp add: nextFire_def Let_def m q split: if_splits)
  then have "time_sub after anchor < max_int64"
    using time_sub_max [of after anchor] by (cases "time_sub after anchor = max_int64") auto
  then have "time_sub after anchor = after - anchor"
    using False by (simp add: time_sub_def min_int64_def max_int64_def split: if_splits)
  then have p: "?p < max_int64 div ?i"
    using \<open>time_sub after anchor div ?i < max_int64 div ?i\<close> by simp
  have t: "t = anchor + (?p + 1) * ?i"
    using nextFire_interval [OF assms(1,2) _ p] False assms(3) by simp
  have p0: "0 \<le> ?p" using assms(1) False by (simp add: pos_imp_zdiv_nonneg_iff)
  have up: "after - anchor < (?p + 1) * ?i"
    using assms(1) by (simp add: distrib_right minus_mod_eq_div_mult [symmetric])
  have "?p + 1 \<le> k" if "after < anchor + k * ?i" for k
  proof -
    have "?p * ?i \<le> after - anchor"
      by (simp add: minus_mod_eq_div_mult [symmetric] assms(1))
    then have "?p * ?i < k * ?i" using that by simp
    then show ?thesis using assms(1) by (simp add: mult_less_cancel_right)
  qed
  then show ?thesis using t p0 up assms(1) by (auto simp: mult_le_cancel_right)
qed

section \<open>Cron schedules\<close>

lemma whole_seconds_ge:
  assumes "Second dvd a" "Second dvd b" "b - Second < (a::int)"
  shows "b \<le> a"
proof -
  obtain k l where "a = Second * k" "b = Second * l" using assms(1,2) by (auto elim!: dvdE)
  then show ?thesis using assms(3) by simp
qed

lemma cron_after_fold:
  assumes "wf_location (cs_loc c)" "cron_next_ok (cs_cron c)"
    and "secondFoldEnd (cs_loc c) t = Some foldEnd"
    and "cs_cron c (cs_loc c) (foldEnd - Second) \<noteq> 0"
  shows "foldEnd \<le> cs_cron c (cs_loc c) (foldEnd - Second)"
  using secondFoldEnd_Some [OF assms(1,3)] assms(2,4)
  by (intro whole_seconds_ge) (auto simp: cron_next_ok_def)

lemma suppressFold_ge:
  assumes "wf_location (cs_loc c)" "cron_next_ok (cs_cron c)"
  shows "suppressFold n c t = Inr u \<Longrightarrow> t \<le> u"
proof (induction n arbitrary: t)
  case (Suc n)
  show ?case
  proof (cases "secondFoldEnd (cs_loc c) t")
    case (Some foldEnd)
    let ?t' = "cs_cron c (cs_loc c) (foldEnd - Second)"
    have nz: "?t' \<noteq> 0" and rec: "suppressFold n c ?t' = Inr u"
      using Suc.prems Some by (auto simp: Let_def split: if_splits)
    have "t < foldEnd" using secondFoldEnd_Some [OF assms(1) Some] by simp
    then show ?thesis
      using Suc.IH [OF rec] cron_after_fold [OF assms Some nz] by simp
  qed (use Suc.prems in simp)
qed simp

lemma coalesceGap_bounds:
  assumes "wf_location (cs_loc c)" "after < candidate"
  shows "after < coalesceGap c after candidate \<and> coalesceGap c after candidate \<le> candidate"
  using assms forwardTransition_SomeD [OF assms(1)]
  by (force simp: coalesceGap_def Let_def split: option.splits prod.splits if_splits)

text \<open>The candidate before gap handling.\<close>

lemma nextFire_cron_cases:
  assumes "wf_location (cs_loc c)" "cron_next_ok (cs_cron c)" "cs_interval c \<le> 0"
    and "nextFire c after anchor = Inr t"
  obtains first candidate where "after < first" "first \<le> candidate"
    "suppressFold 4 c first = Inr candidate" "t = coalesceGap c after candidate"
    "first = cs_cron c (cs_loc c) (case secondFoldEnd (cs_loc c) after of Some foldEnd \<Rightarrow> foldEnd - Second | None \<Rightarrow> after)"
proof -
  define origin where "origin = (case secondFoldEnd (cs_loc c) after of
      Some foldEnd \<Rightarrow> foldEnd - Second | None \<Rightarrow> after)"
  define first where "first = cs_cron c (cs_loc c) origin"
  have nz: "first \<noteq> 0" and
    ex: "\<exists>candidate. suppressFold 4 c first = Inr candidate \<and> t = coalesceGap c after candidate"
    using assms(3,4) unfolding nextFire_def first_def origin_def
    by (auto simp: Let_def simp del: suppressFold.simps split: if_splits sum.splits)
  then obtain candidate where cand: "suppressFold 4 c first = Inr candidate"
    "t = coalesceGap c after candidate" by blast
  have "after < first"
  proof (cases "secondFoldEnd (cs_loc c) after")
    case None
    then have "origin = after" by (simp add: origin_def)
    then show ?thesis using assms(2) nz by (simp add: first_def cron_next_ok_def)
  next
    case (Some foldEnd)
    then have "origin = foldEnd - Second" by (simp add: origin_def)
    then show ?thesis
      using cron_after_fold [OF assms(1,2) Some] secondFoldEnd_Some [OF assms(1) Some] nz
      by (simp add: first_def)
  qed
  then show thesis
    using that cand suppressFold_ge [OF assms(1,2) cand(1)] first_def [unfolded origin_def] by blast
qed

lemma nextFire_cron_after:
  assumes "wf_location (cs_loc c)" "cron_next_ok (cs_cron c)" "cs_interval c \<le> 0"
    and "nextFire c after anchor = Inr t"
  shows "after < t"
  using nextFire_cron_cases [OF assms] coalesceGap_bounds [OF assms(1)] by (metis order_less_le_trans)

lemma nextFire_after:
  assumes "wf_location (cs_loc c)" "cron_next_ok (cs_cron c)" "cs_interval c \<le> max_int64"
    and "nextFire c after anchor = Inr t"
  shows "after < t"
proof (cases "0 < cs_interval c")
  case True
  then show ?thesis using nextFire_interval_Inr assms by blast
next
  case False
  then show ?thesis using nextFire_cron_after assms by force
qed

lemma nextFireDistinct_after:
  assumes "wf_location (cs_loc c)" "cron_next_ok (cs_cron c)" "cs_interval c \<le> max_int64"
    and "nextFireDistinct c after anchor lastf = Inr t"
  shows "after < t"
  using assms(4) nextFire_after [OF assms(1-3)]
  by (auto simp: nextFireDistinct_def split: sum.splits if_splits) (meson order_less_trans)

section \<open>Repeated wall-clock intervals\<close>

text \<open>A backward transition at \<open>w\<close>: the offset shrinks there, so the wall clock repeats.\<close>

definition backward_at :: "location \<Rightarrow> time \<Rightarrow> bool" where
  "backward_at loc w \<longleftrightarrow> w \<in> fst ` set (loc_tx loc) \<and> Zone loc w < Zone loc (w - Second)"

lemma finite_backward: "finite {w. backward_at loc w \<and> P w}"
  by (rule finite_subset [of _ "fst ` set (loc_tx loc)"]) (auto simp: backward_at_def)

lemma bounds_from_start_ge:
  "sorted_wrt (<) (map fst tx) \<Longrightarrow> (\<forall>p \<in> set tx. s < fst p) \<Longrightarrow> s \<le> fst (bounds_from s tx t)"
  by (induction s tx t rule: bounds_from.induct) fastforce+

lemma ZoneBounds_same:
  assumes "wf_location loc" "fst (ZoneBounds loc t) \<le> u" "u \<le> t" "fst (ZoneBounds loc t) \<noteq> 0"
  shows "fst (ZoneBounds loc u) = fst (ZoneBounds loc t)" "Zone loc u = Zone loc t"
proof -
  have *: "sorted_wrt (<) (map fst tx) \<Longrightarrow> (\<forall>p \<in> set tx. s < fst p) \<Longrightarrow>
     fst (bounds_from s tx t) \<le> u \<Longrightarrow> u \<le> t \<Longrightarrow>
     fst (bounds_from s tx u) = fst (bounds_from s tx t)
       \<and> zone_from off tx u = zone_from off tx t" for s off tx
  proof (induction tx arbitrary: s off)
    case (Cons p tx)
    obtain w off' where p: "p = (w, off')" by (cases p)
    show ?case
    proof (cases "t < w")
      case False
      have "w \<le> fst (bounds_from w tx t)"
        using Cons.prems(1) p by (intro bounds_from_start_ge) auto
      then have "w \<le> u" using Cons.prems False p by simp
      then show ?thesis using Cons.IH [of w off'] Cons.prems False p by simp
    qed (use Cons.prems p in simp)
  qed simp
  show "fst (ZoneBounds loc u) = fst (ZoneBounds loc t)" "Zone loc u = Zone loc t"
    using * [of "loc_tx loc" 0 "loc_first loc"] assms
    by (auto simp: ZoneBounds_def Zone_def wf_location_def)
qed

lemma secondFoldEnd_backward:
  assumes "wf_location loc" "secondFoldEnd loc t = Some fin"
  shows "backward_at loc (fst (ZoneBounds loc t))" "fst (ZoneBounds loc t) \<le> t"
    and "fst (ZoneBounds loc t) \<le> u \<Longrightarrow> u \<le> t \<Longrightarrow> secondFoldEnd loc u = Some fin"
proof -
  let ?w = "fst (ZoneBounds loc t)"
  have nz: "?w \<noteq> 0" and shrinks: "Zone loc t < Zone loc (?w - Second)" and tf: "t < fin"
    using assms(2) by (auto simp: secondFoldEnd_def Let_def split: if_splits)
  note start = ZoneBounds_start [OF assms(1) nz]
  show "?w \<le> t" by (rule start(2))
  have "Zone loc ?w = Zone loc t" using ZoneBounds_same [OF assms(1) _ start(2) nz] by simp
  then show "backward_at loc ?w" using start(1) shrinks by (simp add: backward_at_def)
  show "secondFoldEnd loc u = Some fin" if "?w \<le> u" "u \<le> t"
    using ZoneBounds_same [OF assms(1) that nz] assms(2) that tf
    by (auto simp: secondFoldEnd_def Let_def split: if_splits)
qed

text \<open>A candidate that is still in a second copy after \<open>n\<close> rounds has passed \<open>n\<close> backward
  transitions.\<close>

lemma suppressFold_passes:
  assumes "wf_location (cs_loc c)" "cron_next_ok (cs_cron c)"
  shows "suppressFold n c t = Inr u \<Longrightarrow> secondFoldEnd (cs_loc c) u \<noteq> None \<Longrightarrow>
    n \<le> card {w. backward_at (cs_loc c) w \<and> t < w \<and> w \<le> u}"
proof (induction n arbitrary: t)
  case (Suc n)
  let ?loc = "cs_loc c" and ?B = "\<lambda>s. {w. backward_at (cs_loc c) w \<and> s < w \<and> w \<le> u}"
  obtain foldEnd where fe: "secondFoldEnd ?loc t = Some foldEnd"
    using Suc.prems by (cases "secondFoldEnd ?loc t") auto
  let ?t' = "cs_cron c ?loc (foldEnd - Second)"
  have nz: "?t' \<noteq> 0" and rec: "suppressFold n c ?t' = Inr u"
    using Suc.prems(1) fe by (auto simp: Let_def split: if_splits)
  have t': "t < foldEnd" "foldEnd \<le> ?t'" "?t' \<le> u"
    using secondFoldEnd_Some [OF assms(1) fe] cron_after_fold [OF assms fe nz]
      suppressFold_ge [OF assms rec] by auto
  have "secondFoldEnd ?loc ?t' \<noteq> None"
    using Suc.prems(2) rec by (cases n) (auto split: option.splits)
  then obtain fe' where fe': "secondFoldEnd ?loc ?t' = Some fe'" by auto
  let ?w = "fst (ZoneBounds ?loc ?t')"
  note w = secondFoldEnd_backward [OF assms(1) fe']
  have "t < ?w"
  proof (rule ccontr)
    assume "\<not> t < ?w"
    then have "fe' = foldEnd" using w(3) [of t] t' fe by simp
    then show False using secondFoldEnd_Some [OF assms(1) fe'] t' by simp
  qed
  then have "insert ?w (?B ?t') \<subseteq> ?B t" "?w \<notin> ?B ?t'" using w t' by auto
  moreover have "n \<le> card (?B ?t')" by (rule Suc.IH [OF rec Suc.prems(2)])
  ultimately show ?case
    using card_mono [OF finite_backward, of "insert ?w (?B ?t')" ?loc "\<lambda>w. t < w \<and> w \<le> u"]
      finite_backward [of ?loc "\<lambda>w. ?t' < w \<and> w \<le> u"] by simp
qed simp

lemma Zone_second_before:
  assumes "wf_location loc" "w \<in> fst ` set (loc_tx loc)"
  shows "Zone loc (w - 1) = Zone loc (w - Second)"
proof (rule Zone_const [OF assms(1)])
  have w0: "Second dvd w" using assms by (auto simp: wf_location_def)
  show "\<forall>p \<in> set (loc_tx loc). \<not> (w - Second < fst p \<and> fst p \<le> w - 1)"
  proof clarify
    fix v off assume "(v, off) \<in> set (loc_tx loc)" "w - Second < fst (v, off)" "fst (v, off) \<le> w - 1"
    moreover from this have "Second dvd v" using assms(1) by (auto simp: wf_location_def)
    ultimately show False using whole_seconds_ge [of v w] w0 by simp
  qed
qed simp

lemma forward_not_second_fold:
  assumes "wf_location loc" "forward_at loc w"
  shows "secondFoldEnd loc w = None"
proof -
  have mem: "w \<in> fst ` set (loc_tx loc)" using assms(2) by (simp add: forward_at_def)
  have "Zone loc (w - 1) = Zone loc (w - Second)" by (rule Zone_second_before [OF assms(1) mem])
  moreover have "fst (ZoneBounds loc w) = w"
  proof -
    have "sorted_wrt (<) (map fst tx) \<Longrightarrow> w \<in> fst ` set tx \<Longrightarrow> fst (bounds_from s tx w) = w" for s tx
    proof (induction s tx w rule: bounds_from.induct)
      case (2 s v off tx w)
      then show ?case by (cases "w = v") (cases tx, auto)
    qed simp
    then show ?thesis using mem assms(1) by (simp add: ZoneBounds_def wf_location_def)
  qed
  ultimately show ?thesis
    using assms(2) by (simp add: secondFoldEnd_def forward_at_def Let_def)
qed

lemma nextFire_not_second_fold:
  assumes "wf_location (cs_loc c)" "cron_next_ok (cs_cron c)" "cs_interval c \<le> 0"
    and "nextFire c after anchor = Inr t"
    and "card {w. backward_at (cs_loc c) w \<and> after < w \<and> w \<le> t} < 4"
  shows "secondFoldEnd (cs_loc c) t = None"
proof -
  from nextFire_cron_cases [OF assms(1-4)] obtain first candidate where
    *: "after < first" "first \<le> candidate" "suppressFold 4 c first = Inr candidate"
       "t = coalesceGap c after candidate" by blast
  show ?thesis
  proof (cases "t = candidate")
    case True
    have "card {w. backward_at (cs_loc c) w \<and> first < w \<and> w \<le> t}
      \<le> card {w. backward_at (cs_loc c) w \<and> after < w \<and> w \<le> t}"
      using *(1) by (intro card_mono finite_backward) auto
    then show ?thesis
      using suppressFold_passes [OF assms(1,2) *(3)] assms(5) True by fastforce
  next
    case False
    then obtain p off where "forwardTransition after candidate (cs_loc c) = Some (t, p, off)"
      using *(4) by (auto simp: coalesceGap_def Let_def split: option.splits if_splits)
    then show ?thesis
      using forward_not_second_fold [OF assms(1)] forwardTransition_SomeD [OF assms(1)] by blast
  qed
qed

text \<open>What the wall clock shows decides, independently of the search: \<open>t\<close> is in the second copy of a repeated
  interval when the zone in force just before the last transition showed the same wall-clock time. A transition
  repeats an instant \<open>a\<close> at most as long as the clock was set back.\<close>

definition second_copy :: "location \<Rightarrow> time \<Rightarrow> bool" where
  "second_copy loc t \<longleftrightarrow> (\<exists>u w. u < w \<and> w \<le> t \<and> w \<in> fst ` set (loc_tx loc) \<and>
     (\<forall>p \<in> set (loc_tx loc). u < fst p \<and> fst p \<le> t \<longrightarrow> fst p = w) \<and>
     u + Zone loc u * Second = t + Zone loc t * Second)"

definition set_back :: "location \<Rightarrow> time \<Rightarrow> bool" where
  "set_back loc a \<longleftrightarrow> (\<exists>w. backward_at loc w \<and> w \<le> a \<and> a < w + (Zone loc (w - Second) - Zone loc w) * Second)"

text \<open>\<open>A\<close> holds the activations of a cron expression in a location: \<^verbatim>\<open>Next\<close> returns the earliest
  one that is later.\<close>

definition activations :: "cron_next \<Rightarrow> location \<Rightarrow> time set \<Rightarrow> bool" where
  "activations nxt loc A \<longleftrightarrow> (\<forall>t. (nxt loc t \<noteq> zero_time \<longrightarrow> nxt loc t \<in> A) \<and>
     (\<forall>a \<in> A. t < a \<longrightarrow> nxt loc t \<noteq> zero_time \<and> nxt loc t \<le> a))"

lemma ZoneBounds_start_last:
  assumes "wf_location loc" "w \<in> fst ` set (loc_tx loc)" "w \<le> t"
  shows "w \<le> fst (ZoneBounds loc t)"
proof -
  have "sorted_wrt (<) (map fst tx) \<Longrightarrow> (\<forall>p \<in> set tx. s < fst p) \<Longrightarrow> w \<in> fst ` set tx \<Longrightarrow> w \<le> t \<Longrightarrow> w \<le> fst (bounds_from s tx t)" for s tx t
  proof (induction s tx t rule: bounds_from.induct)
    case (2 s v off tx t)
    have "v \<le> fst (bounds_from v tx t)" using "2.prems"(1) by (intro bounds_from_start_ge) auto
    then show ?case using 2 by (cases "t < v") auto
  qed simp
  from this [of "loc_tx loc" 0 t] show ?thesis using assms by (auto simp: ZoneBounds_def wf_location_def)
qed

lemma second_copy_fold:
  assumes wf: "wf_location loc" and "second_copy loc t"
  shows "secondFoldEnd loc t \<noteq> None"
proof -
  from assms(2) obtain u w where uw: "u < w" "w \<le> t" and mem: "w \<in> fst ` set (loc_tx loc)"
    and only: "\<forall>p \<in> set (loc_tx loc). u < fst p \<and> fst p \<le> t \<longrightarrow> fst p = w"
    and wall: "u + Zone loc u * Second = t + Zone loc t * Second"
    unfolding second_copy_def by blast
  let ?s = "fst (ZoneBounds loc t)"
  have le: "w \<le> ?s" by (rule ZoneBounds_start_last [OF wf mem uw(2)])
  have "0 < w" using mem wf by (auto simp: wf_location_def)
  then have nz: "?s \<noteq> 0" using le by simp
  have s: "?s = w" using ZoneBounds_start [OF wf nz] only le uw by force
  have "Zone loc (w - 1) = Zone loc u" using only uw by (intro Zone_const [OF wf]) force+
  then have z: "Zone loc (w - Second) = Zone loc u" using Zone_second_before [OF wf mem] by simp
  show ?thesis using uw wall nz unfolding secondFoldEnd_def Let_def s z by (auto simp: left_diff_distrib)
qed

lemma fold_set_back:
  assumes "wf_location loc" "secondFoldEnd loc t = Some fin" "t \<le> a" "a < fin"
  shows "set_back loc a"
proof -
  let ?w = "fst (ZoneBounds loc t)"
  note b = secondFoldEnd_backward(1,2) [OF assms(1,2)]
  have nz: "?w \<noteq> 0" and fin: "fin = ?w + (Zone loc (?w - Second) - Zone loc t) * Second"
    using assms(2) by (auto simp: secondFoldEnd_def Let_def split: if_splits)
  have "Zone loc ?w = Zone loc t" using ZoneBounds_same(2) [OF assms(1) _ b(2) nz] by simp
  then show ?thesis unfolding set_back_def using b assms(3,4) fin by (intro exI [of _ ?w]) simp
qed

lemma suppressFold_skips:
  assumes wf: "wf_location (cs_loc c)" and A: "activations (cs_cron c) (cs_loc c) A" "a \<in> A"
  shows "suppressFold n c t = Inr u \<Longrightarrow> t \<le> a \<Longrightarrow> a < u \<Longrightarrow> set_back (cs_loc c) a"
proof (induction n arbitrary: t)
  case (Suc n)
  then obtain fin where f: "secondFoldEnd (cs_loc c) t = Some fin"
    by (cases "secondFoldEnd (cs_loc c) t") auto
  have rec: "suppressFold n c (cs_cron c (cs_loc c) (fin - Second)) = Inr u"
    using Suc.prems(1) f by (auto simp: Let_def split: if_splits)
  show ?case
  proof (cases "a < fin")
    case True
    then show ?thesis using fold_set_back [OF wf f Suc.prems(2)] by simp
  next
    case False
    then have "cs_cron c (cs_loc c) (fin - Second) \<le> a" using A by (simp add: activations_def)
    then show ?thesis using Suc.IH [OF rec] Suc.prems(3) by simp
  qed
qed simp

lemma nextFire_skips:
  assumes wf: "wf_location (cs_loc c)" "cron_next_ok (cs_cron c)" "cs_interval c \<le> 0"
    and t: "nextFire c after anchor = Inr t" and A: "activations (cs_cron c) (cs_loc c) A" "a \<in> A" "after < a" "a < t"
  shows "set_back (cs_loc c) a"
proof -
  define origin where "origin = (case secondFoldEnd (cs_loc c) after of
      Some foldEnd \<Rightarrow> foldEnd - Second | None \<Rightarrow> after)"
  obtain first candidate where "after < first" "first \<le> candidate" and first: "first = cs_cron c (cs_loc c) origin"
    and c: "suppressFold 4 c first = Inr candidate" "t = coalesceGap c after candidate"
    using nextFire_cron_cases [OF wf t] unfolding origin_def by metis
  then have "a < candidate" using coalesceGap_bounds [OF wf(1), of after candidate] A(4) by simp
  show ?thesis
  proof (cases "origin < a")
    case True
    then have "first \<le> a" using A by (simp add: activations_def first)
    then show ?thesis using suppressFold_skips [OF wf(1) A(1,2) c(1)] \<open>a < candidate\<close> by simp
  next
    case False
    then obtain fin where "secondFoldEnd (cs_loc c) after = Some fin" "a < fin"
      using A(3) by (cases "secondFoldEnd (cs_loc c) after") (auto simp: origin_def)
    then show ?thesis using fold_set_back [OF wf(1)] A(3) by simp
  qed
qed

section \<open>Missed occurrences\<close>

text \<open>\<open>fire_at_end c anchor lastf now t\<close>: the occurrence after \<open>t\<close> is later than
  \<open>now\<close>, so \<open>t\<close> is the latest one up to \<open>now\<close>.\<close>

definition fire_at_end :: "compiled_schedule \<Rightarrow> time \<Rightarrow> time \<Rightarrow> time \<Rightarrow> time \<Rightarrow> bool" where
  "fire_at_end c anchor lastf now t \<longleftrightarrow>
     (case nextFireDistinct c t anchor lastf of Inl e \<Rightarrow> False | Inr u \<Rightarrow> now < u)"

fun fire_chain :: "compiled_schedule \<Rightarrow> time \<Rightarrow> time \<Rightarrow> time list \<Rightarrow> bool" where
  "fire_chain c anchor lastf (t # u # ts) \<longleftrightarrow>
     nextFireDistinct c t anchor lastf = Inr u \<and> fire_chain c anchor lastf (u # ts)"
| "fire_chain c anchor lastf ts \<longleftrightarrow> True"

lemma scanWindow_Inr:
  assumes "wf_location (cs_loc c)" "cron_next_ok (cs_cron c)" "cs_interval c \<le> max_int64"
  shows "scanWindow n c ctx anchor lastf now cursor best = Inr b \<Longrightarrow>
    (b = best \<and> fire_at_end c anchor lastf now cursor)
    \<or> (cursor < b \<and> b \<le> now \<and> fire_at_end c anchor lastf now b)"
proof (induction n arbitrary: cursor best)
  case (Suc n)
  then obtain u where u: "nextFireDistinct c cursor anchor lastf = Inr u"
    by (auto simp: Let_def split: if_splits sum.splits)
  have cu: "cursor < u" by (rule nextFireDistinct_after [OF assms u])
  show ?case
  proof (cases "now < u")
    case True
    then show ?thesis using Suc.prems u by (auto simp: Let_def fire_at_end_def split: if_splits)
  next
    case False
    then have "scanWindow n c ctx anchor lastf now u u = Inr b"
      using Suc.prems u by (auto simp: Let_def split: if_splits)
    from Suc.IH [OF this] show ?thesis using cu False by auto
  qed
qed simp

lemma latestFireLoop_Inr:
  assumes "wf_location (cs_loc c)" "cron_next_ok (cs_cron c)" "cs_interval c \<le> max_int64" "first < now"
  shows "latestFireLoop fuel c ctx first anchor lastf now window = Some (Inr b) \<Longrightarrow>
    first \<le> b \<and> b \<le> now \<and> fire_at_end c anchor lastf now b"
proof (induction fuel arbitrary: window)
  case (Suc fuel)
  define full where "full = (window \<ge> time_sub now first \<or> window > max_int64 sdiv 8)"
  define start where "start = (if full then first else now - window)"
  define best where "best = (if full then first else zero_time)"
  have first: "first \<le> start"
    using time_sub_le [of first now] assms(4) by (auto simp: start_def full_def)
  obtain found where found: "scanWindow maxCatchUpWindow c ctx anchor lastf now start best = Inr found"
    using Suc.prems unfolding start_def best_def full_def
    by (auto simp: Let_def simp del: scanWindow.simps split: sum.splits)
  note scan = scanWindow_Inr [OF assms(1-3) found]
  show ?case
  proof (cases "found = 0")
    case True
    then have "latestFireLoop fuel c ctx first anchor lastf now (wrap64 (window * 8)) = Some (Inr b)"
      using Suc.prems found unfolding start_def best_def full_def
      by (simp add: Let_def del: scanWindow.simps)
    then show ?thesis by (rule Suc.IH)
  next
    case False
    then have "b = found"
      using Suc.prems found unfolding start_def best_def full_def
      by (simp add: Let_def del: scanWindow.simps)
    then show ?thesis
      using scan False first assms(4) by (auto simp: start_def best_def split: if_splits)
  qed
qed simp

lemma scanWindow_positive:
  assumes "wf_location (cs_loc c)" "cron_next_ok (cs_cron c)" "cs_interval c \<le> max_int64"
    and "0 < cursor" "0 < best" "scanWindow n c ctx anchor lastf now cursor best = Inr b"
  shows "0 < b"
  using scanWindow_Inr [OF assms(1-3,6)] assms(4,5) by auto

lemma latestFireLoop_returns:
  assumes "wf_location (cs_loc c)" "cron_next_ok (cs_cron c)" "cs_interval c \<le> max_int64" "0 < first"
  shows "0 < window \<Longrightarrow> max_int64 sdiv 8 < window * 8 ^ k \<Longrightarrow>
    \<exists>r. latestFireLoop (Suc k) c ctx first anchor lastf now window = Some r"
proof (induction k arbitrary: window)
  case 0
  then show ?case
    using scanWindow_positive [OF assms(1-3,4,4)]
    by (force simp: Let_def simp del: scanWindow.simps split: sum.splits)
next
  case (Suc k)
  show ?case
  proof (cases "window \<ge> time_sub now first \<or> window > max_int64 sdiv 8")
    case True
    then show ?thesis
      using scanWindow_positive [OF assms(1-3,4,4)]
      by (subst latestFireLoop.simps)
        (force simp: Let_def simp del: scanWindow.simps latestFireLoop.simps split: sum.splits)
  next
    case False
    then have "window * 8 \<le> max_int64" by (simp add: max_int64_def signed_divide_int_def)
    then have "wrap64 (window * 8) = window * 8"
      using Suc.prems by (intro wrap64_id) (simp add: fits64_nonneg)
    then show ?thesis
      using Suc.IH [of "window * 8"] Suc.prems
      by (subst latestFireLoop.simps)
        (auto simp: Let_def simp del: scanWindow.simps latestFireLoop.simps split: sum.splits)
  qed
qed

text \<open>Eight windows are enough: from an hour, seven multiplications by eight pass the bound at
  which the search starts from the first occurrence.\<close>

lemma latestFire_returns:
  assumes "wf_location (cs_loc c)" "cron_next_ok (cs_cron c)" "cs_interval c \<le> max_int64" "0 < first"
  shows "\<exists>r. latestFire c ctx first anchor lastf now = Some r"
proof -
  have "max_int64 sdiv 8 < Hour * 8 ^ 7" by (simp add: max_int64_def signed_divide_int_def)
  moreover have "(8::nat) = Suc 7" by simp
  ultimately show ?thesis
    using latestFireLoop_returns [OF assms, of Hour 7 ctx anchor lastf now]
    unfolding latestFire_def by simp
qed

lemma countFires_exact:
  "countFires n c ctx anchor lastf now latest cursor = Inr (m, True) \<Longrightarrow> n \<le> maxCatchUpCount \<Longrightarrow>
   cursor \<le> now \<Longrightarrow>
   \<exists>ts. ts \<noteq> [] \<and> hd ts = cursor \<and> fire_chain c anchor lastf ts \<and> (\<forall>t \<in> set ts. t \<le> now) \<and>
     m = (maxCatchUpCount - n) + length ts \<and>
     (last ts = latest \<or> fire_at_end c anchor lastf now (last ts))"
proof (induction n arbitrary: cursor)
  case (Suc n)
  show ?case
  proof (cases "cursor = latest")
    case True
    then show ?thesis
      using Suc.prems by (intro exI [of _ "[cursor]"]) (auto simp: Let_def split: if_splits)
  next
    case False
    then obtain u where u: "nextFireDistinct c cursor anchor lastf = Inr u"
      and rec: "countFires n c ctx anchor lastf now latest u = Inr (m, True)"
      using Suc.prems(1,3) by (auto simp: Let_def split: if_splits sum.splits)
    show ?thesis
    proof (cases "u \<le> now")
      case True
      from Suc.IH [OF rec _ True] Suc.prems(2) obtain ts where
        "ts \<noteq> []" "hd ts = u" "fire_chain c anchor lastf ts" "\<forall>t \<in> set ts. t \<le> now"
        "m = maxCatchUpCount - n + length ts"
        "last ts = latest \<or> fire_at_end c anchor lastf now (last ts)" by auto
      then show ?thesis
        using u Suc.prems(2,3) by (intro exI [of _ "cursor # ts"]) (cases ts, auto)
    next
      case False
      then have "m = maxCatchUpCount - n" using rec by (cases n) (auto simp: Let_def split: if_splits)
      then show ?thesis
        using u False Suc.prems(2,3) by (intro exI [of _ "[cursor]"]) (auto simp: fire_at_end_def)
    qed
  qed
qed simp

text \<open>\<open>interval_overdue\<close> is the interval branch of \<open>overdue\<close>, in exact arithmetic.\<close>

lemma overdue_interval:
  assumes "0 < cs_interval c" "cs_interval c \<le> max_int64"
    and "nextFireDistinct c (if lastf = 0 then anchor else lastf) anchor lastf = Inr first"
    and "first < now" "now - first \<le> max_int64"
  shows "overdue c ctx anchor lastf now want
    = Some (Inr \<lparr>od_first = first,
        od_latest = first + (now - first) div cs_interval c * cs_interval c,
        od_count = min max_int64 ((now - first) div cs_interval c + 1), od_exact = True\<rparr>)"
proof -
  let ?i = "cs_interval c" and ?s = "(now - first) div cs_interval c"
  have sub: "time_sub now first = now - first"
    using assms(4,5) by (intro time_sub_exact) (simp add: fits64_nonneg)
  have steps: "time_sub now first sdiv ?i = ?s"
    unfolding sub using assms(1,4) by (intro sdiv_nonneg) auto
  have s0: "0 \<le> ?s" using assms(1,4) by (simp add: pos_imp_zdiv_nonneg_iff)
  have "?s * ?i \<le> now - first" using assms(1) by (simp add: minus_mod_eq_div_mult [symmetric])
  then have m: "wrap64 (?s * ?i) = ?s * ?i"
    using s0 assms(1,5) by (intro wrap64_id) (simp add: fits64_nonneg)
  have le: "?s \<le> max_int64"
  proof -
    have "?s * 1 \<le> ?s * ?i" using s0 assms(1) by (intro mult_left_mono) auto
    then show ?thesis using \<open>?s * ?i \<le> now - first\<close> assms(5) by simp
  qed
  have "?s < max_int64 \<Longrightarrow> wrap64 (?s + 1) = ?s + 1"
    using s0 by (intro wrap64_id) (simp add: fits64_nonneg)
  then show ?thesis
    using assms(1,3,4) le by (auto simp: overdue_def Let_def steps m)
qed

lemma overdue_cron:
  assumes ok: "wf_location (cs_loc c)" "cron_next_ok (cs_cron c)" "cs_interval c \<le> 0"
    and od: "overdue c ctx anchor lastf now want = Some (Inr od)" "0 < od_count od"
  shows "od_first od \<le> od_latest od \<and> od_latest od \<le> now
      \<and> fire_at_end c anchor lastf now (od_latest od)"
    and "od_exact od \<Longrightarrow> \<exists>ts. ts \<noteq> [] \<and> hd ts = od_first od \<and> fire_chain c anchor lastf ts
      \<and> (\<forall>t \<in> set ts. t \<le> now) \<and> od_count od = int (length ts)
      \<and> (last ts = od_latest od \<or> fire_at_end c anchor lastf now (last ts))"
proof -
  have ok3: "cs_interval c \<le> max_int64" using ok(3) by (simp add: max_int64_def)
  obtain first where f: "nextFireDistinct c (if lastf = 0 then anchor else lastf) anchor lastf = Inr first"
    using od by (auto simp: overdue_def Let_def split: sum.splits if_splits)
  have fn: "first < now" using od f by (auto simp: overdue_def Let_def no_overdue_def split: if_splits)
  obtain latest where l: "latestFire c ctx first anchor lastf now = Some (Inr latest)"
    using od(1) f fn ok(3) by (auto simp: overdue_def Let_def split: sum.splits if_splits option.splits)
  have fields: "od_first od = first \<and> od_latest od = latest"
    using od(1) f fn ok(3) l
    by (auto simp: overdue_def Let_def split: sum.splits if_splits prod.splits)
  then show "od_first od \<le> od_latest od \<and> od_latest od \<le> now
      \<and> fire_at_end c anchor lastf now (od_latest od)"
    using latestFireLoop_Inr [OF ok(1,2) ok3 fn l [unfolded latestFire_def]] by simp
  assume ex: "od_exact od"
  show "\<exists>ts. ts \<noteq> [] \<and> hd ts = od_first od \<and> fire_chain c anchor lastf ts
      \<and> (\<forall>t \<in> set ts. t \<le> now) \<and> od_count od = int (length ts)
      \<and> (last ts = od_latest od \<or> fire_at_end c anchor lastf now (last ts))"
  proof (cases "latest = first")
    case True
    then have "od_count od = 1"
      using od(1) f fn ok(3) l by (auto simp: overdue_def Let_def split: if_splits)
    then show ?thesis using fields True fn by (intro exI [of _ "[first]"]) auto
  next
    case False
    then obtain m where m: "countFires maxCatchUpCount c ctx anchor lastf now latest first = Inr (m, True)"
      and "od_count od = int m"
      using od(1) f fn ok(3) l ex
      by (auto simp: overdue_def Let_def simp del: countFires.simps split: sum.splits if_splits prod.splits)
    then show ?thesis
      using countFires_exact [OF m order_refl] fn fields by fastforce
  qed
qed

lemma countFires_positive:
  "countFires n c ctx anchor lastf now latest cursor = Inr (m, b) \<Longrightarrow> n \<le> maxCatchUpCount \<Longrightarrow> cursor \<le> now \<Longrightarrow>
   0 < n \<Longrightarrow> 0 < m \<and> (\<not> b \<longrightarrow> m = maxCatchUpCount)"
proof (induction n arbitrary: cursor)
  case (Suc n)
  show ?case
  proof (cases "cursor = latest")
    case False
    then obtain u where rec: "countFires n c ctx anchor lastf now latest u = Inr (m, b)"
      using Suc.prems(1,3) by (auto simp: Let_def split: if_splits sum.splits)
    show ?thesis
    proof (cases "u \<le> now \<and> 0 < n")
      case True
      then show ?thesis using Suc.IH [OF rec] Suc.prems(2) by simp
    next
      case False
      then show ?thesis using rec Suc.prems(2) by (cases n) (auto simp: Let_def split: if_splits)
    qed
  qed (use Suc.prems in \<open>auto simp: Let_def split: if_splits\<close>)
qed simp

lemma overdue_report:
  assumes ok: "wf_location (cs_loc c)" "cron_next_ok (cs_cron c)" "cs_interval c \<le> 0"
    and od: "overdue c ctx anchor lastf now want = Some (Inr od)"
    and f: "nextFireDistinct c (if lastf = 0 then anchor else lastf) anchor lastf = Inr first" and "\<not> now \<le> first"
  shows "0 < od_count od" "od_first od = first" "want \<Longrightarrow> \<not> od_exact od \<Longrightarrow> od_count od = int maxCatchUpCount"
proof -
  have fn: "first < now" using assms(6) by simp
  obtain latest where l: "latestFire c ctx first anchor lastf now = Some (Inr latest)"
    using od f fn ok(3) by (auto simp: overdue_def Let_def split: sum.splits if_splits option.splits)
  have "0 < maxCatchUpCount" by (simp add: maxCatchUpCount_def)
  then have pos: "0 < m \<and> (\<not> b \<longrightarrow> m = maxCatchUpCount)"
    if "countFires maxCatchUpCount c ctx anchor lastf now latest first = Inr (m, b)" for m b
    using countFires_positive [OF that order_refl] fn by simp
  have eq: "Inr od = (if latest = first then Inr \<lparr>od_first = first, od_latest = latest, od_count = 1, od_exact = True\<rparr>
      else if \<not> want then Inr \<lparr>od_first = first, od_latest = latest, od_count = 2, od_exact = False\<rparr>
      else case countFires maxCatchUpCount c ctx anchor lastf now latest first of Inl e \<Rightarrow> Inl e
        | Inr (n, exact) \<Rightarrow> Inr \<lparr>od_first = first, od_latest = latest, od_count = int n, od_exact = exact\<rparr>)"
    using od fn ok(3) unfolding overdue_def Let_def f by (simp add: l split: if_splits sum.splits prod.splits)
  show "0 < od_count od" "od_first od = first" "want \<Longrightarrow> \<not> od_exact od \<Longrightarrow> od_count od = int maxCatchUpCount"
    using eq pos by (auto split: sum.splits if_splits prod.splits)
qed

lemma overdue_returns:
  assumes ok: "wf_location (cs_loc c)" "cron_next_ok (cs_cron c)" "cs_interval c \<le> max_int64"
    and "0 \<le> anchor" "0 \<le> lastf"
  shows "\<exists>r. overdue c ctx anchor lastf now want = Some r"
proof (cases "nextFireDistinct c (if lastf = 0 then anchor else lastf) anchor lastf")
  case (Inr first)
  have "0 < first" using nextFireDistinct_after [OF ok Inr] assms(4,5) by (auto split: if_splits)
  from latestFire_returns [OF ok this, of ctx anchor lastf now] show ?thesis
    using Inr by (auto simp: overdue_def Let_def split: sum.splits prod.splits)
qed (simp add: overdue_def Let_def)

section \<open>Properties\<close>

text \<open>A schedule that fires on every whole minute, and a zone that falls back by an hour, for
  the concrete instances below.\<close>

definition every_minute :: cron_next where
  "every_minute loc t = (max 0 (t div Minute) + 1) * Minute"

definition fall_back :: location where
  "fall_back = \<lparr>loc_first = 7200, loc_tx = [(1000 * Hour, 3600)]\<rparr>"

definition minute_schedule :: "location \<Rightarrow> compiled_schedule" where
  "minute_schedule loc = \<lparr>cs_raw = ''* * * * *'', cs_interval = 0, cs_loc = loc, cs_cron = every_minute\<rparr>"

definition ten_seconds :: compiled_schedule where
  "ten_seconds = \<lparr>cs_raw = ''@every 10s'', cs_interval = 10 * Second, cs_loc = FixedZone 0, cs_cron = no_cron\<rparr>"

lemma every_minute_ok: "cron_next_ok every_minute"
  by (auto simp: cron_next_ok_def every_minute_def)

lemma no_cron_ok: "cron_next_ok no_cron"
  by (simp add: cron_next_ok_def no_cron_def)

lemma fall_back_wf: "wf_location fall_back" and FixedZone_wf: "wf_location (FixedZone off)"
  by (simp_all add: wf_location_def fall_back_def FixedZone_def)

text \<open>C1: an interval schedule never drifts: as long as the elapsed periods are within the
  64-bit range, the next fire exists, lies strictly after the given time on the grid
  anchor + k * interval, and is the first such grid point.\<close>

theorem nextFire_interval_grid:
  assumes "0 < cs_interval c" "cs_interval c \<le> max_int64" "anchor \<le> after"
    and "(after - anchor) div cs_interval c < max_int64 div cs_interval c"
  shows "\<exists>t. nextFire c after anchor = Inr t \<and> after < t \<and> (\<exists>k \<ge> 1. t = anchor + k * cs_interval c) \<and>
    (\<forall>k \<ge> 1. after < anchor + k * cs_interval c \<longrightarrow> t \<le> anchor + k * cs_interval c)"
  using nextFire_interval [OF assms] nextFire_interval_Inr [OF assms(1,2)] by blast

theorem nextFire_interval_grid_witness:
  "nextFire ten_seconds (unix_epoch + 25 * Second) unix_epoch = Inr (unix_epoch + 30 * Second) \<and>
   (\<exists>t. nextFire ten_seconds (unix_epoch + 25 * Second) unix_epoch = Inr t \<and> unix_epoch + 25 * Second < t)"
proof
  show "nextFire ten_seconds (unix_epoch + 25 * Second) unix_epoch = Inr (unix_epoch + 30 * Second)"
    by (code_simp)
  show "\<exists>t. nextFire ten_seconds (unix_epoch + 25 * Second) unix_epoch = Inr t \<and> unix_epoch + 25 * Second < t"
    using nextFire_interval_grid [of ten_seconds unix_epoch "unix_epoch + 25 * Second"]
    by (auto simp: ten_seconds_def max_int64_def)
qed

text \<open>Time moves forward: whatever the schedule (interval or cron, in any time zone), an
  occurrence computed for a time, also with the duplicate-wall-minute rule, is strictly later
  than that time, so no scheduling loop can fire twice for one instant or get stuck on one.\<close>

lemma nextFire_advances:
  assumes "wf_location (cs_loc c)" "cron_next_ok (cs_cron c)" "cs_interval c \<le> max_int64"
  shows "(\<forall>t. nextFire c after anchor = Inr t \<longrightarrow> after < t) \<and>
    (\<forall>t. nextFireDistinct c after anchor lastf = Inr t \<longrightarrow> after < t)"
  using nextFire_after [OF assms] nextFireDistinct_after [OF assms] by blast

lemma nextFire_advances_example:
  "nextFire (minute_schedule fall_back) (1000 * Hour - 1) 0 = Inr (1001 * Hour)
   \<and> 1000 * Hour - 1 < 1001 * Hour"
proof -
  have "nextFire (minute_schedule fall_back) (1000 * Hour - 1) 0 = Inr (1001 * Hour)"
    by code_simp
  moreover from this have "1000 * Hour - 1 < 1001 * Hour"
    using nextFire_advances [of "minute_schedule fall_back" "1000 * Hour - 1" 0 0] fall_back_wf every_minute_ok
    by (auto simp: minute_schedule_def max_int64_def)
  ultimately show ?thesis by blast
qed

lemma every_minute_activations: "activations every_minute loc {a. Minute dvd a \<and> 0 < a}"
proof -
  have "every_minute loc t \<le> a" if a: "Minute dvd a" "0 < a" "t < a" for t a
  proof -
    obtain k where k: "a = Minute * k" using a(1) by (elim dvdE)
    then have "t div Minute < k" "0 < k" using a(2,3) by (simp_all add: div_less_iff_less_mult)
    then show ?thesis by (simp add: every_minute_def k)
  qed
  then show ?thesis by (auto simp: activations_def) (auto simp: every_minute_def)
qed

text \<open>C2: a wall-clock interval repeated by a fall-back transition fires only in its first
  copy, and nothing else is left out: a cron occurrence never shows a wall-clock time that was shown in the zone before
  the last transition, unless four or more backward transitions lie between the given time and it (the bound of the
  source's loop); and an activation of the cron expression that is passed over lies after a backward transition by less than the
  clock was set back.\<close>

theorem nextFire_skips_second_fold:
  assumes "wf_location (cs_loc c)" "cron_next_ok (cs_cron c)" "cs_interval c \<le> 0"
    and "nextFire c after anchor = Inr t"
    and "card {w. backward_at (cs_loc c) w \<and> after < w \<and> w \<le> t} < 4"
  shows "\<not> second_copy (cs_loc c) t \<and>
    (\<forall>A a. activations (cs_cron c) (cs_loc c) A \<and> a \<in> A \<and> after < a \<and> a < t \<longrightarrow> set_back (cs_loc c) a)"
  using nextFire_not_second_fold [OF assms] second_copy_fold [OF assms(1)] nextFire_skips [OF assms(1-4)] by blast

theorem nextFire_skips_second_fold_witness:
  "second_copy fall_back (1000 * Hour) \<and> \<not> second_copy fall_back (1001 * Hour) \<and> set_back fall_back (1000 * Hour)"
proof -
  have "second_copy fall_back (1000 * Hour)"
    unfolding second_copy_def by (rule exI [of _ "999 * Hour"], rule exI [of _ "1000 * Hour"]) (simp add: fall_back_def Zone_def)
  moreover have "nextFire (minute_schedule fall_back) (1000 * Hour - 1) 0 = Inr (1001 * Hour)" by code_simp
  moreover have "card {w. backward_at fall_back w \<and> 1000 * Hour - 1 < w \<and> w \<le> 1001 * Hour} < 4"
  proof -
    have "{w. backward_at fall_back w \<and> 1000 * Hour - 1 < w \<and> w \<le> 1001 * Hour} \<subseteq> {1000 * Hour}"
      by (auto simp: backward_at_def fall_back_def)
    from card_mono [OF _ this] show ?thesis by simp
  qed
  moreover have "1000 * Hour \<in> {a. Minute dvd a \<and> 0 < a}" "1000 * Hour - 1 < 1000 * Hour" "1000 * Hour < 1001 * Hour" by simp_all
  moreover have sel: "cs_loc (minute_schedule fall_back) = fall_back" "cs_cron (minute_schedule fall_back) = every_minute"
    "cs_interval (minute_schedule fall_back) \<le> 0" by (simp_all add: minute_schedule_def)
  ultimately show ?thesis
    using nextFire_skips_second_fold [of "minute_schedule fall_back", unfolded sel(1,2), OF fall_back_wf every_minute_ok sel(3)]
      every_minute_activations [of fall_back] by blast
qed

text \<open>C3: the catch-up report of an interval schedule is exact: the latest missed occurrence is
  the last grid point not after now, and the count is the number of missed occurrences,
  saturated at the largest machine integer.\<close>

theorem overdue_interval_exact:
  assumes "0 < cs_interval c" "cs_interval c \<le> max_int64"
    and "nextFireDistinct c (if lastf = 0 then anchor else lastf) anchor lastf = Inr first"
    and "first < now" "now - first \<le> max_int64"
  shows "\<exists>od. overdue c ctx anchor lastf now want = Some (Inr od) \<and> od_first od = first \<and>
    od_exact od \<and> od_latest od \<le> now \<and> now < od_latest od + cs_interval c \<and>
    (\<exists>k \<ge> 0. od_latest od = first + k * cs_interval c \<and> od_count od = min max_int64 (k + 1))"
proof -
  have "now - first < ((now - first) div cs_interval c + 1) * cs_interval c"
    using assms(1) by (simp add: distrib_right minus_mod_eq_div_mult [symmetric])
  moreover have "(now - first) div cs_interval c * cs_interval c \<le> now - first"
    using assms(1) by (simp add: minus_mod_eq_div_mult [symmetric])
  moreover have "0 \<le> (now - first) div cs_interval c"
    using assms(1,4) by (simp add: pos_imp_zdiv_nonneg_iff)
  ultimately show ?thesis
    by (auto simp: overdue_interval [OF assms] distrib_right)
qed

theorem overdue_interval_exact_witness:
  "\<exists>od. overdue ten_seconds (\<lambda>_. False) unix_epoch 0 (unix_epoch + 35 * Second) True = Some (Inr od)
     \<and> od_first od = unix_epoch + 10 * Second"
  using overdue_interval_exact [of ten_seconds 0 unix_epoch "unix_epoch + 10 * Second"
      "unix_epoch + 35 * Second" "\<lambda>_. False" True]
  by (auto simp: ten_seconds_def max_int64_def nextFireDistinct_def nextFire_def time_sub_def min_int64_def
      signed_divide_int_def wrap64_def)

text \<open>C4: the catch-up report of a cron schedule: it starts from the occurrence that follows the last fire (the anchor, if
  there was none) and is empty exactly when that one is not before now. Otherwise it names it as the first, the latest
  occurrence it names is at or before now and the one after it is later than now; when the report calls its count exact, it
  is the length of the chain of successive occurrences from the first missed one to the last one not after now; and a count
  that was asked for is inexact only at the cap of the source.\<close>

theorem overdue_cron_exact:
  assumes "wf_location (cs_loc c)" "cron_next_ok (cs_cron c)" "cs_interval c \<le> 0"
    and "overdue c ctx anchor lastf now want = Some (Inr od)"
  shows "\<exists>first. nextFireDistinct c (if lastf = 0 then anchor else lastf) anchor lastf = Inr first
      \<and> (if lastf = 0 then anchor else lastf) < first
      \<and> (if now \<le> first then od = no_overdue
         else 0 < od_count od \<and> od_first od = first \<and> first \<le> od_latest od \<and> od_latest od \<le> now
           \<and> fire_at_end c anchor lastf now (od_latest od)
           \<and> (od_exact od \<longrightarrow> (\<exists>ts. ts \<noteq> [] \<and> hd ts = first \<and> fire_chain c anchor lastf ts
               \<and> (\<forall>t \<in> set ts. t \<le> now) \<and> od_count od = int (length ts)
               \<and> (last ts = od_latest od \<or> fire_at_end c anchor lastf now (last ts))))
           \<and> (want \<and> \<not> od_exact od \<longrightarrow> od_count od = int maxCatchUpCount))"
proof -
  obtain first where f: "nextFireDistinct c (if lastf = 0 then anchor else lastf) anchor lastf = Inr first"
    using assms(4) by (auto simp: overdue_def Let_def split: sum.splits if_splits)
  have "cs_interval c \<le> max_int64" using assms(3) by (simp add: max_int64_def)
  note after = nextFireDistinct_after [OF assms(1,2) this f]
  show ?thesis
  proof (cases "now \<le> first")
    case True
    then have "od = no_overdue" using assms(4) f by (simp add: overdue_def Let_def)
    then show ?thesis using f after True by auto
  next
    case False
    note r = overdue_report [OF assms f, of]
    have "0 < od_count od" "od_first od = first" using r False by auto
    then show ?thesis
      using f after False overdue_cron [OF assms] r by (intro exI [of _ first]) simp
  qed
qed

lemma scanWindow_step: "0 < n \<Longrightarrow> scanWindow n c ctx anchor lastf now cursor best =
     (let steps = maxCatchUpWindow - n
      in if steps mod 4096 = 4095 \<and> ctx steps then Inl ''context canceled''
         else case nextFireDistinct c cursor anchor lastf of
                Inl e \<Rightarrow> Inl e
              | Inr next \<Rightarrow>
                  if now < next then Inr best
                  else scanWindow (n - 1) c ctx anchor lastf now next next)"
  by (cases n) (simp_all add: Let_def split: sum.split)

lemma countFires_step: "0 < n \<Longrightarrow> countFires n c ctx anchor lastf now latest cursor =
     (let count = maxCatchUpCount - n
      in if \<not> cursor \<le> now then Inr (count, True)
         else if count mod 4096 = 0 \<and> ctx count then Inl ''context canceled''
         else if cursor = latest then Inr (Suc count, True)
         else case nextFireDistinct c cursor anchor lastf of
                Inl e \<Rightarrow> Inl e
              | Inr cursor' \<Rightarrow> countFires (n - 1) c ctx anchor lastf now latest cursor')"
  by (cases n) (simp_all add: Let_def split: sum.split)

text \<open>Two missed minutes: down from one hour to two and a half minutes later.\<close>

lemma minutes_overdue:
  "overdue (minute_schedule (FixedZone 0)) (\<lambda>_. False) Hour 0 (Hour + 150 * Second) True
   = Some (Inr \<lparr>od_first = Hour + Minute, od_latest = Hour + 2 * Minute, od_count = 2, od_exact = True\<rparr>)"
proof -
  let ?c = "minute_schedule (FixedZone 0)"
  have n: "nextFireDistinct ?c Hour Hour 0 = Inr (Hour + Minute)"
    "nextFireDistinct ?c (Hour + Minute) Hour 0 = Inr (Hour + 2 * Minute)"
    "nextFireDistinct ?c (Hour + 2 * Minute) Hour 0 = Inr (Hour + 3 * Minute)" by code_simp+
  have "latestFire ?c (\<lambda>_. False) (Hour + Minute) Hour 0 (Hour + 150 * Second) = Some (Inr (Hour + 2 * Minute))"
    using n latestFireLoop.simps(2) [of 7]
    by (simp add: latestFire_def scanWindow_step maxCatchUpWindow_def time_sub_def max_int64_def min_int64_def)
  moreover have "countFires maxCatchUpCount ?c (\<lambda>_. False) Hour 0 (Hour + 150 * Second) (Hour + 2 * Minute)
      (Hour + Minute) = Inr (2, True)"
    using n by (simp add: countFires_step maxCatchUpCount_def)
  ultimately show ?thesis using n by (simp add: overdue_def minute_schedule_def)
qed

theorem overdue_cron_exact_witness:
  "nextFireDistinct (minute_schedule (FixedZone 0)) Hour Hour 0 = Inr (Hour + Minute) \<and>
   fire_at_end (minute_schedule (FixedZone 0)) Hour 0 (Hour + 150 * Second) (Hour + 2 * Minute)"
  using overdue_cron_exact [OF _ _ _ minutes_overdue] FixedZone_wf every_minute_ok
  by (auto simp: minute_schedule_def no_overdue_def split: if_splits)

text \<open>C5: the catch-up computation always returns (a report or an error): eight windows of
  growing size are enough for its outer search loop, on any schedule.\<close>

theorem overdue_terminates:
  assumes "wf_location (cs_loc c)" "cron_next_ok (cs_cron c)" "cs_interval c \<le> max_int64"
    and "0 \<le> anchor" "0 \<le> lastf"
  shows "\<exists>r. overdue c ctx anchor lastf now want = Some r"
  by (rule overdue_returns [OF assms])

theorem overdue_terminates_witness:
  "\<exists>r. overdue (minute_schedule fall_back) (\<lambda>_. False) Hour 0 (9000 * Hour) True = Some r"
  using overdue_terminates [of "minute_schedule fall_back" Hour 0 "\<lambda>_. False" "9000 * Hour" True]
    fall_back_wf every_minute_ok by (simp add: minute_schedule_def max_int64_def)



end
