(* ===== verification/Scheduler.thy ===== *)
theory Scheduler
  imports Schedule Executor
begin

text \<open>
  The scheduling service (\<^verbatim>\<open>src/internal/scheduler\<close>): the loop of one job with its
  position in memory, catch-up and firing (\<^verbatim>\<open>runPass\<close>, \<^verbatim>\<open>loop\<close>), and the set of
  loops that \<^verbatim>\<open>Reload\<close> keeps.

  The loop is a state machine over the execution service it drives: \<^verbatim>\<open>Trigger\<close> and
  \<^verbatim>\<open>RecordMissed\<close> are the operations of \<^verbatim>\<open>Executor\<close> on the same service and
  database. One step runs to the next point where the loop waits, reads the clock again or returns.
  What it reads from outside is the record \<open>pass_in\<close>: the clock, whether the context has
  ended at each poll, the fate of each database call and the environment of the executor call.
  \<open>jl_fired\<close> logs the occurrences handed over, in order.
\<close>

section \<open>Comparing definitions\<close>

text \<open>Slices and maps that are both \<^verbatim>\<open>nil\<close> or both not; maps are compared by their
  entries (\<^verbatim>\<open>maps.Equal\<close>: equal lengths, and every entry of one is in the other).\<close>

definition sameBool :: "bool option \<Rightarrow> bool option \<Rightarrow> bool" where
  "sameBool a b = (case (a, b) of (None, None) \<Rightarrow> True | (Some x, Some y) \<Rightarrow> x = y | _ \<Rightarrow> False)"

definition same_slice :: "'a list option \<Rightarrow> 'a list option \<Rightarrow> bool" where
  "same_slice a b \<longleftrightarrow> (a = None) = (b = None) \<and>
     (case a of None \<Rightarrow> [] | Some xs \<Rightarrow> xs) = (case b of None \<Rightarrow> [] | Some ys \<Rightarrow> ys)"

definition maps_Equal :: "go_map \<Rightarrow> go_map \<Rightarrow> bool" where
  "maps_Equal a b \<longleftrightarrow> length a = length b \<and> list_all (\<lambda>(k, v). map_of b k = Some v) a"

definition same_map :: "go_map option \<Rightarrow> go_map option \<Rightarrow> bool" where
  "same_map a b \<longleftrightarrow> (a = None) = (b = None) \<and>
     maps_Equal (case a of None \<Rightarrow> [] | Some x \<Rightarrow> x) (case b of None \<Rightarrow> [] | Some y \<Rightarrow> y)"

definition sameNextFire :: "definition_rec \<Rightarrow> definition_rec \<Rightarrow> bool" where
  "sameNextFire a b = (case (d_NextFireAt a, d_NextFireAt b) of
     (None, None) \<Rightarrow> True | (Some x, Some y) \<Rightarrow> x = y | _ \<Rightarrow> False)"

definition sched_sameDefinition :: "definition_rec \<Rightarrow> definition_rec \<Rightarrow> bool" where
  "sched_sameDefinition a b \<longleftrightarrow> d_ID a = d_ID b \<and> d_Name a = d_Name b \<and> d_Kind a = d_Kind b \<and>
     d_Revision a = d_Revision b \<and> d_Source a = d_Source b \<and>
     sameBool (d_Enabled a) (d_Enabled b) \<and> d_Command a = d_Command b \<and>
     d_Shell a = d_Shell b \<and> d_Schedule a = d_Schedule b \<and> d_Timezone a = d_Timezone b \<and>
     d_CatchUp a = d_CatchUp b \<and> d_OnOverlap a = d_OnOverlap b \<and>
     d_OnHistoryUnavailable a = d_OnHistoryUnavailable b \<and>
     d_Retries a = d_Retries b \<and> d_RetryDelay a = d_RetryDelay b \<and>
     d_RunOnStart a = d_RunOnStart b \<and> d_RunAs a = d_RunAs b \<and>
     d_WorkingDir a = d_WorkingDir b \<and> d_EnvBase a = d_EnvBase b \<and> d_EnvFile a = d_EnvFile b \<and>
     d_Timeout a = d_Timeout b \<and> d_Grace a = d_Grace b \<and> d_StopSignal a = d_StopSignal b \<and>
     d_KeepRuns a = d_KeepRuns b \<and> d_KeepFor a = d_KeepFor b \<and>
     d_LogMax a = d_LogMax b \<and> d_LogOnFull a = d_LogOnFull b \<and>
     sameBool (d_Autostart a) (d_Autostart b) \<and> d_Restart a = d_Restart b \<and>
     d_RestartDelay a = d_RestartDelay b \<and> d_MaxRestartAttempts a = d_MaxRestartAttempts b \<and>
     d_RestartBackoffMax a = d_RestartBackoffMax b \<and>
     d_HealthyAfter a = d_HealthyAfter b \<and> d_Priority a = d_Priority b \<and>
     same_slice (d_Argv a) (d_Argv b) \<and> same_slice (d_SuccessCodes a) (d_SuccessCodes b) \<and>
     same_slice (d_Alerts a) (d_Alerts b) \<and> same_map (d_Env a) (d_Env b) \<and>
     same_map (d_SecretEnv a) (d_SecretEnv b) \<and> same_map (d_Labels a) (d_Labels b) \<and> sameNextFire a b"

section \<open>The set of loops\<close>

text \<open>A running loop, known by a number; \<open>ls_done\<close> says that its goroutine has returned
  (the channel \<^verbatim>\<open>done\<close> is closed), \<open>ls_cancelled\<close> that its context was cancelled.\<close>

record loop_slot =
  ls_def :: definition_rec
  ls_id :: nat
  ls_done :: bool
  ls_cancelled :: bool

record scheduler =
  sc_running :: "(string \<times> loop_slot) list"
  sc_stopped :: bool
  sc_next :: nat
  sc_cancelled :: "nat list"

definition New_Scheduler :: scheduler where
  "New_Scheduler = \<lparr>sc_running = [], sc_stopped = False, sc_next = 0, sc_cancelled = []\<rparr>"

datatype reload_error = ReloadCanceled | ReloadStopped

definition wanted_job :: "definition_rec \<Rightarrow> bool" where
  "wanted_job d \<longleftrightarrow> d_Kind d = KindJob \<and> IsEnabled d \<and> d_Schedule d \<noteq> ''''"

text \<open>\<^verbatim>\<open>wanted\<close>: the last index of a name wins.\<close>

definition wanted :: "definition_rec list \<Rightarrow> string \<Rightarrow> definition_rec option" where
  "wanted defs name = find (\<lambda>d. d_Name d = name) (List.rev (filter wanted_job defs))"

definition keeps_loop :: "definition_rec list \<Rightarrow> string \<times> loop_slot \<Rightarrow> bool" where
  "keeps_loop defs nl = (case nl of (name, old) \<Rightarrow>
     (case wanted defs name of Some d \<Rightarrow> sched_sameDefinition (ls_def old) d \<and> \<not> ls_done old | None \<Rightarrow> False))"

definition start_loop :: "definition_rec list \<Rightarrow> definition_rec \<Rightarrow> scheduler \<Rightarrow> scheduler" where
  "start_loop defs d s =
     (case wanted defs (d_Name d) of
        None \<Rightarrow> s
      | Some w \<Rightarrow>
          if d_Name w \<in> fst ` set (sc_running s) then s
          else s\<lparr>sc_running := sc_running s @ [(d_Name w, \<lparr>ls_def = w, ls_id = sc_next s, ls_done = False,
                 ls_cancelled = False\<rparr>)], sc_next := Suc (sc_next s)\<rparr>)"

definition Scheduler_Reload :: "bool \<Rightarrow> definition_rec list \<Rightarrow> scheduler \<Rightarrow> scheduler \<times> reload_error option" where
  "Scheduler_Reload ctx defs s =
     (if ctx then (s, Some ReloadCanceled)
      else if sc_stopped s then (s, Some ReloadStopped)
      else
        let s1 = s\<lparr>sc_running := filter (keeps_loop defs) (sc_running s),
                   sc_cancelled := sc_cancelled s
                     @ map (\<lambda>(n, l). ls_id l) (filter (\<lambda>nl. \<not> keeps_loop defs nl) (sc_running s))\<rparr>
        in (fold (start_loop defs) defs s1, None))"

text \<open>\<^verbatim>\<open>Stop\<close> returns when every loop has.\<close>

definition Scheduler_Stop :: "scheduler \<Rightarrow> scheduler" where
  "Scheduler_Stop s = s\<lparr>sc_stopped := True,
     sc_cancelled := sc_cancelled s @ map (\<lambda>(n, l). ls_id l) (sc_running s), sc_running := []\<rparr>"

text \<open>A goroutine returns on its own.\<close>

definition loop_returned :: "nat \<Rightarrow> scheduler \<Rightarrow> scheduler" where
  "loop_returned k s = s\<lparr>sc_running := map (\<lambda>(n, l). (n, if ls_id l = k then l\<lparr>ls_done := True\<rparr> else l)) (sc_running s)\<rparr>"

section \<open>The state of a job's loop\<close>

record schedule_memory =
  sm_known :: bool
  sm_hash :: string
  sm_anchor :: time
  sm_last :: time
  sm_persistFailing :: bool

definition no_memory :: schedule_memory where
  "no_memory = \<lparr>sm_known = False, sm_hash = '''', sm_anchor = zero_time, sm_last = zero_time, sm_persistFailing = False\<rparr>"

record pass_vars =
  pv_anchor :: time
  pv_last :: time
  pv_persistedLast :: time
  pv_persistedNext :: time
  pv_hasPersisted :: bool

definition no_vars :: pass_vars where
  "no_vars = \<lparr>pv_anchor = zero_time, pv_last = zero_time, pv_persistedLast = zero_time,
     pv_persistedNext = zero_time, pv_hasPersisted = False\<rparr>"

datatype pass_pc = PStart | PCatchUp time | PTop | PWait time | PFire time | PReturned bool | PBackoff duration

record job_loop =
  jl_mem :: schedule_memory
  jl_vars :: pass_vars
  jl_pc :: pass_pc
  jl_svc :: service
  jl_fired :: "time list"
  jl_backoff :: duration

text \<open>What a loop knows about its job: the definition, its canonical hash, the hash of
  \<^verbatim>\<open>schedule + NUL + timezone\<close> and the compiled schedule.\<close>

record job =
  jb_def :: definition_rec
  jb_defHash :: string
  jb_hash :: string
  jb_compiled :: "compiled_schedule result"

definition job_of ::
  "(definition_rec \<Rightarrow> string) \<Rightarrow> (string \<Rightarrow> string) \<Rightarrow> (string \<Rightarrow> duration result) \<Rightarrow> (string \<Rightarrow> location result)
   \<Rightarrow> (string \<Rightarrow> cron_next result) \<Rightarrow> definition_rec \<Rightarrow> job" where
  "job_of Sum256 hexSum ParseDuration LoadLocation Parse d =
     \<lparr>jb_def = d, jb_defHash = snd (Canonical Sum256 d),
      jb_hash = hexSum (d_Schedule d @ [CHR 0x00] @ d_Timezone d),
      jb_compiled = compileSchedule ParseDuration LoadLocation Parse d\<rparr>"

record pass_in =
  pi_now :: "nat \<Rightarrow> time"
  pi_ctx :: "nat \<Rightarrow> bool"
  pi_poll :: "nat \<Rightarrow> bool"
  pi_state :: io
  pi_fired :: io
  pi_set :: io
  pi_env :: env
  pi_timer :: bool
  pi_slow :: bool

section \<open>Persisting the position\<close>

definition persistResult :: "bool \<Rightarrow> schedule_memory \<Rightarrow> schedule_memory" where
  "persistResult failed mem =
     (if failed \<and> \<not> sm_persistFailing mem then mem\<lparr>sm_persistFailing := True\<rparr>
      else if \<not> failed \<and> sm_persistFailing mem then mem\<lparr>sm_persistFailing := False\<rparr> else mem)"

text \<open>\<^verbatim>\<open>writeState\<close>: skipped while the executor knows that storage is failing. The flag says
  whether the write succeeded.\<close>

definition writeState :: "io \<Rightarrow> (db \<Rightarrow> unit op) \<Rightarrow> service \<Rightarrow> service \<times> bool" where
  "writeState io write s =
     (if sh_down (s_health s) then (s, False)
      else case call io write (s_db s) of
             (b, Inr _) \<Rightarrow> (s\<lparr>s_db := b\<rparr>, True) | (b, Inl _) \<Rightarrow> (s\<lparr>s_db := b\<rparr>, False))"

definition persistNext :: "job \<Rightarrow> io \<Rightarrow> time \<Rightarrow> job_loop \<Rightarrow> job_loop" where
  "persistNext jb io next j =
     (let v = jl_vars j
      in if pv_hasPersisted v \<and> pv_persistedLast v = pv_last v \<and> pv_persistedNext v = next then j
         else case writeState io (SetScheduleStateWithNext (d_ID (jb_def jb)) (jb_hash jb) (pv_anchor v) (pv_last v) next)
                     (jl_svc j) of
                (s, ok) \<Rightarrow>
                  j\<lparr>jl_svc := s, jl_mem := persistResult (\<not> ok) (jl_mem j),
                    jl_vars := (if ok then v\<lparr>pv_persistedLast := pv_last v, pv_persistedNext := next,
                                             pv_hasPersisted := True\<rparr> else v)\<rparr>)"

definition advance :: "time \<Rightarrow> job_loop \<Rightarrow> job_loop" where
  "advance to j = j\<lparr>jl_vars := (jl_vars j)\<lparr>pv_last := to\<rparr>, jl_mem := (jl_mem j)\<lparr>sm_last := to\<rparr>,
     jl_fired := jl_fired j @ [to]\<rparr>"

section \<open>Loading the position\<close>

definition fresh_state :: "job \<Rightarrow> pass_in \<Rightarrow> job_loop \<Rightarrow> job_loop \<times> pass_vars option" where
  "fresh_state jb i j =
     (let now = pi_now i 0
      in case call (pi_set i) (SetScheduleState (d_ID (jb_def jb)) (jb_hash jb) now zero_time) (s_db (jl_svc j)) of
           (b, res) \<Rightarrow>
             let j1 = j\<lparr>jl_svc := (jl_svc j)\<lparr>s_db := b\<rparr>\<rparr>; failed = (case res of Inl _ \<Rightarrow> True | Inr _ \<Rightarrow> False)
             in if pi_ctx i 3 then (j1, None)
                else (j1\<lparr>jl_mem := persistResult failed (jl_mem j)\<rparr>,
                      Some (no_vars\<lparr>pv_anchor := now, pv_hasPersisted := \<not> failed\<rparr>)))"

definition loadState :: "job \<Rightarrow> pass_in \<Rightarrow> job_loop \<Rightarrow> job_loop \<times> pass_vars option" where
  "loadState jb i j =
     (let mem = jl_mem j; did = d_ID (jb_def jb); b = s_db (jl_svc j)
      in if sm_known mem \<and> sm_hash mem = jb_hash jb
         then (j, Some (no_vars\<lparr>pv_anchor := sm_anchor mem, pv_last := sm_last mem\<rparr>))
         else
           let (j1, vars) =
             (if pi_ctx i 1 then (j, None)
              else case call_read (pi_state i) (ScheduleState did) b of
                Inr (sAnchor, sLast, sNext, sHash) \<Rightarrow>
                  if sHash = jb_hash jb then
                    let v = \<lparr>pv_anchor = sAnchor, pv_last = sLast, pv_persistedLast = sLast,
                             pv_persistedNext = sNext, pv_hasPersisted = True\<rparr>
                    in if pi_ctx i 2 then (j, None)
                       else (case call_read (pi_fired i) (\<lambda>b. Inr (LastScheduledFire did b)) b of
                               Inl _ \<Rightarrow> (j, Some v)
                             | Inr fired \<Rightarrow>
                                 (j, Some (if sLast < fired then v\<lparr>pv_last := fired, pv_hasPersisted := False\<rparr> else v)))
                  else fresh_state jb i j
              | Inl err \<Rightarrow>
                  if err \<noteq> Refused ErrNoRows then (j, Some (no_vars\<lparr>pv_anchor := pi_now i 0\<rparr>))
                  else fresh_state jb i j)
           in (case vars of
                 None \<Rightarrow> (j1, None)
               | Some v \<Rightarrow> (j1\<lparr>jl_mem := (jl_mem j1)\<lparr>sm_known := True, sm_hash := jb_hash jb,
                              sm_anchor := pv_anchor v, sm_last := pv_last v\<rparr>\<rparr>, Some v)))"

section \<open>The steps of a pass\<close>

definition returns :: "bool \<Rightarrow> job_loop \<Rightarrow> job_loop" where
  "returns err j = j\<lparr>jl_pc := PReturned err\<rparr>"

definition pass_start :: "job \<Rightarrow> pass_in \<Rightarrow> job_loop \<Rightarrow> job_loop" where
  "pass_start jb i j =
     (if pi_ctx i 0 then returns False j
      else case jb_compiled jb of
             Inl _ \<Rightarrow> returns False j
           | Inr _ \<Rightarrow>
               (case loadState jb i j of
                  (j1, None) \<Rightarrow> returns False j1
                | (j1, Some v) \<Rightarrow> j1\<lparr>jl_vars := v, jl_pc := PCatchUp (pi_now i 0)\<rparr>))"

definition catch_up :: "exec_config \<Rightarrow> job \<Rightarrow> pass_in \<Rightarrow> time \<Rightarrow> overdue_fires \<Rightarrow> job_loop \<Rightarrow> job_loop" where
  "catch_up cfg jb i now od j =
     (let d = jb_def jb;
          (s, res) = (if d_CatchUp d = ''latest''
                      then Trigger cfg (pi_env i) d (jb_defHash jb) ''schedule'' (Some (od_latest od)) (jl_svc j)
                      else RecordMissed cfg (pi_env i) d (jb_defHash jb) (od_count od) (od_latest od) (jl_svc j));
          j1 = j\<lparr>jl_svc := s\<rparr>
      in case res of
           Inl _ \<Rightarrow> returns (\<not> pi_ctx i 2) j1
         | Inr _ \<Rightarrow>
             let j2 = advance (od_latest od) j1; v = jl_vars j2
             in (case writeState (pi_set i) (SetScheduleState (d_ID d) (jb_hash jb) (pv_anchor v) (pv_last v)) s of
                   (s2, ok) \<Rightarrow>
                     j2\<lparr>jl_svc := s2, jl_mem := persistResult (\<not> ok) (jl_mem j2), jl_pc := PTop,
                        jl_vars := (if ok then v\<lparr>pv_persistedLast := pv_last v, pv_persistedNext := zero_time,
                                                 pv_hasPersisted := True\<rparr>
                                    else v\<lparr>pv_hasPersisted := False\<rparr>)\<rparr>))"

definition pass_catchup :: "exec_config \<Rightarrow> job \<Rightarrow> compiled_schedule \<Rightarrow> pass_in \<Rightarrow> time \<Rightarrow> job_loop \<Rightarrow> job_loop" where
  "pass_catchup cfg jb c i now j =
     (let v = jl_vars j; d = jb_def jb
      in if pi_ctx i 0 then returns False j
         else if pv_last v < now then
           (case overdue c (pi_poll i) (pv_anchor v) (pv_last v) now (d_CatchUp d \<noteq> ''latest'') of
              None \<Rightarrow> j
            | Some (Inl _) \<Rightarrow> returns False j
            | Some (Inr od) \<Rightarrow> if od_count od > 0 then catch_up cfg jb i now od j else j\<lparr>jl_pc := PTop\<rparr>)
         else j\<lparr>jl_pc := PTop\<rparr>)"

definition pass_next :: "job \<Rightarrow> compiled_schedule \<Rightarrow> pass_in \<Rightarrow> job_loop \<Rightarrow> job_loop" where
  "pass_next jb c i j =
     (let v = jl_vars j
      in if pi_ctx i 0 then returns False j
         else case nextFireDistinct c (maxTime (pv_last v) (pi_now i 0)) (pv_anchor v) (pv_last v) of
                Inl _ \<Rightarrow> returns False j
              | Inr next \<Rightarrow> (persistNext jb (pi_set i) next j)\<lparr>jl_pc := PWait next\<rparr>)"

definition pass_wait :: "job \<Rightarrow> compiled_schedule \<Rightarrow> pass_in \<Rightarrow> time \<Rightarrow> job_loop \<Rightarrow> job_loop" where
  "pass_wait jb c i next j =
     (let v = jl_vars j
      in if \<not> pi_now i 0 < next then j\<lparr>jl_pc := PFire next\<rparr>
         else if pi_timer i then
           (if \<not> pi_now i 1 < next then j\<lparr>jl_pc := PFire next\<rparr>
            else case nextFireDistinct c (maxTime (pv_last v) (pi_now i 1)) (pv_anchor v) (pv_last v) of
                   Inl _ \<Rightarrow> returns False j
                 | Inr recomputed \<Rightarrow> (persistNext jb (pi_set i) recomputed j)\<lparr>jl_pc := PWait recomputed\<rparr>)
         else if pi_ctx i 0 then returns False j else j)"

definition pass_fire :: "exec_config \<Rightarrow> job \<Rightarrow> compiled_schedule \<Rightarrow> pass_in \<Rightarrow> time \<Rightarrow> job_loop \<Rightarrow> job_loop" where
  "pass_fire cfg jb c i next j =
     (case Trigger cfg (pi_env i) (jb_def jb) (jb_defHash jb) ''schedule'' (Some next) (jl_svc j) of
        (s, Inl _) \<Rightarrow> returns (\<not> pi_ctx i 0) (j\<lparr>jl_svc := s\<rparr>)
      | (s, Inr _) \<Rightarrow>
          let j1 = advance next (j\<lparr>jl_svc := s\<rparr>); v = jl_vars j1
          in case nextFireDistinct c (maxTime (pv_last v) (pi_now i 0)) (pv_anchor v) (pv_last v) of
               Inl _ \<Rightarrow>
                 (case writeState (pi_set i) (SetScheduleState (d_ID (jb_def jb)) (jb_hash jb) (pv_anchor v) (pv_last v)) s of
                    (s2, ok) \<Rightarrow> returns False (j1\<lparr>jl_svc := s2, jl_mem := persistResult (\<not> ok) (jl_mem j1)\<rparr>))
             | Inr following \<Rightarrow> (persistNext jb (pi_set i) following j1)\<lparr>jl_pc := PTop\<rparr>)"

text \<open>\<^verbatim>\<open>loop\<close>: what follows a pass. \<open>pi_slow\<close> says that the pass took longer than the largest
  backoff.\<close>

definition scheduleBackoffMax :: duration where "scheduleBackoffMax = Minute"

definition loop_failed :: "pass_in \<Rightarrow> job_loop \<Rightarrow> job_loop" where
  "loop_failed i j =
     (if pi_ctx i 0 then returns False j
      else let b = (if pi_slow i then Second else jl_backoff j)
           in j\<lparr>jl_pc := PBackoff b, jl_backoff := b\<rparr>)"

definition loop_backoff :: "pass_in \<Rightarrow> duration \<Rightarrow> job_loop \<Rightarrow> job_loop" where
  "loop_backoff i b j =
     (if pi_timer i then j\<lparr>jl_pc := PStart, jl_backoff := backoff_next scheduleBackoffMax b\<rparr>
      else if pi_ctx i 0 then returns False j else j)"

definition pass_step :: "exec_config \<Rightarrow> job \<Rightarrow> pass_in \<Rightarrow> job_loop \<Rightarrow> job_loop" where
  "pass_step cfg jb i j =
     (case (jb_compiled jb, jl_pc j) of
        (_, PStart) \<Rightarrow> pass_start jb i j
      | (Inr c, PCatchUp now) \<Rightarrow> pass_catchup cfg jb c i now j
      | (Inr c, PTop) \<Rightarrow> pass_next jb c i j
      | (Inr c, PWait next) \<Rightarrow> pass_wait jb c i next j
      | (Inr c, PFire next) \<Rightarrow> pass_fire cfg jb c i next j
      | (_, PReturned True) \<Rightarrow> loop_failed i j
      | (_, PBackoff b) \<Rightarrow> loop_backoff i b j
      | _ \<Rightarrow> j)"

text \<open>The goroutine \<^verbatim>\<open>Reload\<close> starts.\<close>

definition new_loop :: "service \<Rightarrow> job_loop" where
  "new_loop s = \<lparr>jl_mem = no_memory, jl_vars = no_vars, jl_pc = PStart, jl_svc = s, jl_fired = [], jl_backoff = Second\<rparr>"

end
