(* ===== verification/Scheduler_Properties.thy ===== *)
theory Scheduler_Properties
  imports Scheduler Executor_Properties
begin

text \<open>
  Properties of the scheduling service: the comparison that decides whether a loop is kept, the set of
  loops after a reload, the order of a job's fires, what becomes of a fire that failed, and that a
  loop drives the execution service only in ways that keep its invariants.
\<close>

section \<open>Comparing definitions\<close>

lemma sameBool_eq: "sameBool a b \<longleftrightarrow> a = b"
  by (auto simp: sameBool_def split: option.splits)

lemma same_slice_eq: "same_slice a b \<longleftrightarrow> a = b"
  by (auto simp: same_slice_def split: option.splits)

lemma sameNextFire_eq: "sameNextFire a b \<longleftrightarrow> d_NextFireAt a = d_NextFireAt b"
  by (auto simp: sameNextFire_def split: option.splits)

text \<open>A Go map: an association list with distinct keys.\<close>

definition wf_map :: "go_map option \<Rightarrow> bool" where
  "wf_map m \<longleftrightarrow> (case m of None \<Rightarrow> True | Some xs \<Rightarrow> distinct (map fst xs))"

lemma maps_Equal_eq:
  assumes "distinct (map fst a)" "distinct (map fst b)"
  shows "maps_Equal a b \<longleftrightarrow> map_of a = map_of b"
proof
  assume eq: "maps_Equal a b"
  have da: "distinct a" "distinct b" using assms by (auto simp: distinct_map)
  have "set a \<subseteq> set b" using eq by (auto simp: maps_Equal_def list_all_iff dest!: map_of_SomeD)
  moreover have "card (set a) = card (set b)"
    using eq da by (simp add: maps_Equal_def distinct_card)
  ultimately have "set a = set b" by (simp add: card_subset_eq)
  then show "map_of a = map_of b" using assms map_of_inject_set by blast
next
  assume eq: "map_of a = map_of b"
  then have "set a = set b" using assms map_of_inject_set by blast
  moreover have "distinct a" "distinct b" using assms by (auto simp: distinct_map)
  ultimately have "length a = length b" by (metis distinct_card)
  then show "maps_Equal a b" using eq assms by (auto simp: maps_Equal_def list_all_iff simp flip: eq)
qed

lemma same_map_eq:
  "wf_map a \<Longrightarrow> wf_map b \<Longrightarrow> same_map a b \<longleftrightarrow> map_option map_of a = map_option map_of b"
  by (cases a; cases b) (auto simp: same_map_def wf_map_def maps_Equal_eq)

definition wf_maps :: "definition_rec \<Rightarrow> bool" where
  "wf_maps d \<longleftrightarrow> wf_map (d_Env d) \<and> wf_map (d_SecretEnv d) \<and> wf_map (d_Labels d)"

text \<open>The definition without its maps.\<close>

abbreviation (input) no_maps :: "definition_rec \<Rightarrow> definition_rec" where
  "no_maps d \<equiv> d\<lparr>d_Env := None, d_SecretEnv := None, d_Labels := None\<rparr>"

text \<open>The field-by-field comparison that decides whether a reload keeps a scheduling loop is equality
  of the whole definition: no field is forgotten, \<^verbatim>\<open>nil\<close> and empty collections stay
  distinct, and maps are compared as maps, whatever the order of their entries.\<close>

lemma sameDefinition_exact:
  assumes "wf_maps a" "wf_maps b"
  shows "sched_sameDefinition a b \<longleftrightarrow> no_maps a = no_maps b \<and>
     map_option map_of (d_Env a) = map_option map_of (d_Env b) \<and>
     map_option map_of (d_SecretEnv a) = map_option map_of (d_SecretEnv b) \<and>
     map_option map_of (d_Labels a) = map_option map_of (d_Labels b)"
proof -
  have maps: "same_map (d_Env a) (d_Env b) \<longleftrightarrow> map_option map_of (d_Env a) = map_option map_of (d_Env b)"
    "same_map (d_SecretEnv a) (d_SecretEnv b) \<longleftrightarrow> map_option map_of (d_SecretEnv a) = map_option map_of (d_SecretEnv b)"
    "same_map (d_Labels a) (d_Labels b) \<longleftrightarrow> map_option map_of (d_Labels a) = map_option map_of (d_Labels b)"
    using assms by (simp_all add: wf_maps_def same_map_eq)
  show ?thesis
    unfolding sched_sameDefinition_def maps sameBool_eq same_slice_eq sameNextFire_eq
    by (cases a; cases b) auto
qed

text \<open>The same environment, written in another order.\<close>

definition two_vars :: definition_rec where
  "two_vars = zero_definition\<lparr>d_Name := ''report'', d_Env := Some [(''A'', ''1''), (''B'', ''2'')]\<rparr>"

lemma sameDefinition_exact_example:
  "sched_sameDefinition two_vars (two_vars\<lparr>d_Env := Some [(''B'', ''2''), (''A'', ''1'')]\<rparr>)"
  using sameDefinition_exact [of two_vars "two_vars\<lparr>d_Env := Some [(''B'', ''2''), (''A'', ''1'')]\<rparr>"]
  by (auto simp: two_vars_def zero_definition_def wf_maps_def wf_map_def fun_eq_iff)

section \<open>The set of loops\<close>

definition running_ok :: "scheduler \<Rightarrow> bool" where
  "running_ok s \<longleftrightarrow> distinct (map fst (sc_running s)) \<and>
     (\<forall>(n, l) \<in> set (sc_running s). d_Name (ls_def l) = n \<and> ls_id l < sc_next s)"

lemma wanted_Some: "wanted defs n = Some w \<Longrightarrow> w \<in> set defs \<and> wanted_job w \<and> d_Name w = n"
  by (auto simp: wanted_def dest!: find_Some_set)

lemma wanted_exists: "d \<in> set defs \<Longrightarrow> wanted_job d \<Longrightarrow> wanted defs (d_Name d) \<noteq> None"
  by (auto simp: wanted_def find_None_all)

text \<open>What the starting loop of \<^verbatim>\<open>Reload\<close> adds.\<close>

definition started_ok :: "definition_rec list \<Rightarrow> scheduler \<Rightarrow> scheduler \<Rightarrow> bool" where
  "started_ok defs s t \<longleftrightarrow> running_ok t \<and> sc_next s \<le> sc_next t \<and> sc_cancelled t = sc_cancelled s \<and>
     (\<forall>n l. map_of (sc_running s) n = Some l \<longrightarrow> map_of (sc_running t) n = Some l) \<and>
     (\<forall>n l. map_of (sc_running t) n = Some l \<longrightarrow> map_of (sc_running s) n = Some l \<or>
        (map_of (sc_running s) n = None \<and> wanted defs n = Some (ls_def l) \<and> \<not> ls_done l \<and> sc_next s \<le> ls_id l))"

lemma started_refl: "running_ok s \<Longrightarrow> started_ok defs s s"
  by (simp add: started_ok_def)

lemma start_loop_ok:
  assumes "running_ok s"
  shows "started_ok defs s (start_loop defs d s)"
proof (cases "wanted defs (d_Name d)")
  case None
  then show ?thesis using assms by (simp add: start_loop_def started_refl)
next
  case (Some w)
  note w = wanted_Some [OF Some]
  show ?thesis
  proof (cases "d_Name w \<in> fst ` set (sc_running s)")
    case True
    then show ?thesis using Some assms by (simp add: start_loop_def started_refl)
  next
    case False
    let ?l = "\<lparr>ls_def = w, ls_id = sc_next s, ls_done = False, ls_cancelled = False\<rparr>"
    have t: "start_loop defs d s = s\<lparr>sc_running := sc_running s @ [(d_Name w, ?l)], sc_next := Suc (sc_next s)\<rparr>"
      using Some False by (simp add: start_loop_def)
    have none: "map_of (sc_running s) (d_Name w) = None" using False by (simp add: map_of_eq_None_iff)
    have m: "map_of (sc_running s @ [(d_Name w, ?l)]) n =
        (if n = d_Name w then Some ?l else map_of (sc_running s) n)" for n
      using none by (auto simp: map_add_def split: option.splits)
    have "running_ok (start_loop defs d s)"
      using assms False by (auto simp: running_ok_def t less_Suc_eq)
    then show ?thesis using Some w none unfolding started_ok_def t by (auto simp: m split: if_splits)
  qed
qed

lemma started_trans: "started_ok defs s t \<Longrightarrow> started_ok defs t u \<Longrightarrow> started_ok defs s u"
  unfolding started_ok_def by (metis (no_types, lifting) le_trans option.exhaust)

lemma fold_start_loop_ok: "running_ok s \<Longrightarrow> started_ok defs s (fold (start_loop defs) ds s)"
proof (induction ds arbitrary: s)
  case (Cons d ds)
  have "started_ok defs s (start_loop defs d s)" using start_loop_ok Cons.prems by blast
  then show ?case using Cons.IH [of "start_loop defs d s"] started_trans by (simp add: started_ok_def)
qed (simp add: started_refl)

lemma fold_start_loop_all:
  assumes "running_ok s" "d \<in> set ds" "wanted defs (d_Name d) \<noteq> None"
  shows "map_of (sc_running (fold (start_loop defs) ds s)) (d_Name d) \<noteq> None"
  using assms
proof (induction ds arbitrary: s)
  case (Cons x ds)
  have ok: "started_ok defs s (start_loop defs x s)" using start_loop_ok Cons.prems(1) by blast
  have rest: "started_ok defs (start_loop defs x s) (fold (start_loop defs) ds (start_loop defs x s))"
    using fold_start_loop_ok ok by (simp add: started_ok_def)
  show ?case
  proof (cases "x = d")
    case True
    obtain w where w: "wanted defs (d_Name d) = Some w" "d_Name w = d_Name d"
      using Cons.prems(3) wanted_Some by blast
    have "d_Name d \<in> fst ` set (sc_running (start_loop defs d s))" using w by (auto simp: start_loop_def)
    then have "map_of (sc_running (start_loop defs x s)) (d_Name d) \<noteq> None"
      using True by (simp add: map_of_eq_None_iff)
    then show ?thesis using rest by (auto simp: started_ok_def)
  next
    case False
    then show ?thesis using Cons.IH [of "start_loop defs x s"] Cons.prems ok by (simp add: started_ok_def)
  qed
qed simp

lemma map_of_filter_keys:
  "distinct (map fst m) \<Longrightarrow> map_of (filter P m) n = (case map_of m n of Some v \<Rightarrow> if P (n, v) then Some v else None | None \<Rightarrow> None)"
  by (induction m) (auto simp: map_of_eq_None_iff image_iff split: option.splits)

text \<open>After a reload exactly the enabled jobs with a schedule have a loop, one each: a loop of
  unchanged definition that is still running is kept as it is, every other wanted job has a new one
  running its current definition (the last of its name), and every loop that is not kept has been cancelled
  and joined first.\<close>

lemma Scheduler_Reload_mirror:
  assumes "running_ok s" "Scheduler_Reload False defs s = (t, None)"
  shows "running_ok t \<and> (map_of (sc_running t) n \<noteq> None \<longleftrightarrow> wanted defs n \<noteq> None) \<and>
     (map_of (sc_running t) n = Some l \<longrightarrow> \<not> ls_done l \<and>
        ((wanted defs n = Some (ls_def l) \<and> sc_next s \<le> ls_id l) \<or>
         (map_of (sc_running s) n = Some l \<and> (\<exists>w. wanted defs n = Some w \<and> sched_sameDefinition (ls_def l) w)))) \<and>
     (map_of (sc_running s) n = Some l \<and> map_of (sc_running t) n \<noteq> Some l \<longrightarrow> ls_id l \<in> set (sc_cancelled t))"
proof -
  define s1 where "s1 = s\<lparr>sc_running := filter (keeps_loop defs) (sc_running s), sc_cancelled := sc_cancelled s
     @ map (\<lambda>(n, l). ls_id l) (filter (\<lambda>nl. \<not> keeps_loop defs nl) (sc_running s))\<rparr>"
  have t: "t = fold (start_loop defs) defs s1"
    using assms(2) by (auto simp: Scheduler_Reload_def Let_def s1_def split: if_splits)
  have dist: "distinct (map fst (sc_running s))" using assms(1) by (simp add: running_ok_def)
  have s1: "running_ok s1" using assms(1) by (auto simp: running_ok_def s1_def filter_map_distinct)
  have kept: "map_of (sc_running s1) n = (case map_of (sc_running s) n of
      Some v \<Rightarrow> if keeps_loop defs (n, v) then Some v else None | None \<Rightarrow> None)" for n
    using map_of_filter_keys [OF dist] by (simp add: s1_def)
  have st: "started_ok defs s1 t" using fold_start_loop_ok s1 t by blast
  have origin: "map_of (sc_running s1) n = Some l \<or>
      (map_of (sc_running s1) n = None \<and> wanted defs n = Some (ls_def l) \<and> \<not> ls_done l \<and> sc_next s \<le> ls_id l)"
    if "map_of (sc_running t) n = Some l" for n l
    using st that by (force simp: started_ok_def s1_def)
  have loop: "\<not> ls_done l \<and> ((wanted defs n = Some (ls_def l) \<and> sc_next s \<le> ls_id l) \<or>
         (map_of (sc_running s) n = Some l \<and> (\<exists>w. wanted defs n = Some w \<and> sched_sameDefinition (ls_def l) w)))"
    if "map_of (sc_running t) n = Some l" for n l
    using origin [OF that] kept [of n] by (auto simp: keeps_loop_def split: option.splits if_splits)
  have "map_of (sc_running t) n \<noteq> None" if want: "wanted defs n \<noteq> None"
  proof -
    obtain w where "wanted defs n = Some w" "w \<in> set defs" "d_Name w = n" using want wanted_Some by blast
    then show ?thesis using fold_start_loop_all [OF s1, of w defs defs] t want by auto
  qed
  moreover have "wanted defs n \<noteq> None" if "map_of (sc_running t) n \<noteq> None"
    using that loop by (metis option.distinct(1) option.exhaust)
  moreover have "ls_id l \<in> set (sc_cancelled t)"
    if "map_of (sc_running s) n = Some l" "map_of (sc_running t) n \<noteq> Some l"
  proof -
    have "\<not> keeps_loop defs (n, l)" using that st kept [of n] by (auto simp: started_ok_def split: if_splits)
    then have "ls_id l \<in> set (sc_cancelled s1)" using map_of_SomeD [OF that(1)] by (force simp: s1_def)
    then show ?thesis using st by (simp add: started_ok_def)
  qed
  ultimately show ?thesis using loop st unfolding started_ok_def by blast
qed

text \<open>A reload that changes one job and drops another.\<close>

definition tick :: definition_rec where
  "tick = zero_definition\<lparr>d_Name := ''tick'', d_Kind := KindJob, d_Schedule := ''@every 1m''\<rparr>"

definition two_loops :: scheduler where
  "two_loops = fst (Scheduler_Reload False [tick, tick\<lparr>d_Name := ''tock''\<rparr>] New_Scheduler)"

lemma Scheduler_Reload_mirror_example:
  "map_of (sc_running (fst (Scheduler_Reload False [tick\<lparr>d_Revision := 2\<rparr>] two_loops))) ''tock'' = None \<and>
   running_ok (fst (Scheduler_Reload False [tick\<lparr>d_Revision := 2\<rparr>] two_loops))"
proof -
  let ?r = "Scheduler_Reload False [tick\<lparr>d_Revision := 2\<rparr>] two_loops"
  have "running_ok two_loops"
  proof -
    have "sc_running two_loops = [(''tick'', \<lparr>ls_def = tick, ls_id = 0, ls_done = False, ls_cancelled = False\<rparr>),
       (''tock'', \<lparr>ls_def = tick\<lparr>d_Name := ''tock''\<rparr>, ls_id = 1, ls_done = False, ls_cancelled = False\<rparr>)]"
      "sc_next two_loops = 2" by code_simp+
    then show ?thesis by (simp add: running_ok_def tick_def zero_definition_def)
  qed
  moreover have "?r = (fst ?r, None)"
  proof -
    have "\<not> sc_stopped two_loops" by code_simp
    then show ?thesis by (simp add: Scheduler_Reload_def Let_def)
  qed
  moreover have "wanted [tick\<lparr>d_Revision := 2\<rparr>] ''tock'' = None" by code_simp
  ultimately show ?thesis using Scheduler_Reload_mirror [of two_loops _ _ "''tock''"] by metis
qed

section \<open>The loop of a job\<close>

text \<open>No stored instant lies before the year 1.\<close>

definition times_ok :: "db \<Rightarrow> bool" where
  "times_ok b \<longleftrightarrow>
     (\<forall>r \<in> set (db_schedule b). 0 \<le> from_micro (ss_anchor_us r) \<and> 0 \<le> micro_or_zero (ss_last_fire_us r)) \<and>
     (\<forall>r \<in> set (db_runs b). 0 \<le> micro_or_zero (rr_scheduled_for_us r))"

text \<open>The loop of one job among everything else that drives the same execution service.\<close>

inductive sched_step :: "exec_config \<Rightarrow> (env \<Rightarrow> bool) \<Rightarrow> job \<Rightarrow> job_loop \<Rightarrow> job_loop \<Rightarrow> bool"
  for cfg :: exec_config and ok :: "env \<Rightarrow> bool" and jb :: job where
  sched_pass: "\<forall>n. 0 < pi_now i n \<Longrightarrow> times_ok (s_db (jl_svc j)) \<Longrightarrow> ok (pi_env i) \<Longrightarrow>
     fresh_id (pi_env i) (jl_svc j) \<Longrightarrow> sched_step cfg ok jb j (pass_step cfg jb i j)"
| sched_other: "exec_step cfg ok (jl_svc j) s \<Longrightarrow> sched_step cfg ok jb j (j\<lparr>jl_svc := s\<rparr>)"

definition sched_start :: "exec_config \<Rightarrow> job_loop \<Rightarrow> bool" where
  "sched_start cfg j \<longleftrightarrow> config_ok cfg \<and> (\<exists>s. exec_start cfg s \<and> j = new_loop s)"

subsection \<open>The order of fires\<close>

fun in_pass :: "pass_pc \<Rightarrow> bool" where
  "in_pass (PCatchUp _) = True"
| "in_pass PTop = True"
| "in_pass (PWait _) = True"
| "in_pass (PFire _) = True"
| "in_pass _ = False"

fun pending :: "pass_pc \<Rightarrow> time option" where
  "pending (PWait next) = Some next"
| "pending (PFire next) = Some next"
| "pending _ = None"

definition fires_ok :: "job \<Rightarrow> job_loop \<Rightarrow> bool" where
  "fires_ok jb j \<longleftrightarrow> sorted_wrt (<) (jl_fired j) \<and>
     (jl_fired j \<noteq> [] \<longrightarrow> sm_known (jl_mem j) \<and> sm_hash (jl_mem j) = jb_hash jb \<and>
        sm_last (jl_mem j) = last (jl_fired j) \<and> 0 < sm_last (jl_mem j)) \<and>
     (sm_known (jl_mem j) \<longrightarrow> 0 \<le> sm_anchor (jl_mem j) \<and> 0 \<le> sm_last (jl_mem j)) \<and>
     (in_pass (jl_pc j) \<longrightarrow> sm_known (jl_mem j) \<and> sm_hash (jl_mem j) = jb_hash jb \<and>
        pv_last (jl_vars j) = sm_last (jl_mem j) \<and> pv_anchor (jl_vars j) = sm_anchor (jl_mem j)) \<and>
     (\<forall>next. pending (jl_pc j) = Some next \<longrightarrow> pv_last (jl_vars j) < next \<and> 0 < next)"

text \<open>The schedules considered: a positive interval of 64 bits, or a documented cron schedule.\<close>

definition compiled_ok :: "compiled_schedule \<Rightarrow> bool" where
  "compiled_ok c \<longleftrightarrow> wf_location (cs_loc c) \<and> cron_next_ok (cs_cron c) \<and> cs_interval c \<le> max_int64"

lemma next_after:
  "compiled_ok c \<Longrightarrow> nextFireDistinct c after anchor lastf = Inr t \<Longrightarrow> after < t"
  using nextFireDistinct_after by (auto simp: compiled_ok_def)

lemma overdue_latest_after:
  assumes "compiled_ok c" "overdue c ctx anchor lastf now want = Some (Inr od)" "0 < od_count od"
  shows "(if lastf = 0 then anchor else lastf) < od_latest od"
proof -
  let ?base = "if lastf = 0 then anchor else lastf"
  obtain first where f: "nextFireDistinct c ?base anchor lastf = Inr first" "first < now"
    using assms(2,3) by (auto simp: overdue_def no_overdue_def Let_def split: sum.splits if_splits)
  have after: "?base < first" using next_after [OF assms(1) f(1)] .
  show ?thesis
  proof (cases "0 < cs_interval c")
    case True
    let ?s = "time_sub now first sdiv cs_interval c"
    have s: "?s = time_sub now first div cs_interval c"
      using True f(2) by (intro sdiv_nonneg) (auto intro: time_sub_nonneg)
    have s0: "0 \<le> ?s" unfolding s using True f(2) by (simp add: pos_imp_zdiv_nonneg_iff time_sub_nonneg)
    have "?s * cs_interval c \<le> max_int64"
      using True time_sub_max [of now first] by (simp add: s minus_mod_eq_div_mult [symmetric]) (smt (verit) pos_mod_sign)
    then have "wrap64 (?s * cs_interval c) = ?s * cs_interval c" "0 \<le> ?s * cs_interval c"
      using s0 True by (auto intro!: wrap64_id simp: fits64_nonneg)
    then have "first \<le> od_latest od" using assms(2) f True by (auto simp: overdue_def Let_def)
    then show ?thesis using after by simp
  next
    case False
    then have "od_first od \<le> od_latest od"
      using overdue_cron(1) [of c ctx anchor lastf now want od] assms by (auto simp: compiled_ok_def)
    moreover have "od_first od = first"
      using assms(2) f False by (auto simp: overdue_def Let_def split: option.splits sum.splits prod.splits if_splits)
    ultimately show ?thesis using after by simp
  qed
qed

lemma persistResult_simps [simp]:
  "sm_known (persistResult f m) = sm_known m" "sm_hash (persistResult f m) = sm_hash m"
  "sm_anchor (persistResult f m) = sm_anchor m" "sm_last (persistResult f m) = sm_last m"
  by (simp_all add: persistResult_def)

lemma persistNext_simps [simp]:
  "jl_fired (persistNext jb io t j) = jl_fired j" "jl_pc (persistNext jb io t j) = jl_pc j"
  "pv_last (jl_vars (persistNext jb io t j)) = pv_last (jl_vars j)"
  "pv_anchor (jl_vars (persistNext jb io t j)) = pv_anchor (jl_vars j)"
  "sm_known (jl_mem (persistNext jb io t j)) = sm_known (jl_mem j)"
  "sm_hash (jl_mem (persistNext jb io t j)) = sm_hash (jl_mem j)"
  "sm_anchor (jl_mem (persistNext jb io t j)) = sm_anchor (jl_mem j)"
  "sm_last (jl_mem (persistNext jb io t j)) = sm_last (jl_mem j)"
  by (simp_all add: persistNext_def Let_def split: prod.split)

definition same_position :: "schedule_memory \<Rightarrow> schedule_memory \<Rightarrow> bool" where
  "same_position m m' \<longleftrightarrow> sm_known m' = sm_known m \<and> sm_hash m' = sm_hash m \<and>
     sm_anchor m' = sm_anchor m \<and> sm_last m' = sm_last m"

lemma fresh_state_cases:
  assumes "fresh_state jb i j = (j1, r)"
  shows "jl_fired j1 = jl_fired j \<and> same_position (jl_mem j) (jl_mem j1) \<and>
     (case r of None \<Rightarrow> True | Some v \<Rightarrow> pv_anchor v = pi_now i 0 \<and> pv_last v = 0)"
  using assms
  by (auto simp: fresh_state_def Let_def same_position_def no_vars_def split: prod.splits if_splits)

lemma LastScheduledFire_nonneg: "times_ok b \<Longrightarrow> 0 \<le> LastScheduledFire did b"
proof -
  assume ok: "times_ok b"
  let ?us = "List.map_filter rr_scheduled_for_us
    (filter (\<lambda>r. rr_definition_id r = did \<and> rr_trigger r = ''schedule'') (db_runs b))"
  have nn: "0 \<le> from_micro u" if u: "u \<in> set ?us" for u
  proof -
    obtain r where "r \<in> set (db_runs b)" "rr_scheduled_for_us r = Some u"
      using u by (auto simp: List.map_filter_def)
    then show ?thesis using ok by (force simp: times_ok_def micro_or_zero_def)
  qed
  have "0 \<le> from_micro (foldl max u us)" if "\<forall>x \<in> set (u # us). 0 \<le> from_micro x" for u us
    using that by (induction us arbitrary: u) (auto simp: max_def)
  then show ?thesis using nn by (cases ?us) (auto simp: LastScheduledFire_def)
qed

lemma ScheduleState_nonneg:
  assumes "times_ok b" "ScheduleState did b = Inr (a, l, n, h)"
  shows "0 \<le> a \<and> 0 \<le> l"
proof -
  obtain r where "find_schedule did b = Some r" "a = from_micro (ss_anchor_us r)" "l = micro_or_zero (ss_last_fire_us r)"
    using assms(2) by (auto simp: ScheduleState_def split: option.splits)
  then show ?thesis using assms(1) find_Some_set by (fastforce simp: times_ok_def find_schedule_def)
qed

lemma loadState_cases:
  assumes "loadState jb i j = (j1, r)" "0 < pi_now i 0" "times_ok (s_db (jl_svc j))"
  shows "jl_fired j1 = jl_fired j" (is ?fired)
    "r = None \<Longrightarrow> same_position (jl_mem j) (jl_mem j1)"
    "r = Some v \<Longrightarrow> sm_known (jl_mem j1) \<and> sm_hash (jl_mem j1) = jb_hash jb \<and>
       sm_anchor (jl_mem j1) = pv_anchor v \<and> sm_last (jl_mem j1) = pv_last v \<and>
       (if sm_known (jl_mem j) \<and> sm_hash (jl_mem j) = jb_hash jb
        then pv_anchor v = sm_anchor (jl_mem j) \<and> pv_last v = sm_last (jl_mem j)
        else 0 \<le> pv_anchor v \<and> 0 \<le> pv_last v)"
proof -
  let ?b = "s_db (jl_svc j)" and ?did = "d_ID (jb_def jb)"
  have read: "0 \<le> a \<and> 0 \<le> l" if "call_read io (ScheduleState ?did) ?b = Inr (a, l, n, h)" for io a l n h
    using that ScheduleState_nonneg [OF assms(3)]
    by (auto simp: call_read_def split: if_splits sum.splits)
  have fired: "0 \<le> f" if "call_read io (\<lambda>b. Inr (LastScheduledFire ?did b)) ?b = Inr f" for io f
    using that LastScheduledFire_nonneg [OF assms(3)] by (auto simp: call_read_def split: if_splits)
  have known: "j1 = j \<and> r = Some (no_vars\<lparr>pv_anchor := sm_anchor (jl_mem j), pv_last := sm_last (jl_mem j)\<rparr>)"
    if "sm_known (jl_mem j) \<and> sm_hash (jl_mem j) = jb_hash jb"
    using assms(1) that by (auto simp: loadState_def Let_def)
  define inner where "inner = (if pi_ctx i 1 then (j, None)
              else case call_read (pi_state i) (ScheduleState ?did) ?b of
                Inr (sAnchor, sLast, sNext, sHash) \<Rightarrow>
                  if sHash = jb_hash jb then
                    let v = \<lparr>pv_anchor = sAnchor, pv_last = sLast, pv_persistedLast = sLast,
                             pv_persistedNext = sNext, pv_hasPersisted = True\<rparr>
                    in if pi_ctx i 2 then (j, None)
                       else (case call_read (pi_fired i) (\<lambda>b. Inr (LastScheduledFire ?did b)) ?b of
                               Inl _ \<Rightarrow> (j, Some v)
                             | Inr fired \<Rightarrow>
                                 (j, Some (if sLast < fired then v\<lparr>pv_last := fired, pv_hasPersisted := False\<rparr> else v)))
                  else fresh_state jb i j
              | Inl err \<Rightarrow>
                  if err \<noteq> Refused ErrNoRows then (j, Some (no_vars\<lparr>pv_anchor := pi_now i 0\<rparr>))
                  else fresh_state jb i j)"
  obtain j2 r2 where j2: "inner = (j2, r2)" by (cases inner)
  have "(j2 = j \<or> fresh_state jb i j = (j2, r2)) \<and>
      (case r2 of None \<Rightarrow> True | Some v \<Rightarrow> 0 \<le> pv_anchor v \<and> 0 \<le> pv_last v)"
    using j2 read fired fresh_state_cases [of jb i j] assms(2) unfolding inner_def
    by (auto simp: no_vars_def Let_def split: if_splits sum.splits prod.splits option.splits)
  then have inner: "jl_fired j2 = jl_fired j" "same_position (jl_mem j) (jl_mem j2)"
    "r2 = Some v \<Longrightarrow> 0 \<le> pv_anchor v \<and> 0 \<le> pv_last v" for v
    using fresh_state_cases [of jb i j j2 r2] by (auto simp: same_position_def)
  have unknown: "j1 = (case r2 of None \<Rightarrow> j2 | Some v \<Rightarrow> j2\<lparr>jl_mem := (jl_mem j2)\<lparr>sm_known := True, sm_hash := jb_hash jb,
       sm_anchor := pv_anchor v, sm_last := pv_last v\<rparr>\<rparr>) \<and> r = r2"
    if "\<not> (sm_known (jl_mem j) \<and> sm_hash (jl_mem j) = jb_hash jb)"
    using assms(1) j2 that unfolding loadState_def inner_def Let_def by (auto split: option.splits)
  show ?fired using known unknown inner(1) by (cases "sm_known (jl_mem j) \<and> sm_hash (jl_mem j) = jb_hash jb"; cases r2) auto
  show "same_position (jl_mem j) (jl_mem j1)" if "r = None"
    using that known unknown inner(2) by (cases "sm_known (jl_mem j) \<and> sm_hash (jl_mem j) = jb_hash jb") auto
  show "sm_known (jl_mem j1) \<and> sm_hash (jl_mem j1) = jb_hash jb \<and>
       sm_anchor (jl_mem j1) = pv_anchor v \<and> sm_last (jl_mem j1) = pv_last v \<and>
       (if sm_known (jl_mem j) \<and> sm_hash (jl_mem j) = jb_hash jb
        then pv_anchor v = sm_anchor (jl_mem j) \<and> pv_last v = sm_last (jl_mem j)
        else 0 \<le> pv_anchor v \<and> 0 \<le> pv_last v)" if "r = Some v"
    using that known unknown inner(3) by (cases "sm_known (jl_mem j) \<and> sm_hash (jl_mem j) = jb_hash jb") auto
qed

lemma fires_ok_frame:
  assumes "fires_ok jb j" "jl_fired j' = jl_fired j" "same_position (jl_mem j) (jl_mem j')"
    "in_pass (jl_pc j') \<Longrightarrow> in_pass (jl_pc j) \<and> pv_last (jl_vars j') = pv_last (jl_vars j) \<and>
       pv_anchor (jl_vars j') = pv_anchor (jl_vars j)"
    "\<And>next. pending (jl_pc j') = Some next \<Longrightarrow> pv_last (jl_vars j') < next \<and> 0 < next"
  shows "fires_ok jb j'"
  using assms unfolding fires_ok_def same_position_def by metis

lemma same_position_refl [simp]: "same_position m m"
  by (simp add: same_position_def)

lemma fires_ok_returns:
  "fires_ok jb j \<Longrightarrow> jl_fired j' = jl_fired j \<Longrightarrow> same_position (jl_mem j) (jl_mem j') \<Longrightarrow> fires_ok jb (returns e j')"
  by (rule fires_ok_frame [of jb j]) (auto simp: returns_def)

lemma sorted_last_max:
  fixes xs :: "int list"
  shows "sorted_wrt (<) xs \<Longrightarrow> x \<in> set xs \<Longrightarrow> x \<le> last xs"
proof (induction xs)
  case (Cons y ys)
  then show ?case by (cases "ys = []") (auto dest: bspec [OF _ last_in_set])
qed simp

text \<open>Handing over an occurrence later than the last one.\<close>

lemma fires_ok_advance:
  assumes "fires_ok jb j" "in_pass (jl_pc j)" "jl_fired j' = jl_fired j @ [t]" "pv_last (jl_vars j) < t" "0 < t"
    "same_position ((jl_mem j)\<lparr>sm_last := t\<rparr>) (jl_mem j')" "pv_last (jl_vars j') = t"
    "pv_anchor (jl_vars j') = pv_anchor (jl_vars j)" "pending (jl_pc j') = None"
  shows "fires_ok jb j'"
proof -
  have "sorted_wrt (<) (jl_fired j @ [t])"
  proof (cases "jl_fired j = []")
    case False
    then have "last (jl_fired j) < t" using assms(1,2,4) by (auto simp: fires_ok_def)
    moreover have "x \<le> last (jl_fired j)" if "x \<in> set (jl_fired j)" for x
      using sorted_last_max that assms(1) by (simp add: fires_ok_def)
    ultimately show ?thesis using assms(1) by (fastforce simp: fires_ok_def sorted_wrt_append)
  qed simp
  then show ?thesis using assms unfolding fires_ok_def same_position_def by auto
qed

lemma pass_start_fires:
  assumes "fires_ok jb j" "\<forall>n. 0 < pi_now i n" "times_ok (s_db (jl_svc j))" "jl_pc j = PStart"
  shows "fires_ok jb (pass_start jb i j)"
proof -
  obtain j1 r where l: "loadState jb i j = (j1, r)" by (cases "loadState jb i j")
  note cases = loadState_cases [OF l _ assms(3)]
  show ?thesis
  proof (cases "pi_ctx i 0 \<or> (\<exists>e. jb_compiled jb = Inl e)")
    case True
    then show ?thesis using fires_ok_returns [OF assms(1), of j False] by (auto simp: pass_start_def split: sum.splits)
  next
    case False
    then obtain c where c: "\<not> pi_ctx i 0" "jb_compiled jb = Inr c" by (cases "jb_compiled jb") auto
    show ?thesis
    proof (cases r)
      case None
      then show ?thesis using c l cases(1,2) assms(2) fires_ok_returns [OF assms(1), of j1 False]
        by (simp add: pass_start_def)
    next
      case (Some v)
      note v = cases(3) [OF _ Some] cases(1)
      have "fires_ok jb (j1\<lparr>jl_vars := v, jl_pc := PCatchUp (pi_now i 0)\<rparr>)"
        using v assms(1,2) unfolding fires_ok_def by (auto split: if_splits)
      then show ?thesis using c l Some by (simp add: pass_start_def)
    qed
  qed
qed

lemma pass_catchup_fires:
  assumes "fires_ok jb j" "compiled_ok c" "jl_pc j = PCatchUp now"
  shows "fires_ok jb (pass_catchup cfg jb c i now j)"
proof -
  have top: "fires_ok jb (j\<lparr>jl_pc := PTop\<rparr>)" by (rule fires_ok_frame [OF assms(1)]) (use assms(3) in auto)
  have ret: "fires_ok jb (returns e (j\<lparr>jl_svc := s\<rparr>))" "fires_ok jb (returns e j)" for e s
    by (rule fires_ok_returns [OF assms(1)]; simp)+
  have "fires_ok jb (catch_up cfg jb i now od j)"
    if "overdue c (pi_poll i) (pv_anchor (jl_vars j)) (pv_last (jl_vars j)) now w = Some (Inr od)" "0 < od_count od" for w od
  proof -
    let ?v = "jl_vars j"
    have "(if pv_last ?v = 0 then pv_anchor ?v else pv_last ?v) < od_latest od"
      using overdue_latest_after [OF assms(2) that] .
    moreover have "0 \<le> pv_anchor ?v" "0 \<le> pv_last ?v" using assms(1,3) by (auto simp: fires_ok_def)
    ultimately have "pv_last ?v < od_latest od" "0 < od_latest od" by (auto split: if_splits)
    then have adv: "fires_ok jb j'"
      if "jl_fired j' = jl_fired j @ [od_latest od]" "same_position ((jl_mem j)\<lparr>sm_last := od_latest od\<rparr>) (jl_mem j')"
        "pv_last (jl_vars j') = od_latest od" "pv_anchor (jl_vars j') = pv_anchor ?v" "jl_pc j' = PTop" for j'
      using fires_ok_advance [OF assms(1) _ that(1) _ _ that(2-4)] assms(3) that(5) by simp
    show ?thesis
      unfolding catch_up_def Let_def
      by (auto split: prod.splits sum.splits intro!: ret adv simp: advance_def same_position_def)
  qed
  then show ?thesis using assms(1) top ret
    by (auto simp: pass_catchup_def Let_def split: option.splits sum.splits)
qed

lemma pass_loop_fires:
  assumes "fires_ok jb j" "compiled_ok c" "\<forall>n. 0 < pi_now i n"
  shows "jl_pc j = PTop \<Longrightarrow> fires_ok jb (pass_next jb c i j)"
    "jl_pc j = PWait next \<Longrightarrow> fires_ok jb (pass_wait jb c i next j)"
    "jl_pc j = PFire next \<Longrightarrow> fires_ok jb (pass_fire cfg jb c i next j)"
proof -
  have ret: "fires_ok jb (returns e (j\<lparr>jl_svc := s\<rparr>))" "fires_ok jb (returns e j)" for e s
    by (rule fires_ok_returns [OF assms(1)]; simp)+
  have wait: "fires_ok jb ((persistNext jb (pi_set i) t j)\<lparr>jl_pc := PWait t\<rparr>)"
    if "in_pass (jl_pc j)" "nextFireDistinct c (maxTime (pv_last (jl_vars j)) (pi_now i k)) (pv_anchor (jl_vars j)) (pv_last (jl_vars j)) = Inr t" for k t
  proof -
    have "maxTime (pv_last (jl_vars j)) (pi_now i k) < t" using next_after [OF assms(2) that(2)] .
    then have "pv_last (jl_vars j) < t" "0 < t"
      using assms(3) by (auto simp: maxTime_def split: if_splits) (meson order_less_trans not_le order_le_less_trans)+
    then show ?thesis
      by (intro fires_ok_frame [OF assms(1)]) (use that(1) in \<open>auto simp: same_position_def\<close>)
  qed
  show "fires_ok jb (pass_next jb c i j)" if "jl_pc j = PTop"
    using that wait ret by (auto simp: pass_next_def Let_def split: sum.splits)
  show "fires_ok jb (pass_wait jb c i next j)" if pc: "jl_pc j = PWait next"
  proof -
    have "fires_ok jb (j\<lparr>jl_pc := PFire next\<rparr>)"
      by (rule fires_ok_frame [OF assms(1)]) (use assms(1) pc in \<open>auto simp: fires_ok_def\<close>)
    then show ?thesis using pc wait ret assms(1) by (auto simp: pass_wait_def Let_def split: sum.splits)
  qed
  show "fires_ok jb (pass_fire cfg jb c i next j)" if pc: "jl_pc j = PFire next"
  proof -
    have n: "pv_last (jl_vars j) < next" "0 < next" using assms(1) pc by (auto simp: fires_ok_def)
    have adv: "fires_ok jb j'"
      if "jl_fired j' = jl_fired j @ [next]" "same_position ((jl_mem j)\<lparr>sm_last := next\<rparr>) (jl_mem j')"
        "pv_last (jl_vars j') = next" "pv_anchor (jl_vars j') = pv_anchor (jl_vars j)" "pending (jl_pc j') = None" for j'
      using fires_ok_advance [OF assms(1) _ that(1) n that(2-5)] pc by simp
    obtain s r where t: "Trigger cfg (pi_env i) (jb_def jb) (jb_defHash jb) ''schedule'' (Some next) (jl_svc j) = (s, r)"
      by fastforce
    show ?thesis
    proof (cases r)
      case (Inl e)
      then show ?thesis using t ret by (simp add: pass_fire_def)
    next
      case (Inr run)
      show ?thesis
        unfolding pass_fire_def t Inr Let_def
        by (auto split: prod.splits sum.splits intro!: adv simp: advance_def same_position_def returns_def)
    qed
  qed
qed

lemma pass_step_fires:
  assumes "fires_ok jb j" "\<And>c. jb_compiled jb = Inr c \<Longrightarrow> compiled_ok c" "\<forall>n. 0 < pi_now i n"
    "times_ok (s_db (jl_svc j))"
  shows "fires_ok jb (pass_step cfg jb i j)"
proof -
  have outer: "fires_ok jb (loop_failed i j)" "fires_ok jb (loop_backoff i b j)" for b
  proof -
    have "fires_ok jb (j\<lparr>jl_pc := PBackoff x, jl_backoff := y\<rparr>)" "fires_ok jb (j\<lparr>jl_pc := PStart, jl_backoff := y\<rparr>)" for x y
      by (rule fires_ok_frame [OF assms(1)]; simp)+
    then show "fires_ok jb (loop_failed i j)" "fires_ok jb (loop_backoff i b j)"
      using fires_ok_returns [OF assms(1), of j] assms(1) by (auto simp: loop_failed_def loop_backoff_def Let_def)
  qed
  show ?thesis
  proof (cases "jb_compiled jb")
    case (Inl e)
    then show ?thesis using assms(1,3,4) outer pass_start_fires
      by (cases "jl_pc j") (auto simp: pass_step_def split: bool.splits)
  next
    case (Inr c)
    then show ?thesis using assms outer pass_start_fires pass_catchup_fires pass_loop_fires
      by (cases "jl_pc j") (auto simp: pass_step_def split: bool.splits)
  qed
qed

subsection \<open>Driving the execution service\<close>

lemma calm_setScheduleState: "calm b (fst (setScheduleState did hash anchor lastf next b))"
  by (auto simp: setScheduleState_def Let_def calm_def queue_inv_def queue_ids_def run_ids_def split: option.split)

definition sets_schedule :: "(db \<Rightarrow> unit op) \<Rightarrow> bool" where
  "sets_schedule f \<longleftrightarrow> (\<forall>b. calm b (fst (f b)))"

lemma sets_schedule_intros:
  "sets_schedule (SetScheduleState did hash anchor lastf)"
  "sets_schedule (SetScheduleStateWithNext did hash anchor lastf next)"
  by (simp_all add: sets_schedule_def SetScheduleState_def SetScheduleStateWithNext_def calm_setScheduleState)

abbreviation (input) exec_steps :: "exec_config \<Rightarrow> (env \<Rightarrow> bool) \<Rightarrow> service \<Rightarrow> service \<Rightarrow> bool" where
  "exec_steps cfg ok \<equiv> (exec_step cfg ok)\<^sup>*\<^sup>*"

lemma exec_steps_database:
  assumes "sets_schedule f" "call io f (s_db s) = (b, res)"
  shows "exec_steps cfg ok s (s\<lparr>s_db := b\<rparr>)"
proof -
  have "calm (s_db s) b" using calm_call [OF assms(2)] assms(1) by (simp add: sets_schedule_def)
  then show ?thesis by (intro r_into_rtranclp step_database)
qed

lemma writeState_exec:
  assumes "sets_schedule f" "writeState io f s = (s', r)"
  shows "exec_steps cfg ok s s'"
proof (cases "sh_down (s_health s)")
  case True
  then show ?thesis using assms(2) by (simp add: writeState_def)
next
  case False
  obtain b res where c: "call io f (s_db s) = (b, res)" by fastforce
  then have "s' = s\<lparr>s_db := b\<rparr>" using assms(2) False by (auto simp: writeState_def split: sum.splits)
  then show ?thesis using exec_steps_database [OF assms(1) c] by simp
qed

lemma persistNext_exec: "exec_steps cfg ok (jl_svc j) (jl_svc (persistNext jb io next j))"
  using writeState_exec [OF sets_schedule_intros(2)]
  by (auto simp: persistNext_def Let_def split: prod.split)

lemma fresh_state_exec: "fresh_state jb i j = (j1, r) \<Longrightarrow> exec_steps cfg ok (jl_svc j) (jl_svc j1)"
  using exec_steps_database [OF sets_schedule_intros(1)]
  by (auto simp: fresh_state_def Let_def split: prod.splits if_splits)

lemma loadState_exec: "loadState jb i j = (j1, r) \<Longrightarrow> exec_steps cfg ok (jl_svc j) (jl_svc j1)"
  using fresh_state_exec [of jb i j]
  by (auto simp: loadState_def Let_def split: prod.splits sum.splits option.splits if_splits)

lemma returns_svc [simp]: "jl_svc (returns e j) = jl_svc j"
  by (simp add: returns_def)

lemma Trigger_exec:
  assumes "ok e" "fresh_id e s" "Trigger cfg e d hash trig scheduled s = (s', r)"
  shows "exec_steps cfg ok s s'"
proof -
  obtain r' where "trigger cfg e d hash trig scheduled None 1 '''' s = (s', r')"
    using assms(3) by (auto simp: Trigger_def split: prod.splits sum.splits)
  then show ?thesis using step_trigger [of ok, OF assms(1,2)] by blast
qed

lemma catch_up_exec:
  assumes "ok (pi_env i)" "fresh_id (pi_env i) (jl_svc j)"
  shows "exec_steps cfg ok (jl_svc j) (jl_svc (catch_up cfg jb i now od j))"
proof -
  define res where "res = (if d_CatchUp (jb_def jb) = ''latest''
      then Trigger cfg (pi_env i) (jb_def jb) (jb_defHash jb) ''schedule'' (Some (od_latest od)) (jl_svc j)
      else RecordMissed cfg (pi_env i) (jb_def jb) (jb_defHash jb) (od_count od) (od_latest od) (jl_svc j))"
  obtain s r where sr: "res = (s, r)" by (cases res)
  have s: "exec_steps cfg ok (jl_svc j) s"
  proof (cases "d_CatchUp (jb_def jb) = ''latest''")
    case True
    then show ?thesis using Trigger_exec [of ok, OF assms] sr by (simp add: res_def)
  next
    case False
    then show ?thesis using step_missed sr by (fastforce simp: res_def)
  qed
  have "exec_steps cfg ok s s2" if "writeState io (SetScheduleState did h a l) s = (s2, k)" for io did h a l s2 k
    using writeState_exec [OF sets_schedule_intros(1) that] .
  then show ?thesis using s sr [unfolded res_def] unfolding catch_up_def Let_def
    by (auto simp: advance_def split: sum.splits prod.splits intro: rtranclp_trans)
qed

lemma pass_fire_exec:
  assumes "ok (pi_env i)" "fresh_id (pi_env i) (jl_svc j)"
  shows "exec_steps cfg ok (jl_svc j) (jl_svc (pass_fire cfg jb c i next j))"
proof -
  obtain s r where t: "Trigger cfg (pi_env i) (jb_def jb) (jb_defHash jb) ''schedule'' (Some next) (jl_svc j) = (s, r)"
    by fastforce
  have s: "exec_steps cfg ok (jl_svc j) s" using Trigger_exec [of ok, OF assms t] .
  have w: "exec_steps cfg ok s s2" if "writeState io (SetScheduleState did h a l) s = (s2, k)" for io did h a l s2 k
    using writeState_exec [OF sets_schedule_intros(1) that] .
  have p: "exec_steps cfg ok s (jl_svc (persistNext jb io x (advance next (j\<lparr>jl_svc := s\<rparr>))))" for io x
    using persistNext_exec [of cfg ok "advance next (j\<lparr>jl_svc := s\<rparr>)" jb io x] by (simp add: advance_def)
  show ?thesis
    using s w p unfolding pass_fire_def t Let_def
    by (auto split: sum.splits prod.splits intro: rtranclp_trans)
qed

lemma pass_step_exec:
  assumes "ok (pi_env i)" "fresh_id (pi_env i) (jl_svc j)"
  shows "exec_steps cfg ok (jl_svc j) (jl_svc (pass_step cfg jb i j))"
proof -
  have start: "exec_steps cfg ok (jl_svc j) (jl_svc (pass_start jb i j))"
    using loadState_exec [of jb i j] by (auto simp: pass_start_def split: sum.splits prod.splits option.splits)
  have catchup: "exec_steps cfg ok (jl_svc j) (jl_svc (pass_catchup cfg jb c i now j))" for c now
    using catch_up_exec [of ok, OF assms] by (auto simp: pass_catchup_def Let_def split: option.splits sum.splits)
  have "exec_steps cfg ok (jl_svc j) (jl_svc (pass_next jb c i j))"
    "exec_steps cfg ok (jl_svc j) (jl_svc (pass_wait jb c i nx j))" for c nx
    using persistNext_exec by (auto simp: pass_next_def pass_wait_def Let_def split: sum.splits)
  moreover have "jl_svc (loop_failed i j) = jl_svc j" "jl_svc (loop_backoff i b j) = jl_svc j" for b
    by (simp_all add: loop_failed_def loop_backoff_def Let_def)
  ultimately show ?thesis
    using start catchup pass_fire_exec [of ok, OF assms]
    by (cases "jb_compiled jb"; cases "jl_pc j") (auto simp: pass_step_def split: bool.splits)
qed

subsection \<open>The grid of an interval schedule\<close>

definition grid_ok :: "job \<Rightarrow> job_loop \<Rightarrow> bool" where
  "grid_ok jb j \<longleftrightarrow> (\<forall>c t. jb_compiled jb = Inr c \<longrightarrow> 0 < cs_interval c \<longrightarrow> pending (jl_pc j) = Some t \<longrightarrow>
     (\<exists>k \<ge> 1. t = pv_anchor (jl_vars j) + k * cs_interval c))"

lemma grid_ok_idle: "pending (jl_pc j) = None \<Longrightarrow> grid_ok jb j"
  by (simp add: grid_ok_def)

lemma next_on_grid:
  assumes "compiled_ok c" "0 < cs_interval c" "nextFireDistinct c after anchor lastf = Inr t"
  shows "\<exists>k \<ge> 1. t = anchor + k * cs_interval c"
  using nextFire_interval_Inr [of c after anchor t] assms
  by (auto simp: compiled_ok_def nextFireDistinct_def split: sum.splits if_splits)

lemma pass_step_grid:
  assumes "grid_ok jb j" "\<And>c. jb_compiled jb = Inr c \<Longrightarrow> compiled_ok c"
  shows "grid_ok jb (pass_step cfg jb i j)"
proof (cases "jb_compiled jb")
  case (Inl e)
  then show ?thesis by (simp add: grid_ok_def)
next
  case (Inr c)
  have wait: "grid_ok jb ((persistNext jb io t j)\<lparr>jl_pc := PWait t\<rparr>)"
    if "nextFireDistinct c after (pv_anchor (jl_vars j)) lastf = Inr t" for io t after lastf
    using next_on_grid [OF assms(2) [OF Inr] _ that] Inr by (auto simp: grid_ok_def)
  have idle: "grid_ok jb (returns e j')" "grid_ok jb (j'\<lparr>jl_pc := PTop\<rparr>)" "grid_ok jb (j'\<lparr>jl_pc := PTop, jl_vars := v\<rparr>)"
    "grid_ok jb (j'\<lparr>jl_vars := v, jl_pc := PCatchUp t\<rparr>)" "grid_ok jb (j'\<lparr>jl_pc := PStart, jl_backoff := b\<rparr>)"
    "grid_ok jb (j'\<lparr>jl_pc := PBackoff b, jl_backoff := b\<rparr>)" for e j' v t b
    by (simp_all add: grid_ok_idle returns_def)
  have fire: "jl_pc j = PWait t \<Longrightarrow> grid_ok jb (j\<lparr>jl_pc := PFire t\<rparr>)" for t
    using assms(1) by (simp add: grid_ok_def)
  show ?thesis
    using assms(1) wait idle fire
    by (cases "jl_pc j")
      (auto simp: pass_step_def Inr pass_start_def pass_catchup_def catch_up_def pass_next_def pass_wait_def
        pass_fire_def loop_failed_def loop_backoff_def Let_def
        split: sum.splits prod.splits option.splits bool.splits if_splits)
qed

text \<open>What a pass finds that starts after an occurrence of the grid was not handed over.\<close>

lemma overdue_covers:
  assumes "compiled_ok c" "0 < cs_interval c" "t = anchor + k * cs_interval c" "1 \<le> k"
    "lastf < t" "t < now" "now - anchor \<le> max_int64"
  shows "\<exists>od. overdue c ctx anchor lastf now want = Some (Inr od) \<and> 0 < od_count od \<and>
     t \<le> od_latest od \<and> od_latest od \<le> now"
proof -
  let ?i = "cs_interval c" and ?base = "if lastf = 0 then anchor else lastf"
  have i: "?i \<le> max_int64" using assms(1) by (simp add: compiled_ok_def)
  have base: "?base < t"
    using assms(2-5) by (auto simp: mult_pos_pos intro: less_le_trans)
  have "k * ?i \<le> max_int64" using assms(3,6,7) by simp
  then have k: "k \<le> max_int64 div ?i" using zdiv_mono1 [of "k * ?i" max_int64 ?i] assms(2) by simp
  obtain first where f: "nextFire c ?base anchor = Inr first"
  proof (cases "?base < anchor")
    case True
    then show ?thesis using that assms(2) by (simp add: nextFire_def)
  next
    case False
    have "?base - anchor < k * ?i" using base assms(3) by simp
    moreover have "(?base - anchor) div ?i * ?i \<le> ?base - anchor"
      using assms(2) by (simp add: minus_mod_eq_div_mult [symmetric])
    ultimately have "(?base - anchor) div ?i * ?i < k * ?i" by simp
    then have "(?base - anchor) div ?i < k" using assms(2) by (simp add: mult_less_cancel_right)
    then show ?thesis using nextFire_interval [OF assms(2) i, of anchor ?base] False k that by force
  qed
  note g = nextFire_interval_Inr [OF assms(2) i f]
  then obtain m where m: "first = anchor + m * ?i" "1 \<le> m" by blast
  have ft: "first \<le> t" using g assms(3,4) base by blast
  have "nextFireDistinct c ?base anchor lastf = Inr first" using f assms(2) by (simp add: nextFireDistinct_def)
  moreover have "first < now" using ft assms(6) by simp
  moreover have "0 \<le> m * ?i" using m(2) assms(2) by simp
  then have "now - first \<le> max_int64" using m assms(7) by simp
  ultimately have od: "overdue c ctx anchor lastf now want = Some (Inr \<lparr>od_first = first,
      od_latest = first + (now - first) div ?i * ?i, od_count = min max_int64 ((now - first) div ?i + 1), od_exact = True\<rparr>)"
    using overdue_interval [OF assms(2) i] by blast
  have q0: "0 \<le> (now - first) div ?i" using \<open>first < now\<close> assms(2) by (simp add: pos_imp_zdiv_nonneg_iff)
  have "(k - m) * ?i \<le> now - first" using assms(3,6) m(1) by (simp add: left_diff_distrib)
  then have "k - m \<le> (now - first) div ?i"
    using zdiv_mono1 [of "(k - m) * ?i" "now - first" ?i] assms(2) by simp
  then have "(k - m) * ?i \<le> (now - first) div ?i * ?i" using assms(2) by (intro mult_right_mono) auto
  then have "t \<le> first + (now - first) div ?i * ?i" using assms(3) m(1) by (simp add: left_diff_distrib)
  moreover have "first + (now - first) div ?i * ?i \<le> now"
    using assms(2) by (simp add: minus_mod_eq_div_mult [symmetric])
  ultimately show ?thesis using od q0 by (auto simp: max_int64_def)
qed

definition sched_inv :: "exec_config \<Rightarrow> (env \<Rightarrow> bool) \<Rightarrow> job \<Rightarrow> job_loop \<Rightarrow> bool" where
  "sched_inv cfg ok jb j \<longleftrightarrow> config_ok cfg \<and> fires_ok jb j \<and> grid_ok jb j \<and> exec_reachable cfg ok (jl_svc j)"

lemma sched_inv_start: "sched_start cfg j \<Longrightarrow> sched_inv cfg ok jb j"
  by (auto simp: sched_start_def sched_inv_def new_loop_def no_memory_def fires_ok_def grid_ok_def
      intro: reachable_start)

lemma sched_inv_step:
  assumes "sched_inv cfg ok jb j" "\<And>c. jb_compiled jb = Inr c \<Longrightarrow> compiled_ok c" "sched_step cfg ok jb j j'"
  shows "sched_inv cfg ok jb j'"
proof -
  have inv: "config_ok cfg" "fires_ok jb j" "exec_reachable cfg ok (jl_svc j)" "grid_ok jb j"
    using assms(1) by (auto simp: sched_inv_def)
  have more: "exec_reachable cfg ok t" if "exec_steps cfg ok (jl_svc j) t" for t
    using that inv(1,3) by (induction rule: rtranclp_induct) (auto intro: reachable_step)
  from assms(3) show ?thesis
  proof cases
    case (sched_pass i)
    then show ?thesis using inv more [OF pass_step_exec [of ok]] pass_step_fires [OF inv(2) assms(2)] pass_step_grid [OF inv(4) assms(2)]
      by (simp add: sched_inv_def)
  next
    case (sched_other s)
    moreover have "fires_ok jb (j\<lparr>jl_svc := s\<rparr>)" by (rule fires_ok_frame [OF inv(2)]) (use inv(2) in \<open>auto simp: fires_ok_def\<close>)
    ultimately show ?thesis using inv more [of s] by (auto simp: sched_inv_def grid_ok_def)
  qed
qed

abbreviation (input) sched_move :: "exec_config \<Rightarrow> (env \<Rightarrow> bool) \<Rightarrow> job \<Rightarrow> job_loop \<Rightarrow> job_loop \<Rightarrow> bool" where
  "sched_move cfg ok jb j j' \<equiv> (\<forall>c. jb_compiled jb = Inr c \<longrightarrow> compiled_ok c) \<and> sched_step cfg ok jb j j'"

interpretation scheduling: invariant_system "sched_start cfg" "sched_move cfg ok jb" "sched_inv cfg ok jb"
  using sched_inv_start sched_inv_step by unfold_locales blast+

interpretation schedule_backoff: capped_backoff Second scheduleBackoffMax
  by unfold_locales (simp_all add: scheduleBackoffMax_def)

subsection \<open>Properties\<close>

abbreviation (input) sched_reachable :: "exec_config \<Rightarrow> (env \<Rightarrow> bool) \<Rightarrow> job \<Rightarrow> job_loop \<Rightarrow> bool" where
  "sched_reachable cfg ok jb \<equiv> reachable (sched_start cfg) (sched_move cfg ok jb)"

text \<open>C24: the loop of a job hands over each occurrence at most once and in order, however its passes
  fail, storage comes and goes and the clock moves: the occurrences triggered or recorded as missed
  strictly increase, the position in memory is the last of them, and the occurrence about to be fired is
  later than all of them.\<close>

theorem fires_strictly_increase:
  assumes "sched_reachable cfg ok jb j"
  shows "sorted_wrt (<) (jl_fired j) \<and> (jl_fired j \<noteq> [] \<longrightarrow> sm_last (jl_mem j) = last (jl_fired j)) \<and>
     (jl_pc j = PFire t \<and> t' \<in> set (jl_fired j) \<longrightarrow> t' < t)"
proof -
  have ok: "fires_ok jb j" using scheduling.reachable_inv [OF assms] by (simp add: sched_inv_def)
  have "t' < t" if "jl_pc j = PFire t" "t' \<in> set (jl_fired j)"
  proof -
    have "t' \<le> last (jl_fired j)" using sorted_last_max that ok by (simp add: fires_ok_def)
    moreover have "last (jl_fired j) < t" using ok that by (auto simp: fires_ok_def)
    ultimately show ?thesis by simp
  qed
  then show ?thesis using ok by (auto simp: fires_ok_def)
qed


text \<open>C25: an occurrence of an interval schedule whose trigger failed is not lost: the failing step
  leaves the position before it, and any later pass finds occurrences overdue, the latest of them at
  or after the failed one.\<close>

theorem failed_fire_caught_up:
  assumes "sched_reachable cfg ok jb j" "jb_compiled jb = Inr c" "compiled_ok c" "0 < cs_interval c"
    "jl_pc j = PFire t" "jl_pc (pass_step cfg jb i j) = PReturned True"
    "t < now" "now - sm_anchor (jl_mem j) \<le> max_int64"
  shows "jl_fired (pass_step cfg jb i j) = jl_fired j \<and>
     (\<exists>od. overdue c ctx (sm_anchor (jl_mem (pass_step cfg jb i j))) (sm_last (jl_mem (pass_step cfg jb i j))) now want
             = Some (Inr od) \<and> 0 < od_count od \<and> t \<le> od_latest od \<and> od_latest od \<le> now)"
proof -
  have ok: "fires_ok jb j" "grid_ok jb j" using scheduling.reachable_inv [OF assms(1)] by (auto simp: sched_inv_def)
  obtain s e where "pass_step cfg jb i j = returns True (j\<lparr>jl_svc := s\<rparr>)"
    using assms(2,5,6) unfolding pass_step_def pass_fire_def
    by (auto simp: returns_def Let_def split: prod.splits sum.splits)
  then have same: "jl_mem (pass_step cfg jb i j) = jl_mem j" "jl_fired (pass_step cfg jb i j) = jl_fired j"
    by (simp_all add: returns_def)
  obtain k where k: "1 \<le> k" "t = sm_anchor (jl_mem j) + k * cs_interval c"
    using ok assms(2,4,5) by (auto simp: grid_ok_def fires_ok_def)
  have "sm_last (jl_mem j) < t" using ok(1) assms(5) by (auto simp: fires_ok_def)
  then show ?thesis
    unfolding same using overdue_covers [OF assms(3,4) k(2,1) _ assms(7,8)] by blast
qed

subsection \<open>Witnesses\<close>

text \<open>A job that fires every ten seconds, from its first pass to its first fire.\<close>

definition tick_job :: job where
  "tick_job = \<lparr>jb_def = demo_job, jb_defHash = ''h'', jb_hash = ''every ten seconds'', jb_compiled = Inr ten_seconds\<rparr>"

definition tick_in :: "time \<Rightarrow> env \<Rightarrow> pass_in" where
  "tick_in t e = \<lparr>pi_now = (\<lambda>_. t), pi_ctx = (\<lambda>_. False), pi_poll = (\<lambda>_. False), pi_state = Works, pi_fired = Works,
     pi_set = Works, pi_env = e, pi_timer = True, pi_slow = False\<rparr>"

definition tick_start :: time where "tick_start = unix_epoch + Hour"

definition ticked :: "time list \<Rightarrow> job_loop" where
  "ticked ts = fold (\<lambda>t. pass_step demo_cfg tick_job (tick_in t demo_env)) ts (new_loop demo_start)"

definition tick_due :: job_loop where
  "tick_due = ticked [tick_start, tick_start, tick_start, tick_start + 10 * Second]"

definition free_service :: "service \<Rightarrow> bool" where
  "free_service s \<longleftrightarrow> s_active s = [] \<and> db_queue (s_db s) = []"

lemma tick_reachable:
  assumes "sched_reachable demo_cfg honest tick_job j" "0 < t" "times_ok (s_db (jl_svc j))"
    "free_service (jl_svc j)" "honest e"
  shows "sched_reachable demo_cfg honest tick_job (pass_step demo_cfg tick_job (tick_in t e) j)"
proof -
  have "fresh_id e (jl_svc j)" using assms(4) by (simp add: free_service_def fresh_id_def active_ids_def queue_ids_def)
  then have "sched_step demo_cfg honest tick_job j (pass_step demo_cfg tick_job (tick_in t e) j)"
    using assms(2,3,5) by (intro sched_pass) (simp_all add: tick_in_def)
  moreover have "compiled_ok ten_seconds"
    using FixedZone_wf no_cron_ok by (simp add: compiled_ok_def ten_seconds_def max_int64_def)
  ultimately show ?thesis using assms(1) by (auto simp: tick_job_def intro: reachable_step)
qed

lemma tick_due_reachable: "sched_reachable demo_cfg honest tick_job tick_due"
proof -
  have r0: "sched_reachable demo_cfg honest tick_job (ticked [])"
    using demo_start_ok demo_cfg_ok by (intro reachable_start) (auto simp: sched_start_def ticked_def)
  have s: "ticked (ts @ [t]) = pass_step demo_cfg tick_job (tick_in t demo_env) (ticked ts)" for ts t
    by (simp add: ticked_def)
  have pos: "0 < tick_start" "0 < tick_start + 10 * Second" by (simp_all add: tick_start_def unix_epoch_def)
  have n: "times_ok (s_db (jl_svc (ticked [])))" "free_service (jl_svc (ticked []))"
    "times_ok (s_db (jl_svc (ticked [tick_start])))" "free_service (jl_svc (ticked [tick_start]))"
    "times_ok (s_db (jl_svc (ticked [tick_start, tick_start])))" "free_service (jl_svc (ticked [tick_start, tick_start]))"
    "times_ok (s_db (jl_svc (ticked [tick_start, tick_start, tick_start])))"
    "free_service (jl_svc (ticked [tick_start, tick_start, tick_start]))"
    by code_simp+
  have r1: "sched_reachable demo_cfg honest tick_job (ticked [tick_start])"
    using tick_reachable [OF r0 pos(1) n(1,2) demo_honest] s [of "[]"] by simp
  have r2: "sched_reachable demo_cfg honest tick_job (ticked [tick_start, tick_start])"
    using tick_reachable [OF r1 pos(1) n(3,4) demo_honest] s [of "[tick_start]"] by simp
  have r3: "sched_reachable demo_cfg honest tick_job (ticked [tick_start, tick_start, tick_start])"
    using tick_reachable [OF r2 pos(1) n(5,6) demo_honest] s [of "[tick_start, tick_start]"] by simp
  show ?thesis
    using tick_reachable [OF r3 pos(2) n(7,8) demo_honest] s [of "[tick_start, tick_start, tick_start]"]
    by (simp add: tick_due_def)
qed

definition tick_fired :: job_loop where
  "tick_fired = pass_step demo_cfg tick_job (tick_in (tick_start + 10 * Second) demo_env) tick_due"

lemma tick_fired_reachable: "sched_reachable demo_cfg honest tick_job tick_fired"
proof -
  have "times_ok (s_db (jl_svc tick_due))" "free_service (jl_svc tick_due)" by code_simp+
  moreover have "0 < tick_start + 10 * Second" by (simp add: tick_start_def unix_epoch_def)
  ultimately show ?thesis using tick_reachable [OF tick_due_reachable] demo_honest by (simp add: tick_fired_def)
qed

theorem fires_strictly_increase_witness:
  "jl_fired tick_fired = [tick_start + 10 * Second] \<and> sm_last (jl_mem tick_fired) = tick_start + 10 * Second"
proof -
  have "jl_fired tick_fired = [tick_start + 10 * Second]" by code_simp
  then show ?thesis using fires_strictly_increase [OF tick_fired_reachable] by simp
qed


text \<open>The same fire while the executor refuses it.\<close>

definition refusing_env :: env where
  "refusing_env = demo_env\<lparr>e_admission := Some ExCapacity\<rparr>"

theorem failed_fire_caught_up_witness:
  "\<exists>od. overdue ten_seconds (\<lambda>_. False) tick_start 0 (tick_start + 25 * Second) True = Some (Inr od) \<and>
     0 < od_count od \<and> tick_start + 10 * Second \<le> od_latest od"
proof -
  let ?i = "tick_in (tick_start + 10 * Second) refusing_env"
  have pc: "jl_pc tick_due = PFire (tick_start + 10 * Second)" by code_simp
  have failed: "jl_pc (pass_step demo_cfg tick_job ?i tick_due) = PReturned True" by code_simp
  have mem: "sm_anchor (jl_mem tick_due) = tick_start"
    "sm_anchor (jl_mem (pass_step demo_cfg tick_job ?i tick_due)) = tick_start"
    "sm_last (jl_mem (pass_step demo_cfg tick_job ?i tick_due)) = 0" by code_simp+
  have "compiled_ok ten_seconds" "0 < cs_interval ten_seconds" "jb_compiled tick_job = Inr ten_seconds"
    using FixedZone_wf no_cron_ok by (simp_all add: compiled_ok_def ten_seconds_def max_int64_def tick_job_def)
  then show ?thesis
    using failed_fire_caught_up [OF tick_due_reachable _ _ _ pc failed, of ten_seconds "tick_start + 25 * Second"
        "\<lambda>_. False" True, unfolded mem]
    by (auto simp: max_int64_def)
qed

end
