(* ===== verification/TrustedPath.thy ===== *)
theory TrustedPath
  imports Prelude
begin

text \<open>
  The trusted search path of \<^verbatim>\<open>src/internal/trustedpath/path.go\<close>. The file system is a
  parameter: what \<^verbatim>\<open>os.Lstat\<close> and \<^verbatim>\<open>os.Readlink\<close> answer for a path, unchanged
  during one call. The loop of \<^verbatim>\<open>resolve\<close> is one function of the current path, the parts
  left and the links followed; that it always ends is its termination proof.

  \<open>admin_chain\<close> is what the package comment promises: every directory from the root to the
  file, and the file itself, belongs to root and is not writable by group or others.
\<close>

section \<open>Files and paths\<close>

datatype file_type = Directory | Regular | Symlink | Irregular

text \<open>\<open>fi_uid\<close> is \<open>None\<close> where \<^verbatim>\<open>info.Sys()\<close> is not a
  \<^verbatim>\<open>Stat_t\<close>; \<open>fi_perm\<close> are the nine permission bits.\<close>

record file_info =
  fi_type :: file_type
  fi_perm :: nat
  fi_uid :: "nat option"

datatype fs_error = ErrNotExist | ErrMsg string

type_synonym 'a fs_result = "fs_error + 'a"

record filesystem =
  Lstat :: "string \<Rightarrow> file_info fs_result"
  Readlink :: "string \<Rightarrow> string fs_result"

unbundle bit_operations_syntax

definition IsDir :: "file_info \<Rightarrow> bool" where
  "IsDir info \<longleftrightarrow> fi_type info = Directory"

definition IsRegular :: "file_info \<Rightarrow> bool" where
  "IsRegular info \<longleftrightarrow> fi_type info = Regular"

definition trusted :: "file_info \<Rightarrow> unit fs_result" where
  "trusted info =
     (case fi_uid info of
        None \<Rightarrow> Inl (ErrMsg ''file ownership is unavailable'')
      | Some uid \<Rightarrow>
          if uid \<noteq> 0 \<or> fi_perm info AND 18 \<noteq> 0
          then Inl (ErrMsg ''must be root-owned and not group/other writable'')
          else if \<not> IsDir info \<and> \<not> IsRegular info
          then Inl (ErrMsg ''must be a regular file or directory'')
          else Inr ())"

abbreviation (input) slash :: char where "slash \<equiv> CHR ''/''"

text \<open>\<^verbatim>\<open>strings.Split(s, "/")\<close>, \<^verbatim>\<open>strings.TrimRight(s, "/")\<close> and
  \<^verbatim>\<open>filepath.IsAbs\<close>.\<close>

fun Split :: "string \<Rightarrow> string list" where
  "Split [] = [[]]"
| "Split (c # cs) =
     (if c = slash then [] # Split cs
      else case Split cs of [] \<Rightarrow> [[c]] | w # ws \<Rightarrow> (c # w) # ws)"

definition TrimRight :: "string \<Rightarrow> string" where
  "TrimRight s = rev (dropWhile (\<lambda>c. c = slash) (rev s))"

definition IsAbs :: "string \<Rightarrow> bool" where
  "IsAbs s = (case s of [] \<Rightarrow> False | c # _ \<Rightarrow> c = slash)"

text \<open>\<^verbatim>\<open>filepath.Join\<close> of a clean absolute path and one ordinary component, and
  \<^verbatim>\<open>filepath.Dir\<close> of a clean absolute path: the only arguments they are given here.\<close>

definition Join :: "string \<Rightarrow> string \<Rightarrow> string" where
  "Join current part = (if current = ''/'' then slash # part else current @ slash # part)"

definition Dir :: "string \<Rightarrow> string" where
  "Dir path = (let parent_path = rev (tl (dropWhile (\<lambda>c. c \<noteq> slash) (rev path)))
               in if parent_path = [] then ''/'' else parent_path)"

section \<open>Resolution\<close>

text \<open>The state is \<^verbatim>\<open>current\<close>, \<^verbatim>\<open>parts\<close> and \<^verbatim>\<open>links\<close>; each
  iteration takes one part or follows one of at most 40 links.\<close>

function resolve_loop ::
  "filesystem \<Rightarrow> string \<Rightarrow> string list \<Rightarrow> nat \<Rightarrow> (string \<times> file_info) fs_result" where
  "resolve_loop fs current [] links =
     (case Lstat fs current of Inl e \<Rightarrow> Inl e | Inr info \<Rightarrow> Inr (current, info))"
| "resolve_loop fs current (part # parts) links =
     (if part = '''' \<or> part = ''.'' then resolve_loop fs current parts links
      else if part = ''..'' then resolve_loop fs (Dir current) parts links
      else
        let candidate = Join current part
        in case Lstat fs candidate of
             Inl e \<Rightarrow> Inl e
           | Inr info \<Rightarrow>
               if fi_type info = Symlink then
                 (if links + 1 > 40 then Inl (ErrMsg ''too many symlinks'')
                  else case Readlink fs candidate of
                         Inl e \<Rightarrow> Inl e
                       | Inr target \<Rightarrow>
                           resolve_loop fs (if IsAbs target then ''/'' else current)
                             (Split target @ parts) (links + 1))
               else if parts \<noteq> [] \<and> \<not> IsDir info
               then Inl (ErrMsg ''not a directory'')
               else case trusted info of
                      Inl e \<Rightarrow> Inl e
                    | Inr _ \<Rightarrow> resolve_loop fs candidate parts links)"
  by pat_completeness auto
termination
  by (relation "measures [\<lambda>(fs, current, parts, links). 41 - links,
                          \<lambda>(fs, current, parts, links). length parts]") auto

definition resolve :: "filesystem \<Rightarrow> string \<Rightarrow> (string \<times> file_info) fs_result" where
  "resolve fs path =
     (if \<not> IsAbs path \<or> CHR '':'' \<in> set path \<or> length path > 4096
      then Inl (ErrMsg ''must be an absolute path of at most 4096 bytes without colon'')
      else case Lstat fs ''/'' of
             Inl e \<Rightarrow> Inl e
           | Inr info \<Rightarrow>
               (case trusted info of
                  Inl e \<Rightarrow> Inl e
                | Inr _ \<Rightarrow> resolve_loop fs ''/'' (Split path) 0))"

text \<open>\<^verbatim>\<open>Validate\<close>: a nil list (\<open>None\<close>) keeps the legacy lookup.\<close>

fun validate_dirs :: "filesystem \<Rightarrow> string list \<Rightarrow> unit fs_result" where
  "validate_dirs fs [] = Inr ()"
| "validate_dirs fs (dir # dirs) =
     (case resolve fs dir of
        Inl e \<Rightarrow> Inl e
      | Inr (_, info) \<Rightarrow>
          if \<not> IsDir info then Inl (ErrMsg ''is not a directory'') else validate_dirs fs dirs)"

definition Validate :: "filesystem \<Rightarrow> string list option \<Rightarrow> unit fs_result" where
  "Validate fs dirs =
     (case dirs of
        None \<Rightarrow> Inr ()
      | Some ds \<Rightarrow>
          if ds = [] \<or> length ds > 32
          then Inl (ErrMsg ''must contain between 1 and 32 directories'')
          else validate_dirs fs ds)"

fun look_dirs :: "filesystem \<Rightarrow> string \<Rightarrow> string list \<Rightarrow> string fs_result" where
  "look_dirs fs program [] = Inl (ErrMsg ''executable not found in trusted PATH'')"
| "look_dirs fs program (dir # dirs) =
     (case resolve fs (TrimRight dir @ slash # program) of
        Inl ErrNotExist \<Rightarrow> look_dirs fs program dirs
      | Inl e \<Rightarrow> Inl e
      | Inr (path, info) \<Rightarrow>
          if IsRegular info \<and> fi_perm info AND 73 \<noteq> 0 then Inr path
          else look_dirs fs program dirs)"

definition LookPath :: "filesystem \<Rightarrow> string \<Rightarrow> string list \<Rightarrow> string fs_result" where
  "LookPath fs program dirs =
     (if program = '''' \<or> slash \<in> set program
      then Inl (ErrMsg ''expected a bare executable name'')
      else look_dirs fs program dirs)"

section \<open>Chains of trusted directories\<close>

text \<open>The clean absolute path with given components.\<close>

definition path_of :: "string list \<Rightarrow> string" where
  "path_of cs = (if cs = [] then ''/'' else concat (map (\<lambda>c. slash # c) cs))"

definition component :: "string \<Rightarrow> bool" where
  "component c \<longleftrightarrow> c \<noteq> '''' \<and> c \<noteq> ''.'' \<and> c \<noteq> ''..'' \<and> slash \<notin> set c"

definition admin_owned :: "file_info \<Rightarrow> bool" where
  "admin_owned info \<longleftrightarrow> fi_uid info = Some 0 \<and> fi_perm info AND 18 = 0 \<and> (IsDir info \<or> IsRegular info)"

text \<open>Every prefix of the path is there, is no symbolic link and is controlled by the
  administrator; all but the last below the root are directories.\<close>

definition admin_chain :: "filesystem \<Rightarrow> string list \<Rightarrow> bool" where
  "admin_chain fs cs \<longleftrightarrow> list_all component cs \<and>
     (\<forall>n \<le> length cs. \<exists>info. Lstat fs (path_of (take n cs)) = Inr info \<and> admin_owned info \<and>
        (0 < n \<and> n < length cs \<longrightarrow> IsDir info))"

lemma trusted_admin_owned: "trusted info = Inr () \<longleftrightarrow> admin_owned info"
  by (auto simp: trusted_def admin_owned_def split: option.splits)

lemma path_of_Nil [simp]: "path_of [] = ''/''"
  by (simp add: path_of_def)

lemma path_of_root_iff: "list_all component cs \<Longrightarrow> path_of cs = ''/'' \<longleftrightarrow> cs = []"
  by (cases cs) (auto simp: path_of_def component_def)

lemma Join_path_of: "list_all component cs \<Longrightarrow> Join (path_of cs) c = path_of (cs @ [c])"
  using path_of_root_iff [of cs] by (auto simp: Join_def path_of_def)

lemma dropWhile_not_slash: "slash \<notin> set c \<Longrightarrow> dropWhile (\<lambda>x. x \<noteq> slash) (c @ slash # r) = slash # r"
  by (induction c) auto

lemma Dir_path_of: "list_all component cs \<Longrightarrow> Dir (path_of cs) = path_of (butlast cs)"
proof (cases cs rule: rev_cases)
  case (snoc ds c)
  moreover assume "list_all component cs"
  ultimately have "slash \<notin> set (rev c)" and ne: "ds \<noteq> [] \<Longrightarrow> concat (map (\<lambda>c. slash # c) ds) \<noteq> []"
    by (auto simp: component_def)
  then have "dropWhile (\<lambda>x. x \<noteq> slash) (rev (path_of cs)) = slash # rev (concat (map (\<lambda>c. slash # c) ds))"
    using snoc dropWhile_not_slash [of "rev c"] by (simp add: path_of_def)
  then show ?thesis using snoc ne by (cases "ds = []") (auto simp: Dir_def path_of_def)
qed (simp add: Dir_def path_of_def)

lemma Split_no_slash: "p \<in> set (Split s) \<Longrightarrow> slash \<notin> set p"
  by (induction s arbitrary: p rule: Split.induct) (auto split: if_splits list.splits)

lemma Split_nonempty: "Split s \<noteq> []"
  by (induction s) (auto split: list.splits)

lemma admin_chain_butlast: "admin_chain fs cs \<Longrightarrow> admin_chain fs (butlast cs)"
proof (cases cs rule: rev_cases)
  case (snoc ds c)
  assume chain: "admin_chain fs cs"
  have "\<exists>info. Lstat fs (path_of (take n ds)) = Inr info \<and> admin_owned info \<and>
      (0 < n \<and> n < length ds \<longrightarrow> IsDir info)" if "n \<le> length ds" for n
  proof -
    have "n \<le> length cs" "take n cs = take n ds" "n < length ds \<Longrightarrow> n < length cs"
      using snoc that by auto
    then show ?thesis using chain unfolding admin_chain_def by metis
  qed
  then show ?thesis using chain snoc by (auto simp: admin_chain_def)
qed simp

text \<open>A chain ends in a directory (the root counts as one).\<close>

definition chain_dir :: "filesystem \<Rightarrow> string list \<Rightarrow> bool" where
  "chain_dir fs cs \<longleftrightarrow> cs = [] \<or> (\<exists>info. Lstat fs (path_of cs) = Inr info \<and> IsDir info)"

lemma chain_dir_butlast: "admin_chain fs cs \<Longrightarrow> chain_dir fs (butlast cs)"
proof (cases "length cs \<le> 1")
  case True
  then have "butlast cs = []" by (cases cs) auto
  then show ?thesis by (simp add: chain_dir_def)
next
  case False
  assume "admin_chain fs cs"
  then obtain info where "Lstat fs (path_of (take (length cs - 1) cs)) = Inr info" "IsDir info"
    using False unfolding admin_chain_def by (metis Suc_pred diff_le_self length_greater_0_conv lessI
        less_or_eq_imp_le linorder_not_le list.size(3) One_nat_def zero_less_diff)
  then show ?thesis by (simp add: chain_dir_def butlast_conv_take)
qed

lemma admin_chain_snoc:
  assumes "admin_chain fs cs" "chain_dir fs cs" "component c"
    and "Lstat fs (path_of (cs @ [c])) = Inr info" "admin_owned info"
  shows "admin_chain fs (cs @ [c])"
proof -
  have "\<exists>info. Lstat fs (path_of (take n (cs @ [c]))) = Inr info \<and> admin_owned info \<and>
      (0 < n \<and> n < length (cs @ [c]) \<longrightarrow> IsDir info)" if n: "n \<le> length (cs @ [c])" for n
  proof (cases "n \<le> length cs")
    case True
    then obtain i where i: "Lstat fs (path_of (take n cs)) = Inr i" "admin_owned i"
        "0 < n \<and> n < length cs \<longrightarrow> IsDir i"
      using assms(1) unfolding admin_chain_def by blast
    moreover have "IsDir i" if "0 < n" "n = length cs"
      using i(1) that assms(2) by (auto simp: chain_dir_def)
    ultimately show ?thesis using True by (metis le_neq_implies_less take_append append_Nil2
        diff_is_0_eq take_0)
  next
    case False
    then have "n = length (cs @ [c])" using n by simp
    then show ?thesis using assms(4,5) by simp
  qed
  then show ?thesis using assms(1,3) by (auto simp: admin_chain_def)
qed

section \<open>What resolution guarantees\<close>

text \<open>The invariant of the loop: the current path is a chain, and a directory while parts are
  left.\<close>

definition walk_ok :: "filesystem \<Rightarrow> string \<Rightarrow> string list \<Rightarrow> bool" where
  "walk_ok fs current parts \<longleftrightarrow> (\<forall>p \<in> set parts. slash \<notin> set p) \<and>
     (\<exists>cs. current = path_of cs \<and> admin_chain fs cs \<and> (parts \<noteq> [] \<longrightarrow> chain_dir fs cs))"

lemma walk_ok_skip: "walk_ok fs current (part # parts) \<Longrightarrow> walk_ok fs current parts"
  by (auto simp: walk_ok_def)

lemma walk_ok_Dir: "walk_ok fs current (part # parts) \<Longrightarrow> walk_ok fs (Dir current) parts"
  unfolding walk_ok_def
  by (metis Dir_path_of admin_chain_butlast admin_chain_def chain_dir_butlast list.set_intros(2))

lemma walk_ok_component:
  assumes "walk_ok fs current (part # parts)" "part \<noteq> ''''" "part \<noteq> ''.''" "part \<noteq> ''..''"
  obtains cs where "current = path_of cs" "admin_chain fs cs" "chain_dir fs cs" "component part"
    "Join current part = path_of (cs @ [part])"
  using assms by (auto simp: walk_ok_def component_def admin_chain_def Join_path_of)

lemma walk_ok_link:
  assumes "walk_ok fs current (part # parts)" "admin_chain fs []"
  shows "walk_ok fs (if IsAbs target then ''/'' else current) (Split target @ parts)"
proof -
  have "\<exists>cs. ''/'' = path_of cs \<and> admin_chain fs cs \<and> chain_dir fs cs"
    using assms(2) by (intro exI [of _ "[]"]) (simp add: chain_dir_def)
  then show ?thesis using assms(1) Split_no_slash [of _ target]
    by (auto simp: walk_ok_def)
qed

lemma walk_ok_descend:
  assumes "walk_ok fs current (part # parts)" "part \<noteq> ''''" "part \<noteq> ''.''" "part \<noteq> ''..''"
    and "Lstat fs (Join current part) = Inr info" "admin_owned info" "parts \<noteq> [] \<longrightarrow> IsDir info"
  shows "walk_ok fs (Join current part) parts"
proof -
  from walk_ok_component [OF assms(1-4)] obtain cs where cs: "admin_chain fs cs" "chain_dir fs cs"
    "component part" "Join current part = path_of (cs @ [part])" by metis
  then have "admin_chain fs (cs @ [part])" "parts \<noteq> [] \<longrightarrow> chain_dir fs (cs @ [part])"
    using assms(5-7) admin_chain_snoc [of fs cs part info] by (auto simp: chain_dir_def)
  then show ?thesis using assms(1) cs(4) unfolding walk_ok_def by (metis list.set_intros(2))
qed

lemma resolve_loop_chain:
  assumes "resolve_loop fs current parts links = Inr (path, info)"
    and "walk_ok fs current parts" "admin_chain fs []"
  shows "Lstat fs path = Inr info \<and> walk_ok fs path []"
  using assms
proof (induction fs current parts links rule: resolve_loop.induct)
  case (1 fs current links)
  then show ?case by (auto split: sum.splits)
next
  case (2 fs current part parts links)
  consider (dot) "part = '''' \<or> part = ''.''" | (up) "part = ''..''"
    | (plain) "part \<noteq> ''''" "part \<noteq> ''.''" "part \<noteq> ''..''" by blast
  then show ?case
  proof cases
    case dot
    then show ?thesis using 2 walk_ok_skip by auto
  next
    case up
    then show ?thesis using 2 walk_ok_Dir [OF "2.prems"(2)] by simp
  next
    case plain
    from "2.prems"(1) plain obtain i where i: "Lstat fs (Join current part) = Inr i"
      by (auto simp: Let_def split: sum.splits)
    show ?thesis
    proof (cases "fi_type i = Symlink")
      case True
      with "2.prems"(1) plain i obtain target where "\<not> 40 < links + 1" "Readlink fs (Join current part) = Inr target"
        by (auto simp: Let_def split: sum.splits if_splits)
      then show ?thesis
        using "2.prems" "2.IH"(3) plain i True walk_ok_link [OF "2.prems"(2,3), of target]
        by (auto simp: Let_def)
    next
      case False
      with "2.prems"(1) plain i have t: "trusted i = Inr ()" "\<not> (parts \<noteq> [] \<and> \<not> IsDir i)"
        and r: "resolve_loop fs (Join current part) parts links = Inr (path, info)"
        by (auto simp: Let_def split: sum.splits if_splits)
      then have "walk_ok fs (Join current part) parts"
        using walk_ok_descend [OF "2.prems"(2) plain i] by (auto simp: trusted_admin_owned)
      then show ?thesis
        using "2.IH"(4) [of "Join current part" i "()"] plain i False t r "2.prems"(3) by auto
    qed
  qed
qed

lemma admin_chain_root: "admin_chain fs [] \<longleftrightarrow> (\<exists>info. Lstat fs ''/'' = Inr info \<and> trusted info = Inr ())"
  by (auto simp: admin_chain_def trusted_admin_owned)

lemma walk_ok_start: "admin_chain fs [] \<Longrightarrow> walk_ok fs ''/'' (Split path)"
  unfolding walk_ok_def using Split_no_slash path_of_Nil by (metis chain_dir_def)

lemma resolve_chain:
  assumes "resolve fs path = Inr (p, info)"
  shows "\<exists>cs. p = path_of cs \<and> admin_chain fs cs \<and> Lstat fs p = Inr info"
proof -
  from assms have "admin_chain fs []" "resolve_loop fs ''/'' (Split path) 0 = Inr (p, info)"
    by (auto simp: resolve_def admin_chain_root split: sum.splits if_splits)
  then show ?thesis
    using resolve_loop_chain walk_ok_start by (auto simp: walk_ok_def)
qed

text \<open>Two file systems agree where only the administrator can write: at the root, and at the
  entries of directories reached through a chain.\<close>

definition admin_agree :: "filesystem \<Rightarrow> filesystem \<Rightarrow> bool" where
  "admin_agree fs fs' \<longleftrightarrow> Lstat fs' ''/'' = Lstat fs ''/'' \<and>
     (\<forall>cs c. admin_chain fs cs \<and> chain_dir fs cs \<and> component c \<longrightarrow>
        Lstat fs' (path_of (cs @ [c])) = Lstat fs (path_of (cs @ [c])) \<and>
        Readlink fs' (path_of (cs @ [c])) = Readlink fs (path_of (cs @ [c])))"

lemma admin_agree_chain:
  assumes "admin_agree fs fs'" "admin_chain fs cs"
  shows "Lstat fs' (path_of cs) = Lstat fs (path_of cs)"
proof (cases cs rule: rev_cases)
  case Nil
  then show ?thesis using assms(1) by (simp add: admin_agree_def)
next
  case (snoc ds c)
  then have "admin_chain fs ds" "chain_dir fs ds" "component c"
    using assms(2) admin_chain_butlast [of fs cs] chain_dir_butlast [of fs cs]
    by (auto simp: admin_chain_def)
  then show ?thesis using assms(1) snoc by (simp add: admin_agree_def)
qed

lemma resolve_loop_agree:
  assumes "admin_agree fs fs'" "walk_ok fs current parts" "admin_chain fs []"
  shows "resolve_loop fs' current parts links = resolve_loop fs current parts links"
  using assms
proof (induction fs current parts links rule: resolve_loop.induct)
  case (1 fs current links)
  then show ?case using admin_agree_chain by (auto simp: walk_ok_def)
next
  case (2 fs current part parts links)
  show ?case
  proof (cases "part = '''' \<or> part = ''.'' \<or> part = ''..''")
    case True
    then show ?thesis
      using 2 walk_ok_skip [OF "2.prems"(2)] walk_ok_Dir [OF "2.prems"(2)] by auto
  next
    case False
    then have plain: "part \<noteq> ''''" "part \<noteq> ''.''" "part \<noteq> ''..''" by auto
    from walk_ok_component [OF "2.prems"(2) plain]
    have same: "Lstat fs' (Join current part) = Lstat fs (Join current part)"
      "Readlink fs' (Join current part) = Readlink fs (Join current part)"
      using "2.prems"(1) unfolding admin_agree_def by metis+
    have link: "resolve_loop fs' (if IsAbs target then ''/'' else current) (Split target @ parts) (links + 1)
        = resolve_loop fs (if IsAbs target then ''/'' else current) (Split target @ parts) (links + 1)"
      if "Lstat fs (Join current part) = Inr i" "fi_type i = Symlink" "\<not> 40 < links + 1"
        "Readlink fs (Join current part) = Inr target" for i target
      using "2.IH"(3) [OF _ _ refl that(1,2,3,4)] plain "2.prems" walk_ok_link [OF "2.prems"(2,3)] by simp
    have deeper: "resolve_loop fs' (Join current part) parts links
        = resolve_loop fs (Join current part) parts links"
      if "Lstat fs (Join current part) = Inr i" "fi_type i \<noteq> Symlink"
        "\<not> (parts \<noteq> [] \<and> \<not> IsDir i)" "trusted i = Inr ()" for i
      using "2.IH"(4) [OF _ _ refl that(1,2,3,4)] plain "2.prems"
        walk_ok_descend [OF "2.prems"(2) plain that(1)] that(3,4) by (auto simp: trusted_admin_owned)
    show ?thesis
    proof (cases "Lstat fs (Join current part)")
      case (Inl e)
      then show ?thesis using same plain by simp
    next
      case (Inr i)
      show ?thesis
      proof (cases "fi_type i = Symlink")
        case True
        then show ?thesis using same plain Inr link [OF Inr True]
          by (cases "Readlink fs (Join current part)") (simp_all add: Let_def)
      next
        case False
        then show ?thesis using same plain Inr deeper [OF Inr False]
          by (cases "trusted i") (simp_all add: Let_def)
      qed
    qed
  qed
qed

lemma resolve_agree: "admin_agree fs fs' \<Longrightarrow> resolve fs' path = resolve fs path"
proof -
  assume agree: "admin_agree fs fs'"
  then have root: "Lstat fs' ''/'' = Lstat fs ''/''" by (simp add: admin_agree_def)
  have "resolve_loop fs' ''/'' (Split path) 0 = resolve_loop fs ''/'' (Split path) 0"
    if "Lstat fs ''/'' = Inr info" "trusted info = Inr ()" for info
    using that resolve_loop_agree [OF agree walk_ok_start] by (simp add: admin_chain_root)
  then show ?thesis by (auto simp: resolve_def root split: sum.split)
qed

lemma look_dirs_agree: "admin_agree fs fs' \<Longrightarrow> look_dirs fs' program dirs = look_dirs fs program dirs"
  by (induction dirs) (simp_all add: resolve_agree split: sum.split fs_error.split)

lemma validate_dirs_agree: "admin_agree fs fs' \<Longrightarrow> validate_dirs fs' dirs = validate_dirs fs dirs"
  by (induction dirs) (simp_all add: resolve_agree split: sum.split)

lemma look_dirs_sound:
  "look_dirs fs program dirs = Inr p \<Longrightarrow>
     \<exists>cs info. p = path_of cs \<and> admin_chain fs cs \<and> Lstat fs p = Inr info \<and> IsRegular info \<and>
       fi_perm info AND 73 \<noteq> 0"
  by (induction dirs) (auto split: sum.splits fs_error.splits if_splits dest!: resolve_chain)

lemma validate_dirs_sound:
  "validate_dirs fs dirs = Inr () \<Longrightarrow> d \<in> set dirs \<Longrightarrow>
     \<exists>cs info. resolve fs d = Inr (path_of cs, info) \<and> admin_chain fs cs \<and>
       Lstat fs (path_of cs) = Inr info \<and> IsDir info"
proof (induction dirs)
  case (Cons a dirs)
  then obtain p info where "resolve fs a = Inr (p, info)" "IsDir info" "validate_dirs fs dirs = Inr ()"
    by (auto split: sum.splits if_splits)
  then show ?case using Cons resolve_chain [of fs a p info] by auto
qed simp

section \<open>Properties\<close>

text \<open>An executable found on the trusted path is a regular file with an execute bit, reached
  by a path without symbolic links on which every directory from the root, and the file itself, is
  owned by root and not writable by group or others; and \<^verbatim>\<open>Validate\<close> accepts an explicit
  list only when it has 1 to 32 entries and each resolves to such a directory.\<close>

lemma LookPath_trusted:
  assumes "LookPath fs program dirs = Inr p" "Validate fs (Some ds) = Inr ()"
  shows "(\<exists>cs info. p = path_of cs \<and> admin_chain fs cs \<and> Lstat fs p = Inr info \<and>
            IsRegular info \<and> fi_perm info AND 73 \<noteq> 0) \<and>
         1 \<le> length ds \<and> length ds \<le> 32 \<and>
         (\<forall>d \<in> set ds. \<exists>cs info. resolve fs d = Inr (path_of cs, info) \<and> admin_chain fs cs \<and>
            Lstat fs (path_of cs) = Inr info \<and> IsDir info)"
proof -
  have "look_dirs fs program dirs = Inr p" "validate_dirs fs ds = Inr ()"
    and "ds \<noteq> []" "length ds \<le> 32"
    using assms by (auto simp: LookPath_def Validate_def split: if_splits)
  then show ?thesis
    using look_dirs_sound [of fs program dirs p] validate_dirs_sound [of fs ds]
    by (auto simp: Suc_le_eq)
qed

text \<open>A system with a link to \<^verbatim>\<open>/usr/bin\<close> and a user's directory.\<close>

definition root_dir :: file_info where
  "root_dir = \<lparr>fi_type = Directory, fi_perm = 493, fi_uid = Some 0\<rparr>"

definition sample_lstat :: "string \<Rightarrow> file_info fs_result" where
  "sample_lstat p =
     (if p \<in> {''/'', ''/usr'', ''/usr/bin'', ''/home''} then Inr root_dir
      else if p = ''/usr/bin/tool'' then Inr \<lparr>fi_type = Regular, fi_perm = 493, fi_uid = Some 0\<rparr>
      else if p = ''/opt'' then Inr \<lparr>fi_type = Symlink, fi_perm = 511, fi_uid = Some 0\<rparr>
      else if p = ''/home/u'' then Inr \<lparr>fi_type = Directory, fi_perm = 493, fi_uid = Some 1000\<rparr>
      else Inl ErrNotExist)"

definition sample_fs :: filesystem where
  "sample_fs = \<lparr>Lstat = sample_lstat,
     Readlink = (\<lambda>p. if p = ''/opt'' then Inr ''usr/bin'' else Inl ErrNotExist)\<rparr>"

lemma LookPath_trusted_example:
  "LookPath sample_fs ''tool'' [''/opt/''] = Inr ''/usr/bin/tool'' \<and>
   (\<exists>cs. ''/usr/bin/tool'' = path_of cs \<and> admin_chain sample_fs cs)"
proof -
  have "LookPath sample_fs ''tool'' [''/opt/''] = Inr ''/usr/bin/tool''"
    "Validate sample_fs (Some [''/opt'']) = Inr ()" by code_simp+
  then show ?thesis using LookPath_trusted by blast
qed

text \<open>C28: what the trusted path answers cannot be influenced by anyone but the administrator:
  file systems that differ only at entries outside the root-controlled directories give the same
  executable, the same resolved path and the same errors. A link through a directory that someone
  else can write never becomes trusted because of where it currently points.\<close>

theorem LookPath_tamper_proof:
  assumes "admin_agree fs fs'"
  shows "LookPath fs' program dirs = LookPath fs program dirs \<and>
         Validate fs' ds = Validate fs ds \<and> resolve fs' path = resolve fs path"
  using resolve_agree [OF assms] look_dirs_agree [OF assms] validate_dirs_agree [OF assms]
  by (simp add: LookPath_def Validate_def split: option.split)

text \<open>The user of the sample system plants an executable.\<close>

definition planted_fs :: filesystem where
  "planted_fs = sample_fs\<lparr>Lstat := sample_lstat(''/home/u/tool'' :=
     Inr \<lparr>fi_type = Regular, fi_perm = 493, fi_uid = Some 0\<rparr>)\<rparr>"

lemma admin_chain_end: "admin_chain fs cs \<Longrightarrow> \<exists>info. Lstat fs (path_of cs) = Inr info \<and> admin_owned info"
  unfolding admin_chain_def by (metis le_refl take_all)

lemma planted_agree: "admin_agree sample_fs planted_fs"
proof -
  have "path_of (cs @ [c]) \<noteq> ''/home/u/tool''" if "admin_chain sample_fs cs" "component c" for cs c
  proof
    assume "path_of (cs @ [c]) = ''/home/u/tool''"
    moreover have "Dir (path_of (cs @ [c])) = path_of cs"
      using that by (subst Dir_path_of) (auto simp: admin_chain_def)
    moreover have "Dir ''/home/u/tool'' = ''/home/u''" by code_simp
    ultimately have "path_of cs = ''/home/u''" by simp
    with admin_chain_end [OF that(1)] show False
      by (simp add: sample_fs_def sample_lstat_def admin_owned_def)
  qed
  then show ?thesis by (auto simp: admin_agree_def planted_fs_def sample_fs_def)
qed

theorem LookPath_tamper_proof_witness:
  "LookPath planted_fs ''tool'' [''/home/u''] = LookPath sample_fs ''tool'' [''/home/u''] \<and>
   Lstat planted_fs ''/home/u/tool'' \<noteq> Lstat sample_fs ''/home/u/tool''"
proof -
  have "Lstat planted_fs ''/home/u/tool'' \<noteq> Lstat sample_fs ''/home/u/tool''" by code_simp
  then show ?thesis using LookPath_tamper_proof [OF planted_agree] by blast
qed

end
