(* ===== verification/Config.thy ===== *)
theory Config
  imports Schedule TrustedPath Document
begin

text \<open>
  The configuration of \<^verbatim>\<open>src/internal/config/config.go\<close>: the daemon's settings and their
  defaults, the definitions of a configuration file, an import or an API request, how defaults
  are merged into them, and the validation each of them passes.

  Reading and decoding TOML, the time zone database, the cron and duration parsers, the network
  address functions and the user database are parameters (\<open>config_env\<close> and the arguments of
  \<open>Load\<close> and \<open>ParseImport\<close>). A validation is the list of its checks in source order;
  \<open>first_error\<close> is the first one that fails. Where the code ranges over a Go map, the checks
  stand in one fixed order: only the text of the error depends on it.
\<close>

section \<open>Settings\<close>

record server_cfg =
  srv_Bind :: string
  srv_TCPEnabled :: "bool option"
  srv_UnixSocket :: "bool option"
  srv_AllowInsecureRemote :: bool

definition TCPOn :: "server_cfg \<Rightarrow> bool" where
  "TCPOn s \<longleftrightarrow> srv_TCPEnabled s = None \<or> srv_TCPEnabled s = Some True"

definition UnixOn :: "server_cfg \<Rightarrow> bool" where
  "UnixOn s \<longleftrightarrow> srv_UnixSocket s = None \<or> srv_UnixSocket s = Some True"

record scheduler_cfg =
  sch_TrustedPath :: "string list option"
  sch_Timezone :: string
  sch_MaxConcurrentRuns :: int
  sch_ShutdownGrace :: int

record queue_cfg =
  que_Enabled :: "bool option"
  que_MaxItems :: int
  que_MaxPerJob :: int
  que_MaxBytes :: int
  que_MaxAge :: int
  que_DrainRate :: int
  que_MaxPendingRetries :: int

definition QueueOn :: "queue_cfg \<Rightarrow> bool" where
  "QueueOn q \<longleftrightarrow> que_Enabled q = None \<or> que_Enabled q = Some True"

record storage_cfg =
  sto_KeepRunsDefault :: int
  sto_KeepForDefault :: int
  sto_AuditKeep :: int
  sto_Synchronous :: string

record logs_cfg =
  log_Backend :: string
  log_MaxLine :: int
  log_WorkerFlushInterval :: int
  log_DBKeepFor :: int
  log_DBPruneAt :: string
  log_DBMaxSize :: int
  log_Durability :: string
  log_SyncInterval :: int
  log_SyncMaxDirty :: int
  log_DiskBudget :: int
  log_DiskMinFree :: "int option"
  log_QuarantineKeepFor :: int
  log_QuarantineMaxSize :: int

record reads_cfg =
  rd_Slots :: int
  rd_Budget :: int
  rd_WorkTimeout :: int

record config =
  cfg_Server :: server_cfg
  cfg_Scheduler :: scheduler_cfg
  cfg_Queue :: queue_cfg
  cfg_Storage :: storage_cfg
  cfg_Logs :: logs_cfg
  cfg_Reads :: reads_cfg
  cfg_Defaults :: definition_rec
  cfg_Init :: "definition_rec list"
  cfg_Jobs :: "definition_rec list"
  cfg_Workers :: "definition_rec list"

text \<open>Sizes in bytes and durations: \<^verbatim>\<open><<\<close> and \<^verbatim>\<open>*\<close> wrap at 64 bits.\<close>

definition DefaultDiskMinFreeMiB :: int where "DefaultDiskMinFreeMiB = 512"
definition MaxDBMaxSizeMiB :: int where "MaxDBMaxSizeMiB = 1073741824"

definition mebibytes :: "int \<Rightarrow> int" where
  "mebibytes v = (if v \<le> 0 then 0 else if v > max_int64 div 1048576 then max_int64
                  else wrap64 (v * 1048576))"

definition DiskBudgetBytes :: "logs_cfg \<Rightarrow> int" where
  "DiskBudgetBytes l = mebibytes (log_DiskBudget l)"

definition DiskMinFreeBytes :: "logs_cfg \<Rightarrow> int" where
  "DiskMinFreeBytes l = (case log_DiskMinFree l of
     None \<Rightarrow> mebibytes DefaultDiskMinFreeMiB | Some v \<Rightarrow> mebibytes v)"

definition QuarantineMaxBytes :: "logs_cfg \<Rightarrow> int" where
  "QuarantineMaxBytes l = mebibytes (log_QuarantineMaxSize l)"

definition QuarantineKeepDuration :: "logs_cfg \<Rightarrow> duration" where
  "QuarantineKeepDuration l = wrap64 (wrap64 (max (log_QuarantineKeepFor l) 0 * 24) * Hour)"

definition MaxSizeBytes :: "logs_cfg \<Rightarrow> int" where
  "MaxSizeBytes l = (if log_DBMaxSize l \<le> 0 then 0
     else if log_DBMaxSize l > max_int64 div 1048576 then max_int64
     else wrap64 (log_DBMaxSize l * 1048576))"

section \<open>Definition inputs\<close>

text \<open>The embedded definition with the two fields that distinguish an omitted key from a zero.\<close>

record definition_input =
  in_Definition :: definition_rec
  in_Timeout :: "int option"
  in_Retries :: "int option"

definition Resolve :: "definition_input \<Rightarrow> definition_rec" where
  "Resolve inp =
     (let d = in_Definition inp;
          d1 = (case in_Timeout inp of None \<Rightarrow> d | Some t \<Rightarrow> d\<lparr>d_Timeout := t\<rparr>)
      in case in_Retries inp of None \<Rightarrow> d1 | Some r \<Rightarrow> d1\<lparr>d_Retries := r\<rparr>)"

record explicit =
  ex_timeout :: bool
  ex_retries :: bool

definition not_explicit :: explicit where
  "not_explicit = \<lparr>ex_timeout = False, ex_retries = False\<rparr>"

definition inputExplicit :: "definition_input \<Rightarrow> explicit" where
  "inputExplicit inp = \<lparr>ex_timeout = (in_Timeout inp \<noteq> None), ex_retries = (in_Retries inp \<noteq> None)\<rparr>"

record numericPresence =
  np_Timeout :: "int option"
  np_Retries :: "int option"

record presenceFile =
  pf_Init :: "numericPresence list"
  pf_Jobs :: "numericPresence list"
  pf_Workers :: "numericPresence list"

definition presenceAt :: "numericPresence list \<Rightarrow> nat \<Rightarrow> explicit" where
  "presenceAt xs i = (if i \<ge> length xs then not_explicit
     else \<lparr>ex_timeout = (np_Timeout (xs ! i) \<noteq> None), ex_retries = (np_Retries (xs ! i) \<noteq> None)\<rparr>)"

section \<open>Defaults\<close>

text \<open>\<^verbatim>\<open>cmp.Or\<close> of two strings or integers, and the same rule for nil.\<close>

definition or_string :: "string \<Rightarrow> string \<Rightarrow> string" where
  "or_string a b = (if a = '''' then b else a)"

definition or_int :: "int \<Rightarrow> int \<Rightarrow> int" where
  "or_int a b = (if a = 0 then b else a)"

definition or_nil :: "'a option \<Rightarrow> 'a option \<Rightarrow> 'a option" where
  "or_nil a b = (if a = None then b else a)"

definition applyConfigDefaults :: "config \<Rightarrow> config" where
  "applyConfigDefaults c =
     (let sv = cfg_Server c; sc = cfg_Scheduler c; q = cfg_Queue c; st = cfg_Storage c;
          lg = cfg_Logs c; rd = cfg_Reads c;
          items = or_int (que_MaxItems q) 100
      in c\<lparr>cfg_Server := sv\<lparr>srv_Bind := or_string (srv_Bind sv) ''127.0.0.1:7423''\<rparr>,
           cfg_Scheduler := sc\<lparr>sch_Timezone := or_string (sch_Timezone sc) ''UTC'',
             sch_MaxConcurrentRuns := or_int (sch_MaxConcurrentRuns sc) 32\<rparr>,
           cfg_Queue := q\<lparr>que_MaxItems := items,
             que_MaxPerJob := or_int (que_MaxPerJob q) (min 25 items),
             que_MaxBytes := or_int (que_MaxBytes q) 256,
             que_MaxAge := or_int (que_MaxAge q) 900,
             que_DrainRate := or_int (que_DrainRate q) 5,
             que_MaxPendingRetries := or_int (que_MaxPendingRetries q) 500\<rparr>,
           cfg_Storage := st\<lparr>sto_KeepRunsDefault := or_int (sto_KeepRunsDefault st) 10000,
             sto_AuditKeep := or_int (sto_AuditKeep st) 10000,
             sto_KeepForDefault := or_int (sto_KeepForDefault st) 7,
             sto_Synchronous := or_string (sto_Synchronous st) ''full''\<rparr>,
           cfg_Logs := lg\<lparr>log_Backend := or_string (log_Backend lg) ''file'',
             log_MaxLine := or_int (log_MaxLine lg) 256,
             log_WorkerFlushInterval := or_int (log_WorkerFlushInterval lg) 15,
             log_DBKeepFor := or_int (log_DBKeepFor lg) 30,
             log_DBPruneAt := or_string (log_DBPruneAt lg) ''03:30'',
             log_Durability := or_string (log_Durability lg) ''batch'',
             log_SyncInterval := or_int (log_SyncInterval lg) 2000,
             log_SyncMaxDirty := or_int (log_SyncMaxDirty lg) 1024,
             log_DiskMinFree := or_nil (log_DiskMinFree lg) (Some DefaultDiskMinFreeMiB)\<rparr>,
           cfg_Reads := rd\<lparr>rd_Slots := or_int (rd_Slots rd) 4,
             rd_Budget := or_int (rd_Budget rd) 32,
             rd_WorkTimeout := or_int (rd_WorkTimeout rd) 20\<rparr>\<rparr>)"

text \<open>The part of the merge that depends on the kind: settings of jobs only, and of workers
  only.\<close>

definition merge_job :: "definition_rec \<Rightarrow> explicit \<Rightarrow> definition_rec \<Rightarrow> definition_rec" where
  "merge_job dflt ex d =
     (if d_Kind d = KindJob
      then d\<lparr>d_Retries := (if ex_retries ex then d_Retries d else or_int (d_Retries d) (d_Retries dflt)),
             d_RetryDelay := or_int (d_RetryDelay d) (d_RetryDelay dflt),
             d_OnHistoryUnavailable :=
               or_string (d_OnHistoryUnavailable d) (d_OnHistoryUnavailable dflt)\<rparr>
      else d)"

definition merge_worker :: "definition_rec \<Rightarrow> definition_rec \<Rightarrow> definition_rec" where
  "merge_worker dflt d =
     (if d_Kind d = KindWorker
      then d\<lparr>d_Autostart := or_nil (d_Autostart d) (d_Autostart dflt),
             d_Restart := or_string (d_Restart d) (d_Restart dflt),
             d_RestartDelay := or_int (d_RestartDelay d) (d_RestartDelay dflt),
             d_HealthyAfter := or_int (d_HealthyAfter d) (d_HealthyAfter dflt),
             d_MaxRestartAttempts := or_int (d_MaxRestartAttempts d) (d_MaxRestartAttempts dflt),
             d_RestartBackoffMax := or_int (d_RestartBackoffMax d) (d_RestartBackoffMax dflt)\<rparr>
      else d)"

definition merge_common :: "definition_rec \<Rightarrow> explicit \<Rightarrow> definition_rec \<Rightarrow> definition_rec" where
  "merge_common dflt ex d =
     d\<lparr>d_Shell := or_string (d_Shell d) (d_Shell dflt),
       d_Timezone := or_string (d_Timezone d) (d_Timezone dflt),
       d_CatchUp := or_string (d_CatchUp d) (d_CatchUp dflt),
       d_OnOverlap := or_string (d_OnOverlap d) (d_OnOverlap dflt),
       d_RunAs := or_string (d_RunAs d) (d_RunAs dflt),
       d_WorkingDir := or_string (d_WorkingDir d) (d_WorkingDir dflt),
       d_EnvBase := or_string (d_EnvBase d) (d_EnvBase dflt),
       d_Env := or_nil (d_Env d) (d_Env dflt),
       d_SecretEnv := or_nil (d_SecretEnv d) (d_SecretEnv dflt),
       d_EnvFile := or_string (d_EnvFile d) (d_EnvFile dflt),
       d_Timeout := (if ex_timeout ex then d_Timeout d else or_int (d_Timeout d) (d_Timeout dflt)),
       d_Grace := or_int (d_Grace d) (d_Grace dflt),
       d_StopSignal := or_string (d_StopSignal d) (d_StopSignal dflt),
       d_SuccessCodes := or_nil (d_SuccessCodes d) (d_SuccessCodes dflt),
       d_KeepRuns := or_int (d_KeepRuns d) (d_KeepRuns dflt),
       d_KeepFor := or_int (d_KeepFor d) (d_KeepFor dflt),
       d_LogMax := or_int (d_LogMax d) (d_LogMax dflt),
       d_LogOnFull := or_string (d_LogOnFull d) (d_LogOnFull dflt),
       d_Labels := or_nil (d_Labels d) (d_Labels dflt),
       d_Alerts := or_nil (d_Alerts d) (d_Alerts dflt),
       d_Enabled := or_nil (d_Enabled d) (d_Enabled dflt)\<rparr>"

definition mergeDefinitionDefaults ::
  "definition_rec \<Rightarrow> definition_rec \<Rightarrow> explicit \<Rightarrow> definition_rec" where
  "mergeDefinitionDefaults d dflt ex = merge_worker dflt (merge_common dflt ex (merge_job dflt ex d))"

definition builtin_defaults :: "definition_rec \<Rightarrow> definition_rec" where
  "builtin_defaults d =
     d\<lparr>d_Shell := or_string (d_Shell d) ''/bin/sh'',
       d_CatchUp := or_string (d_CatchUp d) ''none'',
       d_OnOverlap := or_string (d_OnOverlap d) ''skip'',
       d_RetryDelay := (if d_Kind d = KindJob then or_int (d_RetryDelay d) 5 else d_RetryDelay d),
       d_EnvBase := or_string (d_EnvBase d) ''clean'',
       d_Grace := or_int (d_Grace d) 10,
       d_StopSignal := or_string (d_StopSignal d) ''SIGTERM'',
       d_Restart := or_string (d_Restart d) ''always'',
       d_RestartDelay := or_int (d_RestartDelay d) 5,
       d_HealthyAfter := or_int (d_HealthyAfter d) 30,
       d_LogOnFull := or_string (d_LogOnFull d) ''drop_old'',
       d_SuccessCodes := (case d_SuccessCodes d of None \<Rightarrow> Some [0]
                          | Some cs \<Rightarrow> if cs = [] then Some [0] else Some cs),
       d_MaxRestartAttempts := or_int (d_MaxRestartAttempts d) 5\<rparr>"

definition applyDefinitionDefaults ::
  "definition_rec \<Rightarrow> definition_rec \<Rightarrow> explicit \<Rightarrow> definition_rec" where
  "applyDefinitionDefaults d dflt ex = builtin_defaults (mergeDefinitionDefaults d dflt ex)"

section \<open>Validation of single values\<close>

record config_env =
  ce_ParseDuration :: "string \<Rightarrow> duration result"
  ce_LoadLocation :: "string \<Rightarrow> location result"
  ce_Parse :: "string \<Rightarrow> cron_next result"
  ce_SplitHostPort :: "string \<Rightarrow> (string \<times> string) result"
  ce_Loopback :: "string \<Rightarrow> bool"
  ce_LookupId :: "string \<Rightarrow> unit result"
  ce_Lookup :: "string \<Rightarrow> unit result"
  ce_Geteuid :: int
  ce_FS :: filesystem

text \<open>The first failing check of a list.\<close>

fun first_error :: "(bool \<times> string) list \<Rightarrow> string option" where
  "first_error [] = None"
| "first_error ((bad, msg) # cs) = (if bad then Some msg else first_error cs)"

lemma first_error_None: "first_error cs = None \<longleftrightarrow> list_all (\<lambda>c. \<not> fst c) cs"
  by (induction cs rule: first_error.induct) auto

abbreviation (input) failed :: "'a result \<Rightarrow> bool" where
  "failed r \<equiv> \<not> (case r of Inl _ \<Rightarrow> False | Inr _ \<Rightarrow> True)"

text \<open>\<^verbatim>\<open>validateDuration\<close> fails when the value times the unit exceeds 64 bits.\<close>

definition validateDuration :: "int \<Rightarrow> duration \<Rightarrow> bool" where
  "validateDuration v unit \<longleftrightarrow> \<not> v > max_int64 sdiv unit"

definition TrimPrefix :: "string \<Rightarrow> string \<Rightarrow> string" where
  "TrimPrefix s p = (case CutPrefix s p of Some r \<Rightarrow> r | None \<Rightarrow> s)"

definition validSignal :: "string \<Rightarrow> bool" where
  "validSignal v \<longleftrightarrow> TrimPrefix v ''SIG'' \<in>
     {''INT'', ''HUP'', ''QUIT'', ''USR1'', ''USR2'', ''TERM'', ''KILL''}"

text \<open>\<^verbatim>\<open>^([01]\d|2[0-3]):[0-5]\d$\<close>\<close>

definition ValidateClock :: "string \<Rightarrow> bool" where
  "ValidateClock s = (case s of
     [a, b, c, d, e] \<Rightarrow>
       ((a = CHR ''0'' \<or> a = CHR ''1'') \<and> is_digit b \<or> a = CHR ''2'' \<and> char_between 48 51 b) \<and>
       c = CHR '':'' \<and> char_between 48 53 d \<and> is_digit e
   | _ \<Rightarrow> False)"

definition ValidateSchedule :: "config_env \<Rightarrow> string \<Rightarrow> string option" where
  "ValidateSchedule env s =
     (case CutPrefix s ''@every '' of
        Some rest \<Rightarrow>
          (case ce_ParseDuration env rest of
             Inl e \<Rightarrow> Some e
           | Inr d \<Rightarrow> if d < Second then Some ''minimum @every interval is 1s'' else None)
      | None \<Rightarrow> (case ce_Parse env s of Inl e \<Rightarrow> Some e | Inr _ \<Rightarrow> None))"

definition validSecretRef :: "string \<Rightarrow> bool" where
  "validSecretRef ref =
     (case CutPrefix ref ''env:'' of
        Some name \<Rightarrow> name \<noteq> '''' \<and> CHR ''='' \<notin> set name \<and> CHR 0x00 \<notin> set name
      | None \<Rightarrow> (case CutPrefix ref ''file:'' of Some path \<Rightarrow> IsAbs path | None \<Rightarrow> False))"

text \<open>Whether \<^verbatim>\<open>strconv.Atoi\<close> accepts a string: an optional sign and decimal digits
  whose value fits 64 bits.\<close>

definition digits_value :: "string \<Rightarrow> int" where
  "digits_value s = fold (\<lambda>c v. 10 * v + (of_char c - 48)) s 0"

definition Atoi_ok :: "string \<Rightarrow> bool" where
  "Atoi_ok s =
     (let neg = (s \<noteq> '''' \<and> hd s = CHR ''-'');
          ds = (if s \<noteq> '''' \<and> (hd s = CHR ''-'' \<or> hd s = CHR ''+'') then tl s else s)
      in ds \<noteq> '''' \<and> list_all is_digit ds \<and>
         fits64 (if neg then - digits_value ds else digits_value ds))"

definition validateRunAsPrivilege :: "string \<Rightarrow> int \<Rightarrow> bool" where
  "validateRunAsPrivilege v euid \<longleftrightarrow> \<not> (v \<noteq> '''' \<and> euid \<noteq> 0)"

definition validateRunAs :: "config_env \<Rightarrow> string \<Rightarrow> string option" where
  "validateRunAs env v =
     (if \<not> validateRunAsPrivilege v (ce_Geteuid env) then Some ''requires a root daemon''
      else if v = '''' then None
      else
        let name = (case Cut (CHR '':'') v of Some (n, _) \<Rightarrow> n | None \<Rightarrow> v)
        in if Atoi_ok name
           then (case ce_LookupId env name of Inl e \<Rightarrow> Some e | Inr _ \<Rightarrow> None)
           else (case ce_Lookup env name of Inl e \<Rightarrow> Some e | Inr _ \<Rightarrow> None))"

section \<open>Validation of definitions\<close>

definition duration_field_bad :: "bool \<Rightarrow> int \<Rightarrow> bool" where
  "duration_field_bad zero_ok v \<longleftrightarrow> v < 0 \<or> (\<not> zero_ok \<and> v = 0) \<or> \<not> validateDuration v Second"

text \<open>The checks before the time zone default is filled in, and those after it.\<close>

definition definition_checks1 :: "config_env \<Rightarrow> definition_rec \<Rightarrow> (bool \<times> string) list" where
  "definition_checks1 env d =
    [((d_Command d = '''') = (d_Argv d = None \<or> d_Argv d = Some []),
        ''exactly one of command or argv is required''),
     (duration_field_bad True (d_Timeout d), ''timeout: must be positive seconds (timeout may be zero)''),
     (duration_field_bad False (d_Grace d), ''grace: must be positive seconds (timeout may be zero)''),
     (duration_field_bad False (d_RestartDelay d),
        ''restart_delay: must be positive seconds (timeout may be zero)''),
     (duration_field_bad False (d_HealthyAfter d),
        ''healthy_after: must be positive seconds (timeout may be zero)''),
     (d_EnvBase d \<noteq> ''clean'' \<and> d_EnvBase d \<noteq> ''inherit'', ''env_base must be clean or inherit''),
     (d_Restart d \<noteq> ''always'' \<and> d_Restart d \<noteq> ''on-failure'' \<and> d_Restart d \<noteq> ''never'',
        ''restart must be always, on-failure, or never''),
     (d_Retries d < 0 \<or> d_Retries d > 1000, ''retries must be between 0 and 1000''),
     (d_Kind d = KindJob \<and> (d_RetryDelay d < 1 \<or> d_RetryDelay d > 86400),
        ''retry_delay must be between 1 and 86400 seconds''),
     (d_Kind d = KindWorker \<and> d_Retries d \<noteq> 0, ''worker cannot have retries''),
     (d_Kind d = KindWorker \<and> d_RetryDelay d \<noteq> 0, ''worker cannot have retry_delay''),
     (d_MaxRestartAttempts d < 1 \<or> d_MaxRestartAttempts d > 1000,
        ''max_restart_attempts must be between 1 and 1000''),
     (d_RestartBackoffMax d \<noteq> 0 \<and>
        (d_RestartBackoffMax d < d_RestartDelay d \<or> d_RestartBackoffMax d > 86400),
        ''restart_backoff_max must be 0 or between restart_delay and 86400 seconds''),
     (\<not> list_all (\<lambda>code. \<not> (code < 0 \<or> code > 255)) (case d_SuccessCodes d of None \<Rightarrow> [] | Some cs \<Rightarrow> cs),
        ''success_codes values must be between 0 and 255''),
     (d_KeepRuns d < 0, ''keep_runs must be nonnegative''),
     (d_Priority d \<noteq> 0, ''priority is not supported''),
     (d_RunOnStart d \<and> (d_Source d \<noteq> ''config'' \<or> d_Kind d \<noteq> KindJob \<or> d_Schedule d \<noteq> ''''),
        ''run_on_start is not supported''),
     (d_Kind d = KindJob \<and> d_Schedule d \<noteq> '''' \<and> ValidateSchedule env (d_Schedule d) \<noteq> None, ''schedule'')]"

definition definition_checks2 :: "config_env \<Rightarrow> definition_rec \<Rightarrow> (bool \<times> string) list" where
  "definition_checks2 env d =
    [(failed (ce_LoadLocation env (d_Timezone d)), ''timezone''),
     (d_CatchUp d \<noteq> ''none'' \<and> d_CatchUp d \<noteq> ''latest'', ''catch_up must be none or latest''),
     (d_OnOverlap d \<noteq> ''skip'' \<and> d_OnOverlap d \<noteq> ''parallel'', ''on_overlap must be skip or parallel''),
     (d_Kind d = KindWorker \<and> d_OnHistoryUnavailable d \<noteq> '''', ''worker cannot have on_history_unavailable''),
     (d_OnHistoryUnavailable d \<noteq> '''' \<and> d_OnHistoryUnavailable d \<noteq> ''run'' \<and>
        d_OnHistoryUnavailable d \<noteq> ''skip'', ''on_history_unavailable must be run or skip''),
     (d_LogOnFull d \<noteq> ''drop_old'' \<and> d_LogOnFull d \<noteq> ''drop_new'', ''log_on_full must be drop_old or drop_new''),
     (\<not> validSignal (d_StopSignal d), ''stop_signal must be one of INT, HUP, QUIT, USR1, USR2, TERM, KILL''),
     (d_KeepFor d < 0, ''keep_for must be a nonnegative number of days''),
     (\<not> validateDuration (d_KeepFor d) (24 * Hour), ''keep_for: duration exceeds supported range''),
     (d_LogMax d < 0 \<or> d_LogMax d > 1048576, ''log_max must be between 0 and 1048576 MiB (0 uses default)''),
     (d_EnvFile d \<noteq> '''' \<and> \<not> IsAbs (d_EnvFile d), ''env_file must be an absolute path''),
     (\<not> list_all (\<lambda>(key, ref). \<not> (key = '''' \<or> \<not> validSecretRef ref))
          (case d_SecretEnv d of None \<Rightarrow> [] | Some m \<Rightarrow> m),
        ''secret_env must be env:NAME or file:/absolute/path''),
     (d_Kind d = KindWorker \<and> d_Schedule d \<noteq> '''', ''worker cannot have schedule''),
     (validateRunAs env (d_RunAs d) \<noteq> None, ''run_as'')]"

definition validate_one :: "config_env \<Rightarrow> string \<Rightarrow> definition_rec \<Rightarrow> definition_rec result" where
  "validate_one env tz d =
     (case first_error (definition_checks1 env d) of
        Some e \<Rightarrow> Inl e
      | None \<Rightarrow>
          let d' = (if d_Timezone d = '''' then d\<lparr>d_Timezone := tz\<rparr> else d)
          in case first_error (definition_checks2 env d') of Some e \<Rightarrow> Inl e | None \<Rightarrow> Inr d')"

fun validate_seen ::
  "config_env \<Rightarrow> string \<Rightarrow> string list \<Rightarrow> definition_rec list \<Rightarrow> definition_rec list result" where
  "validate_seen env tz seen [] = Inr []"
| "validate_seen env tz seen (d # ds) =
     (if \<not> namePattern (d_Name d) then Inl ''invalid definition name''
      else if d_Name d \<in> set seen then Inl ''duplicate definition''
      else case validate_one env tz d of
             Inl e \<Rightarrow> Inl e
           | Inr d' \<Rightarrow>
               (case validate_seen env tz (d_Name d # seen) ds of
                  Inl e \<Rightarrow> Inl e | Inr ds' \<Rightarrow> Inr (d' # ds')))"

definition validateDefinitions :: "config_env \<Rightarrow> definition_rec list \<Rightarrow> string \<Rightarrow> definition_rec list result" where
  "validateDefinitions env ds tz = validate_seen env tz [] ds"

text \<open>The settings a request or an import is validated under (\<^verbatim>\<open>cfg\<close> there).\<close>

definition blank_config :: config where
  "blank_config = \<lparr>
     cfg_Server = \<lparr>srv_Bind = '''', srv_TCPEnabled = None, srv_UnixSocket = None, srv_AllowInsecureRemote = False\<rparr>,
     cfg_Scheduler = \<lparr>sch_TrustedPath = None, sch_Timezone = ''UTC'', sch_MaxConcurrentRuns = 0, sch_ShutdownGrace = 0\<rparr>,
     cfg_Queue = \<lparr>que_Enabled = None, que_MaxItems = 0, que_MaxPerJob = 0, que_MaxBytes = 0, que_MaxAge = 0,
       que_DrainRate = 0, que_MaxPendingRetries = 0\<rparr>,
     cfg_Storage = \<lparr>sto_KeepRunsDefault = 0, sto_KeepForDefault = 0, sto_AuditKeep = 0, sto_Synchronous = ''''\<rparr>,
     cfg_Logs = \<lparr>log_Backend = ''file'', log_MaxLine = 0, log_WorkerFlushInterval = 0, log_DBKeepFor = 0,
       log_DBPruneAt = '''', log_DBMaxSize = 0, log_Durability = '''', log_SyncInterval = 0, log_SyncMaxDirty = 0,
       log_DiskBudget = 0, log_DiskMinFree = None, log_QuarantineKeepFor = 0, log_QuarantineMaxSize = 0\<rparr>,
     cfg_Reads = \<lparr>rd_Slots = 0, rd_Budget = 0, rd_WorkTimeout = 0\<rparr>,
     cfg_Defaults = zero_definition, cfg_Init = [], cfg_Jobs = [], cfg_Workers = []\<rparr>"

definition job_defaults :: "definition_rec list \<Rightarrow> definition_rec" where
  "job_defaults ds = (case ds of [] \<Rightarrow> zero_definition | d # _ \<Rightarrow> d)"

definition validateDefinition ::
  "config_env \<Rightarrow> definition_rec \<Rightarrow> explicit \<Rightarrow> definition_rec list \<Rightarrow> definition_rec result" where
  "validateDefinition env d ex jobDefaults =
     (let d1 = (if d_Kind d = '''' then d\<lparr>d_Kind := KindJob\<rparr> else d);
          cfg = applyConfigDefaults blank_config;
          d2 = applyDefinitionDefaults d1 (job_defaults jobDefaults) ex
      in case validateDefinitions env [d2] (sch_Timezone (cfg_Scheduler cfg)) of
           Inl e \<Rightarrow> Inl e | Inr ds \<Rightarrow> Inr (hd ds))"

definition ValidateDefinitionInput ::
  "config_env \<Rightarrow> definition_input \<Rightarrow> definition_rec list \<Rightarrow> definition_rec result" where
  "ValidateDefinitionInput env inp jobDefaults =
     validateDefinition env (Resolve inp) (inputExplicit inp) jobDefaults"

definition EditableInput :: "definition_rec \<Rightarrow> definition_rec list \<Rightarrow> definition_input" where
  "EditableInput d jobDefaults =
     (let dflt = job_defaults jobDefaults
      in \<lparr>in_Definition = d\<lparr>d_Timeout := 0, d_Retries := 0\<rparr>,
          in_Timeout = (if d_Timeout d \<noteq> 0 \<or> d_Timeout dflt \<noteq> 0 then Some (d_Timeout d) else None),
          in_Retries = (if d_Kind d = KindJob \<and> (d_Retries d \<noteq> 0 \<or> d_Retries dflt \<noteq> 0)
                        then Some (d_Retries d) else None)\<rparr>)"

text \<open>An input as it crosses the API: encoded as JSON in one message and decoded from another.  The two pointers are kept
  whatever they point to; the embedded definition loses its empty lists and maps.\<close>

definition json_input :: "definition_input \<Rightarrow> definition_input" where
  "json_input inp = inp\<lparr>in_Definition := json_document (in_Definition inp)\<rparr>"

section \<open>Validation of the settings\<close>

definition insecure_bind :: "config_env \<Rightarrow> server_cfg \<Rightarrow> bool" where
  "insecure_bind env s = (case ce_SplitHostPort env (srv_Bind s) of
     Inl _ \<Rightarrow> True
   | Inr (host, _) \<Rightarrow> \<not> srv_AllowInsecureRemote s \<and> host \<noteq> ''localhost'' \<and> \<not> ce_Loopback env host)"

definition outside :: "int \<Rightarrow> int \<Rightarrow> int \<Rightarrow> bool" where
  "outside lo hi v \<longleftrightarrow> v < lo \<or> v > hi"

definition size_limit_bad :: "int \<Rightarrow> bool" where
  "size_limit_bad v \<longleftrightarrow> v < 0 \<or> v > MaxDBMaxSizeMiB"

definition server_checks :: "config_env \<Rightarrow> config \<Rightarrow> (bool \<times> string) list" where
  "server_checks env c =
    [(Validate (ce_FS env) (sch_TrustedPath (cfg_Scheduler c)) \<noteq> Inr (), ''scheduler.trusted_path''),
     (\<not> TCPOn (cfg_Server c) \<and> \<not> UnixOn (cfg_Server c),
        ''server: tcp_enabled and unix_socket cannot both be false''),
     (TCPOn (cfg_Server c) \<and> insecure_bind env (cfg_Server c), ''server.bind'')]"

definition limit_checks :: "config \<Rightarrow> (bool \<times> string) list" where
  "limit_checks c =
    (let sc = cfg_Scheduler c; q = cfg_Queue c; st = cfg_Storage c in
    [(outside 1 1024 (sch_MaxConcurrentRuns sc), ''scheduler.max_concurrent_runs: must be between 1 and 1024''),
     (outside 0 3600 (sch_ShutdownGrace sc), ''scheduler.shutdown_grace: must be between 0 and 3600''),
     (outside 1 10000 (que_MaxItems q), ''queue.max_items: must be between 1 and 10000''),
     (outside 1 (que_MaxItems q) (que_MaxPerJob q), ''queue.max_per_job: must be between 1 and queue.max_items''),
     (outside 1 65536 (que_MaxBytes q), ''queue.max_bytes: must be between 1 and 65536 KiB''),
     (outside 1 604800 (que_MaxAge q), ''queue.max_age: must be between 1 and 604800 seconds''),
     (outside 1 1000 (que_DrainRate q), ''queue.drain_rate: must be between 1 and 1000 per second''),
     (outside 1 100000 (que_MaxPendingRetries q), ''queue.max_pending_retries: must be between 1 and 100000''),
     (sto_KeepRunsDefault st < 1 \<or> sto_AuditKeep st < 1, ''storage retention counts must be positive''),
     (sto_KeepForDefault st < 1, ''storage.keep_for_default: must be a positive number of days''),
     (\<not> validateDuration (sto_KeepForDefault st) (24 * Hour), ''storage.keep_for_default: duration exceeds supported range'')])"

definition log_checks :: "config_env \<Rightarrow> config \<Rightarrow> (bool \<times> string) list" where
  "log_checks env c =
    (let lg = cfg_Logs c in
    [(failed (ce_LoadLocation env (sch_Timezone (cfg_Scheduler c))), ''scheduler.timezone''),
     (log_Backend lg \<noteq> ''file'', ''logs.backend: only file is supported in v0.1''),
     (outside 1 16384 (log_MaxLine lg), ''logs.max_line: must be between 1 and 16384 KiB''),
     (log_WorkerFlushInterval lg < 1, ''logs.worker_flush_interval: must be a positive number of minutes''),
     (\<not> validateDuration (log_WorkerFlushInterval lg) Minute, ''logs.worker_flush_interval: duration exceeds supported range''),
     (log_DBKeepFor lg < 1, ''logs.db_keep_for: must be a positive number of days''),
     (\<not> validateDuration (log_DBKeepFor lg) (24 * Hour), ''logs.db_keep_for: duration exceeds supported range''),
     (\<not> ValidateClock (log_DBPruneAt lg), ''logs.db_prune_at: must be HH:MM (00:00-23:59)''),
     (size_limit_bad (log_DBMaxSize lg), ''logs.db_max_size''),
     (log_Durability lg \<noteq> ''batch'' \<and> log_Durability lg \<noteq> ''frame'', ''logs.durability''),
     (outside 100 60000 (log_SyncInterval lg), ''logs.sync_interval: must be between 100 and 60000 milliseconds''),
     (outside 1 65536 (log_SyncMaxDirty lg), ''logs.sync_max_dirty: must be between 1 and 65536 KiB''),
     (size_limit_bad (log_DiskBudget lg), ''logs.disk_budget''),
     (size_limit_bad (log_QuarantineMaxSize lg), ''logs.quarantine_max_size''),
     (case log_DiskMinFree lg of None \<Rightarrow> False | Some v \<Rightarrow> size_limit_bad v, ''logs.disk_min_free''),
     (log_QuarantineKeepFor lg < 0, ''logs.quarantine_keep_for: must be zero (keep forever) or a positive number of days''),
     (\<not> validateDuration (log_QuarantineKeepFor lg) (24 * Hour), ''logs.quarantine_keep_for: duration exceeds supported range'')])"

definition defaults_checks :: "config_env \<Rightarrow> config \<Rightarrow> (bool \<times> string) list" where
  "defaults_checks env c =
    (let rd = cfg_Reads c; d = cfg_Defaults c;
         probe = applyDefinitionDefaults
           (zero_definition\<lparr>d_Name := ''defaults'', d_Kind := KindJob, d_Command := ''true''\<rparr>) d not_explicit
     in
    [(outside 1 64 (rd_Slots rd), ''reads.slots: must be between 1 and 64''),
     (outside 8 4096 (rd_Budget rd), ''reads.budget: must be between 8 and 4096 MiB''),
     (outside 1 300 (rd_WorkTimeout rd), ''reads.work_timeout: must be between 1 and 300 seconds''),
     (sto_Synchronous (cfg_Storage c) \<noteq> ''full'' \<and> sto_Synchronous (cfg_Storage c) \<noteq> ''normal'', ''storage.synchronous''),
     (d_Name d \<noteq> '''' \<or> d_Command d \<noteq> '''' \<or> \<not> (d_Argv d = None \<or> d_Argv d = Some []) \<or> d_Schedule d \<noteq> '''' \<or>
      d_Autostart d \<noteq> None \<or> d_Restart d \<noteq> '''' \<or> d_RestartDelay d \<noteq> 0 \<or> d_HealthyAfter d \<noteq> 0 \<or>
      d_MaxRestartAttempts d \<noteq> 0 \<or> d_RestartBackoffMax d \<noteq> 0, ''defaults: only common job settings are allowed''),
     (failed (validateDefinitions env [probe] (sch_Timezone (cfg_Scheduler c))), ''defaults'')])"

definition validateConfig :: "config_env \<Rightarrow> config \<Rightarrow> string option" where
  "validateConfig env c =
     first_error (server_checks env c @ limit_checks c @ log_checks env c @ defaults_checks env c)"

section \<open>Loading a file and an import\<close>

text \<open>The loops over the tables of a file: the element at index \<open>i\<close> is replaced or the
  load fails.\<close>

fun each_result :: "(nat \<Rightarrow> 'a \<Rightarrow> 'a result) \<Rightarrow> nat \<Rightarrow> 'a list \<Rightarrow> 'a list result" where
  "each_result f i [] = Inr []"
| "each_result f i (x # xs) =
     (case f i x of
        Inl e \<Rightarrow> Inl e
      | Inr y \<Rightarrow> (case each_result f (Suc i) xs of Inl e \<Rightarrow> Inl e | Inr ys \<Rightarrow> Inr (y # ys)))"

definition load_init :: "definition_rec \<Rightarrow> numericPresence list \<Rightarrow> nat \<Rightarrow> definition_rec \<Rightarrow> definition_rec result" where
  "load_init dflt present i d =
     (if d_Schedule d \<noteq> '''' then Inl ''init cannot have schedule''
      else if d_Retries d \<noteq> 0 then Inl ''init cannot have retries''
      else Inr ((applyDefinitionDefaults
                  (d\<lparr>d_Kind := KindJob, d_Source := ''config'', d_RunOnStart := True\<rparr>)
                  dflt (presenceAt present i))\<lparr>d_Retries := 0\<rparr>))"

definition load_job :: "definition_rec \<Rightarrow> numericPresence list \<Rightarrow> nat \<Rightarrow> definition_rec \<Rightarrow> definition_rec result" where
  "load_job dflt present i d =
     (if d_RunOnStart d then Inl ''use [[init]] for startup tasks''
      else if d_Schedule d = '''' then Inl ''schedule is required for config-owned jobs''
      else Inr (applyDefinitionDefaults (d\<lparr>d_Kind := KindJob, d_Source := ''config''\<rparr>)
                  dflt (presenceAt present i)))"

definition load_worker :: "definition_rec \<Rightarrow> numericPresence list \<Rightarrow> nat \<Rightarrow> definition_rec \<Rightarrow> definition_rec result" where
  "load_worker dflt present i d =
     Inr (applyDefinitionDefaults (d\<lparr>d_Kind := KindWorker, d_Source := ''config''\<rparr>)
            dflt (presenceAt present i))"

definition config_Definitions :: "config \<Rightarrow> definition_rec list" where
  "config_Definitions c = cfg_Init c @ cfg_Jobs c @ cfg_Workers c"

definition load_tables :: "config_env \<Rightarrow> presenceFile \<Rightarrow> config \<Rightarrow> config result" where
  "load_tables env present cfg =
     (case each_result (load_init (cfg_Defaults cfg) (pf_Init present)) 0 (cfg_Init cfg) of
        Inl e \<Rightarrow> Inl e
      | Inr inits \<Rightarrow>
          (case each_result (load_job (cfg_Defaults cfg) (pf_Jobs present)) 0 (cfg_Jobs cfg) of
             Inl e \<Rightarrow> Inl e
           | Inr jobs \<Rightarrow>
               (case each_result (load_worker (cfg_Defaults cfg) (pf_Workers present)) 0 (cfg_Workers cfg) of
                  Inl e \<Rightarrow> Inl e
                | Inr workers \<Rightarrow>
                    let cfg' = cfg\<lparr>cfg_Init := inits, cfg_Jobs := jobs, cfg_Workers := workers\<rparr>
                    in case validateDefinitions env (config_Definitions cfg') (sch_Timezone (cfg_Scheduler cfg)) of
                         Inl e \<Rightarrow> Inl e
                       | Inr defs \<Rightarrow>
                           Inr (cfg'\<lparr>cfg_Init := take (length inits) defs,
                                     cfg_Jobs := take (length jobs) (drop (length inits) defs),
                                     cfg_Workers := drop (length inits + length jobs) defs\<rparr>))))"

definition Load ::
  "config_env \<Rightarrow> (string \<Rightarrow> 'raw result) \<Rightarrow> ('raw \<Rightarrow> config result) \<Rightarrow> ('raw \<Rightarrow> presenceFile result)
   \<Rightarrow> string \<Rightarrow> config result" where
  "Load env ReadFile decode Unmarshal path =
     (case ReadFile path of
        Inl e \<Rightarrow> Inl e
      | Inr raw \<Rightarrow>
          (case decode raw of
             Inl e \<Rightarrow> Inl e
           | Inr cfg0 \<Rightarrow>
               (case Unmarshal raw of
                  Inl e \<Rightarrow> Inl e
                | Inr present \<Rightarrow>
                    let cfg = applyConfigDefaults cfg0
                    in case validateConfig env cfg of
                         Some e \<Rightarrow> Inl e
                       | None \<Rightarrow> load_tables env present cfg)))"

record importBundle =
  ib_Defaults :: definition_rec
  ib_Jobs :: "definition_input list"
  ib_Workers :: "definition_input list"

definition import_definition ::
  "kind \<Rightarrow> definition_rec \<Rightarrow> definition_rec list \<Rightarrow> definition_input \<Rightarrow> definition_rec" where
  "import_definition k dflt jobDefaults inp =
     (let d = (Resolve inp)\<lparr>d_Kind := k\<rparr>; ex = inputExplicit inp
      in case jobDefaults of
           jd # _ \<Rightarrow> applyDefinitionDefaults (mergeDefinitionDefaults d dflt ex) jd ex
         | [] \<Rightarrow> applyDefinitionDefaults d dflt ex)"

definition ParseImport ::
  "config_env \<Rightarrow> ('raw \<Rightarrow> importBundle result) \<Rightarrow> 'raw \<Rightarrow> definition_rec list \<Rightarrow> definition_rec list result" where
  "ParseImport env decode content jobDefaults =
     (case decode content of
        Inl e \<Rightarrow> Inl e
      | Inr part \<Rightarrow>
          let cfg = applyConfigDefaults blank_config;
              defs = map (import_definition KindJob (ib_Defaults part) jobDefaults) (ib_Jobs part)
                   @ map (import_definition KindWorker (ib_Defaults part) jobDefaults) (ib_Workers part)
          in validateDefinitions env defs (sch_Timezone (cfg_Scheduler cfg)))"

end
