(* ===== verification/Config_Properties.thy ===== *)
theory Config_Properties
  imports Config
begin

text \<open>
  What an accepted configuration and an accepted definition satisfy, that validation settles a
  definition (validating the result again changes nothing), and that the form handed to API
  clients reads back as the definition it was made from.
\<close>

section \<open>Merging defaults\<close>

lemma or_simps [simp]:
  "or_string (or_string a b) b = or_string a b"
  "or_int (or_int i j) j = or_int i j"
  "or_nil (or_nil x y) y = or_nil x y"
  "or_string '''' b = b" "or_int 0 j = j" "or_nil None y = y"
  by (simp_all add: or_string_def or_int_def or_nil_def)

lemma or_builtin:
  "s \<noteq> '''' \<Longrightarrow> or_string a s \<noteq> ''''" "k \<noteq> 0 \<Longrightarrow> or_int i k \<noteq> 0"
  "a \<noteq> '''' \<Longrightarrow> or_string a b = a" "i \<noteq> 0 \<Longrightarrow> or_int i j = i" "x \<noteq> None \<Longrightarrow> or_nil x y = x"
  by (auto simp: or_string_def or_int_def or_nil_def)

text \<open>A definition with every default filled in: the built-in ones, and for each remaining field
  either a value or no default for it.\<close>

definition has_builtins :: "definition_rec \<Rightarrow> bool" where
  "has_builtins d \<longleftrightarrow> d_Shell d \<noteq> '''' \<and> d_CatchUp d \<noteq> '''' \<and> d_OnOverlap d \<noteq> '''' \<and>
     (d_Kind d = KindJob \<longrightarrow> d_RetryDelay d \<noteq> 0) \<and> d_EnvBase d \<noteq> '''' \<and> d_Grace d \<noteq> 0 \<and>
     d_StopSignal d \<noteq> '''' \<and> d_Restart d \<noteq> '''' \<and> d_RestartDelay d \<noteq> 0 \<and> d_HealthyAfter d \<noteq> 0 \<and>
     d_LogOnFull d \<noteq> '''' \<and> (\<exists>c cs. d_SuccessCodes d = Some (c # cs)) \<and> d_MaxRestartAttempts d \<noteq> 0"

definition has_merged :: "definition_rec \<Rightarrow> definition_rec \<Rightarrow> bool" where
  "has_merged dflt d \<longleftrightarrow>
     or_string (d_RunAs d) (d_RunAs dflt) = d_RunAs d \<and>
     or_string (d_WorkingDir d) (d_WorkingDir dflt) = d_WorkingDir d \<and>
     or_nil (d_Env d) (d_Env dflt) = d_Env d \<and> or_nil (d_SecretEnv d) (d_SecretEnv dflt) = d_SecretEnv d \<and>
     or_string (d_EnvFile d) (d_EnvFile dflt) = d_EnvFile d \<and>
     or_int (d_KeepRuns d) (d_KeepRuns dflt) = d_KeepRuns d \<and>
     or_int (d_KeepFor d) (d_KeepFor dflt) = d_KeepFor d \<and> or_int (d_LogMax d) (d_LogMax dflt) = d_LogMax d \<and>
     or_nil (d_Labels d) (d_Labels dflt) = d_Labels d \<and> or_nil (d_Alerts d) (d_Alerts dflt) = d_Alerts d \<and>
     or_nil (d_Enabled d) (d_Enabled dflt) = d_Enabled d \<and>
     or_string (d_Timezone d) (d_Timezone dflt) = d_Timezone d \<and>
     (d_Kind d = KindJob \<longrightarrow>
        or_string (d_OnHistoryUnavailable d) (d_OnHistoryUnavailable dflt) = d_OnHistoryUnavailable d) \<and>
     (d_Kind d = KindWorker \<longrightarrow>
        or_nil (d_Autostart d) (d_Autostart dflt) = d_Autostart d \<and>
        or_int (d_RestartBackoffMax d) (d_RestartBackoffMax dflt) = d_RestartBackoffMax d)"

lemmas defaults_defs = applyDefinitionDefaults_def builtin_defaults_def mergeDefinitionDefaults_def
  merge_worker_def merge_common_def merge_job_def

lemma builtin_defaults_has: "has_builtins (builtin_defaults d)"
  by (auto simp: has_builtins_def builtin_defaults_def or_builtin neq_Nil_conv split: option.split)

lemma merge_has: "has_merged dflt (mergeDefinitionDefaults d dflt ex)"
  by (simp add: has_merged_def mergeDefinitionDefaults_def merge_worker_def merge_common_def merge_job_def)

lemma builtin_keeps_merged: "has_merged dflt d \<Longrightarrow> has_merged dflt (builtin_defaults d)"
  by (simp add: has_merged_def builtin_defaults_def)

lemma applyDefinitionDefaults_has:
  "has_builtins (applyDefinitionDefaults d dflt ex) \<and> has_merged dflt (applyDefinitionDefaults d dflt ex)"
  unfolding applyDefinitionDefaults_def using builtin_defaults_has builtin_keeps_merged merge_has by blast

lemma applyDefinitionDefaults_id:
  assumes "has_builtins d" "has_merged dflt d"
    and "ex_timeout ex \<or> or_int (d_Timeout d) (d_Timeout dflt) = d_Timeout d"
    and "d_Kind d = KindJob \<longrightarrow> ex_retries ex \<or> or_int (d_Retries d) (d_Retries dflt) = d_Retries d"
  shows "applyDefinitionDefaults d dflt ex = d"
proof -
  have job: "merge_job dflt ex d = d"
    using assms by (auto simp: merge_job_def has_builtins_def has_merged_def or_builtin)
  have common: "merge_common dflt ex d = d"
    using assms(1-3) by (auto simp: merge_common_def has_builtins_def has_merged_def or_builtin)
  have worker: "merge_worker dflt d = d"
    using assms(1,2) by (auto simp: merge_worker_def has_builtins_def has_merged_def or_builtin)
  have "builtin_defaults d = d"
    using assms(1) by (auto simp: builtin_defaults_def has_builtins_def or_builtin)
  then show ?thesis by (simp add: applyDefinitionDefaults_def mergeDefinitionDefaults_def job common worker)
qed

text \<open>The fields merging leaves alone.\<close>

lemma applyDefinitionDefaults_sel:
  "d_Name (applyDefinitionDefaults d dflt ex) = d_Name d"
  "d_Kind (applyDefinitionDefaults d dflt ex) = d_Kind d"
  "d_Source (applyDefinitionDefaults d dflt ex) = d_Source d"
  "d_Schedule (applyDefinitionDefaults d dflt ex) = d_Schedule d"
  "d_RunOnStart (applyDefinitionDefaults d dflt ex) = d_RunOnStart d"
  "d_Command (applyDefinitionDefaults d dflt ex) = d_Command d"
  "d_Argv (applyDefinitionDefaults d dflt ex) = d_Argv d"
  by (simp_all add: defaults_defs)

section \<open>Validation\<close>

lemma definition_checks1_timezone: "definition_checks1 env (d\<lparr>d_Timezone := tz\<rparr>) = definition_checks1 env d"
  by (simp add: definition_checks1_def)

lemma validate_one_Inr:
  "validate_one env tz d = Inr d' \<longleftrightarrow>
     first_error (definition_checks1 env d) = None \<and> first_error (definition_checks2 env d') = None \<and>
     d' = (if d_Timezone d = '''' then d\<lparr>d_Timezone := tz\<rparr> else d)"
  by (auto simp: validate_one_def Let_def split: option.splits)

lemma validate_one_idem: "validate_one env tz d = Inr d' \<Longrightarrow> validate_one env tz d' = Inr d'"
  by (auto simp: validate_one_Inr definition_checks1_timezone split: if_splits)

text \<open>What a definition that passed satisfies.\<close>

definition seconds_ok :: "int \<Rightarrow> int \<Rightarrow> bool" where
  "seconds_ok lo v \<longleftrightarrow> lo \<le> v \<and> fits64 (v * Second)"

definition valid_definition :: "config_env \<Rightarrow> definition_rec \<Rightarrow> bool" where
  "valid_definition env d \<longleftrightarrow>
     (d_Command d = '''') \<noteq> (d_Argv d = None \<or> d_Argv d = Some []) \<and>
     seconds_ok 0 (d_Timeout d) \<and> seconds_ok 1 (d_Grace d) \<and> seconds_ok 1 (d_RestartDelay d) \<and>
     seconds_ok 1 (d_HealthyAfter d) \<and>
     d_EnvBase d \<in> {''clean'', ''inherit''} \<and> d_Restart d \<in> {''always'', ''on-failure'', ''never''} \<and>
     0 \<le> d_Retries d \<and> d_Retries d \<le> 1000 \<and>
     (d_Kind d = KindJob \<longrightarrow> 1 \<le> d_RetryDelay d \<and> d_RetryDelay d \<le> 86400 \<and>
        (d_Schedule d = '''' \<or> ValidateSchedule env (d_Schedule d) = None)) \<and>
     (d_Kind d = KindWorker \<longrightarrow> d_Retries d = 0 \<and> d_RetryDelay d = 0 \<and> d_Schedule d = '''' \<and>
        d_OnHistoryUnavailable d = '''' \<and> \<not> d_RunOnStart d) \<and>
     1 \<le> d_MaxRestartAttempts d \<and> d_MaxRestartAttempts d \<le> 1000 \<and>
     (d_RestartBackoffMax d = 0 \<or> d_RestartDelay d \<le> d_RestartBackoffMax d \<and> d_RestartBackoffMax d \<le> 86400) \<and>
     (\<forall>cs. d_SuccessCodes d = Some cs \<longrightarrow> (\<forall>c \<in> set cs. 0 \<le> c \<and> c \<le> 255)) \<and>
     0 \<le> d_KeepRuns d \<and> d_Priority d = 0 \<and>
     (d_RunOnStart d \<longrightarrow> d_Source d = ''config'' \<and> d_Schedule d = '''') \<and>
     (\<exists>loc. ce_LoadLocation env (d_Timezone d) = Inr loc) \<and>
     d_CatchUp d \<in> {''none'', ''latest''} \<and> d_OnOverlap d \<in> {''skip'', ''parallel''} \<and>
     d_OnHistoryUnavailable d \<in> {'''', ''run'', ''skip''} \<and> d_LogOnFull d \<in> {''drop_old'', ''drop_new''} \<and>
     validSignal (d_StopSignal d) \<and>
     0 \<le> d_KeepFor d \<and> fits64 (d_KeepFor d * (24 * Hour)) \<and> 0 \<le> d_LogMax d \<and> d_LogMax d \<le> 1048576 \<and>
     (d_EnvFile d = '''' \<or> IsAbs (d_EnvFile d)) \<and>
     (\<forall>m. d_SecretEnv d = Some m \<longrightarrow> (\<forall>(key, ref) \<in> set m. key \<noteq> '''' \<and> validSecretRef ref)) \<and>
     validateRunAs env (d_RunAs d) = None"

lemma validateDuration_fits: "0 \<le> v \<Longrightarrow> 0 < u \<Longrightarrow> validateDuration v u \<longleftrightarrow> fits64 (v * u)"
proof -
  assume "0 \<le> v" "0 < u"
  then have "validateDuration v u \<longleftrightarrow> v \<le> max_int64 div u"
    using sdiv_nonneg [of max_int64 u] by (auto simp: validateDuration_def max_int64_def)
  also have "\<dots> \<longleftrightarrow> v * u \<le> max_int64"
  proof
    assume "v \<le> max_int64 div u"
    then have "v * u \<le> max_int64 div u * u" using \<open>0 < u\<close> by (simp add: mult_right_mono)
    also have "\<dots> \<le> max_int64"
      using \<open>0 < u\<close> div_mult_mod_eq [of max_int64 u] pos_mod_sign [of u max_int64] by linarith
    finally show "v * u \<le> max_int64" .
  next
    assume "v * u \<le> max_int64"
    then show "v \<le> max_int64 div u" using \<open>0 < u\<close> zdiv_mono1 [of "v * u" max_int64 u] by simp
  qed
  finally show ?thesis using \<open>0 \<le> v\<close> \<open>0 < u\<close> by (simp add: fits64_nonneg)
qed

lemma duration_field_ok: "\<not> duration_field_bad zero_ok v \<longleftrightarrow> seconds_ok (if zero_ok then 0 else 1) v"
  using validateDuration_fits [of v Second] by (auto simp: duration_field_bad_def seconds_ok_def)

lemma failed_iff: "\<not> failed r \<longleftrightarrow> (\<exists>x. r = Inr x)"
  by (simp split: sum.split)

lemma first_error_nth: "first_error cs = None \<Longrightarrow> n < length cs \<Longrightarrow> \<not> fst (cs ! n)"
  by (simp add: first_error_None list_all_length)

lemma checks_valid:
  assumes "first_error (definition_checks1 env d) = None" "first_error (definition_checks2 env d) = None"
  shows "valid_definition env d"
proof -
  note one = first_error_nth [OF assms(1), unfolded definition_checks1_def]
  note two = first_error_nth [OF assms(2), unfolded definition_checks2_def]
  have c1: "(d_Command d = '''') \<noteq> (d_Argv d = None \<or> d_Argv d = Some [])"
    "seconds_ok 0 (d_Timeout d)" "seconds_ok 1 (d_Grace d)" "seconds_ok 1 (d_RestartDelay d)"
    "seconds_ok 1 (d_HealthyAfter d)"
    using one [of 0] one [of 1] one [of 2] one [of 3] one [of 4]
    by (simp_all add: duration_field_ok [of True, simplified] duration_field_ok [of False, simplified])
  have c2: "d_EnvBase d \<in> {''clean'', ''inherit''}" "d_Restart d \<in> {''always'', ''on-failure'', ''never''}"
    "0 \<le> d_Retries d" "d_Retries d \<le> 1000"
    using one [of 5] one [of 6] one [of 7] by simp_all
  have c3: "d_Kind d = KindJob \<longrightarrow> 1 \<le> d_RetryDelay d \<and> d_RetryDelay d \<le> 86400"
    using one [of 8] by auto
  have c4: "d_Kind d = KindJob \<longrightarrow> d_Schedule d = '''' \<or> ValidateSchedule env (d_Schedule d) = None"
    using one [of 17] by auto
  have c5: "1 \<le> d_MaxRestartAttempts d" "d_MaxRestartAttempts d \<le> 1000"
    "d_RestartBackoffMax d = 0 \<or> d_RestartDelay d \<le> d_RestartBackoffMax d \<and> d_RestartBackoffMax d \<le> 86400"
    "0 \<le> d_KeepRuns d" "d_Priority d = 0"
    using one [of 11] one [of 12] one [of 14] one [of 15] by (simp_all add: not_less)
  have c6: "\<forall>cs. d_SuccessCodes d = Some cs \<longrightarrow> (\<forall>c \<in> set cs. 0 \<le> c \<and> c \<le> 255)"
    using one [of 13] by (auto simp: list_all_iff)
  have c7: "d_RunOnStart d \<longrightarrow> d_Source d = ''config'' \<and> d_Kind d = KindJob \<and> d_Schedule d = ''''"
    using one [of 16] by auto
  have c8: "d_Kind d = KindWorker \<longrightarrow> d_Retries d = 0 \<and> d_RetryDelay d = 0"
    "d_Kind d = KindWorker \<longrightarrow> d_Schedule d = '''' \<and> d_OnHistoryUnavailable d = ''''"
    using one [of 9] one [of 10] two [of 3] two [of 12] by simp_all
  have c9: "\<exists>loc. ce_LoadLocation env (d_Timezone d) = Inr loc"
    using two [of 0] by (simp split: sum.splits)
  have c10: "d_CatchUp d \<in> {''none'', ''latest''}" "d_OnOverlap d \<in> {''skip'', ''parallel''}"
    "d_LogOnFull d \<in> {''drop_old'', ''drop_new''}" "validSignal (d_StopSignal d)"
    "d_OnHistoryUnavailable d \<in> {'''', ''run'', ''skip''}"
    using two [of 1] two [of 2] two [of 4] two [of 5] two [of 6] by simp_all
  have c11: "0 \<le> d_KeepFor d" "fits64 (d_KeepFor d * (24 * Hour))" "0 \<le> d_LogMax d" "d_LogMax d \<le> 1048576"
    "d_EnvFile d = '''' \<or> IsAbs (d_EnvFile d)" "validateRunAs env (d_RunAs d) = None"
    using two [of 7] two [of 8] two [of 9] two [of 10] two [of 13]
      validateDuration_fits [of "d_KeepFor d" "24 * Hour"] by simp_all
  have c12: "\<forall>m. d_SecretEnv d = Some m \<longrightarrow> (\<forall>(key, ref) \<in> set m. key \<noteq> '''' \<and> validSecretRef ref)"
    using two [of 11] by (fastforce simp: list_all_iff)
  have job: "d_Kind d = KindJob \<longrightarrow> 1 \<le> d_RetryDelay d \<and> d_RetryDelay d \<le> 86400 \<and>
      (d_Schedule d = '''' \<or> ValidateSchedule env (d_Schedule d) = None)"
    using c3 c4 by simp
  have worker: "d_Kind d = KindWorker \<longrightarrow> d_Retries d = 0 \<and> d_RetryDelay d = 0 \<and> d_Schedule d = '''' \<and>
      d_OnHistoryUnavailable d = '''' \<and> \<not> d_RunOnStart d"
    using c7 c8 by auto
  have start: "d_RunOnStart d \<longrightarrow> d_Source d = ''config'' \<and> d_Schedule d = ''''"
    using c7 by blast
  show ?thesis unfolding valid_definition_def
    using c1 c2 job worker c5 c6 start c9 c10 c11 c12 by (intro conjI)
qed

lemma validate_one_valid: "validate_one env tz d = Inr d' \<Longrightarrow> valid_definition env d'"
  by (rule checks_valid) (auto simp: validate_one_Inr definition_checks1_timezone split: if_splits)

text \<open>Validation of a list: element by element, with names that are valid and new.\<close>

lemma validate_seen_Inr:
  "validate_seen env tz seen ds = Inr ds' \<longleftrightarrow>
     list_all2 (\<lambda>d d'. validate_one env tz d = Inr d') ds ds' \<and> list_all (\<lambda>d. namePattern (d_Name d)) ds \<and>
     distinct (map d_Name ds) \<and> set (map d_Name ds) \<inter> set seen = {}"
proof (induction ds arbitrary: seen ds')
  case Nil
  then show ?case by auto
next
  case (Cons d ds)
  have "validate_seen env tz seen (d # ds) = Inr ds' \<longleftrightarrow>
      namePattern (d_Name d) \<and> d_Name d \<notin> set seen \<and>
      (\<exists>e es. ds' = e # es \<and> validate_one env tz d = Inr e \<and>
         validate_seen env tz (d_Name d # seen) ds = Inr es)"
    by (auto split: sum.splits)
  also have "\<dots> \<longleftrightarrow> namePattern (d_Name d) \<and> d_Name d \<notin> set seen \<and>
      (\<exists>e es. ds' = e # es \<and> validate_one env tz d = Inr e \<and>
         list_all2 (\<lambda>d d'. validate_one env tz d = Inr d') ds es \<and> list_all (\<lambda>d. namePattern (d_Name d)) ds \<and>
         distinct (map d_Name ds) \<and> set (map d_Name ds) \<inter> set (d_Name d # seen) = {})"
    by (simp only: Cons.IH)
  also have "\<dots> \<longleftrightarrow> list_all2 (\<lambda>d d'. validate_one env tz d = Inr d') (d # ds) ds' \<and>
      list_all (\<lambda>d. namePattern (d_Name d)) (d # ds) \<and>
      distinct (map d_Name (d # ds)) \<and> set (map d_Name (d # ds)) \<inter> set seen = {}"
    by (auto simp: list_all2_Cons1)
  finally show ?case .
qed

lemma validateDefinitions_Inr:
  "validateDefinitions env ds tz = Inr ds' \<longleftrightarrow>
     list_all2 (\<lambda>d d'. validate_one env tz d = Inr d') ds ds' \<and>
     list_all (\<lambda>d. namePattern (d_Name d)) ds \<and> distinct (map d_Name ds)"
  by (simp add: validateDefinitions_def validate_seen_Inr)

lemma request_timezone: "sch_Timezone (cfg_Scheduler (applyConfigDefaults blank_config)) = ''UTC''"
  by (simp add: applyConfigDefaults_def blank_config_def or_string_def Let_def)

lemma validateDefinition_Inr:
  "validateDefinition env d ex dflts = Inr d' \<longleftrightarrow>
     (let d1 = (if d_Kind d = '''' then d\<lparr>d_Kind := KindJob\<rparr> else d)
      in namePattern (d_Name d) \<and>
         validate_one env ''UTC'' (applyDefinitionDefaults d1 (job_defaults dflts) ex) = Inr d')"
proof -
  let ?d1 = "if d_Kind d = '''' then d\<lparr>d_Kind := KindJob\<rparr> else d"
  let ?d2 = "applyDefinitionDefaults ?d1 (job_defaults dflts) ex"
  have name: "d_Name ?d2 = d_Name d" by (simp add: applyDefinitionDefaults_sel)
  have "validateDefinition env d ex dflts = Inr d' \<longleftrightarrow>
      (\<exists>ds. validateDefinitions env [?d2] ''UTC'' = Inr ds \<and> d' = hd ds)"
    by (auto simp: validateDefinition_def Let_def request_timezone split: sum.splits)
  then show ?thesis by (auto simp: validateDefinitions_Inr list_all2_Cons1 name)
qed

lemma settled_timezone:
  assumes "has_builtins d" "has_merged dflt d" "tz \<noteq> ''''"
  defines "d' \<equiv> (if d_Timezone d = '''' then d\<lparr>d_Timezone := tz\<rparr> else d)"
  shows "has_builtins d' \<and> has_merged dflt d'"
  using assms by (auto simp: has_builtins_def has_merged_def or_builtin)

lemma Resolve_EditableInput:
  assumes "d_Kind d = KindJob \<or> d_Retries d = 0"
  shows "Resolve (EditableInput d dflts) = d"
  using assms by (cases d) (auto simp: Resolve_def EditableInput_def Let_def)

lemma applyDefinitionDefaults_explicit:
  "ex_timeout ex \<Longrightarrow> d_Timeout (applyDefinitionDefaults d dflt ex) = d_Timeout d"
  "ex_retries ex \<Longrightarrow> d_Retries (applyDefinitionDefaults d dflt ex) = d_Retries d"
  by (simp_all add: defaults_defs)

section \<open>An accepted configuration\<close>

text \<open>The settings of an accepted file: some listener, no plaintext listener beyond loopback that
  was not asked for, and every number in its range.\<close>

definition accepted_sizes :: "logs_cfg \<Rightarrow> bool" where
  "accepted_sizes l \<longleftrightarrow>
     0 \<le> log_DBMaxSize l \<and> log_DBMaxSize l \<le> 2 ^ 30 \<and> 0 \<le> log_DiskBudget l \<and> log_DiskBudget l \<le> 2 ^ 30 \<and>
     0 \<le> log_QuarantineMaxSize l \<and> log_QuarantineMaxSize l \<le> 2 ^ 30 \<and>
     (\<forall>v. log_DiskMinFree l = Some v \<longrightarrow> 0 \<le> v \<and> v \<le> 2 ^ 30) \<and>
     0 \<le> log_QuarantineKeepFor l \<and> fits64 (log_QuarantineKeepFor l * (24 * Hour))"

text \<open>The \<^verbatim>\<open>[defaults]\<close> table: settings common to jobs and workers only, and a job that states nothing but its command
  is valid with them.\<close>

definition accepted_defaults :: "config_env \<Rightarrow> string \<Rightarrow> definition_rec \<Rightarrow> bool" where
  "accepted_defaults env tz d \<longleftrightarrow>
     d_Name d = '''' \<and> d_Command d = '''' \<and> d_Argv d \<in> {None, Some []} \<and> d_Schedule d = '''' \<and> d_Autostart d = None \<and>
     d_Restart d = '''' \<and> d_RestartDelay d = 0 \<and> d_HealthyAfter d = 0 \<and> d_MaxRestartAttempts d = 0 \<and>
     d_RestartBackoffMax d = 0 \<and>
     (\<exists>d'. valid_definition env d' \<and> validateDefinitions env [applyDefinitionDefaults
        (zero_definition\<lparr>d_Name := ''defaults'', d_Kind := KindJob, d_Command := ''true''\<rparr>) d not_explicit] tz = Inr [d'])"

definition accepted_settings :: "config_env \<Rightarrow> config \<Rightarrow> bool" where
  "accepted_settings env c \<longleftrightarrow>
     (TCPOn (cfg_Server c) \<or> UnixOn (cfg_Server c)) \<and>
     (TCPOn (cfg_Server c) \<longrightarrow> \<not> insecure_bind env (cfg_Server c)) \<and>
     Validate (ce_FS env) (sch_TrustedPath (cfg_Scheduler c)) = Inr () \<and>
     1 \<le> sch_MaxConcurrentRuns (cfg_Scheduler c) \<and> sch_MaxConcurrentRuns (cfg_Scheduler c) \<le> 1024 \<and>
     0 \<le> sch_ShutdownGrace (cfg_Scheduler c) \<and> sch_ShutdownGrace (cfg_Scheduler c) \<le> 3600 \<and>
     1 \<le> que_MaxPerJob (cfg_Queue c) \<and> que_MaxPerJob (cfg_Queue c) \<le> que_MaxItems (cfg_Queue c) \<and>
     que_MaxItems (cfg_Queue c) \<le> 10000 \<and>
     1 \<le> que_MaxBytes (cfg_Queue c) \<and> que_MaxBytes (cfg_Queue c) \<le> 65536 \<and>
     1 \<le> que_MaxAge (cfg_Queue c) \<and> que_MaxAge (cfg_Queue c) \<le> 604800 \<and>
     1 \<le> que_DrainRate (cfg_Queue c) \<and> que_DrainRate (cfg_Queue c) \<le> 1000 \<and>
     1 \<le> que_MaxPendingRetries (cfg_Queue c) \<and> que_MaxPendingRetries (cfg_Queue c) \<le> 100000 \<and>
     1 \<le> sto_KeepRunsDefault (cfg_Storage c) \<and> 1 \<le> sto_AuditKeep (cfg_Storage c) \<and>
     1 \<le> sto_KeepForDefault (cfg_Storage c) \<and> fits64 (sto_KeepForDefault (cfg_Storage c) * (24 * Hour)) \<and>
     1 \<le> log_MaxLine (cfg_Logs c) \<and> log_MaxLine (cfg_Logs c) \<le> 16384 \<and>
     1 \<le> log_DBKeepFor (cfg_Logs c) \<and> fits64 (log_DBKeepFor (cfg_Logs c) * (24 * Hour)) \<and>
     1 \<le> log_WorkerFlushInterval (cfg_Logs c) \<and> fits64 (log_WorkerFlushInterval (cfg_Logs c) * Minute) \<and>
     100 \<le> log_SyncInterval (cfg_Logs c) \<and> log_SyncInterval (cfg_Logs c) \<le> 60000 \<and>
     log_Durability (cfg_Logs c) \<in> {''batch'', ''frame''} \<and> ValidateClock (log_DBPruneAt (cfg_Logs c)) \<and>
     1 \<le> rd_Slots (cfg_Reads c) \<and> rd_Slots (cfg_Reads c) \<le> 64 \<and>
     8 \<le> rd_Budget (cfg_Reads c) \<and> rd_Budget (cfg_Reads c) \<le> 4096 \<and>
     1 \<le> rd_WorkTimeout (cfg_Reads c) \<and> rd_WorkTimeout (cfg_Reads c) \<le> 300 \<and>
     1 \<le> log_SyncMaxDirty (cfg_Logs c) \<and> log_SyncMaxDirty (cfg_Logs c) \<le> 65536 \<and>
     log_Backend (cfg_Logs c) = ''file'' \<and> sto_Synchronous (cfg_Storage c) \<in> {''full'', ''normal''} \<and>
     (\<exists>loc. ce_LoadLocation env (sch_Timezone (cfg_Scheduler c)) = Inr loc) \<and>
     accepted_sizes (cfg_Logs c) \<and> accepted_defaults env (sch_Timezone (cfg_Scheduler c)) (cfg_Defaults c)"

text \<open>The byte and duration conversions of an accepted file are exact: nothing wraps and nothing
  saturates.\<close>

definition exact_units :: "logs_cfg \<Rightarrow> bool" where
  "exact_units l \<longleftrightarrow>
     MaxSizeBytes l = log_DBMaxSize l * 1048576 \<and> DiskBudgetBytes l = log_DiskBudget l * 1048576 \<and>
     QuarantineMaxBytes l = log_QuarantineMaxSize l * 1048576 \<and>
     (\<forall>v. log_DiskMinFree l = Some v \<longrightarrow> DiskMinFreeBytes l = v * 1048576) \<and>
     QuarantineKeepDuration l = log_QuarantineKeepFor l * (24 * Hour)"

lemma mebibytes_exact: "0 \<le> v \<Longrightarrow> v \<le> MaxDBMaxSizeMiB \<Longrightarrow> mebibytes v = v * 1048576"
  by (auto simp: mebibytes_def MaxDBMaxSizeMiB_def max_int64_def fits64_def min_int64_def intro!: wrap64_id)

lemma MaxSizeBytes_mebibytes: "MaxSizeBytes l = mebibytes (log_DBMaxSize l)"
  by (simp add: MaxSizeBytes_def mebibytes_def)

lemma keep_days_exact:
  assumes "0 \<le> v" "fits64 (v * (24 * Hour))"
  shows "wrap64 (wrap64 (max v 0 * 24) * Hour) = v * (24 * Hour)"
proof -
  have "fits64 (v * 24)" using assms by (auto simp: fits64_def min_int64_def max_int64_def)
  then show ?thesis using assms by (simp add: wrap64_id max_def mult.commute)
qed

lemma validateConfig_checks:
  assumes "validateConfig env c = None"
  shows "first_error (server_checks env c) = None" "first_error (limit_checks c) = None"
    "first_error (log_checks env c) = None" "first_error (defaults_checks env c) = None"
  using assms by (simp_all add: validateConfig_def first_error_None)

lemma validateConfig_exact_units:
  assumes "validateConfig env c = None"
  shows "exact_units (cfg_Logs c)"
proof -
  note lg = first_error_nth [OF validateConfig_checks(3) [OF assms], unfolded log_checks_def Let_def]
  have "0 \<le> log_QuarantineKeepFor (cfg_Logs c)" using lg [of 15] by simp
  moreover have "validateDuration (log_QuarantineKeepFor (cfg_Logs c)) (24 * Hour)" using lg [of 16] by simp
  ultimately have keep: "QuarantineKeepDuration (cfg_Logs c) = log_QuarantineKeepFor (cfg_Logs c) * (24 * Hour)"
    unfolding QuarantineKeepDuration_def by (intro keep_days_exact) (simp_all add: validateDuration_fits)
  have size: "mebibytes v = v * 1048576" if "\<not> size_limit_bad v" for v
    using that by (intro mebibytes_exact) (simp_all add: size_limit_bad_def)
  have "\<not> size_limit_bad (log_DBMaxSize (cfg_Logs c))" "\<not> size_limit_bad (log_DiskBudget (cfg_Logs c))"
    "\<not> size_limit_bad (log_QuarantineMaxSize (cfg_Logs c))"
    using lg [of 8] lg [of 12] lg [of 13] by simp_all
  moreover have "\<not> size_limit_bad v" if "log_DiskMinFree (cfg_Logs c) = Some v" for v
    using lg [of 14] that by simp
  ultimately show ?thesis
    using keep by (auto simp: exact_units_def MaxSizeBytes_mebibytes DiskBudgetBytes_def QuarantineMaxBytes_def
        DiskMinFreeBytes_def size)
qed

definition init_ok :: "definition_rec \<Rightarrow> bool" where
  "init_ok d \<longleftrightarrow> d_Kind d = KindJob \<and> d_Source d = ''config'' \<and> d_RunOnStart d \<and> d_Schedule d = '''' \<and>
     d_Retries d = 0"

definition job_ok :: "definition_rec \<Rightarrow> bool" where
  "job_ok d \<longleftrightarrow> d_Kind d = KindJob \<and> d_Source d = ''config'' \<and> \<not> d_RunOnStart d \<and> d_Schedule d \<noteq> ''''"

definition worker_ok :: "definition_rec \<Rightarrow> bool" where
  "worker_ok d \<longleftrightarrow> d_Kind d = KindWorker \<and> d_Source d = ''config''"

lemma list_all2_image:
  assumes "list_all2 R xs ys" "list_all P xs" "\<And>x y. R x y \<Longrightarrow> P x \<Longrightarrow> Q y"
  shows "list_all Q ys"
  using assms by (induction rule: list_all2_induct) auto

lemma validate_one_frame:
  "validate_one env tz d = Inr d' \<Longrightarrow>
     d_Name d' = d_Name d \<and> init_ok d' = init_ok d \<and> job_ok d' = job_ok d \<and> worker_ok d' = worker_ok d"
  by (auto simp: validate_one_Inr init_ok_def job_ok_def worker_ok_def)

lemma validateDefinitions_sound:
  assumes "validateDefinitions env ds tz = Inr ds'"
  shows "length ds' = length ds" "map d_Name ds' = map d_Name ds" "distinct (map d_Name ds')"
    "list_all (\<lambda>d. valid_definition env d \<and> namePattern (d_Name d)) ds'"
proof -
  have all2: "list_all2 (\<lambda>d d'. validate_one env tz d = Inr d') ds ds'"
    and "list_all (\<lambda>d. namePattern (d_Name d)) ds" "distinct (map d_Name ds)"
    using assms by (simp_all add: validateDefinitions_Inr)
  show "length ds' = length ds" using all2 by (simp add: list_all2_lengthD)
  show names: "map d_Name ds' = map d_Name ds"
    using all2 by (induction rule: list_all2_induct) (auto dest: validate_one_frame)
  then show "distinct (map d_Name ds')" using \<open>distinct (map d_Name ds)\<close> by simp
  show "list_all (\<lambda>d. valid_definition env d \<and> namePattern (d_Name d)) ds'"
    using all2 \<open>list_all (\<lambda>d. namePattern (d_Name d)) ds\<close>
    by (rule list_all2_image) (auto dest: validate_one_valid validate_one_frame)
qed

lemma validateConfig_sizes:
  assumes "validateConfig env c = None"
  shows "accepted_sizes (cfg_Logs c)"
proof -
  note lg = first_error_nth [OF validateConfig_checks(3) [OF assms], unfolded log_checks_def Let_def]
  have "\<not> size_limit_bad (log_DBMaxSize (cfg_Logs c))" "\<not> size_limit_bad (log_DiskBudget (cfg_Logs c))"
    "\<not> size_limit_bad (log_QuarantineMaxSize (cfg_Logs c))"
    "\<And>v. log_DiskMinFree (cfg_Logs c) = Some v \<Longrightarrow> \<not> size_limit_bad v" and keep: "0 \<le> log_QuarantineKeepFor (cfg_Logs c)"
    using lg [of 8] lg [of 12] lg [of 13] lg [of 14] lg [of 15] by simp_all
  moreover have "fits64 (log_QuarantineKeepFor (cfg_Logs c) * (24 * Hour))"
    using lg [of 16] keep validateDuration_fits [of "log_QuarantineKeepFor (cfg_Logs c)" "24 * Hour"] by simp
  ultimately show ?thesis by (auto simp: accepted_sizes_def size_limit_bad_def MaxDBMaxSizeMiB_def)
qed

lemma validateConfig_defaults:
  assumes "validateConfig env c = None"
  shows "accepted_defaults env (sch_Timezone (cfg_Scheduler c)) (cfg_Defaults c)"
proof -
  note df = first_error_nth [OF validateConfig_checks(4) [OF assms], unfolded defaults_checks_def Let_def]
  obtain ds where ds: "validateDefinitions env [applyDefinitionDefaults
        (zero_definition\<lparr>d_Name := ''defaults'', d_Kind := KindJob, d_Command := ''true''\<rparr>) (cfg_Defaults c) not_explicit]
        (sch_Timezone (cfg_Scheduler c)) = Inr ds"
    using df [of 5] by (auto split: sum.splits)
  then obtain d' where "ds = [d']" using validateDefinitions_sound(1) [OF ds] by (auto simp: length_Suc_conv)
  moreover then have "valid_definition env d'" using validateDefinitions_sound(4) [OF ds] by simp
  ultimately show ?thesis using df [of 4] ds by (auto simp: accepted_defaults_def)
qed

lemma validateConfig_accepted:
  assumes "validateConfig env c = None"
  shows "accepted_settings env c"
proof -
  note sv = first_error_nth [OF validateConfig_checks(1) [OF assms], unfolded server_checks_def]
  note lm = first_error_nth [OF validateConfig_checks(2) [OF assms], unfolded limit_checks_def Let_def]
  note lg = first_error_nth [OF validateConfig_checks(3) [OF assms], unfolded log_checks_def Let_def]
  note df = first_error_nth [OF validateConfig_checks(4) [OF assms], unfolded defaults_checks_def Let_def]
  have c1: "TCPOn (cfg_Server c) \<or> UnixOn (cfg_Server c)" "TCPOn (cfg_Server c) \<longrightarrow> \<not> insecure_bind env (cfg_Server c)"
    "Validate (ce_FS env) (sch_TrustedPath (cfg_Scheduler c)) = Inr ()"
    using sv [of 0] sv [of 1] sv [of 2] by auto
  have c2: "1 \<le> sch_MaxConcurrentRuns (cfg_Scheduler c)" "sch_MaxConcurrentRuns (cfg_Scheduler c) \<le> 1024"
    "0 \<le> sch_ShutdownGrace (cfg_Scheduler c)" "sch_ShutdownGrace (cfg_Scheduler c) \<le> 3600"
    "que_MaxItems (cfg_Queue c) \<le> 10000"
    "1 \<le> que_MaxPerJob (cfg_Queue c)" "que_MaxPerJob (cfg_Queue c) \<le> que_MaxItems (cfg_Queue c)"
    "1 \<le> que_MaxBytes (cfg_Queue c)" "que_MaxBytes (cfg_Queue c) \<le> 65536"
    using lm [of 0] lm [of 1] lm [of 2] lm [of 3] lm [of 4] by (simp_all add: outside_def)
  have c3: "1 \<le> que_MaxAge (cfg_Queue c)" "que_MaxAge (cfg_Queue c) \<le> 604800"
    "1 \<le> que_DrainRate (cfg_Queue c)" "que_DrainRate (cfg_Queue c) \<le> 1000"
    "1 \<le> que_MaxPendingRetries (cfg_Queue c)" "que_MaxPendingRetries (cfg_Queue c) \<le> 100000"
    "1 \<le> sto_KeepRunsDefault (cfg_Storage c)" "1 \<le> sto_AuditKeep (cfg_Storage c)"
    "1 \<le> sto_KeepForDefault (cfg_Storage c)"
    using lm [of 5] lm [of 6] lm [of 7] lm [of 8] lm [of 9] by (simp_all add: outside_def)
  have c4: "fits64 (sto_KeepForDefault (cfg_Storage c) * (24 * Hour))"
    using lm [of 10] c3(9) validateDuration_fits [of "sto_KeepForDefault (cfg_Storage c)" "24 * Hour"] by simp
  have c5: "1 \<le> log_MaxLine (cfg_Logs c)" "log_MaxLine (cfg_Logs c) \<le> 16384"
    "1 \<le> log_DBKeepFor (cfg_Logs c)" "1 \<le> log_WorkerFlushInterval (cfg_Logs c)"
    "100 \<le> log_SyncInterval (cfg_Logs c)" "log_SyncInterval (cfg_Logs c) \<le> 60000"
    "log_Durability (cfg_Logs c) \<in> {''batch'', ''frame''}" "ValidateClock (log_DBPruneAt (cfg_Logs c))"
    using lg [of 2] lg [of 3] lg [of 5] lg [of 7] lg [of 9] lg [of 10] by (simp_all add: outside_def)
  have c6: "fits64 (log_DBKeepFor (cfg_Logs c) * (24 * Hour))" "fits64 (log_WorkerFlushInterval (cfg_Logs c) * Minute)"
    using lg [of 4] lg [of 6] c5(3,4) validateDuration_fits [of "log_DBKeepFor (cfg_Logs c)" "24 * Hour"]
      validateDuration_fits [of "log_WorkerFlushInterval (cfg_Logs c)" Minute] by simp_all
  have c7: "1 \<le> rd_Slots (cfg_Reads c)" "rd_Slots (cfg_Reads c) \<le> 64" "8 \<le> rd_Budget (cfg_Reads c)"
    "rd_Budget (cfg_Reads c) \<le> 4096" "1 \<le> rd_WorkTimeout (cfg_Reads c)" "rd_WorkTimeout (cfg_Reads c) \<le> 300"
    "sto_Synchronous (cfg_Storage c) \<in> {''full'', ''normal''}"
    using df [of 0] df [of 1] df [of 2] df [of 3] by (simp_all add: outside_def)
  have c8: "1 \<le> log_SyncMaxDirty (cfg_Logs c)" "log_SyncMaxDirty (cfg_Logs c) \<le> 65536" "log_Backend (cfg_Logs c) = ''file''"
    using lg [of 1] lg [of 11] by (simp_all add: outside_def)
  have c9: "\<exists>loc. ce_LoadLocation env (sch_Timezone (cfg_Scheduler c)) = Inr loc"
    using lg [of 0] by (auto split: sum.splits)
  show ?thesis unfolding accepted_settings_def
    using c1 c2 c3 c4 c5 c6 c7 c8 c9 validateConfig_sizes [OF assms] validateConfig_defaults [OF assms] by (intro conjI)
qed

text \<open>The tables of a file keep their order and length.\<close>

lemma each_result_list_all2:
  "each_result f i xs = Inr ys \<Longrightarrow> list_all2 (\<lambda>x y. \<exists>j. f j x = Inr y) xs ys"
  by (induction xs arbitrary: i ys) (auto split: sum.splits)

lemma load_shapes:
  "load_init dflt ps i d = Inr d' \<Longrightarrow> init_ok d'"
  "load_job dflt ps i d = Inr d' \<Longrightarrow> job_ok d'"
  "load_worker dflt ps i d = Inr d' \<Longrightarrow> worker_ok d'"
  by (auto simp: load_init_def load_job_def load_worker_def init_ok_def job_ok_def worker_ok_def
      applyDefinitionDefaults_sel split: if_splits)

lemma each_result_all:
  assumes "each_result f i xs = Inr ys" "\<And>j x y. f j x = Inr y \<Longrightarrow> P y"
  shows "list_all P ys"
  using assms(1) by (induction xs arbitrary: i ys) (auto intro: assms(2) split: sum.splits)

lemma validateDefinitions_keeps:
  assumes "validateDefinitions env (xs @ ys @ zs) tz = Inr ds'"
    "list_all init_ok xs" "list_all job_ok ys" "list_all worker_ok zs"
  shows "list_all init_ok (take (length xs) ds')"
    "list_all job_ok (take (length ys) (drop (length xs) ds'))"
    "list_all worker_ok (drop (length xs + length ys) ds')"
proof -
  have all2: "list_all2 (\<lambda>d d'. validate_one env tz d = Inr d') (xs @ ys @ zs) ds'"
    using assms(1) by (simp add: validateDefinitions_Inr)
  then obtain xs' ys' zs' where ds': "ds' = xs' @ ys' @ zs'"
    and parts: "list_all2 (\<lambda>d d'. validate_one env tz d = Inr d') xs xs'"
      "list_all2 (\<lambda>d d'. validate_one env tz d = Inr d') ys ys'"
      "list_all2 (\<lambda>d d'. validate_one env tz d = Inr d') zs zs'"
    by (auto simp: list_all2_append1)
  then have len: "length xs' = length xs" "length ys' = length ys" by (simp_all add: list_all2_lengthD)
  have "list_all init_ok xs'" "list_all job_ok ys'" "list_all worker_ok zs'"
    using parts assms(2-4) by (auto elim!: list_all2_image dest: validate_one_frame)
  then show "list_all init_ok (take (length xs) ds')"
    "list_all job_ok (take (length ys) (drop (length xs) ds'))"
    "list_all worker_ok (drop (length xs + length ys) ds')"
    unfolding ds' by (simp_all add: len [symmetric])
qed

lemma each_result_names:
  assumes "each_result f i xs = Inr ys" "\<And>j x y. f j x = Inr y \<Longrightarrow> d_Name y = d_Name x"
  shows "map d_Name ys = map d_Name xs"
  using assms(1) by (induction xs arbitrary: i ys) (auto intro: assms(2) split: sum.splits)

lemma load_names:
  "load_init dflt ps i d = Inr d' \<Longrightarrow> d_Name d' = d_Name d"
  "load_job dflt ps i d = Inr d' \<Longrightarrow> d_Name d' = d_Name d"
  "load_worker dflt ps i d = Inr d' \<Longrightarrow> d_Name d' = d_Name d"
  by (auto simp: load_init_def load_job_def load_worker_def applyDefinitionDefaults_sel split: if_splits)

abbreviation (input) settings_of :: "config \<Rightarrow> config" where
  "settings_of c \<equiv> c\<lparr>cfg_Init := [], cfg_Jobs := [], cfg_Workers := []\<rparr>"

lemma load_tables_parts:
  assumes "load_tables env present cfg = Inr c"
  shows "settings_of c = settings_of cfg \<and> map d_Name (cfg_Init c) = map d_Name (cfg_Init cfg) \<and>
     map d_Name (cfg_Jobs c) = map d_Name (cfg_Jobs cfg) \<and> map d_Name (cfg_Workers c) = map d_Name (cfg_Workers cfg) \<and>
     distinct (map d_Name (config_Definitions c)) \<and>
     list_all (\<lambda>d. valid_definition env d \<and> namePattern (d_Name d)) (config_Definitions c) \<and>
     list_all init_ok (cfg_Init c) \<and> list_all job_ok (cfg_Jobs c) \<and> list_all worker_ok (cfg_Workers c)"
proof -
  from assms obtain inits jobs workers defs where
    i: "each_result (load_init (cfg_Defaults cfg) (pf_Init present)) 0 (cfg_Init cfg) = Inr inits"
    and j: "each_result (load_job (cfg_Defaults cfg) (pf_Jobs present)) 0 (cfg_Jobs cfg) = Inr jobs"
    and w: "each_result (load_worker (cfg_Defaults cfg) (pf_Workers present)) 0 (cfg_Workers cfg) = Inr workers"
    and d: "validateDefinitions env (inits @ jobs @ workers) (sch_Timezone (cfg_Scheduler cfg)) = Inr defs"
    and c: "c = cfg\<lparr>cfg_Init := take (length inits) defs, cfg_Jobs := take (length jobs) (drop (length inits) defs),
                    cfg_Workers := drop (length inits + length jobs) defs\<rparr>"
    by (auto simp: load_tables_def config_Definitions_def Let_def split: sum.splits)
  have "list_all init_ok inits" using i by (rule each_result_all) (rule load_shapes(1))
  moreover have "list_all job_ok jobs" using j by (rule each_result_all) (rule load_shapes(2))
  moreover have "list_all worker_ok workers" using w by (rule each_result_all) (rule load_shapes(3))
  ultimately have shapes: "list_all init_ok (cfg_Init c)" "list_all job_ok (cfg_Jobs c)" "list_all worker_ok (cfg_Workers c)"
    using validateDefinitions_keeps [OF d] by (simp_all add: c)
  have defs: "config_Definitions c = defs"
    unfolding c config_Definitions_def
    by simp (metis add.commute append_take_drop_id drop_drop)
  note names = validateDefinitions_sound(2) [OF d]
  have "map d_Name (cfg_Init c) = map d_Name inits" "map d_Name (cfg_Jobs c) = map d_Name jobs"
    "map d_Name (cfg_Workers c) = map d_Name workers"
    by (simp_all add: c take_map [symmetric] drop_map [symmetric] names)
  moreover have "map d_Name inits = map d_Name (cfg_Init cfg)" using i load_names(1) by (rule each_result_names)
  moreover have "map d_Name jobs = map d_Name (cfg_Jobs cfg)" using j load_names(2) by (rule each_result_names)
  moreover have "map d_Name workers = map d_Name (cfg_Workers cfg)" using w load_names(3) by (rule each_result_names)
  moreover have "settings_of c = settings_of cfg" by (simp add: c)
  ultimately show ?thesis using shapes validateDefinitions_sound [OF d] by (simp add: defs)
qed

lemma accepted_settings_cong:
  assumes "settings_of c = settings_of cfg"
  shows "accepted_settings env c = accepted_settings env cfg" "cfg_Logs c = cfg_Logs cfg"
proof -
  have "cfg_Server c = cfg_Server cfg" "cfg_Scheduler c = cfg_Scheduler cfg" "cfg_Queue c = cfg_Queue cfg"
    "cfg_Storage c = cfg_Storage cfg" "cfg_Logs c = cfg_Logs cfg" "cfg_Reads c = cfg_Reads cfg" "cfg_Defaults c = cfg_Defaults cfg"
    using assms by (cases c; cases cfg; simp)+
  then show "accepted_settings env c = accepted_settings env cfg" "cfg_Logs c = cfg_Logs cfg"
    by (simp_all add: accepted_settings_def)
qed

section \<open>Reading a definition and sending it back\<close>

text \<open>The lists and maps a document does not mention are filled in from the defaults.\<close>

definition inherit_maps :: "definition_rec \<Rightarrow> definition_rec \<Rightarrow> definition_rec" where
  "inherit_maps dflt d = d\<lparr>d_Env := or_nil (d_Env d) (d_Env dflt), d_SecretEnv := or_nil (d_SecretEnv d) (d_SecretEnv dflt),
     d_Labels := or_nil (d_Labels d) (d_Labels dflt), d_Alerts := or_nil (d_Alerts d) (d_Alerts dflt)\<rparr>"

definition spelled_out :: "definition_rec \<Rightarrow> definition_rec \<Rightarrow> bool" where
  "spelled_out dflt d \<longleftrightarrow> (d_Env d = None \<longrightarrow> d_Env dflt = None) \<and> (d_SecretEnv d = None \<longrightarrow> d_SecretEnv dflt = None) \<and>
     (d_Labels d = None \<longrightarrow> d_Labels dflt = None) \<and> (d_Alerts d = None \<longrightarrow> d_Alerts dflt = None)"

lemma or_nil_same: "or_nil x y = x \<longleftrightarrow> (x = None \<longrightarrow> y = None)"
  by (auto simp: or_nil_def)

lemma inherit_maps_same: "inherit_maps dflt d = d \<longleftrightarrow> spelled_out dflt d"
proof
  assume "inherit_maps dflt d = d"
  then have "or_nil (d_Env d) (d_Env dflt) = d_Env d" "or_nil (d_SecretEnv d) (d_SecretEnv dflt) = d_SecretEnv d"
    "or_nil (d_Labels d) (d_Labels dflt) = d_Labels d" "or_nil (d_Alerts d) (d_Alerts dflt) = d_Alerts d"
    unfolding inherit_maps_def by (cases d; simp)+
  then show "spelled_out dflt d" by (simp add: spelled_out_def or_nil_same)
next
  assume "spelled_out dflt d"
  then have "or_nil (d_Env d) (d_Env dflt) = d_Env d" "or_nil (d_SecretEnv d) (d_SecretEnv dflt) = d_SecretEnv d"
    "or_nil (d_Labels d) (d_Labels dflt) = d_Labels d" "or_nil (d_Alerts d) (d_Alerts dflt) = d_Alerts d"
    by (simp_all add: spelled_out_def or_nil_same)
  then show "inherit_maps dflt d = d" by (simp add: inherit_maps_def)
qed

lemma json_settled:
  assumes "has_builtins d \<and> has_merged dflt d"
  shows "has_builtins (json_document d) \<and> has_merged dflt (inherit_maps dflt (json_document d))"
  using assms by (auto simp: has_builtins_def has_merged_def json_document_def inherit_maps_def nil_if_empty_def)

lemma applyDefinitionDefaults_inherit:
  assumes "has_builtins d \<and> has_merged dflt (inherit_maps dflt d)"
    and "ex_timeout ex \<or> or_int (d_Timeout d) (d_Timeout dflt) = d_Timeout d"
    and "d_Kind d = KindJob \<longrightarrow> ex_retries ex \<or> or_int (d_Retries d) (d_Retries dflt) = d_Retries d"
  shows "applyDefinitionDefaults d dflt ex = inherit_maps dflt d"
proof -
  have "merge_job dflt ex (inherit_maps dflt d) = inherit_maps dflt (merge_job dflt ex d)"
    by (simp add: merge_job_def inherit_maps_def)
  moreover have "merge_common dflt ex (inherit_maps dflt d) = merge_common dflt ex d" for d
    by (simp add: merge_common_def inherit_maps_def)
  ultimately have "applyDefinitionDefaults d dflt ex = applyDefinitionDefaults (inherit_maps dflt d) dflt ex"
    by (simp add: applyDefinitionDefaults_def mergeDefinitionDefaults_def)
  also have "\<dots> = inherit_maps dflt d"
    using assms by (intro applyDefinitionDefaults_id) (simp_all add: has_builtins_def inherit_maps_def)
  finally show ?thesis .
qed

lemma json_checks:
  "definition_checks1 env (json_document d) = definition_checks1 env d"
  "definition_checks2 env (json_document d) = definition_checks2 env d"
proof -
  have "list_all P (case sorted_map v of None \<Rightarrow> [] | Some m \<Rightarrow> m) = list_all P (case v of None \<Rightarrow> [] | Some m \<Rightarrow> m)" for P v
    using sorted_map_entries [of v] by (auto simp: list_all_iff split: option.splits)
  then show "definition_checks2 env (json_document d) = definition_checks2 env d"
    by (simp add: definition_checks2_def json_document_def)
  show "definition_checks1 env (json_document d) = definition_checks1 env d"
    by (simp add: definition_checks1_def json_document_def nil_if_empty_def)
qed

lemma validate_one_json:
  assumes "validate_one env tz d0 = Inr d" "tz \<noteq> ''''"
  shows "validate_one env tz (json_document d) = Inr (json_document d)"
proof -
  have "d_Timezone d \<noteq> ''''" using assms by (auto simp: validate_one_Inr)
  moreover have "d_Timezone (json_document d) = d_Timezone d" by (simp add: json_document_def)
  ultimately show ?thesis using validate_one_idem [OF assms(1)] by (simp add: validate_one_Inr json_checks)
qed

lemma json_EditableInput: "json_document D = D \<Longrightarrow> json_input (EditableInput D dflts) = EditableInput D dflts"
  by (cases D) (simp add: json_input_def EditableInput_def json_document_def Let_def)

lemma accepted_input:
  assumes ok: "ValidateDefinitionInput env inp dflts = Inr d"
  shows "validate_one env ''UTC'' d = Inr d" "d_Timezone d \<noteq> ''''" "has_builtins d \<and> has_merged (job_defaults dflts) d" "namePattern (d_Name d)"
    "\<forall>t. in_Timeout inp = Some t \<longrightarrow> d_Timeout d = t" "\<forall>r. in_Retries inp = Some r \<longrightarrow> d_Retries d = r"
proof -
  let ?r = "Resolve inp" and ?ex = "inputExplicit inp" and ?dflt = "job_defaults dflts"
  define d1 where "d1 = (if d_Kind ?r = '''' then ?r\<lparr>d_Kind := KindJob\<rparr> else ?r)"
  define d2 where "d2 = applyDefinitionDefaults d1 ?dflt ?ex"
  have name: "namePattern (d_Name ?r)" and one: "validate_one env ''UTC'' d2 = Inr d"
    using ok by (auto simp: ValidateDefinitionInput_def validateDefinition_Inr Let_def d1_def d2_def)
  have d: "d = (if d_Timezone d2 = '''' then d2\<lparr>d_Timezone := ''UTC''\<rparr> else d2)"
    using one by (simp add: validate_one_Inr)
  show "validate_one env ''UTC'' d = Inr d" using one by (rule validate_one_idem)
  show "d_Timezone d \<noteq> ''''" using d by auto
  show "has_builtins d \<and> has_merged ?dflt d"
    using settled_timezone [of d2 ?dflt "''UTC''"] applyDefinitionDefaults_has [of d1 ?dflt ?ex]
    unfolding d d2_def by simp
  show "namePattern (d_Name d)"
    using name unfolding d d2_def by (simp add: applyDefinitionDefaults_sel d1_def)
  show "\<forall>t. in_Timeout inp = Some t \<longrightarrow> d_Timeout d = t" "\<forall>r. in_Retries inp = Some r \<longrightarrow> d_Retries d = r"
    unfolding d d2_def
    by (auto simp: applyDefinitionDefaults_explicit inputExplicit_def d1_def Resolve_def Let_def split: option.split)
qed

lemma validateDefinition_one:
  assumes "Resolve inp = D" "d_Kind D \<noteq> ''''" "namePattern (d_Name D)"
    "applyDefinitionDefaults D (job_defaults dflts) (inputExplicit inp) = d2" "d_Name d2 = d_Name D"
  shows "ValidateDefinitionInput env inp dflts = validate_one env ''UTC'' d2"
  using assms
  by (simp add: ValidateDefinitionInput_def validateDefinition_def validateDefinitions_def Let_def applyConfigDefaults_def
      blank_config_def or_string_def split: sum.split)

section \<open>Properties\<close>


text \<open>C29: a file that loads has every setting that \<^verbatim>\<open>validateConfig\<close> checks in its range, with exact byte and duration
  conversions, never listens in plaintext beyond loopback unless told to, and has a default table of common job settings that
  gives a valid job.  Apart from the tables of definitions the result is the decoded file with the documented defaults filled in, no
  definition of the file is lost, renamed or moved, and the definitions have distinct names and pass every rule: startup tasks
  without schedule and retries, jobs with a schedule, and workers, all owned by the configuration.\<close>

theorem Load_sound:
  assumes "Load env ReadFile decode Unmarshal path = Inr c"
  shows "accepted_settings env c \<and> exact_units (cfg_Logs c) \<and>
         (\<exists>raw cfg0. ReadFile path = Inr raw \<and> decode raw = Inr cfg0 \<and>
            c\<lparr>cfg_Init := [], cfg_Jobs := [], cfg_Workers := []\<rparr>
              = (applyConfigDefaults cfg0)\<lparr>cfg_Init := [], cfg_Jobs := [], cfg_Workers := []\<rparr> \<and>
            map d_Name (cfg_Init c) = map d_Name (cfg_Init cfg0) \<and> map d_Name (cfg_Jobs c) = map d_Name (cfg_Jobs cfg0) \<and>
            map d_Name (cfg_Workers c) = map d_Name (cfg_Workers cfg0)) \<and>
         distinct (map d_Name (config_Definitions c)) \<and>
         list_all (\<lambda>d. valid_definition env d \<and> namePattern (d_Name d)) (config_Definitions c) \<and>
         list_all init_ok (cfg_Init c) \<and> list_all job_ok (cfg_Jobs c) \<and> list_all worker_ok (cfg_Workers c)"
proof -
  from assms obtain raw cfg0 present where raw: "ReadFile path = Inr raw" "decode raw = Inr cfg0"
    and v: "validateConfig env (applyConfigDefaults cfg0) = None"
    and l: "load_tables env present (applyConfigDefaults cfg0) = Inr c"
    by (auto simp: Load_def Let_def split: sum.splits option.splits)
  have tables: "cfg_Init (applyConfigDefaults cfg0) = cfg_Init cfg0" "cfg_Jobs (applyConfigDefaults cfg0) = cfg_Jobs cfg0"
    "cfg_Workers (applyConfigDefaults cfg0) = cfg_Workers cfg0"
    by (simp_all add: applyConfigDefaults_def Let_def)
  note parts = load_tables_parts [OF l, unfolded tables]
  have "accepted_settings env c" "exact_units (cfg_Logs c)"
    using accepted_settings_cong [OF conjunct1 [OF parts]] validateConfig_accepted [OF v] validateConfig_exact_units [OF v]
    by simp_all
  then show ?thesis using parts raw by blast
qed

section \<open>A sample configuration\<close>

definition sample_env :: config_env where
  "sample_env = \<lparr>
     ce_ParseDuration = (\<lambda>s. if s = ''1h'' then Inr Hour else Inl ''invalid duration''),
     ce_LoadLocation = (\<lambda>s. if s = ''UTC'' then Inr (FixedZone 0) else Inl ''unknown time zone''),
     ce_Parse = (\<lambda>s. Inl ''invalid cron expression''),
     ce_SplitHostPort = (\<lambda>s. case Cut (CHR '':'') s of Some (h, p) \<Rightarrow> Inr (h, p) | None \<Rightarrow> Inl ''missing port''),
     ce_Loopback = (\<lambda>h. h = ''127.0.0.1''),
     ce_LookupId = (\<lambda>_. Inl ''unknown userid''), ce_Lookup = (\<lambda>_. Inl ''unknown user''),
     ce_Geteuid = 0, ce_FS = sample_fs\<rparr>"

definition backup_spec :: definition_rec where
  "backup_spec = zero_definition\<lparr>d_Name := ''backup'', d_Command := ''true'', d_Schedule := ''@every 1h''\<rparr>"

definition backup_input :: definition_input where
  "backup_input = \<lparr>in_Definition = backup_spec, in_Timeout = Some 0, in_Retries = None\<rparr>"

definition slow_defaults :: definition_rec where
  "slow_defaults = zero_definition\<lparr>d_Timeout := 60, d_Retries := 2\<rparr>"

definition backup_def :: definition_rec where
  "backup_def = (case ValidateDefinitionInput sample_env backup_input [slow_defaults] of
     Inr d \<Rightarrow> d | Inl _ \<Rightarrow> zero_definition)"

text \<open>An environment that is explicitly empty although the defaults have one.\<close>

definition env_defaults :: definition_rec where
  "env_defaults = slow_defaults\<lparr>d_Env := Some [(''LANG'', ''C'')]\<rparr>"

definition bare_def :: definition_rec where
  "bare_def = (case ValidateDefinitionInput sample_env (backup_input\<lparr>in_Definition := backup_spec\<lparr>d_Env := Some []\<rparr>\<rparr>) [env_defaults] of
     Inr d \<Rightarrow> d | Inl _ \<Rightarrow> zero_definition)"


definition sample_config :: config where
  "sample_config = blank_config\<lparr>cfg_Defaults := slow_defaults, cfg_Jobs := [backup_spec],
     cfg_Init := [zero_definition\<lparr>d_Name := ''setup'', d_Argv := Some [''/bin/true'']\<rparr>],
     cfg_Workers := [zero_definition\<lparr>d_Name := ''web'', d_Command := ''serve''\<rparr>]\<rparr>"

definition sample_presence :: presenceFile where
  "sample_presence = \<lparr>pf_Init = [], pf_Jobs = [\<lparr>np_Timeout = None, np_Retries = Some 0\<rparr>], pf_Workers = []\<rparr>"

definition loaded_config :: config where
  "loaded_config = (case Load sample_env Inr (\<lambda>_. Inr sample_config) (\<lambda>_. Inr sample_presence) ''minicrond.toml'' of
     Inr c \<Rightarrow> c | Inl _ \<Rightarrow> blank_config)"

theorem Load_sound_witness:
  "accepted_settings sample_env loaded_config \<and>
   map d_Name (config_Definitions loaded_config) = [''setup'', ''backup'', ''web''] \<and>
   map d_Timeout (config_Definitions loaded_config) = [60, 60, 60] \<and>
   map d_Retries (config_Definitions loaded_config) = [0, 0, 0]"
proof -
  have "Load sample_env Inr (\<lambda>_. Inr sample_config) (\<lambda>_. Inr sample_presence) ''minicrond.toml'' = Inr loaded_config"
    by code_simp
  moreover have "map d_Name (config_Definitions loaded_config) = [''setup'', ''backup'', ''web'']"
    "map d_Timeout (config_Definitions loaded_config) = [60, 60, 60]"
    "map d_Retries (config_Definitions loaded_config) = [0, 0, 0]"
    by code_simp+
  ultimately show ?thesis using Load_sound by blast
qed

end
