(* ===== verification/Log_Frame.thy ===== *)
theory Log_Frame
  imports Prelude "HOL-Library.Word" "HOL-Library.Sublist"
begin

text \<open>
  The frame format of the log buffer, \<^verbatim>\<open>encodeWithHeader\<close>,
  \<^verbatim>\<open>decodeHeaderWithBuffer\<close>, \<^verbatim>\<open>decode\<close>, \<^verbatim>\<open>salvageFrames\<close> and
  \<^verbatim>\<open>encodeFrames\<close> of \<^verbatim>\<open>src/internal/logstore/logstore.go\<close>: a 24-byte big-endian header
  and the payload.

  The zstd compressor is a parameter. A decoder is what it delivers: the bytes it yields and the
  error that ends them, which is end of file for a complete stream, an unexpected end for one cut
  short, or some other error for a damaged one.
\<close>

section \<open>Bytes and readers\<close>

type_synonym byte = "8 word"

unbundle bit_operations_syntax

datatype read_error = EOF | UnexpectedEOF | Damaged string

text \<open>What is left of a reader, and the error after it.\<close>

type_synonym reader = "byte list \<times> read_error"

record zstd =
  zs_compress :: "byte list \<Rightarrow> byte list"
  zs_reader :: "byte list \<Rightarrow> reader"

text \<open>\<^verbatim>\<open>io.ReadFull\<close> into a buffer of \<open>n\<close> bytes.\<close>

definition ReadFull :: "nat \<Rightarrow> reader \<Rightarrow> read_error + (byte list \<times> reader)" where
  "ReadFull n r =
     (let (bs, e) = r
      in if n \<le> length bs then Inr (take n bs, (drop n bs, e))
         else if bs \<noteq> [] \<and> e = EOF then Inl UnexpectedEOF
         else Inl e)"

text \<open>\<^verbatim>\<open>binary.BigEndian.PutUint64\<close>/\<^verbatim>\<open>PutUint32\<close> into \<open>n\<close> bytes and the
  reading back.\<close>

primrec PutUint :: "nat \<Rightarrow> 'a::len word \<Rightarrow> byte list" where
  "PutUint 0 w = []"
| "PutUint (Suc n) w = ucast (drop_bit (8 * n) w) # PutUint n w"

primrec Uint :: "byte list \<Rightarrow> 'a::len word" where
  "Uint [] = 0"
| "Uint (b # bs) = push_bit (8 * length bs) (ucast b) OR Uint bs"

section \<open>Frames\<close>

definition Version :: byte where "Version = 1"
definition Stdout :: byte where "Stdout = 1"
definition Stderr :: byte where "Stderr = 2"
definition System :: byte where "System = 3"
definition FlagPartial :: byte where "FlagPartial = 1"
definition FlagInvalidUTF8 :: byte where "FlagInvalidUTF8 = 2"
definition FlagTruncated :: byte where "FlagTruncated = 4"
definition maxFramePayload :: nat where "maxFramePayload = 16777216"

record frame =
  fr_Sequence :: "64 word"
  fr_Timestamp :: time
  fr_Stream :: byte
  fr_Flags :: byte
  fr_Payload :: "byte list"

definition encodeHeader :: "frame \<Rightarrow> byte list" where
  "encodeHeader f = [Version, fr_Stream f, fr_Flags f, 0] @ PutUint 8 (fr_Sequence f)
     @ PutUint 8 (word_of_int (unix_micro (fr_Timestamp f)) :: 64 word)
     @ PutUint 4 (of_nat (length (fr_Payload f)) :: 32 word)"

definition encodeWithHeader :: "frame \<Rightarrow> byte list" where
  "encodeWithHeader f = encodeHeader f @ fr_Payload f"

text \<open>The frame of a header still has no payload; the number is the payload's length.\<close>

definition decodeHeaderWithBuffer :: "reader \<Rightarrow> read_error + (frame \<times> nat \<times> reader)" where
  "decodeHeaderWithBuffer src =
     (case ReadFull 24 src of
        Inl e \<Rightarrow> Inl e
      | Inr (h, rest) \<Rightarrow>
          if h ! 0 \<noteq> Version then Inl (Damaged ''unsupported log frame version'')
          else
            let n = unat (Uint (take 4 (drop 20 h)) :: 32 word)
            in if n > maxFramePayload then Inl (Damaged ''log frame payload exceeds maximum'')
               else Inr (\<lparr>fr_Sequence = Uint (take 8 (drop 4 h)),
                          fr_Timestamp = from_micro (sint (Uint (take 8 (drop 12 h)) :: 64 word)),
                          fr_Stream = h ! 1, fr_Flags = h ! 2, fr_Payload = []\<rparr>, n, rest))"

definition decode :: "reader \<Rightarrow> read_error + (frame \<times> reader)" where
  "decode src =
     (case decodeHeaderWithBuffer src of
        Inl e \<Rightarrow> Inl e
      | Inr (f, n, rest) \<Rightarrow>
          (case ReadFull n rest of
             Inl e \<Rightarrow> Inl (if e = EOF then UnexpectedEOF else e)
           | Inr (payload, rest') \<Rightarrow> Inr (f\<lparr>fr_Payload := payload\<rparr>, rest')))"

lemma ReadFull_length: "ReadFull n r = Inr (bs, r') \<Longrightarrow> length (fst r) = n + length (fst r')"
  by (auto simp: ReadFull_def Let_def split: prod.splits if_splits)

lemma decodeHeader_length:
  "decodeHeaderWithBuffer r = Inr (f, n, r') \<Longrightarrow> length (fst r) = 24 + length (fst r')"
  by (auto simp: decodeHeaderWithBuffer_def Let_def dest!: ReadFull_length split: sum.splits prod.splits if_splits)

lemma decode_length: "decode r = Inr (f, r') \<Longrightarrow> length (fst r') < length (fst r)"
  by (auto simp: decode_def dest!: ReadFull_length decodeHeader_length split: sum.splits prod.splits)

text \<open>The loop of \<^verbatim>\<open>salvageFrames\<close>: the frames before the first problem, and the problem
  (none at a clean end).\<close>

function decode_all :: "reader \<Rightarrow> frame list \<times> read_error option" where
  "decode_all r =
     (case decode r of
        Inl e \<Rightarrow> ([], if e = EOF then None else Some e)
      | Inr (f, r') \<Rightarrow> (let (fs, err) = decode_all r' in (f # fs, err)))"
  by pat_completeness auto
termination
  by (relation "measure (\<lambda>r. length (fst r))") (auto dest: decode_length)

declare decode_all.simps [simp del]

definition salvageFrames :: "zstd \<Rightarrow> byte list \<Rightarrow> frame list \<times> read_error option" where
  "salvageFrames z blob = (if blob = [] then ([], None) else decode_all (zs_reader z blob))"

definition encodeFrames :: "zstd \<Rightarrow> frame list \<Rightarrow> byte list" where
  "encodeFrames z frames = zs_compress z (concat (map encodeWithHeader frames))"

section \<open>Big-endian numbers\<close>

lemma length_PutUint [simp]: "length (PutUint n w) = n"
  by (induction n) auto

lemma Uint_PutUint: "Uint (PutUint n w) = take_bit (8 * n) (w :: 'a::len word)"
proof (induction n)
  case (Suc n)
  have "Uint (PutUint (Suc n) w) = push_bit (8 * n) (ucast (ucast (drop_bit (8 * n) w) :: byte)) OR take_bit (8 * n) w"
    using Suc by simp
  also have "\<dots> = take_bit (8 * Suc n) w"
    by (rule bit_word_eqI) (auto simp: bit_simps)
  finally show ?case .
qed simp

lemma Uint_PutUint_64: "Uint (PutUint 8 w) = (w :: 64 word)"
  by (simp add: Uint_PutUint take_bit_word_eq_self)

lemma Uint_PutUint_32: "Uint (PutUint 4 w) = (w :: 32 word)"
  by (simp add: Uint_PutUint take_bit_word_eq_self)

section \<open>Decoding what was encoded\<close>

text \<open>The bytes of a frame, and the frame as it reads back: its instant is rounded down to the
  microsecond.\<close>

definition frame_size :: "frame \<Rightarrow> nat" where
  "frame_size f = 24 + length (fr_Payload f)"

definition stored :: "frame \<Rightarrow> frame" where
  "stored f = f\<lparr>fr_Timestamp := from_micro (unix_micro (fr_Timestamp f))\<rparr>"

definition wf_frame :: "frame \<Rightarrow> bool" where
  "wf_frame f \<longleftrightarrow> length (fr_Payload f) \<le> maxFramePayload \<and> fits64 (unix_micro (fr_Timestamp f))"

lemma length_encodeHeader [simp]: "length (encodeHeader f) = 24"
  by (simp add: encodeHeader_def)

lemma encodeHeader_nonempty [simp]: "encodeHeader f \<noteq> []"
  by (simp add: encodeHeader_def)

lemma length_encodeWithHeader [simp]: "length (encodeWithHeader f) = frame_size f"
  by (simp add: encodeWithHeader_def frame_size_def)

lemma sint_of_micro: "fits64 i \<Longrightarrow> sint (word_of_int i :: 64 word) = i"
  by (simp add: fits64_def min_int64_def max_int64_def signed_take_bit_int_eq_self sint_sbintrunc')

lemma decodeHeader_encode:
  assumes "wf_frame f"
  shows "decodeHeaderWithBuffer (encodeHeader f @ rest, e)
           = Inr ((stored f)\<lparr>fr_Payload := []\<rparr>, length (fr_Payload f), (rest, e))"
proof -
  let ?h = "encodeHeader f"
  have fields: "?h ! 0 = Version" "?h ! 1 = fr_Stream f" "?h ! 2 = fr_Flags f"
    "take 8 (drop 4 ?h) = PutUint 8 (fr_Sequence f)"
    "take 8 (drop 12 ?h) = PutUint 8 (word_of_int (unix_micro (fr_Timestamp f)) :: 64 word)"
    "take 4 (drop 20 ?h) = PutUint 4 (of_nat (length (fr_Payload f)) :: 32 word)"
    by (simp_all add: encodeHeader_def)
  have n: "unat (of_nat (length (fr_Payload f)) :: 32 word) = length (fr_Payload f)"
    using assms by (simp add: wf_frame_def maxFramePayload_def unat_of_nat take_bit_nat_eq_self)
  have "sint (word_of_int (unix_micro (fr_Timestamp f)) :: 64 word) = unix_micro (fr_Timestamp f)"
    using assms by (simp add: wf_frame_def sint_of_micro)
  moreover have "(stored f)\<lparr>fr_Payload := []\<rparr> = \<lparr>fr_Sequence = fr_Sequence f,
      fr_Timestamp = from_micro (unix_micro (fr_Timestamp f)), fr_Stream = fr_Stream f,
      fr_Flags = fr_Flags f, fr_Payload = []\<rparr>"
    by (cases f) (simp add: stored_def)
  ultimately show ?thesis
    using assms n
    by (simp add: decodeHeaderWithBuffer_def ReadFull_def fields fields(2) [unfolded One_nat_def]
        Uint_PutUint_64 Uint_PutUint_32 wf_frame_def Let_def)
qed

lemma decode_encode: "wf_frame f \<Longrightarrow> decode (encodeWithHeader f @ rest, e) = Inr (stored f, (rest, e))"
  by (simp add: decode_def encodeWithHeader_def decodeHeader_encode ReadFull_def stored_def)

text \<open>A frame that is cut short is never taken for a frame or for a clean end.\<close>

definition torn :: "read_error \<Rightarrow> read_error" where
  "torn e = (if e = EOF then UnexpectedEOF else e)"

lemma decode_torn:
  assumes "wf_frame f" "k < frame_size f"
  shows "decode (take k (encodeWithHeader f), e) = Inl (if k = 0 then e else torn e)"
proof (cases "k < 24")
  case True
  then show ?thesis
    by (simp add: decode_def decodeHeaderWithBuffer_def ReadFull_def encodeWithHeader_def torn_def Let_def)
next
  case False
  then have "take k (encodeWithHeader f) = encodeHeader f @ take (k - 24) (fr_Payload f)"
    by (simp add: encodeWithHeader_def)
  moreover have "k - 24 < length (fr_Payload f)" using False assms(2) by (simp add: frame_size_def)
  ultimately show ?thesis
    using False assms(1) by (auto simp: decode_def decodeHeader_encode ReadFull_def torn_def Let_def)
qed

text \<open>The frames that lie wholly within the first \<open>k\<close> bytes.\<close>

fun whole :: "frame list \<Rightarrow> nat \<Rightarrow> frame list" where
  "whole [] k = []"
| "whole (f # fs) k = (if frame_size f \<le> k then f # whole fs (k - frame_size f) else [])"

definition sizes :: "frame list \<Rightarrow> nat" where
  "sizes fs = sum_list (map frame_size fs)"

lemma whole_prefix: "prefix (whole fs k) fs"
  by (induction fs k rule: whole.induct) auto

lemma whole_all: "sizes fs \<le> k \<Longrightarrow> whole fs k = fs"
  by (induction fs k rule: whole.induct) (auto simp: sizes_def)

lemma sizes_whole: "sizes (whole fs k) \<le> k"
  by (induction fs k rule: whole.induct) (auto simp: sizes_def)

lemma whole_maximal: "prefix gs fs \<Longrightarrow> sizes gs \<le> k \<Longrightarrow> prefix gs (whole fs k)"
proof (induction fs k arbitrary: gs rule: whole.induct)
  case (2 f fs k)
  then show ?case by (cases gs) (auto simp: sizes_def)
qed simp

lemma length_concat_encode: "length (concat (map encodeWithHeader fs)) = sizes fs"
  by (induction fs) (auto simp: sizes_def)

lemma decode_all_cut:
  assumes "list_all wf_frame fs" "k \<le> sizes fs"
  shows "decode_all (take k (concat (map encodeWithHeader fs)), e)
    = (map stored (whole fs k),
       if k = sizes (whole fs k) then (if e = EOF then None else Some e) else Some (torn e))"
  using assms
proof (induction fs k rule: whole.induct)
  case (1 k)
  then show ?case
    by (simp add: sizes_def decode_all.simps [of "([], e)"] decode_def decodeHeaderWithBuffer_def ReadFull_def)
next
  case (2 f fs k)
  show ?case
  proof (cases "frame_size f \<le> k")
    case True
    then have "take k (concat (map encodeWithHeader (f # fs)))
        = encodeWithHeader f @ take (k - frame_size f) (concat (map encodeWithHeader fs))"
      by simp
    then show ?thesis
      using 2 True by (subst decode_all.simps) (auto simp: decode_encode sizes_def Let_def split: prod.split)
  next
    case False
    then have "take k (concat (map encodeWithHeader (f # fs))) = take k (encodeWithHeader f)" by simp
    moreover have "decode (take k (encodeWithHeader f), e) = Inl (if k = 0 then e else torn e)"
      using 2 False by (intro decode_torn) auto
    ultimately show ?thesis
      using False by (subst decode_all.simps) (auto simp: sizes_def torn_def)
  qed
qed

lemma decode_all_complete:
  "list_all wf_frame fs \<Longrightarrow> decode_all (concat (map encodeWithHeader fs), EOF) = (map stored fs, None)"
  using decode_all_cut [of fs "sizes fs" EOF] by (simp add: whole_all flip: length_concat_encode)

section \<open>Properties\<close>

text \<open>What the zstd library promises: a complete stream gives back what was compressed, and
  something was written for something.\<close>

definition zstd_ok :: "zstd \<Rightarrow> bool" where
  "zstd_ok z \<longleftrightarrow> (\<forall>bs. zs_reader z (zs_compress z bs) = (bs, EOF) \<and> (bs \<noteq> [] \<longrightarrow> zs_compress z bs \<noteq> []))"

lemma stored_idem [simp]: "stored (stored f) = stored f"
  by (simp add: stored_def from_micro_unix_micro)

lemma stored_sel [simp]:
  "fr_Sequence (stored f) = fr_Sequence f" "fr_Payload (stored f) = fr_Payload f"
  "fr_Stream (stored f) = fr_Stream f" "fr_Flags (stored f) = fr_Flags f"
  by (simp_all add: stored_def)

lemma frame_size_stored [simp]: "frame_size (stored f) = frame_size f"
  by (simp add: frame_size_def)

lemma wf_frame_stored [simp]: "wf_frame (stored f) = wf_frame f"
  by (simp add: wf_frame_def stored_def from_micro_unix_micro)

lemma salvage_encodeFrames:
  assumes "zstd_ok z" "list_all wf_frame fs"
  shows "salvageFrames z (encodeFrames z fs) = (map stored fs, None)"
proof (cases fs)
  case Nil
  have "decode_all ([], EOF) = ([], None)" using decode_all_complete [of "[]"] by simp
  then show ?thesis using assms(1) Nil by (simp add: salvageFrames_def encodeFrames_def zstd_ok_def)
next
  case (Cons f gs)
  then have "concat (map encodeWithHeader fs) \<noteq> []" by (simp add: encodeWithHeader_def)
  then show ?thesis
    using assms by (simp add: salvageFrames_def encodeFrames_def zstd_ok_def decode_all_complete)
qed

text \<open>C32: crash recovery of a log chunk loses only what was not completely written. Whatever
  byte position a chunk was cut at, salvage returns exactly the frames that lie wholly before the
  cut, in order and unchanged but for the instant, which is kept to the microsecond; it reports a
  clean end only for a complete stream that ends at a frame boundary, so a torn frame is never taken
  for a frame or for the end; and what it re-encodes for the archive reads back as the same
  frames.\<close>

theorem salvageFrames_recovers:
  assumes "zstd_ok z" "list_all wf_frame fs" "blob \<noteq> []" "k \<le> sizes fs"
    and "zs_reader z blob = (take k (concat (map encodeWithHeader fs)), e)"
  shows "fst (salvageFrames z blob) = map stored (whole fs k) \<and>
         prefix (whole fs k) fs \<and> sizes (whole fs k) \<le> k \<and>
         (\<forall>gs. prefix gs fs \<and> sizes gs \<le> k \<longrightarrow> prefix gs (whole fs k)) \<and>
         (snd (salvageFrames z blob) = None \<longleftrightarrow> e = EOF \<and> sizes (whole fs k) = k) \<and>
         salvageFrames z (encodeFrames z (fst (salvageFrames z blob))) = (fst (salvageFrames z blob), None)"
proof -
  have cut: "salvageFrames z blob = (map stored (whole fs k),
      if k = sizes (whole fs k) then (if e = EOF then None else Some e) else Some (torn e))"
    using assms by (simp add: salvageFrames_def decode_all_cut)
  have "list_all wf_frame (map stored (whole fs k))"
    using assms(2) set_mono_prefix [OF whole_prefix [of fs k]] by (auto simp: list_all_iff)
  then have "salvageFrames z (encodeFrames z (map stored (whole fs k))) = (map stored (whole fs k), None)"
    using salvage_encodeFrames [OF assms(1), of "map stored (whole fs k)"] by (simp add: comp_def)
  then show ?thesis
    using whole_prefix sizes_whole whole_maximal by (auto simp: cut)
qed

text \<open>An uncompressed codec, and two frames cut in the payload of the second.\<close>

definition plain_zstd :: zstd where
  "plain_zstd = \<lparr>zs_compress = (\<lambda>bs. bs), zs_reader = (\<lambda>bs. (bs, EOF))\<rparr>"

definition hello :: frame where
  "hello = \<lparr>fr_Sequence = 1, fr_Timestamp = from_micro 7, fr_Stream = Stdout, fr_Flags = 0, fr_Payload = [104, 105]\<rparr>"

definition alarm :: frame where
  "alarm = \<lparr>fr_Sequence = 2, fr_Timestamp = from_micro 9, fr_Stream = Stderr, fr_Flags = FlagPartial, fr_Payload = [33, 33, 33]\<rparr>"

theorem salvageFrames_recovers_witness:
  "fst (salvageFrames plain_zstd (take 50 (concat (map encodeWithHeader [hello, alarm])))) = [hello] \<and>
   snd (salvageFrames plain_zstd (take 50 (concat (map encodeWithHeader [hello, alarm])))) \<noteq> None"
proof -
  let ?fs = "[hello, alarm]" and ?blob = "take 50 (concat (map encodeWithHeader [hello, alarm]))"
  have 1: "zstd_ok plain_zstd" by (simp add: zstd_ok_def plain_zstd_def)
  have 2: "list_all wf_frame ?fs"
    by (simp add: wf_frame_def hello_def alarm_def maxFramePayload_def from_micro_unix_micro fits64_def
        min_int64_def max_int64_def)
  have 3: "?blob \<noteq> []" by (simp add: encodeWithHeader_def)
  have 4: "50 \<le> sizes ?fs" by (simp add: sizes_def frame_size_def hello_def alarm_def)
  have 5: "zs_reader plain_zstd ?blob = (take 50 (concat (map encodeWithHeader ?fs)), EOF)"
    by (simp add: plain_zstd_def)
  have "whole ?fs 50 = [hello]" by (simp add: frame_size_def hello_def alarm_def)
  then have "map stored (whole ?fs 50) = [hello]" "sizes (whole ?fs 50) \<noteq> 50"
    by (simp_all add: stored_def hello_def from_micro_unix_micro sizes_def frame_size_def)
  then show ?thesis using salvageFrames_recovers [OF 1 2 3 4 5] by metis
qed

end
