(* ===== verification/Log_DB.thy ===== *)
theory Log_DB
  imports Log_Frame
begin

text \<open>
  The log archive of \<^verbatim>\<open>src/internal/logdb/logdb.go\<close>: the tables of runs and chunks, the
  files of large chunks beside them, archiving, reading in frame order, deletion and pruning.

  A table is the list of its rows in rowid order. A transaction that succeeds is the function; one
  that fails changes nothing (the callers decide what then happens). Frame sequences are kept as
  the unsigned 64-bit numbers of the frames; the driver refuses those from \<open>2 ^ 63\<close> on. The
  page accounting of SQLite (\<^verbatim>\<open>usedBytes\<close>) is a parameter, and so is which files the
  operating system refuses to remove.
\<close>

section \<open>Tables\<close>

record chunk =
  ch_Number :: int
  ch_First :: "64 word"
  ch_Last :: "64 word"
  ch_RawBytes :: int
  ch_Blob :: "byte list"
  ch_FileBytes :: int

record run_chunks =
  rc_RunID :: string
  rc_Job :: string
  rc_Kind :: string
  rc_Chunks :: "chunk list"

record log_run_row =
  lr_run_id :: string
  lr_job :: string
  lr_kind :: string
  lr_created_us :: int
  lr_updated_us :: int

record log_chunk_row =
  lk_run_id :: string
  lk_chunk :: chunk
  lk_archived_us :: int

record log_db =
  lg_runs :: "log_run_row list"
  lg_chunks :: "log_chunk_row list"

text \<open>The archive directory: the files at \<^verbatim>\<open>ChunkPath(run, number)\<close>.\<close>

type_synonym chunk_files = "((string \<times> int) \<times> byte list) list"

record archive =
  ar_db :: log_db
  ar_files :: chunk_files

abbreviation (input) lk_key :: "log_chunk_row \<Rightarrow> string \<times> int" where
  "lk_key r \<equiv> (lk_run_id r, ch_Number (lk_chunk r))"

section \<open>Archiving\<close>

text \<open>\<^verbatim>\<open>COALESCE(NULLIF(excluded.job,''),log_runs.job)\<close> keeps known metadata.\<close>

definition keep_known :: "string \<Rightarrow> string \<Rightarrow> string" where
  "keep_known new old = (if new = '''' then old else new)"

definition put_run :: "string \<Rightarrow> string \<Rightarrow> string \<Rightarrow> int \<Rightarrow> log_run_row list \<Rightarrow> log_run_row list" where
  "put_run runID job kind now rows =
     (if runID \<in> set (map lr_run_id rows)
      then map (\<lambda>r. if lr_run_id r = runID
                    then r\<lparr>lr_job := keep_known job (lr_job r), lr_kind := keep_known kind (lr_kind r),
                           lr_updated_us := now\<rparr> else r) rows
      else rows @ [\<lparr>lr_run_id = runID, lr_job = job, lr_kind = kind, lr_created_us = now, lr_updated_us = now\<rparr>])"

definition put_chunk :: "string \<Rightarrow> int \<Rightarrow> chunk \<Rightarrow> log_chunk_row list \<Rightarrow> log_chunk_row list" where
  "put_chunk runID now c rows =
     (if (runID, ch_Number c) \<in> set (map lk_key rows)
      then map (\<lambda>r. if lk_key r = (runID, ch_Number c) then r\<lparr>lk_chunk := c\<rparr> else r) rows
      else rows @ [\<lparr>lk_run_id = runID, lk_chunk = c, lk_archived_us = now\<rparr>])"

definition putChunks :: "string \<Rightarrow> string \<Rightarrow> string \<Rightarrow> time \<Rightarrow> chunk list \<Rightarrow> log_db \<Rightarrow> log_db" where
  "putChunks runID job kind at chunks b =
     (let now = unix_micro at
      in b\<lparr>lg_runs := put_run runID job kind now (lg_runs b),
           lg_chunks := fold (put_chunk runID now) chunks (lg_chunks b)\<rparr>)"

definition PutChunks :: "string \<Rightarrow> string \<Rightarrow> string \<Rightarrow> time \<Rightarrow> chunk list \<Rightarrow> log_db \<Rightarrow> log_db" where
  "PutChunks runID job kind at chunks b = (if chunks = [] then b else putChunks runID job kind at chunks b)"

definition PutRuns :: "time \<Rightarrow> run_chunks list \<Rightarrow> log_db \<Rightarrow> log_db" where
  "PutRuns at runs b =
     fold (\<lambda>r b. if rc_Chunks r = [] then b
                 else putChunks (rc_RunID r) (rc_Job r) (rc_Kind r) at (rc_Chunks r) b) runs b"

section \<open>Reading in frame order\<close>

text \<open>\<^verbatim>\<open>eachChunkQuery\<close>: the chunk of the run with the least \<^verbatim>\<open>last_seq\<close> beyond
  the cursor.\<close>

definition next_chunk :: "log_db \<Rightarrow> string \<Rightarrow> 64 word \<Rightarrow> chunk option" where
  "next_chunk b runID cursor =
     (case sort_key ch_Last (filter (\<lambda>c. ch_Last c > cursor)
             (map lk_chunk (filter (\<lambda>r. lk_run_id r = runID) (lg_chunks b)))) of
        [] \<Rightarrow> None | c # _ \<Rightarrow> Some c)"

definition run_rows :: "log_db \<Rightarrow> string \<Rightarrow> chunk list" where
  "run_rows b runID = map lk_chunk (filter (\<lambda>r. lk_run_id r = runID) (lg_chunks b))"

lemma next_chunk_Some:
  assumes "next_chunk b runID cursor = Some c"
  shows "c \<in> set (run_rows b runID)" "cursor < ch_Last c"
proof -
  let ?cs = "filter (\<lambda>c. ch_Last c > cursor) (run_rows b runID)"
  from assms obtain rest where "sort_key ch_Last ?cs = c # rest"
    by (auto simp: next_chunk_def run_rows_def split: list.splits)
  then have "c \<in> set (sort_key ch_Last ?cs)" by simp
  then have "c \<in> set ?cs" unfolding set_sort .
  then show "c \<in> set (run_rows b runID)" "cursor < ch_Last c" by simp_all
qed

lemma length_filter_shrinks:
  assumes "\<And>x. Q x \<Longrightarrow> P x" "y \<in> set xs" "P y" "\<not> Q y"
  shows "length (filter Q xs) < length (filter P xs)"
proof -
  have "filter Q xs = filter Q (filter P xs)" using assms(1) by (auto intro: filter_cong)
  then show ?thesis using assms length_filter_less [of y "filter P xs" Q] by simp
qed

text \<open>The callback returns whether to go on, and threads a state.\<close>

function EachChunk :: "log_db \<Rightarrow> string \<Rightarrow> 64 word \<Rightarrow> (chunk \<Rightarrow> 's \<Rightarrow> 'e + (bool \<times> 's)) \<Rightarrow> 's \<Rightarrow> 'e + 's" where
  "EachChunk b runID cursor fn s =
     (case next_chunk b runID cursor of
        None \<Rightarrow> Inr s
      | Some c \<Rightarrow>
          (case fn c s of
             Inl e \<Rightarrow> Inl e
           | Inr (ok, s') \<Rightarrow> if \<not> ok then Inr s' else EachChunk b runID (max cursor (ch_Last c)) fn s'))"
  by pat_completeness auto
termination
proof (relation "measure (\<lambda>(b, runID, cursor, fn, s). length (filter (\<lambda>c. ch_Last c > cursor) (run_rows b runID)))",
    goal_cases)
  case (2 b runID cursor fn s c x ok s')
  have "length (filter (\<lambda>c'. ch_Last c' > max cursor (ch_Last c)) (run_rows b runID)) <
      length (filter (\<lambda>c'. ch_Last c' > cursor) (run_rows b runID))"
    using next_chunk_Some [OF 2(1)] by (intro length_filter_shrinks [of _ _ c]) auto
  then show ?case by simp
qed simp

declare EachChunk.simps [simp del]

section \<open>Deletion and pruning\<close>

text \<open>\<open>stuck\<close> are the files that cannot be removed now.\<close>

definition remove_keys :: "(string \<times> int \<Rightarrow> bool) \<Rightarrow> (string \<times> int) set \<Rightarrow> chunk_files \<Rightarrow> chunk_files" where
  "remove_keys stuck gone fs = filter (\<lambda>f. fst f \<notin> gone \<or> stuck (fst f)) fs"

definition DeleteRuns_db :: "string list \<Rightarrow> log_db \<Rightarrow> log_db" where
  "DeleteRuns_db ids b = b\<lparr>lg_chunks := filter (\<lambda>r. lk_run_id r \<notin> set ids) (lg_chunks b),
     lg_runs := filter (\<lambda>r. lr_run_id r \<notin> set ids) (lg_runs b)\<rparr>"

definition DeleteRuns_log :: "(string \<times> int \<Rightarrow> bool) \<Rightarrow> string list \<Rightarrow> archive \<Rightarrow> archive" where
  "DeleteRuns_log stuck ids a =
     (if ids = [] then a
      else a\<lparr>ar_db := DeleteRuns_db ids (ar_db a),
             ar_files := filter (\<lambda>f. fst (fst f) \<notin> set ids \<or> stuck (fst f)) (ar_files a)\<rparr>)"

text \<open>Rows taken out of the table, and the files among them (\<^verbatim>\<open>scanDeleted\<close>,
  \<^verbatim>\<open>removeFiles\<close>).\<close>

definition delete_rows :: "(string \<times> int \<Rightarrow> bool) \<Rightarrow> log_chunk_row list \<Rightarrow> archive \<Rightarrow> archive" where
  "delete_rows stuck gone a =
     a\<lparr>ar_db := (ar_db a)\<lparr>lg_chunks := filter (\<lambda>r. r \<notin> set gone) (lg_chunks (ar_db a))\<rparr>,
       ar_files := remove_keys stuck (lk_key ` set (filter (\<lambda>r. ch_FileBytes (lk_chunk r) > 0) gone)) (ar_files a)\<rparr>"

definition pruneBatch :: nat where "pruneBatch = 256"

text \<open>The batches of \<^verbatim>\<open>deleteChunks\<close>, each of at most \<^verbatim>\<open>pruneBatch\<close> rows.\<close>

lemma delete_rows_length:
  "set gone \<subseteq> set (lg_chunks (ar_db a)) \<Longrightarrow> gone \<noteq> [] \<Longrightarrow>
     length (lg_chunks (ar_db (delete_rows stuck gone a))) < length (lg_chunks (ar_db a))"
proof -
  assume sub: "set gone \<subseteq> set (lg_chunks (ar_db a))" and "gone \<noteq> []"
  then obtain r where "r \<in> set gone" by (cases gone) auto
  then have "r \<in> set (lg_chunks (ar_db a))" "\<not> r \<notin> set gone" using sub by auto
  then show ?thesis
    using length_filter_less [of r "lg_chunks (ar_db a)" "\<lambda>r. r \<notin> set gone"] by (simp add: delete_rows_def)
qed

function deleteChunks ::
  "(string \<times> int \<Rightarrow> bool) \<Rightarrow> (log_chunk_row \<Rightarrow> bool) \<Rightarrow> archive \<Rightarrow> archive" where
  "deleteChunks stuck sel a =
     (let gone = take pruneBatch (filter sel (lg_chunks (ar_db a)))
      in if length gone < pruneBatch then delete_rows stuck gone a
         else deleteChunks stuck sel (delete_rows stuck gone a))"
  by pat_completeness auto
termination
proof (relation "measure (\<lambda>(stuck, sel, a). length (lg_chunks (ar_db a)))", goal_cases)
  case (2 stuck sel a gone)
  have "set gone \<subseteq> set (lg_chunks (ar_db a))" unfolding 2(1) by (auto dest: in_set_takeD)
  moreover have "gone \<noteq> []" using 2(2) by (auto simp: pruneBatch_def)
  ultimately show ?case using delete_rows_length by simp
qed simp

declare deleteChunks.simps [simp del]

definition deleteEmptyRuns :: "archive \<Rightarrow> archive \<times> nat" where
  "deleteEmptyRuns a =
     (let full = (\<lambda>r. lr_run_id r \<in> lk_run_id ` set (lg_chunks (ar_db a)))
      in (a\<lparr>ar_db := (ar_db a)\<lparr>lg_runs := filter full (lg_runs (ar_db a))\<rparr>\<rparr>,
          length (filter (\<lambda>r. \<not> full r) (lg_runs (ar_db a)))))"

definition Prune :: "(string \<times> int \<Rightarrow> bool) \<Rightarrow> time \<Rightarrow> archive \<Rightarrow> archive \<times> nat" where
  "Prune stuck before a = deleteEmptyRuns (deleteChunks stuck (\<lambda>r. lk_archived_us r < unix_micro before) a)"

definition row_size :: "log_chunk_row \<Rightarrow> int" where
  "row_size r = int (length (ch_Blob (lk_chunk r))) + ch_FileBytes (lk_chunk r)"

fun take_excess :: "int \<Rightarrow> int \<Rightarrow> log_chunk_row list \<Rightarrow> log_chunk_row list" where
  "take_excess freed excess [] = []"
| "take_excess freed excess (r # rs) =
     (if freed < excess then r # take_excess (freed + row_size r) excess rs else [])"

definition oldest_first :: "log_chunk_row list \<Rightarrow> log_chunk_row list" where
  "oldest_first rows = sort_key lk_archived_us rows"

definition deleteOldest :: "(string \<times> int \<Rightarrow> bool) \<Rightarrow> int \<Rightarrow> archive \<Rightarrow> archive \<times> nat" where
  "deleteOldest stuck excess a =
     (let gone = take_excess 0 excess (take pruneBatch (oldest_first (lg_chunks (ar_db a))))
      in (delete_rows stuck gone a, length gone))"

definition fileBytes :: "log_db \<Rightarrow> int" where
  "fileBytes b = sum_list (map (\<lambda>r. ch_FileBytes (lk_chunk r)) (filter (\<lambda>r. ch_FileBytes (lk_chunk r) > 0) (lg_chunks b)))"

lemma set_take_excess: "set (take_excess freed excess rs) \<subseteq> set rs"
  by (induction rs arbitrary: freed) auto

lemma deleteOldest_decreases:
  "deleteOldest stuck excess a = (a', n) \<Longrightarrow> n \<noteq> 0 \<Longrightarrow>
     length (lg_chunks (ar_db a')) < length (lg_chunks (ar_db a))"
proof -
  assume d: "deleteOldest stuck excess a = (a', n)" and "n \<noteq> 0"
  let ?gone = "take_excess 0 excess (take pruneBatch (oldest_first (lg_chunks (ar_db a))))"
  have "set ?gone \<subseteq> set (lg_chunks (ar_db a))"
    using set_take_excess [of 0 excess "take pruneBatch (oldest_first (lg_chunks (ar_db a)))"]
    by (auto simp: oldest_first_def dest!: in_set_takeD subsetD)
  moreover have "?gone \<noteq> []" and "a' = delete_rows stuck ?gone a"
    using d \<open>n \<noteq> 0\<close> by (auto simp: deleteOldest_def Let_def)
  ultimately show ?thesis using delete_rows_length by blast
qed

text \<open>The loop of \<^verbatim>\<open>PruneToSize\<close>; \<open>used\<close> is \<^verbatim>\<open>usedBytes\<close>.\<close>

function prune_loop :: "(string \<times> int \<Rightarrow> bool) \<Rightarrow> (log_db \<Rightarrow> int) \<Rightarrow> int \<Rightarrow> archive \<Rightarrow> archive" where
  "prune_loop stuck used maxBytes a =
     (let total = used (ar_db a) + fileBytes (ar_db a)
      in if total \<le> maxBytes then a
         else let (a', n) = deleteOldest stuck (total - maxBytes) a
              in if n = 0 then a' else prune_loop stuck used maxBytes a')"
  by pat_completeness auto
termination
  by (relation "measure (\<lambda>(stuck, used, maxBytes, a). length (lg_chunks (ar_db a)))")
    (auto dest: deleteOldest_decreases [OF sym])

declare prune_loop.simps [simp del]

definition PruneToSize :: "(string \<times> int \<Rightarrow> bool) \<Rightarrow> (log_db \<Rightarrow> int) \<Rightarrow> int \<Rightarrow> archive \<Rightarrow> archive \<times> nat" where
  "PruneToSize stuck used maxBytes a = deleteEmptyRuns (prune_loop stuck used maxBytes a)"

definition FileChunks :: "log_db \<Rightarrow> string \<Rightarrow> int set" where
  "FileChunks b runID =
     ch_Number ` set (filter (\<lambda>c. ch_FileBytes c > 0) (run_rows b runID))"

definition log_Stats :: "log_db \<Rightarrow> nat \<times> nat \<times> int" where
  "log_Stats b = (length (lg_runs b), length (lg_chunks b), sum_list (map row_size (lg_chunks b)))"

section \<open>Consistency of the archive\<close>

definition log_db_ok :: "log_db \<Rightarrow> bool" where
  "log_db_ok b \<longleftrightarrow> distinct (map lr_run_id (lg_runs b)) \<and> distinct (map lk_key (lg_chunks b)) \<and>
     lk_run_id ` set (lg_chunks b) \<subseteq> lr_run_id ` set (lg_runs b)"

lemma put_run_ids: "map lr_run_id (put_run runID job kind now rows) =
    (if runID \<in> set (map lr_run_id rows) then map lr_run_id rows else map lr_run_id rows @ [runID])"
  by (auto simp: put_run_def intro: map_cong)

lemma put_chunk_keys: "map lk_key (put_chunk runID now c rows) =
    (if (runID, ch_Number c) \<in> set (map lk_key rows) then map lk_key rows
     else map lk_key rows @ [(runID, ch_Number c)])"
proof (cases "(runID, ch_Number c) \<in> set (map lk_key rows)")
  case True
  then have "map lk_key (put_chunk runID now c rows) =
      map (\<lambda>r. lk_key (if lk_key r = (runID, ch_Number c) then r\<lparr>lk_chunk := c\<rparr> else r)) rows"
    by (simp add: put_chunk_def)
  also have "\<dots> = map lk_key rows" by (rule map_cong) auto
  finally show ?thesis using True by simp
qed (simp add: put_chunk_def)

lemma fold_put_chunk_keys:
  "distinct (map lk_key rows) \<Longrightarrow>
     distinct (map lk_key (fold (put_chunk runID now) cs rows)) \<and>
     set (map lk_key (fold (put_chunk runID now) cs rows)) = set (map lk_key rows) \<union> Pair runID ` ch_Number ` set cs"
proof (induction cs arbitrary: rows)
  case (Cons c cs)
  have "distinct (map lk_key (put_chunk runID now c rows))"
    and s: "set (map lk_key (put_chunk runID now c rows)) = insert (runID, ch_Number c) (set (map lk_key rows))"
    using Cons.prems by (simp_all only: put_chunk_keys) auto
  from Cons.IH [OF this(1)] show ?case unfolding s by auto
qed simp

lemma lk_run_ids: "lk_run_id ` set rows = fst ` set (map lk_key rows)"
  by force

lemma putChunks_ok: "log_db_ok b \<Longrightarrow> log_db_ok (putChunks runID job kind at chunks b)"
proof -
  assume ok: "log_db_ok b"
  let ?b = "putChunks runID job kind at chunks b"
  have runs: "distinct (map lr_run_id (lg_runs ?b))"
      "lr_run_id ` set (lg_runs ?b) = insert runID (lr_run_id ` set (lg_runs b))"
    using ok put_run_ids [of runID job kind "unix_micro at" "lg_runs b"]
    by (auto simp: log_db_ok_def putChunks_def Let_def simp flip: set_map)
  have keys: "distinct (map lk_key (lg_chunks ?b))"
      "set (map lk_key (lg_chunks ?b)) = set (map lk_key (lg_chunks b)) \<union> Pair runID ` ch_Number ` set chunks"
    using ok fold_put_chunk_keys [of "lg_chunks b" runID "unix_micro at" chunks]
    by (simp_all add: log_db_ok_def putChunks_def Let_def)
  have "lk_run_id ` set (lg_chunks ?b) \<subseteq> insert runID (lk_run_id ` set (lg_chunks b))"
    unfolding lk_run_ids keys(2) by auto
  also have "\<dots> \<subseteq> lr_run_id ` set (lg_runs ?b)" unfolding runs(2) using ok unfolding log_db_ok_def by blast
  finally show ?thesis using runs(1) keys(1) by (simp add: log_db_ok_def)
qed

lemma PutChunks_ok: "log_db_ok b \<Longrightarrow> log_db_ok (PutChunks runID job kind at chunks b)"
  by (simp add: PutChunks_def putChunks_ok)

lemma PutRuns_ok: "log_db_ok b \<Longrightarrow> log_db_ok (PutRuns at runs b)"
  unfolding PutRuns_def by (induction runs arbitrary: b) (auto intro: putChunks_ok)

lemma DeleteRuns_ok: "log_db_ok b \<Longrightarrow> log_db_ok (DeleteRuns_db ids b)"
  by (auto simp: log_db_ok_def DeleteRuns_db_def filter_map_distinct)

lemma delete_rows_ok: "log_db_ok (ar_db a) \<Longrightarrow> log_db_ok (ar_db (delete_rows stuck gone a))"
  by (auto simp: log_db_ok_def delete_rows_def filter_map_distinct)

lemma deleteChunks_ok: "log_db_ok (ar_db a) \<Longrightarrow> log_db_ok (ar_db (deleteChunks stuck sel a))"
  by (induction stuck sel a rule: deleteChunks.induct)
    (subst deleteChunks.simps, auto simp: Let_def delete_rows_ok)

lemma deleteOldest_ok: "log_db_ok (ar_db a) \<Longrightarrow> deleteOldest stuck x a = (a', n) \<Longrightarrow> log_db_ok (ar_db a')"
  by (auto simp: deleteOldest_def Let_def delete_rows_ok)

lemma prune_loop_ok: "log_db_ok (ar_db a) \<Longrightarrow> log_db_ok (ar_db (prune_loop stuck used m a))"
  by (induction stuck used m a rule: prune_loop.induct)
    (subst prune_loop.simps, auto simp: Let_def deleteOldest_ok split: prod.split)

lemma deleteEmptyRuns_ok: "log_db_ok (ar_db a) \<Longrightarrow> log_db_ok (ar_db (fst (deleteEmptyRuns a)))"
proof -
  assume ok: "log_db_ok (ar_db a)"
  let ?b = "ar_db (fst (deleteEmptyRuns a))"
  have c: "lg_chunks ?b = lg_chunks (ar_db a)" by (simp add: deleteEmptyRuns_def Let_def)
  have "lk_run_id x \<in> lr_run_id ` set (lg_runs ?b)" if x: "x \<in> set (lg_chunks (ar_db a))" for x
  proof -
    obtain r where "r \<in> set (lg_runs (ar_db a))" "lr_run_id r = lk_run_id x"
      using ok x unfolding log_db_ok_def by (metis (no_types, lifting) image_iff subsetD)
    then have "r \<in> set (lg_runs ?b)" using x by (simp add: deleteEmptyRuns_def Let_def)
    then show ?thesis using \<open>lr_run_id r = lk_run_id x\<close> by (metis image_eqI)
  qed
  then show ?thesis using ok by (auto simp: log_db_ok_def c) (simp add: deleteEmptyRuns_def Let_def filter_map_distinct)
qed

text \<open>After pruning every run row has a chunk left.\<close>

lemma deleteEmptyRuns_full:
  "lr_run_id ` set (lg_runs (ar_db (fst (deleteEmptyRuns a)))) \<subseteq> lk_run_id ` set (lg_chunks (ar_db a))"
  by (auto simp: deleteEmptyRuns_def Let_def)

section \<open>Pruning from the oldest end\<close>

lemma delete_rows_set: "set (lg_chunks (ar_db (delete_rows stuck gone a))) = set (lg_chunks (ar_db a)) - set gone"
  by (auto simp: delete_rows_def)

text \<open>Removed rows were archived no later than those kept.\<close>

definition older_removed :: "archive \<Rightarrow> archive \<Rightarrow> bool" where
  "older_removed a a' \<longleftrightarrow> set (lg_chunks (ar_db a')) \<subseteq> set (lg_chunks (ar_db a)) \<and>
     (\<forall>r \<in> set (lg_chunks (ar_db a)) - set (lg_chunks (ar_db a')). \<forall>k \<in> set (lg_chunks (ar_db a')).
        lk_archived_us r \<le> lk_archived_us k)"

lemma older_removed_trans: "older_removed a b \<Longrightarrow> older_removed b c \<Longrightarrow> older_removed a c"
  unfolding older_removed_def by blast

lemma take_excess_prefix: "prefix (take_excess freed excess rs) rs"
  by (induction rs arbitrary: freed) auto

lemma sorted_prefix_le:
  assumes "sorted (map f xs)" "prefix gs xs" "r \<in> set gs" "k \<in> set xs" "k \<notin> set gs"
  shows "f r \<le> f k"
  using assms by (auto simp: prefix_def sorted_append)

lemma deleteOldest_older:
  assumes "deleteOldest stuck excess a = (a', n)"
  shows "older_removed a a'"
proof -
  let ?rows = "oldest_first (lg_chunks (ar_db a))"
  let ?gone = "take_excess 0 excess (take pruneBatch ?rows)"
  have a': "a' = delete_rows stuck ?gone a" using assms by (simp add: deleteOldest_def Let_def)
  have pre: "prefix ?gone ?rows"
    using take_excess_prefix take_is_prefix prefix_order.trans by blast
  have "lk_archived_us r \<le> lk_archived_us k"
    if "r \<in> set ?gone" "k \<in> set (lg_chunks (ar_db a))" "k \<notin> set ?gone" for r k
    using sorted_prefix_le [OF _ pre that(1) _ that(3), of lk_archived_us] that(2) by (simp add: oldest_first_def)
  then show ?thesis unfolding older_removed_def a' delete_rows_set by blast
qed

lemma prune_loop_older: "older_removed a (prune_loop stuck used m a)"
proof (induction stuck used m a rule: prune_loop.induct)
  case (1 stuck used m a)
  let ?t = "used (ar_db a) + fileBytes (ar_db a)"
  obtain a' n where d: "deleteOldest stuck (?t - m) a = (a', n)" by fastforce
  note step = prune_loop.simps [of stuck used m a, unfolded Let_def d prod.case]
  consider "?t \<le> m" | "\<not> ?t \<le> m" "n = 0" | "\<not> ?t \<le> m" "n \<noteq> 0" by blast
  then show ?case
  proof cases
    case 1
    then show ?thesis unfolding step by (simp add: older_removed_def)
  next
    case 2
    then show ?thesis using deleteOldest_older [OF d] unfolding step by simp
  next
    case 3
    then have "older_removed a' (prune_loop stuck used m a')" by (intro "1" [OF refl _ d [symmetric] refl])
    then have "older_removed a (prune_loop stuck used m a')"
      by (rule older_removed_trans [OF deleteOldest_older [OF d]])
    then show ?thesis using 3 unfolding step by simp
  qed
qed

lemma prune_loop_fits:
  "used (ar_db (prune_loop stuck used m a)) + fileBytes (ar_db (prune_loop stuck used m a)) \<le> m \<or>
   lg_chunks (ar_db (prune_loop stuck used m a)) = []"
proof (induction stuck used m a rule: prune_loop.induct)
  case (1 stuck used m a)
  let ?t = "used (ar_db a) + fileBytes (ar_db a)"
  obtain a' n where d: "deleteOldest stuck (?t - m) a = (a', n)" by fastforce
  show ?case
  proof (cases "?t \<le> m")
    case True
    then show ?thesis by (subst prune_loop.simps, subst (2) prune_loop.simps, subst (3) prune_loop.simps) (simp add: Let_def)
  next
    case False
    have "lg_chunks (ar_db a') = []" if "n = 0"
    proof -
      have "take_excess 0 (?t - m) (take pruneBatch (oldest_first (lg_chunks (ar_db a)))) = []"
        using d that by (simp add: deleteOldest_def Let_def)
      then have "lg_chunks (ar_db a) = []"
        using False by (cases "oldest_first (lg_chunks (ar_db a))")
          (auto simp: pruneBatch_def oldest_first_def dest: arg_cong [of _ _ length])
      then show ?thesis using d by (auto simp: deleteOldest_def delete_rows_def Let_def)
    qed
    then show ?thesis
      using 1 [OF refl False d [symmetric] refl] False
      by (auto simp: Let_def d prune_loop.simps [of stuck used m a])
  qed
qed

text \<open>The last round and the last chunk it removed: \<open>b\<close> is the archive of that round, whose measured size is still over the
  budget after the chunks \<open>gone\<close>, so that \<open>r\<close> had to follow them.\<close>

definition last_needed ::
  "(log_db \<Rightarrow> int) \<Rightarrow> int \<Rightarrow> archive \<Rightarrow> archive \<Rightarrow> log_chunk_row list \<Rightarrow> log_chunk_row \<Rightarrow> archive \<Rightarrow> bool" where
  "last_needed used m a b gone r a' \<longleftrightarrow> older_removed a b \<and>
     r \<in> set (lg_chunks (ar_db b)) \<and> r \<notin> set gone \<and> set gone \<subseteq> set (lg_chunks (ar_db b)) \<and> distinct gone \<and>
     lg_chunks (ar_db a') = filter (\<lambda>x. x \<notin> set gone \<and> x \<noteq> r) (lg_chunks (ar_db b)) \<and>
     (\<forall>x \<in> set (lg_chunks (ar_db a)) - set (lg_chunks (ar_db a')). lk_archived_us x \<le> lk_archived_us r) \<and>
     m < used (ar_db b) + fileBytes (ar_db b) - sum_list (map row_size gone)"

lemma take_excess_last: "take_excess freed excess rs = gs @ [r] \<Longrightarrow> freed + sum_list (map row_size gs) < excess"
proof (induction rs arbitrary: freed gs)
  case (Cons x rs)
  then show ?case by (cases gs) (fastforce split: if_splits)+
qed simp

lemma deleteOldest_needed:
  assumes d: "deleteOldest stuck (used (ar_db a) + fileBytes (ar_db a) - m) a = (a', n)" "n \<noteq> 0" and dist: "distinct (lg_chunks (ar_db a))"
  shows "\<exists>gone r. last_needed used m a a gone r a'"
proof -
  let ?rows = "take pruneBatch (oldest_first (lg_chunks (ar_db a)))"
  let ?gone = "take_excess 0 (used (ar_db a) + fileBytes (ar_db a) - m) ?rows"
  have a': "a' = delete_rows stuck ?gone a" and "?gone \<noteq> []" using d by (auto simp: deleteOldest_def Let_def)
  then obtain gs r where gs: "?gone = gs @ [r]" by (metis append_butlast_last_id)
  have pre: "prefix (gs @ [r]) (oldest_first (lg_chunks (ar_db a)))"
    using take_excess_prefix [of 0 _ ?rows] take_is_prefix prefix_order.trans gs by metis
  then obtain zs where zs: "oldest_first (lg_chunks (ar_db a)) = gs @ r # zs" by (auto simp: prefix_def)
  have "sorted (map lk_archived_us (gs @ r # zs))" "distinct (gs @ r # zs)" "set (gs @ r # zs) = set (lg_chunks (ar_db a))"
    using dist unfolding zs [symmetric] oldest_first_def by simp_all
  then have parts: "\<forall>g\<in>set gs. lk_archived_us g \<le> lk_archived_us r" "distinct gs" "r \<notin> set gs"
    "r \<in> set (lg_chunks (ar_db a))" "set gs \<subseteq> set (lg_chunks (ar_db a))"
    by (auto simp: sorted_append)
  have left: "lg_chunks (ar_db a') = filter (\<lambda>x. x \<notin> set gs \<and> x \<noteq> r) (lg_chunks (ar_db a))"
    unfolding a' gs by (auto simp: delete_rows_def intro: filter_cong)
  then have "lk_archived_us x \<le> lk_archived_us r" if "x \<in> set (lg_chunks (ar_db a)) - set (lg_chunks (ar_db a'))" for x
    using that parts(1) by auto
  then have "last_needed used m a a gs r a'"
    using take_excess_last [OF gs] parts left unfolding last_needed_def by (simp add: older_removed_def)
  then show ?thesis by blast
qed

lemma last_needed_before:
  assumes "older_removed a a1" "last_needed used m a1 b gone r a'"
  shows "last_needed used m a b gone r a'"
proof -
  have "lk_archived_us x \<le> lk_archived_us r" if "x \<in> set (lg_chunks (ar_db a)) - set (lg_chunks (ar_db a'))" for x
  proof (cases "x \<in> set (lg_chunks (ar_db a1))")
    case True
    then show ?thesis using that assms(2) by (auto simp: last_needed_def)
  next
    case False
    moreover have "r \<in> set (lg_chunks (ar_db a1))" using assms(2) by (auto simp: last_needed_def older_removed_def)
    ultimately show ?thesis using that assms(1) by (auto simp: older_removed_def)
  qed
  then show ?thesis using assms older_removed_trans unfolding last_needed_def by blast
qed

lemma prune_loop_needed:
  "distinct (lg_chunks (ar_db a)) \<Longrightarrow> lg_chunks (ar_db (prune_loop stuck used m a)) \<noteq> lg_chunks (ar_db a) \<Longrightarrow>
   \<exists>b gone r. last_needed used m a b gone r (prune_loop stuck used m a)"
proof (induction stuck used m a rule: prune_loop.induct)
  case (1 stuck used m a)
  let ?t = "used (ar_db a) + fileBytes (ar_db a)"
  obtain a1 n where d: "deleteOldest stuck (?t - m) a = (a1, n)" by fastforce
  note step = prune_loop.simps [of stuck used m a, unfolded Let_def d prod.case]
  have over: "\<not> ?t \<le> m" using "1.prems"(2) step by auto
  have chunks: "lg_chunks (ar_db a1) = lg_chunks (ar_db a)" if "n = 0"
    using d that by (auto simp: deleteOldest_def delete_rows_def Let_def)
  have n: "n \<noteq> 0"
  proof
    assume "n = 0"
    then show False using "1.prems"(2) step over chunks by simp
  qed
  then have p: "prune_loop stuck used m a = prune_loop stuck used m a1" using step over by simp
  obtain gone r where one: "last_needed used m a a gone r a1" using deleteOldest_needed [where used = used, OF d n "1.prems"(1)] by blast
  show ?case
  proof (cases "lg_chunks (ar_db (prune_loop stuck used m a1)) = lg_chunks (ar_db a1)")
    case True
    have "last_needed used m a a gone r (prune_loop stuck used m a1)" using one unfolding last_needed_def True .
    then show ?thesis unfolding p by blast
  next
    case False
    have "distinct (lg_chunks (ar_db a1))" using one "1.prems"(1) by (simp add: last_needed_def)
    then obtain b gone r where "last_needed used m a1 b gone r (prune_loop stuck used m a1)"
      using "1.IH" [OF refl over d [symmetric] refl n] False by blast
    then show ?thesis unfolding p using last_needed_before [OF deleteOldest_older [OF d]] by blast
  qed
qed

section \<open>Properties\<close>

text \<open>C33: the size budget of the archive is enforced from the oldest end and takes no more than it must.  Pruning ends, and
  then either the archive fits its budget or no chunk is left.  What was removed was archived no later than anything that is kept.  If
  something was removed, then the last chunk that went, none of the removed ones being newer, was needed: the size measured
  in the last round, less the bytes of the chunks removed before it in that round, was still over the budget.  Chunk keys stay unique,
  every chunk keeps its run row, and a run row goes exactly when its last chunk is gone.\<close>

theorem PruneToSize_oldest_first:
  assumes "log_db_ok (ar_db a)" "PruneToSize stuck used maxBytes a = (a', n)"
  shows "log_db_ok (ar_db a') \<and> older_removed a a' \<and>
         lr_run_id ` set (lg_runs (ar_db a')) = lk_run_id ` set (lg_chunks (ar_db a')) \<and>
         (let p = prune_loop stuck used maxBytes a
          in lg_chunks (ar_db a') = lg_chunks (ar_db p) \<and>
             (used (ar_db p) + fileBytes (ar_db p) \<le> maxBytes \<or> lg_chunks (ar_db a') = [])) \<and>
         (lg_chunks (ar_db a') \<noteq> lg_chunks (ar_db a) \<longrightarrow> (\<exists>b gone r. last_needed used maxBytes a b gone r a'))"
proof -
  let ?p = "prune_loop stuck used maxBytes a"
  have a': "a' = fst (deleteEmptyRuns ?p)" using assms(2) by (simp add: PruneToSize_def)
  have chunks: "lg_chunks (ar_db a') = lg_chunks (ar_db ?p)" by (simp add: a' deleteEmptyRuns_def Let_def)
  have ok: "log_db_ok (ar_db a')" unfolding a' by (intro deleteEmptyRuns_ok prune_loop_ok assms(1))
  have older: "older_removed a a'"
    using prune_loop_older [of a stuck used maxBytes] unfolding older_removed_def chunks .
  have sub: "lr_run_id ` set (lg_runs (ar_db a')) \<subseteq> lk_run_id ` set (lg_chunks (ar_db a'))"
    using deleteEmptyRuns_full [of ?p] unfolding a' [symmetric] chunks .
  then have runs: "lr_run_id ` set (lg_runs (ar_db a')) = lk_run_id ` set (lg_chunks (ar_db a'))"
    using ok by (auto simp: log_db_ok_def)
  have "distinct (lg_chunks (ar_db a))" using assms(1) by (simp add: log_db_ok_def distinct_map)
  then have "\<exists>b gone r. last_needed used maxBytes a b gone r a'" if "lg_chunks (ar_db a') \<noteq> lg_chunks (ar_db a)"
    using prune_loop_needed [of a stuck used maxBytes] that chunks unfolding last_needed_def by simp
  then show ?thesis using ok older runs chunks prune_loop_fits [of used stuck maxBytes a] by (simp add: Let_def)
qed

text \<open>Two archived chunks, of which the budget has room for one.\<close>

definition small_chunk :: "int \<Rightarrow> chunk" where
  "small_chunk n = \<lparr>ch_Number = n, ch_First = 1, ch_Last = 2, ch_RawBytes = 50, ch_Blob = [1, 2, 3], ch_FileBytes = 0\<rparr>"

definition small_archive :: archive where
  "small_archive = \<lparr>ar_db = PutChunks ''r2'' ''job'' ''job'' (from_micro 20) [small_chunk 1]
     (PutChunks ''r1'' ''job'' ''job'' (from_micro 10) [small_chunk 1] \<lparr>lg_runs = [], lg_chunks = []\<rparr>), ar_files = []\<rparr>"

definition blob_pages :: "log_db \<Rightarrow> int" where
  "blob_pages b = sum_list (map row_size (lg_chunks b))"

theorem PruneToSize_oldest_first_witness:
  "map lr_run_id (lg_runs (ar_db (fst (PruneToSize (\<lambda>_. False) blob_pages 4 small_archive)))) = [''r2''] \<and>
   older_removed small_archive (fst (PruneToSize (\<lambda>_. False) blob_pages 4 small_archive))"
proof -
  have "log_db_ok (ar_db small_archive)" by code_simp
  moreover obtain a' n where "PruneToSize (\<lambda>_. False) blob_pages 4 small_archive = (a', n)" by fastforce
  moreover have "map lr_run_id (lg_runs (ar_db (fst (PruneToSize (\<lambda>_. False) blob_pages 4 small_archive)))) = [''r2'']"
    by code_simp
  ultimately show ?thesis using PruneToSize_oldest_first by (metis fst_conv)
qed

end
