(* ===== verification/Log_Read.thy ===== *)
theory Log_Read
  imports Log_DB
begin

text \<open>
  Reading a run's log, \<^verbatim>\<open>readContext\<close> and \<^verbatim>\<open>RawContext\<close> of
  \<^verbatim>\<open>src/internal/logstore/logstore.go\<close>: pages of frames merged from the archive database,
  its chunk files and the buffer directory.

  The run lock keeps the layout unchanged during one page, so a page is a function of it. The end
  of the caller's context, which ends a read with an error and changes nothing, is left out.
\<close>

section \<open>The tiers of a run\<close>

record chunkMeta =
  cm_Number :: int
  cm_First :: "64 word"
  cm_Last :: "64 word"
  cm_Bytes :: int
  cm_Raw :: int
  cm_Archived :: bool

record log_index =
  ix_Job :: string
  ix_Kind :: string
  ix_Version :: int
  ix_Chunks :: "chunkMeta list"
  ix_Final :: bool
  ix_Truncated :: bool
  ix_DroppedFrames :: int
  ix_DroppedBytes :: int
  ix_SyncFailures :: int

text \<open>A buffer directory: its chunk files by number, and what its index decodes to if it has a
  readable one.\<close>

record run_buffer =
  rb_files :: "(int \<times> byte list) list"
  rb_index :: "log_index option"

record log_tiers =
  lt_archive :: "archive option"
  lt_buffer :: run_buffer

definition chunkFiles :: "run_buffer \<Rightarrow> (int \<times> byte list) list" where
  "chunkFiles rb = sort_key fst (filter (\<lambda>f. fst f > 0) (rb_files rb))"

definition openFileChunk :: "archive \<Rightarrow> run_buffer \<Rightarrow> string \<Rightarrow> int \<Rightarrow> byte list option" where
  "openFileChunk a rb runID number =
     (case map_of (ar_files a) (runID, number) of
        Some blob \<Rightarrow> Some blob
      | None \<Rightarrow> map_of (rb_files rb) number)"

section \<open>One page\<close>

record read_state =
  rs_out :: "frame list"
  rs_last :: "64 word"
  rs_bytes :: nat

definition appendFrame :: "nat \<Rightarrow> nat \<Rightarrow> frame \<Rightarrow> read_state \<Rightarrow> bool \<times> read_state" where
  "appendFrame limit maxBytes f st =
     (if fr_Sequence f \<le> rs_last st then (True, st)
      else if rs_out st \<noteq> [] \<and> rs_bytes st + length (fr_Payload f) + 24 > maxBytes then (False, st)
      else
        let st' = st\<lparr>rs_out := rs_out st @ [f], rs_bytes := rs_bytes st + length (fr_Payload f) + 24,
                     rs_last := fr_Sequence f\<rparr>
        in (length (rs_out st') < limit \<and> rs_bytes st' < maxBytes, st'))"

definition cut_short :: "read_error \<Rightarrow> bool" where
  "cut_short e \<longleftrightarrow> e = EOF \<or> e = UnexpectedEOF"

text \<open>Frames at or before the cursor are skipped without reading them into memory; a frame that
  does not fit is left before its payload is read.\<close>

function consume :: "nat \<Rightarrow> nat \<Rightarrow> reader \<Rightarrow> read_state \<Rightarrow> read_error + (bool \<times> read_state)" where
  "consume limit maxBytes src st =
     (case decodeHeaderWithBuffer src of
        Inl e \<Rightarrow> if cut_short e then Inr (True, st) else Inl e
      | Inr (f, n, rest) \<Rightarrow>
          if fr_Sequence f \<le> rs_last st then
            (if n \<le> length (fst rest) then consume limit maxBytes (drop n (fst rest), snd rest) st
             else if cut_short (snd rest) then Inr (True, st) else Inl (snd rest))
          else if rs_out st \<noteq> [] \<and> rs_bytes st + n + 24 > maxBytes then Inr (False, st)
          else
            (case ReadFull n rest of
               Inl e \<Rightarrow> if cut_short e then Inr (True, st) else Inl e
             | Inr (payload, rest') \<Rightarrow>
                 let (go, st') = appendFrame limit maxBytes (f\<lparr>fr_Payload := payload\<rparr>) st
                 in if \<not> go then Inr (False, st') else consume limit maxBytes rest' st'))"
  by pat_completeness auto
termination
  by (relation "measure (\<lambda>(limit, maxBytes, src, st). length (fst src))")
    (auto dest!: decodeHeader_length ReadFull_length)

declare consume.simps [simp del]

text \<open>The archived chunks, through \<open>EachChunk\<close>; the state carries \<^verbatim>\<open>more\<close>.\<close>

definition archived_chunk ::
  "zstd \<Rightarrow> nat \<Rightarrow> nat \<Rightarrow> archive \<Rightarrow> run_buffer \<Rightarrow> string \<Rightarrow> chunk \<Rightarrow> bool \<times> read_state
   \<Rightarrow> read_error + (bool \<times> bool \<times> read_state)" where
  "archived_chunk z limit maxBytes a rb runID c s =
     (let blob = (if ch_FileBytes c > 0 then openFileChunk a rb runID (ch_Number c) else Some (ch_Blob c))
      in case blob of
           None \<Rightarrow> Inr (True, s)
         | Some b \<Rightarrow>
             (case consume limit maxBytes (zs_reader z b) (snd s) of
                Inl e \<Rightarrow> Inl e
              | Inr (go, st) \<Rightarrow> Inr (go, go, st)))"

text \<open>What the index says of the last frame of each sealed chunk.\<close>

definition sealedLast :: "run_buffer \<Rightarrow> 64 word \<Rightarrow> int \<Rightarrow> 64 word option" where
  "sealedLast rb after number =
     (case rb_index rb of
        None \<Rightarrow> None
      | Some idx \<Rightarrow>
          if after > 0 \<and> length (chunkFiles rb) > 1 \<and> ix_Version idx = 1
          then map_of (rev (map (\<lambda>m. (cm_Number m, cm_Last m))
                 (filter (\<lambda>m. cm_Number m > 0 \<and> cm_First m > 0 \<and> cm_Last m \<ge> cm_First m) (ix_Chunks idx)))) number
          else None)"

fun buffer_chunks ::
  "zstd \<Rightarrow> nat \<Rightarrow> nat \<Rightarrow> (int \<Rightarrow> 64 word option) \<Rightarrow> 64 word \<Rightarrow> (int \<times> byte list) list \<Rightarrow> read_state
   \<Rightarrow> read_error + (bool \<times> read_state)" where
  "buffer_chunks z limit maxBytes sealed after [] st = Inr (True, st)"
| "buffer_chunks z limit maxBytes sealed after ((number, blob) # fs) st =
     (if (case sealed number of None \<Rightarrow> False | Some lst \<Rightarrow> lst \<le> after)
      then buffer_chunks z limit maxBytes sealed after fs st
      else case consume limit maxBytes (zs_reader z blob) st of
             Inl e \<Rightarrow> Inl e
           | Inr (go, st') \<Rightarrow>
               if \<not> go then Inr (False, st') else buffer_chunks z limit maxBytes sealed after fs st')"

definition readContext ::
  "zstd \<Rightarrow> log_tiers \<Rightarrow> string \<Rightarrow> 64 word \<Rightarrow> int \<Rightarrow> nat \<Rightarrow> read_error + frame list" where
  "readContext z t runID after limit maxBytes =
     (let lim = nat (min (max limit 1) 5000);
          rb = lt_buffer t;
          st0 = \<lparr>rs_out = [], rs_last = after, rs_bytes = 0\<rparr>;
          db = (case lt_archive t of
                  None \<Rightarrow> Inr (True, st0)
                | Some a \<Rightarrow> EachChunk (ar_db a) runID after (archived_chunk z lim maxBytes a rb runID) (True, st0))
      in case db of
           Inl e \<Rightarrow> Inl e
         | Inr (go, st) \<Rightarrow>
             if \<not> go then Inr (rs_out st)
             else (case buffer_chunks z lim maxBytes (sealedLast rb after) after (chunkFiles rb) st of
                     Inl e \<Rightarrow> Inl e
                   | Inr (_, st') \<Rightarrow> Inr (rs_out st')))"

definition ReadContext :: "zstd \<Rightarrow> log_tiers \<Rightarrow> string \<Rightarrow> 64 word \<Rightarrow> int \<Rightarrow> read_error + frame list" where
  "ReadContext z t runID after limit = readContext z t runID after limit 16777216"

definition ReadStreamContext :: "zstd \<Rightarrow> log_tiers \<Rightarrow> string \<Rightarrow> 64 word \<Rightarrow> int \<Rightarrow> read_error + frame list" where
  "ReadStreamContext z t runID after limit = readContext z t runID after limit 1048576"

section \<open>The whole log as text\<close>

definition bytes_of :: "string \<Rightarrow> byte list" where
  "bytes_of s = map (\<lambda>c. of_nat (of_char c)) s"

definition raw_line :: "frame \<Rightarrow> byte list" where
  "raw_line f = (if fr_Stream f = Stderr then bytes_of ''[err] '' else []) @
     (if fr_Stream f = System then bytes_of ''[minicron] '' else []) @ fr_Payload f @ [10]"

text \<open>The loop of \<^verbatim>\<open>RawContext\<close> on an unchanging layout; a loop that never ends would be
  \<open>None\<close>.\<close>

partial_function (option) raw_loop ::
  "zstd \<Rightarrow> log_tiers \<Rightarrow> string \<Rightarrow> 64 word \<Rightarrow> byte list \<Rightarrow> (read_error + byte list) option" where
  "raw_loop z t runID after w =
     (case readContext z t runID after 5000 4194304 of
        Inl e \<Rightarrow> Some (Inl e)
      | Inr frames \<Rightarrow>
          if frames = [] then Some (Inr w)
          else raw_loop z t runID (fr_Sequence (last frames)) (w @ concat (map raw_line frames)))"

definition RawContext :: "zstd \<Rightarrow> log_tiers \<Rightarrow> string \<Rightarrow> (read_error + byte list) option" where
  "RawContext z t runID = raw_loop z t runID 0 []"

section \<open>A page of decoded frames\<close>

text \<open>The frames a stream shows, and whether it ends cleanly or in a torn frame (what a crash
  leaves, and what a chunk being written looks like).\<close>

definition frames_of :: "reader \<Rightarrow> frame list" where
  "frames_of r = fst (decode_all r)"

definition readable :: "reader \<Rightarrow> bool" where
  "readable r \<longleftrightarrow> snd (decode_all r) \<in> {None, Some UnexpectedEOF}"

lemma decode_all_header:
  "decodeHeaderWithBuffer r = Inl e \<Longrightarrow> decode_all r = ([], if e = EOF then None else Some e)"
  "decodeHeaderWithBuffer r = Inr (f, n, bs, e) \<Longrightarrow> n \<le> length bs \<Longrightarrow>
     decode_all r = (f\<lparr>fr_Payload := take n bs\<rparr> # fst (decode_all (drop n bs, e)), snd (decode_all (drop n bs, e)))"
  "decodeHeaderWithBuffer r = Inr (f, n, bs, e) \<Longrightarrow> \<not> n \<le> length bs \<Longrightarrow> decode_all r = ([], Some (torn e))"
  by (simp_all add: decode_all.simps [of r] decode_def ReadFull_def torn_def Let_def split: prod.split)

text \<open>The same page on frames that are already decoded.\<close>

fun page :: "nat \<Rightarrow> nat \<Rightarrow> read_state \<Rightarrow> frame list \<Rightarrow> bool \<times> read_state" where
  "page l m st [] = (True, st)"
| "page l m st (f # fs) = (case appendFrame l m f st of (go, st') \<Rightarrow> if go then page l m st' fs else (False, st'))"

lemma consume_header:
  "decodeHeaderWithBuffer r = Inl e \<Longrightarrow> consume l m r st = (if cut_short e then Inr (True, st) else Inl e)"
  by (simp add: consume.simps [of l m r st])

lemma consume_frame:
  assumes "decodeHeaderWithBuffer r = Inr (f, n, bs, e)" "n \<le> length bs"
  shows "consume l m r st = (case appendFrame l m (f\<lparr>fr_Payload := take n bs\<rparr>) st of
    (go, st') \<Rightarrow> if go then consume l m (drop n bs, e) st' else Inr (False, st'))"
  using assms by (cases "rs_out st") (simp_all add: consume.simps [of l m r st] appendFrame_def ReadFull_def Let_def)

lemma consume_torn:
  assumes "decodeHeaderWithBuffer r = Inr (f, n, bs, e)" "\<not> n \<le> length bs"
  shows "consume l m r st = Inr (False, st) \<and> rs_out st \<noteq> [] \<or>
         consume l m r st = (if cut_short e then Inr (True, st) else Inl e)"
  using assms by (auto simp: consume.simps [of l m r st] ReadFull_def cut_short_def)

text \<open>A page stops early only when it has frames.\<close>

lemma consume_page:
  "consume l m r st = Inr (b, st') \<Longrightarrow>
     page l m st (frames_of r) = (b, st') \<or> page l m st (frames_of r) = (True, st') \<and> \<not> b \<and> rs_out st' \<noteq> []"
proof (induction "length (fst r)" arbitrary: r st rule: less_induct)
  case less
  show ?case
  proof (cases "decodeHeaderWithBuffer r")
    case (Inl e)
    then show ?thesis
      using less.prems consume_header [OF Inl, of l m st] decode_all_header(1) [OF Inl]
      by (auto simp: frames_of_def split: if_splits)
  next
    case (Inr x)
    then obtain f n bs e where h: "decodeHeaderWithBuffer r = Inr (f, n, bs, e)" by (cases x) auto
    show ?thesis
    proof (cases "n \<le> length bs")
      case True
      let ?g = "f\<lparr>fr_Payload := take n bs\<rparr>"
      have fr: "frames_of r = ?g # frames_of (drop n bs, e)"
        using decode_all_header(2) [OF h True] by (simp add: frames_of_def)
      obtain go st1 where ap: "appendFrame l m ?g st = (go, st1)" by fastforce
      have "length (fst (drop n bs, e)) < length (fst r)" using decodeHeader_length [OF h] by simp
      then show ?thesis
        using less consume_frame [OF h True, of l m st] by (cases go) (auto simp: fr ap)
    next
      case False
      then show ?thesis
        using less.prems consume_torn [OF h False, of l m st] decode_all_header(3) [OF h False]
        by (auto simp: frames_of_def split: if_splits)
    qed
  qed
qed

lemma consume_readable: "readable r \<Longrightarrow> \<exists>b st'. consume l m r st = Inr (b, st')"
proof (induction "length (fst r)" arbitrary: r st rule: less_induct)
  case less
  show ?case
  proof (cases "decodeHeaderWithBuffer r")
    case (Inl e)
    then show ?thesis
      using less.prems consume_header [OF Inl, of l m st] decode_all_header(1) [OF Inl]
      by (auto simp: readable_def cut_short_def split: if_splits)
  next
    case (Inr x)
    then obtain f n bs e where h: "decodeHeaderWithBuffer r = Inr (f, n, bs, e)" by (cases x) auto
    show ?thesis
    proof (cases "n \<le> length bs")
      case True
      have "length (fst (drop n bs, e)) < length (fst r)" using decodeHeader_length [OF h] by simp
      moreover have "readable (drop n bs, e)" using less.prems decode_all_header(2) [OF h True] by (simp add: readable_def)
      ultimately show ?thesis
        using less.hyps consume_frame [OF h True, of l m st]
        by (auto split: prod.split)
    next
      case False
      then show ?thesis
        using less.prems consume_torn [OF h False, of l m st] decode_all_header(3) [OF h False]
        by (auto simp: readable_def torn_def cut_short_def split: if_splits)
    qed
  qed
qed

section \<open>Merging the tiers\<close>

text \<open>The frames beyond the cursor, each number once: a frame that is still in the buffer after
  its chunk was archived is not repeated.\<close>

fun merged :: "64 word \<Rightarrow> frame list \<Rightarrow> frame list" where
  "merged a [] = []"
| "merged a (f # fs) = (if fr_Sequence f \<le> a then merged a fs else f # merged (fr_Sequence f) fs)"

definition cursor_after :: "64 word \<Rightarrow> frame list \<Rightarrow> 64 word" where
  "cursor_after a fs = (if fs = [] then a else fr_Sequence (last fs))"

lemma merged_append: "merged a (xs @ ys) = merged a xs @ merged (cursor_after a (merged a xs)) ys"
  by (induction a xs rule: merged.induct) (auto simp: cursor_after_def)

lemma merged_increasing: "sorted_wrt (<) (a # map fr_Sequence (merged a fs))"
proof (induction a fs rule: merged.induct)
  case (2 a f fs)
  then show ?case by (cases "fr_Sequence f \<le> a") (auto simp: not_le intro: less_trans)
qed simp

lemma cursor_after_ge: "a \<le> cursor_after a (take k (merged a fs))"
proof (cases "take k (merged a fs) = []")
  case False
  then have "last (take k (merged a fs)) \<in> set (merged a fs)" using last_in_set in_set_takeD by metis
  then have "a < fr_Sequence (last (take k (merged a fs)))" using merged_increasing [of a fs] by simp
  then show ?thesis by (simp add: cursor_after_def less_imp_le)
qed (simp add: cursor_after_def)

lemma merged_skip: "(\<And>f. f \<in> set xs \<Longrightarrow> fr_Sequence f \<le> a) \<Longrightarrow> merged a xs = []"
  by (induction xs) auto

lemma merged_resume: "merged (cursor_after a (take k (merged a fs))) fs = drop k (merged a fs)"
proof (induction a fs arbitrary: k rule: merged.induct)
  case (2 a f fs)
  show ?case
  proof (cases "fr_Sequence f \<le> a")
    case True
    then have "fr_Sequence f \<le> cursor_after a (take k (merged a fs))"
      using cursor_after_ge [of a k fs] by (rule order_trans)
    then show ?thesis using 2(1) [OF True, of k] True by simp
  next
    case f: False
    show ?thesis
    proof (cases k)
      case 0
      then show ?thesis using f by (simp add: cursor_after_def)
    next
      case k: (Suc j)
      have c: "cursor_after a (take k (merged a (f # fs))) = cursor_after (fr_Sequence f) (take j (merged (fr_Sequence f) fs))"
        using k f by (auto simp: cursor_after_def)
      have "fr_Sequence f \<le> cursor_after (fr_Sequence f) (take j (merged (fr_Sequence f) fs))"
        by (rule cursor_after_ge)
      then show ?thesis using 2(2) [OF f, of j] c k f by simp
    qed
  qed
qed (simp add: cursor_after_def)

section \<open>What a page contains\<close>

definition grown :: "read_state \<Rightarrow> frame list \<Rightarrow> read_state \<Rightarrow> bool" where
  "grown st ms st' \<longleftrightarrow> rs_out st' = rs_out st @ ms \<and> rs_last st' = cursor_after (rs_last st) ms \<and>
     rs_bytes st' = rs_bytes st + sizes ms"

definition page_fits :: "nat \<Rightarrow> nat \<Rightarrow> read_state \<Rightarrow> bool" where
  "page_fits l m st \<longleftrightarrow> length (rs_out st) \<le> l \<and> (length (rs_out st) \<le> 1 \<or> rs_bytes st \<le> m)"

text \<open>\<open>takes l m st fs b st'\<close>: from \<open>st\<close> the page took frames from the front of what
  is new in \<open>fs\<close>, all of it if it may go on (\<open>b\<close>), and it is not empty if it stopped.\<close>

definition takes :: "nat \<Rightarrow> nat \<Rightarrow> read_state \<Rightarrow> frame list \<Rightarrow> bool \<Rightarrow> read_state \<Rightarrow> bool" where
  "takes l m st fs b st' \<longleftrightarrow>
     (\<exists>ms. prefix ms (merged (rs_last st) fs) \<and> grown st ms st' \<and>
        (b \<longrightarrow> ms = merged (rs_last st) fs \<and> length (rs_out st') < l) \<and>
        (\<not> b \<longrightarrow> rs_out st' \<noteq> [])) \<and> page_fits l m st'"

lemma grown_trans: "grown st ms st1 \<Longrightarrow> grown st1 ns st2 \<Longrightarrow> grown st (ms @ ns) st2"
  by (auto simp: grown_def cursor_after_def sizes_def)

lemma grown_refl: "grown st [] st"
  by (simp add: grown_def cursor_after_def sizes_def)

lemma takes_append:
  assumes "takes l m st xs True st1" "takes l m st1 ys b st2"
  shows "takes l m st (xs @ ys) b st2"
proof -
  from assms(1) have g1: "grown st (merged (rs_last st) xs) st1" by (auto simp: takes_def)
  from assms(2) obtain ns where ns: "prefix ns (merged (rs_last st1) ys)" "grown st1 ns st2"
    "b \<longrightarrow> ns = merged (rs_last st1) ys \<and> length (rs_out st2) < l" "\<not> b \<longrightarrow> rs_out st2 \<noteq> []" "page_fits l m st2"
    by (auto simp: takes_def)
  have m: "merged (rs_last st) (xs @ ys) = merged (rs_last st) xs @ merged (rs_last st1) ys"
    using g1 by (simp add: merged_append grown_def)
  then show ?thesis
    unfolding takes_def using ns grown_trans [OF g1 ns(2)]
    by (intro conjI exI [of _ "merged (rs_last st) xs @ ns"]) (auto simp: m)
qed

lemma takes_stop: "takes l m st xs False st1 \<Longrightarrow> takes l m st (xs @ ys) False st1"
  unfolding takes_def merged_append by (blast intro: prefix_prefix)

lemma takes_weaken: "takes l m st xs True st1 \<Longrightarrow> rs_out st1 \<noteq> [] \<Longrightarrow> takes l m st xs False st1"
  unfolding takes_def by auto

lemma takes_one:
  assumes "appendFrame l m f st = (go, st1)" "length (rs_out st) < l" "page_fits l m st"
  shows "takes l m st [f] go st1"
proof (cases "fr_Sequence f \<le> rs_last st")
  case True
  then show ?thesis using assms grown_refl by (auto simp: takes_def appendFrame_def)
next
  case new: False
  show ?thesis
  proof (cases "rs_out st \<noteq> [] \<and> rs_bytes st + length (fr_Payload f) + 24 > m")
    case True
    then have "go = False" "st1 = st" using assms(1) new by (auto simp: appendFrame_def)
    then show ?thesis using True assms grown_refl [of st] unfolding takes_def by (intro conjI exI [of _ "[]"]) auto
  next
    case False
    then have st1: "st1 = st\<lparr>rs_out := rs_out st @ [f], rs_bytes := rs_bytes st + length (fr_Payload f) + 24,
          rs_last := fr_Sequence f\<rparr>" and go: "go = (length (rs_out st1) < l \<and> rs_bytes st1 < m)"
      using assms(1) new by (auto simp: appendFrame_def Let_def split: if_splits)
    have "grown st [f] st1" by (simp add: st1 grown_def cursor_after_def sizes_def frame_size_def)
    moreover have "page_fits l m st1" using False assms(2,3) by (auto simp: st1 page_fits_def)
    ultimately show ?thesis
      using new go unfolding takes_def by (intro conjI exI [of _ "[f]"]) (auto simp: st1)
  qed
qed

lemma page_takes:
  "page l m st fs = (b, st') \<Longrightarrow> length (rs_out st) < l \<Longrightarrow> page_fits l m st \<Longrightarrow> takes l m st fs b st'"
proof (induction l m st fs arbitrary: b st' rule: page.induct)
  case (1 l m st)
  then show ?case using grown_refl by (auto simp: takes_def)
next
  case (2 l m st f fs)
  obtain go st1 where ap: "appendFrame l m f st = (go, st1)" by fastforce
  have one: "takes l m st [f] go st1" using takes_one [OF ap] 2 by blast
  show ?case
  proof (cases go)
    case True
    then have "takes l m st1 fs b st'"
      using 2 ap one by (auto simp: takes_def)
    then show ?thesis using takes_append [of l m st "[f]" st1 fs b st'] one True by simp
  next
    case False
    then show ?thesis using 2(2) ap one takes_stop [of l m st "[f]" st1 fs] by simp
  qed
qed

text \<open>The streams of a layout one after the other.\<close>

fun run_streams :: "nat \<Rightarrow> nat \<Rightarrow> reader list \<Rightarrow> read_state \<Rightarrow> read_error + (bool \<times> read_state)" where
  "run_streams l m [] st = Inr (True, st)"
| "run_streams l m (r # rs) st =
     (case consume l m r st of
        Inl e \<Rightarrow> Inl e
      | Inr (go, st') \<Rightarrow> if \<not> go then Inr (False, st') else run_streams l m rs st')"

lemma consume_takes:
  assumes "consume l m r st = Inr (b, st')" "length (rs_out st) < l" "page_fits l m st"
  shows "takes l m st (frames_of r) b st'"
  using consume_page [OF assms(1)]
proof
  assume "page l m st (frames_of r) = (b, st')"
  then show ?thesis using page_takes assms(2,3) by blast
next
  assume early: "page l m st (frames_of r) = (True, st') \<and> \<not> b \<and> rs_out st' \<noteq> []"
  then have "takes l m st (frames_of r) True st'" using page_takes assms(2,3) by blast
  then show ?thesis using takes_weaken early by simp
qed

lemma run_streams_takes:
  "run_streams l m rs st = Inr (b, st') \<Longrightarrow> length (rs_out st) < l \<Longrightarrow> page_fits l m st \<Longrightarrow>
     takes l m st (concat (map frames_of rs)) b st'"
proof (induction rs arbitrary: st)
  case Nil
  then show ?case using grown_refl by (auto simp: takes_def)
next
  case (Cons r rs)
  then obtain go st1 where c: "consume l m r st = Inr (go, st1)"
    by (auto split: sum.splits)
  then have t: "takes l m st (frames_of r) go st1" using consume_takes Cons.prems by blast
  show ?case
  proof (cases go)
    case True
    then have "takes l m st1 (concat (map frames_of rs)) b st'"
      using Cons c t by (auto simp: takes_def)
    then show ?thesis using takes_append t True by simp
  next
    case False
    then show ?thesis using Cons.prems c t takes_stop by auto
  qed
qed

lemma run_streams_readable: "list_all readable rs \<Longrightarrow> \<exists>b st'. run_streams l m rs st = Inr (b, st')"
proof (induction rs arbitrary: st)
  case (Cons r rs)
  then obtain b st1 where "consume l m r st = Inr (b, st1)" using consume_readable by fastforce
  then show ?case using Cons by (cases b) auto
qed auto

lemma run_streams_append:
  "run_streams l m (xs @ ys) st =
     (case run_streams l m xs st of
        Inl e \<Rightarrow> Inl e | Inr (go, st') \<Rightarrow> if \<not> go then Inr (False, st') else run_streams l m ys st')"
  by (induction xs arbitrary: st) (auto split: sum.splits)

section \<open>A page of a layout\<close>

text \<open>The archived chunks in frame order.\<close>

fun each_list :: "(chunk \<Rightarrow> 's \<Rightarrow> 'e + (bool \<times> 's)) \<Rightarrow> chunk list \<Rightarrow> 's \<Rightarrow> 'e + 's" where
  "each_list fn [] s = Inr s"
| "each_list fn (c # cs) s =
     (case fn c s of Inl e \<Rightarrow> Inl e | Inr (ok, s') \<Rightarrow> if \<not> ok then Inr s' else each_list fn cs s')"

lemma sort_key_tail:
  fixes k :: "'a \<Rightarrow> 'b::linorder"
  assumes "sort_key k (filter (\<lambda>x. a < k x) xs) = c # rest" "distinct (map k xs)"
  shows "rest = sort_key k (filter (\<lambda>x. max a (k c) < k x) xs)"
proof -
  let ?ys = "filter (\<lambda>x. a < k x) xs"
  have srt: "sorted (map k (c # rest))" using sorted_sort_key [of k ?ys] assms(1) by simp
  have "distinct (map k ?ys)" using assms(2) by (rule filter_map_distinct)
  then have "distinct (map k (sort_key k ?ys))"
    by (metis distinct_sort distinct_map set_sort inj_on_cong)
  then have dist: "distinct (map k (c # rest))" using assms(1) by simp
  have "a < k c" using assms(1) set_sort [of k ?ys] by (metis (no_types, lifting) list.set_intros(1) mem_Collect_eq set_filter)
  then have "filter (\<lambda>x. max a (k c) < k x) xs = filter (\<lambda>x. k c < k x) ?ys"
    by (auto intro!: filter_cong)
  then have "sort_key k (filter (\<lambda>x. max a (k c) < k x) xs) = filter (\<lambda>x. k c < k x) (c # rest)"
    using filter_sort [of "\<lambda>x. k c < k x" k ?ys] assms(1) by simp
  also have "\<dots> = rest" using srt dist by (auto intro!: filter_True simp: less_le)
  finally show ?thesis by simp
qed

lemma EachChunk_list:
  assumes "distinct (map ch_Last (run_rows b runID))"
  shows "EachChunk b runID cur fn s = each_list fn (sort_key ch_Last (filter (\<lambda>c. ch_Last c > cur) (run_rows b runID))) s"
  using assms
proof (induction b runID cur fn s rule: EachChunk.induct)
  case (1 b runID cur fn s)
  show ?case
  proof (cases "sort_key ch_Last (filter (\<lambda>c. ch_Last c > cur) (run_rows b runID))")
    case Nil
    then have "next_chunk b runID cur = None" by (simp add: next_chunk_def run_rows_def)
    then show ?thesis using Nil by (subst EachChunk.simps) simp
  next
    case (Cons c rest)
    then have nx: "next_chunk b runID cur = Some c" by (simp add: next_chunk_def run_rows_def)
    have rest: "rest = sort_key ch_Last (filter (\<lambda>x. max cur (ch_Last c) < ch_Last x) (run_rows b runID))"
      using sort_key_tail [OF Cons "1.prems"] .
    show ?thesis unfolding Cons
      by (subst EachChunk.simps)
        (use 1 in \<open>auto simp: nx rest split: sum.split\<close>)
  qed
qed

definition chunk_stream :: "zstd \<Rightarrow> archive \<Rightarrow> run_buffer \<Rightarrow> string \<Rightarrow> chunk \<Rightarrow> reader list" where
  "chunk_stream z a rb runID c =
     (case (if ch_FileBytes c > 0 then openFileChunk a rb runID (ch_Number c) else Some (ch_Blob c)) of
        None \<Rightarrow> [] | Some blob \<Rightarrow> [zs_reader z blob])"

lemma each_list_streams:
  "each_list (archived_chunk z l m a rb runID) cs (True, st) =
     run_streams l m (concat (map (chunk_stream z a rb runID) cs)) st"
proof (induction cs arbitrary: st)
  case (Cons c cs)
  show ?case
  proof (cases "if ch_FileBytes c > 0 then openFileChunk a rb runID (ch_Number c) else Some (ch_Blob c)")
    case None
    then show ?thesis using Cons by (simp add: archived_chunk_def chunk_stream_def Let_def)
  next
    case (Some blob)
    then show ?thesis using Cons
      by (auto simp: archived_chunk_def chunk_stream_def Let_def split: sum.split)
  qed
qed simp

lemma buffer_chunks_streams:
  "buffer_chunks z l m sealed after fs st =
     run_streams l m (map (\<lambda>f. zs_reader z (snd f))
       (filter (\<lambda>f. \<not> (case sealed (fst f) of None \<Rightarrow> False | Some lst \<Rightarrow> lst \<le> after)) fs)) st"
  by (induction z l m sealed after fs st rule: buffer_chunks.induct)
    (auto split: sum.split)

text \<open>All streams of a run, and those a page looks at.\<close>

definition db_rows :: "log_tiers \<Rightarrow> string \<Rightarrow> chunk list" where
  "db_rows t runID = (case lt_archive t of None \<Rightarrow> []
     | Some a \<Rightarrow> sort_key ch_Last (run_rows (ar_db a) runID))"

definition row_streams :: "zstd \<Rightarrow> log_tiers \<Rightarrow> string \<Rightarrow> chunk \<Rightarrow> reader list" where
  "row_streams z t runID c = (case lt_archive t of None \<Rightarrow> []
     | Some a \<Rightarrow> chunk_stream z a (lt_buffer t) runID c)"

definition all_streams :: "zstd \<Rightarrow> log_tiers \<Rightarrow> string \<Rightarrow> reader list" where
  "all_streams z t runID = concat (map (row_streams z t runID) (db_rows t runID)) @
     map (\<lambda>f. zs_reader z (snd f)) (chunkFiles (lt_buffer t))"

definition page_streams :: "zstd \<Rightarrow> log_tiers \<Rightarrow> string \<Rightarrow> 64 word \<Rightarrow> reader list" where
  "page_streams z t runID after =
     concat (map (row_streams z t runID) (filter (\<lambda>c. ch_Last c > after) (db_rows t runID))) @
     map (\<lambda>f. zs_reader z (snd f))
       (filter (\<lambda>f. \<not> (case sealedLast (lt_buffer t) after (fst f) of None \<Rightarrow> False | Some lst \<Rightarrow> lst \<le> after))
          (chunkFiles (lt_buffer t)))"

text \<open>What a run's log shows.\<close>

definition visible :: "zstd \<Rightarrow> log_tiers \<Rightarrow> string \<Rightarrow> frame list" where
  "visible z t runID = concat (map frames_of (all_streams z t runID))"

text \<open>The metadata of chunks is right: last sequences differ within a run, and no frame of a chunk
  is beyond the last sequence its row or its index entry names.\<close>

definition bounded_by :: "64 word \<Rightarrow> reader list \<Rightarrow> bool" where
  "bounded_by k rs \<longleftrightarrow> (\<forall>r \<in> set rs. \<forall>f \<in> set (frames_of r). fr_Sequence f \<le> k)"

definition tiers_ok :: "zstd \<Rightarrow> log_tiers \<Rightarrow> string \<Rightarrow> bool" where
  "tiers_ok z t runID \<longleftrightarrow>
     distinct (map ch_Last (db_rows t runID)) \<and>
     (\<forall>c \<in> set (db_rows t runID). bounded_by (ch_Last c) (row_streams z t runID c)) \<and>
     (\<forall>f \<in> set (chunkFiles (lt_buffer t)). \<forall>idx m. rb_index (lt_buffer t) = Some idx \<and> m \<in> set (ix_Chunks idx) \<and>
        cm_Number m = fst f \<longrightarrow> bounded_by (cm_Last m) [zs_reader z (snd f)]) \<and>
     list_all readable (all_streams z t runID)"

lemma readContext_streams:
  assumes "distinct (map ch_Last (db_rows t runID))"
  shows "readContext z t runID after limit m =
     (case run_streams (nat (min (max limit 1) 5000)) m (page_streams z t runID after)
             \<lparr>rs_out = [], rs_last = after, rs_bytes = 0\<rparr> of
        Inl e \<Rightarrow> Inl e | Inr (_, st) \<Rightarrow> Inr (rs_out st))"
proof (cases "lt_archive t")
  case None
  then show ?thesis
    by (simp add: readContext_def page_streams_def db_rows_def buffer_chunks_streams Let_def)
next
  case (Some a)
  let ?l = "nat (min (max limit 1) 5000)" and ?st = "\<lparr>rs_out = [], rs_last = after, rs_bytes = 0\<rparr>"
  have "distinct (map ch_Last (run_rows (ar_db a) runID))"
    using assms Some by (simp add: db_rows_def) (metis distinct_map distinct_sort set_sort)
  moreover have rows: "row_streams z t runID = chunk_stream z a (lt_buffer t) runID"
    by (rule ext) (simp add: row_streams_def Some)
  ultimately have db: "EachChunk (ar_db a) runID after (archived_chunk z ?l m a (lt_buffer t) runID) (True, ?st) =
      run_streams ?l m (concat (map (row_streams z t runID) (filter (\<lambda>c. ch_Last c > after) (db_rows t runID)))) ?st"
    using Some rows by (simp add: EachChunk_list each_list_streams db_rows_def filter_sort)
  show ?thesis
    unfolding readContext_def Let_def Some option.case db page_streams_def run_streams_append buffer_chunks_streams
    by (auto split: sum.split prod.split)
qed

lemma merged_drop_bounded:
  assumes "\<And>x. x \<in> set xs \<Longrightarrow> \<not> P x \<Longrightarrow> bounded_by a (g x)" "a \<le> c"
  shows "merged c (concat (map frames_of (concat (map g (filter P xs))))) =
         merged c (concat (map frames_of (concat (map g xs))))"
  using assms
proof (induction xs arbitrary: c)
  case (Cons x xs)
  let ?fs = "concat (map frames_of (g x))"
  have keep: "c \<le> cursor_after c (merged c ?fs)"
    using cursor_after_ge [of c "length (merged c ?fs)" ?fs] by simp
  show ?case
  proof (cases "P x")
    case True
    then show ?thesis using Cons keep by (simp add: merged_append)
  next
    case False
    then have "bounded_by a (g x)" using Cons.prems by simp
    then have "merged c ?fs = []"
      using Cons.prems(2) by (intro merged_skip) (auto simp: bounded_by_def intro: order_trans)
    then show ?thesis using False Cons by (simp add: merged_append cursor_after_def)
  qed
qed simp

lemma map_of_rev_map: "map_of (rev (map (\<lambda>m. (g m, h m)) ms)) k = Some v \<Longrightarrow> \<exists>m \<in> set ms. g m = k \<and> h m = v"
  by (auto dest!: map_of_SomeD)

lemma sealed_bounded:
  assumes "tiers_ok z t runID" "f \<in> set (chunkFiles (lt_buffer t))" "sealedLast (lt_buffer t) after (fst f) = Some lst"
    "lst \<le> after"
  shows "bounded_by after [zs_reader z (snd f)]"
proof -
  from assms(3) obtain idx m where "rb_index (lt_buffer t) = Some idx" "m \<in> set (ix_Chunks idx)"
    "cm_Number m = fst f" "cm_Last m = lst"
    by (auto simp: sealedLast_def split: option.splits if_splits dest!: map_of_rev_map)
  then have "bounded_by lst [zs_reader z (snd f)]" using assms(1,2) unfolding tiers_ok_def by blast
  then show ?thesis using assms(4) by (auto simp: bounded_by_def intro: order_trans)
qed

lemma page_streams_merged:
  assumes ok: "tiers_ok z t runID"
  shows "merged after (concat (map frames_of (page_streams z t runID after))) = merged after (visible z t runID)"
proof -
  let ?rows = "db_rows t runID" and ?files = "chunkFiles (lt_buffer t)"
  let ?P = "\<lambda>f. \<not> (case sealedLast (lt_buffer t) after (fst f) of None \<Rightarrow> False | Some lst \<Rightarrow> lst \<le> after)"
  let ?g = "\<lambda>f. [zs_reader z (snd f)]"
  have rows: "bounded_by after (row_streams z t runID c)" if "c \<in> set ?rows" "\<not> ch_Last c > after" for c
    using ok that unfolding tiers_ok_def bounded_by_def by (meson linorder_not_less order_trans)
  have files: "bounded_by after (?g f)" if "f \<in> set ?files" "\<not> ?P f" for f
    using that sealed_bounded [OF ok that(1)] by (auto split: option.splits)
  have single: "map (\<lambda>f. zs_reader z (snd f)) xs = concat (map ?g xs)" for xs
    by (induction xs) auto
  let ?A = "concat (map frames_of (concat (map (row_streams z t runID) ?rows)))"
  have A: "merged after (concat (map frames_of (concat (map (row_streams z t runID) (filter (\<lambda>c. ch_Last c > after) ?rows)))))
      = merged after ?A"
    using rows by (intro merged_drop_bounded [of _ _ after]) auto
  have "after \<le> cursor_after after (merged after ?A)"
    using cursor_after_ge [of after "length (merged after ?A)" ?A] by simp
  then have B: "merged (cursor_after after (merged after ?A)) (concat (map frames_of (concat (map ?g (filter ?P ?files)))))
      = merged (cursor_after after (merged after ?A)) (concat (map frames_of (concat (map ?g ?files))))"
    using files by (intro merged_drop_bounded [of _ _ after]) auto
  show ?thesis
    unfolding page_streams_def visible_def all_streams_def single map_append concat_append merged_append A B ..
qed

lemma readContext_page:
  assumes ok: "tiers_ok z t runID"
  shows "\<exists>out. readContext z t runID after limit m = Inr out \<and> prefix out (merged after (visible z t runID)) \<and>
    (merged after (visible z t runID) \<noteq> [] \<longrightarrow> out \<noteq> []) \<and>
    length out \<le> nat (min (max limit 1) 5000) \<and> (length out \<le> 1 \<or> sizes out \<le> m)"
proof -
  let ?l = "nat (min (max limit 1) 5000)" and ?st = "\<lparr>rs_out = [], rs_last = after, rs_bytes = 0\<rparr>"
  let ?rs = "page_streams z t runID after"
  have "set ?rs \<subseteq> set (all_streams z t runID)" by (auto simp: page_streams_def all_streams_def)
  then have "list_all readable ?rs" using ok by (auto simp: tiers_ok_def list_all_iff)
  then obtain b st where run: "run_streams ?l m ?rs ?st = Inr (b, st)" using run_streams_readable by blast
  then have "takes ?l m ?st (concat (map frames_of ?rs)) b st"
    by (rule run_streams_takes) (auto simp: page_fits_def)
  then have t: "\<exists>ms. prefix ms (merged after (visible z t runID)) \<and> grown ?st ms st \<and>
      (b \<longrightarrow> ms = merged after (visible z t runID)) \<and> (\<not> b \<longrightarrow> rs_out st \<noteq> [])" "page_fits ?l m st"
    unfolding takes_def by (auto simp: page_streams_merged [OF ok])
  then have "prefix (rs_out st) (merged after (visible z t runID))" "rs_bytes st = sizes (rs_out st)"
    "b \<longrightarrow> rs_out st = merged after (visible z t runID)" "\<not> b \<longrightarrow> rs_out st \<noteq> []"
    by (auto simp: grown_def)
  then show ?thesis
    using t(2) run ok by (cases b) (auto simp: readContext_streams tiers_ok_def page_fits_def)
qed

lemma raw_loop_rest:
  assumes ok: "tiers_ok z t runID"
  defines "M \<equiv> merged 0 (visible z t runID)"
  shows "raw_loop z t runID (cursor_after 0 (take k M)) w = Some (Inr (w @ concat (map raw_line (drop k M))))"
proof (induction "length M - k" arbitrary: k w rule: less_induct)
  case less
  let ?a = "cursor_after 0 (take k M)"
  have rest: "merged ?a (visible z t runID) = drop k M" unfolding M_def by (rule merged_resume)
  obtain out where out: "readContext z t runID ?a 5000 4194304 = Inr out" "prefix out (drop k M)"
    "drop k M \<noteq> [] \<longrightarrow> out \<noteq> []"
    using readContext_page [OF ok, of ?a 5000 4194304] unfolding rest by blast
  show ?case
  proof (cases "out = []")
    case True
    then show ?thesis using out by (subst raw_loop.simps) simp
  next
    case False
    obtain n where n: "out = take n (drop k M)" using out(2) by (metis append_eq_conv_conj prefix_def)
    have next_cursor: "fr_Sequence (last out) = cursor_after 0 (take (k + n) M)"
      using False unfolding n by (simp add: cursor_after_def take_add)
    have "0 < n" "k < length M" using False unfolding n by auto
    then have "length M - (k + n) < length M - k" by simp
    from less.hyps [OF this, of "w @ concat (map raw_line out)"]
    have "raw_loop z t runID (fr_Sequence (last out)) (w @ concat (map raw_line out)) =
        Some (Inr (w @ concat (map raw_line (out @ drop (k + n) M))))"
      unfolding next_cursor by simp
    moreover have "out @ drop (k + n) M = drop k M"
      using append_take_drop_id [of n "drop k M"] n by (simp add: add.commute)
    ultimately show ?thesis
      using False out(1) by (subst raw_loop.simps) simp
  qed
qed

section \<open>Logs spread over tiers\<close>

text \<open>\<open>fs\<close>, frames as a reader meets them, carries the log \<open>L\<close>: the same frames, with positive increasing numbers in \<open>L\<close>, and each
  met in \<open>fs\<close> only after every smaller one.\<close>

definition carries :: "frame list \<Rightarrow> frame list \<Rightarrow> bool" where
  "carries fs L \<longleftrightarrow> sorted_wrt (<) (0 # map fr_Sequence L) \<and> set fs = set L \<and>
     (\<forall>i < length fs. \<forall>g \<in> set L. fr_Sequence g < fr_Sequence (fs ! i) \<longrightarrow> g \<in> set (take i fs))"

lemma merged_subset: "set (merged a fs) \<subseteq> {f \<in> set fs. a < fr_Sequence f}"
  using merged_increasing [of a fs] by (induction a fs rule: merged.induct) (auto split: if_splits)

lemma merged_takes:
  assumes "f \<in> set fs" "a < fr_Sequence f" "\<forall>i < length fs. fr_Sequence f < fr_Sequence (fs ! i) \<longrightarrow> f \<in> set (take i fs)"
    "inj_on fr_Sequence (set fs)"
  shows "f \<in> set (merged a fs)"
  using assms
proof (induction a fs rule: merged.induct)
  case (2 a g fs)
  show ?case
  proof (cases "f = g")
    case False
    then have f: "f \<in> set fs" using "2.prems"(1) by simp
    have "fr_Sequence g \<noteq> fr_Sequence f" using inj_onD [OF "2.prems"(4), of g f] f False by auto
    moreover have "\<not> fr_Sequence f < fr_Sequence g" using spec [OF "2.prems"(3), of 0] by simp
    ultimately have f: "f \<in> set fs" "fr_Sequence g < fr_Sequence f" using f by auto
    have "\<forall>i < length fs. fr_Sequence f < fr_Sequence (fs ! i) \<longrightarrow> f \<in> set (take i fs)"
      using "2.prems"(3) False by (metis Suc_less_eq length_Cons nth_Cons_Suc set_ConsD take_Suc_Cons)
    then show ?thesis using 2 f by (simp add: inj_on_def)
  qed (use "2.prems"(2) in auto)
qed simp

lemma same_frames:
  assumes "sorted_wrt (<) (map fr_Sequence xs)" "sorted_wrt (<) (map fr_Sequence ys)" "set xs = set ys" "inj_on fr_Sequence (set ys)"
  shows "xs = ys"
proof -
  have "map fr_Sequence ys = map fr_Sequence xs" using strict_sorted_equal [OF assms(1,2)] assms(3) by auto
  then show ?thesis using map_inj_on [of fr_Sequence ys xs] assms(3,4) by simp
qed

lemma carries_merged:
  assumes "carries fs L"
  shows "merged a fs = filter (\<lambda>f. a < fr_Sequence f) L"
proof (rule same_frames)
  have L: "sorted_wrt (<) (map fr_Sequence L)" "set fs = set L" using assms by (simp_all add: carries_def)
  then have inj: "inj_on fr_Sequence (set L)" by (simp add: strict_sorted_iff distinct_map)
  show "sorted_wrt (<) (map fr_Sequence (merged a fs))" using merged_increasing [of a fs] by simp
  show "sorted_wrt (<) (map fr_Sequence (filter (\<lambda>f. a < fr_Sequence f) L))"
    using L(1) by (simp add: sorted_wrt_map sorted_wrt_filter)
  show "inj_on fr_Sequence (set (filter (\<lambda>f. a < fr_Sequence f) L))" using inj by (auto intro: inj_on_subset)
  have "f \<in> set (merged a fs)" if "f \<in> set L" "a < fr_Sequence f" for f
    using that assms inj by (intro merged_takes) (auto simp: carries_def)
  then show "set (merged a fs) = set (filter (\<lambda>f. a < fr_Sequence f) L)"
    using merged_subset [of a fs] L(2) by auto
qed

text \<open>Conversely, tiers whose merge has every frame carry that merge.\<close>

lemma merged_after_smaller:
  "g \<in> set (merged a fs) \<Longrightarrow> i < length fs \<Longrightarrow> fr_Sequence g < fr_Sequence (fs ! i) \<Longrightarrow> g \<in> set (take i fs)"
proof (induction a fs arbitrary: i rule: merged.induct)
  case (2 a h fs)
  have big: "b < fr_Sequence g" if "g \<in> set (merged b fs)" for b using that merged_subset [of b fs] by auto
  show ?case
  proof (cases i)
    case 0
    then show ?thesis using 2 big [of a] big [of "fr_Sequence h"] by (auto split: if_splits)
  next
    case (Suc j)
    then show ?thesis using 2 by (auto split: if_splits)
  qed
qed simp

lemma carries_merge: "set fs \<subseteq> set (merged 0 fs) \<Longrightarrow> carries fs (merged 0 fs)"
  using merged_increasing [of 0 fs] merged_subset [of 0 fs] merged_after_smaller [of _ 0 fs]
  unfolding carries_def by auto

section \<open>Properties\<close>


text \<open>A run whose first chunk was archived but is also still in the buffer, as after a crash
  between the commit and the removal.\<close>

definition crash_tiers :: log_tiers where
  "crash_tiers = \<lparr>lt_archive = Some \<lparr>ar_db = PutChunks ''r'' ''job'' ''job'' (from_micro 10)
       [\<lparr>ch_Number = 1, ch_First = 1, ch_Last = 1, ch_RawBytes = 26, ch_Blob = encodeWithHeader hello, ch_FileBytes = 0\<rparr>]
       \<lparr>lg_runs = [], lg_chunks = []\<rparr>, ar_files = []\<rparr>,
     lt_buffer = \<lparr>rb_files = [(2, encodeWithHeader alarm), (1, encodeWithHeader hello)], rb_index = None\<rparr>\<rparr>"

lemma plain_frame: "wf_frame f \<Longrightarrow> decode_all (encodeWithHeader f, EOF) = ([stored f], None)"
  using decode_all_complete [of "[f]"] by simp

lemma sample_wf: "wf_frame hello" "wf_frame alarm" "stored hello = hello" "stored alarm = alarm"
  by (simp_all add: wf_frame_def hello_def alarm_def stored_def maxFramePayload_def from_micro_unix_micro fits64_def
      min_int64_def max_int64_def)

lemma crash_streams:
  "all_streams plain_zstd crash_tiers ''r'' = [(encodeWithHeader hello, EOF), (encodeWithHeader hello, EOF), (encodeWithHeader alarm, EOF)]"
  by (simp add: all_streams_def crash_tiers_def db_rows_def run_rows_def PutChunks_def putChunks_def put_chunk_def
      row_streams_def chunk_stream_def plain_zstd_def chunkFiles_def Let_def)

lemma crash_visible: "visible plain_zstd crash_tiers ''r'' = [hello, hello, alarm]"
  by (simp add: visible_def crash_streams frames_of_def plain_frame sample_wf)

lemma crash_tiers_ok: "tiers_ok plain_zstd crash_tiers ''r''"
proof -
  have "list_all readable (all_streams plain_zstd crash_tiers ''r'')"
    by (simp add: crash_streams readable_def plain_frame sample_wf)
  moreover have "db_rows crash_tiers ''r'' =
      [\<lparr>ch_Number = 1, ch_First = 1, ch_Last = 1, ch_RawBytes = 26, ch_Blob = encodeWithHeader hello, ch_FileBytes = 0\<rparr>]"
    by (simp add: crash_tiers_def db_rows_def run_rows_def PutChunks_def putChunks_def put_chunk_def Let_def)
  moreover have "rb_index (lt_buffer crash_tiers) = None" by (simp add: crash_tiers_def)
  moreover have "fr_Sequence hello = 1" by (simp add: hello_def)
  ultimately show ?thesis
    by (simp add: tiers_ok_def bounded_by_def row_streams_def chunk_stream_def plain_zstd_def frames_of_def
        plain_frame sample_wf split: option.split)
qed


end
