(* ===== verification/Log_Pipe.thy ===== *)
theory Log_Pipe
  imports Log_Frame
begin

text \<open>
  How a child's output becomes log lines, \<^verbatim>\<open>Writer.Pipe\<close> of
  \<^verbatim>\<open>src/internal/logstore/logstore.go\<close>: the buffered reader of Go's \<^verbatim>\<open>bufio\<close> with a bounded
  buffer, the loop that joins its fragments into lines, and the reference it is compared with.

  The source is the list of what successive reads would deliver given room enough, and the error
  that ends it. What the loop hands a line to (\<^verbatim>\<open>capture\<close>) is the interface \<open>line_sink\<close>; the
  log writer provides it.
\<close>

section \<open>Valid UTF-8\<close>

definition byte_in :: "nat \<Rightarrow> nat \<Rightarrow> byte \<Rightarrow> bool" where
  "byte_in lo hi b \<longleftrightarrow> lo \<le> unat b \<and> unat b \<le> hi"

text \<open>The bounds \<^verbatim>\<open>utf8.Valid\<close> puts on the second byte of a sequence: neither overlong forms
  nor surrogates nor code points beyond the last one.\<close>

definition utf8_second :: "byte \<Rightarrow> byte \<Rightarrow> bool" where
  "utf8_second a b =
     (if a = 0xE0 then byte_in 0xA0 0xBF b
      else if a = 0xED then byte_in 0x80 0x9F b
      else if a = 0xF0 then byte_in 0x90 0xBF b
      else if a = 0xF4 then byte_in 0x80 0x8F b
      else byte_in 0x80 0xBF b)"

fun utf8_Valid :: "byte list \<Rightarrow> bool" where
  "utf8_Valid [] = True"
| "utf8_Valid (a # bs) =
     (if byte_in 0 0x7F a then utf8_Valid bs
      else if byte_in 0xC2 0xDF a then
        (case bs of b # r \<Rightarrow> utf8_second a b \<and> utf8_Valid r | _ \<Rightarrow> False)
      else if byte_in 0xE0 0xEF a then
        (case bs of b # c # r \<Rightarrow> utf8_second a b \<and> byte_in 0x80 0xBF c \<and> utf8_Valid r | _ \<Rightarrow> False)
      else if byte_in 0xF0 0xF4 a then
        (case bs of b # c # d # r \<Rightarrow> utf8_second a b \<and> byte_in 0x80 0xBF c \<and> byte_in 0x80 0xBF d \<and> utf8_Valid r
         | _ \<Rightarrow> False)
      else False)"

section \<open>The buffered reader\<close>

datatype slice_error = BufferFull | ReadErr read_error

record bufio =
  bf_size :: nat
  bf_buf :: "byte list"
  bf_err :: "read_error option"
  bf_src :: "byte list list"
  bf_end :: read_error

text \<open>\<^verbatim>\<open>minReadBufferSize\<close>: a buffer is never smaller than 16 bytes.\<close>

abbreviation (input) buf_len :: "bufio \<Rightarrow> nat" where
  "buf_len b \<equiv> max (bf_size b) 16"

definition NewReaderSize :: "byte list list \<Rightarrow> read_error \<Rightarrow> nat \<Rightarrow> bufio" where
  "NewReaderSize src e n = \<lparr>bf_size = n, bf_buf = [], bf_err = None, bf_src = src, bf_end = e\<rparr>"

text \<open>One \<^verbatim>\<open>Read\<close> into \<open>room\<close> bytes: what it delivers, the error, and what is left.\<close>

definition read_once :: "nat \<Rightarrow> bufio \<Rightarrow> byte list \<times> read_error option \<times> byte list list" where
  "read_once room b =
     (case bf_src b of
        [] \<Rightarrow> ([], Some (bf_end b), [])
      | x # xs \<Rightarrow> if length x \<le> room then (x, None, xs) else (take room x, None, drop room x # xs))"

text \<open>\<^verbatim>\<open>fill\<close>: reads until something arrives, at most \<open>n\<close> times.\<close>

primrec fill :: "nat \<Rightarrow> bufio \<Rightarrow> bufio" where
  "fill 0 b = b\<lparr>bf_err := Some (Damaged ''multiple Read calls return no data or error'')\<rparr>"
| "fill (Suc n) b =
     (case read_once (buf_len b - length (bf_buf b)) b of
        (x, e, src) \<Rightarrow>
          let b' = b\<lparr>bf_buf := bf_buf b @ x, bf_src := src\<rparr>
          in if e \<noteq> None then b'\<lparr>bf_err := e\<rparr>
             else if x \<noteq> [] then b' else fill n b')"

definition maxConsecutiveEmptyReads :: nat where "maxConsecutiveEmptyReads = 100"

text \<open>The bytes still to come, and the measure of \<^verbatim>\<open>ReadSlice\<close>: a fill consumes part of the source or
  finds its error.\<close>

definition pending :: "bufio \<Rightarrow> byte list" where
  "pending b = bf_buf b @ concat (bf_src b)"

definition fill_measure :: "bufio \<Rightarrow> nat" where
  "fill_measure b = length (concat (bf_src b)) + (if bf_err b = None then 1 else 0)"

lemma fill_decreases:
  "bf_err b = None \<Longrightarrow> length (bf_buf b) < buf_len b \<Longrightarrow> fill_measure (fill n b) < fill_measure b"
proof (induction n arbitrary: b)
  case (Suc n)
  show ?case
  proof (cases "bf_src b")
    case Nil
    then show ?thesis using Suc.prems by (simp add: read_once_def fill_measure_def Let_def)
  next
    case (Cons x xs)
    show ?thesis
    proof (cases "x = []")
      case True
      let ?b' = "b\<lparr>bf_src := xs\<rparr>"
      have "fill (Suc n) b = fill n ?b'" using Cons True by (simp add: read_once_def Let_def)
      moreover have "fill_measure (fill n ?b') < fill_measure ?b'" using Suc by simp
      moreover have "fill_measure ?b' = fill_measure b" using Cons True by (simp add: fill_measure_def)
      ultimately show ?thesis by simp
    next
      case False
      then show ?thesis using Cons Suc.prems by (auto simp: read_once_def Let_def fill_measure_def)
    qed
  qed
qed (simp add: fill_measure_def)

function ReadSlice :: "byte \<Rightarrow> bufio \<Rightarrow> byte list \<times> slice_error option \<times> bufio" where
  "ReadSlice delim b =
     (if delim \<in> set (bf_buf b)
      then (takeWhile (\<lambda>c. c \<noteq> delim) (bf_buf b) @ [delim], None,
            b\<lparr>bf_buf := tl (dropWhile (\<lambda>c. c \<noteq> delim) (bf_buf b))\<rparr>)
      else case bf_err b of
             Some e \<Rightarrow> (bf_buf b, Some (ReadErr e), b\<lparr>bf_buf := [], bf_err := None\<rparr>)
           | None \<Rightarrow>
               if length (bf_buf b) \<ge> buf_len b then (bf_buf b, Some BufferFull, b\<lparr>bf_buf := []\<rparr>)
               else ReadSlice delim (fill maxConsecutiveEmptyReads b))"
  by pat_completeness auto
termination
  by (relation "measure (\<lambda>(delim, b). fill_measure b)") (auto intro: fill_decreases)

declare ReadSlice.simps [simp del]

section \<open>From fragments to lines\<close>

text \<open>The entry made of a line: its payload and flags.\<close>

definition line_entry :: "byte list \<Rightarrow> bool \<Rightarrow> bool \<Rightarrow> byte list \<times> byte" where
  "line_entry line truncated hasNewline =
     (let line' = (if line \<noteq> [] \<and> last line = 13 then butlast line else line)
      in (line', (if hasNewline then 0 else FlagPartial) OR (if truncated then FlagTruncated else 0)
            OR (if utf8_Valid line' then 0 else FlagInvalidUTF8)))"

definition append_fragment :: "nat \<Rightarrow> byte list \<Rightarrow> byte list \<times> bool \<Rightarrow> byte list \<times> bool" where
  "append_fragment limit fragment st =
     (let (line, truncated) = st
      in if truncated then st
         else let remaining = int limit - int (length line)
              in if int (length fragment) > remaining then (line @ take (nat (max remaining 0)) fragment, True)
                 else (line @ fragment, False))"

text \<open>How a pipe ends: at the end of its source, with a read error, or because the sink refused a line.\<close>

datatype 'e pipe_end = Drained | ReadFailed read_error | Refused 'e

lemma pending_fill: "bf_err b = None \<Longrightarrow> pending (fill n b) = pending b"
  by (induction n arbitrary: b) (fastforce simp: pending_def read_once_def Let_def split: list.splits)+

lemma fill_size [simp]: "bf_size (fill n b) = bf_size b" "bf_end (fill n b) = bf_end b"
  by (induction n arbitrary: b) (auto simp: Let_def split: prod.split)

lemma tl_dropWhile_length: "d \<in> set xs \<Longrightarrow> length (tl (dropWhile (\<lambda>c. c \<noteq> d) xs)) < length xs"
proof -
  assume "d \<in> set xs"
  then have "dropWhile (\<lambda>c. c \<noteq> d) xs \<noteq> []" by (auto simp: dropWhile_eq_Nil_conv)
  then have "length (tl (dropWhile (\<lambda>c. c \<noteq> d) xs)) < length (dropWhile (\<lambda>c. c \<noteq> d) xs)"
    by (cases "dropWhile (\<lambda>c. c \<noteq> d) xs") auto
  then show ?thesis using length_dropWhile_le [of "\<lambda>c. c \<noteq> d" xs] by linarith
qed

lemma ReadSlice_shorter:
  "ReadSlice d b = (fragment, err, b') \<Longrightarrow> err = None \<or> err = Some BufferFull \<Longrightarrow>
     length (pending b') < length (pending b)"
proof (induction d b rule: ReadSlice.induct)
  case (1 delim b)
  show ?case
  proof (cases "delim \<in> set (bf_buf b)")
    case True
    then show ?thesis using 1(2) tl_dropWhile_length [OF True] by (auto simp: ReadSlice.simps [of delim b] pending_def)
  next
    case new: False
    show ?thesis
    proof (cases "bf_err b")
      case (Some e)
      then show ?thesis using 1(2,3) new by (auto simp: ReadSlice.simps [of delim b])
    next
      case None
      show ?thesis
      proof (cases "buf_len b \<le> length (bf_buf b)")
        case True
        then show ?thesis using 1(2) new None by (auto simp: ReadSlice.simps [of delim b] pending_def)
      next
        case False
        have "length (pending b') < length (pending (fill maxConsecutiveEmptyReads b))"
          using 1(1) [OF new None] False 1(2,3) new None by (auto simp: ReadSlice.simps [of delim b] split: if_splits)
        then show ?thesis by (simp add: pending_fill [OF None])
      qed
    qed
  qed
qed

text \<open>One fragment: it joins the line, and a line that is complete goes to the sink.\<close>

definition pipe_fragment ::
  "(byte list \<Rightarrow> byte \<Rightarrow> 's \<Rightarrow> 'e option \<times> 's) \<Rightarrow> nat \<Rightarrow> byte list \<Rightarrow> slice_error option \<Rightarrow> byte list \<times> bool \<Rightarrow> 's
   \<Rightarrow> 'e option \<times> (byte list \<times> bool) \<times> 's" where
  "pipe_fragment capture limit fragment err st s =
     (let hasNewline = (fragment \<noteq> [] \<and> last fragment = 10);
          st1 = append_fragment limit (if hasNewline then butlast fragment else fragment) st
      in if hasNewline \<or> (err = Some (ReadErr EOF) \<and> fst st1 \<noteq> [])
         then let (payload, flags) = line_entry (fst st1) (snd st1) hasNewline;
                  (writeErr, s') = capture payload flags s
              in (writeErr, ([], False), s')
         else (None, st1, s))"

function pipe_loop ::
  "(byte list \<Rightarrow> byte \<Rightarrow> 's \<Rightarrow> 'e option \<times> 's) \<Rightarrow> nat \<Rightarrow> bufio \<Rightarrow> byte list \<times> bool \<Rightarrow> 's \<Rightarrow> 'e pipe_end \<times> 's" where
  "pipe_loop capture limit b st s =
     (case ReadSlice 10 b of
        (fragment, err, b') \<Rightarrow>
          (case pipe_fragment capture limit fragment err st s of
             (Some e, st', s') \<Rightarrow> (Refused e, s')
           | (None, st', s') \<Rightarrow>
               (case err of
                  Some (ReadErr e) \<Rightarrow> (if e = EOF then Drained else ReadFailed e, s')
                | _ \<Rightarrow> pipe_loop capture limit b' st' s')))"
  by pat_completeness auto
termination
  by (relation "measure (\<lambda>(capture, limit, b, st, s). length (pending b))")
    (auto dest: ReadSlice_shorter [OF sym])

declare pipe_loop.simps [simp del]

definition pipe_limit :: "int \<Rightarrow> nat" where
  "pipe_limit maxLine = (if maxLine \<le> 0 \<or> maxLine > int maxFramePayload then maxFramePayload else nat maxLine)"

definition Pipe ::
  "(byte list \<Rightarrow> byte \<Rightarrow> 's \<Rightarrow> 'e option \<times> 's) \<Rightarrow> int \<Rightarrow> byte list list \<Rightarrow> read_error \<Rightarrow> 's \<Rightarrow> 'e pipe_end \<times> 's" where
  "Pipe capture maxLine src e s =
     (let limit = pipe_limit maxLine
      in pipe_loop capture limit (NewReaderSize src e (min (limit + 1) 65536)) ([], False) s)"

section \<open>The reference\<close>

text \<open>The lines of a text and what follows the last newline, and the entries they become.\<close>

fun split_lines :: "byte list \<Rightarrow> byte list list \<times> byte list" where
  "split_lines [] = ([], [])"
| "split_lines (c # cs) =
     (case split_lines cs of
        (ls, rest) \<Rightarrow>
          if c = 10 then ([] # ls, rest)
          else (case ls of [] \<Rightarrow> ([], c # rest) | l # ls' \<Rightarrow> ((c # l) # ls', rest)))"

definition cut_entry :: "nat \<Rightarrow> bool \<Rightarrow> byte list \<Rightarrow> byte list \<times> byte" where
  "cut_entry limit hasNewline l = line_entry (take limit l) (limit < length l) hasNewline"

definition entries :: "nat \<Rightarrow> read_error \<Rightarrow> byte list \<Rightarrow> (byte list \<times> byte) list" where
  "entries limit e bs =
     (case split_lines bs of
        (ls, rest) \<Rightarrow> map (cut_entry limit True) ls @ (if e = EOF \<and> rest \<noteq> [] then [cut_entry limit False rest] else []))"

fun capture_all ::
  "(byte list \<Rightarrow> byte \<Rightarrow> 's \<Rightarrow> 'e option \<times> 's) \<Rightarrow> (byte list \<times> byte) list \<Rightarrow> 's \<Rightarrow> 'e option \<times> 's" where
  "capture_all capture [] s = (None, s)"
| "capture_all capture ((payload, flags) # es) s =
     (case capture payload flags s of
        (Some e, s') \<Rightarrow> (Some e, s')
      | (None, s') \<Rightarrow> capture_all capture es s')"

lemma split_lines_none: "10 \<notin> set l \<Longrightarrow> split_lines l = ([], l)"
  by (induction l) auto

lemma split_lines_line: "10 \<notin> set l \<Longrightarrow> split_lines (l @ 10 # cs) = (l # fst (split_lines cs), snd (split_lines cs))"
  by (induction l) (auto split: prod.splits list.splits)

lemma entries_line:
  "10 \<notin> set l \<Longrightarrow> entries limit e (l @ 10 # cs) = cut_entry limit True l # entries limit e cs"
  by (simp add: entries_def split_lines_line split: prod.splits)

lemma entries_rest:
  "10 \<notin> set l \<Longrightarrow> entries limit e l = (if e = EOF \<and> l \<noteq> [] then [cut_entry limit False l] else [])"
  by (simp add: entries_def split_lines_none)

section \<open>The loop computes the reference\<close>

text \<open>A reader whose source never delivers nothing, and whose recorded error is the one that ends the
  source.\<close>

definition steady :: "bufio \<Rightarrow> bool" where
  "steady b \<longleftrightarrow> [] \<notin> set (bf_src b) \<and> (bf_err b \<noteq> None \<longrightarrow> bf_src b = [] \<and> bf_err b = Some (bf_end b))"

lemma steady_fill: "steady b \<Longrightarrow> bf_err b = None \<Longrightarrow> length (bf_buf b) < buf_len b \<Longrightarrow> 0 < n \<Longrightarrow> steady (fill n b)"
  by (cases n; cases "bf_src b") (auto simp: steady_def read_once_def Let_def)

lemma ReadSlice_steady:
  assumes "steady b" "ReadSlice d b = (fragment, err, b')"
  shows "bf_end b' = bf_end b \<and> bf_size b' = bf_size b \<and>
    (case err of
       None \<Rightarrow> steady b' \<and> (\<exists>l. fragment = l @ [d] \<and> d \<notin> set l \<and> pending b = l @ d # pending b')
     | Some BufferFull \<Rightarrow> steady b' \<and> d \<notin> set fragment \<and> pending b = fragment @ pending b'
     | Some (ReadErr e) \<Rightarrow> e = bf_end b \<and> d \<notin> set fragment \<and> pending b = fragment)"
  using assms
proof (induction d b rule: ReadSlice.induct)
  case (1 d b)
  consider "d \<in> set (bf_buf b)" | e where "d \<notin> set (bf_buf b)" "bf_err b = Some e"
    | "d \<notin> set (bf_buf b)" "bf_err b = None" "buf_len b \<le> length (bf_buf b)"
    | "d \<notin> set (bf_buf b)" "bf_err b = None" "\<not> buf_len b \<le> length (bf_buf b)"
    by fastforce
  then show ?case
  proof cases
    case 1
    let ?l = "takeWhile (\<lambda>c. c \<noteq> d) (bf_buf b)"
    obtain r where r: "dropWhile (\<lambda>c. c \<noteq> d) (bf_buf b) = d # r"
      using 1 hd_dropWhile [of "\<lambda>c. c \<noteq> d" "bf_buf b"]
      by (cases "dropWhile (\<lambda>c. c \<noteq> d) (bf_buf b)") (auto simp: dropWhile_eq_Nil_conv)
    have "bf_buf b = ?l @ d # r" using takeWhile_dropWhile_id [of "\<lambda>c. c \<noteq> d" "bf_buf b"] r by simp
    moreover have "d \<notin> set ?l" by (auto dest: set_takeWhileD)
    moreover have "fragment = ?l @ [d]" "err = None" "b' = b\<lparr>bf_buf := r\<rparr>"
      using 1 "1.prems"(2) r by (auto simp: ReadSlice.simps [of d b])
    ultimately show ?thesis using "1.prems"(1) by (auto simp: pending_def steady_def)
  next
    case (2 e)
    then show ?thesis using "1.prems" by (auto simp: ReadSlice.simps [of d b] pending_def steady_def)
  next
    case 3
    then show ?thesis using "1.prems" by (auto simp: ReadSlice.simps [of d b] pending_def steady_def)
  next
    case 4
    have "steady (fill maxConsecutiveEmptyReads b)"
      using "1.prems"(1) 4 steady_fill [of b maxConsecutiveEmptyReads]
      by (simp add: maxConsecutiveEmptyReads_def del: max.bounded_iff)
    moreover have "ReadSlice d (fill maxConsecutiveEmptyReads b) = (fragment, err, b')"
      using 4 "1.prems"(2) by (simp add: ReadSlice.simps [of d b] del: max.bounded_iff)
    ultimately show ?thesis
      using "1.IH" [OF 4] unfolding pending_fill [OF 4(2)] fill_size by blast
  qed
qed

lemma append_fragment_cut:
  "append_fragment limit fragment (take limit acc, limit < length acc) =
     (take limit (acc @ fragment), limit < length (acc @ fragment))"
  by (auto simp: append_fragment_def Let_def nat_diff_distrib' max_def)

definition pipe_result :: "read_error \<Rightarrow> 'e option \<times> 's \<Rightarrow> 'e pipe_end \<times> 's" where
  "pipe_result e r = (case fst r of Some x \<Rightarrow> Refused x | None \<Rightarrow> if e = EOF then Drained else ReadFailed e, snd r)"

lemma pipe_loop_entries:
  assumes "steady b" "10 \<notin> set acc" "0 < limit"
  shows "pipe_loop capture limit b (take limit acc, limit < length acc) s =
    pipe_result (bf_end b) (capture_all capture (entries limit (bf_end b) (acc @ pending b)) s)"
  using assms(1,2)
proof (induction "length (pending b)" arbitrary: b acc s rule: less_induct)
  case less
  obtain fragment err b' where rs: "ReadSlice 10 b = (fragment, err, b')" by (metis prod_cases3)
  note spec = ReadSlice_steady [OF less.prems(1) rs]
  have shorter: "err = None \<or> err = Some BufferFull \<Longrightarrow> length (pending b') < length (pending b)"
    using ReadSlice_shorter [OF rs] .
  consider "err = None" | "err = Some BufferFull" | e where "err = Some (ReadErr e)"
    by (metis option.exhaust slice_error.exhaust)
  then show ?case
  proof cases
    case 1
    then obtain l where l: "fragment = l @ [10]" "10 \<notin> set l" "pending b = l @ 10 # pending b'"
      and b': "steady b'" "bf_end b' = bf_end b" using spec by auto
    obtain we s' where c: "(case cut_entry limit True (acc @ l) of (p, fl) \<Rightarrow> capture p fl s) = (we, s')" by fastforce
    have "pipe_fragment capture limit fragment err (take limit acc, limit < length acc) s = (we, ([], False), s')"
      using c by (auto simp: pipe_fragment_def l append_fragment_cut cut_entry_def Let_def split: prod.splits)
    then show ?thesis
      using less.hyps [OF shorter, of "[]" s'] c less.prems l b' 1
      by (auto simp: pipe_loop.simps [of capture limit b] rs entries_line pipe_result_def
          simp flip: append_assoc split: option.split prod.splits)
  next
    case 2
    then have b': "10 \<notin> set fragment" "pending b = fragment @ pending b'" "steady b'" "bf_end b' = bf_end b"
      using spec by auto
    have "\<not> (fragment \<noteq> [] \<and> last fragment = 10)" using b'(1) last_in_set by metis
    then have "pipe_fragment capture limit fragment err (take limit acc, limit < length acc) s =
        (None, (take limit (acc @ fragment), limit < length (acc @ fragment)), s)"
      using 2 by (auto simp: pipe_fragment_def append_fragment_cut Let_def)
    then show ?thesis
      using less.hyps [OF shorter, of "acc @ fragment" s] less.prems b' 2
      by (simp add: pipe_loop.simps [of capture limit b] rs)
  next
    case (3 e)
    then have b': "10 \<notin> set fragment" "pending b = fragment" "e = bf_end b" using spec by auto
    have "\<not> (fragment \<noteq> [] \<and> last fragment = 10)" using b'(1) last_in_set by metis
    moreover have "take limit (acc @ fragment) \<noteq> [] \<longleftrightarrow> acc @ fragment \<noteq> []" using assms(3) by simp
    ultimately show ?thesis
      using less.prems b' 3 assms(3)
      by (auto simp: pipe_loop.simps [of capture limit b] rs pipe_fragment_def append_fragment_cut Let_def
          entries_rest pipe_result_def cut_entry_def split: option.splits prod.splits)
  qed
qed

text \<open>The reference takes a text apart without loss.\<close>

lemma split_lines_text:
  "concat (map (\<lambda>l. l @ [10]) (fst (split_lines bs))) @ snd (split_lines bs) = bs \<and>
   (\<forall>l \<in> set (snd (split_lines bs) # fst (split_lines bs)). 10 \<notin> set l)"
  by (induction bs) (auto split: prod.splits list.splits)

lemma Pipe_entries:
  assumes "[] \<notin> set src"
  shows "Pipe capture maxLine src e s =
    pipe_result e (capture_all capture (entries (pipe_limit maxLine) e (concat src)) s)"
proof -
  have "0 < pipe_limit maxLine" by (auto simp: pipe_limit_def maxFramePayload_def)
  then show ?thesis
    using pipe_loop_entries [of "NewReaderSize src e (min (pipe_limit maxLine + 1) 65536)" "[]" "pipe_limit maxLine" capture s]
      assms by (simp add: Pipe_def NewReaderSize_def steady_def pending_def)
qed

section \<open>Sinks\<close>

text \<open>What the loop relies on: a line is refused only by a sink that is closed, and taking a line does not
  close it.\<close>

locale line_sink =
  fixes capture :: "byte list \<Rightarrow> byte \<Rightarrow> 's \<Rightarrow> 'e option \<times> 's" and closed :: "'s \<Rightarrow> bool"
  assumes refused: "capture p fl s = (Some err, s') \<Longrightarrow> closed s"
    and kept_open: "capture p fl s = (None, s') \<Longrightarrow> \<not> closed s \<Longrightarrow> \<not> closed s'"
begin

lemma capture_all_accepts: "\<not> closed s \<Longrightarrow> fst (capture_all capture es s) = None \<and> \<not> closed (snd (capture_all capture es s))"
proof (induction es arbitrary: s)
  case (Cons en es)
  obtain p fl where "en = (p, fl)" by fastforce
  then show ?case
    using Cons refused [of p fl s] kept_open [of p fl s] by (auto split: prod.splits option.splits)
qed simp

text \<open>An open sink drains the source.\<close>

lemma Pipe_drains:
  assumes "\<not> closed s" "[] \<notin> set src"
  shows "Pipe capture maxLine src EOF s =
    (Drained, snd (capture_all capture (entries (pipe_limit maxLine) EOF (concat src)) s))"
  using capture_all_accepts [OF assms(1), of "entries (pipe_limit maxLine) EOF (concat src)"]
  by (simp add: Pipe_entries [OF assms(2)] pipe_result_def)

end

section \<open>Properties\<close>

text \<open>C37: turning output into log lines does not depend on how the operating system delivers it. For
  every way of cutting the same bytes into reads (none of them empty), \<^verbatim>\<open>Pipe\<close> hands over exactly the lines of
  the text, each cut at the limit and flagged when it is longer, without its carriage return, flagged when it is not UTF-8, and
  an unfinished last line flagged as partial; it stops early only when the sink refuses a line. A read error
  other than the end of file ends it with that error, and the unfinished line is not handed over. The lines
  put together again are the text.\<close>

theorem Pipe_lines:
  assumes "[] \<notin> set src"
  shows "Pipe capture maxLine src e s =
           pipe_result e (capture_all capture (entries (pipe_limit maxLine) e (concat src)) s) \<and>
         (\<exists>ls rest. split_lines (concat src) = (ls, rest) \<and> concat (map (\<lambda>l. l @ [10]) ls) @ rest = concat src \<and>
            10 \<notin> set rest \<and> list_all (\<lambda>l. 10 \<notin> set l) ls)"
proof (intro conjI)
  show "Pipe capture maxLine src e s =
      pipe_result e (capture_all capture (entries (pipe_limit maxLine) e (concat src)) s)"
    by (rule Pipe_entries [OF assms])
  show "\<exists>ls rest. split_lines (concat src) = (ls, rest) \<and> concat (map (\<lambda>l. l @ [10]) ls) @ rest = concat src \<and>
      10 \<notin> set rest \<and> list_all (\<lambda>l. 10 \<notin> set l) ls"
    using split_lines_text [of "concat src"]
    by (intro exI [of _ "fst (split_lines (concat src))"] exI [of _ "snd (split_lines (concat src))"])
      (auto simp: list_all_iff)
qed

text \<open>Five reads, two full lines (one ended by a carriage return and a newline, one too long) and an
  unfinished one, collected in a list.\<close>

theorem Pipe_lines_witness:
  "Pipe (\<lambda>p fl s. (None :: unit option, s @ [(p, fl)])) 3 [[97], [98, 13], [10, 99, 100], [101, 102, 10], [255]] EOF [] =
     (Drained, [([97, 98], 0), ([99, 100, 101], FlagTruncated), ([255], FlagPartial OR FlagInvalidUTF8)])"
proof -
  let ?src = "[[97], [98, 13], [10, 99, 100], [101, 102, 10], [255]] :: byte list list"
  have limit: "pipe_limit 3 = 3" by (simp add: pipe_limit_def maxFramePayload_def)
  have es: "entries (pipe_limit 3) EOF (concat ?src) =
      [([97, 98], 0), ([99, 100, 101], FlagTruncated), ([255], FlagPartial OR FlagInvalidUTF8)]"
    unfolding limit by code_simp
  have "[] \<notin> set ?src" by simp
  from conjunct1 [OF Pipe_lines [OF this, of "\<lambda>p fl s. (None :: unit option, s @ [(p, fl)])" 3 EOF "[]"]]
  show ?thesis unfolding es by (simp add: pipe_result_def)
qed

end
