(* ===== verification/Log_Writer.thy ===== *)
theory Log_Writer
  imports Log_Read Log_Pipe
begin

text \<open>
  The writer of a run's log, \<^verbatim>\<open>Writer\<close> of \<^verbatim>\<open>src/internal/logstore/logstore.go\<close>: frames appended to
  compressed chunk files, rotation, the index, the size budget with eviction of the oldest chunks,
  degraded capture while storage fails, recovery, and closing.

  The writer holds its locks for a whole line, so a line is one operation. The run directory is part of the
  state. Every operation of the file system and of the encoder may fail: the environment of an
  operation says which does. The compressor is a parameter: what a chunk file contains after the writes the
  encoder flushed, after it was closed, and after a write that failed part way. An encoder that failed keeps
  failing until it is reset. A crash of the daemon leaves the directory as it is; what an operating system crash
  takes from files that are not yet synced is not part of the model.
\<close>

section \<open>State\<close>

record encoder =
  en_zstd :: zstd
  en_open :: "byte list list \<Rightarrow> byte list"
  en_closed :: "byte list list \<Rightarrow> byte list"
  en_torn :: "byte list list \<Rightarrow> byte list \<Rightarrow> nat \<Rightarrow> byte list"

datatype log_error =
  WriterClosed | NoChunk | OpenChunk int | FinishChunk int | IndexChunk int | CreateEncoder | Storage string

record writer =
  w_job :: string
  w_kind :: string
  w_dirExists :: bool
  w_dir :: run_buffer
  w_file :: bool
  w_enc :: "byte list list option"
  w_broken :: bool
  w_chunk :: int
  w_chunkRaw :: int
  w_chunkFirst :: "64 word"
  w_seq :: "64 word"
  w_lastStored :: "64 word"
  w_total :: int
  w_buffered :: int
  w_maxBytes :: int
  w_maxLine :: int
  w_dropNew :: bool
  w_frameSync :: bool
  w_unsynced :: int
  w_truncated :: bool
  w_idx :: log_index
  w_closed :: bool
  w_closeErr :: "log_error option"
  w_chunkErr :: "log_error option"
  w_chunkIndexOnly :: bool
  w_degraded :: bool
  w_degradedErr :: "log_error option"
  w_retryAt :: time
  w_retryDelay :: duration
  w_episodeFrames :: int
  w_episodeBytes :: int
  w_droppedFrames :: int
  w_droppedBytes :: int
  w_syncFailures :: int
  w_syncFailing :: bool
  w_lastSyncErr :: "log_error option"
  w_dirty :: bool
  w_sealed :: "int list"

text \<open>\<open>w_file\<close> is an open chunk file, \<open>w_enc\<close> the encoder with what it flushed since its reset (none:
  no encoder yet), \<open>w_dirty\<close> membership in the store's set of dirty writers and \<open>w_sealed\<close> the chunks
  queued for the group sync.\<close>

record log_cfg =
  lc_enc :: encoder
  lc_errText :: "log_error \<Rightarrow> string"
  lc_syncMaxDirty :: int

definition chunkLimit :: int where "chunkLimit = 1048576"
definition captureRetryMin :: duration where "captureRetryMin = Second"
definition captureRetryMax :: duration where "captureRetryMax = 30 * Second"

section \<open>The environment of an operation\<close>

text \<open>An index is installed, or not, or it is in place but its sync failed.\<close>

datatype index_write = IndexOk | IndexFailed | IndexUnsynced

text \<open>\<open>fe_close\<close>: the encoder's end mark was written (none) or failed part way; \<open>fe_size\<close>: the size
  \<^verbatim>\<open>Stat\<close> reports, if it works; \<open>fe_room\<close>: \<^verbatim>\<open>deferSealRoom\<close>.\<close>

record finish_env =
  fe_close :: "nat option"
  fe_sync :: bool
  fe_size :: "int option"
  fe_fclose :: bool
  fe_room :: bool
  fe_index :: index_write

record rotate_env =
  re_create :: bool
  re_finish :: finish_env
  re_encoder :: bool
  re_cleanup :: bool

text \<open>\<open>we_stuck\<close>: the chunks whose file cannot be removed; \<open>we_write\<close>: the frame was written (none) or
  the write failed after some of its bytes.\<close>

record write_env =
  we_room :: rotate_env
  we_stuck :: "int \<Rightarrow> bool"
  we_rotate :: rotate_env
  we_now :: time
  we_write :: "nat option"

record recover_env =
  ce_index :: index_write
  ce_size :: "int option"
  ce_mkdir :: bool
  ce_rotate :: rotate_env
  ce_summary :: write_env
  ce_failed :: time

datatype sync_result = SyncOk | SyncClosed | SyncFailed log_error

record capture_env =
  ca_now :: time
  ca_recover :: recover_env
  ca_write :: write_env
  ca_failed :: time
  ca_sync :: sync_result

section \<open>Files\<close>

definition set_file :: "int \<Rightarrow> byte list \<Rightarrow> writer \<Rightarrow> writer" where
  "set_file n b w = w\<lparr>w_dir := (w_dir w)\<lparr>rb_files := (n, b) # filter (\<lambda>f. fst f \<noteq> n) (rb_files (w_dir w))\<rparr>\<rparr>"

definition remove_file :: "int \<Rightarrow> writer \<Rightarrow> writer" where
  "remove_file n w = w\<lparr>w_dir := (w_dir w)\<lparr>rb_files := filter (\<lambda>f. fst f \<noteq> n) (rb_files (w_dir w))\<rparr>\<rparr>"

definition has_file :: "int \<Rightarrow> writer \<Rightarrow> bool" where
  "has_file n w \<longleftrightarrow> n \<in> fst ` set (rb_files (w_dir w))"

definition writeIndexSync :: "bool \<Rightarrow> index_write \<Rightarrow> writer \<Rightarrow> bool \<times> writer" where
  "writeIndexSync sync r w =
     (let idx = (w_idx w)\<lparr>ix_Job := w_job w, ix_Kind := w_kind w, ix_Version := 1, ix_Truncated := w_truncated w,
            ix_DroppedFrames := w_droppedFrames w, ix_DroppedBytes := w_droppedBytes w, ix_SyncFailures := w_syncFailures w\<rparr>;
          w1 = w\<lparr>w_idx := idx\<rparr>
      in if r = IndexFailed then (False, w1)
         else (r = IndexOk \<or> \<not> sync, w1\<lparr>w_dir := (w_dir w1)\<lparr>rb_index := Some idx\<rparr>\<rparr>))"

section \<open>Chunks\<close>

definition finishChunk :: "log_cfg \<Rightarrow> finish_env \<Rightarrow> writer \<Rightarrow> log_error option \<times> writer" where
  "finishChunk c e w =
     (if \<not> w_file w then
        if w_chunkErr w = None \<and> w_enc w \<noteq> None then
          (case writeIndexSync True (fe_index e) w of
             (True, w1) \<Rightarrow> (w_chunkErr w1, w1)
           | (False, w1) \<Rightarrow>
               let w2 = w1\<lparr>w_chunkErr := Some (IndexChunk (w_chunk w)), w_chunkIndexOnly := True\<rparr>
               in (w_chunkErr w2, w2))
        else (w_chunkErr w, w)
      else
        let segs = (case w_enc w of Some s \<Rightarrow> s | None \<Rightarrow> []);
            w1 = (if w_broken w then w
                  else case fe_close e of
                         None \<Rightarrow> set_file (w_chunk w) (en_closed (lc_enc c) segs) w
                       | Some k \<Rightarrow> (set_file (w_chunk w) (en_torn (lc_enc c) segs [] k) w)\<lparr>w_broken := True\<rparr>);
            deferred = (\<not> w_frameSync w \<and> fe_room e);
            w2 = w1\<lparr>w_file := False\<rparr>
        in case fe_size e of
             None \<Rightarrow> (Some (FinishChunk (w_chunk w)), w2\<lparr>w_chunkErr := Some (FinishChunk (w_chunk w)), w_chunkIndexOnly := False\<rparr>)
           | Some sz \<Rightarrow>
               if w_broken w1 \<or> (\<not> deferred \<and> \<not> fe_sync e) \<or> \<not> fe_fclose e then
                 (Some (FinishChunk (w_chunk w)), w2\<lparr>w_chunkErr := Some (FinishChunk (w_chunk w)), w_chunkIndexOnly := False\<rparr>)
               else
                 let w3 = (if w_seq w \<ge> w_chunkFirst w
                           then w2\<lparr>w_idx := (w_idx w2)\<lparr>ix_Chunks := ix_Chunks (w_idx w2) @
                                  [\<lparr>cm_Number = w_chunk w, cm_First = w_chunkFirst w, cm_Last = w_seq w, cm_Bytes = sz,
                                    cm_Raw = w_chunkRaw w, cm_Archived = False\<rparr>]\<rparr>\<rparr>
                           else w2)
                 in case writeIndexSync (\<not> deferred) (fe_index e) w3 of
                      (ok, w4) \<Rightarrow>
                        let w5 = (if deferred then w4\<lparr>w_sealed := w_sealed w4 @ [w_chunk w]\<rparr> else w4);
                            w6 = (if ok then w5 else w5\<lparr>w_chunkErr := Some (IndexChunk (w_chunk w)), w_chunkIndexOnly := True\<rparr>)
                        in (w_chunkErr w6, w6))"

definition rotate :: "log_cfg \<Rightarrow> rotate_env \<Rightarrow> writer \<Rightarrow> log_error option \<times> writer" where
  "rotate c e w =
     (case w_chunkErr w of
        Some x \<Rightarrow> (Some x, w)
      | None \<Rightarrow>
          let nxt = w_chunk w + 1;
              cleanup = (if re_cleanup e then remove_file nxt else id)
          in if \<not> w_dirExists w \<or> has_file nxt w \<or> \<not> re_create e then (Some (OpenChunk nxt), w)
             else
               let w1 = set_file nxt [] w
               in case (if w_enc w \<noteq> None \<and> w_file w then finishChunk c (re_finish e) w1 else (None, w1)) of
                    (Some x, w2) \<Rightarrow> (Some x, cleanup (w2\<lparr>w_chunkErr := Some x\<rparr>))
                  | (None, w2) \<Rightarrow>
                      if w_enc w = None \<and> \<not> re_encoder e then (Some CreateEncoder, cleanup w2)
                      else (None, w2\<lparr>w_chunk := nxt, w_file := True, w_enc := Some [], w_broken := False, w_chunkRaw := 0,
                                     w_chunkFirst := w_seq w2 + 1, w_unsynced := 0\<rparr>))"

section \<open>Appending a frame\<close>

text \<open>The loop that evicts the oldest indexed chunks; \<open>True\<close>: the frame may be written.\<close>

fun evict :: "(int \<Rightarrow> bool) \<Rightarrow> int \<Rightarrow> chunkMeta list \<Rightarrow> writer \<Rightarrow> (log_error + bool) \<times> writer" where
  "evict stuck frameSize [] w = (Inr True, w)"
| "evict stuck frameSize (oldest # ms) w =
     (if w_buffered w + frameSize > w_maxBytes w then
        if has_file (cm_Number oldest) w \<and> stuck (cm_Number oldest) then (Inl (Storage ''remove''), w)
        else
          let w1 = remove_file (cm_Number oldest) w
          in evict stuck frameSize ms (w1\<lparr>w_total := w_total w1 - cm_Raw oldest, w_buffered := w_buffered w1 - cm_Raw oldest,
               w_idx := (w_idx w1)\<lparr>ix_Chunks := ms\<rparr>\<rparr>)
      else (Inr True, w))"

definition make_room :: "log_cfg \<Rightarrow> write_env \<Rightarrow> int \<Rightarrow> writer \<Rightarrow> (log_error + bool) \<times> writer" where
  "make_room c e frameSize w =
     (if w_maxBytes w > 0 \<and> w_buffered w + frameSize > w_maxBytes w then
        if w_dropNew w \<or> frameSize > w_maxBytes w then (Inr False, w\<lparr>w_truncated := True\<rparr>)
        else case (if w_chunkRaw w > 0 then rotate c (we_room e) w else (None, w)) of
               (Some x, w1) \<Rightarrow> (Inl x, w1)
             | (None, w1) \<Rightarrow> evict (we_stuck e) frameSize (ix_Chunks (w_idx w1)) (w1\<lparr>w_truncated := True\<rparr>)
      else (Inr True, w))"

definition append_frame :: "log_cfg \<Rightarrow> write_env \<Rightarrow> byte \<Rightarrow> byte list \<Rightarrow> byte \<Rightarrow> writer \<Rightarrow> (log_error + bool) \<times> writer" where
  "append_frame c e stream payload flags w =
     (let segs = (case w_enc w of Some s \<Rightarrow> s | None \<Rightarrow> []);
          seq = w_seq w + 1;
          frameSize = 24 + int (length payload);
          bs = encodeWithHeader \<lparr>fr_Sequence = seq, fr_Timestamp = we_now e, fr_Stream = stream, fr_Flags = flags,
                 fr_Payload = payload\<rparr>;
          w1 = w\<lparr>w_seq := seq\<rparr>
      in if w_broken w then (Inl (Storage ''write''), w1)
         else case we_write e of
                Some k \<Rightarrow> (Inl (Storage ''write''), (set_file (w_chunk w) (en_torn (lc_enc c) segs bs k) w1)\<lparr>w_broken := True\<rparr>)
              | None \<Rightarrow>
                  let w2 = (set_file (w_chunk w) (en_open (lc_enc c) (segs @ [bs])) w1)\<lparr>w_enc := Some (segs @ [bs]),
                         w_lastStored := seq, w_unsynced := w_unsynced w + frameSize, w_chunkRaw := w_chunkRaw w + frameSize,
                         w_total := w_total w + frameSize, w_buffered := w_buffered w + frameSize\<rparr>
                  in if w_frameSync w then (Inr True, w2)
                     else (Inr (w_unsynced w2 \<ge> lc_syncMaxDirty c), if w_unsynced w = 0 then w2\<lparr>w_dirty := True\<rparr> else w2))"

text \<open>Room, a fresh chunk if the frame does not fit in this one, and the frame.\<close>

definition store_frame :: "log_cfg \<Rightarrow> write_env \<Rightarrow> byte \<Rightarrow> byte list \<Rightarrow> byte \<Rightarrow> writer \<Rightarrow> (log_error + bool) \<times> writer" where
  "store_frame c e stream payload flags w =
     (let frameSize = 24 + int (length payload)
      in case make_room c e frameSize w of
           (Inl x, w2) \<Rightarrow> (Inl x, w2)
         | (Inr False, w2) \<Rightarrow> (Inr False, w2)
         | (Inr True, w2) \<Rightarrow>
             (case (if w_chunkRaw w2 + frameSize > chunkLimit \<and> w_chunkRaw w2 > 0 then rotate c (we_rotate e) w2
                    else (None, w2)) of
                (Some x, w3) \<Rightarrow> (Inl x, w3)
              | (None, w3) \<Rightarrow> append_frame c e stream payload flags w3))"

definition writeLocked :: "log_cfg \<Rightarrow> write_env \<Rightarrow> byte \<Rightarrow> byte list \<Rightarrow> byte \<Rightarrow> writer \<Rightarrow> (log_error + bool) \<times> writer" where
  "writeLocked c e stream payload flags w =
     (if w_closed w then (Inl WriterClosed, w)
      else case w_chunkErr w of
             Some x \<Rightarrow> (Inl x, w)
           | None \<Rightarrow>
               if \<not> w_file w \<or> w_enc w = None then (Inl NoChunk, w)
               else if int (length payload) > w_maxLine w \<and> w_maxLine w > 0 then
                 store_frame c e stream (take (nat (w_maxLine w)) payload) (flags OR FlagTruncated) (w\<lparr>w_truncated := True\<rparr>)
               else
                 store_frame c e stream payload flags (if flags AND FlagTruncated \<noteq> 0 then w\<lparr>w_truncated := True\<rparr> else w))"

section \<open>Degraded capture\<close>

definition discard :: "nat \<Rightarrow> writer \<Rightarrow> writer" where
  "discard payload w =
     (let sz = int payload + 24
      in w\<lparr>w_droppedFrames := w_droppedFrames w + 1, w_droppedBytes := w_droppedBytes w + sz,
           w_episodeFrames := w_episodeFrames w + 1, w_episodeBytes := w_episodeBytes w + sz, w_truncated := True\<rparr>)"

definition enterDegraded :: "time \<Rightarrow> log_error \<Rightarrow> writer \<Rightarrow> writer" where
  "enterDegraded now x w =
     (let w1 = (if \<not> w_degraded w then w\<lparr>w_degraded := True, w_retryDelay := captureRetryMin\<rparr> else w)
      in w1\<lparr>w_degradedErr := Some x, w_truncated := True, w_retryAt := now + w_retryDelay w1,
            w_retryDelay := min (2 * w_retryDelay w1) captureRetryMax\<rparr>)"

definition indexAbandonedChunk :: "int option \<Rightarrow> writer \<Rightarrow> writer" where
  "indexAbandonedChunk sz w =
     (let ms = ix_Chunks (w_idx w)
      in if w_enc w = None \<or> w_chunkRaw w = 0 \<or> w_lastStored w < w_chunkFirst w then w
         else if ms \<noteq> [] \<and> cm_Number (last ms) = w_chunk w then w
         else w\<lparr>w_idx := (w_idx w)\<lparr>ix_Chunks := ms @
                  [\<lparr>cm_Number = w_chunk w, cm_First = w_chunkFirst w, cm_Last = w_lastStored w,
                    cm_Bytes = (case sz of Some n \<Rightarrow> n | None \<Rightarrow> 0), cm_Raw = w_chunkRaw w, cm_Archived = False\<rparr>]\<rparr>,
                w_chunkRaw := 0\<rparr>)"

definition reopenChunk :: "log_cfg \<Rightarrow> recover_env \<Rightarrow> writer \<Rightarrow> log_error option \<times> writer" where
  "reopenChunk c e w =
     (let (stop, w1) =
        (case w_chunkErr w of
           None \<Rightarrow> (False, w)
         | Some x \<Rightarrow>
             if w_chunkIndexOnly w then
               (case writeIndexSync True (ce_index e) w of
                  (True, w1) \<Rightarrow> (False, w1\<lparr>w_chunkErr := None, w_chunkIndexOnly := False\<rparr>)
                | (False, w1) \<Rightarrow> (True, w1))
             else (False, w\<lparr>w_chunkErr := None, w_chunkIndexOnly := False\<rparr>))
      in if stop then (w_chunkErr w, w1)
         else
           let w2 = indexAbandonedChunk (ce_size e) (w1\<lparr>w_file := False\<rparr>)
           in if \<not> w_dirExists w2 \<and> \<not> ce_mkdir e then (Some (Storage ''mkdir''), w2)
              else rotate c (ce_rotate e) (w2\<lparr>w_dirExists := True\<rparr>))"

definition summary_text :: "log_cfg \<Rightarrow> writer \<Rightarrow> byte list" where
  "summary_text c w = bytes_of (''log capture recovered: '' @ FormatInt (w_episodeFrames w) @ '' lines ('' @
     FormatInt (w_episodeBytes w) @ '' bytes) of output were not stored: '' @
     (case w_degradedErr w of Some x \<Rightarrow> lc_errText c x | None \<Rightarrow> ''<nil>''))"

definition recoverLocked :: "log_cfg \<Rightarrow> time \<Rightarrow> recover_env \<Rightarrow> writer \<Rightarrow> bool \<times> writer" where
  "recoverLocked c now e w =
     (case reopenChunk c e w of
        (Some x, w1) \<Rightarrow>
          (False, w1\<lparr>w_degradedErr := Some x, w_retryAt := now + w_retryDelay w1,
                     w_retryDelay := min (2 * w_retryDelay w1) captureRetryMax\<rparr>)
      | (None, w1) \<Rightarrow>
          (case writeLocked c (ce_summary e) System (summary_text c w1) FlagTruncated w1 of
             (Inl x, w2) \<Rightarrow> (False, enterDegraded (ce_failed e) x w2)
           | (Inr _, w2) \<Rightarrow>
               (True, w2\<lparr>w_degraded := False, w_degradedErr := None, w_episodeFrames := 0, w_episodeBytes := 0\<rparr>)))"

definition captureLocked ::
  "log_cfg \<Rightarrow> capture_env \<Rightarrow> byte \<Rightarrow> byte list \<Rightarrow> byte \<Rightarrow> writer \<Rightarrow> (log_error + bool) \<times> writer" where
  "captureLocked c e stream payload flags w =
     (if w_closed w then (Inl WriterClosed, w)
      else
        let (ready, w1) =
          (if w_degraded w then
             (if ca_now e < w_retryAt w then (False, w) else recoverLocked c (ca_now e) (ca_recover e) w)
           else (True, w))
        in if \<not> ready then (Inr False, discard (length payload) w1)
           else case writeLocked c (ca_write e) stream payload flags w1 of
                  (Inl x, w2) \<Rightarrow> (Inr False, discard (length payload) (enterDegraded (ca_failed e) x w2))
                | (Inr needSync, w2) \<Rightarrow> (Inr needSync, w2))"

section \<open>Syncing, and the operations of the writer\<close>

definition writer_Sync :: "sync_result \<Rightarrow> writer \<Rightarrow> log_error option \<times> writer" where
  "writer_Sync r w =
     (if w_closed w \<or> \<not> w_file w \<or> w_unsynced w = 0 then (w_lastSyncErr w, w)
      else
        let w1 = w\<lparr>w_unsynced := 0\<rparr>
        in case r of
             SyncClosed \<Rightarrow> (None, w1)
           | SyncOk \<Rightarrow> (None, w1\<lparr>w_lastSyncErr := None, w_syncFailing := False\<rparr>)
           | SyncFailed x \<Rightarrow>
               (Some x, w1\<lparr>w_lastSyncErr := Some x, w_syncFailures := w_syncFailures w1 + 1, w_truncated := True,
                           w_syncFailing := True\<rparr>))"

definition capture :: "log_cfg \<Rightarrow> capture_env \<Rightarrow> byte \<Rightarrow> byte list \<Rightarrow> byte \<Rightarrow> writer \<Rightarrow> log_error option \<times> writer" where
  "capture c e stream payload flags w =
     (case captureLocked c e stream payload flags w of
        (Inl x, w1) \<Rightarrow> (Some x, w1)
      | (Inr needSync, w1) \<Rightarrow> (None, if needSync then snd (writer_Sync (ca_sync e) w1) else w1))"

definition writer_Write :: "log_cfg \<Rightarrow> capture_env \<Rightarrow> byte \<Rightarrow> byte list \<Rightarrow> byte \<Rightarrow> writer \<Rightarrow> log_error option \<times> writer" where
  "writer_Write c e stream payload flags w =
     (case writeLocked c (ca_write e) stream payload flags w of
        (Inl x, w1) \<Rightarrow> (Some x, w1)
      | (Inr needSync, w1) \<Rightarrow>
          if needSync then
            (case writer_Sync (ca_sync e) w1 of (x, w2) \<Rightarrow> (if w_frameSync w2 then x else None, w2))
          else (None, w1))"

definition writer_Close :: "log_cfg \<Rightarrow> time \<Rightarrow> recover_env \<Rightarrow> finish_env \<Rightarrow> writer \<Rightarrow> log_error option \<times> writer" where
  "writer_Close c now r e w =
     (if w_closed w then (w_closeErr w, w)
      else
        let w1 = (if w_degraded w then snd (recoverLocked c now r w) else w);
            (x, w2) = finishChunk c e (w1\<lparr>w_closed := True, w_idx := (w_idx w1)\<lparr>ix_Final := True\<rparr>\<rparr>)
        in (x, w2\<lparr>w_closeErr := x\<rparr>))"

text \<open>\<^verbatim>\<open>sealForArchive\<close>, with an archive attached: the last chunk to archive.\<close>

definition sealForArchive :: "log_cfg \<Rightarrow> rotate_env \<Rightarrow> writer \<Rightarrow> (log_error + int) \<times> writer" where
  "sealForArchive c e w =
     (if w_closed w then (Inr 0, w)
      else case (if w_chunkRaw w > 0 then rotate c e w else (None, w)) of
             (Some x, w1) \<Rightarrow> (Inl x, w1)
           | (None, w1) \<Rightarrow> (Inr (w_chunk w1 - 1), w1))"

record writer_options =
  wo_MaxBytes :: int
  wo_MaxLine :: int
  wo_DropNew :: bool

definition new_writer :: "string \<Rightarrow> string \<Rightarrow> writer_options \<Rightarrow> bool \<Rightarrow> writer" where
  "new_writer job kind opt frameSync =
     \<lparr>w_job = job, w_kind = kind, w_dirExists = False, w_dir = \<lparr>rb_files = [], rb_index = None\<rparr>, w_file = False,
      w_enc = None, w_broken = False, w_chunk = 0, w_chunkRaw = 0, w_chunkFirst = 0, w_seq = 0, w_lastStored = 0,
      w_total = 0, w_buffered = 0, w_maxBytes = wo_MaxBytes opt, w_maxLine = wo_MaxLine opt, w_dropNew = wo_DropNew opt,
      w_frameSync = frameSync, w_unsynced = 0, w_truncated = False,
      w_idx = \<lparr>ix_Job = '''', ix_Kind = '''', ix_Version = 0, ix_Chunks = [], ix_Final = False, ix_Truncated = False,
               ix_DroppedFrames = 0, ix_DroppedBytes = 0, ix_SyncFailures = 0\<rparr>,
      w_closed = False, w_closeErr = None, w_chunkErr = None, w_chunkIndexOnly = False, w_degraded = False,
      w_degradedErr = None, w_retryAt = 0, w_retryDelay = 0, w_episodeFrames = 0, w_episodeBytes = 0,
      w_droppedFrames = 0, w_droppedBytes = 0, w_syncFailures = 0, w_syncFailing = False, w_lastSyncErr = None,
      w_dirty = False, w_sealed = []\<rparr>"

definition log_Open :: "log_cfg \<Rightarrow> bool \<Rightarrow> rotate_env \<Rightarrow> string \<Rightarrow> string \<Rightarrow> writer_options \<Rightarrow> bool \<Rightarrow> log_error + writer" where
  "log_Open c mkdir e job kind opt frameSync =
     (if \<not> mkdir then Inl (Storage ''mkdir'')
      else case rotate c e ((new_writer job kind opt frameSync)\<lparr>w_dirExists := True\<rparr>) of
             (Some x, _) \<Rightarrow> Inl x
           | (None, w) \<Rightarrow> Inr w)"

definition OpenDegraded :: "time \<Rightarrow> log_error \<Rightarrow> string \<Rightarrow> string \<Rightarrow> writer_options \<Rightarrow> bool \<Rightarrow> writer" where
  "OpenDegraded now cause job kind opt frameSync = enterDegraded now cause (new_writer job kind opt frameSync)"
section \<open>The writer as a sink of lines\<close>

text \<open>The writer \<^verbatim>\<open>Pipe\<close> hands its lines to, with the environments of the lines to come.\<close>

definition pipe_capture ::
  "log_cfg \<Rightarrow> (nat \<Rightarrow> capture_env) \<Rightarrow> byte \<Rightarrow> byte list \<Rightarrow> byte \<Rightarrow> nat \<times> writer \<Rightarrow> log_error option \<times> nat \<times> writer" where
  "pipe_capture c e stream payload flags s =
     (case s of (n, w) \<Rightarrow> (case capture c (e n) stream payload flags w of (x, w') \<Rightarrow> (x, Suc n, w')))"

text \<open>A truncated log stays truncated, and nothing but \<^verbatim>\<open>Close\<close> closes it.\<close>

lemma writeIndex_truncated:
  "w_truncated (snd (writeIndexSync sync e w)) = w_truncated w" "w_closed (snd (writeIndexSync sync e w)) = w_closed w"
  by (simp_all add: writeIndexSync_def Let_def)

lemma finishChunk_truncated:
  "w_truncated (snd (finishChunk c e w)) = w_truncated w" "w_closed (snd (finishChunk c e w)) = w_closed w"
  by (auto simp: finishChunk_def Let_def set_file_def writeIndexSync_def split: option.split prod.split bool.split)

lemma rotate_truncated:
  "w_truncated (snd (rotate c e w)) = w_truncated w" "w_closed (snd (rotate c e w)) = w_closed w"
proof -
  have "w_truncated w2 = w_truncated w" "w_closed w2 = w_closed w" if "finishChunk c (re_finish e) (set_file n b w) = (x, w2)" for n b x w2
    using finishChunk_truncated [of c "re_finish e" "set_file n b w"] that by (simp_all add: set_file_def)
  then show "w_truncated (snd (rotate c e w)) = w_truncated w" "w_closed (snd (rotate c e w)) = w_closed w"
    by (auto simp: rotate_def Let_def set_file_def remove_file_def split: option.split prod.split)
qed

lemma evict_truncated:
  "w_truncated w \<Longrightarrow> w_truncated (snd (evict stuck n ms w))" "w_closed (snd (evict stuck n ms w)) = w_closed w"
  by (induction ms arbitrary: w) (auto simp: Let_def remove_file_def)

lemma make_room_truncated:
  "w_truncated (snd (make_room c e n w)) \<or> \<not> w_truncated w" "w_closed (snd (make_room c e n w)) = w_closed w"
  using rotate_truncated [of c "we_room e" w] by (auto simp: make_room_def evict_truncated split: prod.split option.split)

lemma append_truncated:
  "w_truncated (snd (append_frame c e stream payload flags w)) = w_truncated w"
  "w_closed (snd (append_frame c e stream payload flags w)) = w_closed w"
  by (simp_all add: append_frame_def Let_def set_file_def split: option.split)

lemma store_truncated:
  "w_truncated (snd (store_frame c e stream payload flags w)) \<or> \<not> w_truncated w"
  "w_closed (snd (store_frame c e stream payload flags w)) = w_closed w"
proof -
  obtain x w2 where m: "make_room c e (24 + int (length payload)) w = (x, w2)" by fastforce
  have t: "w_truncated w \<Longrightarrow> w_truncated w2" "w_closed w2 = w_closed w"
    using make_room_truncated [of c e "24 + int (length payload)" w] m by simp_all
  obtain y w3 where q: "(if w_chunkRaw w2 + (24 + int (length payload)) > chunkLimit \<and> w_chunkRaw w2 > 0
      then rotate c (we_rotate e) w2 else (None, w2)) = (y, w3)" by fastforce
  have t3: "w_truncated w3 = w_truncated w2" "w_closed w3 = w_closed w2"
    using q rotate_truncated [of c "we_rotate e" w2] by (simp_all split: if_splits)
  have res: "snd (store_frame c e stream payload flags w) = w2 \<or> snd (store_frame c e stream payload flags w) = w3 \<or>
      snd (store_frame c e stream payload flags w) = snd (append_frame c e stream payload flags w3)"
    unfolding store_frame_def Let_def m prod.case q by (cases x; cases y) (simp_all split: bool.split)
  show "w_truncated (snd (store_frame c e stream payload flags w)) \<or> \<not> w_truncated w"
    using res t t3 append_truncated(1) by metis
  show "w_closed (snd (store_frame c e stream payload flags w)) = w_closed w"
    using res t t3 append_truncated(2) by metis
qed

lemma writeLocked_cases:
  assumes "writeLocked c e stream payload flags w = (x, w')"
  obtains (refused) y where "x = Inl y" "w' = w"
    | (whole) "\<not> w_closed w" "store_frame c e stream payload flags w = (x, w')"
    | (cut) payload' flags' where "store_frame c e stream payload' flags' (w\<lparr>w_truncated := True\<rparr>) = (x, w')"
  using assms by (auto simp: writeLocked_def split: if_splits option.splits)

lemma writeLocked_truncated:
  "w_truncated (snd (writeLocked c e stream payload flags w)) \<or> \<not> w_truncated w"
  "w_closed (snd (writeLocked c e stream payload flags w)) = w_closed w"
proof -
  obtain x w' where w': "writeLocked c e stream payload flags w = (x, w')" by fastforce
  then have "(w_truncated w \<longrightarrow> w_truncated w') \<and> w_closed w' = w_closed w"
  proof (cases rule: writeLocked_cases)
    case whole
    then show ?thesis using store_truncated [of c e stream payload flags w] by auto
  next
    case (cut payload' flags')
    then show ?thesis using store_truncated [of c e stream payload' flags' "w\<lparr>w_truncated := True\<rparr>"] by auto
  qed simp
  then show "w_truncated (snd (writeLocked c e stream payload flags w)) \<or> \<not> w_truncated w"
    "w_closed (snd (writeLocked c e stream payload flags w)) = w_closed w"
    using w' by auto
qed

lemma sync_truncated:
  "w_truncated (snd (writer_Sync e w)) \<or> \<not> w_truncated w" "w_closed (snd (writer_Sync e w)) = w_closed w"
  by (simp_all add: writer_Sync_def Let_def split: sync_result.split)

lemma discard_truncated:
  "w_truncated (discard n w)" "w_truncated (enterDegraded now x w)"
  "w_closed (discard n w) = w_closed w" "w_closed (enterDegraded now x w) = w_closed w"
  by (simp_all add: discard_def enterDegraded_def Let_def)

lemma reopen_truncated:
  "w_truncated (snd (reopenChunk c e w)) \<or> \<not> w_truncated w" "w_closed (snd (reopenChunk c e w)) = w_closed w"
proof -
  have a: "w_truncated (indexAbandonedChunk sz w2) = w_truncated w2" "w_closed (indexAbandonedChunk sz w2) = w_closed w2" for sz w2
    by (simp_all add: indexAbandonedChunk_def Let_def)
  have b: "w_truncated w2 = w_truncated w" "w_closed w2 = w_closed w" if "writeIndexSync sync x w = (ok, w2)" for sync x ok w2
    using that writeIndex_truncated [of sync x w] by simp_all
  show "w_truncated (snd (reopenChunk c e w)) \<or> \<not> w_truncated w" "w_closed (snd (reopenChunk c e w)) = w_closed w"
    by (auto simp: reopenChunk_def Let_def a rotate_truncated dest: b split: option.split prod.split bool.split)
qed

lemma recover_truncated:
  "w_truncated (snd (recoverLocked c now e w)) \<or> \<not> w_truncated w" "w_closed (snd (recoverLocked c now e w)) = w_closed w"
proof -
  obtain x w1 where r: "reopenChunk c e w = (x, w1)" by fastforce
  obtain y w2 where l: "writeLocked c (ce_summary e) System (summary_text c w1) FlagTruncated w1 = (y, w2)" by fastforce
  have t: "w_truncated w \<Longrightarrow> w_truncated w1" "w_closed w1 = w_closed w" "w_truncated w1 \<Longrightarrow> w_truncated w2" "w_closed w2 = w_closed w1"
    using reopen_truncated [of c e w] r writeLocked_truncated [of c "ce_summary e" System "summary_text c w1" FlagTruncated w1] l
    by simp_all
  show "w_truncated (snd (recoverLocked c now e w)) \<or> \<not> w_truncated w" "w_closed (snd (recoverLocked c now e w)) = w_closed w"
    using t unfolding recoverLocked_def r prod.case l by (cases x; cases y; auto simp: discard_truncated)+
qed

lemma close_truncated: "w_truncated w \<Longrightarrow> w_truncated (snd (writer_Close c now e f w))"
proof -
  assume t: "w_truncated w"
  let ?w1 = "if w_degraded w then snd (recoverLocked c now e w) else w"
  let ?w = "?w1\<lparr>w_closed := True, w_idx := (w_idx ?w1)\<lparr>ix_Final := True\<rparr>\<rparr>"
  obtain x w2 where fin: "finishChunk c f ?w = (x, w2)" by fastforce
  have "w_truncated w2" using finishChunk_truncated [of c f ?w] recover_truncated [of c now e w] t fin by simp
  then show ?thesis using t fin by (simp add: writer_Close_def Let_def)
qed

lemma captureLocked_closed:
  assumes "captureLocked c e stream payload flags w = (x, w')"
  shows "w_closed w' = w_closed w \<and> (w_truncated w \<longrightarrow> w_truncated w') \<and> (\<not> w_closed w \<longrightarrow> (\<exists>b. x = Inr b))"
proof -
  obtain ready w1 where r: "(if w_degraded w then (if ca_now e < w_retryAt w then (False, w) else recoverLocked c (ca_now e) (ca_recover e) w)
      else (True, w)) = (ready, w1)" by fastforce
  have "w_closed w1 = w_closed w" "w_truncated w \<Longrightarrow> w_truncated w1"
    using r recover_truncated [of c "ca_now e" "ca_recover e" w] by (auto split: if_splits)
  moreover obtain y w2 where l: "writeLocked c (ca_write e) stream payload flags w1 = (y, w2)" by fastforce
  ultimately show ?thesis
    using assms writeLocked_truncated [of c "ca_write e" stream payload flags w1] unfolding captureLocked_def r
    by (auto simp: l discard_truncated split: if_splits sum.splits)
qed

lemma capture_closed:
  assumes "capture c e stream payload flags w = (x, w')"
  shows "w_closed w' = w_closed w \<and> (w_truncated w \<longrightarrow> w_truncated w') \<and> (\<not> w_closed w \<longrightarrow> x = None)"
proof -
  obtain y w1 where l: "captureLocked c e stream payload flags w = (y, w1)" by fastforce
  show ?thesis
    using assms captureLocked_closed [OF l] sync_truncated [of "ca_sync e" w1] unfolding capture_def l
    by (auto split: sum.splits if_splits)
qed

end
