(* ===== verification/Log_Tiers.thy ===== *)
theory Log_Tiers
  imports Log_Read
begin

text \<open>
  The log of a run seen as chunks: a function from chunk numbers to frames, of which some chunks are rows of
  the archive and some are files of the buffer. While every chunk with frames that is only in the buffer is newer than
  every archived one, what a reader sees is the frames of all the chunks in order (\<open>view_merged\<close>). The
  writer, its checkpoints and the sweep of abandoned buffers are proved to keep this relation.
\<close>

section \<open>Chunks in order\<close>

definition chunk_seqs :: "(int \<Rightarrow> frame list) \<Rightarrow> int set \<Rightarrow> bool" where
  "chunk_seqs F S \<longleftrightarrow>
     (\<forall>n\<in>S. sorted_wrt (<) (map fr_Sequence (F n)) \<and> (\<forall>f\<in>set (F n). 0 < fr_Sequence f)) \<and>
     (\<forall>n\<in>S. \<forall>k\<in>S. n < k \<longrightarrow> (\<forall>f\<in>set (F n). \<forall>g\<in>set (F k). fr_Sequence f < fr_Sequence g))"

definition frames_in :: "(int \<Rightarrow> frame list) \<Rightarrow> int list \<Rightarrow> frame list" where
  "frames_in F ns = concat (map F ns)"

lemma frames_in_append [simp]: "frames_in F (xs @ ys) = frames_in F xs @ frames_in F ys"
  by (simp add: frames_in_def)

lemma set_frames_in: "set (frames_in F ns) = (\<Union>n\<in>set ns. set (F n))"
  by (auto simp: frames_in_def)

lemma frames_in_sorted:
  "chunk_seqs F S \<Longrightarrow> sorted_wrt (<) ns \<Longrightarrow> set ns \<subseteq> S \<Longrightarrow> sorted_wrt (<) (map fr_Sequence (frames_in F ns))"
proof (induction ns)
  case (Cons n ns)
  then show ?case
    by (auto simp: frames_in_def chunk_seqs_def sorted_wrt_append)
qed (simp add: frames_in_def)

lemma merged_all: "sorted_wrt (<) (a # map fr_Sequence fs) \<Longrightarrow> merged a fs = fs"
  by (induction fs arbitrary: a) auto

text \<open>Strictly sorted lists of numbers are the sorted lists of their sets.\<close>

lemma strict_sorted_unique: "sorted_wrt (<) (ns :: int list) \<Longrightarrow> sorted_list_of_set (set ns) = ns"
  using sorted_list_of_set.idem_if_sorted_distinct [of ns] by (simp add: strict_sorted_iff)

lemma sorted_split:
  fixes ys :: "int list"
  assumes "sorted_wrt (<) ys" "\<forall>y\<in>set ys - R. \<forall>k\<in>R. k < y"
  shows "ys = filter (\<lambda>y. y \<in> R) ys @ filter (\<lambda>y. y \<notin> R) ys"
  using assms
proof (induction ys)
  case (Cons y ys)
  show ?case
  proof (cases "y \<in> R")
    case False
    have "\<forall>k\<in>R. k < y" "\<forall>x\<in>set ys. y < x" using Cons.prems False by auto
    then have "filter (\<lambda>y. y \<in> R) ys = []" by (fastforce simp: filter_empty_conv)
    then show ?thesis using Cons False by simp
  qed (use Cons in auto)
qed simp

lemma merged_tiers:
  assumes F: "chunk_seqs F (set xs \<union> set ys)" and xs: "sorted_wrt (<) xs" and ys: "sorted_wrt (<) ys"
    and newer: "\<forall>y\<in>set ys - set xs. \<forall>k\<in>set xs. k < y"
  shows "merged 0 (frames_in F xs @ frames_in F ys) = frames_in F (sorted_list_of_set (set xs \<union> set ys))"
proof -
  let ?old = "filter (\<lambda>y. y \<in> set xs) ys" and ?new = "filter (\<lambda>y. y \<notin> set xs) ys"
  let ?c = "cursor_after 0 (frames_in F xs)"
  have pos: "\<forall>f\<in>set (frames_in F (xs @ ys)). 0 < fr_Sequence f"
    using F by (auto simp: chunk_seqs_def set_frames_in simp del: word_gt_0)
  have sx: "sorted_wrt (<) (map fr_Sequence (frames_in F xs))" using frames_in_sorted [OF F xs] by auto
  have mx: "merged 0 (frames_in F xs) = frames_in F xs"
    using sx pos by (intro merged_all) (auto simp: set_frames_in simp del: word_gt_0)
  have upto: "fr_Sequence f \<le> ?c" if mem: "f \<in> set (frames_in F xs)" for f
  proof -
    obtain us vs where uv: "frames_in F xs = us @ f # vs" using split_list [OF mem] by blast
    show ?thesis using sx unfolding uv by (cases vs rule: rev_cases) (auto simp: cursor_after_def sorted_wrt_append)
  qed
  have "merged ?c (frames_in F ?old) = []"
  proof (rule merged_skip)
    fix f assume "f \<in> set (frames_in F ?old)"
    then have "f \<in> set (frames_in F xs)" by (auto simp: set_frames_in)
    then show "fr_Sequence f \<le> ?c" by (rule upto)
  qed
  moreover have "merged ?c (frames_in F ?new) = frames_in F ?new"
  proof (rule merged_all)
    have "?c < fr_Sequence g" if mem: "g \<in> set (frames_in F ?new)" for g
    proof -
      obtain y where y: "y \<in> set ys" "y \<notin> set xs" "g \<in> set (F y)" using mem by (auto simp: set_frames_in)
      show ?thesis
      proof (cases "frames_in F xs = []")
        case True
        then show ?thesis using pos y by (auto simp: cursor_after_def set_frames_in simp del: word_gt_0)
      next
        case False
        then have "last (frames_in F xs) \<in> set (frames_in F xs)" by (rule last_in_set)
        then obtain k where k: "k \<in> set xs" "last (frames_in F xs) \<in> set (F k)" by (auto simp: set_frames_in)
        then have "k < y" using newer y by simp
        then have "fr_Sequence (last (frames_in F xs)) < fr_Sequence g"
          using F k y unfolding chunk_seqs_def by blast
        then show ?thesis using False by (simp add: cursor_after_def)
      qed
    qed
    moreover have "sorted_wrt (<) ?new" using ys by (rule sorted_wrt_filter)
    ultimately show "sorted_wrt (<) (?c # map fr_Sequence (frames_in F ?new))"
      using frames_in_sorted [OF F, of ?new] by auto
  qed
  moreover have "frames_in F ys = frames_in F ?old @ frames_in F ?new"
    using arg_cong [OF sorted_split [OF ys newer], of "frames_in F"] by simp
  ultimately have "merged 0 (frames_in F xs @ frames_in F ys) = frames_in F (xs @ ?new)"
    by (simp add: merged_append mx cursor_after_def [of _ "[]"])
  moreover have "sorted_list_of_set (set xs \<union> set ys) = xs @ ?new"
  proof -
    have "sorted_wrt (<) (xs @ ?new)"
      using xs ys newer by (auto simp: sorted_wrt_append sorted_wrt_filter)
    moreover have "set (xs @ ?new) = set xs \<union> set ys" by auto
    ultimately show ?thesis using strict_sorted_unique by metis
  qed
  ultimately show ?thesis by simp
qed

lemma frames_in_same:
  assumes "finite S" "finite T" "{n\<in>S. F n \<noteq> []} = {n\<in>T. F n \<noteq> []}"
  shows "frames_in F (sorted_list_of_set S) = frames_in F (sorted_list_of_set T)"
proof -
  have drop: "frames_in F (filter (\<lambda>n. F n \<noteq> []) ns) = frames_in F ns" for ns
    by (induction ns) (auto simp: frames_in_def)
  have "filter (\<lambda>n. F n \<noteq> []) (sorted_list_of_set U) = sorted_list_of_set {n\<in>U. F n \<noteq> []}" if "finite U" for U
    using strict_sorted_unique [of "filter (\<lambda>n. F n \<noteq> []) (sorted_list_of_set U)"] that
    by (simp add: sorted_wrt_filter)
  then show ?thesis using assms drop [of "sorted_list_of_set S"] drop [of "sorted_list_of_set T"] by simp
qed

section \<open>The view of a run\<close>

definition row_set :: "archive \<Rightarrow> string \<Rightarrow> int set" where
  "row_set a r = ch_Number ` set (run_rows (ar_db a) r)"

definition file_set :: "run_buffer \<Rightarrow> int set" where
  "file_set rb = fst ` set (rb_files rb)"

definition holds_frames :: "zstd \<Rightarrow> byte list \<Rightarrow> frame list \<Rightarrow> bool" where
  "holds_frames z b fs \<longleftrightarrow> frames_of (zs_reader z b) = fs \<and> readable (zs_reader z b)"

definition row_blob :: "archive \<Rightarrow> run_buffer \<Rightarrow> string \<Rightarrow> chunk \<Rightarrow> byte list option" where
  "row_blob a rb r c = (if ch_FileBytes c > 0 then openFileChunk a rb r (ch_Number c) else Some (ch_Blob c))"

text \<open>A row (or an index entry) names the last sequence: at least that of its own frames, less than that of
  any newer chunk.\<close>

definition last_ok :: "(int \<Rightarrow> frame list) \<Rightarrow> int set \<Rightarrow> int \<Rightarrow> 64 word \<Rightarrow> bool" where
  "last_ok F S n l \<longleftrightarrow> (\<forall>f\<in>set (F n). fr_Sequence f \<le> l) \<and> (\<forall>k\<in>S. n < k \<longrightarrow> (\<forall>g\<in>set (F k). l < fr_Sequence g))"

definition row_ok :: "zstd \<Rightarrow> archive \<Rightarrow> run_buffer \<Rightarrow> string \<Rightarrow> (int \<Rightarrow> frame list) \<Rightarrow> chunk \<Rightarrow> bool" where
  "row_ok z a rb r F c \<longleftrightarrow> (\<exists>b. row_blob a rb r c = Some b \<and> holds_frames z b (F (ch_Number c))) \<and> F (ch_Number c) \<noteq> [] \<and>
     last_ok F (row_set a r \<union> file_set rb) (ch_Number c) (ch_Last c)"

definition index_ok :: "run_buffer \<Rightarrow> (int \<Rightarrow> frame list) \<Rightarrow> bool" where
  "index_ok rb F \<longleftrightarrow> (\<forall>idx m. rb_index rb = Some idx \<longrightarrow> m \<in> set (ix_Chunks idx) \<longrightarrow> cm_Number m \<in> file_set rb \<longrightarrow>
     (\<forall>f\<in>set (F (cm_Number m)). fr_Sequence f \<le> cm_Last m))"

definition log_view :: "zstd \<Rightarrow> archive \<Rightarrow> run_buffer \<Rightarrow> string \<Rightarrow> (int \<Rightarrow> frame list) \<Rightarrow> bool" where
  "log_view z a rb r F \<longleftrightarrow>
     distinct (map ch_Number (run_rows (ar_db a) r)) \<and> distinct (map fst (rb_files rb)) \<and> (\<forall>n\<in>file_set rb. 0 < n) \<and>
     chunk_seqs F (row_set a r \<union> file_set rb) \<and> (\<forall>n\<in>file_set rb - row_set a r. F n \<noteq> [] \<longrightarrow> (\<forall>k\<in>row_set a r. k < n)) \<and>
     (\<forall>c\<in>set (run_rows (ar_db a) r). row_ok z a rb r F c) \<and>
     (\<forall>f\<in>set (rb_files rb). holds_frames z (snd f) (F (fst f))) \<and> index_ok rb F"

lemma log_viewD:
  assumes "log_view z a rb r F"
  shows "distinct (map ch_Number (run_rows (ar_db a) r))" "distinct (map fst (rb_files rb))"
    "n \<in> file_set rb \<Longrightarrow> 0 < n" "chunk_seqs F (row_set a r \<union> file_set rb)"
    "n \<in> file_set rb \<Longrightarrow> n \<notin> row_set a r \<Longrightarrow> F n \<noteq> [] \<Longrightarrow> k \<in> row_set a r \<Longrightarrow> k < n"
    "c \<in> set (run_rows (ar_db a) r) \<Longrightarrow> row_ok z a rb r F c"
    "f \<in> set (rb_files rb) \<Longrightarrow> holds_frames z (snd f) (F (fst f))" "index_ok rb F"
  using assms by (auto simp: log_view_def)

lemma sort_key_strict:
  assumes "distinct (map f xs)"
  shows "sorted_wrt (<) (map f (sort_key f xs))"
  using assms by (simp add: strict_sorted_iff distinct_map)

lemma chunkFiles_numbers:
  assumes "log_view z a rb r F"
  shows "map fst (chunkFiles rb) = sorted_list_of_set (file_set rb)"
proof -
  have all: "filter (\<lambda>f. fst f > 0) (rb_files rb) = rb_files rb"
    using log_viewD(3) [OF assms] by (auto simp: file_set_def)
  have "sorted_wrt (<) (map fst (chunkFiles rb))"
    unfolding chunkFiles_def all by (rule sort_key_strict [OF log_viewD(2) [OF assms]])
  moreover have "set (map fst (chunkFiles rb)) = file_set rb"
    unfolding chunkFiles_def all by (simp add: file_set_def)
  ultimately show ?thesis using strict_sorted_unique by metis
qed

lemma rows_Last_mono:
  assumes v: "log_view z a rb r F" and c: "c \<in> set (run_rows (ar_db a) r)" and d: "d \<in> set (run_rows (ar_db a) r)"
    and "ch_Number c < ch_Number d"
  shows "ch_Last c < ch_Last d"
proof -
  have "F (ch_Number d) \<noteq> []" using log_viewD(6) [OF v d] by (simp add: row_ok_def)
  then obtain g where g: "g \<in> set (F (ch_Number d))" by (cases "F (ch_Number d)") auto
  have "ch_Last c < fr_Sequence g"
    using log_viewD(6) [OF v c] g d assms(4) by (auto simp: row_ok_def last_ok_def row_set_def)
  also have "fr_Sequence g \<le> ch_Last d" using log_viewD(6) [OF v d] g by (auto simp: row_ok_def last_ok_def)
  finally show ?thesis .
qed

abbreviation (input) tiers :: "archive \<Rightarrow> run_buffer \<Rightarrow> log_tiers" where
  "tiers a rb \<equiv> \<lparr>lt_archive = Some a, lt_buffer = rb\<rparr>"

lemma db_rows_tiers: "db_rows (tiers a rb) r = sort_key ch_Last (run_rows (ar_db a) r)"
  by (simp add: db_rows_def)

lemma db_rows_numbers:
  assumes v: "log_view z a rb r F"
  shows "map ch_Number (db_rows (tiers a rb) r) = sorted_list_of_set (row_set a r)"
    "distinct (map ch_Last (db_rows (tiers a rb) r))"
proof -
  let ?rows = "run_rows (ar_db a) r"
  have inj: "ch_Last c \<noteq> ch_Last d" if "c \<in> set ?rows" "d \<in> set ?rows" "ch_Number c \<noteq> ch_Number d" for c d
    using rows_Last_mono [OF v] that by (metis less_irrefl linorder_neqE)
  have dn: "distinct (map ch_Number ?rows)" by (rule log_viewD(1) [OF v])
  have "inj_on ch_Last (set ?rows)"
    using inj dn by (auto simp: inj_on_def distinct_map)
  then have dl: "distinct (map ch_Last ?rows)" using dn by (simp add: distinct_map)
  then have sl: "sorted_wrt (<) (map ch_Last (sort_key ch_Last ?rows))" by (rule sort_key_strict)
  then show "distinct (map ch_Last (db_rows (tiers a rb) r))" by (simp add: db_rows_tiers strict_sorted_iff)
  have "sorted_wrt (\<lambda>c d. ch_Last c < ch_Last d) (sort_key ch_Last ?rows)" using sl by (simp add: sorted_wrt_map)
  then have "sorted_wrt (\<lambda>c d. ch_Number c < ch_Number d) (sort_key ch_Last ?rows)"
  proof (rule sorted_wrt_mono_rel [rotated])
    fix c d assume cd: "c \<in> set (sort_key ch_Last ?rows)" "d \<in> set (sort_key ch_Last ?rows)" "ch_Last c < ch_Last d"
    show "ch_Number c < ch_Number d"
    proof (rule ccontr)
      assume "\<not> ch_Number c < ch_Number d"
      then consider "ch_Number d < ch_Number c" | "ch_Number c = ch_Number d" by linarith
      then show False
      proof cases
        case 1
        then show False using rows_Last_mono [OF v, of d c] cd by auto
      next
        case 2
        then have "c = d" using dn cd by (auto simp: distinct_map inj_on_def)
        then show False using cd by simp
      qed
    qed
  qed
  then have "sorted_wrt (<) (map ch_Number (sort_key ch_Last ?rows))" by (simp add: sorted_wrt_map)
  then show "map ch_Number (db_rows (tiers a rb) r) = sorted_list_of_set (row_set a r)"
    using strict_sorted_unique [of "map ch_Number (sort_key ch_Last ?rows)"] by (simp add: db_rows_tiers row_set_def)
qed

lemma row_streams_tiers:
  assumes v: "log_view z a rb r F" and c: "c \<in> set (run_rows (ar_db a) r)"
  obtains b where "row_streams z (tiers a rb) r c = [zs_reader z b]" "holds_frames z b (F (ch_Number c))"
  using log_viewD(6) [OF v c] that by (auto simp: row_ok_def row_streams_def chunk_stream_def row_blob_def)

lemma concat_map_concat: "concat (map f (concat xss)) = concat (map (\<lambda>xs. concat (map f xs)) xss)"
  by (induction xss) auto

lemma visible_view:
  assumes v: "log_view z a rb r F"
  shows "visible z (tiers a rb) r = frames_in F (sorted_list_of_set (row_set a r)) @ frames_in F (sorted_list_of_set (file_set rb))"
proof -
  have "concat (map frames_of (row_streams z (tiers a rb) r c)) = F (ch_Number c)" if "c \<in> set (run_rows (ar_db a) r)" for c
    using row_streams_tiers [OF v that] by (metis append_Nil2 concat.simps holds_frames_def list.simps(8,9))
  then have "map (\<lambda>c. concat (map frames_of (row_streams z (tiers a rb) r c))) (db_rows (tiers a rb) r) =
      map (\<lambda>c. F (ch_Number c)) (db_rows (tiers a rb) r)"
    by (intro map_cong) (simp_all add: db_rows_tiers)
  from arg_cong [OF this, of concat] have rows: "concat (map frames_of (concat (map (row_streams z (tiers a rb) r) (db_rows (tiers a rb) r)))) =
      frames_in F (map ch_Number (db_rows (tiers a rb) r))"
    by (simp only: frames_in_def concat_map_concat map_map comp_def)
  have "map (\<lambda>f. frames_of (zs_reader z (snd f))) (chunkFiles rb) = map (\<lambda>f. F (fst f)) (chunkFiles rb)"
    using log_viewD(7) [OF v] by (intro map_cong) (auto simp: chunkFiles_def holds_frames_def)
  from arg_cong [OF this, of concat] have files: "concat (map frames_of (map (\<lambda>f. zs_reader z (snd f)) (chunkFiles rb))) = frames_in F (map fst (chunkFiles rb))"
    by (simp only: frames_in_def map_map comp_def)
  show ?thesis
    using rows files by (simp add: visible_def all_streams_def db_rows_numbers(1) [OF v] chunkFiles_numbers [OF v])
qed

lemma view_tiers_ok:
  assumes v: "log_view z a rb r F"
  shows "tiers_ok z (tiers a rb) r"
proof -
  have rows: "bounded_by (ch_Last c) (row_streams z (tiers a rb) r c) \<and> list_all readable (row_streams z (tiers a rb) r c)"
    if c: "c \<in> set (run_rows (ar_db a) r)" for c
  proof -
    obtain b where "row_streams z (tiers a rb) r c = [zs_reader z b]" "holds_frames z b (F (ch_Number c))"
      using row_streams_tiers [OF v c] by blast
    then show ?thesis
      using log_viewD(6) [OF v c] by (simp add: bounded_by_def holds_frames_def row_ok_def last_ok_def)
  qed
  have "bounded_by (cm_Last m) [zs_reader z (snd f)]"
    if "f \<in> set (rb_files rb)" "rb_index rb = Some idx" "m \<in> set (ix_Chunks idx)" "cm_Number m = fst f" for f idx m
    using log_viewD(7) [OF v that(1)] log_viewD(8) [OF v] that
    by (auto simp: bounded_by_def holds_frames_def index_ok_def file_set_def)
  moreover have "list_all readable (map (\<lambda>f. zs_reader z (snd f)) (chunkFiles rb))"
    using log_viewD(7) [OF v] by (auto simp: list_all_iff chunkFiles_def holds_frames_def)
  ultimately show ?thesis
    using rows db_rows_numbers(2) [OF v]
    by (auto simp: tiers_ok_def all_streams_def db_rows_tiers list_all_iff chunkFiles_def)
qed

text \<open>What a reader sees.\<close>

lemma view_merged:
  assumes v: "log_view z a rb r F"
  shows "merged 0 (visible z (tiers a rb) r) = frames_in F (sorted_list_of_set (row_set a r \<union> file_set rb))"
proof -
  let ?R = "row_set a r" and ?B = "{n\<in>file_set rb. F n \<noteq> []}"
  have fin: "finite ?R" "finite (file_set rb)" by (simp_all add: row_set_def file_set_def)
  have "chunk_seqs F (?R \<union> ?B)" using log_viewD(4) [OF v] unfolding chunk_seqs_def by blast
  moreover have "\<forall>y\<in>?B - ?R. \<forall>k\<in>?R. k < y" using log_viewD(5) [OF v] by auto
  ultimately have "merged 0 (frames_in F (sorted_list_of_set ?R) @ frames_in F (sorted_list_of_set ?B)) =
      frames_in F (sorted_list_of_set (?R \<union> ?B))"
    using merged_tiers [of F "sorted_list_of_set ?R" "sorted_list_of_set ?B"] fin by simp
  moreover have "frames_in F (sorted_list_of_set (file_set rb)) = frames_in F (sorted_list_of_set ?B)"
    "frames_in F (sorted_list_of_set (?R \<union> file_set rb)) = frames_in F (sorted_list_of_set (?R \<union> ?B))"
    using fin by (auto intro!: frames_in_same)
  ultimately show ?thesis by (simp add: visible_view [OF v])
qed

lemma view_carries: "log_view z a rb r F \<Longrightarrow> carries (visible z (tiers a rb) r) (merged 0 (visible z (tiers a rb) r))"
proof (rule carries_merge)
  assume v: "log_view z a rb r F"
  have "finite (row_set a r)" "finite (file_set rb)" by (simp_all add: row_set_def file_set_def)
  then show "set (visible z (tiers a rb) r) \<subseteq> set (merged 0 (visible z (tiers a rb) r))"
    unfolding view_merged [OF v] by (auto simp: visible_view [OF v] frames_in_def)
qed

end
