(* ===== verification/Log_Archive.thy ===== *)
theory Log_Archive
  imports Log_Writer Log_Tiers
begin

text \<open>
  Moving chunks from the buffer of a run into the archive (\<^verbatim>\<open>src/internal/logstore/archive.go\<close>): the
  checkpoint of a live writer (\<^verbatim>\<open>archiveBatchLocked\<close>) and the sweep of a buffer without a writer
  (\<^verbatim>\<open>archiveOrphan\<close>), with the files of large chunks, the fallback to blobs, salvage and quarantine.

  Every step may fail: reading, syncing, the database transaction (which may also be committed and reported as
  failed), each rename and each removal. A crash between two steps leaves what a failure of the second one
  leaves. Which files are already synced is not part of the state, except that a chunk whose sync is not
  queued must be found by \<^verbatim>\<open>Stat\<close>.
\<close>

section \<open>Transactions and files\<close>

definition archiveBatchBytes :: int where "archiveBatchBytes = 8388608"
definition archiveBatchChunks :: nat where "archiveBatchChunks = 64"
definition fileChunkMin :: int where "fileChunkMin = 65536"

datatype archive_error = Canceled | ArchiveDB | BufferFailed | ChunkQuarantined

datatype put_result = Committed | NotCommitted | CommitUnknown

definition commit :: "put_result \<Rightarrow> (log_db \<Rightarrow> log_db) \<Rightarrow> archive \<Rightarrow> archive" where
  "commit r f a = (if r = NotCommitted then a else a\<lparr>ar_db := f (ar_db a)\<rparr>)"

definition drop_file :: "int \<Rightarrow> run_buffer \<Rightarrow> run_buffer" where
  "drop_file n rb = rb\<lparr>rb_files := filter (\<lambda>f. fst f \<noteq> n) (rb_files rb)\<rparr>"

definition keep_file :: "string \<Rightarrow> int \<Rightarrow> byte list \<Rightarrow> archive \<Rightarrow> archive" where
  "keep_file r n b a = a\<lparr>ar_files := ((r, n), b) # filter (\<lambda>f. fst f \<noteq> (r, n)) (ar_files a)\<rparr>"

text \<open>The renames into the archive directory, up to the first that fails.\<close>

fun rename_moves :: "(int \<Rightarrow> bool) \<Rightarrow> string \<Rightarrow> chunk list \<Rightarrow> run_buffer \<times> archive \<Rightarrow> bool \<times> run_buffer \<times> archive" where
  "rename_moves works r [] s = (True, s)"
| "rename_moves works r (m # ms) (rb, a) =
     (case map_of (rb_files rb) (ch_Number m) of
        None \<Rightarrow> (False, rb, a)
      | Some b \<Rightarrow>
          if \<not> works (ch_Number m) then (False, rb, a)
          else rename_moves works r ms (drop_file (ch_Number m) rb, keep_file r (ch_Number m) b a))"

text \<open>The chunks still in the buffer, as blobs; none when one cannot be read.\<close>

fun read_blobs :: "(int \<Rightarrow> bool) \<Rightarrow> run_buffer \<Rightarrow> chunk list \<Rightarrow> chunk list option" where
  "read_blobs reads rb [] = Some []"
| "read_blobs reads rb (m # ms) =
     (case map_of (rb_files rb) (ch_Number m) of
        None \<Rightarrow> read_blobs reads rb ms
      | Some b \<Rightarrow>
          if \<not> reads (ch_Number m) then None
          else map_option (\<lambda>cs. m\<lparr>ch_Blob := b, ch_FileBytes := 0\<rparr> # cs) (read_blobs reads rb ms))"

record place_env =
  pe_mkdir :: bool
  pe_rename :: "int \<Rightarrow> bool"
  pe_foreign :: "int \<Rightarrow> bool"
  pe_dirSync :: bool
  pe_read :: "int \<Rightarrow> bool"
  pe_put :: put_result

definition placeFiles ::
  "place_env \<Rightarrow> string \<Rightarrow> string \<Rightarrow> string \<Rightarrow> time \<Rightarrow> chunk list \<Rightarrow> run_buffer \<times> archive \<Rightarrow> archive_error option \<times> run_buffer \<times> archive" where
  "placeFiles e r job kind at chunks s =
     (let moves = filter (\<lambda>c. ch_FileBytes c > 0) chunks
      in if moves = [] then (None, s)
         else
           let (moved, rb1, a1) = (if pe_mkdir e then rename_moves (pe_rename e) r moves s else (False, s))
           in if moved \<and> (\<not> list_ex (\<lambda>m. pe_foreign e (ch_Number m)) moves \<or> pe_dirSync e) then (None, rb1, a1)
              else case read_blobs (pe_read e) rb1 moves of
                     None \<Rightarrow> (Some BufferFailed, rb1, a1)
                   | Some blobs \<Rightarrow>
                       if blobs = [] then (None, rb1, a1)
                       else (if pe_put e = Committed then None else Some ArchiveDB, rb1,
                             commit (pe_put e) (PutChunks r job kind at blobs) a1))"

section \<open>The checkpoint of a writer\<close>

text \<open>The chunks of one batch, from the front of the index; \<open>n\<close> and \<open>sz\<close> are those already taken.\<close>

fun collect :: "(int \<Rightarrow> byte list option) \<Rightarrow> int \<Rightarrow> nat \<Rightarrow> int \<Rightarrow> chunkMeta list \<Rightarrow> chunk list option" where
  "collect rd through n sz [] = Some []"
| "collect rd through n sz (m # ms) =
     (if cm_Number m > through \<or> n \<ge> archiveBatchChunks then Some []
      else if cm_Bytes m \<ge> fileChunkMin then
        map_option (\<lambda>cs. \<lparr>ch_Number = cm_Number m, ch_First = cm_First m, ch_Last = cm_Last m, ch_RawBytes = cm_Raw m,
            ch_Blob = [], ch_FileBytes = cm_Bytes m\<rparr> # cs) (collect rd through (Suc n) sz ms)
      else if n > 0 \<and> sz + cm_Bytes m > archiveBatchBytes then Some []
      else case rd (cm_Number m) of
             None \<Rightarrow> None
           | Some b \<Rightarrow>
               map_option (\<lambda>cs. \<lparr>ch_Number = cm_Number m, ch_First = cm_First m, ch_Last = cm_Last m, ch_RawBytes = cm_Raw m,
                   ch_Blob = b, ch_FileBytes = 0\<rparr> # cs) (collect rd through (Suc n) (sz + int (length b)) ms))"

record archive_env =
  ae_ctx :: bool
  ae_read :: "int \<Rightarrow> bool"
  ae_queued :: "int \<Rightarrow> bool"
  ae_sync :: bool
  ae_now :: time
  ae_put :: put_result
  ae_place :: place_env
  ae_remove :: "int \<Rightarrow> bool"
  ae_index :: index_write

text \<open>\<^verbatim>\<open>syncMoves\<close> with \<^verbatim>\<open>classifyMoves\<close>.\<close>

definition syncMoves :: "(int \<Rightarrow> bool) \<Rightarrow> bool \<Rightarrow> run_buffer \<Rightarrow> chunk list \<Rightarrow> bool" where
  "syncMoves queued works rb chunks \<longleftrightarrow> works \<and>
     list_all (\<lambda>c. ch_FileBytes c > 0 \<longrightarrow> queued (ch_Number c) \<or> ch_Number c \<in> fst ` set (rb_files rb)) chunks"

text \<open>The removal of archived buffer files, up to the first that fails; the number removed.\<close>

fun remove_pending :: "(int \<Rightarrow> bool) \<Rightarrow> chunk list \<Rightarrow> writer \<Rightarrow> nat \<times> bool \<times> writer" where
  "remove_pending works [] w = (0, True, w)"
| "remove_pending works (c # cs) w =
     (if has_file (ch_Number c) w \<and> \<not> works (ch_Number c) then (0, False, w)
      else
        let w1 = remove_file (ch_Number c) w;
            (k, ok, w2) = remove_pending works cs (w1\<lparr>w_buffered := w_buffered w1 - ch_RawBytes c\<rparr>)
        in (Suc k, ok, w2))"

definition archiveBatchLocked ::
  "archive_env \<Rightarrow> string \<Rightarrow> int \<Rightarrow> writer \<times> archive \<Rightarrow> (bool \<times> archive_error option) \<times> writer \<times> archive" where
  "archiveBatchLocked e r through s =
     (let (w, a) = s
      in if ae_ctx e then ((False, Some Canceled), s)
         else case collect (\<lambda>n. if ae_read e n then map_of (rb_files (w_dir w)) n else None) through 0 0 (ix_Chunks (w_idx w)) of
                None \<Rightarrow> ((False, Some BufferFailed), s)
              | Some chunks \<Rightarrow>
                  if chunks = [] then ((False, None), s)
                  else if \<not> syncMoves (ae_queued e) (ae_sync e) (w_dir w) chunks then ((False, Some BufferFailed), s)
                  else
                    let a1 = commit (ae_put e) (PutChunks r (w_job w) (w_kind w) (ae_now e) chunks) a
                    in if ae_put e \<noteq> Committed then ((False, Some ArchiveDB), w, a1)
                       else case placeFiles (ae_place e) r (w_job w) (w_kind w) (ae_now e) chunks (w_dir w, a1) of
                              (Some x, rb, a2) \<Rightarrow> ((False, Some x), w\<lparr>w_dir := rb\<rparr>, a2)
                            | (None, rb, a2) \<Rightarrow>
                                let (removed, ok, w1) = remove_pending (ae_remove e) chunks (w\<lparr>w_dir := rb\<rparr>);
                                    w2 = w1\<lparr>w_idx := (w_idx w1)\<lparr>ix_Chunks := drop removed (ix_Chunks (w_idx w1))\<rparr>\<rparr>;
                                    (indexed, w3) = writeIndexSync True (ae_index e) w2;
                                    ms = ix_Chunks (w_idx w3)
                                in ((ms \<noteq> [] \<and> cm_Number (hd ms) \<le> through, if ok \<and> indexed then None else Some BufferFailed), w3, a2))"

section \<open>The sweep of an abandoned buffer\<close>

text \<open>The checks of \<^verbatim>\<open>readOrphanIndex\<close>; \<open>bad\<close>: the index is there but cannot be read or decoded.\<close>

definition meta_valid :: "chunkMeta \<Rightarrow> bool" where
  "meta_valid m \<longleftrightarrow> cm_Number m > 0 \<and> cm_First m \<noteq> 0 \<and> cm_Last m \<ge> cm_First m \<and> cm_Bytes m \<ge> 0 \<and> cm_Raw m \<ge> 0"

definition readOrphanIndex :: "bool \<Rightarrow> run_buffer \<Rightarrow> (string \<times> string \<times> (int \<times> chunkMeta) list) option" where
  "readOrphanIndex bad rb =
     (if bad then None
      else case rb_index rb of
             None \<Rightarrow> Some ('''', '''', [])
           | Some idx \<Rightarrow>
               if ix_Version idx = 1 \<and> list_all meta_valid (ix_Chunks idx) \<and> distinct (map cm_Number (ix_Chunks idx))
               then Some (ix_Job idx, ix_Kind idx, map (\<lambda>m. (cm_Number m, m)) (ix_Chunks idx)) else None)"

record flush_env =
  fl_ctx :: bool
  fl_queued :: "int \<Rightarrow> bool"
  fl_sync :: bool
  fl_now :: time
  fl_put :: put_result
  fl_place :: place_env
  fl_remove :: "int \<Rightarrow> bool"

record orphan_env =
  oe_badIndex :: bool
  oe_ctx :: "int \<Rightarrow> bool"
  oe_stat :: "int \<Rightarrow> bool"
  oe_read :: "int \<Rightarrow> bool"
  oe_preserve :: "int \<Rightarrow> bool"
  oe_remove :: "int \<Rightarrow> bool"
  oe_flush :: "int \<Rightarrow> flush_env"
  oe_removeAll :: bool
  oe_stuck :: "int \<Rightarrow> bool"

text \<open>The state of a sweep: the buffer, the archive, the quarantine, the batch being collected with its size,
  and the chunks found undecodable that stay and that were quarantined. The environment of a flush is chosen by
  the first chunk of its batch. \<open>oe_stuck\<close>: what a failed removal of the directory leaves, 0 standing for the
  index.\<close>

record orphan_state =
  os_rb :: run_buffer
  os_archive :: archive
  os_quarantine :: "((string \<times> int) \<times> byte list) list"
  os_chunks :: "chunk list"
  os_size :: int
  os_corrupt :: nat
  os_quarantined :: nat

fun remove_paths :: "(int \<Rightarrow> bool) \<Rightarrow> chunk list \<Rightarrow> run_buffer \<Rightarrow> bool \<times> run_buffer" where
  "remove_paths works [] rb = (True, rb)"
| "remove_paths works (c # cs) rb =
     (if ch_Number c \<in> fst ` set (rb_files rb) \<and> \<not> works (ch_Number c) then (False, rb)
      else remove_paths works cs (drop_file (ch_Number c) rb))"

definition flush :: "orphan_env \<Rightarrow> string \<Rightarrow> string \<Rightarrow> string \<Rightarrow> orphan_state \<Rightarrow> archive_error option \<times> orphan_state" where
  "flush e r job kind s =
     (if os_chunks s = [] then (None, s)
      else
        let fe = oe_flush e (ch_Number (hd (os_chunks s)))
        in if fl_ctx fe then (Some Canceled, s)
           else if \<not> syncMoves (fl_queued fe) (fl_sync fe) (os_rb s) (os_chunks s) then (Some BufferFailed, s)
           else
             let s1 = s\<lparr>os_archive := commit (fl_put fe) (PutChunks r job kind (fl_now fe) (os_chunks s)) (os_archive s)\<rparr>
             in if fl_put fe \<noteq> Committed then (Some ArchiveDB, s1)
                else case placeFiles (fl_place fe) r job kind (fl_now fe) (os_chunks s) (os_rb s1, os_archive s1) of
                       (Some x, rb, a) \<Rightarrow> (Some x, s1\<lparr>os_rb := rb, os_archive := a\<rparr>)
                     | (None, rb, a) \<Rightarrow>
                         (case remove_paths (fl_remove fe) (os_chunks s) rb of
                            (False, rb1) \<Rightarrow> (Some BufferFailed, s1\<lparr>os_rb := rb1, os_archive := a\<rparr>)
                          | (True, rb1) \<Rightarrow> (None, s1\<lparr>os_rb := rb1, os_archive := a, os_chunks := [], os_size := 0\<rparr>)))"

definition flush_if :: "bool \<Rightarrow> orphan_env \<Rightarrow> string \<Rightarrow> string \<Rightarrow> string \<Rightarrow> orphan_state \<Rightarrow> archive_error option \<times> orphan_state" where
  "flush_if b e r job kind s = (if b then flush e r job kind s else (None, s))"

text \<open>What a chunk without an index entry becomes: nothing (empty, kept or quarantined), or a re-encoded
  chunk.\<close>

definition preserve :: "string \<Rightarrow> int \<Rightarrow> byte list \<Rightarrow> orphan_state \<Rightarrow> orphan_state" where
  "preserve r n b s = s\<lparr>os_quarantine := ((r, n), b) # filter (\<lambda>f. fst f \<noteq> (r, n)) (os_quarantine s)\<rparr>"

definition salvage_chunk ::
  "zstd \<Rightarrow> orphan_env \<Rightarrow> string \<Rightarrow> int \<Rightarrow> byte list \<Rightarrow> orphan_state \<Rightarrow> chunk option \<times> orphan_state" where
  "salvage_chunk z e r n blob s =
     (case salvageFrames z blob of
        ([], None) \<Rightarrow> (None, s)
      | ([], Some x) \<Rightarrow>
          if \<not> oe_preserve e n then (None, s\<lparr>os_corrupt := os_corrupt s + 1\<rparr>)
          else
            let s1 = preserve r n blob s
            in if \<not> oe_remove e n then (None, s1\<lparr>os_corrupt := os_corrupt s1 + 1\<rparr>)
               else (None, s1\<lparr>os_rb := drop_file n (os_rb s1), os_quarantined := os_quarantined s1 + 1\<rparr>)
      | (f # fs, x) \<Rightarrow>
          let c = \<lparr>ch_Number = n, ch_First = fr_Sequence f, ch_Last = fr_Sequence (last (f # fs)),
                   ch_RawBytes = int (sizes (f # fs)), ch_Blob = encodeFrames z (f # fs), ch_FileBytes = 0\<rparr>
          in if x = None \<or> x = Some UnexpectedEOF then (Some c, s)
             else if \<not> oe_preserve e n then (None, s\<lparr>os_corrupt := os_corrupt s + 1\<rparr>)
             else (Some c, preserve r n blob s))"

definition add_chunk :: "chunk \<Rightarrow> orphan_state \<Rightarrow> orphan_state" where
  "add_chunk c s = s\<lparr>os_chunks := os_chunks s @ [c], os_size := os_size s + int (length (ch_Blob c))\<rparr>"

definition read_chunk ::
  "zstd \<Rightarrow> orphan_env \<Rightarrow> string \<Rightarrow> chunkMeta option \<Rightarrow> int \<Rightarrow> byte list \<Rightarrow> orphan_state \<Rightarrow> chunk option \<times> orphan_state" where
  "read_chunk z e r meta n blob s =
     (case meta of
        Some m \<Rightarrow> (Some \<lparr>ch_Number = n, ch_First = cm_First m, ch_Last = cm_Last m, ch_RawBytes = cm_Raw m, ch_Blob = blob,
                    ch_FileBytes = 0\<rparr>, s)
      | None \<Rightarrow> salvage_chunk z e r n blob s)"

text \<open>The chunk joins the batch, after a flush when \<open>b\<close>.\<close>

definition batch_chunk ::
  "bool \<Rightarrow> orphan_env \<Rightarrow> string \<Rightarrow> string \<Rightarrow> string \<Rightarrow> chunk \<Rightarrow> orphan_state \<Rightarrow> archive_error option \<times> orphan_state" where
  "batch_chunk b e r job kind c s =
     (case flush_if b e r job kind s of
        (Some x, s1) \<Rightarrow> (Some x, s1)
      | (None, s1) \<Rightarrow> (None, add_chunk c s1))"

definition is_large :: "chunkMeta option \<Rightarrow> byte list \<Rightarrow> bool" where
  "is_large meta blob \<longleftrightarrow> meta \<noteq> None \<and> int (length blob) \<ge> fileChunkMin"

definition large_chunk :: "chunkMeta \<Rightarrow> int \<Rightarrow> byte list \<Rightarrow> chunk" where
  "large_chunk m n blob = \<lparr>ch_Number = n, ch_First = cm_First m, ch_Last = cm_Last m, ch_RawBytes = cm_Raw m, ch_Blob = [],
     ch_FileBytes = int (length blob)\<rparr>"

definition orphan_file ::
  "zstd \<Rightarrow> orphan_env \<Rightarrow> string \<Rightarrow> string \<Rightarrow> string \<Rightarrow> chunkMeta option \<Rightarrow> int \<Rightarrow> byte list \<Rightarrow> orphan_state
   \<Rightarrow> archive_error option \<times> orphan_state" where
  "orphan_file z e r job kind meta n blob s =
     (let full = (length (os_chunks s) \<ge> archiveBatchChunks)
      in if oe_ctx e n then (Some Canceled, s)
         else if \<not> oe_stat e n then (Some BufferFailed, s)
         else if is_large meta blob then batch_chunk full e r job kind (large_chunk (the meta) n blob) s
         else case flush_if (full \<or> (os_chunks s \<noteq> [] \<and> os_size s + int (length blob) > archiveBatchBytes)) e r job kind s of
                (Some x, s1) \<Rightarrow> (Some x, s1)
              | (None, s1) \<Rightarrow>
                  if \<not> oe_read e n then (Some BufferFailed, s1)
                  else case read_chunk z e r meta n blob s1 of
                         (None, s2) \<Rightarrow> (None, s2)
                       | (Some c, s2) \<Rightarrow>
                           batch_chunk (os_chunks s2 \<noteq> [] \<and> os_size s2 + int (length (ch_Blob c)) > archiveBatchBytes)
                             e r job kind c s2)"

fun orphan_files ::
  "zstd \<Rightarrow> orphan_env \<Rightarrow> string \<Rightarrow> string \<Rightarrow> string \<Rightarrow> (int \<times> chunkMeta) list \<Rightarrow> (int \<times> byte list) list \<Rightarrow> orphan_state
   \<Rightarrow> archive_error option \<times> orphan_state" where
  "orphan_files z e r job kind sealed [] s = flush e r job kind s"
| "orphan_files z e r job kind sealed ((n, blob) # fs) s =
     (case orphan_file z e r job kind (map_of sealed n) n blob s of
        (Some x, s1) \<Rightarrow> (Some x, s1)
      | (None, s1) \<Rightarrow> orphan_files z e r job kind sealed fs s1)"

definition archiveOrphan :: "zstd \<Rightarrow> orphan_env \<Rightarrow> string \<Rightarrow> orphan_state \<Rightarrow> archive_error option \<times> orphan_state" where
  "archiveOrphan z e r s =
     (case readOrphanIndex (oe_badIndex e) (os_rb s) of
        None \<Rightarrow> (Some BufferFailed, s)
      | Some (job, kind, sealed) \<Rightarrow>
          (case orphan_files z e r job kind sealed (chunkFiles (os_rb s))
                  (s\<lparr>os_chunks := [], os_size := 0, os_corrupt := 0, os_quarantined := 0\<rparr>) of
             (Some x, s1) \<Rightarrow> (Some x, s1)
           | (None, s1) \<Rightarrow>
               if os_corrupt s1 > 0 then (Some BufferFailed, s1)
               else if \<not> oe_removeAll e then
                 (Some BufferFailed,
                  s1\<lparr>os_rb := \<lparr>rb_files = filter (\<lambda>f. oe_stuck e (fst f)) (rb_files (os_rb s1)),
                              rb_index = (if oe_stuck e 0 then rb_index (os_rb s1) else None)\<rparr>\<rparr>)
               else
                 (if os_quarantined s1 > 0 then Some ChunkQuarantined else None,
                  s1\<lparr>os_rb := \<lparr>rb_files = [], rb_index = None\<rparr>\<rparr>)))"

end
