(* ===== verification/Log_View.thy ===== *)
theory Log_View
  imports Log_Archive
begin

text \<open>
  How the steps of the writer and of archiving change the view of a run's log (\<open>log_view\<close>): replacing the
  newest buffer file, installing an index, committing rows, moving a file into the archive directory and
  removing a buffer file.
\<close>

section \<open>What an encoder promises\<close>

text \<open>A flushed stream decodes to what was written to it, whole or cut short; a closed one is complete; a
  failed write leaves a beginning of what it was writing; an empty file has nothing in it.\<close>

definition encoder_ok :: "encoder \<Rightarrow> bool" where
  "encoder_ok en \<longleftrightarrow> zstd_ok (en_zstd en) \<and> zs_reader (en_zstd en) [] = ([], EOF) \<and>
     (\<forall>segs. zs_reader (en_zstd en) (en_closed en segs) = (concat segs, EOF)) \<and>
     (\<forall>segs. \<exists>x. cut_short x \<and> zs_reader (en_zstd en) (en_open en segs) = (concat segs, x)) \<and>
     (\<forall>segs bs k. \<exists>x. cut_short x \<and> zs_reader (en_zstd en) (en_torn en segs bs k) = (concat segs @ take k bs, x))"

lemma holds_encoded:
  assumes "list_all wf_frame fs" "zs_reader z b = (concat (map encodeWithHeader fs), x)" "cut_short x"
  shows "holds_frames z b (map stored fs)"
  using assms decode_all_cut [of fs "sizes fs" x]
  by (auto simp: holds_frames_def frames_of_def readable_def cut_short_def whole_all simp flip: length_concat_encode)

lemma holds_empty: "encoder_ok en \<Longrightarrow> holds_frames (en_zstd en) [] []"
  using holds_encoded [of "[]" "en_zstd en" "[]" EOF] by (simp add: encoder_ok_def cut_short_def)

lemma holds_open:
  "encoder_ok en \<Longrightarrow> list_all wf_frame fs \<Longrightarrow> holds_frames (en_zstd en) (en_open en (map encodeWithHeader fs)) (map stored fs)"
  unfolding encoder_ok_def by (metis holds_encoded)

lemma holds_closed:
  "encoder_ok en \<Longrightarrow> list_all wf_frame fs \<Longrightarrow> holds_frames (en_zstd en) (en_closed en (map encodeWithHeader fs)) (map stored fs)"
  unfolding encoder_ok_def by (metis cut_short_def holds_encoded)

lemma holds_torn:
  "encoder_ok en \<Longrightarrow> list_all wf_frame fs \<Longrightarrow> holds_frames (en_zstd en) (en_torn en (map encodeWithHeader fs) [] k) (map stored fs)"
  unfolding encoder_ok_def by (metis append_Nil2 holds_encoded take_Nil)

section \<open>Files of the buffer\<close>

abbreviation (input) chunk_set :: "archive \<Rightarrow> string \<Rightarrow> run_buffer \<Rightarrow> int set" where
  "chunk_set a r rb \<equiv> row_set a r \<union> file_set rb"

definition put_file :: "int \<Rightarrow> byte list \<Rightarrow> run_buffer \<Rightarrow> run_buffer" where
  "put_file n b rb = rb\<lparr>rb_files := (n, b) # filter (\<lambda>f. fst f \<noteq> n) (rb_files rb)\<rparr>"

lemma writer_files:
  "w_dir (set_file n b w) = put_file n b (w_dir w)" "w_dir (remove_file n w) = drop_file n (w_dir w)"
  "has_file n w \<longleftrightarrow> n \<in> file_set (w_dir w)"
  by (simp_all add: set_file_def put_file_def remove_file_def drop_file_def has_file_def file_set_def)

lemma file_set_simps [simp]:
  "file_set (put_file n b rb) = insert n (file_set rb)" "file_set (drop_file n rb) = file_set rb - {n}"
  "file_set (rb\<lparr>rb_index := i\<rparr>) = file_set rb" "rb_index (put_file n b rb) = rb_index rb" "rb_index (drop_file n rb) = rb_index rb"
  by (auto simp: file_set_def put_file_def drop_file_def image_iff)

lemma distinct_files [simp]:
  "distinct (map fst (rb_files rb)) \<Longrightarrow> distinct (map fst (rb_files (put_file n b rb)))"
  "distinct (map fst (rb_files rb)) \<Longrightarrow> distinct (map fst (rb_files (drop_file n rb)))"
  by (auto simp: put_file_def drop_file_def distinct_map_filter image_iff intro: filter_map_distinct)

lemma map_of_filter_key: "map_of (filter (\<lambda>f. fst f \<noteq> n) xs) k = (if k = n then None else map_of xs k)"
  by (induction xs) auto

lemma map_of_files [simp]:
  "map_of (rb_files (put_file n b rb)) k = (if k = n then Some b else map_of (rb_files rb) k)"
  "map_of (rb_files (drop_file n rb)) k = (if k = n then None else map_of (rb_files rb) k)"
  "map_of (ar_files (keep_file r n b a)) i = (if i = (r, n) then Some b else map_of (ar_files a) i)"
  by (auto simp: put_file_def drop_file_def keep_file_def map_of_filter_key)

lemma log_view_file:
  assumes "log_view z a rb r F" "n \<in> file_set rb"
  obtains b where "map_of (rb_files rb) n = Some b" "holds_frames z b (F n)"
proof -
  obtain b where "(n, b) \<in> set (rb_files rb)" using assms(2) by (auto simp: file_set_def)
  then show ?thesis
    using that [of b] log_viewD(7) [OF assms(1), of "(n, b)"] log_viewD(2) [OF assms(1)] by simp
qed

lemma file_None: "map_of (rb_files rb) n = None \<longleftrightarrow> n \<notin> file_set rb"
  by (simp add: map_of_eq_None_iff file_set_def)

lemma chunk_seqsD:
  "chunk_seqs F S \<Longrightarrow> n \<in> S \<Longrightarrow> sorted_wrt (<) (map fr_Sequence (F n))"
  "chunk_seqs F S \<Longrightarrow> n \<in> S \<Longrightarrow> f \<in> set (F n) \<Longrightarrow> 0 < fr_Sequence f"
  unfolding chunk_seqs_def by blast+

lemma chunk_seqs_mono: "chunk_seqs F S \<Longrightarrow> T \<subseteq> S \<Longrightarrow> chunk_seqs F T"
  unfolding chunk_seqs_def by blast

section \<open>The newest file\<close>

text \<open>The newest chunk, not archived and not indexed, is created or rewritten with new frames.\<close>

lemma view_put_file:
  assumes v: "log_view z a rb r F" and n: "0 < n" "n \<notin> row_set a r" "\<And>k. k \<in> chunk_set a r rb \<Longrightarrow> k \<le> n"
    and b: "holds_frames z b fs" "sorted_wrt (<) (map fr_Sequence fs)" "\<And>g. g \<in> set fs \<Longrightarrow> 0 < fr_Sequence g"
    and older: "\<And>k f g. k \<in> chunk_set a r rb \<Longrightarrow> k < n \<Longrightarrow> f \<in> set (F k) \<Longrightarrow> g \<in> set fs \<Longrightarrow> fr_Sequence f < fr_Sequence g"
    and rows: "\<And>c g. c \<in> set (run_rows (ar_db a) r) \<Longrightarrow> g \<in> set fs \<Longrightarrow> ch_Last c < fr_Sequence g"
    and idx: "\<And>i m. rb_index rb = Some i \<Longrightarrow> m \<in> set (ix_Chunks i) \<Longrightarrow> cm_Number m = n \<Longrightarrow> (\<And>g. g \<in> set fs \<Longrightarrow> fr_Sequence g \<le> cm_Last m)"
  shows "log_view z a (put_file n b rb) r (F(n := fs))"
proof -
  have F': "(F(n := fs)) k = F k" if "k \<in> row_set a r" for k using that n(2) by auto
  have row: "row_ok z a (put_file n b rb) r (F(n := fs)) c" if c: "c \<in> set (run_rows (ar_db a) r)" for c
  proof -
    have rc: "ch_Number c \<in> row_set a r" "ch_Number c \<noteq> n" using c n(2) by (auto simp: row_set_def)
    have "row_blob a (put_file n b rb) r c = row_blob a rb r c"
      using rc by (simp add: row_blob_def openFileChunk_def split: option.split)
    moreover have "last_ok (F(n := fs)) (row_set a r \<union> file_set (put_file n b rb)) (ch_Number c) (ch_Last c)"
      using log_viewD(6) [OF v c] rows [OF c] rc by (auto simp: row_ok_def last_ok_def)
    ultimately show ?thesis using log_viewD(6) [OF v c] rc by (simp add: row_ok_def)
  qed
  have files: "holds_frames z (snd f) ((F(n := fs)) (fst f))" if "f \<in> set (rb_files (put_file n b rb))" for f
    using that b(1) log_viewD(7) [OF v] by (auto simp: put_file_def)
  have seqs: "chunk_seqs (F(n := fs)) (row_set a r \<union> file_set (put_file n b rb))"
  proof -
    have "\<not> n < k" if "k \<in> row_set a r \<union> file_set rb" for k using n(3) [OF that] by simp
    then show ?thesis
      using log_viewD(4) [OF v] b(2,3) older unfolding chunk_seqs_def by (auto simp del: word_gt_0)
  qed
  have index: "index_ok (put_file n b rb) (F(n := fs))"
    using log_viewD(8) [OF v] idx by (auto simp: index_ok_def)
  have newer: "k < m" if "m \<in> file_set (put_file n b rb)" "m \<notin> row_set a r" "(F(n := fs)) m \<noteq> []" "k \<in> row_set a r" for k m
  proof (cases "m = n")
    case True
    then show ?thesis using n(3) [of k] that(2,4) by (cases "k = n") auto
  next
    case False
    then show ?thesis using log_viewD(5) [OF v, of m k] that by simp
  qed
  show ?thesis
    unfolding log_view_def
    using log_viewD(1,2) [OF v] log_viewD(3) [OF v] n(1) row files seqs index newer by auto
qed

text \<open>A file that is not archived gets other contents with the same frames.\<close>

lemma view_same_file:
  assumes v: "log_view z a rb r F" and n: "n \<in> file_set rb" "n \<notin> row_set a r" and b: "holds_frames z b (F n)"
  shows "log_view z a (put_file n b rb) r F"
proof -
  have B: "file_set (put_file n b rb) = file_set rb" using n(1) by auto
  have "row_ok z a (put_file n b rb) r F c" if c: "c \<in> set (run_rows (ar_db a) r)" for c
  proof -
    have "ch_Number c \<noteq> n" using c n(2) by (auto simp: row_set_def)
    then have "row_blob a (put_file n b rb) r c = row_blob a rb r c"
      by (simp add: row_blob_def openFileChunk_def split: option.split)
    then show ?thesis using log_viewD(6) [OF v c] by (simp only: row_ok_def B simp_thms)
  qed
  moreover have "holds_frames z (snd f) (F (fst f))" if "f \<in> set (rb_files (put_file n b rb))" for f
    using that b log_viewD(7) [OF v] by (auto simp: put_file_def)
  moreover have "index_ok (put_file n b rb) F" using log_viewD(8) [OF v] n(1) by (simp add: index_ok_def insert_absorb)
  ultimately show ?thesis
    using log_viewD(1,2) [OF v] log_viewD(3) [OF v] log_viewD(4) [OF v] log_viewD(5) [OF v]
    unfolding log_view_def B by auto
qed

text \<open>An index whose entries bound the frames of the files they name.\<close>

lemma view_put_index:
  assumes v: "log_view z a rb r F" and "index_ok (rb\<lparr>rb_index := i\<rparr>) F"
  shows "log_view z a (rb\<lparr>rb_index := i\<rparr>) r F"
proof -
  have "row_ok z a (rb\<lparr>rb_index := i\<rparr>) r F c = row_ok z a rb r F c" for c
    by (simp add: row_ok_def row_blob_def openFileChunk_def split: option.split)
  then show ?thesis using assms by (simp add: log_view_def)
qed

section \<open>Committing rows\<close>

lemma run_rows_put_chunk:
  "map lk_chunk (filter (\<lambda>d. lk_run_id d = r) (put_chunk r now c ls)) =
     (let rows = map lk_chunk (filter (\<lambda>d. lk_run_id d = r) ls)
      in if ch_Number c \<in> ch_Number ` set rows then map (\<lambda>d. if ch_Number d = ch_Number c then c else d) rows else rows @ [c])"
proof -
  have mem: "(r, ch_Number c) \<in> set (map lk_key ls) \<longleftrightarrow> ch_Number c \<in> ch_Number ` set (map lk_chunk (filter (\<lambda>d. lk_run_id d = r) ls))"
    by (auto simp: image_iff)
  have upd: "map lk_chunk (filter (\<lambda>d. lk_run_id d = r) (map (\<lambda>d. if lk_key d = (r, ch_Number c) then d\<lparr>lk_chunk := c\<rparr> else d) ls)) =
      map (\<lambda>d. if ch_Number d = ch_Number c then c else d) (map lk_chunk (filter (\<lambda>d. lk_run_id d = r) ls))"
    by (induction ls) auto
  show ?thesis using mem upd by (simp add: put_chunk_def Let_def)
qed

lemma rows_replace:
  assumes "distinct (map ch_Number rows)"
  shows "distinct (map ch_Number (map (\<lambda>d. if ch_Number d = ch_Number c then c else d) rows))"
    "ch_Number ` set (map (\<lambda>d. if ch_Number d = ch_Number c then c else d) rows) = ch_Number ` set rows"
proof -
  have e: "map ch_Number (map (\<lambda>d. if ch_Number d = ch_Number c then c else d) rows) = map ch_Number rows"
    by (induction rows) auto
  show "distinct (map ch_Number (map (\<lambda>d. if ch_Number d = ch_Number c then c else d) rows))"
    using assms unfolding e .
  show "ch_Number ` set (map (\<lambda>d. if ch_Number d = ch_Number c then c else d) rows) = ch_Number ` set rows"
    using arg_cong [OF e, of set] by (simp only: set_map)
qed

text \<open>The rows after an upsert: the numbers of both, each row an old one or one that was put.\<close>

abbreviation (input) rows_of :: "string \<Rightarrow> log_chunk_row list \<Rightarrow> chunk list" where
  "rows_of r ls \<equiv> map lk_chunk (filter (\<lambda>d. lk_run_id d = r) ls)"

lemma put_chunks_rows:
  assumes "distinct (map ch_Number (rows_of r ls))"
  shows "distinct (map ch_Number (rows_of r (fold (put_chunk r now) cs ls))) \<and>
    ch_Number ` set (rows_of r (fold (put_chunk r now) cs ls)) = ch_Number ` set (rows_of r ls) \<union> ch_Number ` set cs \<and>
    (\<forall>d\<in>set (rows_of r (fold (put_chunk r now) cs ls)).
       d \<in> set cs \<or> (d \<in> set (rows_of r ls) \<and> ch_Number d \<notin> ch_Number ` set cs))"
  using assms
proof (induction cs arbitrary: ls)
  case (Cons c cs)
  let ?rows = "map lk_chunk (filter (\<lambda>d. lk_run_id d = r) ls)"
  let ?mid = "map lk_chunk (filter (\<lambda>d. lk_run_id d = r) (put_chunk r now c ls))"
  have mid: "?mid = (if ch_Number c \<in> ch_Number ` set ?rows then map (\<lambda>d. if ch_Number d = ch_Number c then c else d) ?rows else ?rows @ [c])"
    using run_rows_put_chunk [of r now c ls] by (simp add: Let_def)
  have d: "distinct (map ch_Number ?mid)" and n: "ch_Number ` set ?mid = ch_Number ` set ?rows \<union> {ch_Number c}"
    and e: "\<forall>d\<in>set ?mid. d = c \<or> (d \<in> set ?rows \<and> ch_Number d \<noteq> ch_Number c)"
    using Cons.prems rows_replace [OF Cons.prems, of c] unfolding mid by (auto split: if_splits)
  show ?case
    using Cons.IH [OF d] n e by (auto simp del: set_map)
qed simp

definition puts_ok :: "zstd \<Rightarrow> archive \<Rightarrow> run_buffer \<Rightarrow> string \<Rightarrow> (int \<Rightarrow> frame list) \<Rightarrow> chunk list \<Rightarrow> bool" where
  "puts_ok z a rb r F cs \<longleftrightarrow> (\<forall>c\<in>set cs. ch_Number c \<in> row_set a r \<union> file_set rb \<and> row_ok z a rb r F c)"

lemma row_ok_db:
  "row_set a' r \<union> file_set rb = row_set a r \<union> file_set rb \<Longrightarrow> ar_files a' = ar_files a \<Longrightarrow>
     row_ok z a' rb r F c = row_ok z a rb r F c"
  by (simp add: row_ok_def row_blob_def openFileChunk_def)

lemma view_commit:
  assumes v: "log_view z a rb r F" and cs: "puts_ok z a rb r F cs"
    and newer: "\<And>n c. n \<in> file_set rb \<Longrightarrow> F n \<noteq> [] \<Longrightarrow> n \<notin> row_set a r \<Longrightarrow> n \<notin> ch_Number ` set cs \<Longrightarrow> c \<in> set cs \<Longrightarrow> ch_Number c < n"
    and a': "a' = a\<lparr>ar_db := PutChunks r job kind at cs (ar_db a)\<rparr>"
  shows "log_view z a' rb r F \<and> row_set a' r = row_set a r \<union> ch_Number ` set cs"
proof (cases "cs = []")
  case True
  then show ?thesis using v a' by (simp add: PutChunks_def)
next
  case False
  have rows': "run_rows (ar_db a') r = map lk_chunk (filter (\<lambda>d. lk_run_id d = r)
      (fold (put_chunk r (unix_micro at)) cs (lg_chunks (ar_db a))))"
    using False by (simp add: a' PutChunks_def putChunks_def run_rows_def Let_def)
  have P: "distinct (map ch_Number (run_rows (ar_db a') r)) \<and>
      ch_Number ` set (run_rows (ar_db a') r) = ch_Number ` set (run_rows (ar_db a) r) \<union> ch_Number ` set cs \<and>
      (\<forall>d\<in>set (run_rows (ar_db a') r). d \<in> set cs \<or> (d \<in> set (run_rows (ar_db a) r) \<and> ch_Number d \<notin> ch_Number ` set cs))"
    using log_viewD(1) [OF v] unfolding rows' unfolding run_rows_def by (rule put_chunks_rows)
  have R': "row_set a' r = row_set a r \<union> ch_Number ` set cs" using P by (simp add: row_set_def)
  have S: "row_set a' r \<union> file_set rb = row_set a r \<union> file_set rb" using cs R' by (auto simp: puts_ok_def)
  have fs: "ar_files a' = ar_files a" by (simp add: a')
  have "row_ok z a' rb r F c" if "c \<in> set (run_rows (ar_db a') r)" for c
    using P that cs log_viewD(6) [OF v] by (auto simp: row_ok_db [OF S fs] puts_ok_def)
  moreover have "k < n" if "n \<in> file_set rb" "n \<notin> row_set a' r" "F n \<noteq> []" "k \<in> row_set a' r" for n k
    using that log_viewD(5) [OF v] newer unfolding R' by auto
  ultimately show ?thesis
    using P R' log_viewD(2,8) [OF v] log_viewD(3,7) [OF v] log_viewD(4) [OF v] unfolding log_view_def S by auto
qed

section \<open>Moving and removing files\<close>

lemma view_rename:
  assumes v: "log_view z a rb r F" and n: "n \<in> row_set a r" and b: "map_of (rb_files rb) n = Some b"
  shows "log_view z (keep_file r n b a) (drop_file n rb) r F"
proof -
  have nb: "n \<in> file_set rb" using b file_None [of rb n] by auto
  have hb: "holds_frames z b (F n)" using log_view_file [OF v nb] b by auto
  have db: "ar_db (keep_file r n b a) = ar_db a" by (simp add: keep_file_def)
  have R: "row_set (keep_file r n b a) r = row_set a r" by (simp add: row_set_def db)
  have S: "row_set a r \<union> (file_set rb - {n}) = row_set a r \<union> file_set rb" using n by auto
  have "row_ok z (keep_file r n b a) (drop_file n rb) r F c" if c: "c \<in> set (run_rows (ar_db a) r)" for c
  proof (cases "ch_Number c = n")
    case True
    then show ?thesis using log_viewD(6) [OF v c] hb
      by (auto simp: row_ok_def row_blob_def openFileChunk_def R S)
  next
    case False
    then have "row_blob (keep_file r n b a) (drop_file n rb) r c = row_blob a rb r c"
      by (simp add: row_blob_def openFileChunk_def split: option.split)
    then show ?thesis using log_viewD(6) [OF v c] by (simp add: row_ok_def R S)
  qed
  moreover have "index_ok (drop_file n rb) F" using log_viewD(8) [OF v] by (auto simp: index_ok_def)
  ultimately show ?thesis
    using log_viewD(1,2) [OF v] log_viewD(3) [OF v] log_viewD(4) [OF v] log_viewD(5) [OF v] log_viewD(7) [OF v]
    unfolding log_view_def db R by (auto simp: S) (auto simp: drop_file_def)
qed

text \<open>A buffer file may go when its chunk is archived and its row does not need the file, or when it holds no
  frame.\<close>

lemma view_drop:
  assumes v: "log_view z a rb r F"
    and n: "(n \<in> row_set a r \<and> (\<forall>c\<in>set (run_rows (ar_db a) r). ch_Number c = n \<and> ch_FileBytes c > 0 \<longrightarrow> (r, n) \<in> fst ` set (ar_files a)))
            \<or> (n \<notin> row_set a r \<and> F n = [])"
  shows "log_view z a (drop_file n rb) r F"
proof -
  have S: "chunk_seqs F (row_set a r \<union> (file_set rb - {n}))"
    by (rule chunk_seqs_mono [OF log_viewD(4) [OF v]]) auto
  have row: "row_ok z a (drop_file n rb) r F c" if c: "c \<in> set (run_rows (ar_db a) r)" for c
  proof -
    have rc: "ch_Number c \<in> row_set a r" using c by (simp add: row_set_def)
    have "row_blob a (drop_file n rb) r c = row_blob a rb r c"
    proof (cases "ch_Number c = n \<and> ch_FileBytes c > 0")
      case True
      then obtain x where "map_of (ar_files a) (r, n) = Some x" using n c rc map_of_eq_None_iff [of "ar_files a" "(r, n)"] by auto
      then show ?thesis using True by (simp add: row_blob_def openFileChunk_def)
    next
      case False
      then show ?thesis by (auto simp: row_blob_def openFileChunk_def split: option.split)
    qed
    then show ?thesis using log_viewD(6) [OF v c] by (auto simp: row_ok_def last_ok_def)
  qed
  have "index_ok (drop_file n rb) F" using log_viewD(8) [OF v] by (auto simp: index_ok_def)
  then show ?thesis
    using log_viewD(1,2) [OF v] log_viewD(3) [OF v] log_viewD(5) [OF v] log_viewD(7) [OF v] row S
    unfolding log_view_def by auto (auto simp: drop_file_def)
qed

text \<open>Chunks without frames do not matter.\<close>

section \<open>Placing the files of archived chunks\<close>

text \<open>A chunk's file can be found, in the archive directory or in the buffer.\<close>

definition found :: "zstd \<Rightarrow> archive \<Rightarrow> run_buffer \<Rightarrow> string \<Rightarrow> (int \<Rightarrow> frame list) \<Rightarrow> int \<Rightarrow> bool" where
  "found z a rb r F n \<longleftrightarrow> (\<exists>b. openFileChunk a rb r n = Some b \<and> holds_frames z b (F n))"

text \<open>No file of the archive directory is without its row, and each holds the frames of its chunk.\<close>

definition no_stray :: "zstd \<Rightarrow> archive \<Rightarrow> string \<Rightarrow> (int \<Rightarrow> frame list) \<Rightarrow> bool" where
  "no_stray z a r F \<longleftrightarrow> (\<forall>n b. map_of (ar_files a) (r, n) = Some b \<longrightarrow> n \<in> row_set a r \<and> holds_frames z b (F n))"

text \<open>What placing keeps: the rows' numbers, the index, and that files are found; files only leave the
  buffer for the archive directory.\<close>

definition placed :: "zstd \<Rightarrow> string \<Rightarrow> (int \<Rightarrow> frame list) \<Rightarrow> run_buffer \<times> archive \<Rightarrow> run_buffer \<times> archive \<Rightarrow> bool" where
  "placed z r F s s' \<longleftrightarrow> (case (s, s') of ((rb, a), (rb', a')) \<Rightarrow>
     log_view z a' rb' r F \<and> row_set a' r = row_set a r \<and> file_set rb' \<subseteq> file_set rb \<and> rb_index rb' = rb_index rb \<and>
     (\<forall>n\<in>file_set rb - file_set rb'. n \<in> row_set a r) \<and> (\<forall>n. found z a rb r F n \<longrightarrow> found z a' rb' r F n) \<and>
     (no_stray z a r F \<longrightarrow> no_stray z a' r F) \<and> ch_Last ` set (run_rows (ar_db a') r) \<subseteq> ch_Last ` set (run_rows (ar_db a) r))"

lemma placed_refl: "log_view z a rb r F \<Longrightarrow> placed z r F (rb, a) (rb, a)"
  by (simp add: placed_def)

lemma placed_trans:
  assumes "placed z r F s s'" "placed z r F s' s''"
  shows "placed z r F s s''"
proof -
  obtain rb a rb1 a1 rb2 a2 where s: "s = (rb, a)" "s' = (rb1, a1)" "s'' = (rb2, a2)" by (metis surj_pair)
  note p1 = assms(1) [unfolded s placed_def prod.case] and p2 = assms(2) [unfolded s placed_def prod.case]
  have "ch_Last ` set (run_rows (ar_db a2) r) \<subseteq> ch_Last ` set (run_rows (ar_db a) r)"
    using p1 p2 by (elim conjE) (rule order_trans)
  moreover have "\<forall>n\<in>file_set rb - file_set rb2. n \<in> row_set a r" using p1 p2 by auto
  moreover have "file_set rb2 \<subseteq> file_set rb" using p1 p2 by auto
  ultimately show ?thesis using p1 p2 by (simp add: s placed_def)
qed

lemma placed_rename:
  assumes v: "log_view z a rb r F" and n: "n \<in> row_set a r" and b: "map_of (rb_files rb) n = Some b"
  shows "placed z r F (rb, a) (drop_file n rb, keep_file r n b a)"
proof -
  have nb: "n \<in> file_set rb" using b file_None [of rb n] by auto
  have hb: "holds_frames z b (F n)" using log_view_file [OF v nb] b by auto
  have "found z (keep_file r n b a) (drop_file n rb) r F k" if "found z a rb r F k" for k
    using that hb by (cases "k = n") (auto simp: found_def openFileChunk_def split: option.splits)
  moreover have R: "row_set (keep_file r n b a) r = row_set a r" by (simp add: row_set_def keep_file_def)
  moreover have "no_stray z (keep_file r n b a) r F" if "no_stray z a r F"
    using that n hb unfolding no_stray_def R by auto
  moreover have "ar_db (keep_file r n b a) = ar_db a" by (simp add: keep_file_def)
  ultimately show ?thesis using view_rename [OF v n b] n by (auto simp: placed_def)
qed

lemma rename_moves_placed:
  "log_view z a rb r F \<Longrightarrow> ch_Number ` set ms \<subseteq> row_set a r \<Longrightarrow> rename_moves works r ms (rb, a) = (ok, rb', a') \<Longrightarrow>
     placed z r F (rb, a) (rb', a') \<and> ar_db a' = ar_db a \<and> fst ` set (ar_files a) \<subseteq> fst ` set (ar_files a') \<and>
     (ok \<longrightarrow> (\<lambda>m. (r, ch_Number m)) ` set ms \<subseteq> fst ` set (ar_files a'))"
proof (induction ms arbitrary: rb a)
  case Nil
  then show ?case by (auto simp: placed_refl)
next
  case (Cons m ms)
  let ?n = "ch_Number m"
  show ?case
  proof (cases "map_of (rb_files rb) ?n")
    case None
    then show ?thesis using Cons.prems by (auto simp: placed_refl)
  next
    case (Some b)
    show ?thesis
    proof (cases "works ?n")
      case False
      then show ?thesis using Cons.prems Some by (auto simp: placed_refl)
    next
      case True
      let ?rb = "drop_file ?n rb" and ?a = "keep_file r ?n b a"
      have p: "placed z r F (rb, a) (?rb, ?a)" using placed_rename [OF Cons.prems(1) _ Some] Cons.prems(2) by simp
      have "row_set ?a r = row_set a r" "log_view z ?a ?rb r F" using p by (auto simp: placed_def)
      then have ih: "placed z r F (?rb, ?a) (rb', a') \<and> ar_db a' = ar_db ?a \<and> fst ` set (ar_files ?a) \<subseteq> fst ` set (ar_files a') \<and>
          (ok \<longrightarrow> (\<lambda>m. (r, ch_Number m)) ` set ms \<subseteq> fst ` set (ar_files a'))"
        using Cons.IH [of ?a ?rb] Cons.prems Some True by simp
      have "fst ` set (ar_files ?a) = insert (r, ?n) (fst ` set (ar_files a))" by (auto simp: keep_file_def image_iff)
      then show ?thesis using ih placed_trans [OF p] by (auto simp: keep_file_def)
    qed
  qed
qed

lemma read_blobs_Some:
  "read_blobs reads rb ms = Some blobs \<Longrightarrow>
     (\<forall>c\<in>set blobs. \<exists>m\<in>set ms. \<exists>b. map_of (rb_files rb) (ch_Number m) = Some b \<and> c = m\<lparr>ch_Blob := b, ch_FileBytes := 0\<rparr>) \<and>
     (\<forall>m\<in>set ms. ch_Number m \<in> file_set rb \<longrightarrow> ch_Number m \<in> ch_Number ` set blobs)"
proof (induction ms arbitrary: blobs)
  case (Cons m ms)
  then show ?case
    by (cases "map_of (rb_files rb) (ch_Number m)") (fastforce simp: file_None split: if_splits)+
qed simp

lemma commit_rows:
  assumes "distinct (map ch_Number (run_rows (ar_db a) r))" "d \<in> set (run_rows (PutChunks r job kind at cs (ar_db a)) r)"
  shows "d \<in> set cs \<or> (d \<in> set (run_rows (ar_db a) r) \<and> ch_Number d \<notin> ch_Number ` set cs)"
proof (cases "cs = []")
  case True
  then show ?thesis using assms(2) by (simp add: PutChunks_def)
next
  case False
  then have "d \<in> set (rows_of r (fold (put_chunk r (unix_micro at)) cs (lg_chunks (ar_db a))))"
    using assms(2) by (simp add: PutChunks_def putChunks_def run_rows_def Let_def)
  then show ?thesis
    using put_chunks_rows [OF assms(1) [unfolded run_rows_def], of "unix_micro at" cs] unfolding run_rows_def by blast
qed

lemma commit_rows_all:
  assumes "distinct (map ch_Number (run_rows (ar_db a) r))" "distinct (map ch_Number cs)"
  shows "set cs \<subseteq> set (run_rows (PutChunks r job kind at cs (ar_db a)) r)"
proof
  fix c assume c: "c \<in> set cs"
  then have "run_rows (PutChunks r job kind at cs (ar_db a)) r =
      rows_of r (fold (put_chunk r (unix_micro at)) cs (lg_chunks (ar_db a)))"
    by (auto simp: PutChunks_def putChunks_def run_rows_def Let_def)
  then have "ch_Number c \<in> ch_Number ` set (run_rows (PutChunks r job kind at cs (ar_db a)) r)"
    using put_chunks_rows [OF assms(1) [unfolded run_rows_def], of "unix_micro at" cs] c by auto
  then obtain d where d: "d \<in> set (run_rows (PutChunks r job kind at cs (ar_db a)) r)" "ch_Number d = ch_Number c" by auto
  then have "d \<in> set cs" using commit_rows [OF assms(1) d(1)] c by auto
  then have "d = c" using assms(2) c d(2) by (auto simp: distinct_map inj_on_def)
  then show "c \<in> set (run_rows (PutChunks r job kind at cs (ar_db a)) r)" using d(1) by simp
qed

lemma view_blobs:
  assumes v: "log_view z a rb r F" and ms: "set ms \<subseteq> set (run_rows (ar_db a) r)" and bl: "read_blobs reads rb ms = Some blobs"
    and a': "a' = a\<lparr>ar_db := PutChunks r job kind at blobs (ar_db a)\<rparr>"
  shows "placed z r F (rb, a) (rb, a')" "ch_Number ` set blobs \<subseteq> row_set a r"
proof -
  have c: "\<exists>m\<in>set ms. \<exists>b. map_of (rb_files rb) (ch_Number m) = Some b \<and> c = m\<lparr>ch_Blob := b, ch_FileBytes := 0\<rparr>" if "c \<in> set blobs" for c
    using read_blobs_Some [OF bl] that by blast
  have ok: "ch_Number c \<in> row_set a r \<and> row_ok z a rb r F c" if cb: "c \<in> set blobs" for c
  proof -
    obtain m b where m: "m \<in> set ms" "map_of (rb_files rb) (ch_Number m) = Some b" "c = m\<lparr>ch_Blob := b, ch_FileBytes := 0\<rparr>"
      using c [OF cb] by blast
    have "ch_Number m \<in> file_set rb" using m(2) file_None [of rb "ch_Number m"] by auto
    then have "holds_frames z b (F (ch_Number m))" using log_view_file [OF v] m(2) by (metis option.inject)
    moreover have "row_ok z a rb r F m" using log_viewD(6) [OF v] m(1) ms by auto
    ultimately show ?thesis using m(1,3) ms by (auto simp: row_ok_def row_blob_def row_set_def)
  qed
  then show R: "ch_Number ` set blobs \<subseteq> row_set a r" by auto
  have "log_view z a' rb r F \<and> row_set a' r = row_set a r \<union> ch_Number ` set blobs"
    using ok log_viewD(5) [OF v] by (intro view_commit [OF v _ _ a']) (auto simp: puts_ok_def)
  moreover have "found z a' rb r F n = found z a rb r F n" for n by (simp add: found_def openFileChunk_def a')
  moreover have "ar_files a' = ar_files a" by (simp add: a')
  moreover have "ch_Last d \<in> ch_Last ` set (run_rows (ar_db a) r)" if "d \<in> set (run_rows (ar_db a') r)" for d
  proof (cases "d \<in> set blobs")
    case True
    then show ?thesis using c [OF True] ms by auto
  next
    case False
    then show ?thesis using commit_rows [OF log_viewD(1) [OF v], of d job kind at blobs] that by (auto simp: a')
  qed
  ultimately show "placed z r F (rb, a) (rb, a')" using R by (auto simp: placed_def no_stray_def)
qed

text \<open>After a successful placement no row of the batch needs its buffer file.\<close>

definition self_contained :: "archive \<Rightarrow> string \<Rightarrow> int \<Rightarrow> bool" where
  "self_contained a r n \<longleftrightarrow>
     (\<forall>c\<in>set (run_rows (ar_db a) r). ch_Number c = n \<and> ch_FileBytes c > 0 \<longrightarrow> (r, n) \<in> fst ` set (ar_files a))"

lemma placeFiles_placed:
  assumes v: "log_view z a rb r F" and cs: "set cs \<subseteq> set (run_rows (ar_db a) r)"
    and p: "placeFiles e r job kind at cs (rb, a) = (err, rb', a')"
  shows "placed z r F (rb, a) (rb', a') \<and> (err = None \<longrightarrow> (\<forall>c\<in>set cs. self_contained a' r (ch_Number c)))"
proof -
  let ?ms = "filter (\<lambda>c. ch_FileBytes c > 0) cs"
  obtain moved rb1 a1 where m1: "(if pe_mkdir e then rename_moves (pe_rename e) r ?ms (rb, a) else (False, rb, a)) = (moved, rb1, a1)"
    by (metis prod_cases3)
  have "ch_Number ` set ?ms \<subseteq> row_set a r" using cs by (auto simp: row_set_def)
  then have P1: "placed z r F (rb, a) (rb1, a1) \<and> ar_db a1 = ar_db a \<and>
      (moved \<longrightarrow> (\<lambda>m. (r, ch_Number m)) ` set ?ms \<subseteq> fst ` set (ar_files a1))"
    using rename_moves_placed [OF v, of ?ms "pe_rename e" moved rb1 a1] m1 placed_refl [OF v] by (auto split: if_splits)
  then have v1: "log_view z a1 rb1 r F" and rows1: "run_rows (ar_db a1) r = run_rows (ar_db a) r" by (auto simp: placed_def)
  have uniq: "d = c" if "d \<in> set (run_rows (ar_db a) r)" "c \<in> set cs" "ch_Number d = ch_Number c" for c d
    using log_viewD(1) [OF v] that cs by (auto simp: distinct_map inj_on_def)
  have away: "(r, ch_Number c) \<in> fst ` set (ar_files a1)" if "c \<in> set ?ms" "ch_Number c \<notin> file_set rb1" for c
  proof -
    have "row_ok z a1 rb1 r F c" using log_viewD(6) [OF v1] rows1 cs that(1) by auto
    then have "map_of (ar_files a1) (r, ch_Number c) \<noteq> None"
      using that file_None [of rb1 "ch_Number c"] by (auto simp: row_ok_def row_blob_def openFileChunk_def split: option.splits)
    then show ?thesis by (metis map_of_eq_None_iff)
  qed
  have complete: "\<forall>c\<in>set cs. self_contained a1 r (ch_Number c)" if "(\<lambda>m. (r, ch_Number m)) ` set ?ms \<subseteq> fst ` set (ar_files a1)"
    using that uniq by (fastforce simp: self_contained_def rows1)
  consider "?ms = []" "err = None" "rb' = rb" "a' = a"
    | "moved" "err = None" "rb' = rb1" "a' = a1"
    | "err \<noteq> None" "rb' = rb1" "a' = a1"
    | "read_blobs (pe_read e) rb1 ?ms = Some []" "err = None" "rb' = rb1" "a' = a1"
    | blobs where "read_blobs (pe_read e) rb1 ?ms = Some blobs" "rb' = rb1" "a' = commit (pe_put e) (PutChunks r job kind at blobs) a1"
      "err = None \<longrightarrow> pe_put e = Committed"
  proof (cases "?ms = []")
    case True
    then show ?thesis using p that(1) by (simp add: placeFiles_def)
  next
    case ms: False
    define synced where "synced \<longleftrightarrow> \<not> list_ex (\<lambda>m. pe_foreign e (ch_Number m)) ?ms \<or> pe_dirSync e"
    have p': "(if moved \<and> synced then (None, rb1, a1)
        else case read_blobs (pe_read e) rb1 ?ms of
               None \<Rightarrow> (Some BufferFailed, rb1, a1)
             | Some blobs \<Rightarrow> if blobs = [] then (None, rb1, a1)
                 else (if pe_put e = Committed then None else Some ArchiveDB, rb1,
                       commit (pe_put e) (PutChunks r job kind at blobs) a1)) = (err, rb', a')"
      using p ms unfolding placeFiles_def Let_def m1 synced_def by (simp only: if_False prod.case)
    show ?thesis
    proof (cases "moved \<and> synced")
      case True
      then show ?thesis using p' that(2) by simp
    next
      case False
      then show ?thesis
        using p' that(3,4,5) by (cases "read_blobs (pe_read e) rb1 ?ms") (auto split: if_splits)
    qed
  qed
  then show ?thesis
  proof cases
    case 1
    have "self_contained a r (ch_Number c)" if "c \<in> set cs" for c
      using that uniq 1(1) by (fastforce simp: self_contained_def filter_empty_conv)
    then show ?thesis using 1 placed_refl [OF v] by simp
  next
    case 2
    then show ?thesis using P1 complete by simp
  next
    case 3
    then show ?thesis using P1 by auto
  next
    case 4
    then have "(\<lambda>m. (r, ch_Number m)) ` set ?ms \<subseteq> fst ` set (ar_files a1)"
      using read_blobs_Some [OF 4(1)] away by auto
    then show ?thesis using 4 P1 complete by simp
  next
    case (5 blobs)
    have ms1: "set ?ms \<subseteq> set (run_rows (ar_db a1) r)" using cs rows1 by auto
    let ?a2 = "a1\<lparr>ar_db := PutChunks r job kind at blobs (ar_db a1)\<rparr>"
    have p2: "placed z r F (rb1, a1) (rb1, ?a2)" by (rule view_blobs(1) [OF v1 ms1 5(1) refl])
    show ?thesis
    proof (cases "pe_put e = NotCommitted")
      case True
      then show ?thesis using 5 P1 by (auto simp: commit_def)
    next
      case False
      then have a': "a' = ?a2" using 5 by (simp add: commit_def)
      have "self_contained ?a2 r (ch_Number c)" if c: "c \<in> set cs" for c
        unfolding self_contained_def
      proof (intro ballI impI)
        fix d assume d: "d \<in> set (run_rows (ar_db ?a2) r)" "ch_Number d = ch_Number c \<and> ch_FileBytes d > 0"
        have "d \<notin> set blobs" using read_blobs_Some [OF 5(1)] d(2) by auto
        then have "d \<in> set (run_rows (ar_db a1) r)" "ch_Number d \<notin> ch_Number ` set blobs"
          using commit_rows [OF log_viewD(1) [OF v1], of d job kind at blobs] d(1) by auto
        then have "d = c" "c \<in> set ?ms" "ch_Number c \<notin> file_set rb1"
          using uniq [of d c] c d(2) rows1 read_blobs_Some [OF 5(1)] by auto
        then show "(r, ch_Number c) \<in> fst ` set (ar_files ?a2)" using away by simp
      qed
      then show ?thesis using P1 placed_trans [OF _ p2] 5(2) unfolding a' by blast
    qed
  qed
qed

end
