(* ===== verification/Log_Intact.thy ===== *)
theory Log_Intact
  imports Log_View
begin

text \<open>
  The relation between what a run's log was given and where it is, kept by appending a frame, sealing a
  chunk, rotating, and a checkpoint: the chunks, the index in memory and on disk, the rows and the files of the
  archive, and the sequence numbers fit together.
\<close>

section \<open>The relation kept\<close>

definition meta_ok :: "(int \<Rightarrow> frame list) \<Rightarrow> int set \<Rightarrow> chunkMeta \<Rightarrow> bool" where
  "meta_ok F S m \<longleftrightarrow> last_ok F S (cm_Number m) (cm_Last m) \<and> F (cm_Number m) \<noteq> []"

text \<open>The chunks, the index in memory and on disk, and the sequence numbers fit together.\<close>

definition core :: "log_cfg \<Rightarrow> string \<Rightarrow> frame list \<Rightarrow> (int \<Rightarrow> frame list) \<Rightarrow> writer \<Rightarrow> archive \<Rightarrow> bool" where
  "core c r acc F w a \<longleftrightarrow>
     log_view (en_zstd (lc_enc c)) a (w_dir w) r F \<and> no_stray (en_zstd (lc_enc c)) a r F \<and>
     acc = frames_in F (sorted_list_of_set (row_set a r \<union> file_set (w_dir w))) \<and> unat (w_seq w) = length acc \<and>
     (\<forall>f\<in>set acc. fr_Sequence f \<le> w_seq w) \<and> (\<forall>n>w_chunk w. F n = []) \<and>
     (\<forall>n\<in>row_set a r. n \<le> w_chunk w) \<and> (\<forall>n\<in>file_set (w_dir w). n \<le> w_chunk w + 1) \<and> \<not> w_degraded w \<and>
     sorted_wrt (<) (map cm_Number (ix_Chunks (w_idx w))) \<and>
     (\<forall>m\<in>set (ix_Chunks (w_idx w)). meta_ok F (row_set a r \<union> file_set (w_dir w)) m \<and> cm_Number m \<le> w_chunk w \<and>
        cm_Number m \<in> row_set a r \<union> file_set (w_dir w) \<and> found (en_zstd (lc_enc c)) a (w_dir w) r F (cm_Number m)) \<and>
     (\<forall>n\<in>file_set (w_dir w) - row_set a r. n \<in> cm_Number ` set (ix_Chunks (w_idx w)) \<or>
        (\<forall>m\<in>set (ix_Chunks (w_idx w)). cm_Number m < n)) \<and>
     (\<forall>i m. rb_index (w_dir w) = Some i \<longrightarrow> m \<in> set (ix_Chunks i) \<longrightarrow>
        meta_ok F (row_set a r \<union> file_set (w_dir w)) m \<and> cm_Number m \<le> w_chunk w)"

text \<open>The chunk being written.\<close>

definition writing :: "log_cfg \<Rightarrow> string \<Rightarrow> (int \<Rightarrow> frame list) \<Rightarrow> frame list \<Rightarrow> writer \<Rightarrow> archive \<Rightarrow> bool" where
  "writing c r F fs w a \<longleftrightarrow>
     w_file w \<and> w_enc w = Some (map encodeWithHeader fs) \<and> list_all wf_frame fs \<and> F (w_chunk w) = map stored fs \<and>
     \<not> w_broken w \<and> w_chunkErr w = None \<and> 0 < w_chunk w \<and> w_chunk w \<in> file_set (w_dir w) \<and> w_chunk w \<notin> row_set a r \<and>
     (\<forall>m\<in>set (ix_Chunks (w_idx w)). cm_Number m < w_chunk w \<and> cm_Last m < w_chunkFirst w) \<and>
     (\<forall>i m. rb_index (w_dir w) = Some i \<longrightarrow> m \<in> set (ix_Chunks i) \<longrightarrow> cm_Number m < w_chunk w \<and> cm_Last m < w_chunkFirst w) \<and>
     (\<forall>d\<in>set (run_rows (ar_db a) r). ch_Last d < w_chunkFirst w) \<and>
     (\<forall>n\<in>file_set (w_dir w) - row_set a r. n \<in> cm_Number ` set (ix_Chunks (w_idx w)) \<or> w_chunk w \<le> n) \<and>
     (\<forall>n\<in>row_set a r \<union> file_set (w_dir w). n < w_chunk w \<longrightarrow> (\<forall>f\<in>set (F n). fr_Sequence f < w_chunkFirst w)) \<and>
     (\<forall>f\<in>set (F (w_chunk w)). w_chunkFirst w \<le> fr_Sequence f) \<and>
     unat (w_chunkFirst w) + length fs = unat (w_seq w) + 1 \<and> w_chunkRaw w = int (sizes fs)"

definition intact :: "log_cfg \<Rightarrow> string \<Rightarrow> frame list \<Rightarrow> writer \<times> archive \<Rightarrow> bool" where
  "intact c r acc s \<longleftrightarrow> (case s of (w, a) \<Rightarrow>
     (\<exists>F fs. core c r acc F w a \<and> writing c r F fs w a \<and> (\<forall>n\<in>file_set (w_dir w). n \<le> w_chunk w)) \<or>
     (\<exists>F. core c r acc F w a \<and> \<not> w_file w \<and> (w_chunkErr w \<noteq> None \<or> w_closed w)))"

lemma core_cover:
  "core c r acc F w a \<Longrightarrow> n \<in> file_set (w_dir w) \<Longrightarrow> n \<notin> row_set a r \<Longrightarrow>
     n \<in> cm_Number ` set (ix_Chunks (w_idx w)) \<or> (\<forall>m\<in>set (ix_Chunks (w_idx w)). cm_Number m < n)"
  unfolding core_def by blast

lemma writing_cover:
  "writing c r F fs w a \<Longrightarrow> n \<in> file_set (w_dir w) \<Longrightarrow> n \<notin> row_set a r \<Longrightarrow>
     n \<in> cm_Number ` set (ix_Chunks (w_idx w)) \<or> w_chunk w \<le> n"
  unfolding writing_def by blast

section \<open>Appending a frame\<close>

lemma frames_in_max:
  assumes "finite S" "n \<in> S" "\<And>k. k \<in> S \<Longrightarrow> k \<le> n"
  shows "frames_in F (sorted_list_of_set S) = frames_in F (sorted_list_of_set (S - {n})) @ F n"
proof -
  have "sorted_wrt (<) (sorted_list_of_set (S - {n}) @ [n])"
    using assms by (auto simp: sorted_wrt_append order_less_le)
  moreover have "set (sorted_list_of_set (S - {n}) @ [n]) = S" using assms by auto
  ultimately have "sorted_list_of_set S = sorted_list_of_set (S - {n}) @ [n]" using strict_sorted_unique by metis
  then show ?thesis by (simp add: frames_in_def)
qed

lemma frames_in_cong: "finite S \<Longrightarrow> (\<And>k. k \<in> S \<Longrightarrow> F k = G k) \<Longrightarrow> frames_in F (sorted_list_of_set S) = frames_in G (sorted_list_of_set S)"
  unfolding frames_in_def by (metis map_cong set_sorted_list_of_set)

lemma finite_chunks [simp]: "finite (row_set a r)" "finite (file_set rb)"
  by (simp_all add: row_set_def file_set_def)

lemma next_seq:
  assumes "unat s + 1 < 2 ^ 64"
  shows "unat (s + 1 :: 64 word) = unat s + 1" "s < s + 1" "x \<le> s \<Longrightarrow> x < s + 1" "0 < s + 1"
proof -
  show u: "unat (s + 1) = unat s + 1" using assms by (simp add: unat_word_ariths)
  then show "s < s + 1" "x \<le> s \<Longrightarrow> x < s + 1" "0 < s + 1"
    by (simp_all add: word_less_nat_alt word_le_nat_alt del: word_gt_0)
qed

lemma append_intact:
  assumes en: "encoder_ok (lc_enc c)" and k: "core c r acc F w a" and wr: "writing c r F fs w a"
    and top: "\<forall>n\<in>file_set (w_dir w). n \<le> w_chunk w"
    and f: "f = \<lparr>fr_Sequence = w_seq w + 1, fr_Timestamp = we_now e, fr_Stream = stream, fr_Flags = flags, fr_Payload = payload\<rparr>"
    and wf: "wf_frame f" and room: "length acc + 1 < 2 ^ 64" and ok: "we_write e = None"
    and ap: "append_frame c e stream payload flags w = (res, w')"
  shows "\<exists>F' fs'. core c r (acc @ [stored f]) F' w' a \<and> writing c r F' fs' w' a \<and> (\<forall>n\<in>file_set (w_dir w'). n \<le> w_chunk w')"
proof -
  let ?n = "w_chunk w" and ?F = "F(w_chunk w := map stored (fs @ [f]))" and ?S = "row_set a r \<union> file_set (w_dir w)"
  let ?z = "en_zstd (lc_enc c)" and ?b = "en_open (lc_enc c) (map encodeWithHeader (fs @ [f]))"
  have v: "log_view ?z a (w_dir w) r F" using k by (simp add: core_def)
  have enc: "w_enc w = Some (map encodeWithHeader fs)" and nb: "\<not> w_broken w" and nB: "?n \<in> file_set (w_dir w)" and nR: "?n \<notin> row_set a r"
    and Fn: "F ?n = map stored fs" and wfs: "list_all wf_frame (fs @ [f])"
    using wr wf by (auto simp: writing_def)
  have B: "file_set (put_file ?n ?b (w_dir w)) = file_set (w_dir w)" using nB by auto
  have le: "\<And>m. m \<in> ?S \<Longrightarrow> m \<le> ?n" using k top by (auto simp: core_def)
  have su: "unat (w_seq w) + 1 < 2 ^ 64" using k room by (simp add: core_def)
  note nx = next_seq [OF su]
  have acc: "acc = frames_in F (sorted_list_of_set (?S - {?n})) @ map stored fs"
    using k frames_in_max [of ?S ?n F] nB le Fn by (simp add: core_def)
  have old: "g \<in> set acc \<Longrightarrow> fr_Sequence g < w_seq w + 1" for g using k nx(3) by (auto simp: core_def)
  have acc': "frames_in ?F (sorted_list_of_set ?S) = acc @ [stored f]"
    using frames_in_max [of ?S ?n ?F] nB le acc frames_in_cong [of "?S - {?n}" ?F F] by simp
  have sub: "set (F m) \<subseteq> set acc" if "m \<in> ?S" for m using k that by (auto simp: core_def set_frames_in)
  have cf: "w_chunkFirst w \<le> w_seq w + 1"
    using wr nx(1) by (simp add: writing_def word_le_nat_alt)
  have view: "log_view ?z a (put_file ?n ?b (w_dir w)) r ?F"
  proof (rule view_put_file [OF v])
    show "holds_frames ?z ?b (map stored (fs @ [f]))" by (rule holds_open [OF en wfs])
    have "sorted_wrt (<) (map fr_Sequence (map stored fs))"
      using chunk_seqsD(1) [OF log_viewD(4) [OF v], of ?n] nB unfolding Fn by simp
    then show "sorted_wrt (<) (map fr_Sequence (map stored (fs @ [f])))"
      using old [of "stored _"] acc f by (auto simp: sorted_wrt_append)
    show "0 < fr_Sequence g" if "g \<in> set (map stored (fs @ [f]))" for g
      using that chunk_seqsD(2) [OF log_viewD(4) [OF v], of ?n] nB nx(4) unfolding Fn f
      by (auto simp del: word_gt_0)
    show "fr_Sequence x < fr_Sequence g" if "m \<in> ?S" "m < ?n" "x \<in> set (F m)" "g \<in> set (map stored (fs @ [f]))" for m x g
    proof -
      have "fr_Sequence x < w_chunkFirst w" using wr that by (simp add: writing_def)
      moreover have "w_chunkFirst w \<le> fr_Sequence g" using wr that(4) cf Fn f by (auto simp: writing_def)
      ultimately show ?thesis by simp
    qed
    show "ch_Last d < fr_Sequence g" if "d \<in> set (run_rows (ar_db a) r)" "g \<in> set (map stored (fs @ [f]))" for d g
    proof -
      have "ch_Last d < w_chunkFirst w" using wr that by (simp add: writing_def)
      moreover have "w_chunkFirst w \<le> fr_Sequence g" using wr that(2) cf Fn f by (auto simp: writing_def)
      ultimately show ?thesis by simp
    qed
  qed (use wr nR le in \<open>auto simp: writing_def\<close>)
  have w': "w_dir w' = put_file ?n ?b (w_dir w)" "w_seq w' = w_seq w + 1" "w_chunk w' = ?n" "w_idx w' = w_idx w"
    "w_degraded w' = w_degraded w" "w_file w' = w_file w" "w_enc w' = Some (map encodeWithHeader (fs @ [f]))"
    "w_broken w' = w_broken w" "w_chunkErr w' = w_chunkErr w" "w_chunkFirst w' = w_chunkFirst w"
    "w_chunkRaw w' = w_chunkRaw w + int (frame_size f)"
    using ap ok nb enc f
    by (auto simp: append_frame_def Let_def set_file_def put_file_def frame_size_def split: if_splits)
  have meta: "meta_ok ?F ?S m" if "meta_ok F ?S m" "cm_Number m < ?n" "cm_Last m < w_chunkFirst w" for m
    using that wr cf Fn f by (auto simp: meta_ok_def last_ok_def writing_def)
  have other: "found ?z a (put_file ?n ?b (w_dir w)) r ?F m" if "found ?z a (w_dir w) r F m" "m \<noteq> ?n" for m
    using that by (auto simp: found_def openFileChunk_def split: option.splits)
  have mem: "\<forall>m\<in>set (ix_Chunks (w_idx w)). meta_ok ?F ?S m \<and> found ?z a (put_file ?n ?b (w_dir w)) r ?F (cm_Number m)"
    using k wr meta other by (auto simp: core_def writing_def)
  have disk: "\<forall>i m. rb_index (w_dir w) = Some i \<longrightarrow> m \<in> set (ix_Chunks i) \<longrightarrow> meta_ok ?F ?S m"
    using k wr meta by (auto simp: core_def writing_def)
  have stray: "no_stray ?z a r ?F" using k nR by (auto simp: core_def no_stray_def)
  have core': "core c r (acc @ [stored f]) ?F w' a"
    using k view acc' mem disk old nx f stray
    unfolding core_def w' B by (auto simp: less_imp_le)
  have "writing c r ?F (fs @ [f]) w' a"
    using wr cf nx f wf unfolding writing_def w' B by (auto simp: sizes_def Fn)
  then show ?thesis using core' top unfolding w' B by blast
qed

section \<open>Sealing a chunk\<close>

lemma core_cong:
  assumes "core c r acc F w a" "w_dir w' = w_dir w" "w_seq w' = w_seq w" "w_chunk w' = w_chunk w"
    "w_degraded w' = w_degraded w" "ix_Chunks (w_idx w') = ix_Chunks (w_idx w)"
  shows "core c r acc F w' a"
  using assms by (simp add: core_def)

lemma found_put_same:
  "found z a rb r F m \<Longrightarrow> holds_frames z b (F n) \<Longrightarrow> found z a (put_file n b rb) r F m"
  by (auto simp: found_def openFileChunk_def split: option.splits)

text \<open>New contents with the same frames for a file that is not archived.\<close>

lemma core_same_file:
  assumes k: "core c r acc F w a" and n: "n \<in> file_set (w_dir w)" "n \<notin> row_set a r"
    and b: "holds_frames (en_zstd (lc_enc c)) b (F n)"
  shows "core c r acc F (set_file n b w) a"
proof -
  have B: "file_set (put_file n b (w_dir w)) = file_set (w_dir w)" using n by auto
  have f: "w_dir (set_file n b w) = put_file n b (w_dir w)" "w_seq (set_file n b w) = w_seq w" "w_chunk (set_file n b w) = w_chunk w"
    "w_degraded (set_file n b w) = w_degraded w" "w_idx (set_file n b w) = w_idx w"
    by (simp_all add: set_file_def put_file_def)
  show ?thesis
    using k view_same_file [of "en_zstd (lc_enc c)" a "w_dir w" r F n b] n b
      found_put_same [of "en_zstd (lc_enc c)" a "w_dir w" r F _ b n]
    unfolding core_def f B by auto
qed

lemma core_add_meta:
  assumes k: "core c r acc F w a" and m: "meta_ok F (row_set a r \<union> file_set (w_dir w)) m" "cm_Number m \<le> w_chunk w"
    "cm_Number m \<in> row_set a r \<union> file_set (w_dir w)" "found (en_zstd (lc_enc c)) a (w_dir w) r F (cm_Number m)"
    and older: "\<forall>k\<in>set (ix_Chunks (w_idx w)). cm_Number k < cm_Number m"
    and "\<forall>n\<in>file_set (w_dir w) - row_set a r. n \<in> cm_Number ` set (ix_Chunks (w_idx w)) \<or> n = cm_Number m \<or> cm_Number m < n"
  shows "core c r acc F (w\<lparr>w_idx := (w_idx w)\<lparr>ix_Chunks := ix_Chunks (w_idx w) @ [m]\<rparr>\<rparr>) a"
  using assms unfolding core_def by (auto simp: sorted_wrt_append)

lemma writeIndex_fields:
  assumes "writeIndexSync sync e w = (ok, w')"
  shows "w_seq w' = w_seq w" "w_chunk w' = w_chunk w" "w_degraded w' = w_degraded w" "w_file w' = w_file w" "w_enc w' = w_enc w"
    "w_broken w' = w_broken w" "w_chunkErr w' = w_chunkErr w" "w_closed w' = w_closed w" "w_truncated w' = w_truncated w"
    "w_dirExists w' = w_dirExists w" "w_chunkFirst w' = w_chunkFirst w" "w_chunkRaw w' = w_chunkRaw w"
    "ix_Chunks (w_idx w') = ix_Chunks (w_idx w)" "rb_files (w_dir w') = rb_files (w_dir w)"
    "rb_index (w_dir w') = rb_index (w_dir w) \<or> (\<exists>i. rb_index (w_dir w') = Some i \<and> ix_Chunks i = ix_Chunks (w_idx w))"
  using assms by (auto simp: writeIndexSync_def Let_def split: if_splits)

lemma core_index:
  assumes k: "core c r acc F w a" and i: "writeIndexSync sync e w = (ok, w')"
  shows "core c r acc F w' a"
proof -
  note f = writeIndex_fields [OF i]
  have v: "log_view (en_zstd (lc_enc c)) a (w_dir w) r F" using k by (simp add: core_def)
  have d: "w_dir w' = (w_dir w)\<lparr>rb_index := rb_index (w_dir w')\<rparr>" using f(14) by simp
  have B: "file_set (w_dir w') = file_set (w_dir w)" using f(14) by (simp add: file_set_def)
  have ix: "meta_ok F (row_set a r \<union> file_set (w_dir w)) m \<and> cm_Number m \<le> w_chunk w"
    if "rb_index (w_dir w') = Some j" "m \<in> set (ix_Chunks j)" for j m
  proof (cases "rb_index (w_dir w') = rb_index (w_dir w)")
    case True
    then have "rb_index (w_dir w) = Some j" using that by simp
    then show ?thesis using k that(2) unfolding core_def by blast
  next
    case False
    then show ?thesis using f(15) that k by (auto simp: core_def)
  qed
  then have "index_ok ((w_dir w)\<lparr>rb_index := rb_index (w_dir w')\<rparr>) F"
    by (auto simp: index_ok_def meta_ok_def last_ok_def)
  then have v': "log_view (en_zstd (lc_enc c)) a (w_dir w') r F" using view_put_index [OF v] d by metis
  have "found (en_zstd (lc_enc c)) a (w_dir w') r F n = found (en_zstd (lc_enc c)) a (w_dir w) r F n" for n
    unfolding found_def openFileChunk_def f(14) ..
  then show ?thesis using k v' ix unfolding core_def f(1-3) f(13) B by auto
qed

lemma writing_found:
  assumes "core c r acc F w a" "n \<in> file_set (w_dir w)" "n \<notin> row_set a r"
  shows "found (en_zstd (lc_enc c)) a (w_dir w) r F n"
proof -
  have "log_view (en_zstd (lc_enc c)) a (w_dir w) r F" "no_stray (en_zstd (lc_enc c)) a r F" using assms by (simp_all add: core_def)
  then obtain b where "map_of (rb_files (w_dir w)) n = Some b" "holds_frames (en_zstd (lc_enc c)) b (F n)"
    using log_view_file assms(2) by metis
  moreover have "map_of (ar_files a) (r, n) = None"
    using \<open>no_stray (en_zstd (lc_enc c)) a r F\<close> assms(3) by (cases "map_of (ar_files a) (r, n)") (auto simp: no_stray_def)
  ultimately show ?thesis by (simp add: found_def openFileChunk_def)
qed

text \<open>What sealing leaves, whether it works or not.\<close>

definition sealed_from :: "writer \<Rightarrow> log_error option \<Rightarrow> writer \<Rightarrow> bool" where
  "sealed_from w x w' \<longleftrightarrow> \<not> w_file w' \<and> w_chunkErr w' = x \<and> w_chunk w' = w_chunk w \<and> w_seq w' = w_seq w \<and> w_enc w' = w_enc w \<and>
     w_closed w' = w_closed w \<and> w_truncated w' = w_truncated w \<and> w_dirExists w' = w_dirExists w \<and>
     file_set (w_dir w') = file_set (w_dir w) \<and> set (ix_Chunks (w_idx w)) \<subseteq> set (ix_Chunks (w_idx w')) \<and>
     (\<forall>m\<in>set (ix_Chunks (w_idx w')). cm_Last m \<le> w_seq w) \<and>
     (\<forall>i m. rb_index (w_dir w') = Some i \<longrightarrow> m \<in> set (ix_Chunks i) \<longrightarrow> cm_Last m \<le> w_seq w)"

lemma last_before_first:
  assumes "writing c r F fs w a" "l < w_chunkFirst w"
  shows "l \<le> w_seq w"
  using assms by (simp add: writing_def word_less_nat_alt word_le_nat_alt)

lemma finish_core:
  assumes en: "encoder_ok (lc_enc c)" and k: "core c r acc F w a" and wr: "writing c r F fs w a"
    and fin: "finishChunk c e w = (x, w')"
  shows "core c r acc F w' a \<and> sealed_from w x w' \<and> (x = None \<longrightarrow> fs \<noteq> [] \<longrightarrow> w_chunk w \<in> cm_Number ` set (ix_Chunks (w_idx w')))"
proof -
  let ?n = "w_chunk w" and ?S = "row_set a r \<union> file_set (w_dir w)"
  let ?segs = "map encodeWithHeader fs" and ?z = "en_zstd (lc_enc c)"
  have opn: "w_file w" and enc: "w_enc w = Some ?segs" and nb: "\<not> w_broken w" and nB: "?n \<in> file_set (w_dir w)" and nR: "?n \<notin> row_set a r"
    and Fn: "F ?n = map stored fs" and wfs: "list_all wf_frame fs" and ce: "w_chunkErr w = None"
    using wr by (auto simp: writing_def)
  define w1 where "w1 = (case fe_close e of None \<Rightarrow> set_file ?n (en_closed (lc_enc c) ?segs) w
     | Some j \<Rightarrow> (set_file ?n (en_torn (lc_enc c) ?segs [] j) w)\<lparr>w_broken := True\<rparr>)"
  have b: "holds_frames ?z (en_closed (lc_enc c) ?segs) (F ?n)" "holds_frames ?z (en_torn (lc_enc c) ?segs [] j) (F ?n)" for j
    using holds_closed [OF en wfs] holds_torn [OF en wfs] Fn by simp_all
  have k1: "core c r acc F w1 a"
    unfolding w1_def by (cases "fe_close e") (auto intro!: core_same_file [OF k nB nR] b intro: core_cong [OF core_same_file [OF k nB nR b(2)]])
  have f1: "w_idx w1 = w_idx w" "w_seq w1 = w_seq w" "w_chunk w1 = ?n" "w_enc w1 = w_enc w" "w_closed w1 = w_closed w"
    "w_truncated w1 = w_truncated w" "w_dirExists w1 = w_dirExists w" "w_chunkErr w1 = None" "rb_index (w_dir w1) = rb_index (w_dir w)"
    "file_set (w_dir w1) = file_set (w_dir w)"
    using ce nB by (auto simp: w1_def set_file_def file_set_def split: option.split)
  have lasts: "\<forall>m\<in>set (ix_Chunks (w_idx w)). cm_Last m \<le> w_seq w"
    "\<forall>i m. rb_index (w_dir w) = Some i \<longrightarrow> m \<in> set (ix_Chunks i) \<longrightarrow> cm_Last m \<le> w_seq w"
    using wr last_before_first [OF wr] by (auto simp: writing_def)
  let ?w2 = "w1\<lparr>w_file := False\<rparr>"
  let ?fail = "?w2\<lparr>w_chunkErr := Some (FinishChunk ?n), w_chunkIndexOnly := False\<rparr>"
  have fail: "core c r acc F ?fail a \<and> sealed_from w (Some (FinishChunk ?n)) ?fail"
    using core_cong [OF k1, of ?fail] lasts f1 by (simp add: sealed_from_def)
  show ?thesis
  proof (cases "x = Some (FinishChunk ?n) \<and> w' = ?fail")
    case True
    then show ?thesis using fail by simp
  next
    case False
    define deferred where "deferred \<longleftrightarrow> \<not> w_frameSync w \<and> fe_room e"
    obtain sz where sz: "fe_size e = Some sz"
      using fin opn enc nb False by (cases "fe_size e") (auto simp: finishChunk_def Let_def w1_def)
    define m where "m = \<lparr>cm_Number = ?n, cm_First = w_chunkFirst w, cm_Last = w_seq w, cm_Bytes = sz, cm_Raw = w_chunkRaw w, cm_Archived = False\<rparr>"
    define w3 where "w3 = (if w_seq w \<ge> w_chunkFirst w
       then ?w2\<lparr>w_idx := (w_idx ?w2)\<lparr>ix_Chunks := ix_Chunks (w_idx ?w2) @ [m]\<rparr>\<rparr> else ?w2)"
    obtain ok w4 where w4: "writeIndexSync (\<not> deferred) (fe_index e) w3 = (ok, w4)" by fastforce
    define w5 where "w5 = (if deferred then w4\<lparr>w_sealed := w_sealed w4 @ [?n]\<rparr> else w4)"
    define w6 where "w6 = (if ok then w5 else w5\<lparr>w_chunkErr := Some (IndexChunk ?n), w_chunkIndexOnly := True\<rparr>)"
    have res: "x = w_chunkErr w6" "w' = w6"
      using fin opn enc nb False sz w4
      by (auto simp: finishChunk_def Let_def w1_def deferred_def m_def w3_def w5_def w6_def split: if_splits option.splits)
    have nonempty: "w_seq w \<ge> w_chunkFirst w \<longleftrightarrow> fs \<noteq> []"
      using wr by (cases fs) (auto simp: writing_def word_le_nat_alt)
    have k3: "core c r acc F w3 a"
    proof (cases "fs = []")
      case True
      then show ?thesis using core_cong [OF k1, of ?w2] nonempty by (simp add: w3_def)
    next
      case fs: False
      have "\<forall>f\<in>set (F ?n). fr_Sequence f \<le> w_seq w" using k nB by (auto simp: core_def set_frames_in)
      moreover have "\<forall>j\<in>?S. ?n < j \<longrightarrow> F j = []" using k by (auto simp: core_def)
      ultimately have "meta_ok F ?S m" using fs Fn by (auto simp: meta_ok_def last_ok_def m_def)
      moreover have "found ?z a (w_dir w1) r F ?n" using writing_found [OF k1] nB nR f1 by simp
      moreover have "\<forall>j\<in>set (ix_Chunks (w_idx w)). cm_Number j < ?n" using wr by (simp add: writing_def)
      moreover have "\<forall>j\<in>file_set (w_dir w) - row_set a r. j \<in> cm_Number ` set (ix_Chunks (w_idx w)) \<or> j = ?n \<or> ?n < j"
        using wr by (auto simp: writing_def)
      ultimately have "core c r acc F (?w2\<lparr>w_idx := (w_idx ?w2)\<lparr>ix_Chunks := ix_Chunks (w_idx ?w2) @ [m]\<rparr>\<rparr>) a"
        using core_cong [OF k1, of ?w2] nB f1 by (intro core_add_meta) (auto simp: m_def)
      then show ?thesis using nonempty fs by (simp add: w3_def)
    qed
    have k6: "core c r acc F w6 a"
      by (rule core_cong [OF core_index [OF k3 w4]]) (auto simp: w6_def w5_def)
    have f3: "w_seq w3 = w_seq w" "w_chunk w3 = ?n" "w_enc w3 = w_enc w" "w_closed w3 = w_closed w" "w_truncated w3 = w_truncated w"
      "w_dirExists w3 = w_dirExists w" "w_chunkErr w3 = None" "w_file w3 = False" "w_dir w3 = w_dir w1"
      "set (ix_Chunks (w_idx w3)) = set (ix_Chunks (w_idx w)) \<union> (if fs = [] then {} else {m})"
      using f1 nonempty by (auto simp: w3_def)
    have l3: "\<forall>j\<in>set (ix_Chunks (w_idx w3)). cm_Last j \<le> w_seq w" using lasts f3(10) by (auto simp: m_def)
    have f6: "w_chunk w6 = w_chunk w4" "w_seq w6 = w_seq w4" "w_enc w6 = w_enc w4" "w_closed w6 = w_closed w4"
      "w_truncated w6 = w_truncated w4" "w_dirExists w6 = w_dirExists w4" "w_file w6 = w_file w4" "w_dir w6 = w_dir w4" "w_idx w6 = w_idx w4"
      by (auto simp: w6_def w5_def)
    note f4 = writeIndex_fields [OF w4]
    have B: "file_set (w_dir w4) = file_set (w_dir w)" using f4(14) f3(9) f1(10) by (simp add: file_set_def)
    have "\<forall>i j. rb_index (w_dir w4) = Some i \<longrightarrow> j \<in> set (ix_Chunks i) \<longrightarrow> cm_Last j \<le> w_seq w"
      using f4(15) lasts(2) l3 f3(9) f1(9) by auto
    then have "sealed_from w x w6"
      using l3 f3 unfolding sealed_from_def f6 res(1) f4 B by simp
    moreover have "?n \<in> cm_Number ` set (ix_Chunks (w_idx w6))" if "fs \<noteq> []"
      using that unfolding f6 f4(13) f3(10) by (simp add: m_def)
    ultimately show ?thesis using k6 res by simp
  qed
qed

section \<open>Rotation\<close>

lemma core_new_file:
  assumes en: "encoder_ok (lc_enc c)" and k: "core c r acc F w a" and n: "0 < n" "n = w_chunk w + 1"
  shows "core c r acc F (set_file n [] w) a"
proof -
  let ?S = "row_set a r \<union> file_set (w_dir w)"
  have v: "log_view (en_zstd (lc_enc c)) a (w_dir w) r F" and Fn: "F n = []" and R: "n \<notin> row_set a r"
    and le: "\<And>m. m \<in> ?S \<Longrightarrow> m \<le> n"
    using k n by (auto simp: core_def)
  have "log_view (en_zstd (lc_enc c)) a (put_file n [] (w_dir w)) r (F(n := []))"
    by (rule view_put_file [OF v n(1) R le]) (use holds_empty [OF en] in auto)
  then have v': "log_view (en_zstd (lc_enc c)) a (put_file n [] (w_dir w)) r F" using Fn by (simp add: fun_upd_idem)
  have "frames_in F (sorted_list_of_set (row_set a r \<union> insert n (file_set (w_dir w)))) = frames_in F (sorted_list_of_set ?S)"
    using Fn by (intro frames_in_same) auto
  then have acc: "frames_in F (sorted_list_of_set (row_set a r \<union> insert n (file_set (w_dir w)))) = acc"
    using k by (simp add: core_def)
  have meta: "meta_ok F (row_set a r \<union> insert n (file_set (w_dir w))) m" if "meta_ok F ?S m" for m
    using that Fn by (auto simp: meta_ok_def last_ok_def)
  have fnd: "found (en_zstd (lc_enc c)) a (put_file n [] (w_dir w)) r F m" if "found (en_zstd (lc_enc c)) a (w_dir w) r F m" for m
    using found_put_same [OF that] holds_empty [OF en] Fn by simp
  have f: "w_dir (set_file n [] w) = put_file n [] (w_dir w)" "w_seq (set_file n [] w) = w_seq w" "w_chunk (set_file n [] w) = w_chunk w"
    "w_degraded (set_file n [] w) = w_degraded w" "w_idx (set_file n [] w) = w_idx w"
    by (simp_all add: set_file_def put_file_def)
  have newer: "\<forall>m\<in>set (ix_Chunks (w_idx w)). cm_Number m < n" using k n by (auto simp: core_def)
  show ?thesis
    using k v' acc meta fnd newer n unfolding core_def f file_set_simps by auto
qed

lemma core_drop_empty:
  assumes k: "core c r acc F w a" and n: "w_chunk w < n"
  shows "core c r acc F (remove_file n w) a"
proof -
  let ?S = "row_set a r \<union> file_set (w_dir w)"
  have v: "log_view (en_zstd (lc_enc c)) a (w_dir w) r F" and Fn: "F n = []" and R: "n \<notin> row_set a r"
    using k n by (auto simp: core_def)
  have v': "log_view (en_zstd (lc_enc c)) a (drop_file n (w_dir w)) r F" using view_drop [OF v, of n] R Fn by simp
  have S: "row_set a r \<union> (file_set (w_dir w) - {n}) = ?S - {n}" using R by auto
  have "frames_in F (sorted_list_of_set (?S - {n})) = frames_in F (sorted_list_of_set ?S)"
    using Fn by (intro frames_in_same) auto
  then have acc: "frames_in F (sorted_list_of_set (?S - {n})) = acc" using k by (simp add: core_def)
  have meta: "meta_ok F (?S - {n}) m" if "meta_ok F ?S m" for m using that by (auto simp: meta_ok_def last_ok_def)
  have fnd: "found (en_zstd (lc_enc c)) a (drop_file n (w_dir w)) r F m" if "found (en_zstd (lc_enc c)) a (w_dir w) r F m" "m \<noteq> n" for m
    using that by (auto simp: found_def openFileChunk_def split: option.splits)
  have f: "w_dir (remove_file n w) = drop_file n (w_dir w)" "w_seq (remove_file n w) = w_seq w" "w_chunk (remove_file n w) = w_chunk w"
    "w_degraded (remove_file n w) = w_degraded w" "w_idx (remove_file n w) = w_idx w"
    by (simp_all add: remove_file_def drop_file_def)
  have other: "\<forall>m\<in>set (ix_Chunks (w_idx w)). cm_Number m \<noteq> n" using k n by (auto simp: core_def)
  show ?thesis
    using k v' acc meta fnd n other unfolding core_def f file_set_simps S by auto
qed

lemma writing_new_file:
  assumes "writing c r F fs w a" "n \<noteq> w_chunk w" "w_chunk w < n" "n \<notin> row_set a r"
  shows "writing c r F fs (set_file n b w) a"
  using assms by (auto simp: writing_def set_file_def put_file_def file_set_def)

lemma rotate_intact:
  assumes en: "encoder_ok (lc_enc c)" and k: "core c r acc F w a" and wr: "writing c r F fs w a"
    and top: "\<forall>n\<in>file_set (w_dir w). n \<le> w_chunk w" and fs: "fs \<noteq> []" and room: "length acc + 1 < 2 ^ 64"
    and rot: "rotate c e w = (x, w')"
  shows "w_truncated w' = w_truncated w \<and> w_closed w' = w_closed w \<and>
    (x = None \<longrightarrow> (\<exists>F'. core c r acc F' w' a \<and> writing c r F' [] w' a \<and> (\<forall>n\<in>file_set (w_dir w'). n \<le> w_chunk w'))) \<and>
    (x \<noteq> None \<longrightarrow> w' = w \<or> (core c r acc F w' a \<and> \<not> w_file w' \<and> w_chunkErr w' \<noteq> None))"
proof -
  let ?n = "w_chunk w + 1"
  have pos: "0 < w_chunk w" and opn: "w_file w" and enc: "w_enc w \<noteq> None" and ce: "w_chunkErr w = None"
    using wr by (auto simp: writing_def)
  have nR: "?n \<notin> row_set a r" using k by (force simp: core_def)
  let ?w1 = "set_file ?n [] w"
  have k1: "core c r acc F ?w1 a" by (rule core_new_file [OF en k]) (use pos in auto)
  have wr1: "writing c r F fs ?w1 a" by (rule writing_new_file [OF wr]) (use nR in auto)
  obtain y w2 where fin: "finishChunk c (re_finish e) ?w1 = (y, w2)" by fastforce
  note post = finish_core [OF en k1 wr1 fin]
  have f1: "w_chunk ?w1 = w_chunk w" "w_seq ?w1 = w_seq w" "w_truncated ?w1 = w_truncated w" "w_closed ?w1 = w_closed w" "w_idx ?w1 = w_idx w"
    "file_set (w_dir ?w1) = insert ?n (file_set (w_dir w))"
    by (simp_all add: set_file_def file_set_def) auto
  consider "x \<noteq> None" "w' = w"
    | "y \<noteq> None" "x \<noteq> None" "w' = (if re_cleanup e then remove_file ?n else id) (w2\<lparr>w_chunkErr := y\<rparr>)"
    | "y = None" "x = None" "w' = w2\<lparr>w_chunk := ?n, w_file := True, w_enc := Some [], w_broken := False, w_chunkRaw := 0,
                                     w_chunkFirst := w_seq w2 + 1, w_unsynced := 0\<rparr>"
    using rot fin ce enc opn by (auto simp: rotate_def Let_def split: if_splits option.splits)
  then show ?thesis
  proof cases
    case 1
    then show ?thesis by auto
  next
    case 2
    let ?w3 = "w2\<lparr>w_chunkErr := y\<rparr>"
    have k3: "core c r acc F ?w3 a" using core_cong [of c r acc F w2 a ?w3] post by simp
    moreover have "w_chunk ?w3 < ?n" using post f1 by (simp add: sealed_from_def)
    ultimately have "core c r acc F w' a" using 2(3) core_drop_empty [OF k3] by simp
    then show ?thesis using 2 post f1 by (auto simp: sealed_from_def remove_file_def)
  next
    case 3
    have su: "unat (w_seq w) + 1 < 2 ^ 64" using k room by (simp add: core_def)
    note nx = next_seq [OF su]
    have f2: "w_chunk w2 = w_chunk w" "w_seq w2 = w_seq w" "file_set (w_dir w2) = insert ?n (file_set (w_dir w))"
      using post f1 by (simp_all add: sealed_from_def)
    have k2: "core c r acc F w2 a" using post by simp
    have f3: "w_dir w' = w_dir w2" "w_seq w' = w_seq w" "w_chunk w' = ?n" "w_degraded w' = w_degraded w2" "w_idx w' = w_idx w2"
      using 3(3) f2 by simp_all
    have "\<forall>m\<in>set (ix_Chunks (w_idx w2)). cm_Number m \<le> ?n"
      "\<forall>i m. rb_index (w_dir w2) = Some i \<longrightarrow> m \<in> set (ix_Chunks i) \<longrightarrow> cm_Number m \<le> ?n"
      "\<forall>n\<in>row_set a r. n \<le> ?n" "\<forall>n\<in>file_set (w_dir w2). n \<le> ?n + 1"
      using k2 f2(1) by (fastforce simp: core_def)+
    then have k': "core c r acc F w' a" using k2 f2(1,2) unfolding core_def f3 by auto
    have "w_chunkFirst w \<le> w_seq w + 1" using wr nx(1) by (simp add: writing_def word_le_nat_alt)
    then have rows: "\<forall>d\<in>set (run_rows (ar_db a) r). ch_Last d < w_seq w + 1"
      using wr by (auto simp: writing_def intro: less_le_trans)
    have frs: "\<forall>n\<in>row_set a r \<union> file_set (w_dir w2). n < ?n \<longrightarrow> (\<forall>f\<in>set (F n). fr_Sequence f < w_seq w + 1)"
    proof (intro ballI impI)
      fix n f assume "n \<in> row_set a r \<union> file_set (w_dir w2)" "f \<in> set (F n)"
      then have "f \<in> set acc" using k2 by (auto simp: core_def set_frames_in)
      then show "fr_Sequence f < w_seq w + 1" using k nx(3) by (auto simp: core_def)
    qed
    have metas: "\<forall>m\<in>set (ix_Chunks (w_idx w2)). cm_Number m < ?n \<and> cm_Last m < w_seq w + 1"
      using k2 post f1 f2 nx(3) by (auto simp: core_def sealed_from_def)
    have disk: "\<forall>i m. rb_index (w_dir w2) = Some i \<longrightarrow> m \<in> set (ix_Chunks i) \<longrightarrow> cm_Number m < ?n \<and> cm_Last m < w_seq w + 1"
    proof (intro allI impI)
      fix i m assume im: "rb_index (w_dir w2) = Some i" "m \<in> set (ix_Chunks i)"
      have "cm_Number m \<le> w_chunk w2" using k2 im unfolding core_def by blast
      moreover have "cm_Last m \<le> w_seq ?w1" using post im unfolding sealed_from_def by blast
      ultimately show "cm_Number m < ?n \<and> cm_Last m < w_seq w + 1" using f1(2) f2(1) nx(3) by simp
    qed
    have cover: "\<forall>n\<in>file_set (w_dir w2) - row_set a r. n \<in> cm_Number ` set (ix_Chunks (w_idx w2)) \<or> ?n \<le> n"
    proof
      fix n assume n: "n \<in> file_set (w_dir w2) - row_set a r"
      show "n \<in> cm_Number ` set (ix_Chunks (w_idx w2)) \<or> ?n \<le> n"
      proof (cases "n \<in> cm_Number ` set (ix_Chunks (w_idx w))")
        case True
        then show ?thesis using post f1 by (auto simp: sealed_from_def)
      next
        case False
        then have "w_chunk w \<le> n" using n wr f2 by (auto simp: writing_def)
        then show ?thesis using post f1 fs 3(1) by (cases "n = w_chunk w") auto
      qed
    qed
    have f4: "w_file w'" "w_enc w' = Some []" "\<not> w_broken w'" "w_chunkErr w' = None" "w_chunkFirst w' = w_seq w + 1" "w_chunkRaw w' = 0"
      using 3 f2 post by (simp_all add: sealed_from_def)
    have Fn: "F ?n = []" "?n \<in> file_set (w_dir w2)" using k f2(3) by (simp_all add: core_def)
    have "writing c r F [] w' a"
      unfolding writing_def f3 f4(5,6)
      by (intro conjI rows frs metas disk cover nR Fn(2) f4) (use f4 Fn(1) pos nx(1) in \<open>simp_all add: sizes_def\<close>)
    moreover have "\<forall>n\<in>file_set (w_dir w'). n \<le> w_chunk w'" using top unfolding f3 f2 by auto
    ultimately show ?thesis using 3 k' post f1 by (auto simp: sealed_from_def)
  qed
qed

section \<open>Checkpoints\<close>

lemma collect_spec:
  "collect rd through n sz ms = Some cs \<Longrightarrow>
     (\<exists>j. map ch_Number cs = map cm_Number (take j ms)) \<and>
     (\<forall>c\<in>set cs. \<exists>m\<in>set ms. ch_Number c = cm_Number m \<and> ch_Last c = cm_Last m \<and>
        (ch_FileBytes c > 0 \<or> (ch_FileBytes c = 0 \<and> rd (ch_Number c) = Some (ch_Blob c))))"
proof (induction ms arbitrary: n sz cs)
  case (Cons m ms)
  show ?case
  proof (cases "cs = []")
    case True
    then show ?thesis by (auto intro: exI [of _ 0])
  next
    case False
    then obtain c cs' n' sz' where cs: "cs = c # cs'" "collect rd through n' sz' ms = Some cs'"
      and c: "ch_Number c = cm_Number m" "ch_Last c = cm_Last m"
        "ch_FileBytes c > 0 \<or> (ch_FileBytes c = 0 \<and> rd (ch_Number c) = Some (ch_Blob c))"
    proof (cases "cm_Bytes m \<ge> fileChunkMin")
      case big: True
      then obtain cs' where "collect rd through (Suc n) sz ms = Some cs'"
        "cs = \<lparr>ch_Number = cm_Number m, ch_First = cm_First m, ch_Last = cm_Last m, ch_RawBytes = cm_Raw m, ch_Blob = [],
               ch_FileBytes = cm_Bytes m\<rparr> # cs'"
        using Cons.prems False by (auto split: if_splits)
      then show ?thesis using that big by (simp add: fileChunkMin_def)
    next
      case small: False
      then obtain b cs' where "rd (cm_Number m) = Some b" "collect rd through (Suc n) (sz + int (length b)) ms = Some cs'"
        "cs = \<lparr>ch_Number = cm_Number m, ch_First = cm_First m, ch_Last = cm_Last m, ch_RawBytes = cm_Raw m, ch_Blob = b,
               ch_FileBytes = 0\<rparr> # cs'"
        using Cons.prems False by (auto split: if_splits option.splits)
      then show ?thesis using that by simp
    qed
    obtain j where "map ch_Number cs' = map cm_Number (take j ms)" using Cons.IH [OF cs(2)] by blast
    then have "\<exists>j. map ch_Number cs = map cm_Number (take j (m # ms))"
      using cs c by (intro exI [of _ "Suc j"]) simp
    moreover have "\<forall>d\<in>set cs'. \<exists>k\<in>set ms. ch_Number d = cm_Number k \<and> ch_Last d = cm_Last k \<and>
        (ch_FileBytes d > 0 \<or> (ch_FileBytes d = 0 \<and> rd (ch_Number d) = Some (ch_Blob d)))"
      using Cons.IH [OF cs(2)] by blast
    then have "\<forall>d\<in>set cs. \<exists>k\<in>set (m # ms). ch_Number d = cm_Number k \<and> ch_Last d = cm_Last k \<and>
        (ch_FileBytes d > 0 \<or> (ch_FileBytes d = 0 \<and> rd (ch_Number d) = Some (ch_Blob d)))"
      using cs(1) c by auto
    ultimately show ?thesis by blast
  qed
qed (auto intro: exI [of _ 0])

text \<open>The chunks a batch takes.\<close>

lemma batch_ok:
  assumes k: "core c r acc F w a"
    and cs: "collect (\<lambda>n. if ok n then map_of (rb_files (w_dir w)) n else None) through 0 0 (ix_Chunks (w_idx w)) = Some cs"
  shows "puts_ok (en_zstd (lc_enc c)) a (w_dir w) r F cs" "distinct (map ch_Number cs)"
    "\<And>n d. n \<in> file_set (w_dir w) \<Longrightarrow> n \<notin> row_set a r \<Longrightarrow> n \<notin> ch_Number ` set cs \<Longrightarrow> d \<in> set cs \<Longrightarrow> ch_Number d < n"
    "\<And>d. d \<in> set cs \<Longrightarrow> \<exists>m\<in>set (ix_Chunks (w_idx w)). ch_Number d = cm_Number m \<and> ch_Last d = cm_Last m"
    "\<exists>j. map ch_Number cs = map cm_Number (take j (ix_Chunks (w_idx w)))"
proof -
  let ?ms = "ix_Chunks (w_idx w)" and ?z = "en_zstd (lc_enc c)"
  obtain j where j: "map ch_Number cs = map cm_Number (take j ?ms)" using collect_spec [OF cs] by blast
  then show "\<exists>j. map ch_Number cs = map cm_Number (take j ?ms)" by blast
  have srt: "sorted_wrt (<) (map cm_Number ?ms)" using k by (simp add: core_def)
  then have "sorted_wrt (<) (map cm_Number (take j ?ms))" by (simp add: sorted_wrt_take flip: take_map)
  then show "distinct (map ch_Number cs)" unfolding j by (simp add: strict_sorted_iff)
  have v: "log_view ?z a (w_dir w) r F" using k by (simp add: core_def)
  show "\<exists>m\<in>set ?ms. ch_Number d = cm_Number m \<and> ch_Last d = cm_Last m" if "d \<in> set cs" for d
    using collect_spec [OF cs] that by blast
  show "puts_ok ?z a (w_dir w) r F cs"
    unfolding puts_ok_def
  proof (intro ballI conjI)
    fix d assume d: "d \<in> set cs"
    then obtain m where m: "m \<in> set ?ms" "ch_Number d = cm_Number m" "ch_Last d = cm_Last m"
      "ch_FileBytes d > 0 \<or> (ch_FileBytes d = 0 \<and> map_of (rb_files (w_dir w)) (ch_Number d) = Some (ch_Blob d))"
      using collect_spec [OF cs] by (fastforce split: if_splits)
    have mk: "meta_ok F (row_set a r \<union> file_set (w_dir w)) m" "found ?z a (w_dir w) r F (cm_Number m)"
      "cm_Number m \<in> row_set a r \<union> file_set (w_dir w)"
      using k m(1) by (auto simp: core_def)
    then show "ch_Number d \<in> row_set a r \<union> file_set (w_dir w)" using m(2) by simp
    have "\<exists>b. row_blob a (w_dir w) r d = Some b \<and> holds_frames ?z b (F (ch_Number d))"
    proof (cases "ch_FileBytes d > 0")
      case True
      then show ?thesis using mk(2) m(2) by (simp add: row_blob_def found_def)
    next
      case False
      then have "map_of (rb_files (w_dir w)) (ch_Number d) = Some (ch_Blob d)" using m(4) by simp
      moreover have "ch_Number d \<in> file_set (w_dir w)" using calculation file_None [of "w_dir w" "ch_Number d"] by auto
      ultimately show ?thesis using log_view_file [OF v] False by (metis option.inject row_blob_def)
    qed
    then show "row_ok ?z a (w_dir w) r F d" using mk(1) m by (simp add: row_ok_def meta_ok_def)
  qed
  show "ch_Number d < n" if n: "n \<in> file_set (w_dir w)" "n \<notin> row_set a r" "n \<notin> ch_Number ` set cs" and d: "d \<in> set cs" for n d
  proof (cases "n \<in> cm_Number ` set ?ms")
    case True
    have split: "map cm_Number ?ms = map ch_Number cs @ map cm_Number (drop j ?ms)"
      unfolding j by (simp flip: map_append)
    then have "n \<in> set (map cm_Number (drop j ?ms))" using True n(3) by (metis Un_iff list.set_map set_append)
    then show ?thesis using srt d unfolding split sorted_wrt_append by auto
  next
    case False
    then have "\<forall>m\<in>set ?ms. cm_Number m < n" using k n by (auto simp: core_def)
    moreover obtain m where "m \<in> set ?ms" "ch_Number d = cm_Number m" using collect_spec [OF cs] d by blast
    ultimately show ?thesis by simp
  qed
qed

lemma core_commit:
  assumes k: "core c r acc F w a" and cs: "puts_ok (en_zstd (lc_enc c)) a (w_dir w) r F cs"
    and newer: "\<And>n d. n \<in> file_set (w_dir w) \<Longrightarrow> n \<notin> row_set a r \<Longrightarrow> n \<notin> ch_Number ` set cs \<Longrightarrow> d \<in> set cs \<Longrightarrow> ch_Number d < n"
    and le: "\<And>d. d \<in> set cs \<Longrightarrow> ch_Number d \<le> w_chunk w"
    and a': "a' = a\<lparr>ar_db := PutChunks r job kind at cs (ar_db a)\<rparr>"
  shows "core c r acc F w a' \<and> row_set a' r = row_set a r \<union> ch_Number ` set cs"
proof -
  have v: "log_view (en_zstd (lc_enc c)) a (w_dir w) r F" using k by (simp add: core_def)
  have P: "log_view (en_zstd (lc_enc c)) a' (w_dir w) r F" "row_set a' r = row_set a r \<union> ch_Number ` set cs"
    using view_commit [OF v cs newer a'] by auto
  have S: "row_set a' r \<union> file_set (w_dir w) = row_set a r \<union> file_set (w_dir w)" using cs P(2) by (auto simp: puts_ok_def)
  have fnd: "found (en_zstd (lc_enc c)) a' (w_dir w) r F n = found (en_zstd (lc_enc c)) a (w_dir w) r F n" for n
    by (simp add: found_def openFileChunk_def a')
  have "no_stray (en_zstd (lc_enc c)) a' r F" using k P(2) by (auto simp: core_def no_stray_def a')
  moreover have "\<forall>n\<in>row_set a' r. n \<le> w_chunk w" using k le P(2) by (auto simp: core_def)
  ultimately show ?thesis using k P unfolding core_def S fnd by auto
qed

lemma core_placed:
  assumes k: "core c r acc F w a" and p: "placed (en_zstd (lc_enc c)) r F (w_dir w, a) (rb, a')"
  shows "core c r acc F (w\<lparr>w_dir := rb\<rparr>) a'"
proof -
  have S: "row_set a' r \<union> file_set rb = row_set a r \<union> file_set (w_dir w)" using p by (auto simp: placed_def)
  have "file_set rb \<subseteq> file_set (w_dir w)" "row_set a' r = row_set a r" using p by (auto simp: placed_def)
  then show ?thesis using k p S unfolding core_def placed_def by auto
qed

lemma writing_placed:
  assumes wr: "writing c r F fs w a" and p: "placed z r F (w_dir w, a) (rb, a')"
  shows "writing c r F fs (w\<lparr>w_dir := rb\<rparr>) a'"
proof -
  have S: "row_set a' r \<union> file_set rb = row_set a r \<union> file_set (w_dir w)" using p by (auto simp: placed_def)
  have "w_chunk w \<in> file_set rb" using wr p by (auto simp: writing_def placed_def)
  moreover have "\<forall>d\<in>set (run_rows (ar_db a') r). ch_Last d < w_chunkFirst w"
    using wr p by (fastforce simp: writing_def placed_def)
  ultimately show ?thesis using wr p S unfolding writing_def placed_def by auto
qed

lemma writing_commit:
  assumes wr: "writing c r F fs w a" and d: "distinct (map ch_Number (run_rows (ar_db a) r))"
    and cs: "\<And>d. d \<in> set cs \<Longrightarrow> \<exists>m\<in>set (ix_Chunks (w_idx w)). ch_Number d = cm_Number m \<and> ch_Last d = cm_Last m"
    and a': "a' = a\<lparr>ar_db := PutChunks r job kind at cs (ar_db a)\<rparr>" and R: "row_set a' r = row_set a r \<union> ch_Number ` set cs"
    and S: "ch_Number ` set cs \<subseteq> row_set a r \<union> file_set (w_dir w)"
  shows "writing c r F fs w a'"
proof -
  have "w_chunk w \<notin> row_set a' r" using wr cs unfolding R by (force simp: writing_def)
  moreover have "\<forall>d\<in>set (run_rows (ar_db a') r). ch_Last d < w_chunkFirst w"
  proof
    fix x assume "x \<in> set (run_rows (ar_db a') r)"
    then have "x \<in> set cs \<or> x \<in> set (run_rows (ar_db a) r)" using commit_rows [OF d, of x job kind at cs] by (auto simp: a')
    then show "ch_Last x < w_chunkFirst w" using wr cs [of x] by (auto simp: writing_def)
  qed
  moreover have "row_set a' r \<union> file_set (w_dir w) = row_set a r \<union> file_set (w_dir w)" using S R by auto
  ultimately show ?thesis using wr unfolding writing_def by (auto simp: R)
qed

definition drop_files :: "int list \<Rightarrow> run_buffer \<Rightarrow> run_buffer" where
  "drop_files ns rb = fold drop_file ns rb"

lemma drop_files_simps [simp]:
  "file_set (drop_files ns rb) = file_set rb - set ns" "rb_index (drop_files ns rb) = rb_index rb"
  "map_of (rb_files (drop_files ns rb)) k = (if k \<in> set ns then None else map_of (rb_files rb) k)"
  by (induction ns arbitrary: rb) (auto simp: drop_files_def)

lemma remove_pending_spec:
  "remove_pending works cs w = (j, ok, w') \<Longrightarrow>
     \<exists>b. w' = w\<lparr>w_dir := drop_files (map ch_Number (take j cs)) (w_dir w), w_buffered := b\<rparr>"
proof (induction cs arbitrary: w j)
  case Nil
  then show ?case by (auto simp: drop_files_def intro!: exI [of _ "w_buffered w'"])
next
  case (Cons d cs)
  show ?case
  proof (cases "has_file (ch_Number d) w \<and> \<not> works (ch_Number d)")
    case True
    then show ?thesis using Cons.prems by (auto simp: drop_files_def intro!: exI [of _ "w_buffered w'"])
  next
    case False
    let ?w1 = "(remove_file (ch_Number d) w)\<lparr>w_buffered := w_buffered (remove_file (ch_Number d) w) - ch_RawBytes d\<rparr>"
    obtain i where i: "remove_pending works cs ?w1 = (i, ok, w')" "j = Suc i"
      using Cons.prems False by (auto simp: Let_def split: prod.splits)
    obtain b where b: "w' = ?w1\<lparr>w_dir := drop_files (map ch_Number (take i cs)) (w_dir ?w1), w_buffered := b\<rparr>"
      using Cons.IH [OF i(1)] by blast
    have "w' = w\<lparr>w_dir := drop_files (map ch_Number (take j (d # cs))) (w_dir w), w_buffered := b\<rparr>"
      unfolding b i(2) by (simp add: drop_files_def remove_file_def drop_file_def)
    then show ?thesis by blast
  qed
qed

lemma view_drop_files:
  "log_view z a rb r F \<Longrightarrow> \<forall>n\<in>set ns. n \<in> row_set a r \<and> self_contained a r n \<Longrightarrow> log_view z a (drop_files ns rb) r F"
proof (induction ns arbitrary: rb)
  case (Cons n ns)
  have "log_view z a (drop_file n rb) r F"
    using view_drop [OF Cons.prems(1), of n] Cons.prems(2) by (auto simp: self_contained_def)
  then show ?case using Cons.IH [of "drop_file n rb"] Cons.prems(2) by (simp add: drop_files_def)
qed (simp add: drop_files_def)

text \<open>Archived files leave the buffer together with their index entries.\<close>

lemma core_removed:
  assumes k: "core c r acc F w a" and j: "ns = map cm_Number (take j (ix_Chunks (w_idx w)))"
    and arch: "\<forall>n\<in>set ns. n \<in> row_set a r \<and> self_contained a r n"
  shows "core c r acc F (w\<lparr>w_dir := drop_files ns (w_dir w), w_buffered := b,
    w_idx := (w_idx w)\<lparr>ix_Chunks := drop j (ix_Chunks (w_idx w))\<rparr>\<rparr>) a"
proof -
  let ?ms = "ix_Chunks (w_idx w)" and ?z = "en_zstd (lc_enc c)"
  have v: "log_view ?z a (drop_files ns (w_dir w)) r F" using view_drop_files [OF _ arch] k by (simp add: core_def)
  have S: "row_set a r \<union> (file_set (w_dir w) - set ns) = row_set a r \<union> file_set (w_dir w)" using arch by auto
  have srt: "sorted_wrt (<) (map cm_Number ?ms)" using k by (simp add: core_def)
  have split: "map cm_Number ?ms = ns @ map cm_Number (drop j ?ms)" unfolding j by (simp flip: map_append)
  have rest: "cm_Number m \<notin> set ns" if "m \<in> set (drop j ?ms)" for m
    using srt that unfolding split sorted_wrt_append by fastforce
  have sub: "set (drop j ?ms) \<subseteq> set ?ms" by (rule set_drop_subset)
  have fnd: "found ?z a (drop_files ns (w_dir w)) r F n" if "found ?z a (w_dir w) r F n" "n \<notin> set ns" for n
    using that by (auto simp: found_def openFileChunk_def split: option.splits)
  have cover: "n \<in> cm_Number ` set (drop j ?ms) \<or> (\<forall>m\<in>set (drop j ?ms). cm_Number m < n)"
    if "n \<in> file_set (w_dir w) - set ns" "n \<notin> row_set a r" for n
  proof (cases "n \<in> cm_Number ` set ?ms")
    case True
    then have "n \<in> set (ns @ map cm_Number (drop j ?ms))" unfolding split [symmetric] by simp
    then show ?thesis using that by auto
  next
    case False
    then have "\<forall>m\<in>set ?ms. cm_Number m < n" using core_cover [OF k] that by blast
    then show ?thesis using sub by blast
  qed
  have metas: "\<forall>m\<in>set (drop j ?ms). meta_ok F (row_set a r \<union> file_set (w_dir w)) m \<and> cm_Number m \<le> w_chunk w \<and>
      cm_Number m \<in> row_set a r \<union> file_set (w_dir w) \<and> found ?z a (drop_files ns (w_dir w)) r F (cm_Number m)"
    using k sub rest fnd by (auto simp: core_def)
  have "sorted_wrt (<) (map cm_Number (drop j ?ms))" using srt by (simp add: sorted_wrt_drop flip: drop_map)
  then show ?thesis
    using k v metas cover unfolding core_def by (simp add: S)
qed

lemma writing_removed:
  assumes wr: "writing c r F fs w a" and ns: "set ns \<subseteq> row_set a r" and sub: "set ms \<subseteq> set (ix_Chunks (w_idx w))"
    and cover: "\<And>m. m \<in> set (ix_Chunks (w_idx w)) \<Longrightarrow> m \<notin> set ms \<Longrightarrow> cm_Number m \<in> row_set a r"
  shows "writing c r F fs (w\<lparr>w_dir := drop_files ns (w_dir w), w_buffered := b, w_idx := (w_idx w)\<lparr>ix_Chunks := ms\<rparr>\<rparr>) a"
    (is "writing c r F fs ?w a")
proof -
  have S: "row_set a r \<union> (file_set (w_dir w) - set ns) = row_set a r \<union> file_set (w_dir w)" using ns by auto
  have f: "w_file ?w = w_file w" "w_enc ?w = w_enc w" "w_chunk ?w = w_chunk w" "w_broken ?w = w_broken w" "w_chunkErr ?w = w_chunkErr w"
    "w_chunkFirst ?w = w_chunkFirst w" "w_seq ?w = w_seq w" "w_chunkRaw ?w = w_chunkRaw w" "ix_Chunks (w_idx ?w) = ms"
    "file_set (w_dir ?w) = file_set (w_dir w) - set ns" "rb_index (w_dir ?w) = rb_index (w_dir w)"
    by simp_all
  have c: "\<forall>n\<in>file_set (w_dir w) - set ns - row_set a r. n \<in> cm_Number ` set ms \<or> w_chunk w \<le> n"
  proof
    fix n assume n: "n \<in> file_set (w_dir w) - set ns - row_set a r"
    then consider m where "m \<in> set (ix_Chunks (w_idx w))" "n = cm_Number m" | "w_chunk w \<le> n"
      using writing_cover [OF wr, of n] by blast
    then show "n \<in> cm_Number ` set ms \<or> w_chunk w \<le> n"
    proof cases
      case 1
      then have "m \<in> set ms" using cover [of m] n by blast
      then show ?thesis using 1 by blast
    qed blast
  qed
  have m: "\<forall>m\<in>set ms. cm_Number m < w_chunk w \<and> cm_Last m < w_chunkFirst w"
    using wr sub unfolding writing_def by blast
  have n: "w_chunk w \<in> file_set (w_dir w) - set ns" using wr ns unfolding writing_def by blast
  note W = wr [unfolded writing_def]
  show ?thesis
    unfolding writing_def f S using W by (intro conjI m n c) (elim conjE, assumption)+
qed

lemma writing_index:
  assumes wr: "writing c r F fs w a" and i: "writeIndexSync sync e w = (ok, w')"
  shows "writing c r F fs w' a"
proof -
  note f = writeIndex_fields [OF i]
  have B: "file_set (w_dir w') = file_set (w_dir w)" using f(14) by (simp add: file_set_def)
  have "cm_Number m < w_chunk w \<and> cm_Last m < w_chunkFirst w" if "rb_index (w_dir w') = Some j" "m \<in> set (ix_Chunks j)" for j m
  proof (cases "rb_index (w_dir w') = rb_index (w_dir w)")
    case True
    then have "rb_index (w_dir w) = Some j" using that by simp
    then show ?thesis using wr that(2) unfolding writing_def by blast
  next
    case False
    then show ?thesis using f(15) that wr by (auto simp: writing_def)
  qed
  then show ?thesis using wr unfolding writing_def f B by blast
qed

end
