(* ===== verification/Log_Complete.thy ===== *)
theory Log_Complete
  imports Log_Intact
begin

text \<open>
  No output is lost silently. As long as a run's log is not marked truncated and no line was refused with an
  error, what a reader sees is every line the writer was given, in order, wherever the chunks are: in the
  file being written, in sealed files, in the archive database or in its directory, or in two of these at
  once after a failure.
\<close>

section \<open>Operations as a sequence\<close>

datatype log_op =
    Line byte "byte list" byte capture_env
  | SystemLine byte "byte list" byte capture_env
  | SyncNow sync_result
  | SealNow rotate_env
  | ArchiveNow archive_env int
  | CloseNow time recover_env finish_env

text \<open>One operation; whether a line was taken.\<close>

fun log_step :: "log_cfg \<Rightarrow> string \<Rightarrow> log_op \<Rightarrow> writer \<times> archive \<Rightarrow> bool \<times> writer \<times> archive" where
  "log_step c r (Line stream payload flags e) (w, a) =
     (case capture c e stream payload flags w of (x, w') \<Rightarrow> (x = None, w', a))"
| "log_step c r (SystemLine stream payload flags e) (w, a) =
     (case writer_Write c e stream payload flags w of (x, w') \<Rightarrow> (x = None, w', a))"
| "log_step c r (SyncNow e) (w, a) = (True, snd (writer_Sync e w), a)"
| "log_step c r (SealNow e) (w, a) = (True, snd (sealForArchive c e w), a)"
| "log_step c r (ArchiveNow e through) (w, a) = (True, snd (archiveBatchLocked e r through (w, a)))"
| "log_step c r (CloseNow now e f) (w, a) = (True, snd (writer_Close c now e f w), a)"

fun log_run :: "log_cfg \<Rightarrow> string \<Rightarrow> log_op list \<Rightarrow> writer \<times> archive \<Rightarrow> bool \<times> writer \<times> archive" where
  "log_run c r [] s = (True, s)"
| "log_run c r (p # ps) s =
     (case log_step c r p s of (ok, s') \<Rightarrow> (case log_run c r ps s' of (ok', s'') \<Rightarrow> (ok \<and> ok', s'')))"

text \<open>The lines that were given, as numbered frames.\<close>

fun given :: "nat \<Rightarrow> log_op list \<Rightarrow> frame list" where
  "given n [] = []"
| "given n (Line stream payload flags e # ps) =
     \<lparr>fr_Sequence = of_nat (Suc n), fr_Timestamp = we_now (ca_write e), fr_Stream = stream, fr_Flags = flags,
      fr_Payload = payload\<rparr> # given (Suc n) ps"
| "given n (SystemLine stream payload flags e # ps) =
     \<lparr>fr_Sequence = of_nat (Suc n), fr_Timestamp = we_now (ca_write e), fr_Stream = stream, fr_Flags = flags,
      fr_Payload = payload\<rparr> # given (Suc n) ps"
| "given n (_ # ps) = given n ps"

section \<open>A checkpoint\<close>

text \<open>What a step of a checkpoint keeps.\<close>

definition kept :: "log_cfg \<Rightarrow> string \<Rightarrow> frame list \<Rightarrow> (int \<Rightarrow> frame list) \<Rightarrow> writer \<times> archive \<Rightarrow> writer \<times> archive \<Rightarrow> bool" where
  "kept c r acc F s s' \<longleftrightarrow> (case (s, s') of ((w, a), (w', a')) \<Rightarrow>
     core c r acc F w' a' \<and> (\<forall>fs. writing c r F fs w a \<longrightarrow> writing c r F fs w' a') \<and>
     file_set (w_dir w') \<subseteq> file_set (w_dir w) \<and> w_chunk w' = w_chunk w \<and> w_file w' = w_file w \<and>
     w_chunkErr w' = w_chunkErr w \<and> w_closed w' = w_closed w \<and> w_truncated w' = w_truncated w)"

lemma kept_refl: "core c r acc F w a \<Longrightarrow> kept c r acc F (w, a) (w, a)"
  by (simp add: kept_def)

lemma kept_trans: "kept c r acc F s s' \<Longrightarrow> kept c r acc F s' s'' \<Longrightarrow> kept c r acc F s s''"
  by (auto simp: kept_def)

lemma kept_core: "kept c r acc F s (w, a) \<Longrightarrow> core c r acc F w a"
  by (auto simp: kept_def)

lemma remove_pending_le: "remove_pending works cs w = (n, ok, w') \<Longrightarrow> n \<le> length cs"
  by (induction cs arbitrary: w n) (auto simp: Let_def split: if_splits prod.splits)

lemma kept_commit:
  assumes k: "core c r acc F w a"
    and cs: "collect (\<lambda>n. if ok n then map_of (rb_files (w_dir w)) n else None) through 0 0 (ix_Chunks (w_idx w)) = Some cs"
    and a': "a' = a\<lparr>ar_db := PutChunks r job kind at cs (ar_db a)\<rparr>"
  shows "kept c r acc F (w, a) (w, a')" "set cs \<subseteq> set (run_rows (ar_db a') r)"
proof -
  note b = batch_ok [OF k cs]
  have d: "distinct (map ch_Number (run_rows (ar_db a) r))" using k log_viewD(1) unfolding core_def by blast
  have le: "ch_Number d \<le> w_chunk w" if "d \<in> set cs" for d
    using b(4) [OF that] k by (auto simp: core_def)
  have C: "core c r acc F w a' \<and> row_set a' r = row_set a r \<union> ch_Number ` set cs"
    by (rule core_commit [OF k b(1) b(3) le a'])
  have "ch_Number ` set cs \<subseteq> row_set a r \<union> file_set (w_dir w)" using b(1) by (auto simp: puts_ok_def)
  then have "writing c r F fs w a'" if "writing c r F fs w a" for fs
    using writing_commit [OF that d b(4) a'] C by blast
  then show "kept c r acc F (w, a) (w, a')" using C by (simp add: kept_def)
  show "set cs \<subseteq> set (run_rows (ar_db a') r)" using commit_rows_all [OF d b(2)] by (simp add: a')
qed

lemma kept_placed:
  assumes k: "core c r acc F w a" and p: "placed (en_zstd (lc_enc c)) r F (w_dir w, a) (rb, a')"
  shows "kept c r acc F (w, a) (w\<lparr>w_dir := rb\<rparr>, a')"
  using core_placed [OF k p] writing_placed [OF _ p] p by (auto simp: kept_def placed_def)

lemma kept_removed:
  assumes k: "core c r acc F w a" and j: "ns = map cm_Number (take j (ix_Chunks (w_idx w)))"
    and arch: "\<forall>n\<in>set ns. n \<in> row_set a r \<and> self_contained a r n"
  shows "kept c r acc F (w, a) (w\<lparr>w_dir := drop_files ns (w_dir w), w_buffered := b,
    w_idx := (w_idx w)\<lparr>ix_Chunks := drop j (ix_Chunks (w_idx w))\<rparr>\<rparr>, a)"
proof -
  let ?ms = "ix_Chunks (w_idx w)"
  have "cm_Number m \<in> row_set a r" if "m \<in> set ?ms" "m \<notin> set (drop j ?ms)" for m
  proof -
    have "m \<in> set (take j ?ms)" using that by (metis Un_iff append_take_drop_id set_append)
    then show ?thesis using arch j by simp
  qed
  then have "writing c r F fs (w\<lparr>w_dir := drop_files ns (w_dir w), w_buffered := b,
      w_idx := (w_idx w)\<lparr>ix_Chunks := drop j ?ms\<rparr>\<rparr>) a" if "writing c r F fs w a" for fs
    using writing_removed [OF that, of ns "drop j ?ms" b] arch set_drop_subset [of j ?ms] by blast
  then show ?thesis using core_removed [OF k j arch, of b] by (auto simp: kept_def)
qed

lemma kept_index:
  assumes "core c r acc F w a" "writeIndexSync sync e w = (ok, w')"
  shows "kept c r acc F (w, a) (w', a)"
  using core_index [OF assms] writing_index [OF _ assms(2)] writeIndex_fields [OF assms(2)]
  by (simp add: kept_def file_set_def)

lemma archive_cases:
  assumes ar: "archiveBatchLocked e r through (w, a) = (res, w', a')"
  obtains (same) "w' = w" "a' = a"
    | (steps) cs a1 err rb a2 where
      "collect (\<lambda>n. if ae_read e n then map_of (rb_files (w_dir w)) n else None) through 0 0 (ix_Chunks (w_idx w)) = Some cs"
      "a1 = a\<lparr>ar_db := PutChunks r (w_job w) (w_kind w) (ae_now e) cs (ar_db a)\<rparr>"
      "placeFiles (ae_place e) r (w_job w) (w_kind w) (ae_now e) cs (w_dir w, a1) = (err, rb, a2)"
      "w' = w \<and> a' = a1 \<or> w' = w\<lparr>w_dir := rb\<rparr> \<and> a' = a2 \<or>
       (\<exists>n ok w1 ix. err = None \<and> remove_pending (ae_remove e) cs (w\<lparr>w_dir := rb\<rparr>) = (n, ok, w1) \<and>
          writeIndexSync True (ae_index e) (w1\<lparr>w_idx := (w_idx w1)\<lparr>ix_Chunks := drop n (ix_Chunks (w_idx w1))\<rparr>\<rparr>) = (ix, w') \<and> a' = a2)"
proof (cases "w' = w \<and> a' = a")
  case False
  let ?rd = "\<lambda>n. if ae_read e n then map_of (rb_files (w_dir w)) n else None"
  obtain cs where cs: "collect ?rd through 0 0 (ix_Chunks (w_idx w)) = Some cs"
    using ar False by (cases "collect ?rd through 0 0 (ix_Chunks (w_idx w))") (auto simp: archiveBatchLocked_def split: if_splits)
  define a1 where "a1 = a\<lparr>ar_db := PutChunks r (w_job w) (w_kind w) (ae_now e) cs (ar_db a)\<rparr>"
  have c1: "commit (ae_put e) (PutChunks r (w_job w) (w_kind w) (ae_now e) cs) a = (if ae_put e = NotCommitted then a else a1)"
    by (simp add: commit_def a1_def)
  obtain err rb a2 where pl: "placeFiles (ae_place e) r (w_job w) (w_kind w) (ae_now e) cs (w_dir w, a1) = (err, rb, a2)"
    by (metis prod_cases3)
  obtain n ok w1 where rem: "remove_pending (ae_remove e) cs (w\<lparr>w_dir := rb\<rparr>) = (n, ok, w1)" by (metis prod_cases3)
  obtain ix w3 where i: "writeIndexSync True (ae_index e) (w1\<lparr>w_idx := (w_idx w1)\<lparr>ix_Chunks := drop n (ix_Chunks (w_idx w1))\<rparr>\<rparr>) = (ix, w3)"
    by fastforce
  have "w' = w \<and> a' = a1 \<or> w' = w\<lparr>w_dir := rb\<rparr> \<and> a' = a2 \<or> err = None \<and> w' = w3 \<and> a' = a2"
    using ar False cs c1 pl rem i unfolding archiveBatchLocked_def
    by (auto simp: Let_def split: if_splits option.splits)
  then show thesis using steps [OF cs a1_def pl] rem i by blast
qed (use same in simp)

lemma archive_kept:
  assumes k: "core c r acc F w a" and ar: "archiveBatchLocked e r through (w, a) = (res, w', a')"
  shows "kept c r acc F (w, a) (w', a')"
  using ar
proof (cases rule: archive_cases)
  case same
  then show ?thesis using kept_refl [OF k] by simp
next
  case (steps cs a1 err rb a2)
  have K1: "kept c r acc F (w, a) (w, a1)" and rows: "set cs \<subseteq> set (run_rows (ar_db a1) r)"
    using kept_commit [OF k steps(1,2)] by auto
  have v1: "log_view (en_zstd (lc_enc c)) a1 (w_dir w) r F" using kept_core [OF K1] by (simp add: core_def)
  note P = placeFiles_placed [OF v1 rows steps(3)]
  have K2: "kept c r acc F (w, a) (w\<lparr>w_dir := rb\<rparr>, a2)"
    using kept_trans [OF K1 kept_placed [OF kept_core [OF K1]]] P by blast
  show ?thesis
  proof (cases "w' = w \<and> a' = a1 \<or> w' = w\<lparr>w_dir := rb\<rparr> \<and> a' = a2")
    case True
    then show ?thesis using K1 K2 by blast
  next
    case False
    then obtain n ok w1 ix where err: "err = None" "a' = a2" and rem: "remove_pending (ae_remove e) cs (w\<lparr>w_dir := rb\<rparr>) = (n, ok, w1)"
      and i: "writeIndexSync True (ae_index e) (w1\<lparr>w_idx := (w_idx w1)\<lparr>ix_Chunks := drop n (ix_Chunks (w_idx w1))\<rparr>\<rparr>) = (ix, w')"
      using steps(4) by blast
    obtain b where b: "w1 = w\<lparr>w_dir := drop_files (map ch_Number (take n cs)) rb, w_buffered := b\<rparr>"
      using remove_pending_spec [OF rem] by auto
    obtain j where j: "map ch_Number cs = map cm_Number (take j (ix_Chunks (w_idx w)))" using batch_ok(5) [OF k steps(1)] by blast
    have "n \<le> j" "n \<le> length cs" using remove_pending_le [OF rem] arg_cong [OF j, of length] by simp_all
    then have ns: "map ch_Number (take n cs) = map cm_Number (take n (ix_Chunks (w_idx (w\<lparr>w_dir := rb\<rparr>))))"
      using arg_cong [OF j, of "take n"] by (simp add: take_map min_def)
    have R: "row_set a2 r = row_set a1 r" using P by (simp add: placed_def)
    have "\<forall>k\<in>set (map ch_Number (take n cs)). k \<in> row_set a2 r \<and> self_contained a2 r k"
      using P err rows unfolding R by (auto simp: row_set_def dest: in_set_takeD)
    from kept_removed [OF kept_core [OF K2] ns this, of b]
    have "kept c r acc F (w\<lparr>w_dir := rb\<rparr>, a2) (w1\<lparr>w_idx := (w_idx w1)\<lparr>ix_Chunks := drop n (ix_Chunks (w_idx w1))\<rparr>\<rparr>, a2)"
      unfolding b by simp
    note K3 = kept_trans [OF K2 this]
    then show ?thesis using kept_trans [OF K3 kept_index [OF kept_core [OF K3] i]] err by simp
  qed
qed

lemma archive_intact:
  assumes i: "intact c r acc (w, a)" and ar: "archiveBatchLocked e r through (w, a) = (res, w', a')"
  shows "intact c r acc (w', a') \<and> w_truncated w' = w_truncated w"
proof -
  have K: "kept c r acc F (w, a) (w', a')" if "core c r acc F w a" for F using archive_kept [OF that ar] .
  then have t: "w_truncated w' = w_truncated w" using i by (auto simp: intact_def kept_def)
  show ?thesis
  proof (cases "\<exists>F. core c r acc F w a \<and> \<not> w_file w \<and> (w_chunkErr w \<noteq> None \<or> w_closed w)")
    case True
    then obtain F where "core c r acc F w a" "\<not> w_file w" "w_chunkErr w \<noteq> None \<or> w_closed w" by blast
    then have "core c r acc F w' a' \<and> \<not> w_file w' \<and> (w_chunkErr w' \<noteq> None \<or> w_closed w')" using K [of F] by (simp add: kept_def)
    then show ?thesis using t unfolding intact_def by blast
  next
    case False
    then obtain F fs where F: "core c r acc F w a" "writing c r F fs w a" "\<forall>n\<in>file_set (w_dir w). n \<le> w_chunk w"
      using i unfolding intact_def by blast
    then have "core c r acc F w' a'" "writing c r F fs w' a'" "\<forall>n\<in>file_set (w_dir w'). n \<le> w_chunk w'"
      using K [OF F(1)] unfolding kept_def by auto
    then show ?thesis using t unfolding intact_def by blast
  qed
qed

section \<open>A line\<close>

text \<open>A frame stored without marking the log truncated extends what was stored.\<close>

lemma make_room_kept:
  assumes "make_room c e n w = (Inr b, w')" "\<not> w_truncated w'"
  shows "b \<and> w' = w"
proof (cases "w_maxBytes w > 0 \<and> w_buffered w + n > w_maxBytes w")
  case True
  have "evict (we_stuck e) n ms (w1\<lparr>w_truncated := True\<rparr>) = (x, w2) \<Longrightarrow> w_truncated w2" for ms w1 x w2
    using evict_truncated(1) [of "w1\<lparr>w_truncated := True\<rparr>" "we_stuck e" n ms] by simp
  then have False using True assms by (auto simp: make_room_def split: if_splits option.splits prod.splits)
  then show ?thesis ..
next
  case False
  then show ?thesis using assms unfolding make_room_def by (auto split: if_splits)
qed

lemma store_intact:
  assumes en: "encoder_ok (lc_enc c)" and i: "intact c r acc (w, a)" and opn: "\<not> w_closed w" "w_chunkErr w = None"
    and f: "f = \<lparr>fr_Sequence = of_nat (Suc (length acc)), fr_Timestamp = we_now e, fr_Stream = stream, fr_Flags = flags,
      fr_Payload = payload\<rparr>"
    and wf: "wf_frame f" and room: "length acc + 1 < 2 ^ 64"
    and st: "store_frame c e stream payload flags w = (Inr b, w')" and nt: "\<not> w_truncated w'"
  shows "intact c r (acc @ [stored f]) (w', a)"
proof -
  obtain F fs where F: "core c r acc F w a" "writing c r F fs w a" "\<forall>n\<in>file_set (w_dir w). n \<le> w_chunk w"
    using i opn unfolding intact_def by auto
  obtain x w2 where m: "make_room c e (24 + int (length payload)) w = (x, w2)" by fastforce
  obtain y w3 where q: "(if w_chunkRaw w2 + (24 + int (length payload)) > chunkLimit \<and> w_chunkRaw w2 > 0
      then rotate c (we_rotate e) w2 else (None, w2)) = (y, w3)" by fastforce
  have t3: "w_truncated w3 = w_truncated w2" using q rotate_truncated [of c "we_rotate e" w2] by (simp split: if_splits)
  note res = st [unfolded store_frame_def Let_def m prod.case q]
  have "\<not> w_truncated w2" "\<exists>b. x = Inr b"
    using res nt t3 append_truncated [of c e stream payload flags w3]
    by (auto split: sum.splits bool.splits option.splits)
  then have x: "x = Inr True" "w2 = w" using make_room_kept [of c e _ w _ w2] m by blast+
  then have y: "y = None" and ap: "append_frame c e stream payload flags w3 = (Inr b, w')"
    using res by (auto split: option.splits)
  obtain F' fs' where F': "core c r acc F' w3 a" "writing c r F' fs' w3 a" "\<forall>n\<in>file_set (w_dir w3). n \<le> w_chunk w3"
  proof (cases "w_chunkRaw w + (24 + int (length payload)) > chunkLimit \<and> w_chunkRaw w > 0")
    case True
    then have rot: "rotate c (we_rotate e) w = (None, w3)" using q x y by simp
    have "fs \<noteq> []" using True F(2) by (auto simp: writing_def sizes_def)
    then show ?thesis using rotate_intact [OF en F _ room rot] that by blast
  next
    case False
    then show ?thesis using q x F that by auto
  qed
  have "of_nat (unat (w_seq w3)) = w_seq w3" by simp
  moreover have "unat (w_seq w3) = length acc" using F'(1) unfolding core_def by blast
  ultimately have "w_seq w3 = of_nat (length acc)" by simp
  then have "w_seq w3 + 1 = of_nat (Suc (length acc))" by simp
  moreover have "we_write e = None" using ap by (auto simp: append_frame_def Let_def split: if_splits option.splits)
  ultimately have "\<exists>F' fs'. core c r (acc @ [stored f]) F' w' a \<and> writing c r F' fs' w' a \<and> (\<forall>n\<in>file_set (w_dir w'). n \<le> w_chunk w')"
    using append_intact [OF en F' _ wf room _ ap] f by simp
  then show ?thesis unfolding intact_def by blast
qed

lemma writeLocked_intact:
  assumes en: "encoder_ok (lc_enc c)" and i: "intact c r acc (w, a)"
    and f: "f = \<lparr>fr_Sequence = of_nat (Suc (length acc)), fr_Timestamp = we_now e, fr_Stream = stream, fr_Flags = flags,
      fr_Payload = payload\<rparr>"
    and wf: "wf_frame f" and room: "length acc + 1 < 2 ^ 64"
    and wl: "writeLocked c e stream payload flags w = (Inr b, w')" and nt: "\<not> w_truncated w'"
  shows "intact c r (acc @ [stored f]) (w', a)"
  using wl
proof (cases rule: writeLocked_cases)
  case whole
  have "w_chunkErr w = None" using wl by (auto simp: writeLocked_def split: if_splits option.splits)
  then show ?thesis using store_intact [OF en i whole(1) _ f wf room whole(2) nt] by simp
next
  case (cut payload' flags')
  then show ?thesis using store_truncated [of c e stream payload' flags' "w\<lparr>w_truncated := True\<rparr>"] nt by simp
qed simp

section \<open>The other operations\<close>

lemma core_fields:
  assumes "core c r acc F w a" "w_dir w' = w_dir w" "w_seq w' = w_seq w" "w_chunk w' = w_chunk w"
    "w_degraded w' = w_degraded w" "ix_Chunks (w_idx w') = ix_Chunks (w_idx w)" "w_file w' = w_file w" "w_enc w' = w_enc w"
    "w_broken w' = w_broken w" "w_chunkErr w' = w_chunkErr w" "w_chunkFirst w' = w_chunkFirst w" "w_chunkRaw w' = w_chunkRaw w"
  shows "core c r acc F w' a \<and> (writing c r F fs w a \<longrightarrow> writing c r F fs w' a)"
proof -
  have "writing c r F fs w' a = writing c r F fs w a" unfolding writing_def assms(2-) ..
  then show ?thesis using core_cong [OF assms(1-6)] by blast
qed

lemma sync_intact:
  assumes i: "intact c r acc (w, a)"
  shows "intact c r acc (snd (writer_Sync e w), a)"
proof -
  let ?w = "snd (writer_Sync e w)"
  have f: "w_dir ?w = w_dir w" "w_seq ?w = w_seq w" "w_chunk ?w = w_chunk w" "w_degraded ?w = w_degraded w"
    "ix_Chunks (w_idx ?w) = ix_Chunks (w_idx w)" "w_file ?w = w_file w" "w_enc ?w = w_enc w" "w_broken ?w = w_broken w"
    "w_chunkErr ?w = w_chunkErr w" "w_chunkFirst ?w = w_chunkFirst w" "w_chunkRaw ?w = w_chunkRaw w"
    and cl: "w_closed ?w = w_closed w"
    by (simp_all add: writer_Sync_def Let_def split: sync_result.split)
  have "core c r acc F ?w a \<and> (writing c r F fs w a \<longrightarrow> writing c r F fs ?w a)" if "core c r acc F w a" for F fs
    by (rule core_fields [OF that f])
  then show ?thesis using i unfolding intact_def prod.case f(1,3,6,9) cl by blast
qed

lemma not_degraded: "intact c r acc (w, a) \<Longrightarrow> \<not> w_degraded w"
  by (auto simp: intact_def core_def)

lemma seal_intact:
  assumes en: "encoder_ok (lc_enc c)" and i: "intact c r acc (w, a)" and room: "length acc + 1 < 2 ^ 64"
  shows "intact c r acc (snd (sealForArchive c e w), a)"
proof (cases "w_closed w \<or> w_chunkRaw w \<le> 0 \<or> w_chunkErr w \<noteq> None")
  case True
  then have "snd (sealForArchive c e w) = w" by (auto simp: sealForArchive_def rotate_def)
  then show ?thesis using i by simp
next
  case False
  then obtain F fs where F: "core c r acc F w a" "writing c r F fs w a" "\<forall>n\<in>file_set (w_dir w). n \<le> w_chunk w"
    using i unfolding intact_def by auto
  obtain x w' where rot: "rotate c e w = (x, w')" by fastforce
  have "fs \<noteq> []" using False F(2) by (auto simp: writing_def sizes_def)
  note R = rotate_intact [OF en F this room rot]
  have "intact c r acc (w', a)"
  proof (cases x)
    case None
    then show ?thesis using R unfolding intact_def by blast
  next
    case (Some y)
    then show ?thesis using R i unfolding intact_def by blast
  qed
  moreover have "snd (sealForArchive c e w) = w'" using False rot by (simp add: sealForArchive_def split: option.split)
  ultimately show ?thesis by simp
qed

lemma seal_truncated: "w_truncated (snd (sealForArchive c e w)) = w_truncated w"
  using rotate_truncated [of c e w] by (auto simp: sealForArchive_def split: prod.split option.split)

lemma close_intact:
  assumes en: "encoder_ok (lc_enc c)" and i: "intact c r acc (w, a)"
  shows "intact c r acc (snd (writer_Close c now e f w), a)"
proof (cases "w_closed w")
  case True
  then show ?thesis using i by (simp add: writer_Close_def)
next
  case False
  let ?w1 = "w\<lparr>w_closed := True, w_idx := (w_idx w)\<lparr>ix_Final := True\<rparr>\<rparr>"
  obtain x w2 where fin: "finishChunk c f ?w1 = (x, w2)" by fastforce
  have res: "snd (writer_Close c now e f w) = w2\<lparr>w_closeErr := x\<rparr>"
    using False not_degraded [OF i] fin by (simp add: writer_Close_def Let_def)
  have k1: "core c r acc F ?w1 a \<and> (writing c r F fs w a \<longrightarrow> writing c r F fs ?w1 a)" if "core c r acc F w a" for F fs
    by (rule core_fields [OF that]) simp_all
  show ?thesis
  proof (cases "w_file w")
    case True
    then obtain F fs where F: "core c r acc F w a" "writing c r F fs w a" using i unfolding intact_def by blast
    have "core c r acc F w2 a" "sealed_from ?w1 x w2" using finish_core [OF en _ _ fin, of r acc F a fs] k1 [OF F(1)] F(2) by blast+
    moreover have "core c r acc F (w2\<lparr>w_closeErr := x\<rparr>) a" by (rule core_cong [OF calculation(1)]) simp_all
    moreover have "\<not> w_file (w2\<lparr>w_closeErr := x\<rparr>) \<and> w_closed (w2\<lparr>w_closeErr := x\<rparr>)"
      using calculation(2) by (simp add: sealed_from_def)
    ultimately show ?thesis unfolding res intact_def by blast
  next
    case shut: False
    then obtain F where F: "core c r acc F w a" "w_chunkErr w \<noteq> None" using i False unfolding intact_def by (auto simp: writing_def)
    then have "w2 = ?w1" using fin shut by (auto simp: finishChunk_def)
    moreover have "core c r acc F (?w1\<lparr>w_closeErr := x\<rparr>) a" by (rule core_cong [OF F(1)]) simp_all
    ultimately show ?thesis using shut F(2) unfolding res intact_def by auto
  qed
qed

section \<open>Sequences of operations\<close>

lemma archive_truncated:
  assumes "archiveBatchLocked e r through (w, a) = (res, w', a')"
  shows "w_truncated w' = w_truncated w"
  using assms
proof (cases rule: archive_cases)
  case (steps cs a1 err rb a2)
  have "w_truncated w1 = w_truncated w" if "remove_pending (ae_remove e) cs (w\<lparr>w_dir := rb\<rparr>) = (n, ok, w1)" for n ok w1
    using remove_pending_spec [OF that] by auto
  then show ?thesis using steps(4) by (auto dest: writeIndex_fields(9))
qed simp

lemma capture_cases:
  assumes cp: "capture c e stream payload flags w = (None, w')" and w: "\<not> w_degraded w"
  shows "w_truncated w' \<or> (\<exists>b w1. writeLocked c (ca_write e) stream payload flags w = (Inr b, w1) \<and>
    w' = (if b then snd (writer_Sync (ca_sync e) w1) else w1))"
  using cp w
  by (auto simp: capture_def captureLocked_def discard_truncated sync_truncated split: if_splits sum.splits prod.splits)

lemma step_truncated:
  assumes "w_truncated w" "log_step c r p (w, a) = (ok, w', a')"
  shows "w_truncated w'"
proof (cases p)
  case (Line stream payload flags e)
  then show ?thesis using assms capture_closed [of c e stream payload flags w] by (auto split: prod.splits)
next
  case (SystemLine stream payload flags e)
  have "w_truncated w1" if "writeLocked c (ca_write e) stream payload flags w = (x, w1)" for x w1
    using writeLocked_truncated [of c "ca_write e" stream payload flags w] that assms(1) by simp
  moreover have "w_truncated w2" if "writer_Sync (ca_sync e) w1 = (x, w2)" "w_truncated w1" for w1 x w2
    using sync_truncated [of "ca_sync e" w1] that by simp
  ultimately show ?thesis using assms(2) SystemLine by (auto simp: writer_Write_def split: prod.splits sum.splits if_splits)
next
  case (ArchiveNow e through)
  obtain res w1 a1 where "archiveBatchLocked e r through (w, a) = (res, w1, a1)" by (metis prod_cases3)
  then show ?thesis using assms ArchiveNow archive_truncated by auto
qed (use assms in \<open>auto simp: seal_truncated close_truncated intro: disjE [OF sync_truncated(1)]\<close>)

lemma step_intact:
  assumes en: "encoder_ok (lc_enc c)" and i: "intact c r acc (w, a)" and st: "log_step c r p (w, a) = (True, w', a')"
    and nt: "\<not> w_truncated w'" and wf: "list_all wf_frame (given (length acc) [p])" and room: "length acc + 1 < 2 ^ 64"
  shows "intact c r (acc @ map stored (given (length acc) [p])) (w', a')"
proof (cases p)
  case (Line stream payload flags e)
  have cp: "capture c e stream payload flags w = (None, w')" "a' = a" using st Line by (auto split: prod.splits)
  obtain b w1 where wl: "writeLocked c (ca_write e) stream payload flags w = (Inr b, w1)"
    and w': "w' = (if b then snd (writer_Sync (ca_sync e) w1) else w1)"
    using capture_cases [OF cp(1)] not_degraded [OF i] nt by blast
  have "\<not> w_truncated w1" using nt w' sync_truncated [of "ca_sync e" w1] by (auto split: if_splits)
  then have "intact c r (acc @ map stored (given (length acc) [p])) (w1, a)"
    using writeLocked_intact [OF en i refl _ room wl] wf Line by simp
  then show ?thesis using sync_intact [of c r _ w1 a "ca_sync e"] w' cp(2) by simp
next
  case (SystemLine stream payload flags e)
  obtain b w1 where wl: "writeLocked c (ca_write e) stream payload flags w = (Inr b, w1)"
    and w': "w' = (if b then snd (writer_Sync (ca_sync e) w1) else w1)" and a': "a' = a"
    using st SystemLine by (auto simp: writer_Write_def split: prod.splits sum.splits if_splits)
  have "\<not> w_truncated w1" using nt w' sync_truncated [of "ca_sync e" w1] by (auto split: if_splits)
  then have "intact c r (acc @ map stored (given (length acc) [p])) (w1, a)"
    using writeLocked_intact [OF en i refl _ room wl] wf SystemLine by simp
  then show ?thesis using sync_intact [of c r _ w1 a "ca_sync e"] w' a' by simp
next
  case (ArchiveNow e through)
  obtain res w1 a1 where ar: "archiveBatchLocked e r through (w, a) = (res, w1, a1)" by (metis prod_cases3)
  then show ?thesis using st ArchiveNow archive_intact [OF i ar] by simp
qed (use i st sync_intact [OF i] seal_intact [OF en i room] close_intact [OF en i] in auto)

lemma given_Cons: "given n (p # ps) = given n [p] @ given (n + length (given n [p])) ps"
  by (cases p) auto

lemma given_length: "length (given n [p]) \<le> 1"
  by (cases p) auto

lemma run_truncated: "w_truncated w \<Longrightarrow> log_run c r ps (w, a) = (ok, w', a') \<Longrightarrow> w_truncated w'"
proof (induction ps arbitrary: w a ok)
  case (Cons p ps)
  obtain ok1 w1 a1 where p: "log_step c r p (w, a) = (ok1, w1, a1)" by (metis prod_cases3)
  obtain ok2 where "log_run c r ps (w1, a1) = (ok2, w', a')" using Cons.prems(2) p by (auto split: prod.splits)
  then show ?case using Cons.IH step_truncated [OF Cons.prems(1) p] by blast
qed simp

lemma run_intact:
  assumes en: "encoder_ok (lc_enc c)"
  shows "intact c r acc (w, a) \<Longrightarrow> log_run c r ps (w, a) = (True, w', a') \<Longrightarrow> \<not> w_truncated w' \<Longrightarrow>
    list_all wf_frame (given (length acc) ps) \<Longrightarrow> length acc + length ps < 2 ^ 64 \<Longrightarrow>
    intact c r (acc @ map stored (given (length acc) ps)) (w', a')"
proof (induction ps arbitrary: acc w a)
  case (Cons p ps)
  obtain w1 a1 where p: "log_step c r p (w, a) = (True, w1, a1)" and ps: "log_run c r ps (w1, a1) = (True, w', a')"
    using Cons.prems(2) by (auto split: prod.splits)
  let ?g = "given (length acc) [p]"
  have nt: "\<not> w_truncated w1" using run_truncated [OF _ ps] Cons.prems(3) by blast
  have wf: "list_all wf_frame ?g" "list_all wf_frame (given (length (acc @ map stored ?g)) ps)"
    using Cons.prems(4) unfolding given_Cons [of "length acc" p ps] by simp_all
  have "intact c r (acc @ map stored ?g) (w1, a1)"
    by (rule step_intact [OF en Cons.prems(1) p nt wf(1)]) (use Cons.prems(5) in simp)
  from Cons.IH [OF this ps Cons.prems(3) wf(2)]
  show ?case using Cons.prems(5) given_length [of "length acc" p] by (simp add: given_Cons [of "length acc" p ps])
qed simp

section \<open>The property\<close>

definition unused_run :: "archive \<Rightarrow> string \<Rightarrow> bool" where
  "unused_run a r \<longleftrightarrow> run_rows (ar_db a) r = [] \<and> list_all (\<lambda>f. fst (fst f) \<noteq> r) (ar_files a)"

lemma open_intact:
  assumes en: "encoder_ok (lc_enc c)" and op: "log_Open c mkdir e job kind opt frameSync = Inr w" and a: "unused_run a r"
  shows "intact c r [] (w, a)"
proof -
  let ?w0 = "(new_writer job kind opt frameSync)\<lparr>w_dirExists := True\<rparr>" and ?F = "\<lambda>n :: int. [] :: frame list"
  have w: "w = (set_file 1 [] ?w0)\<lparr>w_chunk := 1, w_file := True, w_enc := Some [], w_broken := False, w_chunkRaw := 0,
      w_chunkFirst := 1, w_unsynced := 0\<rparr>"
    using op by (auto simp: log_Open_def rotate_def new_writer_def has_file_def set_file_def Let_def split: if_splits)
  have f: "rb_files (w_dir w) = [(1, [])]" "rb_index (w_dir w) = None" "w_chunk w = 1" "w_seq w = 0" "ix_Chunks (w_idx w) = []"
    "\<not> w_degraded w" "w_file w" "w_enc w = Some []" "\<not> w_broken w" "w_chunkErr w = None" "w_chunkFirst w = 1" "w_chunkRaw w = 0"
    unfolding w by (simp_all add: set_file_def new_writer_def)
  have B: "file_set (w_dir w) = {1}" and R: "row_set a r = {}" and rows: "run_rows (ar_db a) r = []"
    using a f(1) by (auto simp: file_set_def row_set_def unused_run_def)
  have "log_view (en_zstd (lc_enc c)) a (w_dir w) r ?F"
    unfolding log_view_def B R rows f index_ok_def using holds_empty [OF en] by (simp add: chunk_seqs_def)
  moreover have "no_stray (en_zstd (lc_enc c)) a r ?F" using a by (force simp: no_stray_def unused_run_def list_all_iff dest: map_of_SomeD)
  ultimately have "core c r [] ?F w a"
    using f(6) unfolding core_def B R f by (simp add: frames_in_def)
  moreover have "writing c r ?F [] w a"
    using f(7,9) unfolding writing_def B R f rows by (simp add: sizes_def)
  moreover have "\<forall>n\<in>file_set (w_dir w). n \<le> w_chunk w" unfolding B f by simp
  ultimately show ?thesis unfolding intact_def by blast
qed

lemma complete_raw:
  assumes en: "encoder_ok (lc_enc c)" and op: "log_Open c mkdir e job kind opt frameSync = Inr w" and a: "unused_run a r"
    and run: "log_run c r ops (w, a) = (True, w', a')" and whole: "\<not> w_truncated w'"
    and wf: "list_all wf_frame (given 0 ops)" and fits: "length ops < 2 ^ 64"
  shows "tiers_ok (en_zstd (lc_enc c)) (tiers a' (w_dir w')) r \<and>
    merged 0 (visible (en_zstd (lc_enc c)) (tiers a' (w_dir w')) r) = map stored (given 0 ops) \<and>
    RawContext (en_zstd (lc_enc c)) (tiers a' (w_dir w')) r = Some (Inr (concat (map raw_line (map stored (given 0 ops)))))"
proof -
  let ?z = "en_zstd (lc_enc c)" and ?t = "tiers a' (w_dir w')"
  have "intact c r (map stored (given 0 ops)) (w', a')"
    using run_intact [OF en open_intact [OF en op a] run whole] wf fits by simp
  then obtain F where k: "core c r (map stored (given 0 ops)) F w' a'" unfolding intact_def by blast
  then have v: "log_view ?z a' (w_dir w') r F" by (simp add: core_def)
  have ok: "tiers_ok ?z ?t r" by (rule view_tiers_ok [OF v])
  have m: "merged 0 (visible ?z ?t r) = map stored (given 0 ops)" using view_merged [OF v] k by (simp add: core_def)
  then show ?thesis
    using ok raw_loop_rest [OF ok, of 0 "[]"] by (simp add: RawContext_def cursor_after_def)
qed

text \<open>C34: no output is lost silently. Take any sequence of lines captured from a process, system lines, syncs, seals,
  checkpoints into the archive and a close, in which any file operation, any database transaction and any
  step of a checkpoint may fail. As long as no line was refused with an error and the log is not marked truncated,
  a reader that pages through the archive database, the archive directory and the buffer succeeds and gets
  every line that was given, once, in order and with its bytes, stream, flags and time to the microsecond.\<close>

theorem log_complete:
  assumes en: "encoder_ok (lc_enc c)" and op: "log_Open c mkdir e job kind opt frameSync = Inr w" and a: "unused_run a r"
    and run: "log_run c r ops (w, a) = (True, w', a')" and whole: "\<not> w_truncated w'"
    and wf: "list_all wf_frame (given 0 ops)" and fits: "length ops < 2 ^ 64"
  shows "tiers_ok (en_zstd (lc_enc c)) (tiers a' (w_dir w')) r \<and>
    merged 0 (visible (en_zstd (lc_enc c)) (tiers a' (w_dir w')) r) = map stored (given 0 ops) \<and>
    RawContext (en_zstd (lc_enc c)) (tiers a' (w_dir w')) r = Some (Inr (concat (map raw_line (map stored (given 0 ops)))))"
  using complete_raw [OF assms] .

section \<open>From a process to a reader\<close>

fun closes :: "log_op \<Rightarrow> bool" where
  "closes (CloseNow _ _ _) = True"
| "closes _ = False"

text \<open>The log as one pump sees it: between two of its own captures the other pump, the system lines, the syncs, the seals and the
  checkpoints of the run have their turns, in any number and order.  The writer is closed only after the pumps have returned.  The state
  counts the captures and says whether every line of the others was taken.\<close>

definition shared_capture ::
  "log_cfg \<Rightarrow> string \<Rightarrow> (nat \<Rightarrow> log_op list) \<Rightarrow> (nat \<Rightarrow> capture_env) \<Rightarrow> byte \<Rightarrow> byte list \<Rightarrow> byte \<Rightarrow>
   nat \<times> bool \<times> writer \<times> archive \<Rightarrow> log_error option \<times> nat \<times> bool \<times> writer \<times> archive" where
  "shared_capture c r others e stream payload flags st =
     (case st of (n, ok, s) \<Rightarrow>
        (case log_run c r (filter (\<lambda>p. \<not> closes p) (others n)) s of (ok1, w, a) \<Rightarrow>
           (case pipe_capture c e stream payload flags (n, w) of (x, m, w') \<Rightarrow> (x, m, ok \<and> ok1, w', a))))"

fun shared_ops :: "(nat \<Rightarrow> log_op list) \<Rightarrow> (nat \<Rightarrow> capture_env) \<Rightarrow> byte \<Rightarrow> nat \<Rightarrow> (byte list \<times> byte) list \<Rightarrow> log_op list" where
  "shared_ops others e stream n [] = []"
| "shared_ops others e stream n ((payload, flags) # es) =
     filter (\<lambda>p. \<not> closes p) (others n) @ Line stream payload flags (e n) # shared_ops others e stream (Suc n) es"

lemma archive_closed:
  assumes "archiveBatchLocked e r through (w, a) = (res, w', a')"
  shows "w_closed w' = w_closed w"
  using assms
proof (cases rule: archive_cases)
  case (steps cs a1 err rb a2)
  have "w_closed w1 = w_closed w" if "remove_pending (ae_remove e) cs (w\<lparr>w_dir := rb\<rparr>) = (n, ok, w1)" for n ok w1
    using remove_pending_spec [OF that] by auto
  then show ?thesis using steps(4) by (auto dest: writeIndex_fields(8))
qed simp

lemma step_closed:
  assumes "log_step c r p (w, a) = (ok, w', a')" "\<not> closes p"
  shows "w_closed w' = w_closed w"
proof (cases p)
  case (Line stream payload flags e)
  then show ?thesis using assms capture_closed [of c e stream payload flags w] by (auto split: prod.splits)
next
  case (SystemLine stream payload flags e)
  have "w_closed w1 = w_closed w" if "writeLocked c (ca_write e) stream payload flags w = (x, w1)" for x w1
    using writeLocked_truncated [of c "ca_write e" stream payload flags w] that by simp
  moreover have "w_closed w2 = w_closed w1" if "writer_Sync (ca_sync e) w1 = (x, w2)" for w1 x w2
    using sync_truncated [of "ca_sync e" w1] that by simp
  ultimately show ?thesis using assms(1) SystemLine by (auto simp: writer_Write_def split: prod.splits sum.splits if_splits)
next
  case (ArchiveNow e through)
  obtain res w1 a1 where "archiveBatchLocked e r through (w, a) = (res, w1, a1)" by (metis prod_cases3)
  then show ?thesis using assms ArchiveNow archive_closed by auto
next
  case (SealNow e)
  obtain x w2 where rot: "(if w_chunkRaw w > 0 then rotate c e w else (None, w)) = (x, w2)" by fastforce
  then have "w_closed w2 = w_closed w" using rotate_truncated(2) [of c e w] by (simp split: if_splits)
  moreover have "w' = snd (sealForArchive c e w)" using assms(1) SealNow by simp
  ultimately show ?thesis unfolding sealForArchive_def rot by (simp split: option.split)
qed (use assms in \<open>auto simp: sync_truncated(2)\<close>)

lemma run_closed:
  "log_run c r ps (w, a) = (ok, w', a') \<Longrightarrow> list_all (\<lambda>p. \<not> closes p) ps \<Longrightarrow> w_closed w' = w_closed w"
proof (induction ps arbitrary: w a ok)
  case (Cons p ps)
  obtain ok1 w1 a1 where p: "log_step c r p (w, a) = (ok1, w1, a1)" by (metis prod_cases3)
  obtain ok2 where "log_run c r ps (w1, a1) = (ok2, w', a')" using Cons.prems(1) p by (auto split: prod.splits)
  then show ?case using Cons.IH Cons.prems(2) step_closed [OF p] by auto
qed simp

lemma run_append:
  "log_run c r (ps @ qs) s = (case log_run c r ps s of (ok, s') \<Rightarrow> (case log_run c r qs s' of (ok', s'') \<Rightarrow> (ok \<and> ok', s'')))"
  by (induction ps arbitrary: s) (auto split: prod.splits)

interpretation pump: line_sink "shared_capture c r others e stream" "\<lambda>s. w_closed (fst (snd (snd s)))"
proof
  fix p fl and s s' :: "nat \<times> bool \<times> writer \<times> archive"
  obtain n ok w a where s: "s = (n, ok, w, a)" by (metis prod_cases4)
  obtain ok1 w1 a1 where run: "log_run c r (filter (\<lambda>p. \<not> closes p) (others n)) (w, a) = (ok1, w1, a1)" by (metis prod_cases3)
  obtain x w2 where cp: "capture c (e n) stream p fl w1 = (x, w2)" by fastforce
  have eq: "shared_capture c r others e stream p fl s = (x, Suc n, ok \<and> ok1, w2, a1)" by (simp add: shared_capture_def pipe_capture_def s run cp)
  have cl: "w_closed w1 = w_closed w" using run_closed [OF run] by (simp add: list_all_iff)
  note c = capture_closed [OF cp]
  show "w_closed (fst (snd (snd s)))" if "shared_capture c r others e stream p fl s = (Some err, s')" for err
    using that [unfolded eq] c cl by (auto simp: s)
  show "\<not> w_closed (fst (snd (snd s')))"
    if "shared_capture c r others e stream p fl s = (None, s')" "\<not> w_closed (fst (snd (snd s)))"
    using that [unfolded eq] c cl by (auto simp: s)
qed

lemma shared_run:
  "capture_all (shared_capture c r others e stream) es (n, ok, s) = (None, m, ok', s') \<Longrightarrow>
   \<exists>ok1. log_run c r (shared_ops others e stream n es) s = (ok1, s') \<and> ok' = (ok \<and> ok1)"
proof (induction es arbitrary: n ok s)
  case (Cons x es)
  obtain payload flags where x: "x = (payload, flags)" by fastforce
  obtain ok1 w a where run: "log_run c r (filter (\<lambda>p. \<not> closes p) (others n)) s = (ok1, w, a)" by (metis prod_cases3)
  obtain y w1 where cp: "capture c (e n) stream payload flags w = (y, w1)" by fastforce
  have one: "shared_capture c r others e stream payload flags (n, ok, s) = (y, Suc n, ok \<and> ok1, w1, a)"
    by (simp add: shared_capture_def pipe_capture_def run cp)
  have y: "y = None" and rest: "capture_all (shared_capture c r others e stream) es (Suc n, ok \<and> ok1, w1, a) = (None, m, ok', s')"
    using Cons.prems by (auto simp: x one split: option.splits)
  obtain ok2 where "log_run c r (shared_ops others e stream (Suc n) es) (w1, a) = (ok2, s')" "ok' = ((ok \<and> ok1) \<and> ok2)"
    using Cons.IH [OF rest] by blast
  then show ?case by (auto simp: x run_append run cp y)
qed auto

text \<open>The lines of one stream among those given.\<close>

fun line_stream :: "log_op \<Rightarrow> byte option" where
  "line_stream (Line stream _ _ _) = Some stream"
| "line_stream (SystemLine stream _ _ _) = Some stream"
| "line_stream _ = None"

definition stream_lines :: "byte \<Rightarrow> frame list \<Rightarrow> (byte list \<times> byte) list" where
  "stream_lines stream L = map (\<lambda>f. (fr_Payload f, fr_Flags f)) (filter (\<lambda>f. fr_Stream f = stream) L)"

lemma stream_lines_append [simp]: "stream_lines stream (xs @ ys) = stream_lines stream xs @ stream_lines stream ys"
  by (simp add: stream_lines_def)

lemma given_append: "given n (ps @ qs) = given n ps @ given (n + length (given n ps)) qs"
proof (induction ps arbitrary: n)
  case (Cons p ps)
  show ?case using Cons [of "n + length (given n [p])"] given_Cons [of n p "ps @ qs"] given_Cons [of n p ps] by (simp add: add.assoc)
qed simp

lemma stream_lines_others: "list_all (\<lambda>p. line_stream p \<noteq> Some stream) ps \<Longrightarrow> stream_lines stream (map stored (given n ps)) = []"
  by (induction n ps rule: given.induct) (auto simp: stream_lines_def)

lemma stream_lines_shared:
  assumes "\<And>n. list_all (\<lambda>p. line_stream p \<noteq> Some stream) (others n)"
  shows "stream_lines stream (map stored (given k (shared_ops others e stream n es))) = es"
proof (induction es arbitrary: k n)
  case (Cons x es)
  obtain payload flags where x: "x = (payload, flags)" by fastforce
  let ?ps = "filter (\<lambda>p. \<not> closes p) (others n)"
  have "list_all (\<lambda>p. line_stream p \<noteq> Some stream) ?ps" using assms [of n] by (auto simp: list_all_iff)
  then have "stream_lines stream (map stored (given k ?ps)) = []" by (rule stream_lines_others)
  then show ?case using Cons by (simp add: x given_append) (simp add: stream_lines_def)
qed (simp add: stream_lines_def)

lemma entries_short: "x \<in> set (entries limit x2 bs) \<Longrightarrow> length (fst x) \<le> limit"
  by (auto simp: entries_def cut_entry_def line_entry_def Let_def split: prod.splits if_splits)


text \<open>A run with two lines, each sealed and archived, one as a blob and one as a file.\<close>

definition plain_encoder :: encoder where
  "plain_encoder = \<lparr>en_zstd = plain_zstd, en_open = concat, en_closed = concat, en_torn = (\<lambda>segs bs k. concat segs @ take k bs)\<rparr>"

definition plain_cfg :: log_cfg where
  "plain_cfg = \<lparr>lc_enc = plain_encoder, lc_errText = (\<lambda>_. ''error''), lc_syncMaxDirty = 1048576\<rparr>"

definition works :: "int \<Rightarrow> rotate_env" where
  "works sz = \<lparr>re_create = True, re_finish = \<lparr>fe_close = None, fe_sync = True, fe_size = Some sz, fe_fclose = True, fe_room = True,
     fe_index = IndexOk\<rparr>, re_encoder = True, re_cleanup = True\<rparr>"

definition write_at :: "int \<Rightarrow> write_env" where
  "write_at t = \<lparr>we_room = works 50, we_stuck = (\<lambda>_. False), we_rotate = works 50, we_now = from_micro t, we_write = None\<rparr>"

definition line_at :: "int \<Rightarrow> capture_env" where
  "line_at t = \<lparr>ca_now = from_micro t, ca_recover = \<lparr>ce_index = IndexOk, ce_size = None, ce_mkdir = True, ce_rotate = works 50,
     ce_summary = write_at t, ce_failed = from_micro t\<rparr>, ca_write = write_at t, ca_failed = from_micro t, ca_sync = SyncOk\<rparr>"

definition archive_at :: "int \<Rightarrow> archive_env" where
  "archive_at t = \<lparr>ae_ctx = False, ae_read = (\<lambda>_. True), ae_queued = (\<lambda>_. True), ae_sync = True, ae_now = from_micro t,
     ae_put = Committed, ae_place = \<lparr>pe_mkdir = True, pe_rename = (\<lambda>_. True), pe_foreign = (\<lambda>_. False), pe_dirSync = True,
       pe_read = (\<lambda>_. True), pe_put = Committed\<rparr>, ae_remove = (\<lambda>_. True), ae_index = IndexOk\<rparr>"

definition sample_ops :: "log_op list" where
  "sample_ops = [Line Stdout (bytes_of ''hi'') 0 (line_at 10), SealNow (works 50), ArchiveNow (archive_at 11) 1,
     Line Stderr (bytes_of ''oh'') 0 (line_at 12), SealNow (works 70000), ArchiveNow (archive_at 13) 2,
     CloseNow (from_micro 14) (ca_recover (line_at 14)) (re_finish (works 0))]"

definition sample_archive :: archive where
  "sample_archive = \<lparr>ar_db = \<lparr>lg_runs = [], lg_chunks = []\<rparr>, ar_files = []\<rparr>"

definition sample_open :: "log_error + writer" where
  "sample_open = log_Open plain_cfg True (works 0) ''job'' ''job'' \<lparr>wo_MaxBytes = 1000, wo_MaxLine = 100, wo_DropNew = False\<rparr> False"

definition sample_run :: "bool \<times> writer \<times> archive" where
  "sample_run = (case sample_open of Inr w \<Rightarrow> log_run plain_cfg ''r'' sample_ops (w, sample_archive)
     | Inl _ \<Rightarrow> (False, new_writer '''' '''' \<lparr>wo_MaxBytes = 0, wo_MaxLine = 0, wo_DropNew = False\<rparr> False, sample_archive))"

lemma plain_encoder_ok: "encoder_ok plain_encoder"
  by (auto simp: encoder_ok_def plain_encoder_def plain_zstd_def zstd_ok_def cut_short_def)

lemma sample_ok: "fst sample_run" "\<not> w_truncated (fst (snd sample_run))" "length (ar_files (snd (snd sample_run))) = 1"
  by code_simp+

theorem log_complete_witness:
  "RawContext plain_zstd (tiers (snd (snd sample_run)) (w_dir (fst (snd sample_run)))) ''r'' =
     Some (Inr (bytes_of ''hi'' @ [10] @ bytes_of ''[err] oh'' @ [10])) \<and> length (ar_files (snd (snd sample_run))) = 1"
proof -
  obtain w where op: "sample_open = Inr w" using sample_ok(1) unfolding sample_run_def by (auto split: sum.splits)
  have sr: "sample_run = log_run plain_cfg ''r'' sample_ops (w, sample_archive)" unfolding sample_run_def op by simp
  have run: "log_run plain_cfg ''r'' sample_ops (w, sample_archive) = (True, fst (snd sample_run), snd (snd sample_run))"
    using sample_ok(1) unfolding sr by (simp add: prod_eq_iff)
  have g0: "given 0 sample_ops =
      [\<lparr>fr_Sequence = 1, fr_Timestamp = from_micro 10, fr_Stream = Stdout, fr_Flags = 0, fr_Payload = bytes_of ''hi''\<rparr>,
       \<lparr>fr_Sequence = 2, fr_Timestamp = from_micro 12, fr_Stream = Stderr, fr_Flags = 0, fr_Payload = bytes_of ''oh''\<rparr>]"
    by (simp add: sample_ops_def line_at_def write_at_def)
  have g: "map stored (given 0 sample_ops) = given 0 sample_ops" "list_all wf_frame (given 0 sample_ops)" "length sample_ops < 2 ^ 64"
    unfolding g0 by (simp_all add: stored_def wf_frame_def maxFramePayload_def from_micro_unix_micro fits64_def min_int64_def
        max_int64_def bytes_of_def sample_ops_def)
  have r: "concat (map raw_line (given 0 sample_ops)) = bytes_of ''hi'' @ [10] @ bytes_of ''[err] oh'' @ [10]"
    unfolding g0 by code_simp
  have "encoder_ok (lc_enc plain_cfg)" "en_zstd (lc_enc plain_cfg) = plain_zstd" "unused_run sample_archive ''r''"
    using plain_encoder_ok by (simp_all add: plain_cfg_def plain_encoder_def unused_run_def sample_archive_def run_rows_def)
  note fresh = this
  have "RawContext plain_zstd (tiers (snd (snd sample_run)) (w_dir (fst (snd sample_run)))) ''r'' =
      Some (Inr (concat (map raw_line (map stored (given 0 sample_ops)))))"
    using log_complete [OF fresh(1) op [unfolded sample_open_def] fresh(3) run sample_ok(2) g(2,3)] unfolding fresh(2) by blast
  then show ?thesis using sample_ok(3) unfolding g(1) r by blast
qed

text \<open>Three reads with a full line and an unfinished one.\<close>

definition sample_writer :: writer where
  "sample_writer = (case sample_open of Inr w \<Rightarrow> w
     | Inl _ \<Rightarrow> new_writer '''' '''' \<lparr>wo_MaxBytes = 0, wo_MaxLine = 0, wo_DropNew = False\<rparr> False)"

definition sample_reads :: "byte list list" where
  "sample_reads = [bytes_of ''h'', bytes_of ''i'' @ [10] @ bytes_of ''o'', bytes_of ''h'']"

definition sample_envs :: "nat \<Rightarrow> capture_env" where
  "sample_envs n = line_at 10"

lemma sample_open_ok: "sample_open = Inr sample_writer" "\<not> w_closed sample_writer"
proof -
  have "\<exists>w. sample_open = Inr w" using sample_ok(1) unfolding sample_run_def by (auto split: sum.splits)
  then show "sample_open = Inr sample_writer" unfolding sample_writer_def by (metis sum.case(2))
  show "\<not> w_closed sample_writer" by code_simp
qed

lemma sample_entries: "entries (pipe_limit 100) EOF (concat sample_reads) = [(bytes_of ''hi'', 0), (bytes_of ''oh'', FlagPartial)]"
proof -
  have "pipe_limit 100 = 100" by (simp add: pipe_limit_def maxFramePayload_def)
  moreover have "entries 100 EOF (concat sample_reads) = [(bytes_of ''hi'', 0), (bytes_of ''oh'', FlagPartial)]" by code_simp
  ultimately show ?thesis by simp
qed

text \<open>The start line and a line of the other pipe come first; a checkpoint falls between the two lines, and a close ends the log.\<close>

definition sample_others :: "nat \<Rightarrow> log_op list" where
  "sample_others n = (if n = 0 then [SystemLine System (bytes_of ''up'') 0 (line_at 8), Line Stderr (bytes_of ''no'') 0 (line_at 9)]
     else [SealNow (works 50), ArchiveNow (archive_at 11) 1])"

definition sample_rest :: "log_op list" where
  "sample_rest = [CloseNow (from_micro 14) (ca_recover (line_at 14)) (re_finish (works 0))]"

definition sample_shared :: "log_op list" where
  "sample_shared = shared_ops sample_others sample_envs Stdout 0 [(bytes_of ''hi'', 0), (bytes_of ''oh'', FlagPartial)] @ sample_rest"

definition pumped :: "nat \<times> bool \<times> writer \<times> archive" where
  "pumped = snd (capture_all (shared_capture plain_cfg ''r'' sample_others sample_envs Stdout)
     [(bytes_of ''hi'', 0), (bytes_of ''oh'', FlagPartial)] (0, True, sample_writer, sample_archive))"

definition pumped_end :: "bool \<times> writer \<times> archive" where
  "pumped_end = log_run plain_cfg ''r'' sample_rest (snd (snd pumped))"

lemma pumped_ok: "fst (snd pumped)" "fst pumped_end" "\<not> w_truncated (fst (snd pumped_end))"
  by code_simp+

lemma sample_shared_given: "given 0 sample_shared =
   [\<lparr>fr_Sequence = 1, fr_Timestamp = from_micro 8, fr_Stream = System, fr_Flags = 0, fr_Payload = bytes_of ''up''\<rparr>,
    \<lparr>fr_Sequence = 2, fr_Timestamp = from_micro 9, fr_Stream = Stderr, fr_Flags = 0, fr_Payload = bytes_of ''no''\<rparr>,
    \<lparr>fr_Sequence = 3, fr_Timestamp = from_micro 10, fr_Stream = Stdout, fr_Flags = 0, fr_Payload = bytes_of ''hi''\<rparr>,
    \<lparr>fr_Sequence = 4, fr_Timestamp = from_micro 10, fr_Stream = Stdout, fr_Flags = FlagPartial, fr_Payload = bytes_of ''oh''\<rparr>]"
  by (simp add: sample_shared_def sample_others_def sample_rest_def sample_envs_def line_at_def write_at_def)


section \<open>A checkpoint that cannot be retried\<close>

text \<open>A small and a large chunk are archived together, and the buffer file of the small one cannot be removed. The
  large one is then in the archive directory and its sync is no longer queued at the old path.\<close>

definition half_removed :: "writer \<times> archive" where
  "half_removed = snd (log_run plain_cfg ''r'' [Line Stdout (bytes_of ''hi'') 0 (line_at 10), SealNow (works 50),
     Line Stdout (bytes_of ''ho'') 0 (line_at 11), SealNow (works 70000),
     ArchiveNow ((archive_at 12)\<lparr>ae_remove := (\<lambda>n. n \<noteq> 1)\<rparr>) 2] (sample_writer, sample_archive))"

lemma half_removed_state:
  "map cm_Number (ix_Chunks (w_idx (fst half_removed))) = [1, 2]" "\<not> has_file 2 (fst half_removed)"
  "map_of (ar_files (snd half_removed)) (''r'', 2) \<noteq> None"
  by code_simp+

text \<open>From there the same checkpoint fails although every operation works, and changes nothing.\<close>

lemma checkpoint_retry_stuck:
  "archiveBatchLocked ((archive_at 20)\<lparr>ae_queued := (\<lambda>_. False)\<rparr>) ''r'' 2 half_removed = ((False, Some BufferFailed), half_removed)"
proof -
  let ?e = "(archive_at 20)\<lparr>ae_queued := (\<lambda>_. False)\<rparr>"
  obtain cs where cs: "collect (\<lambda>n. if ae_read ?e n then map_of (rb_files (w_dir (fst half_removed))) n else None) 2 0 0
      (ix_Chunks (w_idx (fst half_removed))) = Some cs" "cs \<noteq> []" "\<not> syncMoves (ae_queued ?e) (ae_sync ?e) (w_dir (fst half_removed)) cs"
  proof -
    have "case collect (\<lambda>n. if ae_read ?e n then map_of (rb_files (w_dir (fst half_removed))) n else None) 2 0 0
        (ix_Chunks (w_idx (fst half_removed))) of None \<Rightarrow> False
      | Some cs \<Rightarrow> cs \<noteq> [] \<and> \<not> syncMoves (ae_queued ?e) (ae_sync ?e) (w_dir (fst half_removed)) cs"
      by code_simp
    then show ?thesis using that by (auto split: option.splits)
  qed
  obtain w a where h: "half_removed = (w, a)" by fastforce
  have "\<not> ae_ctx ?e" by (simp add: archive_at_def)
  then show ?thesis using cs unfolding h fst_conv archiveBatchLocked_def Let_def prod.case by simp
qed

end
