(* ===== verification/Log_Sweep.thy ===== *)
theory Log_Sweep
  imports Log_Complete
begin

text \<open>
  The sweep of a buffer whose writer is gone (\<^verbatim>\<open>archiveOrphan\<close>), as after a restart of the daemon:
  however often it is tried and wherever it fails, a reader sees the same log before, between and after the
  attempts.
\<close>

section \<open>Decoded frames encode again\<close>

lemma decode_wf: "decode r = Inr (f, r') \<Longrightarrow> wf_frame f \<and> stored f = f"
proof -
  assume "decode r = Inr (f, r')"
  then obtain g n rest payload where h: "decodeHeaderWithBuffer r = Inr (g, n, rest)" and p: "ReadFull n rest = Inr (payload, r')"
    and f: "f = g\<lparr>fr_Payload := payload\<rparr>"
    by (auto simp: decode_def split: sum.splits)
  obtain t :: "64 word" where n: "n \<le> maxFramePayload" and t: "fr_Timestamp g = from_micro (sint t)"
    using h by (auto simp: decodeHeaderWithBuffer_def Let_def split: sum.splits if_splits)
  have "length payload = n" using p by (auto simp: ReadFull_def Let_def split: prod.splits if_splits)
  moreover have "fits64 (sint t)"
    using sint_lt [of t] sint_ge [of t] by (simp add: fits64_def min_int64_def max_int64_def)
  ultimately show ?thesis
    using n t by (simp add: wf_frame_def stored_def f from_micro_unix_micro)
qed

lemma decode_all_wf: "list_all (\<lambda>f. wf_frame f \<and> stored f = f) (fst (decode_all r))"
proof (induction r rule: decode_all.induct)
  case (1 r)
  then show ?case
    by (subst decode_all.simps) (auto simp: Let_def dest: decode_wf split: sum.splits prod.splits)
qed

lemma holds_again:
  assumes z: "zstd_ok z" and h: "holds_frames z b fs"
  shows "holds_frames z (encodeFrames z fs) fs"
proof -
  have wf: "list_all (\<lambda>f. wf_frame f \<and> stored f = f) fs" using decode_all_wf [of "zs_reader z b"] h by (auto simp: holds_frames_def frames_of_def)
  then have "list_all wf_frame fs" "map stored fs = fs" by (auto simp: list_all_iff map_idI)
  moreover have "zs_reader z (encodeFrames z fs) = (concat (map encodeWithHeader fs), EOF)"
    using z by (simp add: zstd_ok_def encodeFrames_def)
  ultimately show ?thesis using holds_encoded [of fs z "encodeFrames z fs" EOF] by (simp add: cut_short_def)
qed

section \<open>What a reader sees\<close>

text \<open>The chunks with frames are those of \<open>S\<close>, in the archive or in the buffer.\<close>

definition seen :: "zstd \<Rightarrow> string \<Rightarrow> (int \<Rightarrow> frame list) \<Rightarrow> int set \<Rightarrow> archive \<Rightarrow> run_buffer \<Rightarrow> bool" where
  "seen z r F S a rb \<longleftrightarrow> log_view z a rb r F \<and> no_stray z a r F \<and> row_set a r \<union> file_set rb \<subseteq> S \<and>
     (\<forall>n\<in>S. F n \<noteq> [] \<longrightarrow> n \<in> row_set a r \<union> file_set rb)"

lemma seen_merged:
  assumes "seen z r F S a rb" "finite S"
  shows "merged 0 (visible z (tiers a rb) r) = frames_in F (sorted_list_of_set S)"
proof -
  have v: "log_view z a rb r F" using assms by (simp add: seen_def)
  have "frames_in F (sorted_list_of_set (row_set a r \<union> file_set rb)) = frames_in F (sorted_list_of_set S)"
    using assms by (intro frames_in_same) (auto simp: seen_def)
  then show ?thesis using view_merged [OF v] by simp
qed

lemma seen_file:
  assumes "seen z r F S a rb" "map_of (rb_files rb) n = Some b"
  shows "n \<in> file_set rb" "holds_frames z b (F n)" "openFileChunk a rb r n \<noteq> None \<and> holds_frames z (the (openFileChunk a rb r n)) (F n)"
proof -
  have v: "log_view z a rb r F" and ns: "no_stray z a r F" using assms by (auto simp: seen_def)
  show n: "n \<in> file_set rb" using assms(2) file_None [of rb n] by auto
  show h: "holds_frames z b (F n)" using log_view_file [OF v n] assms(2) by auto
  show "openFileChunk a rb r n \<noteq> None \<and> holds_frames z (the (openFileChunk a rb r n)) (F n)"
    using h assms(2) ns by (auto simp: openFileChunk_def no_stray_def split: option.splits)
qed

lemma seen_drop:
  assumes s: "seen z r F S a rb" and n: "(n \<in> row_set a r \<and> self_contained a r n) \<or> F n = []"
  shows "seen z r F S a (drop_file n rb)"
proof -
  have v: "log_view z a rb r F" using s by (simp add: seen_def)
  have "n \<notin> row_set a r" if "F n = []" using that log_viewD(6) [OF v] by (auto simp: row_set_def row_ok_def)
  then have "log_view z a (drop_file n rb) r F" using view_drop [OF v, of n] n by (auto simp: self_contained_def)
  then show ?thesis using s n by (auto simp: seen_def)
qed

lemma seen_drops:
  "seen z r F S a rb \<Longrightarrow> \<forall>n\<in>set ns. (n \<in> row_set a r \<and> self_contained a r n) \<or> F n = [] \<Longrightarrow> seen z r F S a (drop_files ns rb)"
  by (induction ns arbitrary: rb) (simp_all add: drop_files_def seen_drop)

lemma seen_index:
  assumes "seen z r F S a rb" "i = rb_index rb \<or> i = None"
  shows "seen z r F S a (rb\<lparr>rb_index := i\<rparr>)"
proof -
  have v: "log_view z a rb r F" using assms by (simp add: seen_def)
  have "index_ok (rb\<lparr>rb_index := i\<rparr>) F"
  proof (cases "i = None")
    case False
    then have "rb\<lparr>rb_index := i\<rparr> = rb" using assms(2) by (cases rb) auto
    then show ?thesis using log_viewD(8) [OF v] by simp
  qed (simp add: index_ok_def)
  then show ?thesis using view_put_index [OF v, of i] assms(1) by (simp add: seen_def)
qed

section \<open>Flushing a batch\<close>

text \<open>The batch being collected and the files still to come.\<close>

definition sweeping :: "zstd \<Rightarrow> string \<Rightarrow> (int \<Rightarrow> frame list) \<Rightarrow> int set \<Rightarrow> (int \<times> byte list) list \<Rightarrow> orphan_state \<Rightarrow> bool" where
  "sweeping z r F S rest s \<longleftrightarrow> seen z r F S (os_archive s) (os_rb s) \<and>
     (\<forall>c\<in>set (os_chunks s). row_ok z (os_archive s) (os_rb s) r F c \<and> ch_Number c \<in> file_set (os_rb s)) \<and>
     distinct (map ch_Number (os_chunks s)) \<and>
     (\<forall>n\<in>file_set (os_rb s). F n \<noteq> [] \<longrightarrow> n \<in> ch_Number ` set (os_chunks s) \<or> n \<in> fst ` set rest) \<and>
     (\<forall>c\<in>set (os_chunks s). \<forall>f\<in>set rest. ch_Number c < fst f) \<and>
     (\<forall>f\<in>set rest. map_of (rb_files (os_rb s)) (fst f) = Some (snd f)) \<and> sorted_wrt (<) (map fst rest)"

lemma rename_other:
  "rename_moves mv r ms (rb, a) = (ok, rb', a') \<Longrightarrow> n \<notin> ch_Number ` set ms \<Longrightarrow> map_of (rb_files rb') n = map_of (rb_files rb) n"
proof (induction ms arbitrary: rb a)
  case (Cons m ms)
  have "map_of (rb_files (drop_file (ch_Number m) rb)) n = map_of (rb_files rb) n"
    using Cons.prems(2) by simp
  then show ?case using Cons by (auto split: option.splits if_splits)
qed simp

lemma placeFiles_other:
  assumes "placeFiles e r job kind at cs (rb, a) = (err, rb', a')" "n \<notin> ch_Number ` set cs"
  shows "map_of (rb_files rb') n = map_of (rb_files rb) n"
proof -
  let ?ms = "filter (\<lambda>c. ch_FileBytes c > 0) cs"
  obtain moved rb1 a1 where m: "(if pe_mkdir e then rename_moves (pe_rename e) r ?ms (rb, a) else (False, rb, a)) = (moved, rb1, a1)"
    by (metis prod_cases3)
  have "map_of (rb_files rb1) n = map_of (rb_files rb) n"
    using m rename_other [of "pe_rename e" r ?ms rb a moved rb1 a1 n] assms(2) by (auto split: if_splits)
  then show ?thesis
    using assms(1) m by (auto simp: placeFiles_def Let_def split: if_splits option.splits)
qed

lemma remove_paths_spec:
  "remove_paths rm cs rb = (ok, rb') \<Longrightarrow> \<exists>j. rb' = drop_files (map ch_Number (take j cs)) rb \<and> (ok \<longrightarrow> j = length cs)"
proof (induction cs arbitrary: rb)
  case (Cons c cs)
  show ?case
  proof (cases "ch_Number c \<in> fst ` set (rb_files rb) \<and> \<not> rm (ch_Number c)")
    case True
    then show ?thesis using Cons.prems by (auto simp: drop_files_def intro!: exI [of _ 0])
  next
    case False
    then have "remove_paths rm cs (drop_file (ch_Number c) rb) = (ok, rb')" using Cons.prems by auto
    then obtain j where "rb' = drop_files (map ch_Number (take j cs)) (drop_file (ch_Number c) rb)" "ok \<longrightarrow> j = length cs"
      using Cons.IH by blast
    then show ?thesis by (intro exI [of _ "Suc j"]) (simp add: drop_files_def)
  qed
qed (auto simp: drop_files_def)
lemma seen_commit:
  assumes w: "sweeping z r F S rest s"
    and a': "a' = (os_archive s)\<lparr>ar_db := PutChunks r job kind at (os_chunks s) (ar_db (os_archive s))\<rparr>"
  shows "seen z r F S a' (os_rb s)" "set (os_chunks s) \<subseteq> set (run_rows (ar_db a') r)"
    "row_set a' r = row_set (os_archive s) r \<union> ch_Number ` set (os_chunks s)"
proof -
  let ?a = "os_archive s" and ?rb = "os_rb s" and ?cs = "os_chunks s"
  have v: "log_view z ?a ?rb r F" using w by (simp add: sweeping_def seen_def)
  have "puts_ok z ?a ?rb r F ?cs" using w by (auto simp: sweeping_def puts_ok_def)
  moreover have "ch_Number c < n" if "n \<in> file_set ?rb" "F n \<noteq> []" "n \<notin> ch_Number ` set ?cs" "c \<in> set ?cs" for n c
    using w that unfolding sweeping_def by blast
  ultimately have P: "log_view z a' ?rb r F \<and> row_set a' r = row_set ?a r \<union> ch_Number ` set ?cs"
    using view_commit [OF v _ _ a'] by blast
  then show "row_set a' r = row_set ?a r \<union> ch_Number ` set ?cs" by simp
  have "ch_Number ` set ?cs \<subseteq> file_set ?rb" using w by (auto simp: sweeping_def)
  then show "seen z r F S a' ?rb" using w P by (auto simp: sweeping_def seen_def no_stray_def a')
  show "set ?cs \<subseteq> set (run_rows (ar_db a') r)"
    using commit_rows_all [OF log_viewD(1) [OF v]] w by (simp add: a' sweeping_def)
qed

lemma seen_placed:
  assumes "seen z r F S a rb" "placed z r F (rb, a) (rb', a')"
  shows "seen z r F S a' rb'"
  using assms unfolding seen_def placed_def by auto

lemma flush_sweeping:
  assumes w: "sweeping z r F S rest s" and fl: "flush e r job kind s = (x, s')"
  shows "seen z r F S (os_archive s') (os_rb s') \<and> rb_index (os_rb s') = rb_index (os_rb s) \<and>
    (x = None \<longrightarrow> sweeping z r F S rest s' \<and> os_chunks s' = [])"
proof (cases "os_chunks s = []")
  case True
  then show ?thesis using w fl by (simp add: flush_def sweeping_def)
next
  case False
  let ?cs = "os_chunks s" and ?fe = "oe_flush e (ch_Number (hd (os_chunks s)))"
  define a1 where "a1 = (os_archive s)\<lparr>ar_db := PutChunks r job kind (fl_now ?fe) ?cs (ar_db (os_archive s))\<rparr>"
  note C = seen_commit [OF w a1_def]
  obtain err rb a2 where pl: "placeFiles (fl_place ?fe) r job kind (fl_now ?fe) ?cs (os_rb s, a1) = (err, rb, a2)" by (metis prod_cases3)
  have v1: "log_view z a1 (os_rb s) r F" using C(1) by (simp add: seen_def)
  note P = placeFiles_placed [OF v1 C(2) pl]
  have s2: "seen z r F S a2 rb" using seen_placed [OF C(1)] P by blast
  obtain ok rb3 where rp: "remove_paths (fl_remove ?fe) ?cs rb = (ok, rb3)" by fastforce
  obtain j where j: "rb3 = drop_files (map ch_Number (take j ?cs)) rb" "ok \<longrightarrow> j = length ?cs" using remove_paths_spec [OF rp] by blast
  have R: "row_set a2 r = row_set a1 r" "rb_index rb = rb_index (os_rb s)" "file_set rb \<subseteq> file_set (os_rb s)" using P by (auto simp: placed_def)
  have s3: "seen z r F S a2 rb3" if "err = None"
    unfolding j(1)
  proof (rule seen_drops [OF s2])
    show "\<forall>n\<in>set (map ch_Number (take j ?cs)). n \<in> row_set a2 r \<and> self_contained a2 r n \<or> F n = []"
      using P that C(3) unfolding R by (auto dest: in_set_takeD)
  qed
  have s0: "seen z r F S (os_archive s) (os_rb s)" using w by (simp add: sweeping_def)
  consider "x \<noteq> None" "os_rb s' = os_rb s" "os_archive s' = os_archive s \<or> os_archive s' = a1"
    | "x \<noteq> None" "os_rb s' = rb" "os_archive s' = a2"
    | "x \<noteq> None" "err = None" "os_rb s' = rb3" "os_archive s' = a2"
    | "x = None" "err = None" "ok" "s' = s\<lparr>os_archive := a2, os_rb := rb3, os_chunks := [], os_size := 0\<rparr>"
    using fl False pl rp unfolding flush_def
    by (auto simp: Let_def commit_def a1_def split: if_splits option.splits bool.splits prod.splits)
  then show ?thesis
  proof cases
    case 4
    have "map ch_Number (take j ?cs) = map ch_Number ?cs" using j 4 by simp
    then have f3: "file_set rb3 = file_set rb - ch_Number ` set ?cs" "rb_index rb3 = rb_index (os_rb s)"
      using j(1) R by simp_all
    have rest: "map_of (rb_files rb3) (fst f) = Some (snd f)" if "f \<in> set rest" for f
    proof -
      have "\<forall>c\<in>set ?cs. ch_Number c < fst f" using w that by (simp add: sweeping_def)
      then have n: "fst f \<notin> ch_Number ` set ?cs" by auto
      then have "map_of (rb_files rb3) (fst f) = map_of (rb_files (os_rb s)) (fst f)"
        using placeFiles_other [OF pl n] j(1) in_set_takeD by fastforce
      then show ?thesis using w that by (simp add: sweeping_def)
    qed
    have left: "\<forall>n\<in>file_set rb3. F n \<noteq> [] \<longrightarrow> n \<in> fst ` set rest"
      using w f3 R(3) unfolding sweeping_def by blast
    have "sorted_wrt (<) (map fst rest)" using w by (simp add: sweeping_def)
    then have "sweeping z r F S rest s'" using 4 s3 rest left by (simp add: sweeping_def)
    then show ?thesis using 4 f3 by (simp add: sweeping_def)
  qed (use s0 s2 s3 C(1) R j(1) in auto)
qed

section \<open>One file\<close>

lemma sweeping_seen: "sweeping z r F S rest s \<Longrightarrow> seen z r F S (os_archive s) (os_rb s)"
  by (simp add: sweeping_def)

lemma flush_if_sweeping:
  assumes "sweeping z r F S rest s" "flush_if b e r job kind s = (x, s')"
  shows "seen z r F S (os_archive s') (os_rb s') \<and> rb_index (os_rb s') = rb_index (os_rb s) \<and>
    (x = None \<longrightarrow> sweeping z r F S rest s')"
  using assms flush_sweeping [OF assms(1)] by (cases b) (auto simp: flush_if_def sweeping_seen)

text \<open>The next file joins the batch, or is passed over because it has no frames.\<close>

lemma sweeping_add:
  assumes w: "sweeping z r F S ((n, b) # rest) s" and c: "ch_Number c = n" "row_ok z (os_archive s) (os_rb s) r F c"
  shows "sweeping z r F S rest (add_chunk c s)"
proof -
  have "map_of (rb_files (os_rb s)) n = Some b" using w by (simp add: sweeping_def)
  then have "n \<in> file_set (os_rb s)" using file_None [of "os_rb s" n] by auto
  moreover have "\<forall>d\<in>set (os_chunks s). ch_Number d < n" "\<forall>f\<in>set rest. n < fst f" using w by (auto simp: sweeping_def)
  ultimately show ?thesis using w c by (auto simp: sweeping_def add_chunk_def)
qed

lemma sweeping_skip:
  assumes "sweeping z r F S ((n, b) # rest) s" "F n = []"
  shows "sweeping z r F S rest s"
  using assms by (auto simp: sweeping_def)

lemma row_ok_drop:
  assumes "row_ok z a rb r F c" "n \<noteq> ch_Number c"
  shows "row_ok z a (drop_file n rb) r F c"
proof -
  have "row_blob a (drop_file n rb) r c = row_blob a rb r c"
    using assms(2) by (simp add: row_blob_def openFileChunk_def split: option.split)
  then show ?thesis using assms(1) by (auto simp: row_ok_def last_ok_def)
qed

lemma sweeping_drop:
  assumes w: "sweeping z r F S ((n, b) # rest) s" and n: "F n = []"
  shows "sweeping z r F S rest (s\<lparr>os_rb := drop_file n (os_rb s)\<rparr>)"
proof -
  have s: "seen z r F S (os_archive s) (drop_file n (os_rb s))" using seen_drop [OF sweeping_seen [OF w]] n by blast
  have "\<forall>d\<in>set (os_chunks s). ch_Number d < n" "\<forall>f\<in>set rest. n < fst f" using w by (auto simp: sweeping_def)
  then show ?thesis using w s n row_ok_drop by (fastforce simp: sweeping_def)
qed

lemma sweeping_local:
  assumes "os_rb s' = os_rb s" "os_archive s' = os_archive s" "os_chunks s' = os_chunks s"
  shows "sweeping z r F S rest s' = sweeping z r F S rest s"
  unfolding sweeping_def assms ..

text \<open>The entries of the index, for the chunks the reader sees.\<close>

definition metas_ok :: "(int \<Rightarrow> frame list) \<Rightarrow> int set \<Rightarrow> log_index option \<Rightarrow> bool" where
  "metas_ok F S i \<longleftrightarrow> (\<forall>idx m. i = Some idx \<longrightarrow> m \<in> set (ix_Chunks idx) \<longrightarrow> meta_ok F S m)"

lemma last_ok_mono: "last_ok F S n l \<Longrightarrow> T \<subseteq> S \<Longrightarrow> last_ok F T n l"
  by (auto simp: last_ok_def)

lemma sealed_row:
  assumes w: "sweeping z r F S ((n, b) # rest) s" and m: "meta_ok F S m" "cm_Number m = n"
    and c: "ch_Number c = n" "ch_Last c = cm_Last m" "ch_FileBytes c > 0 \<or> (ch_FileBytes c = 0 \<and> ch_Blob c = b)"
  shows "row_ok z (os_archive s) (os_rb s) r F c"
proof -
  have sn: "seen z r F S (os_archive s) (os_rb s)" and b: "map_of (rb_files (os_rb s)) n = Some b" using w by (simp_all add: sweeping_def)
  note f = seen_file [OF sn b]
  have "\<exists>b. row_blob (os_archive s) (os_rb s) r c = Some b \<and> holds_frames z b (F n)"
    using f c by (auto simp: row_blob_def)
  moreover have "last_ok F (row_set (os_archive s) r \<union> file_set (os_rb s)) n (cm_Last m)"
    using last_ok_mono m sn by (auto simp: meta_ok_def seen_def)
  ultimately show ?thesis using m c by (simp add: row_ok_def meta_ok_def)
qed

lemma salvaged_row:
  assumes z: "zstd_ok z" and w: "sweeping z r F S ((n, b) # rest) s" and ne: "F n \<noteq> []"
    and c: "ch_Number c = n" "ch_Last c = fr_Sequence (last (F n))" "ch_FileBytes c = 0" "ch_Blob c = encodeFrames z (F n)"
  shows "row_ok z (os_archive s) (os_rb s) r F c"
proof -
  let ?T = "row_set (os_archive s) r \<union> file_set (os_rb s)"
  have sn: "seen z r F S (os_archive s) (os_rb s)" and b: "map_of (rb_files (os_rb s)) n = Some b" using w by (simp_all add: sweeping_def)
  have sq: "chunk_seqs F ?T" using log_viewD(4) sn unfolding seen_def by blast
  have nT: "n \<in> ?T" using seen_file(1) [OF sn b] by simp
  have "holds_frames z (encodeFrames z (F n)) (F n)" by (rule holds_again [OF z seen_file(2) [OF sn b]])
  moreover have "fr_Sequence f \<le> fr_Sequence (last (F n))" if mem: "f \<in> set (F n)" for f
  proof -
    obtain us vs where uv: "F n = us @ f # vs" using split_list [OF mem] by blast
    have "sorted_wrt (<) (map fr_Sequence (F n))" using sq nT unfolding chunk_seqs_def by blast
    then show ?thesis unfolding uv by (cases vs rule: rev_cases) (auto simp: sorted_wrt_append)
  qed
  moreover have "fr_Sequence (last (F n)) < fr_Sequence g" if "k \<in> ?T" "n < k" "g \<in> set (F k)" for k g
    using sq nT that last_in_set [OF ne] unfolding chunk_seqs_def by blast
  ultimately show ?thesis using c ne by (auto simp: row_ok_def row_blob_def last_ok_def)
qed

lemma salvage_sweeping:
  assumes en: "encoder_ok en" and z: "z = en_zstd en" and w: "sweeping z r F S ((n, b) # rest) s"
    and sv: "salvage_chunk z e r n b s = (x, s')"
  shows "rb_index (os_rb s') = rb_index (os_rb s) \<and> (case x of None \<Rightarrow> sweeping z r F S rest s'
    | Some c \<Rightarrow> sweeping z r F S ((n, b) # rest) s' \<and> F n \<noteq> [] \<and> ch_Number c = n \<and> ch_Last c = fr_Sequence (last (F n)) \<and>
        ch_FileBytes c = 0 \<and> ch_Blob c = encodeFrames z (F n))"
proof -
  have h: "holds_frames z b (F n)" using seen_file(2) [OF sweeping_seen [OF w]] w by (simp add: sweeping_def)
  have "zs_reader z [] = ([], EOF)" using en z by (simp add: encoder_ok_def)
  moreover have "decode_all ([], EOF) = ([], None)" using decode_all_complete [of "[]"] by simp
  ultimately have empty: "decode_all (zs_reader z []) = ([], None)" by simp
  obtain y where y: "salvageFrames z b = (F n, y)" "y = None \<or> y = Some UnexpectedEOF"
    using h empty by (cases "b = []") (auto simp: salvageFrames_def holds_frames_def frames_of_def readable_def prod_eq_iff)
  show ?thesis
  proof (cases "F n")
    case Nil
    have d: "sweeping z r F S rest (s\<lparr>os_quarantine := q, os_rb := drop_file n (os_rb s), os_quarantined := k\<rparr>)" for q k
      using sweeping_drop [OF w Nil] by (rule iffD2 [OF sweeping_local, rotated 3]) simp_all
    have "sweeping z r F S rest t" if "os_rb t = os_rb s" "os_archive t = os_archive s" "os_chunks t = os_chunks s" for t
      using sweeping_local [OF that] sweeping_skip [OF w Nil] by blast
    then have "x = None \<and> sweeping z r F S rest s' \<and> rb_index (os_rb s') = rb_index (os_rb s)"
      using sv y Nil d by (auto simp: salvage_chunk_def preserve_def Let_def split: option.splits if_splits)
    then show ?thesis by simp
  next
    case (Cons f fs)
    then show ?thesis using sv y w by (auto simp: salvage_chunk_def Let_def)
  qed
qed

text \<open>A chunk that may be archived as it is in every state of the sweep.\<close>

definition archivable :: "zstd \<Rightarrow> string \<Rightarrow> (int \<Rightarrow> frame list) \<Rightarrow> int set \<Rightarrow> int \<times> byte list \<Rightarrow> (int \<times> byte list) list \<Rightarrow> chunk \<Rightarrow> bool" where
  "archivable z r F S f rest c \<longleftrightarrow> ch_Number c = fst f \<and>
     (\<forall>s. sweeping z r F S (f # rest) s \<longrightarrow> row_ok z (os_archive s) (os_rb s) r F c)"

lemma batch_sweeping:
  assumes w: "sweeping z r F S ((n, b) # rest) s" and c: "archivable z r F S (n, b) rest c" and bt: "batch_chunk now e r job kind c s = (x, s')"
  shows "seen z r F S (os_archive s') (os_rb s') \<and> rb_index (os_rb s') = rb_index (os_rb s) \<and> (x = None \<longrightarrow> sweeping z r F S rest s')"
proof -
  obtain y s1 where f: "flush_if now e r job kind s = (y, s1)" by fastforce
  note F1 = flush_if_sweeping [OF w f]
  have "sweeping z r F S rest (add_chunk c s1)" if w1: "sweeping z r F S ((n, b) # rest) s1"
    using sweeping_add [OF w1] c w1 by (simp add: archivable_def)
  moreover have "os_archive (add_chunk c s1) = os_archive s1" "os_rb (add_chunk c s1) = os_rb s1" by (simp_all add: add_chunk_def)
  ultimately show ?thesis using bt f F1 by (auto simp: batch_chunk_def split: option.splits)
qed

lemma read_sweeping:
  assumes en: "encoder_ok en" and z: "z = en_zstd en" and w: "sweeping z r F S ((n, b) # rest) s"
    and m: "\<And>m. meta = Some m \<Longrightarrow> meta_ok F S m \<and> cm_Number m = n" and rc: "read_chunk z e r meta n b s = (x, s')"
  shows "rb_index (os_rb s') = rb_index (os_rb s) \<and> (case x of None \<Rightarrow> sweeping z r F S rest s'
    | Some c \<Rightarrow> sweeping z r F S ((n, b) # rest) s' \<and> archivable z r F S (n, b) rest c)"
proof (cases meta)
  case None
  then have sv: "salvage_chunk z e r n b s = (x, s')" using rc by (simp add: read_chunk_def)
  have zo: "zstd_ok z" using en z by (simp add: encoder_ok_def)
  have "archivable z r F S (n, b) rest c" if "F n \<noteq> []" "ch_Number c = n" "ch_Last c = fr_Sequence (last (F n))"
    "ch_FileBytes c = 0" "ch_Blob c = encodeFrames z (F n)" for c
    using salvaged_row [where z = z and F = F and n = n and b = b and c = c, OF zo _ that] that(2) by (simp add: archivable_def)
  then show ?thesis using salvage_sweeping [OF en z w sv] by (auto split: option.splits)
next
  case (Some mt)
  then have mt: "meta_ok F S mt" "cm_Number mt = n" using m by auto
  have "archivable z r F S (n, b) rest c" if "ch_Number c = n" "ch_Last c = cm_Last mt" "ch_FileBytes c = 0" "ch_Blob c = b" for c
    using sealed_row [OF _ mt that(1,2)] that by (simp add: archivable_def)
  then show ?thesis using rc Some w by (auto simp: read_chunk_def)
qed

lemma orphan_file_sweeping:
  assumes en: "encoder_ok en" and z: "z = en_zstd en" and w: "sweeping z r F S ((n, b) # rest) s"
    and m: "\<And>m. meta = Some m \<Longrightarrow> meta_ok F S m \<and> cm_Number m = n"
    and f: "orphan_file z e r job kind meta n b s = (x, s')"
  shows "seen z r F S (os_archive s') (os_rb s') \<and> rb_index (os_rb s') = rb_index (os_rb s) \<and> (x = None \<longrightarrow> sweeping z r F S rest s')"
proof -
  note sn = sweeping_seen [OF w]
  consider "oe_ctx e n \<or> \<not> oe_stat e n" | "\<not> oe_ctx e n" "oe_stat e n" "is_large meta b" | "\<not> oe_ctx e n" "oe_stat e n" "\<not> is_large meta b"
    by blast
  then show ?thesis
  proof cases
    case 1
    then show ?thesis using f sn by (auto simp: orphan_file_def Let_def split: if_splits)
  next
    case 2
    then obtain mt where mt: "meta = Some mt" "int (length b) \<ge> fileChunkMin" by (auto simp: is_large_def)
    then have "archivable z r F S (n, b) rest (large_chunk mt n b)"
      using sealed_row [of z r F S n b rest _ mt "large_chunk mt n b"] m by (auto simp: archivable_def large_chunk_def fileChunkMin_def)
    moreover have "batch_chunk (length (os_chunks s) \<ge> archiveBatchChunks) e r job kind (large_chunk mt n b) s = (x, s')"
      using f 2 mt by (simp add: orphan_file_def Let_def)
    ultimately show ?thesis using batch_sweeping [OF w] by blast
  next
    case 3
    obtain y s1 where f1: "flush_if (length (os_chunks s) \<ge> archiveBatchChunks \<or> (os_chunks s \<noteq> [] \<and> os_size s + int (length b) > archiveBatchBytes))
        e r job kind s = (y, s1)" by fastforce
    note F1 = flush_if_sweeping [OF w f1]
    obtain oc s2 where rc: "read_chunk z e r meta n b s1 = (oc, s2)" by fastforce
    consider "x \<noteq> None" "s' = s1" | "y = None" "oc = None" "x = None" "s' = s2"
      | c where "y = None" "oc = Some c"
        "batch_chunk (os_chunks s2 \<noteq> [] \<and> os_size s2 + int (length (ch_Blob c)) > archiveBatchBytes) e r job kind c s2 = (x, s')"
      using f 3 f1 rc by (auto simp: orphan_file_def Let_def split: option.splits if_splits)
    then show ?thesis
    proof cases
      case 1
      then show ?thesis using F1 by auto
    next
      case 2
      then have "sweeping z r F S rest s2 \<and> rb_index (os_rb s2) = rb_index (os_rb s1)"
        using read_sweeping [where r = r and F = F and S = S and rest = rest, OF en z _ m rc] F1 by simp
      then show ?thesis using 2 F1 sweeping_seen by auto
    next
      case (3 c)
      then have "rb_index (os_rb s2) = rb_index (os_rb s1)" "sweeping z r F S ((n, b) # rest) s2" "archivable z r F S (n, b) rest c"
        using read_sweeping [where r = r and F = F and S = S and rest = rest, OF en z _ m rc] F1 by simp_all
      then show ?thesis using batch_sweeping [OF _ _ 3(3)] F1 by (metis (full_types))
    qed
  qed
qed

section \<open>The sweep\<close>

lemma orphan_files_sweeping:
  assumes en: "encoder_ok en" and z: "z = en_zstd en" and m: "\<And>n m. map_of sealed n = Some m \<Longrightarrow> meta_ok F S m \<and> cm_Number m = n"
  shows "sweeping z r F S rest s \<Longrightarrow> orphan_files z e r job kind sealed rest s = (x, s') \<Longrightarrow>
    seen z r F S (os_archive s') (os_rb s') \<and> rb_index (os_rb s') = rb_index (os_rb s) \<and>
    (x = None \<longrightarrow> sweeping z r F S [] s' \<and> os_chunks s' = [])"
proof (induction rest arbitrary: s)
  case Nil
  then show ?case using flush_sweeping by simp
next
  case (Cons f rest)
  obtain n b where f: "f = (n, b)" by fastforce
  obtain y s1 where y: "orphan_file z e r job kind (map_of sealed n) n b s = (y, s1)" by fastforce
  note F1 = orphan_file_sweeping [OF en z Cons.prems(1) [unfolded f] m y]
  show ?case
  proof (cases y)
    case None
    then have "orphan_files z e r job kind sealed rest s1 = (x, s')" using Cons.prems(2) f y by simp
    then show ?thesis using Cons.IH [of s1] F1 None by auto
  next
    case (Some err)
    then show ?thesis using Cons.prems(2) f y F1 by auto
  qed
qed

text \<open>What a sweep starts from and leaves: what a reader sees, and an index that fits it.\<close>

definition orphaned :: "zstd \<Rightarrow> string \<Rightarrow> (int \<Rightarrow> frame list) \<Rightarrow> int set \<Rightarrow> orphan_state \<Rightarrow> bool" where
  "orphaned z r F S s \<longleftrightarrow> seen z r F S (os_archive s) (os_rb s) \<and> metas_ok F S (rb_index (os_rb s))"

lemma sweeping_start:
  assumes s: "seen z r F S (os_archive s) (os_rb s)" and c: "os_chunks s = []"
  shows "sweeping z r F S (chunkFiles (os_rb s)) s"
proof -
  have v: "log_view z (os_archive s) (os_rb s) r F" using s by (simp add: seen_def)
  have nums: "map fst (chunkFiles (os_rb s)) = sorted_list_of_set (file_set (os_rb s))" by (rule chunkFiles_numbers [OF v])
  have "map_of (rb_files (os_rb s)) (fst f) = Some (snd f)" if "f \<in> set (chunkFiles (os_rb s))" for f
    using that log_viewD(2) [OF v] by (auto simp: chunkFiles_def)
  moreover have "file_set (os_rb s) = fst ` set (chunkFiles (os_rb s))" using arg_cong [OF nums, of set] by simp
  moreover have "sorted_wrt (<) (map fst (chunkFiles (os_rb s)))" unfolding nums by (simp add: strict_sorted_iff)
  ultimately show ?thesis using s c by (simp add: sweeping_def)
qed

lemma seen_filter:
  assumes s: "seen z r F S a rb" and e: "\<forall>n\<in>file_set rb. F n = []"
  shows "seen z r F S a (rb\<lparr>rb_files := filter (\<lambda>f. P (fst f)) (rb_files rb)\<rparr>)"
proof -
  have drops: "rb_files (drop_files ns q) = filter (\<lambda>f. fst f \<notin> set ns) (rb_files q) \<and> rb_index (drop_files ns q) = rb_index q" for ns q
    by (induction ns arbitrary: q) (auto simp: drop_files_def drop_file_def intro!: filter_cong)
  let ?ns = "map fst (filter (\<lambda>f. \<not> P (fst f)) (rb_files rb))"
  have "filter (\<lambda>f. fst f \<notin> set ?ns) (rb_files rb) = filter (\<lambda>f. P (fst f)) (rb_files rb)" by (rule filter_cong) auto
  then have "drop_files ?ns rb = rb\<lparr>rb_files := filter (\<lambda>f. P (fst f)) (rb_files rb)\<rparr>"
    using drops [of ?ns rb] by simp
  moreover have "\<forall>n\<in>set ?ns. F n = []" using e by (auto simp: file_set_def)
  ultimately show ?thesis using seen_drops [OF s, of ?ns] by auto
qed

lemma readOrphan_metas:
  assumes "readOrphanIndex bad rb = Some (job, kind, sealed)" "metas_ok F S (rb_index rb)" "map_of sealed n = Some m"
  shows "meta_ok F S m \<and> cm_Number m = n"
  using assms by (auto simp: readOrphanIndex_def metas_ok_def split: if_splits option.splits dest!: map_of_SomeD)

lemma archiveOrphan_orphaned:
  assumes en: "encoder_ok en" and z: "z = en_zstd en" and o: "orphaned z r F S s" and ao: "archiveOrphan z e r s = (x, s')"
  shows "orphaned z r F S s' \<and> (x = None \<longrightarrow> rb_files (os_rb s') = [])"
proof (cases "readOrphanIndex (oe_badIndex e) (os_rb s)")
  case None
  then show ?thesis using o ao by (auto simp: archiveOrphan_def)
next
  case (Some ix)
  obtain job kind sealed where ix: "ix = (job, kind, sealed)" by (metis prod_cases3)
  let ?s0 = "s\<lparr>os_chunks := [], os_size := 0, os_corrupt := 0, os_quarantined := 0\<rparr>"
  have mo: "metas_ok F S (rb_index (os_rb s))" and sn: "seen z r F S (os_archive s) (os_rb s)" using o by (simp_all add: orphaned_def)
  have w: "sweeping z r F S (chunkFiles (os_rb s)) ?s0" using sweeping_start [of z r F S ?s0] sn by simp
  obtain y s1 where y: "orphan_files z e r job kind sealed (chunkFiles (os_rb s)) ?s0 = (y, s1)" by fastforce
  have m: "map_of sealed n = Some mt \<Longrightarrow> meta_ok F S mt \<and> cm_Number mt = n" for n mt
    using readOrphan_metas [OF _ mo] Some ix by blast
  note F1 = orphan_files_sweeping [OF en z m w y]
  have m1: "metas_ok F S (rb_index (os_rb s1))" using F1 mo by simp
  show ?thesis
  proof (cases "y = None \<and> os_corrupt s1 = 0")
    case False
    then have "x \<noteq> None \<and> s' = s1" using ao Some ix y by (auto simp: archiveOrphan_def split: option.splits)
    then show ?thesis using F1 m1 by (auto simp: orphaned_def)
  next
    case True
    have e: "\<forall>n\<in>file_set (os_rb s1). F n = []" and s1: "seen z r F S (os_archive s1) (os_rb s1)"
      using F1 True by (auto simp: sweeping_def)
    have gone: "seen z r F S (os_archive s1) \<lparr>rb_files = filter (\<lambda>f. P (fst f)) (rb_files (os_rb s1)), rb_index = i\<rparr>"
      if "i = rb_index (os_rb s1) \<or> i = None" for P i
      using seen_index [OF seen_filter [OF s1 e, of P], of i] that by (cases "os_rb s1") simp
    have "seen z r F S (os_archive s1) \<lparr>rb_files = [], rb_index = None\<rparr>" using gone [of None "\<lambda>_. False"] by simp
    then show ?thesis
      using ao Some ix y True gone m1 by (auto simp: archiveOrphan_def orphaned_def metas_ok_def split: if_splits)
  qed
qed

section \<open>Properties\<close>

text \<open>Sweeps one after the other, each with its own failures; the last result.\<close>

fun sweeps :: "zstd \<Rightarrow> string \<Rightarrow> orphan_env list \<Rightarrow> orphan_state \<Rightarrow> orphan_state" where
  "sweeps z r [] s = s"
| "sweeps z r (e # es) s = sweeps z r es (snd (archiveOrphan z e r s))"

lemma sweeps_orphaned:
  assumes "encoder_ok en" "z = en_zstd en"
  shows "orphaned z r F S s \<Longrightarrow> orphaned z r F S (sweeps z r es s)"
proof (induction es arbitrary: s)
  case (Cons e es)
  obtain x s1 where s1: "archiveOrphan z e r s = (x, s1)" by fastforce
  then show ?case using Cons archiveOrphan_orphaned [OF assms Cons.prems s1] by simp
qed simp

definition abandoned :: "writer \<times> archive \<Rightarrow> orphan_state" where
  "abandoned s = \<lparr>os_rb = w_dir (fst s), os_archive = snd s, os_quarantine = [], os_chunks = [], os_size = 0, os_corrupt = 0,
     os_quarantined = 0\<rparr>"


text \<open>A run with two sealed lines and an open chunk without any; the first sweep fails to remove what it archived, the
  second succeeds.\<close>

definition crash_ops :: "log_op list" where
  "crash_ops = [Line Stdout (bytes_of ''hi'') 0 (line_at 10), SealNow (works 50),
     Line Stderr (bytes_of ''oh'') 0 (line_at 12), SealNow (works 50)]"

definition crash_run :: "bool \<times> writer \<times> archive" where
  "crash_run = log_run plain_cfg ''r'' crash_ops (sample_writer, sample_archive)"

definition sweep_env :: "bool \<Rightarrow> orphan_env" where
  "sweep_env ok = \<lparr>oe_badIndex = False, oe_ctx = (\<lambda>_. False), oe_stat = (\<lambda>_. True), oe_read = (\<lambda>_. True), oe_preserve = (\<lambda>_. True),
     oe_remove = (\<lambda>_. True), oe_flush = (\<lambda>_. \<lparr>fl_ctx = False, fl_queued = (\<lambda>_. True), fl_sync = True, fl_now = from_micro 20,
       fl_put = Committed, fl_place = ae_place (archive_at 20), fl_remove = (\<lambda>_. ok)\<rparr>), oe_removeAll = True, oe_stuck = (\<lambda>_. False)\<rparr>"

definition crash_state :: orphan_state where
  "crash_state = sweeps plain_zstd ''r'' [sweep_env False] (abandoned (snd crash_run))"

lemma crash_ok: "fst crash_run" "\<not> w_truncated (fst (snd crash_run))"
  "fst (archiveOrphan plain_zstd (sweep_env True) ''r'' crash_state) = None" "length (rb_files (os_rb crash_state)) = 3"
  by code_simp+


end
