(* ===== verification/Read_Gate.thy ===== *)
theory Read_Gate
  imports Prelude
begin

text \<open>
  The admission gate of expensive reads, \<^verbatim>\<open>readGate\<close> of \<^verbatim>\<open>src/internal/api/readlimit.go\<close>: slots, a byte
  budget, a cap for downloads and a bounded number of waiting requests.

  A request takes the mutex for each pass of its loop, for leaving the queue and for releasing what it
  holds; these critical sections interleave in \<open>gate_step\<close>. The channel \<^verbatim>\<open>changed\<close> is a number that grows
  when it is closed and replaced: a request waits for the channel it saw, which is closed once the number is
  greater. When the timer fires or the client goes away is left open.
\<close>

section \<open>The gate\<close>

definition DefaultReadSlots :: int where "DefaultReadSlots = 4"
definition DefaultReadBudgetBytes :: int where "DefaultReadBudgetBytes = 33554432"
definition logPageCost :: int where "logPageCost = 4194304"
definition rawPageCost :: int where "rawPageCost = 4194304"
definition metricsCost :: int where "metricsCost = 8388608"
definition readAdmitWait :: duration where "readAdmitWait = 500 * Millisecond"

record readGate =
  g_slots :: int
  g_budget :: int
  g_maxWaiters :: int
  g_maxDownloads :: int
  g_inflight :: int
  g_downloads :: int
  g_bytes :: int
  g_waiting :: int
  g_changed :: nat
  g_peakBytes :: int
  g_peakInflight :: int

definition newReadGate :: "int \<Rightarrow> int \<Rightarrow> readGate" where
  "newReadGate slots budget =
     (let s = (if slots \<le> 0 then DefaultReadSlots else slots);
          b = (if budget \<le> 0 then DefaultReadBudgetBytes else budget)
      in \<lparr>g_slots = s, g_budget = b, g_maxWaiters = 4 * s, g_maxDownloads = max 1 (s - 1), g_inflight = 0, g_downloads = 0,
          g_bytes = 0, g_waiting = 0, g_changed = 0, g_peakBytes = 0, g_peakInflight = 0\<rparr>)"

definition has_room :: "int \<Rightarrow> readGate \<Rightarrow> bool" where
  "has_room cost g \<longleftrightarrow> g_inflight g < g_slots g \<and> (g_inflight g = 0 \<or> g_bytes g + cost \<le> g_budget g)"

text \<open>One pass of the loop of \<^verbatim>\<open>acquireKind\<close>, from \<^verbatim>\<open>Lock\<close> to \<^verbatim>\<open>Unlock\<close>.\<close>

datatype attempt = Admitted | Busy | WaitFor nat

definition acquireKind :: "bool \<Rightarrow> int \<Rightarrow> duration \<Rightarrow> bool \<Rightarrow> readGate \<Rightarrow> attempt \<times> readGate" where
  "acquireKind waiting cost wait download g =
     (let g1 = (if waiting then g\<lparr>g_waiting := g_waiting g - 1\<rparr> else g)
      in if download \<and> g_downloads g1 \<ge> g_maxDownloads g1 then (Busy, g1)
         else if has_room cost g1 then
           (Admitted, g1\<lparr>g_inflight := g_inflight g1 + 1, g_downloads := g_downloads g1 + (if download then 1 else 0),
              g_bytes := g_bytes g1 + cost, g_peakBytes := max (g_peakBytes g1) (g_bytes g1 + cost),
              g_peakInflight := max (g_peakInflight g1) (g_inflight g1 + 1)\<rparr>)
         else if wait \<le> 0 \<or> g_waiting g1 \<ge> g_maxWaiters g1 then (Busy, g1)
         else (WaitFor (g_changed g1), g1\<lparr>g_waiting := g_waiting g1 + 1\<rparr>))"

text \<open>Leaving the queue, and the function \<^verbatim>\<open>acquireKind\<close> returns.\<close>

definition stop_waiting :: "readGate \<Rightarrow> readGate" where
  "stop_waiting g = g\<lparr>g_waiting := g_waiting g - 1\<rparr>"

definition release :: "int \<Rightarrow> bool \<Rightarrow> readGate \<Rightarrow> readGate" where
  "release cost download g = g\<lparr>g_inflight := g_inflight g - 1, g_downloads := g_downloads g - (if download then 1 else 0),
     g_bytes := g_bytes g - cost, g_changed := Suc (g_changed g)\<rparr>"

section \<open>Requests\<close>

text \<open>The handlers that use the gate.\<close>

datatype read_kind = LogPage | RawDownload | Metrics | Monitor

datatype read_phase = Trying bool | Waiting nat | Holding | Refused | Canceled | Released

record read_req =
  rq_cost :: int
  rq_wait :: duration
  rq_download :: bool
  rq_phase :: read_phase

definition new_read :: "read_kind \<Rightarrow> read_req" where
  "new_read k = (case k of
      LogPage \<Rightarrow> \<lparr>rq_cost = logPageCost, rq_wait = readAdmitWait, rq_download = False, rq_phase = Trying False\<rparr>
    | RawDownload \<Rightarrow> \<lparr>rq_cost = rawPageCost, rq_wait = readAdmitWait, rq_download = True, rq_phase = Trying False\<rparr>
    | Metrics \<Rightarrow> \<lparr>rq_cost = metricsCost, rq_wait = readAdmitWait, rq_download = False, rq_phase = Trying False\<rparr>
    | Monitor \<Rightarrow> \<lparr>rq_cost = 1048576, rq_wait = 0, rq_download = False, rq_phase = Trying False\<rparr>)"

definition phase_after :: "attempt \<Rightarrow> read_phase" where
  "phase_after a = (case a of Admitted \<Rightarrow> Holding | Busy \<Rightarrow> Refused | WaitFor n \<Rightarrow> Waiting n)"

definition set_phase :: "nat \<Rightarrow> read_phase \<Rightarrow> read_req list \<Rightarrow> read_req list" where
  "set_phase i p qs = qs[i := (qs ! i)\<lparr>rq_phase := p\<rparr>]"

type_synonym gate_state = "readGate \<times> read_req list"

inductive gate_step :: "gate_state \<Rightarrow> gate_state \<Rightarrow> bool" where
  arrive: "gate_step (g, qs) (g, qs @ [new_read k])"
| attempt: "i < length qs \<Longrightarrow> q = qs ! i \<Longrightarrow> rq_phase q = Trying w \<Longrightarrow>
    acquireKind w (rq_cost q) (rq_wait q) (rq_download q) g = (a, g') \<Longrightarrow> gate_step (g, qs) (g', set_phase i (phase_after a) qs)"
| wake: "i < length qs \<Longrightarrow> rq_phase (qs ! i) = Waiting n \<Longrightarrow> n < g_changed g \<Longrightarrow> gate_step (g, qs) (g, set_phase i (Trying True) qs)"
| timeout: "i < length qs \<Longrightarrow> rq_phase (qs ! i) = Waiting n \<Longrightarrow> gate_step (g, qs) (stop_waiting g, set_phase i Refused qs)"
| gone: "i < length qs \<Longrightarrow> rq_phase (qs ! i) = Waiting n \<Longrightarrow> gate_step (g, qs) (stop_waiting g, set_phase i Canceled qs)"
| leave: "i < length qs \<Longrightarrow> q = qs ! i \<Longrightarrow> rq_phase q = Holding \<Longrightarrow>
    gate_step (g, qs) (release (rq_cost q) (rq_download q) g, set_phase i Released qs)"

definition gate_start :: "int \<Rightarrow> int \<Rightarrow> gate_state \<Rightarrow> bool" where
  "gate_start slots budget s \<longleftrightarrow> s = (newReadGate slots budget, [])"

section \<open>Invariant\<close>

definition total :: "(read_req \<Rightarrow> int) \<Rightarrow> read_req list \<Rightarrow> int" where
  "total f qs = sum_list (map f qs)"

definition holds :: "read_req \<Rightarrow> int" where "holds q = (if rq_phase q = Holding then 1 else 0)"
definition held_bytes :: "read_req \<Rightarrow> int" where "held_bytes q = (if rq_phase q = Holding then rq_cost q else 0)"
definition held_download :: "read_req \<Rightarrow> int" where "held_download q = (if rq_phase q = Holding \<and> rq_download q then 1 else 0)"
definition queued_read :: "read_req \<Rightarrow> int" where
  "queued_read q = (case rq_phase q of Waiting n \<Rightarrow> 1 | Trying w \<Rightarrow> (if w then 1 else 0) | _ \<Rightarrow> 0)"

definition gate_inv :: "int \<Rightarrow> int \<Rightarrow> gate_state \<Rightarrow> bool" where
  "gate_inv slots budget s \<longleftrightarrow> (case s of (g, qs) \<Rightarrow>
     g_slots g = g_slots (newReadGate slots budget) \<and> g_budget g = g_budget (newReadGate slots budget) \<and>
     g_maxWaiters g = 4 * g_slots g \<and> g_maxDownloads g = max 1 (g_slots g - 1) \<and>
     g_inflight g = total holds qs \<and> g_bytes g = total held_bytes qs \<and> g_downloads g = total held_download qs \<and>
     g_waiting g = total queued_read qs \<and> g_inflight g \<le> g_slots g \<and> (g_bytes g \<le> g_budget g \<or> g_inflight g \<le> 1) \<and>
     g_downloads g \<le> g_maxDownloads g \<and> g_waiting g \<le> g_maxWaiters g \<and> (\<forall>q\<in>set qs. 0 \<le> rq_cost q \<and> (rq_download q \<longrightarrow> rq_cost q = rawPageCost)) \<and>
     (\<forall>q\<in>set qs. \<forall>n. rq_phase q = Waiting n \<longrightarrow> n \<le> g_changed g \<and> (n = g_changed g \<longrightarrow> \<not> has_room (rq_cost q) g)) \<and>
     g_peakInflight g \<le> g_slots g)"

lemma total_set_phase:
  assumes "i < length qs"
  shows "total f (set_phase i p qs) = total f qs - f (qs ! i) + f ((qs ! i)\<lparr>rq_phase := p\<rparr>)"
proof -
  have "total f qs = total f (take i qs) + f (qs ! i) + total f (drop (Suc i) qs)"
    using arg_cong [OF id_take_nth_drop [OF assms], of "total f"] by (simp add: total_def)
  moreover have "total f (set_phase i p qs) = total f (take i qs) + f ((qs ! i)\<lparr>rq_phase := p\<rparr>) + total f (drop (Suc i) qs)"
    using assms by (simp add: total_def set_phase_def upd_conv_take_nth_drop)
  ultimately show ?thesis by simp
qed

lemma total_nonneg: "(\<And>q. q \<in> set qs \<Longrightarrow> 0 \<le> f q) \<Longrightarrow> 0 \<le> total f qs"
  unfolding total_def by (induction qs) auto

lemma set_set_phase: "q \<in> set (set_phase i p qs) \<Longrightarrow> i < length qs \<Longrightarrow> q \<in> set qs \<or> q = (qs ! i)\<lparr>rq_phase := p\<rparr>"
  unfolding set_phase_def using set_update_subset_insert by fastforce

lemmas tallies = holds_def held_bytes_def held_download_def queued_read_def

lemma gate_invD:
  assumes "gate_inv slots budget (g, qs)"
  shows "g_slots g = g_slots (newReadGate slots budget)" "g_budget g = g_budget (newReadGate slots budget)"
    "g_maxWaiters g = 4 * g_slots g" "g_maxDownloads g = max 1 (g_slots g - 1)" "g_inflight g = total holds qs"
    "g_bytes g = total held_bytes qs" "g_downloads g = total held_download qs" "g_waiting g = total queued_read qs"
    "g_inflight g \<le> g_slots g" "g_bytes g \<le> g_budget g \<or> g_inflight g \<le> 1" "g_downloads g \<le> g_maxDownloads g"
    "g_waiting g \<le> g_maxWaiters g" "q \<in> set qs \<Longrightarrow> 0 \<le> rq_cost q"
    "q \<in> set qs \<Longrightarrow> rq_phase q = Waiting n \<Longrightarrow> n \<le> g_changed g"
    "q \<in> set qs \<Longrightarrow> rq_phase q = Waiting (g_changed g) \<Longrightarrow> \<not> has_room (rq_cost q) g" "g_peakInflight g \<le> g_slots g" "0 \<le> g_inflight g"
    "q \<in> set qs \<Longrightarrow> rq_download q \<Longrightarrow> rq_cost q = rawPageCost"
proof -
  have "0 \<le> total holds qs" by (rule total_nonneg) (simp add: holds_def)
  then show "0 \<le> g_inflight g" using assms by (simp add: gate_inv_def)
qed (use assms in \<open>auto simp: gate_inv_def\<close>)

text \<open>A step of one request keeps the invariant, if it keeps the counts and the limits and wakes everyone when
  there may be room.\<close>

lemma gate_inv_phase:
  assumes inv: "gate_inv slots budget (g, qs)" and i: "i < length qs" "q = qs ! i"
    and lim: "g_slots g' = g_slots g" "g_budget g' = g_budget g" "g_maxWaiters g' = g_maxWaiters g" "g_maxDownloads g' = g_maxDownloads g"
    and cnt: "g_inflight g' = g_inflight g - holds q + holds (q\<lparr>rq_phase := p\<rparr>)"
      "g_bytes g' = g_bytes g - held_bytes q + held_bytes (q\<lparr>rq_phase := p\<rparr>)"
      "g_downloads g' = g_downloads g - held_download q + held_download (q\<lparr>rq_phase := p\<rparr>)"
      "g_waiting g' = g_waiting g - queued_read q + queued_read (q\<lparr>rq_phase := p\<rparr>)"
    and ok: "g_inflight g' \<le> g_slots g" "g_bytes g' \<le> g_budget g \<or> g_inflight g' \<le> 1" "g_downloads g' \<le> g_maxDownloads g"
      "g_waiting g' \<le> g_maxWaiters g" "g_peakInflight g' \<le> g_slots g"
    and chan: "g_changed g \<le> g_changed g'" "\<And>cost. g_changed g' = g_changed g \<Longrightarrow> has_room cost g' \<Longrightarrow> has_room cost g"
    and own: "\<And>n. p = Waiting n \<Longrightarrow> n \<le> g_changed g' \<and> (n = g_changed g' \<longrightarrow> \<not> has_room (rq_cost q) g')"
  shows "gate_inv slots budget (g', set_phase i p qs)"
proof -
  note D = gate_invD [OF inv]
  have mem: "x \<in> set qs \<or> x = q\<lparr>rq_phase := p\<rparr>" if "x \<in> set (set_phase i p qs)" for x
    using set_set_phase [OF that i(1)] i(2) by simp
  have q: "q \<in> set qs" using i by simp
  have cost: "0 \<le> rq_cost x \<and> (rq_download x \<longrightarrow> rq_cost x = rawPageCost)" if "x \<in> set (set_phase i p qs)" for x
    using mem [OF that] D(13) D(18) q by auto
  have "n \<le> g_changed g' \<and> (n = g_changed g' \<longrightarrow> \<not> has_room (rq_cost x) g')" if x: "x \<in> set (set_phase i p qs)" "rq_phase x = Waiting n" for x n
    using mem [OF x(1)]
  proof
    assume m: "x \<in> set qs"
    have le: "n \<le> g_changed g" using D(14) [OF m x(2)] .
    show ?thesis
    proof (intro conjI impI)
      show "n \<le> g_changed g'" using le chan(1) by simp
      assume n: "n = g_changed g'"
      then have e: "g_changed g' = g_changed g" using le chan(1) by simp
      then show "\<not> has_room (rq_cost x) g'" using chan(2) [OF e] D(15) [OF m] x(2) n by auto
    qed
  next
    assume "x = q\<lparr>rq_phase := p\<rparr>"
    then show ?thesis using own [of n] x(2) by simp
  qed
  then show ?thesis
    using D(1-8) lim cnt ok cost i unfolding gate_inv_def by (simp add: total_set_phase)
qed

lemma new_read_cost:
  "0 \<le> rq_cost (new_read k)" "rq_phase (new_read k) = Trying False" "rq_download (new_read k) \<longrightarrow> rq_cost (new_read k) = rawPageCost"
  by (cases k; simp add: new_read_def logPageCost_def rawPageCost_def metricsCost_def)+

lemma acquire_cases:
  assumes a: "acquireKind w cost wait dl g = (a, g')" and g1: "g1 = (if w then g\<lparr>g_waiting := g_waiting g - 1\<rparr> else g)"
  obtains (busy) "a = Busy" "g' = g1"
    | (admitted) "a = Admitted" "has_room cost g1" "dl \<longrightarrow> g_downloads g1 < g_maxDownloads g1"
      "g' = g1\<lparr>g_inflight := g_inflight g1 + 1, g_downloads := g_downloads g1 + (if dl then 1 else 0),
         g_bytes := g_bytes g1 + cost, g_peakBytes := max (g_peakBytes g1) (g_bytes g1 + cost),
         g_peakInflight := max (g_peakInflight g1) (g_inflight g1 + 1)\<rparr>"
    | (wait) "a = WaitFor (g_changed g1)" "\<not> has_room cost g1" "g_waiting g1 < g_maxWaiters g1"
      "g' = g1\<lparr>g_waiting := g_waiting g1 + 1\<rparr>"
proof -
  let ?full = "dl \<and> g_downloads g1 \<ge> g_maxDownloads g1" and ?stop = "wait \<le> 0 \<or> g_waiting g1 \<ge> g_maxWaiters g1"
  note res = a [unfolded acquireKind_def Let_def g1 [symmetric]]
  show thesis
  proof (cases "?full \<or> (\<not> has_room cost g1 \<and> ?stop)")
    case True
    then have "a = Busy" "g' = g1" using res by (auto split: if_splits)
    then show thesis by (rule busy)
  next
    case False
    then have nf: "\<not> ?full" by simp
    show thesis
    proof (cases "has_room cost g1")
      case True
      have "a = Admitted \<and> g' = g1\<lparr>g_inflight := g_inflight g1 + 1, g_downloads := g_downloads g1 + (if dl then 1 else 0),
          g_bytes := g_bytes g1 + cost, g_peakBytes := max (g_peakBytes g1) (g_bytes g1 + cost),
          g_peakInflight := max (g_peakInflight g1) (g_inflight g1 + 1)\<rparr>"
        using res unfolding if_not_P [OF nf] if_P [OF True] by simp
      then show thesis using admitted True nf by linarith
    next
      case no: False
      have ns: "\<not> ?stop" using False no by simp
      have "a = WaitFor (g_changed g1) \<and> g' = g1\<lparr>g_waiting := g_waiting g1 + 1\<rparr>"
        using res unfolding if_not_P [OF nf] if_not_P [OF no] if_not_P [OF ns] by simp
      then show thesis using wait no ns by linarith
    qed
  qed
qed

lemma attempt_inv:
  assumes inv: "gate_inv slots budget (g, qs)" and i: "i < length qs" "q = qs ! i" and ph: "rq_phase q = Trying w"
    and a: "acquireKind w (rq_cost q) (rq_wait q) (rq_download q) g = (a, g')"
  shows "gate_inv slots budget (g', set_phase i (phase_after a) qs)"
proof -
  note D = gate_invD [OF inv]
  have c: "0 \<le> rq_cost q" using D(13) i by simp
  define g1 where "g1 = (if w then g\<lparr>g_waiting := g_waiting g - 1\<rparr> else g)"
  have g1: "g_slots g1 = g_slots g" "g_budget g1 = g_budget g" "g_maxWaiters g1 = g_maxWaiters g" "g_maxDownloads g1 = g_maxDownloads g"
    "g_inflight g1 = g_inflight g" "g_bytes g1 = g_bytes g" "g_downloads g1 = g_downloads g" "g_changed g1 = g_changed g"
    "g_peakInflight g1 = g_peakInflight g" "g_waiting g1 = g_waiting g - queued_read q" "g_waiting g1 \<le> g_waiting g"
    using ph by (simp_all add: g1_def queued_read_def)
  have room: "has_room k g1 = has_room k g" for k by (simp add: has_room_def g1)
  from a g1_def show ?thesis
  proof (cases rule: acquire_cases)
    case busy
    then have g': "g' = g1" "phase_after a = Refused" by (simp_all add: phase_after_def)
    show ?thesis unfolding g'
      by (rule gate_inv_phase [OF inv i]) (use g1 room D(9-12,16) ph in \<open>simp_all add: tallies\<close>)
  next
    case admitted
    have r: "g_inflight g < g_slots g" "g_inflight g = 0 \<or> g_bytes g + rq_cost q \<le> g_budget g" "rq_download q \<longrightarrow> g_downloads g < g_maxDownloads g"
      using admitted(2,3) g1 unfolding room by (simp_all add: has_room_def)
    have h: "phase_after a = Holding" using admitted(1) by (simp add: phase_after_def)
    have f: "g_slots g' = g_slots g" "g_budget g' = g_budget g" "g_maxWaiters g' = g_maxWaiters g" "g_maxDownloads g' = g_maxDownloads g"
      "g_inflight g' = g_inflight g + 1" "g_bytes g' = g_bytes g + rq_cost q" "g_downloads g' = g_downloads g + (if rq_download q then 1 else 0)"
      "g_waiting g' = g_waiting g - queued_read q" "g_changed g' = g_changed g" "g_peakInflight g' = max (g_peakInflight g) (g_inflight g + 1)"
      unfolding admitted(4) by (simp_all add: g1)
    have less: "has_room k g' \<Longrightarrow> has_room k g" for k using D(17) c by (auto simp: has_room_def f)
    show ?thesis unfolding h
      by (rule gate_inv_phase [OF inv i]) (use r less D(9-12,16,17) ph in \<open>auto simp: tallies f\<close>)
  next
    case wait
    have h: "phase_after a = Waiting (g_changed g)" using wait(1) g1 by (simp add: phase_after_def)
    have f: "g_slots g' = g_slots g" "g_budget g' = g_budget g" "g_maxWaiters g' = g_maxWaiters g" "g_maxDownloads g' = g_maxDownloads g"
      "g_inflight g' = g_inflight g" "g_bytes g' = g_bytes g" "g_downloads g' = g_downloads g"
      "g_waiting g' = g_waiting g - queued_read q + 1" "g_changed g' = g_changed g" "g_peakInflight g' = g_peakInflight g"
      "g_waiting g' \<le> g_maxWaiters g"
      using wait(3) unfolding wait(4) by (simp_all add: g1)
    have less: "has_room k g' = has_room k g" for k by (simp add: has_room_def f)
    have no: "\<not> has_room (rq_cost q) g" using wait(2) room by simp
    show ?thesis unfolding h
      by (rule gate_inv_phase [OF inv i]) (use no less D(9-12,16) ph f(11) in \<open>simp_all add: tallies f(1-10)\<close>)
  qed
qed

lemma gate_step_inv:
  assumes "gate_inv slots budget s" "gate_step s t"
  shows "gate_inv slots budget t"
  using assms(2,1)
proof cases
  case (arrive g qs k)
  note D = gate_invD [OF assms(1) [unfolded arrive]]
  show ?thesis
    using D(1-12,16) D(13) D(14) D(15) D(18) new_read_cost [of k] unfolding arrive gate_inv_def
    by (auto simp: total_def tallies)
next
  case (attempt i qs q w g a g')
  then show ?thesis using attempt_inv assms(1) by blast
next
  case (wake i qs n g)
  note inv = assms(1) [unfolded wake(1)]
  show ?thesis unfolding wake(2)
    by (rule gate_inv_phase [OF inv wake(3) refl]) (use wake gate_invD(9-12,16) [OF inv] in \<open>auto simp: tallies\<close>)
next
  case (timeout i qs n g)
  note inv = assms(1) [unfolded timeout(1)]
  show ?thesis unfolding timeout(2)
    by (rule gate_inv_phase [OF inv timeout(3) refl])
      (use timeout gate_invD(9-12,16) [OF inv] in \<open>auto simp: tallies stop_waiting_def has_room_def\<close>)
next
  case (gone i qs n g)
  note inv = assms(1) [unfolded gone(1)]
  show ?thesis unfolding gone(2)
    by (rule gate_inv_phase [OF inv gone(3) refl])
      (use gone gate_invD(9-12,16) [OF inv] in \<open>auto simp: tallies stop_waiting_def has_room_def\<close>)
next
  case (leave i qs q g)
  note inv = assms(1) [unfolded leave(1)]
  note D = gate_invD [OF inv]
  have "0 \<le> rq_cost q" using D(13) leave by simp
  then show ?thesis unfolding leave(2)
    by (intro gate_inv_phase [OF inv leave(3,4)]) (use leave D(9-12,16) in \<open>auto simp: tallies release_def\<close>)
qed

interpretation gate: invariant_system "gate_start slots budget" gate_step "gate_inv slots budget"
proof
  show "gate_inv slots budget s" if "gate_start slots budget s" for s
    using that by (simp add: gate_start_def gate_inv_def newReadGate_def Let_def total_def DefaultReadSlots_def DefaultReadBudgetBytes_def max_def)
qed (rule gate_step_inv)

section \<open>Properties\<close>

lemma total_filter:
  "total holds qs = int (length (filter (\<lambda>q. rq_phase q = Holding) qs))"
  "total held_bytes qs = sum_list (map rq_cost (filter (\<lambda>q. rq_phase q = Holding) qs))"
  "total held_download qs = int (length (filter (\<lambda>q. rq_phase q = Holding \<and> rq_download q) qs))"
  "total queued_read qs = int (length (filter (\<lambda>q. queued_read q = 1) qs))"
  by (induction qs) (simp_all add: total_def tallies split: read_phase.split)

text \<open>C38: the gate counts exactly and keeps its limits. After any interleaving of requests arriving, trying, waking,
  timing out, going away and finishing, the counters are the requests that hold a slot, their estimated bytes, the
  downloads among them and the requests in the queue; there are never more of them than slots, nor more downloads than one less than the
  slots (but one is always allowed), nor more waiting requests than four per slot; and the byte budget is
  only exceeded by a request that runs alone.\<close>

theorem read_gate_exact:
  assumes r: "reachable (gate_start slots budget) gate_step (g, qs)"
  shows "g_inflight g = int (length (filter (\<lambda>q. rq_phase q = Holding) qs)) \<and>
    g_bytes g = sum_list (map rq_cost (filter (\<lambda>q. rq_phase q = Holding) qs)) \<and>
    g_downloads g = int (length (filter (\<lambda>q. rq_phase q = Holding \<and> rq_download q) qs)) \<and>
    g_waiting g = int (length (filter (\<lambda>q. queued_read q = 1) qs)) \<and>
    g_inflight g \<le> g_slots (newReadGate slots budget) \<and> g_downloads g \<le> max 1 (g_slots (newReadGate slots budget) - 1) \<and>
    g_waiting g \<le> 4 * g_slots (newReadGate slots budget) \<and>
    (g_bytes g \<le> g_budget (newReadGate slots budget) \<or> g_inflight g \<le> 1)"
  using gate_invD [OF gate.reachable_inv [OF r]] by (simp add: total_filter)

lemma acquire_admits:
  assumes "has_room cost g" "dl \<longrightarrow> g_downloads g < g_maxDownloads g"
  shows "fst (acquireKind w cost wait dl g) = Admitted"
  using assms by (auto simp: acquireKind_def has_room_def Let_def)

lemma only_downloads:
  assumes "\<forall>q\<in>set qs. rq_phase q = Holding \<longrightarrow> rq_download q \<and> rq_cost q = rawPageCost"
  shows "total held_bytes qs = total holds qs * rawPageCost \<and> total holds qs = total held_download qs"
  using assms by (induction qs) (auto simp: total_def tallies algebra_simps)

text \<open>C39: no request is stranded. A waiting request for which there is room has a closed channel, so that it wakes,
  and the pass it then makes admits it (unless it is a download and the cap of downloads is reached); a gate that
  nobody uses admits every request; and with more than one slot, downloads alone never keep another read
  out, provided the byte budget covers one read less than the slots at a download's cost and the new one.\<close>

theorem read_gate_progress:
  assumes r: "reachable (gate_start slots budget) gate_step (g, qs)"
  shows "(i < length qs \<and> rq_phase (qs ! i) = Waiting n \<and> has_room (rq_cost (qs ! i)) g \<longrightarrow>
       gate_step (g, qs) (g, set_phase i (Trying True) qs) \<and>
       ((rq_download (qs ! i) \<longrightarrow> g_downloads g < g_maxDownloads g) \<longrightarrow>
         fst (acquireKind True (rq_cost (qs ! i)) (rq_wait (qs ! i)) (rq_download (qs ! i)) g) = Admitted)) \<and>
    (g_inflight g = 0 \<longrightarrow> fst (acquireKind w cost wait dl g) = Admitted) \<and>
    ((\<forall>q\<in>set qs. rq_phase q = Holding \<longrightarrow> rq_download q) \<and> 1 < g_slots g \<and>
       (g_slots g - 1) * rawPageCost + cost \<le> g_budget g \<longrightarrow> fst (acquireKind w cost wait False g) = Admitted)"
proof -
  note D = gate_invD [OF gate.reachable_inv [OF r]]
  have slots: "0 < g_slots g" unfolding D(1) by (simp add: newReadGate_def Let_def DefaultReadSlots_def)
  have wake: "n < g_changed g" if "i < length qs" "rq_phase (qs ! i) = Waiting n" "has_room (rq_cost (qs ! i)) g"
  proof -
    have m: "qs ! i \<in> set qs" using that by simp
    have "n \<le> g_changed g" "n \<noteq> g_changed g" using D(14) [OF m that(2)] D(15) [OF m] that by auto
    then show ?thesis by simp
  qed
  have idle: "fst (acquireKind w cost wait dl g) = Admitted" if z: "g_inflight g = 0"
  proof -
    have "total held_download qs \<le> total holds qs" by (induction qs) (auto simp: total_def tallies)
    then have "g_downloads g < g_maxDownloads g" using z D(4,5,7) by simp
    then show ?thesis using z slots by (intro acquire_admits) (simp_all add: has_room_def)
  qed
  have busy: "fst (acquireKind w cost wait False g) = Admitted"
    if d: "\<forall>q\<in>set qs. rq_phase q = Holding \<longrightarrow> rq_download q" "1 < g_slots g" "(g_slots g - 1) * rawPageCost + cost \<le> g_budget g"
  proof -
    have "\<forall>q\<in>set qs. rq_phase q = Holding \<longrightarrow> rq_download q \<and> rq_cost q = rawPageCost" using d(1) D(18) by blast
    from only_downloads [OF this] have b: "g_bytes g = g_inflight g * rawPageCost" "g_inflight g = g_downloads g" using D(5-7) by simp_all
    then have le: "g_inflight g \<le> g_slots g - 1" using D(4,11) d(2) by simp
    then have "g_bytes g \<le> (g_slots g - 1) * rawPageCost" unfolding b(1) by (intro mult_right_mono) (simp_all add: rawPageCost_def)
    then show ?thesis using le d by (intro acquire_admits) (simp_all add: has_room_def)
  qed
  show ?thesis using wake gate_step.wake [of i qs n g] idle busy acquire_admits [of "rq_cost (qs ! i)" g "rq_download (qs ! i)"] by blast
qed

text \<open>A gate with one slot: a log page holds it, a second one waits for it, and then the first is done.\<close>

definition do_attempt :: "nat \<Rightarrow> gate_state \<Rightarrow> gate_state" where
  "do_attempt i s =
     (let q = snd s ! i; r = acquireKind (rq_phase q = Trying True) (rq_cost q) (rq_wait q) (rq_download q) (fst s)
      in (snd r, set_phase i (phase_after (fst r)) (snd s)))"

lemma do_attempt_step:
  assumes "i < length (snd s)" "rq_phase (snd s ! i) = Trying w"
  shows "gate_step s (do_attempt i s)"
proof -
  let ?q = "snd s ! i"
  have "gate_step (fst s, snd s) (snd (acquireKind w (rq_cost ?q) (rq_wait ?q) (rq_download ?q) (fst s)),
      set_phase i (phase_after (fst (acquireKind w (rq_cost ?q) (rq_wait ?q) (rq_download ?q) (fst s)))) (snd s))"
    using assms by (intro gate_step.attempt) auto
  then show ?thesis using assms by (simp add: do_attempt_def Let_def)
qed

definition first_in :: gate_state where
  "first_in = do_attempt 0 (newReadGate 1 0, [new_read LogPage])"

definition second_waits :: gate_state where
  "second_waits = do_attempt 1 (fst first_in, snd first_in @ [new_read LogPage])"

definition first_done :: gate_state where
  "first_done = (release logPageCost False (fst second_waits), set_phase 0 Released (snd second_waits))"

lemma reach_second_waits: "reachable (gate_start 1 0) gate_step (fst second_waits, snd second_waits)"
proof -
  have "reachable (gate_start 1 0) gate_step (newReadGate 1 0, [])" by (rule reachable_start) (simp add: gate_start_def)
  then have "reachable (gate_start 1 0) gate_step (newReadGate 1 0, [new_read LogPage])"
    using gate_step.arrive [of "newReadGate 1 0" "[]" LogPage] by (auto intro: reachable_step)
  then have "reachable (gate_start 1 0) gate_step (fst first_in, snd first_in)"
    using do_attempt_step [of 0 "(newReadGate 1 0, [new_read LogPage])" False] new_read_cost(2)
    by (auto simp: first_in_def intro: reachable_step)
  then have r: "reachable (gate_start 1 0) gate_step (fst first_in, snd first_in @ [new_read LogPage])"
    using gate_step.arrive [of "fst first_in" "snd first_in" LogPage] by (auto intro: reachable_step)
  have "length (snd first_in) = 1" by code_simp
  then have "gate_step (fst first_in, snd first_in @ [new_read LogPage]) second_waits"
    using do_attempt_step [of 1 "(fst first_in, snd first_in @ [new_read LogPage])" False] new_read_cost(2)
    by (simp add: second_waits_def nth_append)
  then show ?thesis using reachable_step [OF r] by simp
qed

theorem read_gate_exact_witness:
  "g_inflight (fst second_waits) = int (length (filter (\<lambda>q. rq_phase q = Holding) (snd second_waits))) \<and>
   g_inflight (fst second_waits) = 1 \<and> g_waiting (fst second_waits) = 1 \<and> g_bytes (fst second_waits) = logPageCost"
proof -
  have "g_inflight (fst second_waits) = 1" "g_waiting (fst second_waits) = 1" "g_bytes (fst second_waits) = logPageCost" by code_simp+
  then show ?thesis using read_gate_exact [OF reach_second_waits] by blast
qed

lemma reach_first_done: "reachable (gate_start 1 0) gate_step (fst first_done, snd first_done)"
proof -
  have "0 < length (snd second_waits) \<and> rq_phase (snd second_waits ! 0) = Holding \<and> rq_cost (snd second_waits ! 0) = logPageCost \<and>
      \<not> rq_download (snd second_waits ! 0)" by code_simp
  then have "gate_step (fst second_waits, snd second_waits) first_done"
    using gate_step.leave [of 0 "snd second_waits" "snd second_waits ! 0" "fst second_waits"] by (simp add: first_done_def)
  then show ?thesis using reachable_step [OF reach_second_waits] by simp
qed

theorem read_gate_progress_witness:
  "gate_step (fst first_done, snd first_done) (fst first_done, set_phase 1 (Trying True) (snd first_done)) \<and>
   fst (acquireKind True logPageCost readAdmitWait False (fst first_done)) = Admitted"
proof -
  have "1 < length (snd first_done) \<and> rq_phase (snd first_done ! 1) = Waiting 0 \<and> has_room (rq_cost (snd first_done ! 1)) (fst first_done)"
    "rq_cost (snd first_done ! 1) = logPageCost \<and> rq_wait (snd first_done ! 1) = readAdmitWait \<and> rq_download (snd first_done ! 1) = False"
    by code_simp+
  then show ?thesis using read_gate_progress [OF reach_first_done, of 1 0] by auto
qed

text \<open>The byte budget is needed: with four slots and the smallest budget the configuration allows, two downloads keep a
  log page out.\<close>

definition two_downloads :: gate_state where
  "two_downloads =
     (let (_, g1) = acquireKind False rawPageCost readAdmitWait True (newReadGate 4 8388608);
          (_, g2) = acquireKind False rawPageCost readAdmitWait True g1
      in (g2, [(new_read RawDownload)\<lparr>rq_phase := Holding\<rparr>, (new_read RawDownload)\<lparr>rq_phase := Holding\<rparr>]))"

lemma downloads_lock_out:
  "g_inflight (fst two_downloads) = 2 \<and> g_slots (fst two_downloads) = 4 \<and>
   fst (acquireKind False logPageCost 0 False (fst two_downloads)) = Busy"
  by code_simp

end
