(* ===== verification/Metrics_Share.thy ===== *)
theory Metrics_Share
  imports Prelude
begin

text \<open>
  The sharing of metrics computations, \<^verbatim>\<open>metricsShare\<close> of \<^verbatim>\<open>src/internal/api/readlimit.go\<close>: requests for the same
  view share one computation in flight and, for a few seconds, its result.

  The critical sections of \<^verbatim>\<open>get\<close>, \<^verbatim>\<open>lead\<close> and the timer interleave in \<open>share_step\<close>. Flights are numbered in
  the order they are created. What a computation returns, when a client goes away and when the timer fires is left open.
\<close>

section \<open>Flights\<close>

type_synonym metricsKey = "duration \<times> int"

datatype share_error = CtxCanceled | ComputationAborted | ComputeFailed string

record 'r metricsFlight =
  mf_key :: metricsKey
  mf_out :: "(share_error + 'r) option"

text \<open>A flight without an outcome is in progress; with one, its channel \<^verbatim>\<open>done\<close> is closed.\<close>

record 'r metricsShare =
  ms_flights :: "(metricsKey \<times> nat) list"
  ms_all :: "'r metricsFlight list"

definition flight_of :: "'r metricsShare \<Rightarrow> metricsKey \<Rightarrow> nat option" where
  "flight_of m k = map_of (ms_flights m) k"

definition forget :: "metricsKey \<Rightarrow> 'r metricsShare \<Rightarrow> 'r metricsShare" where
  "forget k m = m\<lparr>ms_flights := filter (\<lambda>e. fst e \<noteq> k) (ms_flights m)\<rparr>"

text \<open>The first critical section of \<^verbatim>\<open>get\<close>: the flight, and whether this request leads it.\<close>

definition join :: "metricsKey \<Rightarrow> 'r metricsShare \<Rightarrow> (bool \<times> nat) \<times> 'r metricsShare" where
  "join k m =
     (case flight_of m k of
        Some f \<Rightarrow> ((False, f), m)
      | None \<Rightarrow> ((True, length (ms_all m)),
                 m\<lparr>ms_flights := (k, length (ms_all m)) # ms_flights m, ms_all := ms_all m @ [\<lparr>mf_key = k, mf_out = None\<rparr>]\<rparr>))"

text \<open>What \<^verbatim>\<open>lead\<close> publishes: the result, a failure, or, when the computation panicked, an error of its own.\<close>

datatype 'r computed = Computed 'r | Failed share_error | Panicked

definition outcome :: "'r computed \<Rightarrow> share_error + 'r" where
  "outcome c = (case c of Computed r \<Rightarrow> Inr r | Failed e \<Rightarrow> Inl e | Panicked \<Rightarrow> Inl ComputationAborted)"

definition publish :: "metricsKey \<Rightarrow> nat \<Rightarrow> 'r computed \<Rightarrow> 'r metricsShare \<Rightarrow> 'r metricsShare" where
  "publish k f c m =
     (let m1 = m\<lparr>ms_all := (ms_all m)[f := (ms_all m ! f)\<lparr>mf_out := Some (outcome c)\<rparr>]\<rparr>
      in case outcome c of Inl _ \<Rightarrow> forget k m1 | Inr _ \<Rightarrow> m1)"

definition expire :: "metricsKey \<Rightarrow> nat \<Rightarrow> 'r metricsShare \<Rightarrow> 'r metricsShare" where
  "expire k f m = (if flight_of m k = Some f then forget k m else m)"

section \<open>Requests\<close>

datatype 'r share_phase = Getting | Leading nat | Following nat | Answered "share_error + 'r" | GaveUp | Aborted

record 'r share_req =
  sr_key :: metricsKey
  sr_phase :: "'r share_phase"

definition set_req :: "nat \<Rightarrow> 'r share_phase \<Rightarrow> 'r share_req list \<Rightarrow> 'r share_req list" where
  "set_req i p qs = qs[i := (qs ! i)\<lparr>sr_phase := p\<rparr>]"

definition joined :: "bool \<times> nat \<Rightarrow> 'r share_phase" where
  "joined j = (if fst j then Leading (snd j) else Following (snd j))"

text \<open>A follower that wakes: it tries again if the computing request was canceled and its own client is still
  there (\<open>here\<close>).\<close>

definition answer :: "bool \<Rightarrow> share_error + 'r \<Rightarrow> 'r share_phase" where
  "answer here x = (if x = Inl CtxCanceled \<and> here then Getting else Answered x)"

text \<open>The computing request returns what it computed; a panic unwinds it.\<close>

definition led :: "'r computed \<Rightarrow> 'r share_phase" where
  "led c = (case c of Panicked \<Rightarrow> Aborted | _ \<Rightarrow> Answered (outcome c))"

type_synonym 'r share_state = "'r metricsShare \<times> 'r share_req list"

inductive share_step :: "'r share_state \<Rightarrow> 'r share_state \<Rightarrow> bool" where
  arrive: "share_step (m, qs) (m, qs @ [\<lparr>sr_key = k, sr_phase = Getting\<rparr>])"
| get: "i < length qs \<Longrightarrow> sr_phase (qs ! i) = Getting \<Longrightarrow> join (sr_key (qs ! i)) m = (j, m') \<Longrightarrow>
    share_step (m, qs) (m', set_req i (joined j) qs)"
| lead: "i < length qs \<Longrightarrow> sr_phase (qs ! i) = Leading f \<Longrightarrow>
    share_step (m, qs) (publish (sr_key (qs ! i)) f c m, set_req i (led c) qs)"
| follow: "i < length qs \<Longrightarrow> sr_phase (qs ! i) = Following f \<Longrightarrow> f < length (ms_all m) \<Longrightarrow> mf_out (ms_all m ! f) = Some x \<Longrightarrow>
    share_step (m, qs) (m, set_req i (answer here x) qs)"
| leave: "i < length qs \<Longrightarrow> sr_phase (qs ! i) = Following f \<Longrightarrow> share_step (m, qs) (m, set_req i GaveUp qs)"
| timer: "f < length (ms_all m) \<Longrightarrow> mf_out (ms_all m ! f) = Some (Inr r) \<Longrightarrow>
    share_step (m, qs) (expire (mf_key (ms_all m ! f)) f m, qs)"

definition share_start :: "'r share_state \<Rightarrow> bool" where
  "share_start s \<longleftrightarrow> s = (\<lparr>ms_flights = [], ms_all = []\<rparr>, [])"

section \<open>Invariant\<close>

definition leads :: "'r share_req list \<Rightarrow> nat \<Rightarrow> nat \<Rightarrow> bool" where
  "leads qs i f \<longleftrightarrow> i < length qs \<and> sr_phase (qs ! i) = Leading f"

definition open_flight :: "'r metricsShare \<Rightarrow> nat \<Rightarrow> bool" where
  "open_flight m f \<longleftrightarrow> f < length (ms_all m) \<and> mf_out (ms_all m ! f) = None"

definition share_inv :: "'r share_state \<Rightarrow> bool" where
  "share_inv s \<longleftrightarrow> (case s of (m, qs) \<Rightarrow>
     (\<forall>k f. flight_of m k = Some f \<longrightarrow> f < length (ms_all m) \<and> mf_key (ms_all m ! f) = k \<and>
        (\<forall>e. mf_out (ms_all m ! f) \<noteq> Some (Inl e))) \<and>
     (\<forall>f. open_flight m f \<longrightarrow> flight_of m (mf_key (ms_all m ! f)) = Some f \<and> (\<exists>i. leads qs i f)) \<and>
     (\<forall>i f. leads qs i f \<longrightarrow> open_flight m f \<and> mf_key (ms_all m ! f) = sr_key (qs ! i)) \<and>
     (\<forall>i j f. leads qs i f \<longrightarrow> leads qs j f \<longrightarrow> i = j) \<and>
     (\<forall>i f. i < length qs \<longrightarrow> sr_phase (qs ! i) = Following f \<longrightarrow> f < length (ms_all m) \<and> mf_key (ms_all m ! f) = sr_key (qs ! i)) \<and>
     (\<forall>i r. i < length qs \<longrightarrow> sr_phase (qs ! i) = Answered (Inr r) \<longrightarrow>
        (\<exists>f<length (ms_all m). mf_key (ms_all m ! f) = sr_key (qs ! i) \<and> mf_out (ms_all m ! f) = Some (Inr r))))"

lemma flight_of_forget [simp]: "flight_of (forget k m) k' = (if k' = k then None else flight_of m k')"
proof -
  have "map_of (filter (\<lambda>e. fst e \<noteq> k) xs) k' = (if k' = k then None else map_of xs k')" for xs :: "(metricsKey \<times> nat) list"
    by (induction xs) auto
  then show ?thesis by (simp add: flight_of_def forget_def)
qed

lemma forget_all [simp]: "ms_all (forget k m) = ms_all m"
  by (simp add: forget_def)

lemma set_req_nth: "i < length qs \<Longrightarrow> j < length qs \<Longrightarrow> set_req i p qs ! j = (if j = i then (qs ! i)\<lparr>sr_phase := p\<rparr> else qs ! j)"
  by (simp add: set_req_def)

lemma set_req_length [simp]: "length (set_req i p qs) = length qs"
  by (simp add: set_req_def)

lemma leads_set_req:
  "i < length qs \<Longrightarrow> leads (set_req i p qs) j f \<longleftrightarrow> (if j = i then p = Leading f else leads qs j f)"
  by (auto simp: leads_def set_req_nth)

lemma share_invI:
  assumes "\<And>k f. flight_of m k = Some f \<Longrightarrow> f < length (ms_all m) \<and> mf_key (ms_all m ! f) = k \<and> (\<forall>e. mf_out (ms_all m ! f) \<noteq> Some (Inl e))"
    and "\<And>f. open_flight m f \<Longrightarrow> flight_of m (mf_key (ms_all m ! f)) = Some f \<and> (\<exists>i. leads qs i f)"
    and "\<And>i f. leads qs i f \<Longrightarrow> open_flight m f \<and> mf_key (ms_all m ! f) = sr_key (qs ! i)"
    and "\<And>i j f. leads qs i f \<Longrightarrow> leads qs j f \<Longrightarrow> i = j"
    and "\<And>i f. i < length qs \<Longrightarrow> sr_phase (qs ! i) = Following f \<Longrightarrow> f < length (ms_all m) \<and> mf_key (ms_all m ! f) = sr_key (qs ! i)"
    and "\<And>i r. i < length qs \<Longrightarrow> sr_phase (qs ! i) = Answered (Inr r) \<Longrightarrow>
       \<exists>f<length (ms_all m). mf_key (ms_all m ! f) = sr_key (qs ! i) \<and> mf_out (ms_all m ! f) = Some (Inr r)"
  shows "share_inv (m, qs)"
  using assms unfolding share_inv_def by blast

lemma share_invD:
  assumes "share_inv (m, qs)"
  shows "flight_of m k = Some f \<Longrightarrow> f < length (ms_all m) \<and> mf_key (ms_all m ! f) = k \<and> (\<forall>e. mf_out (ms_all m ! f) \<noteq> Some (Inl e))"
    and "open_flight m f \<Longrightarrow> flight_of m (mf_key (ms_all m ! f)) = Some f \<and> (\<exists>i. leads qs i f)"
    and "leads qs i f \<Longrightarrow> open_flight m f \<and> mf_key (ms_all m ! f) = sr_key (qs ! i)"
    and "leads qs i f \<Longrightarrow> leads qs j f \<Longrightarrow> i = j"
    and "i < length qs \<Longrightarrow> sr_phase (qs ! i) = Following f \<Longrightarrow> f < length (ms_all m) \<and> mf_key (ms_all m ! f) = sr_key (qs ! i)"
    and "i < length qs \<Longrightarrow> sr_phase (qs ! i) = Answered (Inr r) \<Longrightarrow>
       \<exists>f<length (ms_all m). mf_key (ms_all m ! f) = sr_key (qs ! i) \<and> mf_out (ms_all m ! f) = Some (Inr r)"
  using assms unfolding share_inv_def by blast+

text \<open>A request that neither leads nor starts to lead may change its phase as long as what it follows or answers is a
  flight of its key.\<close>

lemma share_inv_phase:
  assumes inv: "share_inv (m, qs)" and i: "i < length qs" "\<forall>f. sr_phase (qs ! i) \<noteq> Leading f" "\<forall>f. p \<noteq> Leading f"
    and fol: "\<And>f. p = Following f \<Longrightarrow> f < length (ms_all m) \<and> mf_key (ms_all m ! f) = sr_key (qs ! i)"
    and ans: "\<And>r. p = Answered (Inr r) \<Longrightarrow>
       \<exists>f<length (ms_all m). mf_key (ms_all m ! f) = sr_key (qs ! i) \<and> mf_out (ms_all m ! f) = Some (Inr r)"
  shows "share_inv (m, set_req i p qs)"
proof -
  have l: "leads (set_req i p qs) j f = leads qs j f" for j f
    using i by (cases "j = i") (auto simp: set_req_nth leads_def)
  have key: "sr_key (set_req i p qs ! j) = sr_key (qs ! j)" if "j < length qs" for j using i(1) that by (simp add: set_req_nth)
  have lk: "j < length qs" if "leads qs j f" for j f using that by (simp add: leads_def)
  show ?thesis
  proof (rule share_invI)
    show "open_flight m f \<and> mf_key (ms_all m ! f) = sr_key (set_req i p qs ! j)" if "leads (set_req i p qs) j f" for j f
      using share_invD(3) [OF inv] that l key lk by metis
    show "f < length (ms_all m) \<and> mf_key (ms_all m ! f) = sr_key (set_req i p qs ! j)"
      if "j < length (set_req i p qs)" "sr_phase (set_req i p qs ! j) = Following f" for j f
      using that i(1) fol share_invD(5) [OF inv, of j f] by (simp add: set_req_nth split: if_splits)
    show "\<exists>f<length (ms_all m). mf_key (ms_all m ! f) = sr_key (set_req i p qs ! j) \<and> mf_out (ms_all m ! f) = Some (Inr r)"
      if "j < length (set_req i p qs)" "sr_phase (set_req i p qs ! j) = Answered (Inr r)" for j r
      using that i(1) ans share_invD(6) [OF inv, of j r] by (simp add: set_req_nth split: if_splits)
  qed (use share_invD(1,2,4) [OF inv] l in \<open>blast | metis\<close>)+
qed

lemma share_arrive:
  assumes inv: "share_inv (m, qs)"
  shows "share_inv (m, qs @ [\<lparr>sr_key = k, sr_phase = Getting\<rparr>])" (is "share_inv (m, ?qs)")
proof -
  have l: "leads ?qs j f = leads qs j f" for j f by (auto simp: leads_def nth_append)
  have lk: "j < length qs" if "leads qs j f" for j f using that by (simp add: leads_def)
  show ?thesis
  proof (rule share_invI)
    show "open_flight m f \<and> mf_key (ms_all m ! f) = sr_key (?qs ! j)" if "leads ?qs j f" for j f
      using share_invD(3) [OF inv, of j f] that lk [of j f] by (simp add: l nth_append)
    show "f < length (ms_all m) \<and> mf_key (ms_all m ! f) = sr_key (?qs ! j)"
      if "j < length ?qs" "sr_phase (?qs ! j) = Following f" for j f
      using that share_invD(5) [OF inv, of j f] by (auto simp: nth_append split: if_splits)
    show "\<exists>f<length (ms_all m). mf_key (ms_all m ! f) = sr_key (?qs ! j) \<and> mf_out (ms_all m ! f) = Some (Inr r)"
      if "j < length ?qs" "sr_phase (?qs ! j) = Answered (Inr r)" for j r
      using that share_invD(6) [OF inv, of j r] by (auto simp: nth_append split: if_splits)
  qed (use share_invD(1,2,4) [OF inv] l in \<open>blast | metis\<close>)+
qed

lemma share_new_flight:
  assumes inv: "share_inv (m, qs)" and i: "i < length qs" "sr_phase (qs ! i) = Getting" and k: "k = sr_key (qs ! i)" "flight_of m k = None"
    and n: "n = length (ms_all m)"
    and m': "m' = m\<lparr>ms_flights := (k, n) # ms_flights m, ms_all := ms_all m @ [\<lparr>mf_key = k, mf_out = None\<rparr>]\<rparr>"
  shows "share_inv (m', set_req i (Leading n) qs)" (is "share_inv (m', ?qs)")
proof -
  have fl: "flight_of m' k' = (if k' = k then Some n else flight_of m k')" for k' by (simp add: m' flight_of_def)
  have al: "ms_all m' ! f = (if f = n then \<lparr>mf_key = k, mf_out = None\<rparr> else ms_all m ! f)" if "f \<le> n" for f
    using that by (auto simp: m' n nth_append)
  have len: "length (ms_all m') = Suc n" by (simp add: m' n)
  have op: "open_flight m' f \<longleftrightarrow> f = n \<or> open_flight m f" for f
    using n by (auto simp: open_flight_def len al less_Suc_eq)
  have old: "f < n" if "open_flight m f" for f using that by (simp add: open_flight_def n)
  have l: "leads ?qs j f \<longleftrightarrow> (if j = i then f = n else leads qs j f)" for j f using i(1) by (auto simp: leads_set_req)
  have li: "\<not> leads qs i f" for f using i(2) by (simp add: leads_def)
  have key: "sr_key (?qs ! j) = sr_key (qs ! j)" if "j < length qs" for j using i(1) that by (simp add: set_req_nth)
  show ?thesis
  proof (rule share_invI)
    fix k' f assume "flight_of m' k' = Some f"
    then show "f < length (ms_all m') \<and> mf_key (ms_all m' ! f) = k' \<and> (\<forall>e. mf_out (ms_all m' ! f) \<noteq> Some (Inl e))"
      using share_invD(1) [OF inv, of k' f] n by (auto simp: fl len al split: if_splits)
  next
    fix f assume o: "open_flight m' f"
    show "flight_of m' (mf_key (ms_all m' ! f)) = Some f \<and> (\<exists>j. leads ?qs j f)"
    proof (cases "f = n")
      case True then show ?thesis using l by (auto simp: al fl)
    next
      case False
      then have of: "open_flight m f" using o op by simp
      obtain j where "flight_of m (mf_key (ms_all m ! f)) = Some f" "leads qs j f" using share_invD(2) [OF inv of] by blast
      then show ?thesis using l li old [OF of] k(2) by (auto simp: al fl) metis
    qed
  next
    fix j f assume lj: "leads ?qs j f"
    show "open_flight m' f \<and> mf_key (ms_all m' ! f) = sr_key (?qs ! j)"
    proof (cases "j = i")
      case True then show ?thesis using lj l op k key i(1) by (simp add: al)
    next
      case False
      then have lq: "leads qs j f" using lj l by simp
      then have "j < length qs" by (simp add: leads_def)
      then show ?thesis using share_invD(3) [OF inv lq] old [of f] op key by (simp add: al)
    qed
  next
    fix j j' f assume "leads ?qs j f" "leads ?qs j' f"
    then show "j = j'" using l share_invD(3) [OF inv] share_invD(4) [OF inv] old by (metis less_irrefl)
  next
    fix j f assume "j < length ?qs" "sr_phase (?qs ! j) = Following f"
    then show "f < length (ms_all m') \<and> mf_key (ms_all m' ! f) = sr_key (?qs ! j)"
      using share_invD(5) [OF inv, of j f] i(1) n by (auto simp: set_req_nth len al split: if_splits)
  next
    fix j r assume j: "j < length ?qs" "sr_phase (?qs ! j) = Answered (Inr r)"
    then have ne: "j \<noteq> i" "j < length qs" "sr_phase (qs ! j) = Answered (Inr r)" using i(1) by (auto simp: set_req_nth split: if_splits)
    obtain f where "f < n" "mf_key (ms_all m ! f) = sr_key (qs ! j)" "mf_out (ms_all m ! f) = Some (Inr r)"
      using share_invD(6) [OF inv ne(2,3)] n by blast
    then show "\<exists>f<length (ms_all m'). mf_key (ms_all m' ! f) = sr_key (?qs ! j) \<and> mf_out (ms_all m' ! f) = Some (Inr r)"
      using key ne by (intro exI [of _ f]) (simp add: len al)
  qed
qed

lemma share_expire:
  assumes inv: "share_inv (m, qs)" and f: "mf_out (ms_all m ! f) = Some (Inr r)"
  shows "share_inv (expire k f m, qs)"
proof (cases "flight_of m k = Some f")
  case False then show ?thesis using inv by (simp add: expire_def)
next
  case True
  have o: "open_flight (forget k m) f' = open_flight m f'" for f' by (simp add: open_flight_def)
  have "share_inv (forget k m, qs)"
  proof (rule share_invI)
    fix f' assume "open_flight (forget k m) f'"
    then have of: "open_flight m f'" by (simp add: o)
    then have "f' \<noteq> f" using f by (auto simp: open_flight_def)
    then show "flight_of (forget k m) (mf_key (ms_all (forget k m) ! f')) = Some f' \<and> (\<exists>i. leads qs i f')"
      using share_invD(2) [OF inv of] True by auto
  qed (use share_invD(1,3-6) [OF inv] o in \<open>auto split: if_splits\<close>)
  then show ?thesis using True by (simp add: expire_def)
qed

lemma publish_all: "f < length (ms_all m) \<Longrightarrow> f' < length (ms_all m) \<Longrightarrow> ms_all (publish k f c m) ! f' =
    (if f' = f then (ms_all m ! f)\<lparr>mf_out := Some (outcome c)\<rparr> else ms_all m ! f')"
  by (auto simp: publish_def Let_def split: sum.split)

lemma publish_length [simp]: "length (ms_all (publish k f c m)) = length (ms_all m)"
  by (simp add: publish_def Let_def split: sum.split)

lemma publish_flight: "flight_of (publish k f c m) k' = (if k' = k \<and> (\<exists>e. outcome c = Inl e) then None else flight_of m k')"
proof -
  have "flight_of (m\<lparr>ms_all := a\<rparr>) k' = flight_of m k'" for a by (simp add: flight_of_def)
  then show ?thesis by (auto simp: publish_def Let_def split: sum.split)
qed

lemma led_not_leading: "led c \<noteq> Leading f" "led c \<noteq> Following f" "led c = Answered x \<Longrightarrow> x = outcome c"
  by (auto simp: led_def split: computed.splits)

lemma share_lead:
  assumes inv: "share_inv (m, qs)" and i: "i < length qs" "sr_phase (qs ! i) = Leading n" and k: "k = sr_key (qs ! i)"
  shows "share_inv (publish k n c m, set_req i (led c) qs)" (is "share_inv (?m, ?qs)")
proof -
  have li: "leads qs i n" using i by (simp add: leads_def)
  have on: "open_flight m n" "mf_key (ms_all m ! n) = k" using share_invD(3) [OF inv li] k by auto
  have n: "n < length (ms_all m)" "flight_of m k = Some n" using on share_invD(2) [OF inv on(1)] by (auto simp: open_flight_def)
  note al = publish_all [OF n(1)]
  have mk: "mf_key (ms_all ?m ! f) = mf_key (ms_all m ! f)" if "f < length (ms_all m)" for f using that by (simp add: al)
  have op: "open_flight ?m f \<longleftrightarrow> f \<noteq> n \<and> open_flight m f" for f by (cases "f = n") (auto simp: open_flight_def al n(1))
  have l: "leads ?qs j f \<longleftrightarrow> j \<noteq> i \<and> leads qs j f" for j f using i(1) led_not_leading(1) by (auto simp: leads_set_req)
  have key: "sr_key (?qs ! j) = sr_key (qs ! j)" if "j < length qs" for j using i(1) that by (simp add: set_req_nth)
  have other: "mf_key (ms_all m ! f) \<noteq> k" if "open_flight m f" "f \<noteq> n" for f using share_invD(2) [OF inv that(1)] n(2) that(2) by auto
  show ?thesis
  proof (rule share_invI)
    fix k' f assume a: "flight_of ?m k' = Some f"
    then have am: "flight_of m k' = Some f" "\<not> (k' = k \<and> (\<exists>e. outcome c = Inl e))" by (auto simp: publish_flight split: if_splits)
    show "f < length (ms_all ?m) \<and> mf_key (ms_all ?m ! f) = k' \<and> (\<forall>e. mf_out (ms_all ?m ! f) \<noteq> Some (Inl e))"
      using share_invD(1) [OF inv am(1)] am(2) on(2) by (auto simp: al)
  next
    fix f assume "open_flight ?m f"
    then have f: "f \<noteq> n" "open_flight m f" by (simp_all add: op)
    then have "f < length (ms_all m)" by (simp add: open_flight_def)
    moreover obtain j where j: "flight_of m (mf_key (ms_all m ! f)) = Some f" "leads qs j f" using share_invD(2) [OF inv f(2)] by blast
    moreover have "j \<noteq> i" using j(2) li f(1) by (auto simp: leads_def)
    ultimately show "flight_of ?m (mf_key (ms_all ?m ! f)) = Some f \<and> (\<exists>j. leads ?qs j f)"
      using other [OF f(2,1)] l by (auto simp: publish_flight mk)
  next
    fix j f assume "leads ?qs j f"
    then have j: "j \<noteq> i" "leads qs j f" by (simp_all add: l)
    then have "f \<noteq> n" using share_invD(4) [OF inv _ li] by blast
    moreover have "j < length qs" using j(2) by (simp add: leads_def)
    ultimately show "open_flight ?m f \<and> mf_key (ms_all ?m ! f) = sr_key (?qs ! j)"
      using share_invD(3) [OF inv j(2)] op key mk by (auto simp: open_flight_def)
  next
    fix j j' f assume "leads ?qs j f" "leads ?qs j' f"
    then show "j = j'" using l share_invD(4) [OF inv] by blast
  next
    fix j f assume "j < length ?qs" "sr_phase (?qs ! j) = Following f"
    then show "f < length (ms_all ?m) \<and> mf_key (ms_all ?m ! f) = sr_key (?qs ! j)"
      using share_invD(5) [OF inv, of j f] i(1) led_not_leading(2) by (auto simp: set_req_nth mk split: if_splits)
  next
    fix j r assume j: "j < length ?qs" "sr_phase (?qs ! j) = Answered (Inr r)"
    show "\<exists>f<length (ms_all ?m). mf_key (ms_all ?m ! f) = sr_key (?qs ! j) \<and> mf_out (ms_all ?m ! f) = Some (Inr r)"
    proof (cases "j = i")
      case True
      then have "led c = Answered (Inr r)" using j i(1) by (simp add: set_req_nth)
      then have "outcome c = Inr r" using led_not_leading(3) by metis
      then show ?thesis using True n(1) on(2) k key i(1) by (intro exI [of _ n]) (simp add: al)
    next
      case False
      then have q: "j < length qs" "sr_phase (qs ! j) = Answered (Inr r)" using j i(1) by (simp_all add: set_req_nth)
      obtain f where f: "f < length (ms_all m)" "mf_key (ms_all m ! f) = sr_key (qs ! j)" "mf_out (ms_all m ! f) = Some (Inr r)"
        using share_invD(6) [OF inv q] by blast
      then have "f \<noteq> n" using on(1) by (auto simp: open_flight_def)
      then show ?thesis using f key [OF q(1)] by (intro exI [of _ f]) (simp add: al)
    qed
  qed
qed

lemma share_step_inv:
  assumes "share_inv s" "share_step s t"
  shows "share_inv t"
  using assms(2,1)
proof cases
  case (arrive m qs k)
  then show ?thesis using share_arrive assms(1) by blast
next
  case (get i qs m j m')
  note inv = assms(1) [unfolded get(1)]
  show ?thesis
  proof (cases "flight_of m (sr_key (qs ! i))")
    case None
    then have e: "joined j = Leading (length (ms_all m))"
      "m' = m\<lparr>ms_flights := (sr_key (qs ! i), length (ms_all m)) # ms_flights m, ms_all := ms_all m @ [\<lparr>mf_key = sr_key (qs ! i), mf_out = None\<rparr>]\<rparr>"
      using get(5) by (auto simp: join_def joined_def)
    show ?thesis unfolding get(2) e(1) by (rule share_new_flight [OF inv get(3,4) refl None refl e(2)])
  next
    case (Some f)
    then have e: "joined j = Following f" "m' = m" using get(5) by (auto simp: join_def joined_def)
    show ?thesis unfolding get(2) e
      by (rule share_inv_phase [OF inv get(3)]) (use get(4) share_invD(1) [OF inv Some] in auto)
  qed
next
  case (lead i qs f c m)
  then show ?thesis using share_lead assms(1) by blast
next
  case (follow i qs f m x here)
  note inv = assms(1) [unfolded follow(1)]
  show ?thesis unfolding follow(2)
    by (rule share_inv_phase [OF inv follow(3)])
      (use follow(4-6) share_invD(5) [OF inv follow(3,4)] in \<open>auto simp: answer_def split: if_splits\<close>)
next
  case (leave i qs f m)
  note inv = assms(1) [unfolded leave(1)]
  show ?thesis unfolding leave(2) by (rule share_inv_phase [OF inv leave(3)]) (use leave(4) in auto)
next
  case (timer f m r qs)
  show ?thesis unfolding timer(2) by (rule share_expire [OF assms(1) [unfolded timer(1)] timer(4)])
qed

interpretation sharing: invariant_system share_start share_step share_inv
proof
  show "share_inv s" if "share_start s" for s :: "'r share_state"
    using that by (auto simp: share_start_def share_inv_def flight_of_def open_flight_def leads_def)
qed (rule share_step_inv)

section \<open>Properties\<close>

text \<open>C40: metrics are computed once and nobody waits forever. In every interleaving of requests joining, computing, being
  canceled, failing, panicking and of results expiring, at most one request computes a view at a time; the flight a request
  follows is finished, so that it can go on, or still has the request that computes it; a failure is never handed to a
  later request; and a request that is answered with a result gets one that was computed for its own view.\<close>

theorem metrics_shared_once:
  assumes r: "reachable share_start share_step (m, qs)"
  shows "(i < length qs \<and> j < length qs \<and> sr_phase (qs ! i) = Leading f \<and> sr_phase (qs ! j) = Leading f' \<and>
       sr_key (qs ! i) = sr_key (qs ! j) \<longrightarrow> i = j) \<and>
    (i < length qs \<and> sr_phase (qs ! i) = Following f \<longrightarrow>
       (\<exists>x. share_step (m, qs) (m, set_req i (answer here x) qs) \<and> mf_out (ms_all m ! f) = Some x) \<or>
       (\<exists>j<length qs. sr_phase (qs ! j) = Leading f)) \<and>
    (fst (join k m) = (False, f) \<longrightarrow> mf_out (ms_all m ! f) \<noteq> Some (Inl e)) \<and>
    (i < length qs \<and> sr_phase (qs ! i) = Answered (Inr x) \<longrightarrow>
       (\<exists>f<length (ms_all m). mf_key (ms_all m ! f) = sr_key (qs ! i) \<and> mf_out (ms_all m ! f) = Some (Inr x)))"
proof -
  note inv = sharing.reachable_inv [OF r]
  have one: "i = j" if a: "leads qs i f" "leads qs j f'" "sr_key (qs ! i) = sr_key (qs ! j)"
  proof -
    have o: "open_flight m f" "mf_key (ms_all m ! f) = sr_key (qs ! i)" "open_flight m f'" "mf_key (ms_all m ! f') = sr_key (qs ! j)"
      using share_invD(3) [OF inv a(1)] share_invD(3) [OF inv a(2)] by auto
    have "f = f'" using share_invD(2) [OF inv o(1)] share_invD(2) [OF inv o(3)] o(2,4) a(3) by simp
    then show ?thesis using share_invD(4) [OF inv a(1)] a(2) by simp
  qed
  have waiting: "(\<exists>x. share_step (m, qs) (m, set_req i (answer here x) qs) \<and> mf_out (ms_all m ! f) = Some x) \<or> (\<exists>j. leads qs j f)"
    if f: "i < length qs" "sr_phase (qs ! i) = Following f"
  proof (cases "mf_out (ms_all m ! f)")
    case None
    then have "open_flight m f" using share_invD(5) [OF inv f] by (simp add: open_flight_def)
    then show ?thesis using share_invD(2) [OF inv] by blast
  next
    case (Some x)
    then show ?thesis using share_step.follow [OF f, of m x here] share_invD(5) [OF inv f] by blast
  qed
  have fresh: "mf_out (ms_all m ! f) \<noteq> Some (Inl e)" if "fst (join k m) = (False, f)"
    using that share_invD(1) [OF inv, of k f] by (simp add: join_def split: option.splits)
  show ?thesis using one waiting fresh share_invD(6) [OF inv, of i x] unfolding leads_def by blast
qed

text \<open>Two requests for the same view: the first computes it, the second follows.\<close>

definition do_get :: "nat \<Rightarrow> 'r share_state \<Rightarrow> 'r share_state" where
  "do_get i s = (let r = join (sr_key (snd s ! i)) (fst s) in (snd r, set_req i (joined (fst r)) (snd s)))"

lemma do_get_step: "i < length (snd s) \<Longrightarrow> sr_phase (snd s ! i) = Getting \<Longrightarrow> share_step s (do_get i s)"
  using share_step.get [of i "snd s" "fst s" "fst (join (sr_key (snd s ! i)) (fst s))" "snd (join (sr_key (snd s ! i)) (fst s))"]
  by (simp add: do_get_def Let_def)

definition two_arrived :: "nat share_state" where
  "two_arrived = (\<lparr>ms_flights = [], ms_all = []\<rparr>, [] @ [\<lparr>sr_key = (Hour, 48), sr_phase = Getting\<rparr>] @ [\<lparr>sr_key = (Hour, 48), sr_phase = Getting\<rparr>])"

definition two_requests :: "nat share_state" where
  "two_requests = do_get 1 (do_get 0 two_arrived)"

lemma reach_two_requests: "reachable share_start share_step (fst two_requests, snd two_requests)"
proof -
  let ?m = "\<lparr>ms_flights = [], ms_all = []\<rparr> :: nat metricsShare" and ?q = "\<lparr>sr_key = (Hour, 48), sr_phase = Getting\<rparr> :: nat share_req"
  have "reachable share_start share_step (?m, [])" by (rule reachable_start) (simp add: share_start_def)
  then have "reachable share_start share_step (?m, [] @ [?q])" using share_step.arrive by (rule reachable_step)
  then have "reachable share_start share_step (?m, ([] @ [?q]) @ [?q])" using share_step.arrive by (rule reachable_step)
  then have a: "reachable share_start share_step two_arrived" by (simp add: two_arrived_def)
  have "0 < length (snd two_arrived) \<and> sr_phase (snd two_arrived ! 0) = Getting" by (simp add: two_arrived_def)
  then have b: "reachable share_start share_step (do_get 0 two_arrived)" using reachable_step [OF a do_get_step] by blast
  have "1 < length (snd (do_get 0 two_arrived)) \<and> sr_phase (snd (do_get 0 two_arrived) ! 1) = Getting"
    by (simp add: two_arrived_def do_get_def Let_def set_req_def)
  then have "reachable share_start share_step two_requests" unfolding two_requests_def using reachable_step [OF b do_get_step] by blast
  then show ?thesis by simp
qed

theorem metrics_shared_once_witness:
  "sr_phase (snd two_requests ! 1) = Following 0 \<and> (\<exists>j<length (snd two_requests). sr_phase (snd two_requests ! j) = Leading 0)"
proof -
  have "1 < length (snd two_requests) \<and> sr_phase (snd two_requests ! 1) = Following 0 \<and> mf_out (ms_all (fst two_requests) ! 0) = None"
    by code_simp
  then show ?thesis using metrics_shared_once [OF reach_two_requests, of 1 _ 0] by (metis option.distinct(1))
qed

end
