(* ===== verification/Spec2Isabelle.thy ===== *)
theory Spec2Isabelle
  imports Registry_Properties Store_Properties Executor_Properties Supervisor_Properties
    Scheduler_Properties Config_Properties Log_Sweep Read_Gate Metrics_Share
begin

text \<open>
  \<^bold>\<open>minicrond\<close> is a job scheduler and process supervisor in one daemon. This development
  models its core from the Go sources under \<^verbatim>\<open>src/internal\<close> and proves what makes each part
  correct.

  \<^bold>\<open>The program.\<close> A definition (a job or a worker) comes from the configuration file or the API,
  is validated (\<^verbatim>\<open>config\<close>), and is kept with its revisions in a SQLite database
  (\<^verbatim>\<open>store\<close>). One scheduling loop per job (\<^verbatim>\<open>scheduler\<close>) computes occurrences and
  hands each to the execution service (\<^verbatim>\<open>executor\<close>), which admits it, queues it durably when there is
  no capacity, runs it, retries it, and records its history, in memory while the database refuses
  writes. The supervisor (\<^verbatim>\<open>supervisor\<close>) keeps one run of every worker alive through the same
  service. Output of a run goes to a log buffer (\<^verbatim>\<open>logstore\<close>) and from there to an archive
  (\<^verbatim>\<open>logdb\<close>). The daemon runs commands only from directories nobody else can write
  (\<^verbatim>\<open>trustedpath\<close>).

  \<^bold>\<open>The theories.\<close>
  \<^item> \<open>Prelude\<close>: instants, durations and 64-bit integers of Go, shared list and option lemmas, and the
    interfaces \<open>invariant_system\<close> (reachable states of a step relation) and \<open>capped_backoff\<close> (a delay that
    doubles up to a cap), each interpreted by the components that have such a relation or delay.
  \<^item> \<open>Model\<close>: \<^verbatim>\<open>model/\<close>, the records of definitions, runs, worker exhaustion and alert
    channels.
  \<^item> \<open>Zone\<close>, \<open>Schedule\<close>: local time and \<^verbatim>\<open>scheduler/scheduler.go\<close> from
    \<^verbatim>\<open>compileSchedule\<close> to \<^verbatim>\<open>sameWallMinute\<close>. Interval schedules stay on their grid, the repeated
    hour of a clock change is skipped, and \<^verbatim>\<open>overdue\<close> counts exactly the missed occurrences within its
    caps.
  \<^item> \<open>Tables\<close>, \<open>Store_Runs\<close>, \<open>Store_Queue\<close>, \<open>Store_Properties\<close>: \<^verbatim>\<open>store/store.go\<close> (runs) and
    \<^verbatim>\<open>store/queue.go\<close>. The database is a record of tables and an operation is a function from it to
    an error or a new database. Every reachable database is consistent, queue limits hold, run
    states only move forward, a queued run leaves the queue at most once (interface \<open>once_queue\<close>).
  \<^item> \<open>Registry\<close>, \<open>Registry_Properties\<close>: definitions, revisions, audit, worker exhaustion, alert
    deliveries and channels of \<^verbatim>\<open>store/\<close>. Optimistic concurrency, protection and mirroring of
    config-owned definitions, referential integrity.
  \<^item> \<open>Retry_Heap\<close>, \<open>Executor_State\<close>, \<open>Executor_History\<close>, \<open>Executor\<close>, \<open>Executor_Invariant\<close>,
    \<open>Executor_Properties\<close>: \<^verbatim>\<open>executor/\<close>. The step relation \<open>exec_step\<close> interleaves the operations of
    the service with any failures of the database and the clock. Slots, counters and budgets are
    exact in every reachable state, nothing queued is forgotten, no retry is lost silently, the drain is fair.
    The heap of \<^verbatim>\<open>container/heap\<close> implements the interface \<open>priority_queue\<close>.
  \<^item> \<open>Supervisor\<close>, \<open>Supervisor_Invariant\<close>, \<open>Supervisor_Properties\<close>: \<^verbatim>\<open>supervisor/\<close>. The critical
    sections of the worker loops and of Reload, Start, Restart, Stop and Shutdown interleave in
    \<open>sv_step\<close>: never two processes of one worker, a stopped worker stays stopped, restart budgets hold,
    shutdown ends.
  \<^item> \<open>Scheduler\<close>, \<open>Scheduler_Properties\<close>: the loop of a job and the set of loops. Occurrences
    strictly increase across failures and restarts of the loop, a failed occurrence is caught up, and
    the loop with the service refines the service.
  \<^item> \<open>TrustedPath\<close>: \<^verbatim>\<open>trustedpath/path.go\<close>. A program that is found was reached only through
    entries of root or the daemon's user that nobody else can write, and what other users change in the
    file system cannot change the answer.
  \<^item> \<open>Config\<close>, \<open>Config_Properties\<close>: \<^verbatim>\<open>config/config.go\<close>. An accepted configuration satisfies what the
    components assume of it, and the form of a definition given to clients reads back as itself.
  \<^item> \<open>Log_Frame\<close>, \<open>Log_DB\<close>, \<open>Log_Read\<close>: the frame format and salvage of \<^verbatim>\<open>logstore/logstore.go\<close>, the
    tables and chunk files of \<^verbatim>\<open>logdb/logdb.go\<close>, and reading. A torn chunk loses only its torn frame,
    pruning deletes from the oldest end, and a page of a log never skips, repeats or reorders a frame, in
    whichever of the three tiers (rows, archived files, buffer files) it is.
  \<^item> \<open>Log_Pipe\<close>: \<^verbatim>\<open>Pipe\<close>, over the buffered reader of the standard library: lines do not depend on how the
    bytes arrive. Its interface to the writer is \<open>line_sink\<close>, interpreted in \<open>Log_Writer\<close>.
  \<^item> \<open>Log_Writer\<close>: \<^verbatim>\<open>Writer\<close> of \<^verbatim>\<open>logstore/logstore.go\<close> with its chunks, index, size budget, degraded
    capture and recovery. Every file operation may fail, as the environment of an operation says.
  \<^item> \<open>Log_Archive\<close>: \<^verbatim>\<open>logstore/archive.go\<close>, the checkpoint of a live writer and the sweep of an abandoned
    buffer.
  \<^item> \<open>Log_Tiers\<close>, \<open>Log_View\<close>, \<open>Log_Intact\<close>, \<open>Log_Complete\<close>, \<open>Log_Sweep\<close>: what the three tiers show together, and that
    writing, sealing, archiving and sweeping keep it through any failure. The last two theories join the parts:
    what a process writes is what a reader sees unless the log says that it is truncated, and a restart loses
    nothing.
  \<^item> \<open>Read_Gate\<close>, \<open>Metrics_Share\<close>: \<^verbatim>\<open>api/readlimit.go\<close>. The gate of expensive reads counts exactly, keeps its limits
    and strands nobody; requests for one metrics view share one computation, and a failure is not shared later.
  This theory joins the configuration with its users: a validated definition compiles, and its delays are what they say.

  \<^bold>\<open>Modelling.\<close> Go's \<^verbatim>\<open>int\<close> and durations are \<open>int\<close> with the wrap-around written out
  (\<open>wrap64\<close>) where it can matter; sequence numbers, bytes and header fields are machine words. A pointer
  or a slice that may be nil is an \<open>option\<close>. An error is the left side of a sum. Code outside the
  repository is a parameter: the cron parser and zone database, SHA-256, zstd, the TOML decoder,
  UUIDs, the clock, the file system, and SQLite's page accounting. What is relied on is a named hypothesis
  (\<open>zstd_ok\<close> and the like), and a witness instantiates it. A SQL statement is its effect on the lists of rows.

  \<^bold>\<open>Loops and fuel.\<close> Loops are structural or terminating recursions with their measure, with these
  exceptions. \<^verbatim>\<open>latestFire\<close> widens its window from an hour by a factor of eight and has eight steps as fuel, more than
  a 64-bit duration allows; \<open>suppressFold\<close> has the four steps of the source; the download of a log is a partial function, and the
  property on log pages proves that it returns. Endless loops of the daemon are step relations or one pass per
  call.

  \<^bold>\<open>Not modelled.\<close> The HTTP interface (\<^verbatim>\<open>api/\<close> but for its admission of reads) and the assembly of the daemon (\<^verbatim>\<open>daemon/\<close>,
  \<^verbatim>\<open>cmd/\<close>): handlers, flags, signals, service files and socket set-up, whose substance is in
  libraries. The sender of alerts (\<^verbatim>\<open>alerts/alerts.go\<close>): SMTP and HTTP delivery. The start of a process and its
  signals, pipes and accounting (\<^verbatim>\<open>executor/executor.go\<close> below \<^verbatim>\<open>execute\<close>,
  \<^verbatim>\<open>procstats\<close>): the outcome of a process is a parameter. Connections, pragmas and migrations of SQLite
  (\<^verbatim>\<open>sqlite/\<close>, \<^verbatim>\<open>store/relaxed.go\<close>, \<^verbatim>\<open>logdb/disk.go\<close>). In \<^verbatim>\<open>logstore\<close>: the pool of archivers and
  the batching of short runs, the disk budget (\<^verbatim>\<open>budget.go\<close>), the quarantine of whole buffers, and
  reports. What an operating system crash takes from files that are not yet synced is outside every model;
  a crash of the daemon is inside. Panics inside a goroutine are modelled only where the code recovers from them by name (the metrics computation). Goroutines interleave at
  their critical sections, not inside them.
\<close>

section \<open>Validated definitions in the scheduler and the supervisor\<close>

lemma valid_schedule_compiles:
  assumes "valid_definition env d" "d_Kind d = KindJob" "d_Schedule d \<noteq> ''''"
  shows "\<exists>c. compileSchedule (ce_ParseDuration env) (ce_LoadLocation env) (ce_Parse env) d = Inr c \<and>
           (cs_interval c = 0 \<or> Second \<le> cs_interval c)"
proof -
  have v: "ValidateSchedule env (d_Schedule d) = None"
    and "\<exists>loc. ce_LoadLocation env (d_Timezone d) = Inr loc"
    using assms by (simp_all add: valid_definition_def)
  then obtain loc where loc: "ce_LoadLocation env (d_Timezone d) = Inr loc" by blast
  show ?thesis
  proof (cases "CutPrefix (d_Schedule d) ''@every ''")
    case None
    then obtain nxt where "ce_Parse env (d_Schedule d) = Inr nxt"
      using v by (auto simp: ValidateSchedule_def split: sum.splits)
    then show ?thesis using None loc by (simp add: compileSchedule_def)
  next
    case (Some raw)
    then obtain i where "ce_ParseDuration env raw = Inr i" "Second \<le> i"
      using v by (auto simp: ValidateSchedule_def split: sum.splits if_splits)
    then show ?thesis using Some by (simp add: compileSchedule_def)
  qed
qed

lemma valid_restartDelay:
  assumes "valid_definition env d"
  shows "restartDelay d failures =
     (if d_RestartBackoffMax d = 0 then d_RestartDelay d * Second
      else min (d_RestartDelay d * Second * 2 ^ nat (failures - 1)) (d_RestartBackoffMax d * Second))"
proof (cases "d_RestartBackoffMax d = 0")
  case True
  have "fits64 (d_RestartDelay d * Second)" using assms by (simp add: valid_definition_def seconds_ok_def)
  moreover have "wrap64 0 = 0" by (simp add: wrap64_def)
  ultimately show ?thesis using True by (simp add: restartDelay_def wrap64_id)
next
  case False
  then have "1 \<le> d_RestartDelay d" "d_RestartDelay d \<le> d_RestartBackoffMax d" "d_RestartBackoffMax d \<le> 86400"
    using assms by (simp_all add: valid_definition_def seconds_ok_def)
  then show ?thesis by (intro restartDelay_closed_form) simp_all
qed

text \<open>C27: a definition that passed validation, from a configuration file, an import or a request
  (which all end in \<^verbatim>\<open>validateDefinitions\<close>), never fails later for its settings: the
  schedule of a job compiles, to a cron expression or an interval of at least a second; the restart
  delay of a worker is \<^verbatim>\<open>min(restart_delay * 2^(failures-1), restart_backoff_max)\<close> exactly
  (the plain delay without a maximum), is positive and does not overflow 64 bits; and its restart
  budget is at least one.\<close>

theorem validated_definition_runs:
  assumes ok: "validateDefinitions env ds tz = Inr ds'" and d: "d \<in> set ds'"
  shows "(d_Kind d = KindJob \<and> d_Schedule d \<noteq> '''' \<longrightarrow>
           (\<exists>c. compileSchedule (ce_ParseDuration env) (ce_LoadLocation env) (ce_Parse env) d = Inr c \<and>
             (cs_interval c = 0 \<or> Second \<le> cs_interval c))) \<and>
         restartDelay d failures =
           (if d_RestartBackoffMax d = 0 then d_RestartDelay d * Second
            else min (d_RestartDelay d * Second * 2 ^ nat (failures - 1)) (d_RestartBackoffMax d * Second)) \<and>
         0 < restartDelay d failures \<and> restartDelay d failures \<le> max_int64 \<and>
         1 \<le> d_MaxRestartAttempts d"
proof -
  have v: "valid_definition env d"
    using validateDefinitions_sound(4) [OF ok] d by (simp add: list_all_iff)
  then have r: "1 \<le> d_RestartDelay d" "d_RestartDelay d * Second \<le> max_int64" "1 \<le> d_MaxRestartAttempts d"
    "d_RestartBackoffMax d = 0 \<or> d_RestartDelay d \<le> d_RestartBackoffMax d \<and> d_RestartBackoffMax d \<le> 86400"
    by (simp_all add: valid_definition_def seconds_ok_def fits64_def)
  have "Second * 1 \<le> d_RestartDelay d * Second * 2 ^ nat (failures - 1)"
    using r(1) by (intro mult_mono) auto
  then have "0 < restartDelay d failures \<and> restartDelay d failures \<le> max_int64"
    using r by (auto simp: valid_restartDelay [OF v] max_int64_def min_def)
  then show ?thesis
    using valid_schedule_compiles [OF v] valid_restartDelay [OF v] r(3) by blast
qed

theorem validated_definition_runs_witness:
  "d_Schedule backup_def = ''@every 1h'' \<and>
   (\<exists>c. compileSchedule (ce_ParseDuration sample_env) (ce_LoadLocation sample_env) (ce_Parse sample_env) backup_def = Inr c) \<and>
   restartDelay backup_def 3 = 5 * Second"
proof -
  have "validateDefinitions sample_env [backup_def] ''UTC'' = Inr [backup_def]" by code_simp
  moreover have "d_Kind backup_def = KindJob" "d_Schedule backup_def = ''@every 1h''" "d_RestartBackoffMax backup_def = 0"
    "d_RestartDelay backup_def = 5" by code_simp+
  ultimately show ?thesis
    using validated_definition_runs [of sample_env "[backup_def]" "''UTC''" "[backup_def]" backup_def 3] by auto
qed

end
